(* ===== verification/Prelude.thy ===== *)
theory Prelude
  imports Main "HOL-Library.Word"
begin

text \<open>
  Shared ground of the development: the machine types of the C sources (i386, so \<open>int\<close>,
  \<open>long\<close> and pointers are 32 bits wide), the word facts that the paging and environment proofs
  need, the abstraction of a linked list threaded through an array (the page free list, the
  environment free list), and the collections of simplification rules the components use.
\<close>

unbundle bit_operations_syntax

type_synonym u8 = "8 word"
type_synonym u16 = "16 word"
type_synonym u32 = "32 word"
type_synonym u64 = "64 word"

named_theorems const_simps \<open>numeric constants of the header files\<close>
named_theorems mem_simps \<open>unfolding of field reads and writes of the kernel state\<close>

section \<open>Words\<close>

lemma unat_word_of_nat32: "n < 4294967296 \<Longrightarrow> unat (word_of_nat n :: u32) = n"
  by (simp add: unat_of_nat take_bit_eq_mod)

lemma word_of_nat_eq_iff32:
  "a < 4294967296 \<Longrightarrow> b < 4294967296 \<Longrightarrow> (word_of_nat a = (word_of_nat b :: u32)) = (a = b)"
  by (metis unat_word_of_nat32)

lemma unat_mod32: "unat ((a :: u32) mod b) = unat a mod unat b"
  by (simp add: unat_mod_distrib)

lemma unat_sub32: "b \<le> (a :: u32) \<Longrightarrow> unat (a - b) = unat a - unat b"
  by (simp add: unat_sub)

lemma unat_lt32: "unat (x :: u32) < 4294967296"
  using unsigned_less [of x] by simp

lemma unat_plus32: "unat (a + b :: u32) = (unat a + unat b) mod 4294967296"
  by (simp add: unat_word_ariths)

lemma unat_plus32_no_wrap:
  "unat (a :: u32) + unat b < 4294967296 \<Longrightarrow> unat (a + b) = unat a + unat b"
  by (simp add: unat_plus32)

lemma word_and_mask_unat32: "unat ((x :: u32) AND mask n) = unat x mod 2 ^ n"
  by (simp only: take_bit_eq_mask [symmetric] unsigned_take_bit_eq) (simp only: take_bit_eq_mod)

lemma unat_drop_bit32: "unat (drop_bit n (x :: u32)) = unat x div 2 ^ n"
proof -
  have "unat (drop_bit n x) = drop_bit n (unat x)"
    by (simp add: unsigned_drop_bit_eq take_bit_nat_eq_self unat_lt32)
  then show ?thesis by (simp only: drop_bit_eq_div)
qed

text \<open>A word is put together from its four bytes.\<close>

lemma word_from_bytes:
  "ucast (ucast w :: u8) OR push_bit 8 (ucast (ucast (drop_bit 8 w) :: u8)) OR push_bit 16 (ucast (ucast (drop_bit 16 w) :: u8))
     OR push_bit 24 (ucast (ucast (drop_bit 24 w) :: u8)) = (w :: u32)"
proof (rule bit_word_eqI)
  fix n assume "n < LENGTH(32)"
  then consider "n < 8" | "8 \<le> n" "n < 16" | "16 \<le> n" "n < 24" | "24 \<le> n" "n < 32" by fastforce
  then show "bit (ucast (ucast w :: u8) OR push_bit 8 (ucast (ucast (drop_bit 8 w) :: u8)) OR push_bit 16 (ucast (ucast (drop_bit 16 w) :: u8))
     OR push_bit 24 (ucast (ucast (drop_bit 24 w) :: u8) :: u32)) n = bit w n"
    by cases (auto simp: bit_simps bit_unsigned_iff)
qed

section \<open>Lists threaded through an array\<close>

text \<open>
  \<open>lseg next x as\<close>: following the \<open>next\<close> field from \<open>x\<close> visits the cells \<open>as\<close>, in this order,
  and ends in NULL (\<open>None\<close>). The kernel's free lists are such lists.
\<close>

primrec lseg :: "('a \<Rightarrow> 'a option) \<Rightarrow> 'a option \<Rightarrow> 'a list \<Rightarrow> bool" where
  "lseg nxt x [] \<longleftrightarrow> x = None"
| "lseg nxt x (a # as) \<longleftrightarrow> x = Some a \<and> lseg nxt (nxt a) as"

lemma lseg_None [simp]: "lseg nxt None as \<longleftrightarrow> as = []"
  by (cases as) auto

lemma lseg_Some: "lseg nxt (Some a) as \<longleftrightarrow> (\<exists>bs. as = a # bs \<and> lseg nxt (nxt a) bs)"
  by (cases as) auto

lemma lseg_frame: "(\<And>a. a \<in> set as \<Longrightarrow> nxt' a = nxt a) \<Longrightarrow> lseg nxt' x as = lseg nxt x as"
  by (induction as arbitrary: x) auto

lemma lseg_upd [simp]: "a \<notin> set as \<Longrightarrow> lseg (nxt(a := y)) x as = lseg nxt x as"
  by (rule lseg_frame) auto

lemma lseg_unique: "lseg nxt x as \<Longrightarrow> lseg nxt x bs \<Longrightarrow> as = bs"
  by (induction as arbitrary: x bs) (auto simp: lseg_Some)

lemma lseg_suffix: "lseg nxt x (as @ b # bs) \<Longrightarrow> lseg nxt (nxt b) bs"
  by (induction as arbitrary: x) auto

lemma lseg_head_notin: "lseg nxt (nxt a) as \<Longrightarrow> a \<notin> set as"
proof
  assume l: "lseg nxt (nxt a) as" and "a \<in> set as"
  then obtain ys zs where as: "as = ys @ a # zs" by (auto dest: split_list)
  from l have "lseg nxt (nxt a) zs" unfolding as by (rule lseg_suffix)
  with l as have "as = zs" using lseg_unique by metis
  with as show False by (metis append_Cons list.distinct(1) append_self_conv2 append.assoc append_eq_append_conv2)
qed

lemma lseg_distinct: "lseg nxt x as \<Longrightarrow> distinct as"
  by (induction as arbitrary: x) (auto dest: lseg_head_notin)

section \<open>C conventions\<close>

text \<open>A C condition on an integer value: zero is false.\<close>

abbreviation nz :: "'a::len word \<Rightarrow> bool" where
  "nz x \<equiv> x \<noteq> 0"

lemma unat_ucast8_32: "unat (ucast (b :: u8) :: u32) = unat b"
proof -
  have "unat b < 256" using unsigned_less [of b] by simp
  then show ?thesis by (simp add: unsigned_ucast_eq take_bit_nat_eq_self)
qed

lemma ucast8_32_0 [simp]: "(ucast (b :: u8) :: u32) = 0 \<longleftrightarrow> b = 0"
  by (metis unat_ucast8_32 unat_eq_zero)

lemma ucast_8_32_8 [simp]: "ucast (ucast (b :: u8) :: u32) = b"
  by (rule bit_word_eqI) (auto simp: bit_unsigned_iff)

text \<open>Signed readings of 32-bit words.\<close>

lemma wrap_signed: "n < 4294967296 \<Longrightarrow>
    (int n + 2147483648) mod 4294967296 - 2147483648 = (if n < 2147483648 then int n else int n - 4294967296)"
proof (cases "n < 2147483648")
  case True
  then show ?thesis by (simp add: mod_pos_pos_trivial)
next
  case False
  assume "n < 4294967296"
  then have "(int n + 2147483648 - 4294967296) mod 4294967296 = int n + 2147483648 - 4294967296"
    using False by (intro mod_pos_pos_trivial) auto
  then have "(int n + 2147483648) mod 4294967296 = int n + 2147483648 - 4294967296"
    by (metis minus_mod_self2)
  then show ?thesis using False by simp
qed

lemma sint32: "sint (x :: u32) = (if unat x < 2147483648 then int (unat x) else int (unat x) - 4294967296)"
proof -
  have "sint x = (int (unat x) + 2147483648) mod 4294967296 - 2147483648"
    by (simp add: sint_uint signed_take_bit_eq_take_bit_shift take_bit_eq_mod)
  then show ?thesis by (simp only: wrap_signed [OF unat_lt32])
qed

lemma sle0: "x \<le>s 0 \<longleftrightarrow> x = 0 \<or> 2147483648 \<le> unat x" for x :: u32
proof -
  have "(if n < 2147483648 then int n else int n - 4294967296) \<le> 0 \<longleftrightarrow> n = 0 \<or> 2147483648 \<le> n"
    if "n < 4294967296" for n using that by auto
  from this [OF unat_lt32 [of x]] show ?thesis
    unfolding word_sle_eq sint32 by (simp only: unat_0 of_nat_0 if_cancel unat_eq_zero) simp
qed

end
