(* ===== verification/Mmu.thy ===== *)
theory Mmu
  imports Prelude
begin

text \<open>
  The address arithmetic of inc/mmu.h, inc/memlayout.h and inc/types.h: splitting a linear
  address into directory index, table index and offset, page table entry flags, the virtual
  memory map, and rounding to multiples of the page size. All values are 32-bit words.
\<close>

definition PGSIZE :: u32 where [const_simps]: "PGSIZE = 4096"
definition NPDENTRIES :: nat where [const_simps]: "NPDENTRIES = 1024"
definition NPTENTRIES :: nat where [const_simps]: "NPTENTRIES = 1024"
definition PTSIZE :: u32 where [const_simps]: "PTSIZE = PGSIZE * 1024"
definition PTXSHIFT :: nat where [const_simps]: "PTXSHIFT = 12"
definition PDXSHIFT :: nat where [const_simps]: "PDXSHIFT = 22"

definition PGNUM :: "u32 \<Rightarrow> u32" where
  "PGNUM la = drop_bit PTXSHIFT la"

definition PDX :: "u32 \<Rightarrow> u32" where
  "PDX la = drop_bit PDXSHIFT la AND 0x3FF"

definition PTX :: "u32 \<Rightarrow> u32" where
  "PTX la = drop_bit PTXSHIFT la AND 0x3FF"

definition PGOFF :: "u32 \<Rightarrow> u32" where
  "PGOFF la = la AND 0xFFF"

definition PGADDR :: "u32 \<Rightarrow> u32 \<Rightarrow> u32 \<Rightarrow> u32" where
  "PGADDR d t off = push_bit PDXSHIFT d OR push_bit PTXSHIFT t OR off"

definition PTE_P :: u32 where [const_simps]: "PTE_P = 0x001"
definition PTE_W :: u32 where [const_simps]: "PTE_W = 0x002"
definition PTE_U :: u32 where [const_simps]: "PTE_U = 0x004"
definition PTE_PWT :: u32 where [const_simps]: "PTE_PWT = 0x008"
definition PTE_PCD :: u32 where [const_simps]: "PTE_PCD = 0x010"
definition PTE_AVAIL :: u32 where [const_simps]: "PTE_AVAIL = 0xE00"
definition PTE_SYSCALL :: u32 where
  [const_simps]: "PTE_SYSCALL = PTE_AVAIL OR PTE_P OR PTE_W OR PTE_U"

definition PTE_ADDR :: "u32 \<Rightarrow> u32" where
  "PTE_ADDR pte = pte AND NOT 0xFFF"

definition FEC_WR :: u32 where [const_simps]: "FEC_WR = 0x2"
definition FL_IF :: u32 where [const_simps]: "FL_IF = 0x200"

section \<open>The virtual memory map (inc/memlayout.h)\<close>

definition GD_KT :: u16 where [const_simps]: "GD_KT = 0x08"
definition GD_KD :: u16 where [const_simps]: "GD_KD = 0x10"
definition GD_UT :: u16 where [const_simps]: "GD_UT = 0x18"
definition GD_UD :: u16 where [const_simps]: "GD_UD = 0x20"
definition GD_TSS0 :: u16 where [const_simps]: "GD_TSS0 = 0x28"

definition KERNBASE :: u32 where [const_simps]: "KERNBASE = 0xF0000000"
definition IOPHYSMEM :: u32 where [const_simps]: "IOPHYSMEM = 0x0A0000"
definition EXTPHYSMEM :: u32 where [const_simps]: "EXTPHYSMEM = 0x100000"
definition KSTACKTOP :: u32 where [const_simps]: "KSTACKTOP = KERNBASE"
definition KSTKSIZE :: u32 where [const_simps]: "KSTKSIZE = 8 * PGSIZE"
definition KSTKGAP :: u32 where [const_simps]: "KSTKGAP = 8 * PGSIZE"
definition MMIOLIM :: u32 where [const_simps]: "MMIOLIM = KSTACKTOP - PTSIZE"
definition MMIOBASE :: u32 where [const_simps]: "MMIOBASE = MMIOLIM - PTSIZE"
definition ULIM :: u32 where [const_simps]: "ULIM = MMIOBASE"
definition UVPT :: u32 where [const_simps]: "UVPT = ULIM - PTSIZE"
definition UPAGES :: u32 where [const_simps]: "UPAGES = UVPT - PTSIZE"
definition UENVS :: u32 where [const_simps]: "UENVS = UPAGES - PTSIZE"
definition UTOP :: u32 where [const_simps]: "UTOP = UENVS"
definition UXSTACKTOP :: u32 where [const_simps]: "UXSTACKTOP = UTOP"
definition USTACKTOP :: u32 where [const_simps]: "USTACKTOP = UTOP - 2 * PGSIZE"
definition UTEXT :: u32 where [const_simps]: "UTEXT = 2 * PTSIZE"
definition UTEMP :: u32 where [const_simps]: "UTEMP = PTSIZE"
definition PFTEMP :: u32 where [const_simps]: "PFTEMP = UTEMP + PTSIZE - PGSIZE"
definition MPENTRY_PADDR :: u32 where [const_simps]: "MPENTRY_PADDR = 0x7000"

section \<open>Rounding (inc/types.h)\<close>

definition ROUNDDOWN :: "u32 \<Rightarrow> u32 \<Rightarrow> u32" where
  "ROUNDDOWN a n = a - a mod n"

definition ROUNDUP :: "u32 \<Rightarrow> u32 \<Rightarrow> u32" where
  "ROUNDUP a n = ROUNDDOWN (a + n - 1) n"

section \<open>Splitting and rebuilding linear addresses\<close>

lemma mask_FFF: "(0xFFF :: u32) = mask 12" and mask_3FF: "(0x3FF :: u32) = mask 10"
  by (simp_all add: mask_eq_exp_minus_1)

lemma unat_PGNUM: "unat (PGNUM a) = unat a div 4096"
  by (simp add: PGNUM_def PTXSHIFT_def unat_drop_bit32)

lemma unat_PDX: "unat (PDX a) = unat a div 4194304"
proof -
  have "unat a div 4194304 < 1024" using unat_lt32 [of a] by simp
  then show ?thesis
    by (simp add: PDX_def PDXSHIFT_def mask_3FF word_and_mask_unat32 unat_drop_bit32)
qed

lemma unat_PTX: "unat (PTX a) = unat a div 4096 mod 1024"
  by (simp add: PTX_def PTXSHIFT_def mask_3FF word_and_mask_unat32 unat_drop_bit32)

lemma unat_PGOFF: "unat (PGOFF a) = unat a mod 4096"
  by (simp add: PGOFF_def mask_FFF word_and_mask_unat32)

lemma PDX_lt [simp]: "unat (PDX a) < 1024"
  using unat_lt32 [of a] by (simp add: unat_PDX)

lemma PTX_lt [simp]: "unat (PTX a) < 1024"
  by (simp add: unat_PTX)

lemma PGOFF_lt [simp]: "unat (PGOFF a) < 4096"
  by (simp add: unat_PGOFF)

text \<open>Two addresses with the same directory index, table index and offset are the same address.\<close>

lemma PGNUM_decomp: "unat (PGNUM a) = unat (PDX a) * 1024 + unat (PTX a)"
proof -
  have "unat a div 4194304 = unat a div 4096 div 1024"
    by (simp add: div_mult2_eq [symmetric])
  then show ?thesis by (simp add: unat_PGNUM unat_PDX unat_PTX)
qed

lemma PDX_PTX_inj:
  "unat (PDX a) = unat (PDX b) \<Longrightarrow> unat (PTX a) = unat (PTX b) \<Longrightarrow> PGNUM a = PGNUM b"
  by (metis PGNUM_decomp word_unat_eq_iff)

lemma PGNUM_PDX: "PGNUM a = PGNUM b \<Longrightarrow> PDX a = PDX b"
  and PGNUM_PTX: "PGNUM a = PGNUM b \<Longrightarrow> PTX a = PTX b"
proof -
  assume h: "PGNUM a = PGNUM b"
  then have u: "unat a div 4096 = unat b div 4096" by (metis unat_PGNUM)
  then show "PTX a = PTX b" by (simp add: word_unat_eq_iff unat_PTX)
  have "x div 4194304 = x div 4096 div 1024" for x :: nat by (simp add: div_mult2_eq [symmetric])
  with u show "PDX a = PDX b" by (simp add: word_unat_eq_iff unat_PDX)
qed

lemma index_take_bits:
  "PDX la = take_bit 10 (drop_bit 22 la)" "PTX la = take_bit 10 (drop_bit 12 la)"
  "PGOFF la = take_bit 12 la"
  by (simp_all only: PDX_def PTX_def PGOFF_def PDXSHIFT_def PTXSHIFT_def mask_3FF mask_FFF
      take_bit_eq_mask)

lemmas bit_index_simps = PGADDR_def index_take_bits PDXSHIFT_def PTXSHIFT_def
  bit_or_iff bit_push_bit_iff bit_drop_bit_eq bit_take_bit_iff comp_apply

lemma PGADDR_split: "PGADDR (PDX la) (PTX la) (PGOFF la) = la"
proof (rule bit_word_eqI)
  fix n assume n: "n < LENGTH(32)"
  consider "n < 12" | "12 \<le> n" "n < 22" | "22 \<le> n" by linarith
  then show "bit (PGADDR (PDX la) (PTX la) (PGOFF la)) n = bit la n"
    using n by cases (simp_all only: bit_index_simps, auto simp: possible_bit_def)
qed

lemma less_mask_bits: "unat (x :: u32) < 2 ^ k \<Longrightarrow> bit x n \<Longrightarrow> n < k"
proof -
  assume l: "unat x < 2 ^ k" and b: "bit x n"
  then have "take_bit k (unat x) = unat x" by (simp add: take_bit_nat_eq_self)
  moreover from b have "bit (unat x) n" by (simp add: bit_unsigned_iff)
  ultimately show "n < k" by (metis bit_take_bit_iff)
qed

lemma PGADDR_parts:
  assumes d: "unat d < 1024" and t: "unat t < 1024" and off: "unat off < 4096"
  shows "PDX (PGADDR d t off) = d" "PTX (PGADDR d t off) = t" "PGOFF (PGADDR d t off) = off"
proof -
  have bd: "bit d n \<Longrightarrow> n < 10" and bt: "bit t n \<Longrightarrow> n < 10" and bo: "bit off n \<Longrightarrow> n < 12" for n
    using less_mask_bits [of d 10] less_mask_bits [of t 10] less_mask_bits [of off 12] assms by simp_all
  show "PDX (PGADDR d t off) = d" "PTX (PGADDR d t off) = t" "PGOFF (PGADDR d t off) = off"
    by (rule bit_word_eqI; simp only: bit_index_simps; auto simp: possible_bit_def dest: bd bt bo)+
qed

section \<open>Rounding\<close>

lemma mod_le_word: "(a :: u32) mod n \<le> a"
  by (simp add: word_le_nat_alt unat_mod32)

lemma unat_ROUNDDOWN: "unat (ROUNDDOWN a n) = unat a - unat a mod unat n"
  by (simp add: ROUNDDOWN_def unat_sub32 [OF mod_le_word] unat_mod32)

lemma unat_ROUNDDOWN_PGSIZE: "unat (ROUNDDOWN a PGSIZE) = unat a div 4096 * 4096"
  by (simp add: unat_ROUNDDOWN PGSIZE_def minus_mod_eq_div_mult)

lemma unat_ROUNDUP_PGSIZE:
  assumes "unat a + 4095 < 4294967296"
  shows "unat (ROUNDUP a PGSIZE) = (unat a + 4095) div 4096 * 4096"
proof -
  have "unat (a + 4095) = unat a + 4095"
    using assms by (simp add: unat_plus32)
  then show ?thesis
    by (simp add: ROUNDUP_def PGSIZE_def unat_ROUNDDOWN minus_mod_eq_div_mult
        add.commute [of 4095])
qed

lemma ROUNDDOWN_aligned: "unat (ROUNDDOWN a PGSIZE) mod 4096 = 0"
  by (simp add: unat_ROUNDDOWN_PGSIZE)

end
