(* ===== verification/ConsOut.thy ===== *)
theory ConsOut
  imports Prelude
begin

text \<open>
  The state of the console of the JOS kernel (lab/kern/console.c) and its output side: the serial
  port, the parallel port and the text display.

  The devices are part of the state: \<open>serial_in\<close> and \<open>kbd_in\<close> hold the bytes the devices
  will deliver (for the keyboard with the status bit \<open>KBS_TERR\<close>), and \<open>port_out\<close> records, latest
  first, the bytes written to I/O ports. The busy-wait loops of \<open>serial_putc\<close> and \<open>lpt_putc\<close>
  only delay (they are bounded by 12800 iterations) and leave no trace.
\<close>

record console =
  cons_buf :: "nat \<Rightarrow> u8"
  rpos :: nat
  wpos :: nat
  kbd_shift :: u32
  serial_exists :: bool
  serial_in :: "u8 list"
  kbd_in :: "(bool \<times> u8) list"
  crt_buf :: "nat \<Rightarrow> u16"
  crt_pos :: u16
  addr_6845 :: nat
  port_out :: "(nat \<times> u8) list"
  irq_mask_8259A :: u16
  didinit :: bool

definition CONSBUFSIZE :: nat where [const_simps]: "CONSBUFSIZE = 512"
definition CRT_COLS :: nat where [const_simps]: "CRT_COLS = 80"
definition CRT_SIZE :: nat where [const_simps]: "CRT_SIZE = 2000"
definition COM1 :: nat where [const_simps]: "COM1 = 0x3F8"

section \<open>Output\<close>

definition outb :: "nat \<Rightarrow> u8 \<Rightarrow> console \<Rightarrow> console" where
  "outb port v con = con\<lparr>port_out := (port, v) # port_out con\<rparr>"

definition serial_putc :: "u32 \<Rightarrow> console \<Rightarrow> console" where
  "serial_putc c con = outb COM1 (ucast c) con"

definition lpt_putc :: "u32 \<Rightarrow> console \<Rightarrow> console" where
  "lpt_putc c con = outb (0x378 + 2) 0x08 (outb (0x378 + 2) (0x08 OR 0x04 OR 0x01)
     (outb 0x378 (ucast c) con))"

text \<open>The part of \<open>cga_putc\<close> after its switch: scrolling and the hardware cursor.\<close>

definition cga_finish :: "console \<Rightarrow> console" where
  "cga_finish con =
     (let con = (if unat (crt_pos con) \<ge> CRT_SIZE
                 then con\<lparr>crt_buf := (\<lambda>i. if i < CRT_SIZE - CRT_COLS then crt_buf con (i + CRT_COLS)
                                         else if i < CRT_SIZE then 0x0720 else crt_buf con i),
                          crt_pos := crt_pos con - 80\<rparr>
                 else con);
          con = outb (addr_6845 con) 14 con;
          con = outb (addr_6845 con + 1) (ucast (drop_bit 8 (crt_pos con))) con;
          con = outb (addr_6845 con) 15 con
      in outb (addr_6845 con + 1) (ucast (crt_pos con)) con)"

text \<open>\<open>cga_putc\<close> for every character but a tab, which calls \<open>cons_putc\<close> again.\<close>

definition cga_attr :: "u32 \<Rightarrow> u32" where
  "cga_attr c = (if \<not> nz (c AND NOT 0xFF) then c OR 0x0700 else c)"

definition cga_putc_plain :: "u32 \<Rightarrow> console \<Rightarrow> console" where
  "cga_putc_plain c con =
     (let c = cga_attr c; k = c AND 0xFF
      in cga_finish
           (if k = 0x08 then
              if crt_pos con > 0
              then let con = con\<lparr>crt_pos := crt_pos con - 1\<rparr>
                   in con\<lparr>crt_buf := (crt_buf con)(unat (crt_pos con) := ucast ((c AND NOT 0xFF) OR 0x20))\<rparr>
              else con
            else if k = 0x0A then
              let con = con\<lparr>crt_pos := crt_pos con + 80\<rparr>
              in con\<lparr>crt_pos := crt_pos con - crt_pos con mod 80\<rparr>
            else if k = 0x0D then con\<lparr>crt_pos := crt_pos con - crt_pos con mod 80\<rparr>
            else con\<lparr>crt_buf := (crt_buf con)(unat (crt_pos con) := ucast c),
                      crt_pos := crt_pos con + 1\<rparr>))"

definition cons_putc_plain :: "u32 \<Rightarrow> console \<Rightarrow> console" where
  "cons_putc_plain c con = cga_putc_plain c (lpt_putc c (serial_putc c con))"

definition cga_putc :: "u32 \<Rightarrow> console \<Rightarrow> console" where
  "cga_putc c con =
     (if cga_attr c AND 0xFF = 0x09 then cga_finish ((cons_putc_plain 0x20 ^^ 5) con)
      else cga_putc_plain c con)"

definition cons_putc :: "u32 \<Rightarrow> console \<Rightarrow> console" where
  "cons_putc c con = cga_putc c (lpt_putc c (serial_putc c con))"

definition cputchar :: "u32 \<Rightarrow> console \<Rightarrow> console" where
  "cputchar c con = cons_putc c con"


text \<open>\<open>cprintf\<close> of a string without conversions: \<open>cputchar\<close> of every character.\<close>

definition cputs :: "string \<Rightarrow> console \<Rightarrow> console" where
  "cputs str con = fold (\<lambda>ch. cputchar (of_char ch)) str con"

section \<open>Output leaves the input side alone\<close>

definition same_input :: "console \<Rightarrow> console \<Rightarrow> bool" where
  "same_input a b \<longleftrightarrow> cons_buf a = cons_buf b \<and> rpos a = rpos b \<and> wpos a = wpos b
     \<and> kbd_shift a = kbd_shift b \<and> serial_exists a = serial_exists b \<and> serial_in a = serial_in b
     \<and> kbd_in a = kbd_in b"

lemma same_input_trans: "same_input a b \<Longrightarrow> same_input b c \<Longrightarrow> same_input a c"
  by (simp add: same_input_def)

lemma same_input_outb: "same_input (outb p v con) con"
  by (simp add: same_input_def outb_def)

lemma same_input_cga_plain: "same_input (cga_putc_plain c con) con"
  by (simp add: same_input_def cga_putc_plain_def cga_finish_def outb_def Let_def)

lemma same_input_putc_plain: "same_input (cons_putc_plain c con) con"
  unfolding cons_putc_plain_def lpt_putc_def serial_putc_def
  by (rule same_input_trans [OF same_input_cga_plain]) (simp add: same_input_def outb_def)

lemma same_input_funpow: "same_input ((cons_putc_plain c ^^ n) con) con"
  by (induction n) (auto intro: same_input_trans same_input_putc_plain simp: same_input_def [of con con])

lemma same_input_finish: "same_input (cga_finish con) con"
  by (simp add: same_input_def cga_finish_def outb_def Let_def)

lemma same_input_cons_putc: "same_input (cons_putc c con) con"
proof -
  have "same_input (cga_putc c d) d" for d
    by (simp add: cga_putc_def same_input_cga_plain
          same_input_trans [OF same_input_finish same_input_funpow])
  then show ?thesis
    unfolding cons_putc_def
    by (rule same_input_trans) (simp add: lpt_putc_def serial_putc_def same_input_def outb_def)
qed

lemma same_input_cputs: "same_input (cputs str con) con"
  unfolding cputs_def
proof (induction str arbitrary: con)
  case (Cons ch str)
  show ?case
    using same_input_trans [OF Cons.IH same_input_cons_putc] by (simp add: cputchar_def)
qed (simp add: same_input_def)

section \<open>The cursor stays on the screen\<close>

text \<open>
  \<open>crt_ok\<close>: the cursor is on the 80x25 screen. \<open>off_screen\<close> compares two displays outside it:
  the kernel must not write video memory beyond the 2000 cells.
\<close>

definition crt_ok :: "console \<Rightarrow> bool" where
  "crt_ok con \<longleftrightarrow> unat (crt_pos con) < CRT_SIZE"

definition off_screen :: "console \<Rightarrow> console \<Rightarrow> bool" where
  "off_screen a b \<longleftrightarrow> (\<forall>i \<ge> CRT_SIZE. crt_buf a i = crt_buf b i)"

lemma unat_plus16: "unat a + n < 65536 \<Longrightarrow> unat (a + word_of_nat n) = unat a + n" for a :: u16
  by (simp add: unat_word_ariths unat_of_nat)

lemma unat_sub16: "n \<le> unat a \<Longrightarrow> unat (a - word_of_nat n) = unat a - n" for a :: u16
proof -
  have "unat a < 65536" using unsigned_less [of a] by simp
  then show "n \<le> unat a \<Longrightarrow> unat (a - word_of_nat n) = unat a - n"
    by (subst unat_sub) (auto simp: word_le_nat_alt unat_of_nat)
qed

lemma cga_finish_ok:
  assumes "unat (crt_pos con) < CRT_SIZE + CRT_COLS"
  shows "crt_ok (cga_finish con)" "off_screen (cga_finish con) con"
proof -
  have "CRT_SIZE \<le> unat (crt_pos con) \<Longrightarrow> unat (crt_pos con - 80) = unat (crt_pos con) - 80"
    using unat_sub16 [of 80 "crt_pos con"] by (simp add: const_simps)
  then show "crt_ok (cga_finish con)"
    using assms by (auto simp: crt_ok_def cga_finish_def outb_def Let_def const_simps)
  show "off_screen (cga_finish con) con"
    by (auto simp: off_screen_def cga_finish_def outb_def Let_def)
qed

lemma off_screen_trans: "off_screen a b \<Longrightarrow> off_screen b c \<Longrightarrow> off_screen a c"
  by (simp add: off_screen_def)

lemma off_screenI: "(\<And>i. CRT_SIZE \<le> i \<Longrightarrow> crt_buf a i = crt_buf b i) \<Longrightarrow> off_screen a b"
  by (simp add: off_screen_def)


lemma unat_mod16: "unat (a mod 80) = unat a mod 80" for a :: u16
  by (simp add: unat_mod)

lemma cga_putc_plain_ok:
  assumes "crt_ok con"
  shows "crt_ok (cga_putc_plain c con) \<and> off_screen (cga_putc_plain c con) con"
proof -
  let ?p = "unat (crt_pos con)"
  have p: "?p < 2000" using assms by (simp add: crt_ok_def const_simps)
  have inc: "unat (crt_pos con + 1) = ?p + 1" "unat (crt_pos con + 80) = ?p + 80"
    using unat_plus16 [of "crt_pos con" 1] unat_plus16 [of "crt_pos con" 80] p by simp_all
  have dec: "0 < crt_pos con \<Longrightarrow> unat (crt_pos con - 1) = ?p - 1"
    using unat_sub16 [of 1 "crt_pos con"] by (simp add: word_less_nat_alt)
  have cr: "unat (q - q mod 80) = unat q - unat q mod 80" for q :: u16
    by (subst unat_sub) (simp_all add: word_le_nat_alt unat_mod16)
  have fin: "crt_ok (cga_finish d) \<and> off_screen (cga_finish d) con"
    if "unat (crt_pos d) < 2080" "off_screen d con" for d
    using cga_finish_ok [of d] that off_screen_trans by (auto simp: const_simps)
  show ?thesis
    unfolding cga_putc_plain_def Let_def
    using p by (intro fin) (auto simp: inc dec cr off_screen_def const_simps)
qed

lemma port_writes: "crt_ok (outb p v con) = crt_ok con" "off_screen a (outb p v con) = off_screen a con"
  by (simp_all add: crt_ok_def off_screen_def outb_def)

lemma cons_putc_plain_ok: "crt_ok con \<Longrightarrow> crt_ok (cons_putc_plain c con) \<and> off_screen (cons_putc_plain c con) con"
  using cga_putc_plain_ok [of "lpt_putc c (serial_putc c con)" c]
  by (simp add: cons_putc_plain_def lpt_putc_def serial_putc_def port_writes)

lemma cons_putc_pow_ok:
  "crt_ok con \<Longrightarrow> crt_ok ((cons_putc_plain c ^^ n) con) \<and> off_screen ((cons_putc_plain c ^^ n) con) con"
proof (induction n)
  case (Suc n)
  then show ?case using cons_putc_plain_ok off_screen_trans by fastforce
qed (simp add: off_screen_def)

lemma cga_putc_ok:
  assumes "crt_ok con"
  shows "crt_ok (cga_putc c con) \<and> off_screen (cga_putc c con) con"
proof (cases "cga_attr c AND 0xFF = 0x09")
  case True
  let ?d = "(cons_putc_plain 0x20 ^^ 5) con"
  have d: "crt_ok ?d" "off_screen ?d con" using cons_putc_pow_ok [OF assms] by auto
  then have "unat (crt_pos ?d) < CRT_SIZE + CRT_COLS" by (simp add: crt_ok_def)
  with cga_finish_ok [of ?d] d(2) show ?thesis
    unfolding cga_putc_def using True by (auto intro: off_screen_trans)
next
  case False
  then show ?thesis using cga_putc_plain_ok [OF assms] by (simp add: cga_putc_def)
qed

lemma cons_putc_ok: "crt_ok con \<Longrightarrow> crt_ok (cons_putc c con) \<and> off_screen (cons_putc c con) con"
  using cga_putc_ok [of "lpt_putc c (serial_putc c con)" c]
  by (simp add: cons_putc_def lpt_putc_def serial_putc_def port_writes)

end
