(* ===== verification/Picirq.thy ===== *)
theory Picirq
  imports ConsOut
begin

text \<open>
  The 8259A interrupt controllers (lab/kern/picirq.c) and the real-time clock (lab/kern/kclock.c).
\<close>

definition IRQ_SLAVE :: nat where [const_simps]: "IRQ_SLAVE = 2"
definition IRQ_KBD :: nat where [const_simps]: "IRQ_KBD = 1"
definition IRQ_SERIAL :: nat where [const_simps]: "IRQ_SERIAL = 4"
definition IRQ_OFFSET :: nat where [const_simps]: "IRQ_OFFSET = 32"
definition IO_PIC1 :: nat where [const_simps]: "IO_PIC1 = 0x20"
definition IO_PIC2 :: nat where [const_simps]: "IO_PIC2 = 0xA0"
definition IO_RTC :: nat where [const_simps]: "IO_RTC = 0x70"

text \<open>The digits of \<open>cprintf(" %d", i)\<close> for an interrupt number.\<close>

definition irq_digits :: "nat \<Rightarrow> string" where
  "irq_digits i = (if i < 10 then [char_of (48 + i)] else [char_of (48 + i div 10), char_of (48 + i mod 10)])"

definition enabled_irqs :: "u16 \<Rightarrow> nat list" where
  "enabled_irqs msk = filter (\<lambda>i. bit (NOT msk) i) [0..<16]"

definition irq_setmask_8259A :: "u16 \<Rightarrow> console \<Rightarrow> console" where
  "irq_setmask_8259A msk con =
     (let con = con\<lparr>irq_mask_8259A := msk\<rparr>
      in if \<not> didinit con then con
         else let con = outb (IO_PIC1 + 1) (ucast msk) con;
                  con = outb (IO_PIC2 + 1) (ucast (drop_bit 8 msk)) con;
                  con = cputs ''enabled interrupts:'' con;
                  con = fold (\<lambda>i. cputs (CHR '' '' # irq_digits i)) (enabled_irqs msk) con
              in cputs [CHR 0x0A] con)"

definition pic_init_writes :: "(nat \<times> u8) list" where
  "pic_init_writes =
     [(IO_PIC1 + 1, 0xFF), (IO_PIC2 + 1, 0xFF),
      (IO_PIC1, 0x11), (IO_PIC1 + 1, word_of_nat IRQ_OFFSET), (IO_PIC1 + 1, push_bit IRQ_SLAVE 1),
      (IO_PIC1 + 1, 0x3),
      (IO_PIC2, 0x11), (IO_PIC2 + 1, word_of_nat (IRQ_OFFSET + 8)), (IO_PIC2 + 1, word_of_nat IRQ_SLAVE),
      (IO_PIC2 + 1, 0x01),
      (IO_PIC1, 0x68), (IO_PIC1, 0x0A), (IO_PIC2, 0x68), (IO_PIC2, 0x0A)]"

definition pic_init :: "console \<Rightarrow> console" where
  "pic_init con =
     (let con = con\<lparr>didinit := True\<rparr>;
          con = fold (\<lambda>(p, v). outb p v) pic_init_writes con
      in if irq_mask_8259A con \<noteq> 0xFFFF then irq_setmask_8259A (irq_mask_8259A con) con else con)"

text \<open>The clock's registers are a parameter of \<open>mc146818_read\<close>.\<close>

definition mc146818_read :: "(u8 \<Rightarrow> u8) \<Rightarrow> u32 \<Rightarrow> console \<Rightarrow> u32 \<times> console" where
  "mc146818_read nvram reg con = (ucast (nvram (ucast reg)), outb IO_RTC (ucast reg) con)"

definition mc146818_write :: "u32 \<Rightarrow> u32 \<Rightarrow> console \<Rightarrow> console" where
  "mc146818_write reg datum con = outb (IO_RTC + 1) (ucast datum) (outb IO_RTC (ucast reg) con)"

lemma same_input_setmask: "same_input (irq_setmask_8259A msk con) con"
proof -
  have f: "same_input (fold (\<lambda>i. cputs (g i)) is d) d" for g :: "nat \<Rightarrow> string" and "is" d
  proof (induction "is" arbitrary: d)
    case (Cons i "is")
    show ?case using same_input_trans [OF Cons.IH same_input_cputs] by simp
  qed (simp add: same_input_def)
  have m: "same_input (d\<lparr>irq_mask_8259A := m\<rparr>) d" for d m by (simp add: same_input_def)
  show ?thesis
    unfolding irq_setmask_8259A_def Let_def
    by (auto intro!: same_input_trans [OF same_input_cputs] same_input_trans [OF f]
        same_input_trans [OF same_input_outb] m)
qed

end
