(* ===== verification/Console.thy ===== *)
theory Console
  imports Picirq
begin

text \<open>
  The input side of the console of the JOS kernel (lab/kern/console.c): keyboard scan codes, the
  serial port and the circular input buffer they feed, device initialisation, and the proof that
  the buffer is a FIFO queue of 511 characters.
\<close>

section \<open>Keyboard\<close>

definition SHIFT :: u32 where [const_simps]: "SHIFT = 1"
definition CTL :: u32 where [const_simps]: "CTL = 2"
definition ALT :: u32 where [const_simps]: "ALT = 4"
definition CAPSLOCK :: u32 where [const_simps]: "CAPSLOCK = 8"
definition NUMLOCK :: u32 where [const_simps]: "NUMLOCK = 16"
definition SCROLLLOCK :: u32 where [const_simps]: "SCROLLLOCK = 32"
definition E0ESC :: u32 where [const_simps]: "E0ESC = 64"

definition shiftcode :: "u8 \<Rightarrow> u32" where
  "shiftcode d = (if d = 0x1D then CTL else if d = 0x2A then SHIFT else if d = 0x36 then SHIFT
     else if d = 0x38 then ALT else if d = 0x9D then CTL else if d = 0xB8 then ALT else 0)"

definition togglecode :: "u8 \<Rightarrow> u32" where
  "togglecode d = (if d = 0x3A then CAPSLOCK else if d = 0x45 then NUMLOCK
     else if d = 0x46 then SCROLLLOCK else 0)"

text \<open>The designated initialisers shared by the key maps: KEY\_HOME to KEY\_DEL.\<close>

definition keypad_map :: "nat \<Rightarrow> u8" where
  "keypad_map d = (if d = 0xC8 then 0xE2 else if d = 0xC9 then 0xE6 else if d = 0xCB then 0xE4
     else if d = 0xCD then 0xE5 else if d = 0xCF then 0xE1 else if d = 0xD0 then 0xE3
     else if d = 0xD1 then 0xE7 else if d = 0xD2 then 0xE8 else if d = 0xD3 then 0xE9 else 0)"

definition normalmap :: "u8 \<Rightarrow> u8" where
  "normalmap d = (let n = unat d; tbl =
     [0, 0x1B, 0x31, 0x32, 0x33, 0x34, 0x35, 0x36,
      0x37, 0x38, 0x39, 0x30, 0x2D, 0x3D, 0x08, 0x09,
      0x71, 0x77, 0x65, 0x72, 0x74, 0x79, 0x75, 0x69,
      0x6F, 0x70, 0x5B, 0x5D, 0x0A, 0, 0x61, 0x73,
      0x64, 0x66, 0x67, 0x68, 0x6A, 0x6B, 0x6C, 0x3B,
      0x27, 0x60, 0, 0x5C, 0x7A, 0x78, 0x63, 0x76,
      0x62, 0x6E, 0x6D, 0x2C, 0x2E, 0x2F, 0, 0x2A,
      0, 0x20, 0, 0, 0, 0, 0, 0,
      0, 0, 0, 0, 0, 0, 0, 0x37,
      0x38, 0x39, 0x2D, 0x34, 0x35, 0x36, 0x2B, 0x31,
      0x32, 0x33, 0x30, 0x2E, 0, 0, 0, 0]
     in if n < length tbl then tbl ! n
        else if n = 0xC7 then 0xE0 else if n = 0x9C then 0x0A else if n = 0xB5 then 0x2F
        else keypad_map n)"

definition shiftmap :: "u8 \<Rightarrow> u8" where
  "shiftmap d = (let n = unat d; tbl =
     [0, 0x1B, 0x21, 0x40, 0x23, 0x24, 0x25, 0x5E,
      0x26, 0x2A, 0x28, 0x29, 0x5F, 0x2B, 0x08, 0x09,
      0x51, 0x57, 0x45, 0x52, 0x54, 0x59, 0x55, 0x49,
      0x4F, 0x50, 0x7B, 0x7D, 0x0A, 0, 0x41, 0x53,
      0x44, 0x46, 0x47, 0x48, 0x4A, 0x4B, 0x4C, 0x3A,
      0x22, 0x7E, 0, 0x7C, 0x5A, 0x58, 0x43, 0x56,
      0x42, 0x4E, 0x4D, 0x3C, 0x3E, 0x3F, 0, 0x2A,
      0, 0x20, 0, 0, 0, 0, 0, 0,
      0, 0, 0, 0, 0, 0, 0, 0x37,
      0x38, 0x39, 0x2D, 0x34, 0x35, 0x36, 0x2B, 0x31,
      0x32, 0x33, 0x30, 0x2E, 0, 0, 0, 0]
     in if n < length tbl then tbl ! n
        else if n = 0xC7 then 0xE0 else if n = 0x9C then 0x0A else if n = 0xB5 then 0x2F
        else keypad_map n)"

text \<open>\<open>C(x)\<close> is \<open>x - '@'\<close>; \<open>C('/')\<close> is negative and wraps to a byte.\<close>

definition ctlmap :: "u8 \<Rightarrow> u8" where
  "ctlmap d = (let n = unat d; tbl =
     [0, 0, 0, 0, 0, 0, 0, 0,
      0, 0, 0, 0, 0, 0, 0, 0,
      0x51 - 0x40, 0x57 - 0x40, 0x45 - 0x40, 0x52 - 0x40, 0x54 - 0x40, 0x59 - 0x40, 0x55 - 0x40, 0x49 - 0x40,
      0x4F - 0x40, 0x50 - 0x40, 0, 0, 0x0D, 0, 0x41 - 0x40, 0x53 - 0x40,
      0x44 - 0x40, 0x46 - 0x40, 0x47 - 0x40, 0x48 - 0x40, 0x4A - 0x40, 0x4B - 0x40, 0x4C - 0x40, 0,
      0, 0, 0, 0x5C - 0x40, 0x5A - 0x40, 0x58 - 0x40, 0x43 - 0x40, 0x56 - 0x40,
      0x42 - 0x40, 0x4E - 0x40, 0x4D - 0x40, 0, 0, 0x2F - 0x40, 0, 0]
     in if n < length tbl then tbl ! n
        else if n = 0x97 then 0xE0 else if n = 0xB5 then 0x2F - 0x40
        else keypad_map n)"

definition charcode :: "u32 \<Rightarrow> u8 \<Rightarrow> u8" where
  "charcode k d = (if k = 0 then normalmap d else if k = 1 then shiftmap d else ctlmap d)"

text \<open>
  \<open>kbd_proc_data\<close>: \<open>None\<close> is the value -1 (no data); otherwise the character, 0 when no
  character is finished. The scan code is taken from the controller only when it is read.
\<close>

definition kbd_char :: "u8 \<Rightarrow> console \<Rightarrow> u32 \<times> console" where
  "kbd_char data con =
     (let shift = kbd_shift con in
      if data = 0xE0 then (0, con\<lparr>kbd_shift := shift OR E0ESC\<rparr>)
      else if nz (data AND 0x80) then
        let data = (if nz (shift AND E0ESC) then data else data AND 0x7F)
        in (0, con\<lparr>kbd_shift := shift AND NOT (shiftcode data OR E0ESC)\<rparr>)
      else
        let (data, shift) = (if nz (shift AND E0ESC) then (data OR 0x80, shift AND NOT E0ESC)
                             else (data, shift));
            shift = shift OR shiftcode data;
            shift = shift XOR togglecode data;
            c = (ucast (charcode (shift AND (CTL OR SHIFT)) data) :: u32);
            c = (if nz (shift AND CAPSLOCK)
                 then if 0x61 \<le> c \<and> c \<le> 0x7A then c + (0x41 - 0x61)
                      else if 0x41 \<le> c \<and> c \<le> 0x5A then c + (0x61 - 0x41) else c
                 else c);
            con = con\<lparr>kbd_shift := shift\<rparr>
        in if \<not> nz (NOT shift AND (CTL OR ALT)) \<and> c = 0xE9
           then (c, outb 0x92 3 (cputs (''Rebooting!'' @ [CHR 0x0A]) con))
           else (c, con))"

definition kbd_proc_data :: "console \<Rightarrow> u32 option \<times> console" where
  "kbd_proc_data con =
     (case kbd_in con of
        [] \<Rightarrow> (None, con)
      | (terr, data) # rest \<Rightarrow>
          if terr then (None, con)
          else case kbd_char data (con\<lparr>kbd_in := rest\<rparr>) of (c, con) \<Rightarrow> (Some c, con))"

section \<open>Serial port\<close>

definition serial_proc_data :: "console \<Rightarrow> u32 option \<times> console" where
  "serial_proc_data con =
     (case serial_in con of
        [] \<Rightarrow> (None, con)
      | b # rest \<Rightarrow> (Some (ucast b), con\<lparr>serial_in := rest\<rparr>))"

section \<open>The circular input buffer\<close>

text \<open>One round of the loop of \<open>cons_intr\<close>: store a non-zero character.\<close>

definition cons_store :: "u32 \<Rightarrow> console \<Rightarrow> console" where
  "cons_store c con =
     (if c = 0 then con
      else let con = con\<lparr>cons_buf := (cons_buf con)(wpos con := ucast c), wpos := wpos con + 1\<rparr>
           in if wpos con = CONSBUFSIZE then con\<lparr>wpos := 0\<rparr> else con)"

text \<open>
  \<open>cons_intr\<close> for its two callers. Every call of \<open>proc\<close> that does not return -1 takes one item
  from the device, so the loops end.
\<close>

function cons_intr_serial :: "console \<Rightarrow> console" where
  "cons_intr_serial con =
     (case serial_proc_data con of
        (None, con') \<Rightarrow> con'
      | (Some c, con') \<Rightarrow> cons_intr_serial (cons_store c con'))"
  by pat_completeness auto
termination
  by (relation "measure (length \<circ> serial_in)")
    (auto simp: serial_proc_data_def cons_store_def Let_def split: list.splits)

lemma kbd_char_in: "kbd_in (snd (kbd_char data con)) = kbd_in con"
  using same_input_cputs [of "''Rebooting!'' @ [CHR 0x0A]"]
  by (auto simp: kbd_char_def Let_def outb_def same_input_def split: prod.splits)

lemma kbd_proc_in:
  "kbd_proc_data con = (Some c, con') \<Longrightarrow> length (kbd_in con') < length (kbd_in con)"
  by (auto simp: kbd_proc_data_def kbd_char_in split: list.splits if_splits prod.splits
      dest!: arg_cong [where f = "\<lambda>x. kbd_in (snd x)"])

function cons_intr_kbd :: "console \<Rightarrow> console" where
  "cons_intr_kbd con =
     (case kbd_proc_data con of
        (None, con') \<Rightarrow> con'
      | (Some c, con') \<Rightarrow> cons_intr_kbd (cons_store c con'))"
  by pat_completeness auto
termination
  by (relation "measure (length \<circ> kbd_in)")
    (auto simp: cons_store_def Let_def kbd_proc_in dest: sym)

declare cons_intr_serial.simps [simp del] cons_intr_kbd.simps [simp del]

definition serial_intr :: "console \<Rightarrow> console" where
  "serial_intr con = (if serial_exists con then cons_intr_serial con else con)"

definition kbd_intr :: "console \<Rightarrow> console" where
  "kbd_intr con = cons_intr_kbd con"

text \<open>The part of \<open>cons_getc\<close> after polling the devices.\<close>

definition cons_take :: "console \<Rightarrow> u32 \<times> console" where
  "cons_take con =
     (if rpos con \<noteq> wpos con
      then let c = ucast (cons_buf con (rpos con));
               con = con\<lparr>rpos := rpos con + 1\<rparr>
           in (c, if rpos con = CONSBUFSIZE then con\<lparr>rpos := 0\<rparr> else con)
      else (0, con))"

definition cons_getc :: "console \<Rightarrow> u32 \<times> console" where
  "cons_getc con = cons_take (kbd_intr (serial_intr con))"

section \<open>Initialisation\<close>

text \<open>
  \<open>cga_init\<close>: whether the probe of colour memory reads back its pattern, and the two bytes of the
  cursor position, come from the display. \<open>buf\<close> is the contents of the chosen video memory, which
  the probe of colour memory leaves as it was.
\<close>

definition cga_init :: "bool \<Rightarrow> u8 \<Rightarrow> u8 \<Rightarrow> console \<Rightarrow> console" where
  "cga_init colour hi lo con =
     (let con = con\<lparr>addr_6845 := (if colour then 0x3D4 else 0x3B4)\<rparr>;
          con = outb (addr_6845 con) 14 con;
          pos = push_bit 8 (ucast hi :: u32);
          con = outb (addr_6845 con) 15 con;
          pos = pos OR ucast lo
      in con\<lparr>crt_pos := ucast pos\<rparr>)"

definition kbd_init :: "console \<Rightarrow> console" where
  "kbd_init con = (let con = kbd_intr con
     in irq_setmask_8259A (irq_mask_8259A con AND NOT (push_bit IRQ_KBD 1)) con)"

text \<open>\<open>lsr\<close> is the line status register after programming; the last read drops a pending byte.\<close>

definition serial_init :: "u8 \<Rightarrow> console \<Rightarrow> console" where
  "serial_init lsr con =
     (let con = outb (COM1 + 2) 0 con;
          con = outb (COM1 + 3) 0x80 con;
          con = outb (COM1 + 0) (word_of_nat (115200 div 9600)) con;
          con = outb (COM1 + 1) 0 con;
          con = outb (COM1 + 3) (0x03 AND NOT 0x80) con;
          con = outb (COM1 + 4) 0 con;
          con = outb (COM1 + 1) 0x01 con;
          con = con\<lparr>serial_exists := (lsr \<noteq> 0xFF), serial_in := drop 1 (serial_in con)\<rparr>
      in if serial_exists con
         then irq_setmask_8259A (irq_mask_8259A con AND NOT (push_bit IRQ_SERIAL 1)) con
         else con)"

definition cons_init :: "bool \<Rightarrow> u8 \<Rightarrow> u8 \<Rightarrow> u8 \<Rightarrow> console \<Rightarrow> console" where
  "cons_init colour hi lo lsr con =
     (let con = serial_init lsr (kbd_init (cga_init colour hi lo con))
      in if \<not> serial_exists con then cputs (''Serial port does not exist!'' @ [CHR 0x0A]) con else con)"

text \<open>\<open>getchar\<close> polls until a character arrives: \<open>None\<close> when none ever does.\<close>

partial_function (option) getchar :: "console \<Rightarrow> (u32 \<times> console) option" where
  "getchar con = (case cons_getc con of (c, con) \<Rightarrow> if c = 0 then getchar con else Some (c, con))"

definition iscons :: "int \<Rightarrow> int" where
  "iscons fdnum = 1"

section \<open>The input buffer is a bounded queue\<close>

text \<open>A queue of bounded capacity: what a reader and a writer of a ring buffer rely on.\<close>

locale bounded_queue =
  fixes inv :: "'s \<Rightarrow> bool"
    and abs :: "'s \<Rightarrow> 'a list"
    and put :: "'a \<Rightarrow> 's \<Rightarrow> 's"
    and take1 :: "'s \<Rightarrow> 'a option \<times> 's"
    and cap :: nat
  assumes inv_put: "inv s \<Longrightarrow> inv (put x s)"
    and inv_take: "inv s \<Longrightarrow> inv (snd (take1 s))"
    and abs_put: "inv s \<Longrightarrow> length (abs s) < cap \<Longrightarrow> abs (put x s) = abs s @ [x]"
    and take_empty: "inv s \<Longrightarrow> abs s = [] \<Longrightarrow> take1 s = (None, s)"
    and take_cons: "inv s \<Longrightarrow> abs s = x # xs \<Longrightarrow> fst (take1 s) = Some x \<and> abs (snd (take1 s)) = xs"
begin

primrec take_all :: "nat \<Rightarrow> 's \<Rightarrow> 'a list" where
  "take_all 0 s = []"
| "take_all (Suc n) s = (case fst (take1 s) of None \<Rightarrow> [] | Some x \<Rightarrow> x # take_all n (snd (take1 s)))"

lemma inv_puts: "inv s \<Longrightarrow> inv (fold put xs s)"
  by (induction xs arbitrary: s) (auto intro: inv_put)

lemma abs_puts: "inv s \<Longrightarrow> length (abs s) + length xs \<le> cap \<Longrightarrow> abs (fold put xs s) = abs s @ xs"
proof (induction xs arbitrary: s)
  case (Cons x xs)
  then have "abs (put x s) = abs s @ [x]" by (intro abs_put) auto
  with Cons show ?case by (simp add: inv_put)
qed simp

lemma take_all_abs: "inv s \<Longrightarrow> take_all n s = take n (abs s)"
proof (induction n arbitrary: s)
  case (Suc n)
  show ?case
  proof (cases "abs s")
    case Nil
    with Suc.prems show ?thesis by (simp add: take_empty)
  next
    case (Cons x xs)
    with Suc take_cons [OF Suc.prems Cons] show ?thesis by (simp add: inv_take)
  qed
qed simp

lemma fifo:
  assumes "inv s" "abs s = []" "length xs \<le> cap"
  shows "take_all (length xs) (fold put xs s) = xs"
  using assms by (simp add: take_all_abs inv_puts abs_puts)

end

definition ring_inv :: "console \<Rightarrow> bool" where
  "ring_inv con \<longleftrightarrow> rpos con < CONSBUFSIZE \<and> wpos con < CONSBUFSIZE"

definition ring_len :: "console \<Rightarrow> nat" where
  "ring_len con = (wpos con + CONSBUFSIZE - rpos con) mod CONSBUFSIZE"

definition pending :: "console \<Rightarrow> u8 list" where
  "pending con = map (\<lambda>k. cons_buf con ((rpos con + k) mod CONSBUFSIZE)) [0..<ring_len con]"

definition ring_put :: "u8 \<Rightarrow> console \<Rightarrow> console" where
  "ring_put b con = (let w = wpos con in con\<lparr>cons_buf := (cons_buf con)(w := b),
      wpos := (if w + 1 = CONSBUFSIZE then 0 else w + 1)\<rparr>)"

definition ring_take :: "console \<Rightarrow> u8 option \<times> console" where
  "ring_take con = (if rpos con = wpos con then (None, con)
     else (Some (cons_buf con (rpos con)),
           con\<lparr>rpos := (if rpos con + 1 = CONSBUFSIZE then 0 else rpos con + 1)\<rparr>))"

lemma cons_store_ring: "cons_store c con = (if c = 0 then con else ring_put (ucast c) con)"
  by (simp add: cons_store_def ring_put_def Let_def)

lemma cons_take_ring: "cons_take con =
    (case ring_take con of (None, con') \<Rightarrow> (0, con') | (Some b, con') \<Rightarrow> (ucast b, con'))"
  by (simp add: cons_take_def ring_take_def Let_def)

lemma ring_len_lt: "ring_len con < 512"
  by (simp add: ring_len_def CONSBUFSIZE_def)

lemma ring_len_cases:
  "ring_inv con \<Longrightarrow> ring_len con = (if rpos con \<le> wpos con then wpos con - rpos con
                                        else wpos con + 512 - rpos con)"
  by (auto simp: ring_inv_def ring_len_def CONSBUFSIZE_def mod_if)

lemma wrap_mod: "a < 1024 \<Longrightarrow> a mod 512 = (if a < 512 then a else a - 512)" for a :: nat
  by (simp add: mod_if)

lemma ring_inv_lt: "ring_inv con \<Longrightarrow> rpos con < 512 \<and> wpos con < 512"
  by (simp add: ring_inv_def CONSBUFSIZE_def)

lemma ring_inv_put: "ring_inv con \<Longrightarrow> ring_inv (ring_put b con)"
  by (auto simp: ring_inv_def ring_put_def Let_def CONSBUFSIZE_def)

lemma ring_inv_take: "ring_inv con \<Longrightarrow> ring_inv (snd (ring_take con))"
  by (auto simp: ring_inv_def ring_take_def CONSBUFSIZE_def)

lemma ring_put_len:
  assumes "ring_inv con"
  shows "ring_len (ring_put b con) = (if ring_len con = 511 then 0 else Suc (ring_len con))"
  using assms ring_inv_lt [OF assms]
  unfolding ring_len_cases [OF assms] ring_len_cases [OF ring_inv_put [OF assms]]
  by (auto simp: ring_put_def Let_def CONSBUFSIZE_def)

lemma ring_wpos: "ring_inv con \<Longrightarrow> (rpos con + ring_len con) mod 512 = wpos con"
  using ring_inv_lt [of con] by (simp add: ring_len_cases)

lemma ring_other:
  assumes "ring_inv con" "k < ring_len con"
  shows "(rpos con + k) mod 512 \<noteq> wpos con"
proof -
  have "(rpos con + k) mod 512 = (if rpos con + k < 512 then rpos con + k else rpos con + k - 512)"
    using ring_inv_lt [OF assms(1)] ring_len_lt [of con] assms(2) by (intro wrap_mod) linarith
  then show ?thesis
    using assms ring_inv_lt [OF assms(1)] by (auto simp: ring_len_cases split: if_splits)
qed

lemma pending_put:
  assumes I: "ring_inv con" and l: "ring_len con < 511"
  shows "pending (ring_put b con) = pending con @ [b]"
proof -
  have r: "rpos (ring_put b con) = rpos con" "cons_buf (ring_put b con) = (cons_buf con)(wpos con := b)"
    by (simp_all add: ring_put_def Let_def)
  have n: "ring_len (ring_put b con) = Suc (ring_len con)" using ring_put_len [OF I] l by simp
  show ?thesis
    using ring_wpos [OF I] ring_other [OF I]
    by (auto simp: pending_def n r CONSBUFSIZE_def intro!: map_cong)
qed

lemma pending_take:
  assumes I: "ring_inv con"
  shows "pending con = [] \<longleftrightarrow> rpos con = wpos con"
    and "rpos con \<noteq> wpos con \<Longrightarrow> pending con = cons_buf con (rpos con) # pending (snd (ring_take con))"
proof -
  show e: "pending con = [] \<longleftrightarrow> rpos con = wpos con"
    using ring_inv_lt [OF I] by (auto simp: pending_def ring_len_cases [OF I])
  assume ne: "rpos con \<noteq> wpos con"
  then obtain m where m: "ring_len con = Suc m"
    using e by (cases "ring_len con") (auto simp: pending_def)
  let ?c = "snd (ring_take con)"
  have r: "rpos ?c = (rpos con + 1) mod 512" "cons_buf ?c = cons_buf con" "wpos ?c = wpos con"
    using ne I by (auto simp: ring_take_def ring_inv_def CONSBUFSIZE_def)
  have lm: "ring_len ?c = m"
    using m ne ring_inv_lt [OF I]
    unfolding ring_len_cases [OF I] ring_len_cases [OF ring_inv_take [OF I]] r
    by (cases "rpos con = 511") (auto split: if_splits)
  have "pending con = cons_buf con (rpos con) # map (\<lambda>k. cons_buf con ((rpos con + Suc k) mod 512)) [0..<m]"
    using I unfolding pending_def m CONSBUFSIZE_def ring_inv_def
    by (simp add: upt_rec [of 0] map_Suc_upt [symmetric] comp_def del: upt_Suc)
  then show "pending con = cons_buf con (rpos con) # pending ?c"
    by (simp add: pending_def lm r CONSBUFSIZE_def mod_add_left_eq)
qed

interpretation ringq: bounded_queue ring_inv pending ring_put ring_take 511
proof unfold_locales
  fix con :: console and b x :: u8 and xs
  assume I: "ring_inv con"
  show "ring_inv (ring_put b con)" by (rule ring_inv_put [OF I])
  show "ring_inv (snd (ring_take con))" by (rule ring_inv_take [OF I])
  show "length (pending con) < 511 \<Longrightarrow> pending (ring_put b con) = pending con @ [b]"
    by (rule pending_put [OF I]) (simp add: pending_def)
  show "pending con = [] \<Longrightarrow> ring_take con = (None, con)"
    using pending_take(1) [OF I] by (simp add: ring_take_def)
  show "pending con = x # xs \<Longrightarrow> fst (ring_take con) = Some x \<and> pending (snd (ring_take con)) = xs"
    using pending_take [OF I] by (auto simp: ring_take_def)
qed

section \<open>What a reader sees\<close>

text \<open>The serial interrupt queues the non-zero bytes that the port delivers, in order.\<close>

lemma cons_intr_serial_fold:
  "cons_intr_serial con =
     fold ring_put (filter (\<lambda>b. b \<noteq> 0) (serial_in con)) (con\<lparr>serial_in := []\<rparr>)"
proof (induction "serial_in con" arbitrary: con)
  case Nil
  then show ?case by (subst cons_intr_serial.simps) (simp add: serial_proc_data_def)
next
  case (Cons b bs)
  let ?c = "con\<lparr>serial_in := bs\<rparr>"
  have put: "(ring_put b ?c)\<lparr>serial_in := []\<rparr> = ring_put b (con\<lparr>serial_in := []\<rparr>)"
    by (cases con) (simp add: ring_put_def Let_def)
  have "cons_intr_serial con = cons_intr_serial (if b = 0 then ?c else ring_put b ?c)"
    using Cons.hyps(2) [symmetric]
    by (subst cons_intr_serial.simps) (simp add: serial_proc_data_def cons_store_ring)
  moreover have "serial_in (if b = 0 then ?c else ring_put b ?c) = bs"
    by (simp add: ring_put_def Let_def)
  ultimately show ?case
    using Cons.hyps(1) [of "if b = 0 then ?c else ring_put b ?c"] Cons.hyps(2) [symmetric]
    by (simp add: put)
qed

text \<open>Repeated \<open>cons_getc\<close>, and the state with no input waiting at the devices.\<close>

primrec cons_getcs :: "nat \<Rightarrow> console \<Rightarrow> u32 list" where
  "cons_getcs 0 con = []"
| "cons_getcs (Suc n) con = (case cons_getc con of (c, con') \<Rightarrow> c # cons_getcs n con')"

definition quiet :: "console \<Rightarrow> bool" where
  "quiet con \<longleftrightarrow> serial_in con = [] \<and> kbd_in con = []"

lemma quiet_poll: "quiet con \<Longrightarrow> kbd_intr (serial_intr con) = con"
  by (simp add: quiet_def kbd_intr_def serial_intr_def cons_intr_serial.simps cons_intr_kbd.simps
      serial_proc_data_def kbd_proc_data_def)

lemma quiet_take: "quiet con \<Longrightarrow> quiet (snd (ring_take con))"
  by (simp add: quiet_def ring_take_def)

lemma quiet_getcs:
  assumes "quiet con" "ring_inv con" "n \<le> length (pending con)"
  shows "cons_getcs n con = map ucast (ringq.take_all n con)"
  using assms
proof (induction n arbitrary: con)
  case (Suc n)
  obtain b bs where p: "pending con = b # bs" using Suc.prems(3) by (cases "pending con") auto
  have t: "fst (ring_take con) = Some b" "pending (snd (ring_take con)) = bs"
    using ringq.take_cons [OF Suc.prems(2) p] by auto
  then obtain con' where c: "ring_take con = (Some b, con')" by (cases "ring_take con") auto
  then have "cons_getc con = (ucast b, con')"
    using quiet_poll [OF Suc.prems(1)] by (simp add: cons_getc_def cons_take_ring)
  moreover have "cons_getcs n con' = map ucast (ringq.take_all n con')"
    using Suc c t p quiet_take [OF Suc.prems(1)] ringq.inv_take [OF Suc.prems(2)] by (intro Suc.IH) auto
  ultimately show ?case using c by simp
qed simp

lemma getcs_poll:
  assumes "kbd_in con = []"
  shows "cons_getcs n con = cons_getcs n (serial_intr con)"
proof (cases "serial_exists con")
  case True
  have "kbd_in (fold ring_put bs d) = kbd_in d" "serial_in (fold ring_put bs d) = serial_in d" for bs d
    by (induction bs arbitrary: d) (simp_all add: ring_put_def Let_def)
  then have "quiet (serial_intr con)"
    using assms True by (simp add: quiet_def serial_intr_def cons_intr_serial_fold)
  then have "cons_getc con = cons_getc (serial_intr con)"
    using quiet_poll [of "serial_intr con"] assms
    by (simp add: cons_getc_def kbd_intr_def cons_intr_kbd.simps kbd_proc_data_def quiet_def)
  then show ?thesis by (cases n) simp_all
qed (simp add: serial_intr_def)

text \<open>
  C32: console input is a FIFO: the non-zero bytes that the serial port delivers, at most 511 of
  them into an empty buffer, are returned by successive calls of \<open>cons_getc\<close>, in order.
\<close>

theorem cons_getc_fifo:
  assumes "ring_inv con" and "rpos con = wpos con" and "serial_exists con" and "kbd_in con = []"
    and "bs = filter (\<lambda>b. b \<noteq> 0) (serial_in con)" and "length bs < CONSBUFSIZE"
  shows "cons_getcs (length bs) con = map ucast bs"
proof -
  let ?c = "con\<lparr>serial_in := []\<rparr>"
  have I: "ring_inv ?c" and e: "pending ?c = []"
    using assms(1,2) pending_take(1) [of ?c] by (auto simp: ring_inv_def)
  have l: "length bs \<le> 511" using assms(6) by (simp add: CONSBUFSIZE_def)
  have s: "serial_intr con = fold ring_put bs ?c"
    using assms by (simp add: serial_intr_def cons_intr_serial_fold)
  have "kbd_in (fold ring_put bs d) = kbd_in d" "serial_in (fold ring_put bs d) = serial_in d" for d
    by (induction bs arbitrary: d) (simp_all add: ring_put_def Let_def)
  then have "quiet (serial_intr con)" using assms(4) s by (simp add: quiet_def)
  then have "cons_getcs (length bs) (serial_intr con) = map ucast (ringq.take_all (length bs) (serial_intr con))"
    using I e l s by (intro quiet_getcs) (simp_all add: ringq.inv_puts ringq.abs_puts)
  then show ?thesis
    using ringq.fifo [OF I e l] getcs_poll [OF assms(4)] s by simp
qed

text \<open>
  an unread 512th character empties the console buffer: with 511 characters pending, storing
  one more leaves nothing to read.
\<close>

theorem cons_store_overflow:
  assumes "ring_inv con" and "length (pending con) = CONSBUFSIZE - 1" and "c \<noteq> 0"
  shows "pending (cons_store c con) = [] \<and> ring_inv (cons_store c con)"
  using assms ring_put_len [of con "ucast c"] ring_inv_put [of con "ucast c"]
  by (simp add: cons_store_ring pending_def CONSBUFSIZE_def)

text \<open>
  a character written to the console, tabs, newlines and backspaces included, leaves the cursor
  on the 80x25 screen and never touches video memory beyond its 2000 cells; the input side of the
  console is unchanged.
\<close>

theorem cputchar_screen:
  assumes "unat (crt_pos con) < CRT_SIZE"
  shows "unat (crt_pos (cputchar c con)) < CRT_SIZE
    \<and> (\<forall>i. CRT_SIZE \<le> i \<longrightarrow> crt_buf (cputchar c con) i = crt_buf con i)
    \<and> pending (cputchar c con) = pending con"
  using cons_putc_ok [of con c] same_input_cons_putc [of c con] assms
  by (auto simp: cputchar_def crt_ok_def off_screen_def same_input_def pending_def ring_len_def)

text \<open>A console at boot, with three bytes waiting at the serial port.\<close>

definition con0 :: console where
  "con0 = \<lparr>cons_buf = \<lambda>_. 0, rpos = 0, wpos = 0, kbd_shift = 0, serial_exists = True,
     serial_in = [0x61, 0, 0x62], kbd_in = [], crt_buf = \<lambda>_. 0x0720, crt_pos = 1999,
     addr_6845 = 0x3D4, port_out = [], irq_mask_8259A = 0xFFFB, didinit = False\<rparr>"

theorem cons_getc_fifo_witness: "cons_getcs 2 con0 = [0x61, 0x62]"
proof -
  have "cons_getcs (length [0x61, 0x62 :: u8]) con0 = map ucast [0x61, 0x62 :: u8]"
    by (rule cons_getc_fifo) (simp_all add: con0_def ring_inv_def CONSBUFSIZE_def)
  moreover have "length [0x61, 0x62 :: u8] = 2" by simp
  ultimately show ?thesis by (simp del: cons_getcs.simps list.size)
qed

theorem cons_store_overflow_witness: "pending (cons_store 0x63 (con0\<lparr>wpos := 511\<rparr>)) = []"
  using cons_store_overflow [of "con0\<lparr>wpos := 511\<rparr>" "0x63"]
  by (simp add: con0_def ring_inv_def CONSBUFSIZE_def pending_def ring_len_def)

theorem cputchar_screen_witness: "unat (crt_pos (cputchar 0x41 con0)) < CRT_SIZE"
  using cputchar_screen [of con0 "0x41"] by (simp add: con0_def CRT_SIZE_def)

end
