(* ===== verification/KState.thy ===== *)
theory KState
  imports Mmu Console
begin

text \<open>
  The state of the JOS kernel (lab/kern) and the result type of its operations.

  Representation. The C arrays \<open>pages\<close>, \<open>envs\<close> and \<open>cpus\<close> are functions from the index; a
  \<open>struct PageInfo *\<close> or \<open>struct Env *\<close> is an index, NULL is \<open>None\<close>. Physical memory is
  \<open>pm p i\<close>, the \<open>i\<close>-th 32-bit word of physical page \<open>p\<close>. The kernel reaches it through the
  mapping of all physical memory at KERNBASE, so a kernel pointer to a page (\<open>pde_t *\<close>, the
  result of KADDR or page2kva) is the page's number, and a \<open>pte_t *\<close> is a page and an index.
  The privileged instructions an operation executes are recorded, latest first, in \<open>hwlog\<close>.
\<close>

section \<open>Data\<close>

record PageInfo =
  pp_link :: "nat option"
  pp_ref :: u16

record PushRegs =
  reg_edi :: u32
  reg_esi :: u32
  reg_ebp :: u32
  reg_oesp :: u32
  reg_ebx :: u32
  reg_edx :: u32
  reg_ecx :: u32
  reg_eax :: u32

record Trapframe =
  tf_regs :: PushRegs
  tf_es :: u16
  tf_ds :: u16
  tf_trapno :: u32
  tf_err :: u32
  tf_eip :: u32
  tf_cs :: u16
  tf_eflags :: u32
  tf_esp :: u32
  tf_ss :: u16

datatype EnvStatus = ENV_FREE | ENV_DYING | ENV_RUNNABLE | ENV_RUNNING | ENV_NOT_RUNNABLE

datatype EnvType = ENV_TYPE_USER | ENV_TYPE_FS

record Env =
  env_tf :: Trapframe
  env_link :: "nat option"
  env_id :: u32
  env_parent_id :: u32
  env_type :: EnvType
  env_status :: EnvStatus
  env_runs :: u32
  env_cpunum :: nat
  env_pgdir :: "nat option"
  env_pgfault_upcall :: u32
  env_ipc_recving :: bool
  env_ipc_dstva :: u32
  env_ipc_value :: u32
  env_ipc_from :: u32
  env_ipc_perm :: u32

datatype CpuStatus = CPU_UNUSED | CPU_STARTED | CPU_HALTED

record Taskstate =
  ts_esp0 :: u32
  ts_ss0 :: u16
  ts_iomb :: u16

record CpuInfo =
  cpu_id :: u8
  cpu_status :: CpuStatus
  cpu_env :: "nat option"
  cpu_ts :: Taskstate

text \<open>A spin lock with \<open>DEBUG_SPINLOCK\<close>: the word, and the CPU that holds it.\<close>

record spinlock =
  locked :: u32
  lk_cpu :: "nat option"

text \<open>Privileged instructions and device accesses that the modelled code executes.\<close>

datatype hwop = Invlpg u32 | Lcr3 u32 | Lcr0 u32 | LapicEoi | Ltr u16 | Lidt | Lgdt | Lldt u16 | MovSeg string u16 | Ljmp u16

record kstate =
  npages :: nat
  npages_basemem :: nat
  pages :: "nat \<Rightarrow> PageInfo"
  page_free_list :: "nat option"
  pm :: "nat \<Rightarrow> nat \<Rightarrow> u32"
  kern_pgdir :: nat
  nextfree :: u32
  mmio_base :: u32
  user_mem_check_addr :: u32
  envs :: "nat \<Rightarrow> Env"
  env_free_list :: "nat option"
  cpus :: "nat \<Rightarrow> CpuInfo"
  cpunum :: nat
  kernel_lock :: spinlock
  hwlog :: "hwop list"
  kcons :: console

definition NENV :: nat where [const_simps]: "NENV = 1024"
definition NCPU :: nat where [const_simps]: "NCPU = 8"

definition E_BAD_ENV :: int where [const_simps]: "E_BAD_ENV = 2"
definition E_INVAL :: int where [const_simps]: "E_INVAL = 3"
definition E_NO_MEM :: int where [const_simps]: "E_NO_MEM = 4"
definition E_NO_FREE_ENV :: int where [const_simps]: "E_NO_FREE_ENV = 5"
definition E_FAULT :: int where [const_simps]: "E_FAULT = 6"
definition E_IPC_NOT_RECV :: int where [const_simps]: "E_IPC_NOT_RECV = 7"

section \<open>Results\<close>

text \<open>
  A kernel function returns (\<open>Ret\<close>), panics (\<open>Panic\<close>), or leaves the kernel for good
  (\<open>Exit\<close>): it enters an environment with \<open>iret\<close>, halts the CPU, drops into the monitor,
  or spins on a lock that another CPU holds.
\<close>

datatype kexit = Run nat | Halted | Monitor | Spin

datatype 'a kres = Ret 'a kstate | Panic string kstate | Exit kexit kstate

primrec kbind :: "'a kres \<Rightarrow> ('a \<Rightarrow> kstate \<Rightarrow> 'b kres) \<Rightarrow> 'b kres" where
  "kbind (Ret x s) f = f x s"
| "kbind (Panic msg s) f = Panic msg s"
| "kbind (Exit e s) f = Exit e s"

primrec kst :: "'a kres \<Rightarrow> kstate" where
  "kst (Ret x s) = s"
| "kst (Panic msg s) = s"
| "kst (Exit e s) = s"

lemma kbind_Ret_iff: "kbind m f = Ret y t \<longleftrightarrow> (\<exists>x s. m = Ret x s \<and> f x s = Ret y t)"
  by (cases m) auto

lemma kbind_assoc: "kbind (kbind m f) g = kbind m (\<lambda>x s. kbind (f x s) g)"
  by (cases m) auto

section \<open>Field updates\<close>

definition upd_page :: "nat \<Rightarrow> (PageInfo \<Rightarrow> PageInfo) \<Rightarrow> kstate \<Rightarrow> kstate" where
  [mem_simps]: "upd_page p f s = s\<lparr>pages := (pages s)(p := f (pages s p))\<rparr>"

definition upd_env :: "nat \<Rightarrow> (Env \<Rightarrow> Env) \<Rightarrow> kstate \<Rightarrow> kstate" where
  [mem_simps]: "upd_env e f s = s\<lparr>envs := (envs s)(e := f (envs s e))\<rparr>"

definition upd_cpu :: "(CpuInfo \<Rightarrow> CpuInfo) \<Rightarrow> kstate \<Rightarrow> kstate" where
  [mem_simps]: "upd_cpu f s = s\<lparr>cpus := (cpus s)(cpunum s := f (cpus s (cpunum s)))\<rparr>"

definition set_pm :: "nat \<Rightarrow> nat \<Rightarrow> u32 \<Rightarrow> kstate \<Rightarrow> kstate" where
  [mem_simps]: "set_pm p i v s = s\<lparr>pm := (pm s)(p := (pm s p)(i := v))\<rparr>"

definition memset_page :: "nat \<Rightarrow> u32 \<Rightarrow> kstate \<Rightarrow> kstate" where
  [mem_simps]: "memset_page p v s = s\<lparr>pm := (pm s)(p := (\<lambda>_. v))\<rparr>"

definition memcpy_page :: "nat \<Rightarrow> nat \<Rightarrow> kstate \<Rightarrow> kstate" where
  [mem_simps]: "memcpy_page dst src s = s\<lparr>pm := (pm s)(dst := pm s src)\<rparr>"

definition hw :: "hwop \<Rightarrow> kstate \<Rightarrow> kstate" where
  [mem_simps]: "hw x s = s\<lparr>hwlog := x # hwlog s\<rparr>"

text \<open>\<open>curenv\<close> is \<open>thiscpu->cpu_env\<close>.\<close>

definition curenv :: "kstate \<Rightarrow> nat option" where
  [mem_simps]: "curenv s = cpu_env (cpus s (cpunum s))"

definition set_curenv :: "nat option \<Rightarrow> kstate \<Rightarrow> kstate" where
  [mem_simps]: "set_curenv e s = upd_cpu (cpu_env_update (\<lambda>_. e)) s"

text \<open>
  Reading through a NULL \<open>curenv\<close> or a NULL \<open>env_pgdir\<close> faults in kernel mode, which
  page_fault_handler turns into a panic.
\<close>

definition with_curenv :: "kstate \<Rightarrow> (nat \<Rightarrow> 'a kres) \<Rightarrow> 'a kres" where
  "with_curenv s f = (case curenv s of
      None \<Rightarrow> Panic ''page_fault_handler():page fault in kernel mode!'' s
    | Some e \<Rightarrow> f e)"

definition with_pgdir :: "nat \<Rightarrow> kstate \<Rightarrow> (nat \<Rightarrow> 'a kres) \<Rightarrow> 'a kres" where
  "with_pgdir e s f = (case env_pgdir (envs s e) of
      None \<Rightarrow> Panic ''page_fault_handler():page fault in kernel mode!'' s
    | Some pd \<Rightarrow> f pd)"

lemma with_curenv_Some [simp]: "curenv s = Some e \<Longrightarrow> with_curenv s f = f e"
  by (simp add: with_curenv_def)

lemma with_pgdir_Some [simp]: "env_pgdir (envs s e) = Some pd \<Longrightarrow> with_pgdir e s f = f pd"
  by (simp add: with_pgdir_def)

section \<open>A small concrete state\<close>

text \<open>
  Eight physical pages: page 0 is the kernel's page directory, page 1 is reserved, page 2 is the
  directory of environment 0, page 3 is allocated and not yet mapped, pages 4 to 7 are free. Environment 0 (id 0x1000) runs
  on CPU 0, which holds the kernel lock; the other environments are free, in order.
\<close>

definition tf0 :: Trapframe where
  "tf0 = \<lparr>tf_regs = \<lparr>reg_edi = 0, reg_esi = 0, reg_ebp = 0, reg_oesp = 0, reg_ebx = 0, reg_edx = 0,
      reg_ecx = 0, reg_eax = 0\<rparr>, tf_es = 0, tf_ds = 0, tf_trapno = 0, tf_err = 0, tf_eip = 0,
      tf_cs = 0, tf_eflags = 0, tf_esp = 0, tf_ss = 0\<rparr>"

definition env0 :: "nat \<Rightarrow> Env" where
  "env0 e = \<lparr>env_tf = tf0, env_link = (if 0 < e \<and> e < 1023 then Some (e + 1) else None),
      env_id = (if e = 0 then 0x1000 else 0), env_parent_id = 0, env_type = ENV_TYPE_USER,
      env_status = (if e = 0 then ENV_RUNNING else ENV_FREE), env_runs = 0, env_cpunum = 0,
      env_pgdir = (if e = 0 then Some 2 else None), env_pgfault_upcall = 0, env_ipc_recving = False,
      env_ipc_dstva = 0, env_ipc_value = 0, env_ipc_from = 0, env_ipc_perm = 0\<rparr>"

definition ks0 :: kstate where
  "ks0 = \<lparr>npages = 8, npages_basemem = 8,
      pages = (\<lambda>p. \<lparr>pp_link = (if 4 \<le> p \<and> p < 7 then Some (p + 1) else None),
                    pp_ref = (if p < 3 then 1 else 0)\<rparr>),
      page_free_list = Some 4, pm = (\<lambda>_ _. 0), kern_pgdir = 0, nextfree = 0, mmio_base = MMIOBASE,
      user_mem_check_addr = 0, envs = env0, env_free_list = Some 1,
      cpus = (\<lambda>c. \<lparr>cpu_id = 0, cpu_status = CPU_STARTED, cpu_env = (if c = 0 then Some 0 else None),
                   cpu_ts = \<lparr>ts_esp0 = 0, ts_ss0 = 0, ts_iomb = 0\<rparr>\<rparr>),
      cpunum = 0, kernel_lock = \<lparr>locked = 1, lk_cpu = Some 0\<rparr>, hwlog = [], kcons = con0\<rparr>"

lemma ks0_fields [simp]:
  "npages ks0 = 8" "npages_basemem ks0 = 8"
  "pages ks0 p = \<lparr>pp_link = (if 4 \<le> p \<and> p < 7 then Some (p + 1) else None), pp_ref = (if p < 3 then 1 else 0)\<rparr>"
  "page_free_list ks0 = Some 4" "pm ks0 = (\<lambda>_ _. 0)" "kern_pgdir ks0 = 0" "nextfree ks0 = 0"
  "mmio_base ks0 = MMIOBASE" "user_mem_check_addr ks0 = 0" "envs ks0 = env0" "env_free_list ks0 = Some 1"
  "cpus ks0 c = \<lparr>cpu_id = 0, cpu_status = CPU_STARTED, cpu_env = (if c = 0 then Some 0 else None),
                   cpu_ts = \<lparr>ts_esp0 = 0, ts_ss0 = 0, ts_iomb = 0\<rparr>\<rparr>"
  "cpunum ks0 = 0" "kernel_lock ks0 = \<lparr>locked = 1, lk_cpu = Some 0\<rparr>" "hwlog ks0 = []" "kcons ks0 = con0"
  by (simp_all add: ks0_def)

lemma curenv_ks0 [simp]: "curenv ks0 = Some 0"
  by (simp add: curenv_def)

end
