(* ===== verification/PageEntry.thy ===== *)
theory PageEntry
  imports Mmu
begin

text \<open>
  Page table entries and the words of a page, for the page tables of JOS and of xv6: the page an entry
  refers to, whether it is present, and the bytes of a word.
\<close>

definition page2pa :: "nat \<Rightarrow> u32" where
  "page2pa pp = push_bit 12 (word_of_nat pp)"

definition ppn :: "u32 \<Rightarrow> nat" where
  "ppn e = unat (PGNUM (PTE_ADDR e))"

definition present :: "u32 \<Rightarrow> bool" where
  "present e \<longleftrightarrow> nz (e AND PTE_P)"

definition get_byte :: "nat \<Rightarrow> u32 \<Rightarrow> u8" where
  "get_byte k w = ucast (drop_bit (8 * k) w)"

definition set_byte :: "nat \<Rightarrow> u8 \<Rightarrow> u32 \<Rightarrow> u32" where
  "set_byte k b w = (w AND NOT (push_bit (8 * k) 0xFF)) OR push_bit (8 * k) (ucast b)"

section \<open>Page table entries as words\<close>

lemma present_bit: "present e \<longleftrightarrow> bit e 0"
  by (simp add: present_def PTE_P_def and_one_eq bit_0 odd_iff_mod_2_eq_one)

lemma unat_page2pa: "q < 1048576 \<Longrightarrow> unat (page2pa q) = q * 4096"
  by (simp add: page2pa_def push_bit_eq_mult unat_word_ariths unat_of_nat take_bit_eq_mod)

lemma page2pa_low_bits: "n < 12 \<Longrightarrow> \<not> bit (page2pa q) n"
  by (simp add: page2pa_def bit_push_bit_iff)

lemma PTE_ADDR_bits: "bit (PTE_ADDR e) n \<longleftrightarrow> 12 \<le> n \<and> bit e n"
  by (auto simp: PTE_ADDR_def mask_FFF bit_and_iff bit_not_iff bit_mask_iff possible_bit_def
      dest: bit_imp_le_length)

lemma PTE_ADDR_entry:
  assumes "unat perm < 4096"
  shows "PTE_ADDR (page2pa q OR perm OR PTE_P) = page2pa q"
proof (rule bit_word_eqI)
  fix n
  have "bit perm n \<Longrightarrow> n < 12" using less_mask_bits [of perm 12] assms by simp
  moreover have "bit PTE_P n \<Longrightarrow> n < 12" by (simp add: PTE_P_def bit_1_iff)
  ultimately show "bit (PTE_ADDR (page2pa q OR perm OR PTE_P)) n = bit (page2pa q) n"
    using page2pa_low_bits [of n q]
    by (cases "n < 12") (auto simp: PTE_ADDR_bits bit_or_iff)
qed

lemma PGNUM_page2pa: "q < 1048576 \<Longrightarrow> unat (PGNUM (page2pa q)) = q"
  by (simp add: unat_PGNUM unat_page2pa)

lemma ppn_entry: "unat perm < 4096 \<Longrightarrow> q < 1048576 \<Longrightarrow> ppn (page2pa q OR perm OR PTE_P) = q"
  by (simp add: ppn_def PTE_ADDR_entry PGNUM_page2pa)

lemma present_entry: "present (e OR PTE_P)"
  by (simp add: present_bit PTE_P_def bit_or_iff bit_1_iff)

lemma present_or: "present e \<Longrightarrow> present (e OR perm)"
  by (simp add: present_bit bit_or_iff)

lemma ppn_or_perm:
  assumes "unat perm < 4096"
  shows "ppn (e OR perm) = ppn e"
proof -
  have b: "bit perm n \<Longrightarrow> n < 12" for n using less_mask_bits [of perm 12] assms by simp
  have "PTE_ADDR (e OR perm) = PTE_ADDR e"
    by (rule bit_word_eqI) (auto simp: PTE_ADDR_bits bit_or_iff dest: b)
  then show ?thesis by (simp add: ppn_def)
qed

lemma pde_entry_swap:
  "page2pa q OR PTE_P OR PTE_U OR PTE_W = page2pa q OR (PTE_U OR PTE_W) OR PTE_P"
  by (simp add: or.assoc or.commute or.left_commute)

lemma ppn_pde: "q < 1048576 \<Longrightarrow> ppn (page2pa q OR PTE_P OR PTE_U OR PTE_W) = q"
  unfolding pde_entry_swap by (rule ppn_entry) (simp_all add: PTE_U_def PTE_W_def)

lemma present_pde: "present (page2pa q OR PTE_P OR PTE_U OR PTE_W)"
  unfolding pde_entry_swap by (metis or.assoc present_entry)

section \<open>Bytes of words\<close>

lemma byte_mask: "(0xFF :: u32) = mask 8"
  by (simp add: mask_eq_exp_minus_1)

lemma byte_apart: "k < 4 \<Longrightarrow> k \<noteq> j \<Longrightarrow> n < 8 \<Longrightarrow> 8 * j \<le> 8 * k + n \<Longrightarrow> \<not> 8 * k + n - 8 * j < 8" for k j n :: nat
  by (cases "k < j") auto

lemma get_set_byte: "k < 4 \<Longrightarrow> j < 4 \<Longrightarrow> get_byte k (set_byte j b w) = (if k = j then b else get_byte k w)"
  unfolding get_byte_def set_byte_def byte_mask
  by (rule bit_word_eqI) (use byte_apart [of k j] in \<open>auto simp: bit_simps bit_unsigned_iff bit_mask_iff
      dest: bit_imp_le_length\<close>)

end
