(* ===== verification/Pmap.thy ===== *)
theory Pmap
  imports KState PageEntry
begin

text \<open>
  Physical page management and the two-level page tables (lab/kern/pmap.c, lab/kern/pmap.h):
  memory detection, the boot allocator, the page free list, reference counts, page table
  walks, mapping and unmapping, the MMIO region, and the check of user memory ranges.
\<close>

section \<open>Addresses of pages (kern/pmap.h)\<close>

definition PADDR :: "u32 \<Rightarrow> kstate \<Rightarrow> u32 kres" where
  "PADDR kva s = (if kva < KERNBASE then Panic ''PADDR called with invalid kva'' s
     else Ret (kva - KERNBASE) s)"

definition KADDR :: "u32 \<Rightarrow> kstate \<Rightarrow> nat kres" where
  "KADDR pa s = (if unat (PGNUM pa) \<ge> npages s then Panic ''KADDR called with invalid pa'' s
     else Ret (unat (PGNUM pa)) s)"

definition pa2page :: "u32 \<Rightarrow> kstate \<Rightarrow> nat kres" where
  "pa2page pa s = (if unat (PGNUM pa) \<ge> npages s then Panic ''pa2page called with invalid pa'' s
     else Ret (unat (PGNUM pa)) s)"

definition page2kva :: "nat \<Rightarrow> kstate \<Rightarrow> nat kres" where
  "page2kva pp s = KADDR (page2pa pp) s"

definition ALLOC_ZERO :: u32 where [const_simps]: "ALLOC_ZERO = 1"

section \<open>Detecting memory\<close>

text \<open>\<open>mc146818_read\<close> reads a byte of the CMOS memory; the device's contents are \<open>cmos\<close>.\<close>

definition nvram_read :: "(nat \<Rightarrow> u8) \<Rightarrow> nat \<Rightarrow> u32" where
  "nvram_read cmos r = ucast (cmos r) OR push_bit 8 (ucast (cmos (r + 1)))"

definition NVRAM_BASELO :: nat where [const_simps]: "NVRAM_BASELO = 0x15"
definition NVRAM_EXTLO :: nat where [const_simps]: "NVRAM_EXTLO = 0x17"
definition NVRAM_EXT16LO :: nat where [const_simps]: "NVRAM_EXT16LO = 0x34"

definition i386_detect_memory :: "(nat \<Rightarrow> u8) \<Rightarrow> kstate \<Rightarrow> kstate" where
  "i386_detect_memory cmos s =
     (let basemem = nvram_read cmos NVRAM_BASELO;
          extmem = nvram_read cmos NVRAM_EXTLO;
          ext16mem = nvram_read cmos NVRAM_EXT16LO * 64;
          totalmem = (if nz ext16mem then 16 * 1024 + ext16mem
                      else if nz extmem then 1 * 1024 + extmem
                      else basemem)
      in s\<lparr>npages := unat (totalmem div (PGSIZE div 1024)),
           npages_basemem := unat (basemem div (PGSIZE div 1024))\<rparr>)"

section \<open>The boot allocator\<close>

text \<open>\<open>kend\<close> is the linker's symbol \<open>end\<close>; the static variable \<open>nextfree\<close> is 0 at first.\<close>

definition boot_alloc :: "u32 \<Rightarrow> u32 \<Rightarrow> kstate \<Rightarrow> u32 \<times> kstate" where
  "boot_alloc kend n s =
     (let s = (if nextfree s = 0 then s\<lparr>nextfree := ROUNDUP kend PGSIZE\<rparr> else s);
          result = nextfree s
      in (result, s\<lparr>nextfree := ROUNDUP (result + n) PGSIZE\<rparr>))"

section \<open>The page free list\<close>

definition page_init_step :: "nat \<Rightarrow> nat \<Rightarrow> nat \<Rightarrow> kstate \<Rightarrow> kstate" where
  "page_init_step io_hole_start_page kernel_end_page i s =
     (if i = 0 then upd_page i (\<lambda>_. \<lparr>pp_link = None, pp_ref = 1\<rparr>) s
      else if i \<ge> io_hole_start_page \<and> i < kernel_end_page
        then upd_page i (\<lambda>_. \<lparr>pp_link = None, pp_ref = 1\<rparr>) s
      else if i = unat (MPENTRY_PADDR div PGSIZE)
        then upd_page i (\<lambda>_. \<lparr>pp_link = None, pp_ref = 1\<rparr>) s
      else (upd_page i (\<lambda>_. \<lparr>pp_link = page_free_list s, pp_ref = 0\<rparr>) s)
             \<lparr>page_free_list := Some i\<rparr>)"

primrec page_init_loop :: "nat \<Rightarrow> nat \<Rightarrow> nat \<Rightarrow> kstate \<Rightarrow> kstate" where
  "page_init_loop io ke 0 s = s"
| "page_init_loop io ke (Suc i) s = page_init_step io ke i (page_init_loop io ke i s)"

definition page_init :: "u32 \<Rightarrow> kstate \<Rightarrow> unit kres" where
  "page_init kend s =
     (case boot_alloc kend 0 s of (kva, s) \<Rightarrow>
        kbind (PADDR kva s) (\<lambda>pa s.
          Ret () (page_init_loop (unat (IOPHYSMEM div PGSIZE)) (unat (pa div PGSIZE))
                    (npages s) s)))"

definition page_alloc :: "u32 \<Rightarrow> kstate \<Rightarrow> nat option kres" where
  "page_alloc alloc_flags s =
     (case page_free_list s of
        None \<Rightarrow> Ret None s
      | Some ret \<Rightarrow>
          let s = s\<lparr>page_free_list := pp_link (pages s ret)\<rparr>;
              s = upd_page ret (pp_link_update (\<lambda>_. None)) s
          in if nz (alloc_flags AND ALLOC_ZERO)
             then kbind (page2kva ret s) (\<lambda>kva s. Ret (Some ret) (memset_page kva 0 s))
             else Ret (Some ret) s)"

definition page_free :: "nat \<Rightarrow> kstate \<Rightarrow> unit kres" where
  "page_free pp s =
     (if pp_ref (pages s pp) \<noteq> 0 \<or> pp_link (pages s pp) \<noteq> None
      then Panic ''page_free: pp->pp_ref is nonzero or pp->pp_link is not NULL'' s
      else Ret () ((upd_page pp (pp_link_update (\<lambda>_. page_free_list s)) s)
                     \<lparr>page_free_list := Some pp\<rparr>))"

definition page_decref :: "nat \<Rightarrow> kstate \<Rightarrow> unit kres" where
  "page_decref pp s =
     (let s = upd_page pp (\<lambda>p. p\<lparr>pp_ref := pp_ref p - 1\<rparr>) s
      in if pp_ref (pages s pp) = 0 then page_free pp s else Ret () s)"

section \<open>Page tables\<close>

definition pgdir_walk :: "nat \<Rightarrow> u32 \<Rightarrow> bool \<Rightarrow> kstate \<Rightarrow> (nat \<times> nat) option kres" where
  "pgdir_walk pgdir va create s =
     (let pdx = unat (PDX va);
          entry = (\<lambda>s. kbind (KADDR (PTE_ADDR (pm s pgdir pdx)) s)
                       (\<lambda>pt s. Ret (Some (pt, unat (PTX va))) s))
      in if \<not> nz (pm s pgdir pdx AND PTE_P)
         then if create
              then kbind (page_alloc 1 s) (\<lambda>pp s.
                     case pp of
                       None \<Rightarrow> Ret None s
                     | Some pp \<Rightarrow>
                         let s = upd_page pp (\<lambda>p. p\<lparr>pp_ref := pp_ref p + 1\<rparr>) s;
                             s = set_pm pgdir pdx (page2pa pp OR PTE_P OR PTE_U OR PTE_W) s
                         in entry s)
              else Ret None s
         else entry s)"

primrec boot_map_loop :: "nat \<Rightarrow> u32 \<Rightarrow> nat \<Rightarrow> u32 \<Rightarrow> u32 \<Rightarrow> kstate \<Rightarrow> unit kres" where
  "boot_map_loop pgdir va 0 pa perm s = Ret () s"
| "boot_map_loop pgdir va (Suc n) pa perm s =
     kbind (pgdir_walk pgdir va True s) (\<lambda>pte s.
       case pte of
         None \<Rightarrow> Panic ''boot_map_region(): out of memory'' s
       | Some (pt, i) \<Rightarrow>
           boot_map_loop pgdir (va + PGSIZE) n (pa + PGSIZE) perm
             (set_pm pt i (pa OR PTE_P OR perm) s))"

definition boot_map_region :: "nat \<Rightarrow> u32 \<Rightarrow> u32 \<Rightarrow> u32 \<Rightarrow> u32 \<Rightarrow> kstate \<Rightarrow> unit kres" where
  "boot_map_region pgdir va sz pa perm s =
     (let pgs = sz div PGSIZE;
          pgs = (if sz mod PGSIZE \<noteq> 0 then pgs + 1 else pgs)
      in boot_map_loop pgdir va (unat pgs) pa perm s)"

text \<open>
  \<open>if (!(*pte) & PTE_P)\<close> parses as \<open>(!*pte) & PTE_P\<close>: C's \<open>!\<close> yields 1 for a zero
  entry and 0 otherwise, and that value is masked with \<open>PTE_P\<close>.
\<close>

definition lnot32 :: "u32 \<Rightarrow> u32" where
  "lnot32 x = (if x = 0 then 1 else 0)"

definition page_lookup :: "nat \<Rightarrow> u32 \<Rightarrow> kstate \<Rightarrow> (nat \<times> nat \<times> nat) option kres" where
  "page_lookup pgdir va s =
     kbind (pgdir_walk pgdir va False s) (\<lambda>pte s.
       case pte of
         None \<Rightarrow> Ret None s
       | Some (pt, i) \<Rightarrow>
           if nz (lnot32 (pm s pt i) AND PTE_P) then Ret None s
           else kbind (pa2page (PTE_ADDR (pm s pt i)) s) (\<lambda>pp s. Ret (Some (pp, pt, i)) s))"

definition tlb_invalidate :: "nat \<Rightarrow> u32 \<Rightarrow> kstate \<Rightarrow> kstate" where
  "tlb_invalidate pgdir va s =
     (case curenv s of
        None \<Rightarrow> hw (Invlpg va) s
      | Some e \<Rightarrow> if env_pgdir (envs s e) = Some pgdir then hw (Invlpg va) s else s)"

definition page_remove :: "nat \<Rightarrow> u32 \<Rightarrow> kstate \<Rightarrow> unit kres" where
  "page_remove pgdir va s =
     kbind (page_lookup pgdir va s) (\<lambda>r s.
       case r of
         None \<Rightarrow> Ret () s
       | Some (pp, pt, i) \<Rightarrow>
           kbind (page_decref pp s) (\<lambda>_ s.
             Ret () (tlb_invalidate pgdir va (set_pm pt i 0 s))))"

definition page_insert :: "nat \<Rightarrow> nat \<Rightarrow> u32 \<Rightarrow> u32 \<Rightarrow> kstate \<Rightarrow> int kres" where
  "page_insert pgdir pp va perm s =
     kbind (pgdir_walk pgdir va True s) (\<lambda>pte s.
       case pte of
         None \<Rightarrow> Ret (- E_NO_MEM) s
       | Some (pt, i) \<Rightarrow>
           let s = upd_page pp (\<lambda>p. p\<lparr>pp_ref := pp_ref p + 1\<rparr>) s
           in kbind (if nz (pm s pt i AND PTE_P) then page_remove pgdir va s else Ret () s) (\<lambda>_ s.
                let s = set_pm pt i (page2pa pp OR perm OR PTE_P) s;
                    s = set_pm pgdir (unat (PDX va)) (pm s pgdir (unat (PDX va)) OR perm) s
                in Ret 0 s))"

section \<open>Memory-mapped I/O and user memory\<close>

definition mmio_map_region :: "u32 \<Rightarrow> u32 \<Rightarrow> kstate \<Rightarrow> u32 kres" where
  "mmio_map_region pa sz s =
     (let sz = ROUNDUP (pa + sz) PGSIZE;
          pa = ROUNDDOWN pa PGSIZE;
          sz = sz - pa
      in if mmio_base s + sz \<ge> MMIOLIM then Panic ''not enough memory'' s
         else kbind (boot_map_region (kern_pgdir s) (mmio_base s) sz pa
                       (PTE_PCD OR PTE_PWT OR PTE_W) s) (\<lambda>_ s.
                let s = s\<lparr>mmio_base := mmio_base s + sz\<rparr>
                in Ret (mmio_base s - sz) s))"

text \<open>
  The loop \<open>for (i = begin; i < end; i += PGSIZE)\<close>. Both bounds are multiples of PGSIZE, so
  \<open>i += PGSIZE\<close> never wraps around below \<open>end\<close>; the second conjunct of the guard says so.
\<close>

function user_mem_check_loop :: "nat \<Rightarrow> u32 \<Rightarrow> u32 \<Rightarrow> u32 \<Rightarrow> u32 \<Rightarrow> kstate \<Rightarrow> int kres" where
  "user_mem_check_loop pgdir va perm i fin s =
     (if i < fin \<and> i < i + PGSIZE
      then kbind (pgdir_walk pgdir i False s) (\<lambda>pte s'.
             if i \<ge> ULIM
                \<or> (case pte of None \<Rightarrow> True
                    | Some (pt, k) \<Rightarrow> \<not> nz (pm s' pt k AND PTE_P)
                                     \<or> (pm s' pt k AND perm) \<noteq> perm)
             then Ret (- E_FAULT) (s'\<lparr>user_mem_check_addr := (if i < va then va else i)\<rparr>)
             else user_mem_check_loop pgdir va perm (i + PGSIZE) fin s')
      else Ret 0 s)"
  by pat_completeness auto
termination
  by (relation "measure (\<lambda>(pgdir, va, perm, i, fin, s). unat fin - unat i)")
    (auto simp: word_less_nat_alt)

declare user_mem_check_loop.simps [simp del]

definition user_mem_check :: "nat \<Rightarrow> u32 \<Rightarrow> u32 \<Rightarrow> u32 \<Rightarrow> kstate \<Rightarrow> int kres" where
  "user_mem_check env va len perm s =
     with_pgdir env s (\<lambda>pgdir.
       user_mem_check_loop pgdir va perm (ROUNDDOWN va PGSIZE) (ROUNDUP (va + len) PGSIZE) s)"

end
