(* ===== verification/PageInv.thy ===== *)
theory PageInv
  imports Pmap
begin

text \<open>
  The accounting invariant of physical pages. A \<open>slot\<close> is a place that can refer to a page: an
  environment's page directory pointer, a user directory entry (below UTOP), or a user table
  entry. \<open>tgt\<close> reads the page a slot refers to out of the page tables in memory. The
  invariant \<open>page_inv\<close> says that the free list is a list of unreferenced pages, that the
  reference count of every referenced page is the number of slots that refer to it, and that
  pages used as page tables are not shared.
\<close>

section \<open>Slots and what they refer to\<close>

datatype slot = SPd nat | SPde nat nat | SPte nat nat nat

definition UPDX :: nat where "UPDX = 955"

fun tgt :: "nat set \<Rightarrow> kstate \<Rightarrow> slot \<Rightarrow> nat option" where
  "tgt pds s (SPd pd) = (if pd \<in> pds then Some pd else None)"
| "tgt pds s (SPde pd i) =
     (if pd \<in> pds \<and> i < UPDX \<and> present (pm s pd i) then Some (ppn (pm s pd i)) else None)"
| "tgt pds s (SPte pd i j) =
     (if pd \<in> pds \<and> i < UPDX \<and> present (pm s pd i) \<and> j < 1024 \<and>
         present (pm s (ppn (pm s pd i)) j)
      then Some (ppn (pm s (ppn (pm s pd i)) j)) else None)"

fun is_table :: "slot \<Rightarrow> bool" where
  "is_table (SPte pd i j) = False"
| "is_table _ = True"

definition fibre :: "(slot \<Rightarrow> nat option) \<Rightarrow> nat \<Rightarrow> slot set" where
  "fibre T p = {sl. T sl = Some p}"

definition acct :: "(slot \<Rightarrow> nat option) \<Rightarrow> (nat \<Rightarrow> u16) \<Rightarrow> nat \<Rightarrow> bool" where
  "acct T ref n \<longleftrightarrow>
     (\<forall>sl p. T sl = Some p \<longrightarrow> p < n \<and> unat (ref p) = card (fibre T p)) \<and>
     (\<forall>sl p. T sl = Some p \<and> is_table sl \<longrightarrow> fibre T p = {sl})"

definition free_ok :: "(slot \<Rightarrow> nat option) \<Rightarrow> kstate \<Rightarrow> nat list \<Rightarrow> bool" where
  "free_ok T s fl \<longleftrightarrow>
     lseg (\<lambda>p. pp_link (pages s p)) (page_free_list s) fl \<and>
     (\<forall>p \<in> set fl. p < npages s \<and> pp_ref (pages s p) = 0 \<and> p \<notin> ran T) \<and>
     (\<forall>p < npages s. p \<notin> set fl \<longrightarrow> pp_link (pages s p) = None)"

definition ptes_ok :: "nat set \<Rightarrow> kstate \<Rightarrow> bool" where
  "ptes_ok pds s \<longleftrightarrow>
     (\<forall>pd i j pt. tgt pds s (SPde pd i) = Some pt \<longrightarrow> j < 1024 \<longrightarrow>
        pm s pt j \<noteq> 0 \<longrightarrow> present (pm s pt j))"

definition page_inv :: "nat set \<Rightarrow> nat list \<Rightarrow> kstate \<Rightarrow> bool" where
  "page_inv pds fl s \<longleftrightarrow>
     npages s \<le> 1048576 \<and> finite pds \<and> ptes_ok pds s \<and> free_ok (tgt pds s) s fl \<and>
     acct (tgt pds s) (\<lambda>p. pp_ref (pages s p)) (npages s)"

section \<open>Fibres\<close>

lemma finite_fibre:
  assumes "finite pds"
  shows "finite (fibre (tgt pds s) p)"
proof -
  have "fibre (tgt pds s) p \<subseteq> SPd ` pds \<union> case_prod SPde ` (pds \<times> {..<UPDX})
          \<union> (\<lambda>(a, b, c). SPte a b c) ` (pds \<times> {..<UPDX} \<times> {..<1024})"
  proof
    fix sl assume "sl \<in> fibre (tgt pds s) p"
    then have "tgt pds s sl = Some p" by (simp add: fibre_def)
    then show "sl \<in> SPd ` pds \<union> case_prod SPde ` (pds \<times> {..<UPDX})
        \<union> (\<lambda>(a, b, c). SPte a b c) ` (pds \<times> {..<UPDX} \<times> {..<1024})"
      by (cases sl) (auto split: if_splits simp: image_iff)
  qed
  then show ?thesis by (rule finite_subset) (simp add: assms)
qed

lemma fibre_upd:
  "fibre (T(sl := v)) p = (if v = Some p then insert sl (fibre T p) else fibre T p - {sl})"
  by (auto simp: fibre_def)

lemma fibre_mem: "sl \<in> fibre T p \<longleftrightarrow> T sl = Some p"
  by (simp add: fibre_def)

lemma ran_fibre: "p \<in> ran T \<longleftrightarrow> fibre T p \<noteq> {}"
  by (auto simp: ran_def fibre_def)

text \<open>Filling an empty slot with a page that is not a table and counts one reference more.\<close>

lemma acct_fill:
  assumes A: "acct T ref n" and fin: "finite (fibre T p)"
    and e: "T sl = None" and p: "p < n" "unat (ref p) < 65535"
    and cnt: "p \<in> ran T \<or> ref p = 0"
    and nt: "\<And>sl'. T sl' = Some p \<Longrightarrow> \<not> is_table sl'"
    and tab: "is_table sl \<Longrightarrow> p \<notin> ran T"
  shows "acct (T(sl := Some p)) (ref(p := ref p + 1)) n"
proof -
  have c: "unat (ref p) = card (fibre T p)"
  proof (cases "fibre T p = {}")
    case True
    then show ?thesis using cnt by (simp add: ran_fibre)
  next
    case False
    then show ?thesis using A by (auto simp: acct_def fibre_def)
  qed
  have "unat (ref p + 1) = unat (ref p) + 1"
    using p by (simp add: unat_word_ariths)
  moreover have "sl \<notin> fibre T p" using e by (simp add: fibre_mem)
  ultimately have c': "unat (ref p + 1) = card (insert sl (fibre T p))"
    using c fin by simp
  show ?thesis
    unfolding acct_def
  proof (intro conjI allI impI)
    fix sl' q assume h: "(T(sl := Some p)) sl' = Some q"
    show "q < n" using h A p by (auto simp: acct_def split: if_splits)
    show "unat ((ref(p := ref p + 1)) q) = card (fibre (T(sl := Some p)) q)"
    proof (cases "q = p")
      case True then show ?thesis using c' by (simp add: fibre_upd)
    next
      case False
      with h have "T sl' = Some q" by (auto split: if_splits)
      with A False e show ?thesis
        by (simp add: acct_def fibre_upd fibre_mem)
    qed
  next
    fix sl' q assume h: "(T(sl := Some p)) sl' = Some q \<and> is_table sl'"
    show "fibre (T(sl := Some p)) q = {sl'}"
    proof (cases "sl' = sl")
      case True
      with h tab have "q = p" "fibre T p = {}" by (auto simp: ran_fibre)
      then show ?thesis using True by (simp add: fibre_upd)
    next
      case False
      with h have t: "T sl' = Some q" "is_table sl'" by auto
      with nt have "q \<noteq> p" by auto
      with t A e False show ?thesis by (auto simp: acct_def fibre_upd fibre_mem)
    qed
  qed
qed

text \<open>Emptying a slot takes one reference away from the page it held.\<close>

lemma acct_clear:
  assumes A: "acct T ref n" and fin: "finite (fibre T p)" and t: "T sl = Some p"
  shows "acct (T(sl := None)) (ref(p := ref p - 1)) n"
    and "ref p - 1 = 0 \<longleftrightarrow> p \<notin> ran (T(sl := None))"
    and "unat (ref p) = card (fibre T p)"
proof -
  show c: "unat (ref p) = card (fibre T p)" using A t by (auto simp: acct_def)
  have m: "sl \<in> fibre T p" using t by (simp add: fibre_mem)
  with fin have pos: "0 < card (fibre T p)" by (auto simp: card_gt_0_iff)
  have "(1 :: u16) \<le> ref p" using c pos by (simp add: word_le_nat_alt)
  then have u: "unat (ref p - 1) = unat (ref p) - 1" by (simp add: unat_sub)
  have cd: "card (fibre T p - {sl}) = card (fibre T p) - 1" using m by simp
  have "ref p - 1 = 0 \<longleftrightarrow> card (fibre T p - {sl}) = 0"
    using u c cd by (metis unat_eq_zero)
  then show "ref p - 1 = 0 \<longleftrightarrow> p \<notin> ran (T(sl := None))"
    using fin by (simp add: ran_fibre fibre_upd)
  show "acct (T(sl := None)) (ref(p := ref p - 1)) n"
    unfolding acct_def
  proof (intro conjI allI impI)
    fix sl' q assume h: "(T(sl := None)) sl' = Some q"
    then have h': "T sl' = Some q" "sl' \<noteq> sl" by (auto split: if_splits)
    show "q < n" using h' A by (auto simp: acct_def)
    show "unat ((ref(p := ref p - 1)) q) = card (fibre (T(sl := None)) q)"
    proof (cases "q = p")
      case True then show ?thesis using u c cd by (simp add: fibre_upd)
    next
      case False
      with A h' t show ?thesis by (simp add: acct_def fibre_upd fibre_mem)
    qed
  next
    fix sl' q assume "(T(sl := None)) sl' = Some q \<and> is_table sl'"
    then have "T sl' = Some q" "is_table sl'" "sl' \<noteq> sl" by (auto split: if_splits)
    with A have "fibre T q = {sl'}" by (auto simp: acct_def)
    then show "fibre (T(sl := None)) q = {sl'}" using \<open>sl' \<noteq> sl\<close> by (auto simp: fibre_upd)
  qed
qed

section \<open>The user part of a directory\<close>

lemma UPDX_UTOP: "unat (PDX UTOP) = UPDX"
  by (simp add: UPDX_def unat_PDX const_simps)

lemma below_UTOP_PDX: "va < UTOP \<Longrightarrow> unat (PDX va) < UPDX"
  by (simp add: word_less_nat_alt unat_PDX UPDX_def const_simps)

section \<open>How memory writes move slots\<close>

lemma tgt_cong: "pm s' = pm s \<Longrightarrow> tgt pds s' = tgt pds s"
proof
  fix sl assume "pm s' = pm s"
  then show "tgt pds s' sl = tgt pds s sl" by (cases sl) auto
qed

lemma tgt_SPte: "tgt pds s (SPte pd i j) =
    (case tgt pds s (SPde pd i) of None \<Rightarrow> None
     | Some pt \<Rightarrow> if j < 1024 \<and> present (pm s pt j) then Some (ppn (pm s pt j)) else None)"
  by auto

lemma acct_table_unique:
  "acct T ref n \<Longrightarrow> T sl = Some p \<Longrightarrow> is_table sl \<Longrightarrow> T sl' = Some p \<Longrightarrow> sl' = sl"
  unfolding acct_def by (metis fibre_mem singletonD)

lemma tgt_other_page:
  assumes "p \<notin> ran (tgt pds s)" and pm': "\<And>r. r \<noteq> p \<Longrightarrow> pm s' r = pm s r"
  shows "tgt pds s' = tgt pds s"
proof
  fix sl
  have pd: "pd \<in> pds \<Longrightarrow> pm s' pd = pm s pd" for pd
    using assms(1) pm' [of pd] by (auto simp: ran_def dest: spec [of _ "SPd pd"])
  have pde: "tgt pds s' (SPde pd i) = tgt pds s (SPde pd i)" for pd i
    using pd [of pd] by auto
  have pt: "tgt pds s (SPde pd i) = Some r \<Longrightarrow> pm s' r = pm s r" for pd i r
    using assms(1) pm' [of r] by (metis ranI)
  show "tgt pds s' sl = tgt pds s sl"
  proof (cases sl)
    case (SPte pd i j)
    show ?thesis unfolding SPte tgt_SPte pde
      using pt [of pd i] by (auto split: option.split simp del: tgt.simps)
  qed (auto simp: pd)
qed

lemma tgt_set_pte:
  assumes A: "acct (tgt pds s) ref n" and t: "tgt pds s (SPde pd i) = Some pt" and j: "j < 1024"
    and s': "pm s' = (pm s)(pt := (pm s pt)(j := v))"
  shows "tgt pds s' = (tgt pds s)(SPte pd i j := if present v then Some (ppn v) else None)"
proof
  fix sl
  have npd: "pd' \<in> pds \<Longrightarrow> pd' \<noteq> pt" for pd'
    using acct_table_unique [OF A t, of "SPd pd'"] by auto
  have pde: "tgt pds s' (SPde pd' i') = tgt pds s (SPde pd' i')" for pd' i'
    using npd [of pd'] by (auto simp: s')
  have uniq: "tgt pds s (SPde pd' i') = Some pt \<Longrightarrow> pd' = pd \<and> i' = i" for pd' i'
    using acct_table_unique [OF A t, of "SPde pd' i'"] by (simp del: tgt.simps)
  show "tgt pds s' sl = ((tgt pds s)(SPte pd i j := if present v then Some (ppn v) else None)) sl"
  proof (cases sl)
    case (SPte pd' i' j')
    show ?thesis
    proof (cases "tgt pds s (SPde pd' i')")
      case None
      then have "\<not> (pd' = pd \<and> i' = i)" using t by auto
      then show ?thesis unfolding SPte fun_upd_apply tgt_SPte pde None by auto
    next
      case (Some r)
      show ?thesis
      proof (cases "r = pt")
        case True
        with Some uniq [of pd' i'] have "pd' = pd" "i' = i" by auto
        then show ?thesis unfolding SPte fun_upd_apply tgt_SPte pde Some True
          using j by (auto simp: s')
      next
        case False
        with Some t have "\<not> (pd' = pd \<and> i' = i)" by auto
        then show ?thesis unfolding SPte fun_upd_apply tgt_SPte pde Some
          using False by (auto simp: s')
      qed
    qed
  next
    case (SPde pd' i')
    then show ?thesis using pde [of pd' i'] by (simp del: tgt.simps)
  qed simp
qed

lemma tgt_set_pde:
  assumes q: "q \<notin> ran (tgt pds s)" and pd: "pd \<in> pds" "i < UPDX" and np: "\<not> present (pm s pd i)"
    and v: "present v" "ppn v = q"
    and s': "pm s' = (pm s)(q := (\<lambda>_. 0), pd := (pm s pd)(i := v))"
    and A: "acct (tgt pds s) ref n"
  shows "tgt pds s' = (tgt pds s)(SPde pd i := Some q)"
proof
  fix sl
  have npd: "pd' \<in> pds \<Longrightarrow> pd' \<noteq> q" for pd'
    using q by (auto simp: ran_def dest: spec [of _ "SPd pd'"])
  have pde: "tgt pds s' (SPde pd' i') = ((tgt pds s)(SPde pd i := Some q)) (SPde pd' i')" for pd' i'
    using npd [of pd'] pd v by (auto simp: s')
  have npt: "tgt pds s (SPde pd' i') = Some pt \<Longrightarrow> pt \<noteq> q \<and> pt \<noteq> pd" for pd' i' pt
    using ranI [of "tgt pds s" "SPde pd' i'"] q pd
      acct_table_unique [OF A, of "SPd pd" pd "SPde pd' i'"] by (auto simp del: tgt.simps(2,3))
  show "tgt pds s' sl = ((tgt pds s)(SPde pd i := Some q)) sl"
  proof (cases sl)
    case (SPte pd' i' j')
    have old: "tgt pds s (SPte pd i j') = None" using np by simp
    have z: "\<not> present 0" by (simp add: present_def)
    show ?thesis
    proof (cases "pd' = pd \<and> i' = i")
      case True
      then show ?thesis unfolding SPte tgt_SPte pde
        using npd [of pd] pd z old by (simp add: s')
    next
      case False
      then have "pd' = pd \<longrightarrow> i' \<noteq> i" by blast
      then show ?thesis unfolding SPte tgt_SPte [of pds s'] pde fun_upd_apply
        using npt [of pd' i'] by (auto simp: s' tgt_SPte [of pds s] simp del: tgt.simps split: option.split)
    qed
  next
    case (SPde pd' i')
    then show ?thesis using pde [of pd' i'] by (simp del: tgt.simps)
  qed simp
qed

lemma tgt_or_pde:
  assumes perm: "unat perm < 4096" and pr: "present (pm s pd i)" and pd: "pd \<in> pds" "i < UPDX"
    and A: "acct (tgt pds s) ref n"
    and s': "pm s' = (pm s)(pd := (pm s pd)(i := pm s pd i OR perm))"
  shows "tgt pds s' = tgt pds s"
proof
  fix sl
  have pde: "tgt pds s' (SPde pd' i') = tgt pds s (SPde pd' i')" for pd' i'
    using pr present_or [OF pr, of perm] ppn_or_perm [OF perm] by (auto simp: s')
  have npt: "tgt pds s (SPde pd' i') = Some pt \<Longrightarrow> pm s' pt = pm s pt" for pd' i' pt
    using pd acct_table_unique [OF A, of "SPd pd" pd "SPde pd' i'"] by (auto simp: s')
  show "tgt pds s' sl = tgt pds s sl"
  proof (cases sl)
    case (SPte pd' i' j')
    show ?thesis unfolding SPte tgt_SPte pde
      using npt [of pd' i'] by (auto split: option.split simp del: tgt.simps)
  next
    case (SPde pd' i')
    then show ?thesis using pde [of pd' i'] by (simp del: tgt.simps)
  qed simp
qed

lemma tgt_SPd: "tgt pds s (SPd pd) = (if pd \<in> pds then Some pd else None)"
  by simp

lemma tgt_absent: "\<not> present (pm s pd i) \<Longrightarrow> tgt pds s (SPde pd i) = None"
  "\<not> present (pm s pd i) \<Longrightarrow> tgt pds s (SPte pd i j) = None"
  by simp_all

lemma tgt_present:
  "pd \<in> pds \<Longrightarrow> i < UPDX \<Longrightarrow> present (pm s pd i) \<Longrightarrow> tgt pds s (SPde pd i) = Some (ppn (pm s pd i))"
  by simp

lemma tgt_SPde_Some:
  "tgt pds s (SPde pd i) = Some pt \<longleftrightarrow>
     pd \<in> pds \<and> i < UPDX \<and> present (pm s pd i) \<and> pt = ppn (pm s pd i)"
  by auto

lemma pd_ran: "pd \<in> pds \<Longrightarrow> pd \<in> ran (tgt pds s)"
  by (rule ranI [of _ "SPd pd"]) simp

declare tgt.simps [simp del]

section \<open>Parts of the invariant\<close>

lemma page_invI:
  "npages s \<le> 1048576 \<Longrightarrow> finite pds \<Longrightarrow> ptes_ok pds s \<Longrightarrow> free_ok (tgt pds s) s fl \<Longrightarrow>
   acct (tgt pds s) (\<lambda>p. pp_ref (pages s p)) (npages s) \<Longrightarrow> page_inv pds fl s"
  by (simp add: page_inv_def)

lemma page_inv_parts:
  assumes "page_inv pds fl s"
  shows page_inv_npages: "npages s \<le> 1048576" and page_inv_finite: "finite pds"
    and page_inv_ptes: "ptes_ok pds s" and page_inv_free_ok: "free_ok (tgt pds s) s fl"
    and page_inv_acct: "acct (tgt pds s) (\<lambda>p. pp_ref (pages s p)) (npages s)"
  using assms by (simp_all add: page_inv_def)

lemma free_okD:
  assumes "free_ok T s fl"
  shows "lseg (\<lambda>p. pp_link (pages s p)) (page_free_list s) fl"
    and "\<And>p. p \<in> set fl \<Longrightarrow> p < npages s" and "\<And>p. p \<in> set fl \<Longrightarrow> pp_ref (pages s p) = 0"
    and "\<And>p. p \<in> set fl \<Longrightarrow> p \<notin> ran T"
    and "\<And>p. p < npages s \<Longrightarrow> p \<notin> set fl \<Longrightarrow> pp_link (pages s p) = None"
  using assms by (auto simp: free_ok_def)

lemma acctD:
  assumes "acct T ref n" "T sl = Some p"
  shows "p < n" "unat (ref p) = card (fibre T p)"
  using assms by (auto simp: acct_def)

lemma ptes_okD:
  "ptes_ok pds s \<Longrightarrow> tgt pds s (SPde pd i) = Some pt \<Longrightarrow> j < 1024 \<Longrightarrow> pm s pt j \<noteq> 0 \<Longrightarrow>
     present (pm s pt j)"
  by (auto simp: ptes_ok_def)

end
