(* ===== verification/PmapProps.thy ===== *)
theory PmapProps
  imports PageInv
begin

text \<open>
  Behaviour of the page allocator and of the page table operations: equations for every branch,
  preservation of the accounting invariant, and the refinement of the page tables below UTOP to a
  map from virtual pages to entries.
\<close>

section \<open>The free list as an interface\<close>

text \<open>
  A list threaded through an array of cells, used as a stack: what the page allocator and the
  environment allocator have in common.
\<close>

locale free_list =
  fixes head :: "'s \<Rightarrow> 'a option"
    and nxt :: "'s \<Rightarrow> 'a \<Rightarrow> 'a option"
    and push :: "'a \<Rightarrow> 's \<Rightarrow> 's"
    and pop :: "'a \<Rightarrow> 's \<Rightarrow> 's"
  assumes head_push: "head (push a s) = Some a"
    and nxt_push: "nxt (push a s) = (nxt s)(a := head s)"
    and head_pop: "head (pop a s) = nxt s a"
    and nxt_pop: "b \<noteq> a \<Longrightarrow> nxt (pop a s) b = nxt s b"
begin

lemma push_list: "lseg (nxt s) (head s) xs \<Longrightarrow> a \<notin> set xs \<Longrightarrow>
    lseg (nxt (push a s)) (head (push a s)) (a # xs)"
  by (simp add: head_push nxt_push)

lemma pop_list:
  assumes "lseg (nxt s) (head s) (a # xs)"
  shows "lseg (nxt (pop a s)) (head (pop a s)) xs"
proof -
  from assms have l: "lseg (nxt s) (nxt s a) xs" by simp
  then have "a \<notin> set xs" by (rule lseg_head_notin)
  then have "lseg (nxt (pop a s)) (nxt s a) xs = lseg (nxt s) (nxt s a) xs"
    by (intro lseg_frame nxt_pop) auto
  with l show ?thesis by (simp add: head_pop)
qed

lemma list_distinct: "lseg (nxt s) (head s) xs \<Longrightarrow> distinct xs"
  by (rule lseg_distinct)

lemma pop_push: "lseg (nxt s) (head s) xs \<Longrightarrow> a \<notin> set xs \<Longrightarrow>
    lseg (nxt (pop a (push a s))) (head (pop a (push a s))) xs"
  by (rule pop_list [OF push_list])

end

definition plink :: "kstate \<Rightarrow> nat \<Rightarrow> nat option" where
  "plink s p = pp_link (pages s p)"

definition page_push :: "nat \<Rightarrow> kstate \<Rightarrow> kstate" where
  "page_push pp s = (upd_page pp (pp_link_update (\<lambda>_. page_free_list s)) s)
     \<lparr>page_free_list := Some pp\<rparr>"

definition page_pop :: "nat \<Rightarrow> kstate \<Rightarrow> kstate" where
  "page_pop pp s = upd_page pp (pp_link_update (\<lambda>_. None))
     (s\<lparr>page_free_list := pp_link (pages s pp)\<rparr>)"

interpretation pfl: free_list page_free_list plink page_push page_pop
  by unfold_locales (auto simp: plink_def page_push_def page_pop_def upd_page_def)

definition ref_add :: "nat \<Rightarrow> u16 \<Rightarrow> kstate \<Rightarrow> kstate" where
  "ref_add p d s = upd_page p (\<lambda>x. x\<lparr>pp_ref := pp_ref x + d\<rparr>) s"

lemmas st_defs = page_push_def page_pop_def ref_add_def mem_simps

section \<open>Equations of the operations\<close>

lemma KADDR_eq: "ppn e < npages s \<Longrightarrow> KADDR (PTE_ADDR e) s = Ret (ppn e) s"
  by (simp add: KADDR_def ppn_def)

lemma pa2page_eq: "ppn e < npages s \<Longrightarrow> pa2page (PTE_ADDR e) s = Ret (ppn e) s"
  by (simp add: pa2page_def ppn_def)

lemma page2kva_eq: "q < npages s \<Longrightarrow> npages s \<le> 1048576 \<Longrightarrow> page2kva q s = Ret q s"
  by (simp add: page2kva_def KADDR_def PGNUM_page2pa)

lemma page_alloc_None: "page_free_list s = None \<Longrightarrow> page_alloc f s = Ret None s"
  by (simp add: page_alloc_def)

lemma page_alloc_Some:
  assumes "page_free_list s = Some q" "q < npages s" "npages s \<le> 1048576"
  shows "page_alloc f s = Ret (Some q)
    (if nz (f AND ALLOC_ZERO) then memset_page q 0 (page_pop q s) else page_pop q s)"
  using assms page2kva_eq [of q "page_pop q s"]
  by (simp add: page_alloc_def page_pop_def Let_def upd_page_def)

lemma page_free_eq:
  "pp_ref (pages s p) = 0 \<Longrightarrow> pp_link (pages s p) = None \<Longrightarrow> page_free p s = Ret () (page_push p s)"
  by (simp add: page_free_def page_push_def)

definition decref_st :: "nat \<Rightarrow> kstate \<Rightarrow> kstate" where
  "decref_st p s = (if pp_ref (pages s p) - 1 = 0 then page_push p (ref_add p (-1) s)
                    else ref_add p (-1) s)"

lemma page_decref_eq:
  "pp_link (pages s p) = None \<Longrightarrow> page_decref p s = Ret () (decref_st p s)"
  by (simp add: page_decref_def decref_st_def Let_def page_free_eq ref_add_def upd_page_def)

lemma pgdir_walk_hit:
  assumes "present (pm s pd (unat (PDX va)))" "ppn (pm s pd (unat (PDX va))) < npages s"
  shows "pgdir_walk pd va c s = Ret (Some (ppn (pm s pd (unat (PDX va))), unat (PTX va))) s"
  using assms by (simp add: pgdir_walk_def Let_def present_def KADDR_eq)

lemma pgdir_walk_absent:
  "\<not> present (pm s pd (unat (PDX va))) \<Longrightarrow> pgdir_walk pd va False s = Ret None s"
  by (simp add: pgdir_walk_def Let_def present_def)

lemma pgdir_walk_no_memory:
  "\<not> present (pm s pd (unat (PDX va))) \<Longrightarrow> page_free_list s = None \<Longrightarrow>
     pgdir_walk pd va True s = Ret None s"
  by (simp add: pgdir_walk_def Let_def present_def page_alloc_None)

definition walk_new :: "nat \<Rightarrow> nat \<Rightarrow> nat \<Rightarrow> kstate \<Rightarrow> kstate" where
  "walk_new pd i q s = set_pm pd i (page2pa q OR PTE_P OR PTE_U OR PTE_W)
     (ref_add q 1 (memset_page q 0 (page_pop q s)))"

lemma pgdir_walk_create:
  assumes "\<not> present (pm s pd (unat (PDX va)))"
    and q: "page_free_list s = Some q" "q < npages s" "npages s \<le> 1048576"
  shows "pgdir_walk pd va True s = Ret (Some (q, unat (PTX va))) (walk_new pd (unat (PDX va)) q s)"
proof -
  have "page_alloc 1 s = Ret (Some q) (memset_page q 0 (page_pop q s))"
    using page_alloc_Some [OF q, of 1] by (simp add: ALLOC_ZERO_def)
  moreover have "ppn (page2pa q OR PTE_P OR PTE_U OR PTE_W) = q" using q by (simp add: ppn_pde)
  moreover have "npages (walk_new pd (unat (PDX va)) q s) = npages s"
    by (simp add: walk_new_def st_defs)
  ultimately show ?thesis
    using assms KADDR_eq [of "page2pa q OR PTE_P OR PTE_U OR PTE_W" "walk_new pd (unat (PDX va)) q s"]
    by (simp add: pgdir_walk_def Let_def present_def walk_new_def ref_add_def set_pm_def)
qed

lemma page_lookup_eq:
  assumes pde: "present (pm s pd (unat (PDX va)))" "ppn (pm s pd (unat (PDX va))) < npages s"
    and pt: "pt = ppn (pm s pd (unat (PDX va)))" and i: "i = unat (PTX va)"
  shows "page_lookup pd va s =
    (if pm s pt i = 0 then Ret None s
     else if ppn (pm s pt i) < npages s then Ret (Some (ppn (pm s pt i), pt, i)) s
     else Panic ''pa2page called with invalid pa'' s)"
  using pgdir_walk_hit [OF pde, of False]
  by (simp add: page_lookup_def pt i lnot32_def PTE_P_def pa2page_eq)
    (simp add: pa2page_def ppn_def)

lemma page_lookup_absent:
  "\<not> present (pm s pd (unat (PDX va))) \<Longrightarrow> page_lookup pd va s = Ret None s"
  by (simp add: page_lookup_def pgdir_walk_absent)

lemma page_remove_eq:
  assumes pde: "present (pm s pd (unat (PDX va)))" "ppn (pm s pd (unat (PDX va))) < npages s"
    and pt: "pt = ppn (pm s pd (unat (PDX va)))" and i: "i = unat (PTX va)"
    and e: "pm s pt i \<noteq> 0" "p = ppn (pm s pt i)" "p < npages s" "pp_link (pages s p) = None"
  shows "page_remove pd va s = Ret () (tlb_invalidate pd va (set_pm pt i 0 (decref_st p s)))"
  using page_lookup_eq [OF pde pt i] e by (simp add: page_remove_def page_decref_eq)

section \<open>The accounting invariant is preserved\<close>

lemma page_inv_free_list:
  "page_inv pds fl s \<Longrightarrow> lseg (plink s) (page_free_list s) fl"
  using free_okD(1) [OF page_inv_free_ok] by (simp add: plink_def [abs_def])

lemma page_inv_head:
  assumes "page_inv pds fl s"
  shows "page_free_list s = (case fl of [] \<Rightarrow> None | q # _ \<Rightarrow> Some q)"
  using page_inv_free_list [OF assms] by (cases fl) auto

lemma page_inv_free:
  assumes "page_inv pds fl s" "p \<in> set fl"
  shows "p < npages s" "pp_ref (pages s p) = 0" "p \<notin> ran (tgt pds s)"
  using free_okD [OF page_inv_free_ok [OF assms(1)]] assms(2) by auto

lemma page_inv_tgt:
  assumes I: "page_inv pds fl s" and t: "tgt pds s sl = Some p"
  shows "p < npages s" "p \<notin> set fl" "pp_link (pages s p) = None" "pp_ref (pages s p) \<noteq> 0"
proof -
  show p: "p < npages s" by (rule acctD(1) [OF page_inv_acct [OF I] t])
  show f: "p \<notin> set fl" using page_inv_free(3) [OF I] ranI [of "tgt pds s" sl, OF t] by blast
  show "pp_link (pages s p) = None" by (rule free_okD(5) [OF page_inv_free_ok [OF I] p f])
  have "fibre (tgt pds s) p \<noteq> {}" "finite (fibre (tgt pds s) p)"
    using t finite_fibre [OF page_inv_finite [OF I]] by (auto simp: fibre_def)
  moreover have "unat (pp_ref (pages s p)) = card (fibre (tgt pds s) p)"
    by (rule acctD(2) [OF page_inv_acct [OF I] t])
  ultimately show "pp_ref (pages s p) \<noteq> 0" by auto
qed

lemma page_inv_cong:
  assumes "npages s' = npages s" "pages s' = pages s" "page_free_list s' = page_free_list s"
    "pm s' = pm s"
  shows "page_inv pds fl s' = page_inv pds fl s"
  using assms tgt_cong [OF assms(4)] by (simp add: page_inv_def ptes_ok_def free_ok_def)

lemma ptes_ok_cong:
  "tgt pds s' = tgt pds s \<Longrightarrow> (\<And>pd i pt. tgt pds s (SPde pd i) = Some pt \<Longrightarrow> pm s' pt = pm s pt) \<Longrightarrow>
     ptes_ok pds s \<Longrightarrow> ptes_ok pds s'"
  unfolding ptes_ok_def by metis

lemma page_inv_pop:
  assumes I: "page_inv pds (q # fl) s"
  shows "page_inv pds fl (page_pop q s)" "tgt pds (page_pop q s) = tgt pds s"
proof -
  have l: "lseg (plink s) (page_free_list s) (q # fl)" by (rule page_inv_free_list [OF I])
  have fl: "lseg (\<lambda>p. pp_link (pages (page_pop q s) p)) (page_free_list (page_pop q s)) fl"
    using pfl.pop_list [OF l] by (simp add: plink_def [abs_def])
  show T: "tgt pds (page_pop q s) = tgt pds s" by (rule tgt_cong) (simp add: st_defs)
  have d: "distinct (q # fl)" using pfl.list_distinct [OF l] .
  have f: "free_ok (tgt pds s) (page_pop q s) fl"
    unfolding free_ok_def
  proof (intro conjI ballI allI impI)
    show "lseg (\<lambda>p. pp_link (pages (page_pop q s) p)) (page_free_list (page_pop q s)) fl"
      by (rule fl)
  next
    fix p assume p: "p \<in> set fl"
    show "p < npages (page_pop q s)" "pp_ref (pages (page_pop q s) p) = 0" "p \<notin> ran (tgt pds s)"
      using page_inv_free [OF I, of p] p by (auto simp: st_defs)
  next
    fix p assume "p < npages (page_pop q s)" "p \<notin> set fl"
    then show "pp_link (pages (page_pop q s) p) = None"
      using free_okD(5) [OF page_inv_free_ok [OF I], of p] by (auto simp: st_defs)
  qed
  have r: "(\<lambda>p. pp_ref (pages (page_pop q s) p)) = (\<lambda>p. pp_ref (pages s p))"
    by (auto simp: st_defs)
  have n: "npages (page_pop q s) = npages s" "pm (page_pop q s) = pm s" by (simp_all add: st_defs)
  have "ptes_ok pds (page_pop q s)"
    by (rule ptes_ok_cong [OF T _ page_inv_ptes [OF I]]) (simp add: n)
  then show "page_inv pds fl (page_pop q s)"
    using page_inv_parts [OF I] f by (intro page_invI) (simp_all add: T r n)
qed

lemma page_inv_memset:
  assumes I: "page_inv pds fl s" and p: "p \<notin> ran (tgt pds s)"
  shows "page_inv pds fl (memset_page p v s)" "tgt pds (memset_page p v s) = tgt pds s"
proof -
  let ?s = "memset_page p v s"
  show T: "tgt pds ?s = tgt pds s"
    by (rule tgt_other_page [OF p]) (simp add: memset_page_def)
  have f: "npages ?s = npages s" "pages ?s = pages s" "page_free_list ?s = page_free_list s"
    by (simp_all add: memset_page_def)
  have "pt \<noteq> p" if "tgt pds s (SPde pd i) = Some pt" for pd i pt using p that by (metis ranI)
  then have "ptes_ok pds ?s"
    by (intro ptes_ok_cong [OF T _ page_inv_ptes [OF I]]) (auto simp: memset_page_def)
  then show "page_inv pds fl ?s"
    using page_inv_parts [OF I] by (intro page_invI) (simp_all add: T f free_ok_def)
qed

text \<open>A new page table: taken off the free list, cleared, and entered in the directory.\<close>

lemma page_inv_walk_new:
  assumes I: "page_inv pds (q # fl) s" and pd: "pd \<in> pds" "i < UPDX"
    and np: "\<not> present (pm s pd i)"
  shows "page_inv pds fl (walk_new pd i q s)"
    and "tgt pds (walk_new pd i q s) = (tgt pds s)(SPde pd i := Some q)"
proof -
  let ?s1 = "memset_page q 0 (page_pop q s)" and ?s2 = "walk_new pd i q s"
  note A = page_inv_acct [OF I]
  have q: "q < npages s" "pp_ref (pages s q) = 0" "q \<notin> ran (tgt pds s)"
    using page_inv_free [OF I, of q] by auto
  have n: "npages s \<le> 1048576" and fin: "finite pds" using page_inv_parts [OF I] by auto
  have q': "q \<notin> ran (tgt pds (page_pop q s))" using q(3) page_inv_pop(2) [OF I] by simp
  have I1: "page_inv pds fl ?s1" and T1: "tgt pds ?s1 = tgt pds s"
    using page_inv_memset [OF page_inv_pop(1) [OF I] q', of 0] page_inv_pop(2) [OF I] by auto
  have qfl: "q \<notin> set fl" using pfl.list_distinct [OF page_inv_free_list [OF I]] by simp
  have pdq: "pd \<noteq> q" using q(3) pd_ran [OF pd(1)] by metis
  have pm2: "pm ?s2 = (pm s)(q := (\<lambda>_. 0), pd := (pm s pd)(i := page2pa q OR PTE_P OR PTE_U OR PTE_W))"
    using pdq by (simp add: walk_new_def st_defs fun_upd_twist)
  have ppnq: "ppn (page2pa q OR PTE_P OR PTE_U OR PTE_W) = q" using q n by (intro ppn_pde) simp
  show T2: "tgt pds ?s2 = (tgt pds s)(SPde pd i := Some q)"
    by (rule tgt_set_pde [OF q(3) pd np present_pde ppnq pm2 A])
  have n2: "npages ?s2 = npages s" by (simp add: walk_new_def st_defs)
  have r2: "(\<lambda>p. pp_ref (pages ?s2 p)) = (\<lambda>p. pp_ref (pages s p))(q := pp_ref (pages s q) + 1)"
    by (auto simp: walk_new_def st_defs)
  have A2: "acct (tgt pds ?s2) (\<lambda>p. pp_ref (pages ?s2 p)) (npages ?s2)"
    unfolding T2 r2 n2
    by (rule acct_fill [OF A finite_fibre [OF fin] tgt_absent(1) [OF np]])
      (use q in \<open>auto simp: ran_def\<close>)
  note f1 = free_okD [OF page_inv_free_ok [OF I1]]
  have l2: "(\<lambda>p. pp_link (pages ?s2 p)) = (\<lambda>p. pp_link (pages ?s1 p))"
    "page_free_list ?s2 = page_free_list ?s1" "npages ?s2 = npages ?s1"
    by (auto simp: walk_new_def ref_add_def upd_page_def set_pm_def)
  have r2': "p \<noteq> q \<Longrightarrow> pp_ref (pages ?s2 p) = pp_ref (pages ?s1 p)" for p
    by (simp add: walk_new_def ref_add_def upd_page_def set_pm_def)
  have f2: "free_ok (tgt pds ?s2) ?s2 fl"
    unfolding free_ok_def l2 T2
  proof (intro conjI ballI allI impI)
    fix p assume p: "p \<in> set fl"
    then have pq: "p \<noteq> q" using qfl by auto
    show "p < npages ?s1" using f1(2) p .
    show "pp_ref (pages ?s2 p) = 0" using f1(3) [OF p] r2' [OF pq] by simp
    show "p \<notin> ran ((tgt pds s)(SPde pd i := Some q))"
      using f1(4) [OF p] pq unfolding T1 by (auto simp: ran_def split: if_splits)
  qed (use f1(1,5) l2(1) in \<open>auto simp: fun_eq_iff\<close>)
  have npt: "pt \<noteq> pd" if "tgt pds s (SPde pd' i') = Some pt" for pd' i' pt
    using that pd acct_table_unique [OF A, of "SPd pd" pd "SPde pd' i'"] by (auto simp: tgt_SPd)
  have "ptes_ok pds ?s2"
    unfolding ptes_ok_def T2
  proof (intro allI impI)
    fix pd' i' j pt
    assume h: "((tgt pds s)(SPde pd i := Some q)) (SPde pd' i') = Some pt" "j < 1024"
      "pm ?s2 pt j \<noteq> 0"
    then have pq: "pt \<noteq> q" using pdq by (auto simp: pm2)
    with h have t: "tgt pds s (SPde pd' i') = Some pt" by (auto split: if_splits)
    with h pq npt [OF t] show "present (pm ?s2 pt j)"
      using ptes_okD [OF page_inv_ptes [OF I] t, of j] by (simp add: pm2)
  qed
  then show "page_inv pds fl ?s2" using A2 f2 n fin n2 by (intro page_invI) simp_all
qed

section \<open>Changing one table entry\<close>

lemma free_ok_cong:
  assumes "free_ok T s fl" "page_free_list s' = page_free_list s" "npages s' = npages s"
    and "\<And>p. pp_link (pages s' p) = pp_link (pages s p)"
    and "\<And>p. p \<in> set fl \<Longrightarrow> pp_ref (pages s' p) = pp_ref (pages s p)"
    and "\<And>p. p \<in> set fl \<Longrightarrow> p \<notin> ran T'"
  shows "free_ok T' s' fl"
  using assms by (simp add: free_ok_def)

lemma free_ok_same:
  "page_free_list s' = page_free_list s \<Longrightarrow> npages s' = npages s \<Longrightarrow> pages s' = pages s \<Longrightarrow>
     free_ok T s' fl = free_ok T s fl"
  by (simp add: free_ok_def)

lemma free_ok_push:
  assumes F: "free_ok T s fl" and p: "p < npages s" "p \<notin> set fl" "pp_ref (pages s p) = 0" "p \<notin> ran T"
  shows "free_ok T (page_push p s) (p # fl)"
proof -
  have "lseg (plink (page_push p s)) (page_free_list (page_push p s)) (p # fl)"
    using free_okD(1) [OF F] p(2) by (intro pfl.push_list) (simp_all add: plink_def [abs_def])
  then show ?thesis
    using F p by (auto simp: free_ok_def plink_def [abs_def] page_push_def upd_page_def)
qed

lemma page_inv_set_pte:
  assumes I: "page_inv pds fl s" and t: "tgt pds s (SPde pd i) = Some pt" and j: "j < 1024"
    and pm': "pm s' = (pm s)(pt := (pm s pt)(j := v))" and n: "npages s' = npages s"
    and v: "v = 0 \<or> present v"
    and T': "T' = (tgt pds s)(SPte pd i j := if present v then Some (ppn v) else None)"
    and A: "acct T' (\<lambda>p. pp_ref (pages s' p)) (npages s)" and F: "free_ok T' s' fl'"
  shows "page_inv pds fl' s'" "tgt pds s' = T'"
proof -
  show T: "tgt pds s' = T'" unfolding T' by (rule tgt_set_pte [OF page_inv_acct [OF I] t j pm'])
  have "ptes_ok pds s'"
    unfolding ptes_ok_def T T'
  proof (intro allI impI)
    fix pd' i' k r
    assume h: "((tgt pds s)(SPte pd i j := if present v then Some (ppn v) else None)) (SPde pd' i') = Some r"
      "k < 1024" "pm s' r k \<noteq> 0"
    then have r: "tgt pds s (SPde pd' i') = Some r" by simp
    with h v show "present (pm s' r k)"
      using ptes_okD [OF page_inv_ptes [OF I] r h(2)] by (auto simp: pm' split: if_splits)
  qed
  then show "page_inv pds fl' s'"
    using page_inv_parts [OF I] A F by (intro page_invI) (simp_all add: T n)
qed

lemma page_inv_or_pde:
  assumes I: "page_inv pds fl s" and perm: "unat perm < 4096" and t: "tgt pds s (SPde pd i) = Some pt"
  shows "page_inv pds fl (set_pm pd i (pm s pd i OR perm) s)" (is "page_inv pds fl ?s")
    and "tgt pds (set_pm pd i (pm s pd i OR perm) s) = tgt pds s"
proof -
  have pd: "pd \<in> pds" "i < UPDX" "present (pm s pd i)" using t by (auto simp: tgt_SPde_Some)
  show T: "tgt pds ?s = tgt pds s"
    by (rule tgt_or_pde [OF perm pd(3,1,2) page_inv_acct [OF I]]) (simp add: set_pm_def)
  have "r \<noteq> pd" if "tgt pds s (SPde pd' i') = Some r" for pd' i' r
    using that pd acct_table_unique [OF page_inv_acct [OF I], of "SPd pd" pd "SPde pd' i'"]
    by (auto simp: tgt_SPd)
  then have "ptes_ok pds ?s"
    by (intro ptes_ok_cong [OF T _ page_inv_ptes [OF I]]) (auto simp: set_pm_def)
  moreover have "npages ?s = npages s" "pages ?s = pages s" "page_free_list ?s = page_free_list s"
    by (simp_all add: set_pm_def)
  ultimately show "page_inv pds fl ?s"
    using page_inv_parts [OF I] by (intro page_invI) (simp_all add: T free_ok_def)
qed

text \<open>The TLB entry is flushed; nothing the invariant reads changes.\<close>

lemma tlb_invalidate_fields [simp]:
  "npages (tlb_invalidate pd va s) = npages s" "pages (tlb_invalidate pd va s) = pages s"
  "page_free_list (tlb_invalidate pd va s) = page_free_list s" "pm (tlb_invalidate pd va s) = pm s"
  "envs (tlb_invalidate pd va s) = envs s" "kern_pgdir (tlb_invalidate pd va s) = kern_pgdir s"
  by (simp_all add: tlb_invalidate_def hw_def split: option.split)

lemma tlb_invalidate_inv [simp]: "page_inv pds fl (tlb_invalidate pd va s) = page_inv pds fl s"
  by (rule page_inv_cong) simp_all

lemma tlb_invalidate_tgt [simp]: "tgt pds (tlb_invalidate pd va s) = tgt pds s"
  by (rule tgt_cong) simp

section \<open>Removing a mapping\<close>

lemma ran_upd_Some: "r \<in> ran (T(sl := Some p)) \<Longrightarrow> r = p \<or> r \<in> ran T"
  by (auto simp: ran_def split: if_splits)

lemma ran_upd_None: "r \<in> ran (T(sl := None)) \<Longrightarrow> r \<in> ran T"
  by (auto simp: ran_def split: if_splits)

lemma decref_st_fields [simp]:
  "npages (decref_st p s) = npages s" "pm (decref_st p s) = pm s" "envs (decref_st p s) = envs s"
  "cpus (decref_st p s) = cpus s" "cpunum (decref_st p s) = cpunum s"
  "kern_pgdir (decref_st p s) = kern_pgdir s" "hwlog (decref_st p s) = hwlog s"
  by (simp_all add: decref_st_def page_push_def ref_add_def upd_page_def)

lemma decref_st_ref: "pp_ref (pages (decref_st p s) r) =
    (if r = p then pp_ref (pages s p) - 1 else pp_ref (pages s r))"
  by (simp add: decref_st_def page_push_def ref_add_def upd_page_def)

lemma decref_st_free_ok:
  assumes F: "free_ok T s fl" and p: "p < npages s" "p \<notin> set fl"
    and d: "pp_ref (pages s p) - 1 = 0 \<longleftrightarrow> p \<notin> ran T'"
    and R: "\<And>r. r \<in> set fl \<Longrightarrow> r \<notin> ran T'"
  shows "free_ok T' (decref_st p s) (if p \<in> ran T' then fl else p # fl)"
proof -
  have F': "free_ok T' (ref_add p (-1) s) fl"
    by (rule free_ok_cong [OF F]) (use p R in \<open>auto simp: ref_add_def upd_page_def\<close>)
  show ?thesis
  proof (cases "p \<in> ran T'")
    case True
    then show ?thesis using F' d by (simp add: decref_st_def)
  next
    case False
    have "free_ok T' (page_push p (ref_add p (-1) s)) (p # fl)"
      by (rule free_ok_push [OF F']) (use p d False in \<open>auto simp: ref_add_def upd_page_def\<close>)
    then show ?thesis using d False by (simp add: decref_st_def)
  qed
qed

text \<open>The state after \<open>page_remove\<close>, when a page is mapped.\<close>

definition remove_st :: "nat \<Rightarrow> u32 \<Rightarrow> nat \<Rightarrow> nat \<Rightarrow> kstate \<Rightarrow> kstate" where
  "remove_st pd va pt p s = tlb_invalidate pd va (set_pm pt (unat (PTX va)) 0 (decref_st p s))"

lemma tgt_SPte_Some:
  "tgt pds s (SPte pd i j) = Some p \<longleftrightarrow>
     (\<exists>pt. tgt pds s (SPde pd i) = Some pt \<and> j < 1024 \<and> present (pm s pt j) \<and> p = ppn (pm s pt j))"
  by (auto simp: tgt_SPte split: option.splits if_splits)

lemma present_nonzero: "present e \<Longrightarrow> e \<noteq> 0"
  by (auto simp: present_def)

lemma page_remove_inv:
  assumes I: "page_inv pds fl s" and t: "tgt pds s (SPte pd (unat (PDX va)) (unat (PTX va))) = Some p"
    and t': "tgt pds s (SPde pd (unat (PDX va))) = Some pt"
  shows "page_remove pd va s = Ret () (remove_st pd va pt p s)"
    and "tgt pds (remove_st pd va pt p s) =
           (tgt pds s)(SPte pd (unat (PDX va)) (unat (PTX va)) := None)" (is "_ = ?T")
    and "page_inv pds (if p \<in> ran ((tgt pds s)(SPte pd (unat (PDX va)) (unat (PTX va)) := None))
           then fl else p # fl) (remove_st pd va pt p s)"
proof -
  have e: "present (pm s pt (unat (PTX va)))" "p = ppn (pm s pt (unat (PTX va)))"
    using t t' by (auto simp: tgt_SPte split: if_splits)
  have d: "present (pm s pd (unat (PDX va)))" "pt = ppn (pm s pd (unat (PDX va)))"
    using t' by (auto simp: tgt_SPde_Some)
  note p = page_inv_tgt [OF I t] and pt = page_inv_tgt [OF I t']
  show "page_remove pd va s = Ret () (remove_st pd va pt p s)"
    unfolding remove_st_def
    by (rule page_remove_eq [OF d(1)]) (use d e p pt present_nonzero in auto)
  note fin = finite_fibre [OF page_inv_finite [OF I]]
  have A: "acct ?T (\<lambda>r. pp_ref (pages (remove_st pd va pt p s) r)) (npages s)"
    using acct_clear(1) [OF page_inv_acct [OF I] fin t]
    by (simp add: remove_st_def set_pm_def decref_st_ref fun_upd_def)
  have R: "r \<in> set fl \<Longrightarrow> r \<notin> ran ?T" for r
    using page_inv_free(3) [OF I, of r] ran_upd_None by metis
  have F: "free_ok ?T (decref_st p s) (if p \<in> ran ?T then fl else p # fl)"
    by (rule decref_st_free_ok [OF page_inv_free_ok [OF I] p(1,2)
          acct_clear(2) [OF page_inv_acct [OF I] fin t] R])
  have F': "free_ok ?T (remove_st pd va pt p s) (if p \<in> ran ?T then fl else p # fl)"
    using F free_ok_same [of "remove_st pd va pt p s" "decref_st p s" ?T]
    by (simp add: remove_st_def set_pm_def)
  have np: "\<not> present 0" by (simp add: present_def)
  have pm': "pm (remove_st pd va pt p s) = (pm s)(pt := (pm s pt)(unat (PTX va) := 0))"
    "npages (remove_st pd va pt p s) = npages s"
    by (simp_all add: remove_st_def set_pm_def)
  have T0: "?T = (tgt pds s)(SPte pd (unat (PDX va)) (unat (PTX va)) :=
      if present 0 then Some (ppn 0) else None)" using np by simp
  show "tgt pds (remove_st pd va pt p s) = ?T"
    "page_inv pds (if p \<in> ran ?T then fl else p # fl) (remove_st pd va pt p s)"
    using page_inv_set_pte [OF I t' PTX_lt pm' _ T0 A F'] by simp_all
qed

lemma page_remove_none:
  assumes I: "page_inv pds fl s" and pd: "pd \<in> pds" and va: "va < UTOP"
    and t: "tgt pds s (SPte pd (unat (PDX va)) (unat (PTX va))) = None"
  shows "page_remove pd va s = Ret () s" "page_lookup pd va s = Ret None s"
proof -
  have i: "unat (PDX va) < UPDX" by (rule below_UTOP_PDX [OF va])
  show l: "page_lookup pd va s = Ret None s"
  proof (cases "present (pm s pd (unat (PDX va)))")
    case False then show ?thesis by (rule page_lookup_absent)
  next
    case True
    note tp = tgt_present [OF pd i True]
    have "\<not> present (pm s (ppn (pm s pd (unat (PDX va)))) (unat (PTX va)))"
      using t tp by (simp add: tgt_SPte split: if_splits)
    then have "pm s (ppn (pm s pd (unat (PDX va)))) (unat (PTX va)) = 0"
      using ptes_okD [OF page_inv_ptes [OF I] tp PTX_lt] by blast
    then show ?thesis
      using page_lookup_eq [OF True page_inv_tgt(1) [OF I tp] refl refl] by simp
  qed
  then show "page_remove pd va s = Ret () s" by (simp add: page_remove_def)
qed

section \<open>Inserting a mapping\<close>

text \<open>
  A page that may be mapped: in range, not on the free list, not used as a page table, and
  with an exact reference count that the 16-bit field can still increment.
\<close>

definition mappable :: "nat set \<Rightarrow> nat list \<Rightarrow> kstate \<Rightarrow> nat \<Rightarrow> bool" where
  "mappable pds fl s pp \<longleftrightarrow> pp < npages s \<and> pp \<notin> set fl \<and>
     (pp \<in> ran (tgt pds s) \<or> pp_ref (pages s pp) = 0) \<and>
     (\<forall>sl. tgt pds s sl = Some pp \<longrightarrow> \<not> is_table sl) \<and> unat (pp_ref (pages s pp)) < 65535"

definition insert_st :: "nat \<Rightarrow> nat \<Rightarrow> u32 \<Rightarrow> u32 \<Rightarrow> nat \<Rightarrow> kstate \<Rightarrow> kstate" where
  "insert_st pd pp va perm pt s =
     (let e = pm s pt (unat (PTX va)); s = ref_add pp 1 s;
          s = (if present e then remove_st pd va pt (ppn e) s else s);
          s = set_pm pt (unat (PTX va)) (page2pa pp OR perm OR PTE_P) s
      in set_pm pd (unat (PDX va)) (pm s pd (unat (PDX va)) OR perm) s)"

lemma ref_add_fields [simp]:
  "npages (ref_add p d s) = npages s" "pm (ref_add p d s) = pm s"
  "page_free_list (ref_add p d s) = page_free_list s"
  "pp_link (pages (ref_add p d s) r) = pp_link (pages s r)"
  "pp_ref (pages (ref_add p d s) r) = (if r = p then pp_ref (pages s p) + d else pp_ref (pages s r))"
  by (simp_all add: ref_add_def upd_page_def)

lemma remove_st_fields [simp]:
  "npages (remove_st pd va pt p s) = npages s"
  "pm (remove_st pd va pt p s) = (pm s)(pt := (pm s pt)(unat (PTX va) := 0))"
  "pp_ref (pages (remove_st pd va pt p s) r) =
     (if r = p then pp_ref (pages s p) - 1 else pp_ref (pages s r))"
  by (simp_all add: remove_st_def set_pm_def decref_st_ref)

text \<open>The write of the new entry, before the directory's permissions are widened.\<close>

lemma insert_pte_inv:
  assumes I: "page_inv pds fl s" and t': "tgt pds s (SPde pd (unat (PDX va))) = Some pt"
    and perm: "unat perm < 4096" and M: "mappable pds fl s pp"
    and e: "e = pm s pt (unat (PTX va))"
    and s1: "s1 = (if present e then remove_st pd va pt (ppn e) (ref_add pp 1 s) else ref_add pp 1 s)"
    and s2: "s2 = set_pm pt (unat (PTX va)) (page2pa pp OR perm OR PTE_P) s1"
    and T: "T = (tgt pds s)(SPte pd (unat (PDX va)) (unat (PTX va)) := Some pp)"
    and fl': "fl' = (if present e \<and> ppn e \<notin> ran T then ppn e # fl else fl)"
  shows "page_inv pds fl' s2 \<and> tgt pds s2 = T"
proof -
  let ?sl = "SPte pd (unat (PDX va)) (unat (PTX va))" and ?T = "tgt pds s"
  note A = page_inv_acct [OF I] and fin = finite_fibre [OF page_inv_finite [OF I]]
  have pp: "pp < npages s" "pp \<notin> set fl" "pp \<in> ran ?T \<or> pp_ref (pages s pp) = 0"
      "\<And>sl. ?T sl = Some pp \<Longrightarrow> \<not> is_table sl" "unat (pp_ref (pages s pp)) < 65535"
    using M by (auto simp: mappable_def)
  have sle: "?T ?sl = (if present e then Some (ppn e) else None)" using t' by (simp add: tgt_SPte e)
  have Tv: "T = (?T)(?sl := if present (page2pa pp OR perm OR PTE_P) then
      Some (ppn (page2pa pp OR perm OR PTE_P)) else None)"
    using pp(1) page_inv_npages [OF I] perm present_entry [of "page2pa pp OR perm"]
    by (simp add: T ppn_entry or.assoc)
  have n2: "npages s2 = npages s" and pm2: "pm s2 = (pm s)(pt := (pm s pt)(unat (PTX va) := page2pa pp OR perm OR PTE_P))"
    by (auto simp: s2 s1 set_pm_def)
  have R: "r \<in> set fl \<Longrightarrow> r \<notin> ran T" for r
    using pp(2) page_inv_free(3) [OF I, of r] ran_upd_Some [of r ?T ?sl pp] unfolding T by metis
  have AF: "acct T (\<lambda>r. pp_ref (pages s2 r)) (npages s) \<and> free_ok T s2 fl'"
  proof (cases "present e")
    case False
    then have em: "?T ?sl = None" using sle by simp
    have "acct T ((\<lambda>p. pp_ref (pages s p))(pp := pp_ref (pages s pp) + 1)) (npages s)"
      unfolding T by (rule acct_fill [OF A fin em pp(1,5,3,4)]) auto
    moreover have "(\<lambda>r. pp_ref (pages s2 r)) = (\<lambda>p. pp_ref (pages s p))(pp := pp_ref (pages s pp) + 1)"
      using False by (auto simp: s2 s1 set_pm_def)
    moreover have "free_ok T s2 fl"
      by (rule free_ok_cong [OF page_inv_free_ok [OF I]])
        (use False pp(2) R in \<open>auto simp: s2 s1 set_pm_def\<close>)
    ultimately show ?thesis using False by (simp add: fl')
  next
    case True
    let ?p = "ppn e" and ?T1 = "?T(?sl := None)" and ?r = "\<lambda>p. pp_ref (pages s p)"
    have old: "?T ?sl = Some ?p" using True sle by simp
    note p = page_inv_tgt [OF I old] and C = acct_clear [OF A fin old]
    let ?r1 = "?r(?p := ?r ?p - 1)"
    have T1: "T = ?T1(?sl := Some pp)" by (simp add: T)
    have fin1: "finite (fibre ?T1 pp)" using fin [of s pp] by (auto simp: fibre_upd)
    have c1: "pp \<in> ran ?T1 \<or> ?r1 pp = 0"
    proof (cases "pp = ?p")
      case True then show ?thesis using C(2) by auto
    next
      case False
      from pp(3) show ?thesis
      proof
        assume "pp \<in> ran ?T"
        then obtain sl where "?T sl = Some pp" by (auto simp: ran_def)
        moreover have "sl \<noteq> ?sl" using calculation old False by auto
        ultimately have "?T1 sl = Some pp" by simp
        then show ?thesis by (metis ranI)
      qed (simp add: False)
    qed
    have b1: "unat (?r1 pp) < 65535"
    proof (cases "pp = ?p")
      case True
      have "unat (?r ?p - 1) \<le> unat (?r ?p)"
        using p(4) by (metis diff_le_self unat_minus_one)
      then show ?thesis using pp(5) True by simp
    qed (use pp(5) in simp)
    have "acct T (?r1(pp := ?r1 pp + 1)) (npages s)"
      unfolding T1 by (rule acct_fill [OF C(1) fin1 _ pp(1) b1 c1])
        (use pp(4) in \<open>auto split: if_splits\<close>)
    moreover have r2: "(\<lambda>r. pp_ref (pages s2 r)) = ?r1(pp := ?r1 pp + 1)"
      using True by (auto simp: s2 s1 set_pm_def)
    moreover have "free_ok T s2 fl'"
    proof -
      have F0: "free_ok ?T (ref_add pp 1 s) fl"
        by (rule free_ok_cong [OF page_inv_free_ok [OF I]]) (use pp(2) page_inv_free(3) [OF I] in auto)
      have iff: "pp_ref (pages (ref_add pp 1 s) ?p) - 1 = 0 \<longleftrightarrow> ?p \<notin> ran T"
      proof (cases "pp = ?p")
        case True
        then have "?p \<in> ran T" unfolding T by (auto simp: ran_def)
        then show ?thesis using True p(4) by simp
      next
        case False
        then have "?p \<in> ran T \<longleftrightarrow> ?p \<in> ran ?T1" unfolding T1 by (auto simp: ran_def)
        then show ?thesis using False C(2) by simp
      qed
      have "free_ok T (decref_st ?p (ref_add pp 1 s)) (if ?p \<in> ran T then fl else ?p # fl)"
        by (rule decref_st_free_ok [OF F0 _ p(2) iff R]) (use p(1) in simp)
      then have "free_ok T (decref_st ?p (ref_add pp 1 s)) fl'"
        using True by (cases "?p \<in> ran T") (simp_all add: fl')
      then show ?thesis
        using True free_ok_same [of s2 "decref_st ?p (ref_add pp 1 s)" T fl']
        by (simp add: s2 s1 remove_st_def set_pm_def)
    qed
    ultimately show ?thesis by simp
  qed
  show ?thesis
    using page_inv_set_pte [OF I t' PTX_lt pm2 n2 _ Tv, of fl'] AF present_entry [of "page2pa pp OR perm"]
    by (simp add: or.assoc)
qed

lemma insert_st_inv:
  assumes I: "page_inv pds fl s" and t': "tgt pds s (SPde pd (unat (PDX va))) = Some pt"
    and perm: "unat perm < 4096" and M: "mappable pds fl s pp"
  shows "\<exists>fl'. page_inv pds fl' (insert_st pd pp va perm pt s) \<and> set fl' \<subseteq> set fl \<union> ran (tgt pds s)"
    and "tgt pds (insert_st pd pp va perm pt s) =
           (tgt pds s)(SPte pd (unat (PDX va)) (unat (PTX va)) := Some pp)"
proof -
  define e where "e = pm s pt (unat (PTX va))"
  define s1 where "s1 = (if present e then remove_st pd va pt (ppn e) (ref_add pp 1 s) else ref_add pp 1 s)"
  define s2 where "s2 = set_pm pt (unat (PTX va)) (page2pa pp OR perm OR PTE_P) s1"
  define T where "T = (tgt pds s)(SPte pd (unat (PDX va)) (unat (PTX va)) := Some pp)"
  define fl' where "fl' = (if present e \<and> ppn e \<notin> ran T then ppn e # fl else fl)"
  have s3: "insert_st pd pp va perm pt s = set_pm pd (unat (PDX va)) (pm s2 pd (unat (PDX va)) OR perm) s2"
    by (simp add: insert_st_def Let_def e_def s1_def s2_def)
  have I2: "page_inv pds fl' s2" and T2: "tgt pds s2 = T"
    using insert_pte_inv [OF I t' perm M e_def s1_def s2_def T_def fl'_def] by auto
  have t2: "tgt pds s2 (SPde pd (unat (PDX va))) = Some pt" using t' by (simp add: T2 T_def)
  have "present e \<Longrightarrow> ppn e \<in> ran (tgt pds s)"
    using t' by (intro ranI [of _ "SPte pd (unat (PDX va)) (unat (PTX va))"]) (simp add: tgt_SPte e_def)
  then have "set fl' \<subseteq> set fl \<union> ran (tgt pds s)" by (auto simp: fl'_def)
  with page_inv_or_pde [OF I2 perm t2] T2
  show "\<exists>fl'. page_inv pds fl' (insert_st pd pp va perm pt s) \<and> set fl' \<subseteq> set fl \<union> ran (tgt pds s)"
    "tgt pds (insert_st pd pp va perm pt s) =
       (tgt pds s)(SPte pd (unat (PDX va)) (unat (PTX va)) := Some pp)"
    by (auto simp: s3 T_def)
qed

lemma page_insert_present:
  assumes I: "page_inv pds fl s" and t': "tgt pds s (SPde pd (unat (PDX va))) = Some pt"
  shows "page_insert pd pp va perm s = Ret 0 (insert_st pd pp va perm pt s)"
proof -
  let ?i = "unat (PDX va)" and ?j = "unat (PTX va)" and ?s = "ref_add pp 1 s"
  have d: "present (pm s pd ?i)" "pt = ppn (pm s pd ?i)" using t' by (auto simp: tgt_SPde_Some)
  note pt = page_inv_tgt [OF I t']
  have w: "pgdir_walk pd va True s = Ret (Some (pt, ?j)) s"
    using pgdir_walk_hit [OF d(1), of True] d pt by simp
  have r: "page_remove pd va ?s = Ret () (remove_st pd va pt (ppn (pm s pt ?j)) ?s)"
    if e: "present (pm s pt ?j)"
  proof -
    have "tgt pds s (SPte pd ?i ?j) = Some (ppn (pm s pt ?j))" using t' e by (simp add: tgt_SPte)
    note p = page_inv_tgt [OF I this]
    show ?thesis unfolding remove_st_def
      by (rule page_remove_eq) (use d e p pt present_nonzero in auto)
  qed
  show ?thesis
    using r by (simp add: page_insert_def w Let_def insert_st_def ref_add_def [symmetric] present_def)
qed

text \<open>
  The table that \<open>pgdir_walk\<close> creates on demand, and when it cannot: the directory entry is
  absent and the free list is empty.
\<close>

definition walk_made :: "nat \<Rightarrow> u32 \<Rightarrow> nat list \<Rightarrow> kstate \<Rightarrow> kstate \<Rightarrow> bool" where
  "walk_made pd va fl s s1 \<longleftrightarrow> s1 = s \<or>
     (\<exists>q fl1. fl = q # fl1 \<and> \<not> present (pm s pd (unat (PDX va))) \<and>
        s1 = walk_new pd (unat (PDX va)) q s)"

lemma pgdir_walk_inv:
  assumes I: "page_inv pds fl s" and pd: "pd \<in> pds" and va: "va < UTOP"
  shows "(tgt pds s (SPde pd (unat (PDX va))) = None \<and> fl = [] \<and> pgdir_walk pd va True s = Ret None s) \<or>
    (\<exists>pt s1 fl1. pgdir_walk pd va True s = Ret (Some (pt, unat (PTX va))) s1 \<and>
       page_inv pds fl1 s1 \<and> set fl1 \<subseteq> set fl \<and>
       tgt pds s1 = (tgt pds s)(SPde pd (unat (PDX va)) := Some pt) \<and>
       (pt \<notin> set fl \<longrightarrow> tgt pds s (SPde pd (unat (PDX va))) = Some pt) \<and>
       (\<forall>p. p \<notin> set fl \<longrightarrow> pages s1 p = pages s p) \<and> npages s1 = npages s \<and>
       walk_made pd va fl s s1)"
proof (cases "present (pm s pd (unat (PDX va)))")
  case True
  note t = tgt_present [OF pd below_UTOP_PDX [OF va] True]
  have "pgdir_walk pd va True s = Ret (Some (ppn (pm s pd (unat (PDX va))), unat (PTX va))) s"
    by (rule pgdir_walk_hit [OF True page_inv_tgt(1) [OF I t]])
  then show ?thesis using I t
    by (intro disjI2 exI [of _ "ppn (pm s pd (unat (PDX va)))"] exI [of _ s] exI [of _ fl])
      (auto simp: walk_made_def)
next
  case False
  show ?thesis
  proof (cases fl)
    case Nil
    then show ?thesis
      using pgdir_walk_no_memory [OF False] page_inv_head [OF I] tgt_absent(1) [OF False] by simp
  next
    case (Cons q fl1)
    with I have I': "page_inv pds (q # fl1) s" by simp
    have q: "page_free_list s = Some q" "q < npages s"
      using page_inv_head [OF I'] page_inv_free(1) [OF I', of q] by auto
    note N = page_inv_walk_new [OF I' pd below_UTOP_PDX [OF va] False]
    have "pages (walk_new pd (unat (PDX va)) q s) p = pages s p" if "p \<noteq> q" for p
      using that by (simp add: walk_new_def st_defs)
    moreover have "npages (walk_new pd (unat (PDX va)) q s) = npages s"
      by (simp add: walk_new_def st_defs)
    ultimately show ?thesis
      using pgdir_walk_create [OF False q page_inv_npages [OF I]] N Cons False
      by (intro disjI2 exI [of _ q] exI [of _ "walk_new pd (unat (PDX va)) q s"] exI [of _ fl1])
        (auto simp: walk_made_def)
  qed
qed

lemma page_insert_inv:
  assumes I: "page_inv pds fl s" and pd: "pd \<in> pds" and va: "va < UTOP"
    and M: "mappable pds fl s pp"
  shows "(tgt pds s (SPde pd (unat (PDX va))) = None \<and> fl = [] \<and>
            page_insert pd pp va perm s = Ret (- E_NO_MEM) s) \<or>
    (\<exists>s1 fl1 pt. page_insert pd pp va perm s = Ret 0 (insert_st pd pp va perm pt s1) \<and>
       page_inv pds fl1 s1 \<and> mappable pds fl1 s1 pp \<and> walk_made pd va fl s s1 \<and> set fl1 \<subseteq> set fl \<and>
       (pt \<notin> set fl \<longrightarrow> tgt pds s (SPde pd (unat (PDX va))) = Some pt) \<and>
       tgt pds s1 = (tgt pds s)(SPde pd (unat (PDX va)) := Some pt))"
  using pgdir_walk_inv [OF I pd va]
proof (elim disjE exE conjE)
  assume "tgt pds s (SPde pd (unat (PDX va))) = None" "fl = []" "pgdir_walk pd va True s = Ret None s"
  then show ?thesis by (simp add: page_insert_def)
next
  fix pt s1 fl1
  let ?sd = "SPde pd (unat (PDX va))"
  assume w: "pgdir_walk pd va True s = Ret (Some (pt, unat (PTX va))) s1"
    and I1: "page_inv pds fl1 s1" and fl1: "set fl1 \<subseteq> set fl"
    and T1: "tgt pds s1 = (tgt pds s)(?sd := Some pt)"
    and pt: "pt \<notin> set fl \<longrightarrow> tgt pds s ?sd = Some pt"
    and pg: "\<forall>p. p \<notin> set fl \<longrightarrow> pages s1 p = pages s p" and n: "npages s1 = npages s"
    and wm: "walk_made pd va fl s s1"
  have t1: "tgt pds s1 ?sd = Some pt" by (simp add: T1)
  have pp: "pp \<notin> set fl" "\<And>sl. tgt pds s sl = Some pp \<Longrightarrow> \<not> is_table sl" using M by (auto simp: mappable_def)
  have ptpp: "pt \<noteq> pp" using pt pp by fastforce
  have keep: "tgt pds s sl = Some pp \<Longrightarrow> tgt pds s1 sl = Some pp" for sl
    using pp(2) [of sl] by (auto simp: T1)
  have rn: "pp \<in> ran (tgt pds s) \<Longrightarrow> pp \<in> ran (tgt pds s1)"
    using keep unfolding ran_def by blast
  have nt: "tgt pds s1 sl = Some pp \<Longrightarrow> \<not> is_table sl" for sl
    using pp(2) [of sl] ptpp by (auto simp: T1 split: if_splits)
  have M1: "mappable pds fl1 s1 pp"
    using M fl1 pg n rn nt pp(1) unfolding mappable_def by auto
  have "page_insert pd pp va perm s = page_insert pd pp va perm s1"
    using w pgdir_walk_hit [of s1 pd va True] t1 page_inv_tgt(1) [OF I1 t1]
    by (auto simp: page_insert_def tgt_SPde_Some)
  also have "\<dots> = Ret 0 (insert_st pd pp va perm pt s1)" by (rule page_insert_present [OF I1 t1])
  finally show ?thesis using I1 M1 T1 wm fl1 pt by blast
qed

end
