(* ===== verification/AddrSpace.thy ===== *)
theory AddrSpace
  imports PmapProps
begin

text \<open>
  The page tables of an environment, below UTOP, as a map from virtual pages to entries. The map
  is what the MMU computes (\<open>vpte\<close>); mapping and unmapping a page update it at one key.
\<close>

section \<open>The translation the MMU performs\<close>

definition vpte :: "kstate \<Rightarrow> nat \<Rightarrow> u32 \<Rightarrow> u32 option" where
  "vpte s pd va =
     (let pde = pm s pd (unat (PDX va)); pte = pm s (ppn pde) (unat (PTX va))
      in if present pde \<and> present pte then Some pte else None)"

lemma vpte_tgt:
  assumes "pd \<in> pds" "va < UTOP"
  shows "vpte s pd va = (case tgt pds s (SPde pd (unat (PDX va))) of None \<Rightarrow> None
    | Some pt \<Rightarrow> if present (pm s pt (unat (PTX va))) then Some (pm s pt (unat (PTX va))) else None)"
  using assms below_UTOP_PDX [OF assms(2)] by (simp add: vpte_def tgt.simps Let_def)

lemma vpte_page:
  assumes "pd \<in> pds" "va < UTOP"
  shows "tgt pds s (SPte pd (unat (PDX va)) (unat (PTX va))) = map_option ppn (vpte s pd va)"
  using vpte_tgt [OF assms] by (simp add: tgt_SPte split: option.split)

lemma vpte_cong: "pm s' = pm s \<Longrightarrow> vpte s' = vpte s"
  by (simp add: vpte_def fun_eq_iff Let_def)

lemma vpte_page2: "PGNUM va = PGNUM va' \<Longrightarrow> vpte s pd va = vpte s pd va'"
  by (simp add: vpte_def PGNUM_PDX [of va va'] PGNUM_PTX [of va va'])

section \<open>Words of tables that are not written\<close>

lemma table_ne_pd:
  assumes "page_inv pds fl s" "tgt pds s (SPde pd i) = Some pt" "pd' \<in> pds"
  shows "pt \<noteq> pd'"
  using assms acct_table_unique [OF page_inv_acct, of pds fl s "SPd pd'" pd' "SPde pd i"]
  by (auto simp: tgt_SPd)

lemma table_inj:
  assumes "page_inv pds fl s" "tgt pds s (SPde pd i) = Some pt" "tgt pds s (SPde pd' i') = Some pt"
  shows "pd' = pd \<and> i' = i"
  using assms acct_table_unique [OF page_inv_acct, of pds fl s "SPde pd i" pt "SPde pd' i'"] by auto

lemma vpte_walk_new:
  assumes I: "page_inv pds (q # fl) s" and pd: "pd \<in> pds" "i < UPDX" and np: "\<not> present (pm s pd i)"
    and pd': "pd' \<in> pds" and va': "va' < UTOP"
  shows "vpte (walk_new pd i q s) pd' va' = vpte s pd' va'"
proof -
  let ?s = "walk_new pd i q s"
  note N = page_inv_walk_new [OF I pd np]
  have q: "q \<notin> ran (tgt pds s)" using page_inv_free(3) [OF I] by simp
  have pm: "r \<noteq> q \<Longrightarrow> r \<noteq> pd \<Longrightarrow> pm ?s r = pm s r" and z: "pm ?s q = (\<lambda>_. 0)" for r
    using q pd_ran [OF pd(1)] by (auto simp: walk_new_def st_defs)
  show ?thesis
  proof (cases "pd' = pd \<and> unat (PDX va') = i")
    case True
    then have h: "pd' = pd" "unat (PDX va') = i" by auto
    show ?thesis unfolding vpte_tgt [OF pd' va'] N(2)
      using z tgt_absent(1) [OF np, of pds] h by (simp add: present_def)
  next
    case False
    then have T: "tgt pds ?s (SPde pd' (unat (PDX va'))) = tgt pds s (SPde pd' (unat (PDX va')))"
      by (auto simp: N(2))
    have "pm ?s r = pm s r" if "tgt pds s (SPde pd' (unat (PDX va'))) = Some r" for r
      using pm [of r] q ranI [of "tgt pds s", OF that] table_ne_pd [OF I that pd(1)] by metis
    then show ?thesis by (simp add: vpte_tgt [OF pd' va'] T split: option.split)
  qed
qed

lemma pm_insert_st:
  assumes "pt \<noteq> pd"
  shows "pm (insert_st pd pp va perm pt s) =
    (pm s)(pt := (pm s pt)(unat (PTX va) := page2pa pp OR perm OR PTE_P),
           pd := (pm s pd)(unat (PDX va) := pm s pd (unat (PDX va)) OR perm))"
  using assms by (auto simp: insert_st_def Let_def set_pm_def)

lemma vpte_set:
  assumes I: "page_inv pds fl s" and t: "tgt pds s (SPde pd (unat (PDX va))) = Some pt"
    and pm': "\<And>r k. r \<notin> pds \<Longrightarrow> pm s' r k = (if r = pt \<and> k = unat (PTX va) then v else pm s r k)"
    and T': "\<And>d i. tgt pds s' (SPde d i) = tgt pds s (SPde d i)"
    and pd': "pd' \<in> pds" and va': "va' < UTOP"
  shows "vpte s' pd' va' =
    (if pd' = pd \<and> PGNUM va' = PGNUM va then (if present v then Some v else None) else vpte s pd' va')"
proof (cases "tgt pds s (SPde pd' (unat (PDX va')))")
  case None
  have "\<not> (pd' = pd \<and> PGNUM va' = PGNUM va)"
  proof
    assume h: "pd' = pd \<and> PGNUM va' = PGNUM va"
    then have "PDX va' = PDX va" by (metis PGNUM_PDX)
    with None t h show False by simp
  qed
  then show ?thesis by (simp add: vpte_tgt [OF pd' va'] T' None)
next
  case (Some r)
  then have r: "r \<notin> pds" using table_ne_pd [OF I] by metis
  have key: "pd' = pd \<and> PGNUM va' = PGNUM va \<longleftrightarrow> r = pt \<and> unat (PTX va') = unat (PTX va)"
    using table_inj [OF I t] Some t PGNUM_PDX [of va va'] PGNUM_PTX [of va va'] PDX_PTX_inj [of va' va]
    by (metis option.inject)
  show ?thesis
    using pm' [OF r, of "unat (PTX va')"]
    unfolding key by (auto simp: vpte_tgt [OF pd' va'] T' Some)
qed

section \<open>Mapping and unmapping update the map\<close>

lemma vpte_insert_st:
  assumes I: "page_inv pds fl s" and t: "tgt pds s (SPde pd (unat (PDX va))) = Some pt"
    and perm: "unat perm < 4096" and M: "mappable pds fl s pp"
    and pd': "pd' \<in> pds" and va': "va' < UTOP"
  shows "vpte (insert_st pd pp va perm pt s) pd' va' =
    (if pd' = pd \<and> PGNUM va' = PGNUM va then Some (page2pa pp OR perm OR PTE_P) else vpte s pd' va')"
proof -
  have pd: "pd \<in> pds" using t by (simp add: tgt_SPde_Some)
  have ne: "pt \<noteq> pd" by (rule table_ne_pd [OF I t pd])
  have pr: "present (page2pa pp OR perm OR PTE_P)"
    using present_entry [of "page2pa pp OR perm"] by (simp add: or.assoc)
  have "vpte (insert_st pd pp va perm pt s) pd' va' =
    (if pd' = pd \<and> PGNUM va' = PGNUM va
     then if present (page2pa pp OR perm OR PTE_P) then Some (page2pa pp OR perm OR PTE_P) else None
     else vpte s pd' va')"
    by (rule vpte_set [OF I t _ _ pd' va'])
      (use pd in \<open>auto simp: pm_insert_st [OF ne] insert_st_inv(2) [OF I t perm M]\<close>)
  then show ?thesis using pr by simp
qed

lemma vpte_remove_st:
  assumes I: "page_inv pds fl s" and t: "tgt pds s (SPte pd (unat (PDX va)) (unat (PTX va))) = Some p"
    and t': "tgt pds s (SPde pd (unat (PDX va))) = Some pt"
    and pd': "pd' \<in> pds" and va': "va' < UTOP"
  shows "vpte (remove_st pd va pt p s) pd' va' =
    (if pd' = pd \<and> PGNUM va' = PGNUM va then None else vpte s pd' va')"
proof -
  have "vpte (remove_st pd va pt p s) pd' va' =
    (if pd' = pd \<and> PGNUM va' = PGNUM va then if present 0 then Some 0 else None else vpte s pd' va')"
    by (rule vpte_set [OF I t' _ _ pd' va']) (auto simp: page_remove_inv(2) [OF I t t'])
  then show ?thesis by (simp add: present_def)
qed

text \<open>
  The abstract address space: an insertion maps one page and leaves every other page of every
  environment as it was.
\<close>

definition as_upd :: "nat \<Rightarrow> u32 \<Rightarrow> u32 option \<Rightarrow> (nat \<Rightarrow> u32 \<Rightarrow> u32 option) \<Rightarrow> nat \<Rightarrow> u32 \<Rightarrow> u32 option" where
  "as_upd pd va v m pd' va' = (if pd' = pd \<and> PGNUM va' = PGNUM va then v else m pd' va')"

definition as_eq :: "nat set \<Rightarrow> (nat \<Rightarrow> u32 \<Rightarrow> u32 option) \<Rightarrow> (nat \<Rightarrow> u32 \<Rightarrow> u32 option) \<Rightarrow> bool" where
  "as_eq pds m m' \<longleftrightarrow> (\<forall>pd va. pd \<in> pds \<and> va < UTOP \<longrightarrow> m pd va = m' pd va)"

lemma as_eq_refl: "as_eq pds m m"
  by (simp add: as_eq_def)

lemma vpte_walk_made:
  assumes I: "page_inv pds fl s" and pd: "pd \<in> pds" and va: "va < UTOP"
    and w: "walk_made pd va fl s s1"
  shows "as_eq pds (vpte s1) (vpte s)"
  using w unfolding walk_made_def as_eq_def
  using vpte_walk_new [OF _ pd below_UTOP_PDX [OF va]] I by blast

lemma page_insert_full:
  assumes I: "page_inv pds fl s" and pd: "pd \<in> pds" and va: "va < UTOP"
    and perm: "unat perm < 4096" and M: "mappable pds fl s pp"
  shows "(fl = [] \<and> page_insert pd pp va perm s = Ret (- E_NO_MEM) s) \<or>
    (\<exists>s' fl' pt. page_insert pd pp va perm s = Ret 0 s' \<and> page_inv pds fl' s' \<and>
       tgt pds s' = (tgt pds s)(SPde pd (unat (PDX va)) := Some pt,
                                SPte pd (unat (PDX va)) (unat (PTX va)) := Some pp) \<and>
       as_eq pds (vpte s') (as_upd pd va (Some (page2pa pp OR perm OR PTE_P)) (vpte s)))"
  using page_insert_inv [OF I pd va M, of perm]
proof (elim disjE exE conjE)
  fix s1 fl1 pt
  assume r: "page_insert pd pp va perm s = Ret 0 (insert_st pd pp va perm pt s1)"
    and I1: "page_inv pds fl1 s1" and M1: "mappable pds fl1 s1 pp" and w: "walk_made pd va fl s s1"
    and T1: "tgt pds s1 = (tgt pds s)(SPde pd (unat (PDX va)) := Some pt)"
  have t1: "tgt pds s1 (SPde pd (unat (PDX va))) = Some pt" by (simp add: T1)
  note R = insert_st_inv [OF I1 t1 perm M1]
  have "as_eq pds (vpte (insert_st pd pp va perm pt s1))
          (as_upd pd va (Some (page2pa pp OR perm OR PTE_P)) (vpte s))"
    using vpte_insert_st [OF I1 t1 perm M1] vpte_walk_made [OF I pd va w]
    by (auto simp: as_eq_def as_upd_def)
  then show ?thesis using r R T1 by auto
qed auto

lemma page_remove_full:
  assumes I: "page_inv pds fl s" and pd: "pd \<in> pds" and va: "va < UTOP"
  shows "\<exists>s' fl'. page_remove pd va s = Ret () s' \<and> page_inv pds fl' s' \<and>
       tgt pds s' = (tgt pds s)(SPte pd (unat (PDX va)) (unat (PTX va)) := None) \<and>
       as_eq pds (vpte s') (as_upd pd va None (vpte s))"
proof (cases "tgt pds s (SPte pd (unat (PDX va)) (unat (PTX va)))")
  case None
  then have "vpte s pd va = None" using vpte_page [OF pd va, of s] by simp
  then have "as_eq pds (vpte s) (as_upd pd va None (vpte s))"
    unfolding as_eq_def as_upd_def by (metis vpte_page2)
  then show ?thesis using page_remove_none(1) [OF I pd va None] I None
    by (auto intro!: exI [of _ s] exI [of _ fl] simp: fun_upd_idem)
next
  case (Some p)
  then obtain pt where t': "tgt pds s (SPde pd (unat (PDX va))) = Some pt"
    by (auto simp: tgt_SPte_Some)
  have "as_eq pds (vpte (remove_st pd va pt p s)) (as_upd pd va None (vpte s))"
    using vpte_remove_st [OF I Some t'] by (auto simp: as_eq_def as_upd_def)
  then show ?thesis using page_remove_inv [OF I Some t'] by blast
qed

lemma page_lookup_full:
  assumes I: "page_inv pds fl s" and pd: "pd \<in> pds" and va: "va < UTOP"
  shows "(vpte s pd va = None \<longrightarrow> page_lookup pd va s = Ret None s) \<and>
    (\<forall>e. vpte s pd va = Some e \<longrightarrow>
       (\<exists>pt. page_lookup pd va s = Ret (Some (ppn e, pt, unat (PTX va))) s \<and>
          pm s pt (unat (PTX va)) = e \<and> ppn e < npages s \<and>
          tgt pds s (SPte pd (unat (PDX va)) (unat (PTX va))) = Some (ppn e)))"
proof (intro conjI allI impI)
  assume "vpte s pd va = None"
  then have "tgt pds s (SPte pd (unat (PDX va)) (unat (PTX va))) = None"
    using vpte_page [OF pd va, of s] by simp
  then show "page_lookup pd va s = Ret None s" by (rule page_remove_none(2) [OF I pd va])
next
  fix e assume e: "vpte s pd va = Some e"
  then have t: "tgt pds s (SPte pd (unat (PDX va)) (unat (PTX va))) = Some (ppn e)"
    using vpte_page [OF pd va, of s] by simp
  then obtain pt where t': "tgt pds s (SPde pd (unat (PDX va))) = Some pt" by (auto simp: tgt_SPte_Some)
  have pe: "pm s pt (unat (PTX va)) = e" "present e"
    using e t' by (auto simp: vpte_tgt [OF pd va] split: if_splits)
  have d: "present (pm s pd (unat (PDX va)))" "pt = ppn (pm s pd (unat (PDX va)))"
    using t' by (auto simp: tgt_SPde_Some)
  have "page_lookup pd va s = Ret (Some (ppn e, pt, unat (PTX va))) s"
    using page_lookup_eq [OF d(1) _ d(2) refl] page_inv_tgt(1) [OF I t'] page_inv_tgt(1) [OF I t]
      pe present_nonzero [OF pe(2)] d by simp
  then show "\<exists>pt. page_lookup pd va s = Ret (Some (ppn e, pt, unat (PTX va))) s \<and>
          pm s pt (unat (PTX va)) = e \<and> ppn e < npages s \<and>
          tgt pds s (SPte pd (unat (PDX va)) (unat (PTX va))) = Some (ppn e)"
    using pe page_inv_tgt(1) [OF I t] t by blast
qed

end
