(* ===== verification/PmapThms.thy ===== *)
theory PmapThms
  imports AddrSpace
begin

text \<open>
  The properties of physical page management (lab/kern/pmap.c): allocation, mapping, unmapping and
  lookup against the accounting invariant \<open>page_inv\<close> and the MMU's view \<open>vpte\<close> of an address space.
\<close>

section \<open>Allocation\<close>

lemma page_alloc_full:
  assumes I: "page_inv pds (p # fl) s"
  shows "page_alloc f s = Ret (Some p)
      (if nz (f AND ALLOC_ZERO) then memset_page p 0 (page_pop p s) else page_pop p s)"
    and "page_inv pds fl (if nz (f AND ALLOC_ZERO) then memset_page p 0 (page_pop p s) else page_pop p s)"
    and "tgt pds (if nz (f AND ALLOC_ZERO) then memset_page p 0 (page_pop p s) else page_pop p s) = tgt pds s"
    and "mappable pds fl (if nz (f AND ALLOC_ZERO) then memset_page p 0 (page_pop p s) else page_pop p s) p"
proof -
  let ?t = "if nz (f AND ALLOC_ZERO) then memset_page p 0 (page_pop p s) else page_pop p s"
  have F: "free_ok (tgt pds s) s (p # fl)" by (rule page_inv_free_ok [OF I])
  then have p: "p < npages s" "pp_ref (pages s p) = 0" "p \<notin> ran (tgt pds s)"
    and l: "lseg (\<lambda>p. pp_link (pages s p)) (page_free_list s) (p # fl)"
    by (auto simp: free_ok_def)
  have h: "page_free_list s = Some p" using l by simp
  show "page_alloc f s = Ret (Some p) ?t"
    using page_alloc_Some [OF h p(1) page_inv_npages [OF I]] by simp
  note P = page_inv_pop [OF I]
  have pn: "p \<notin> ran (tgt pds (page_pop p s))" using P(2) p(3) by simp
  show t: "tgt pds ?t = tgt pds s" using P(2) page_inv_memset(2) [OF P(1) pn, of 0] by simp
  show "page_inv pds fl ?t" using P(1) page_inv_memset(1) [OF P(1) pn, of 0] by simp
  have "distinct (p # fl)" using lseg_distinct [OF l] .
  then show "mappable pds fl ?t p"
    using p t unfolding mappable_def by (auto simp: st_defs ran_def)
qed

text \<open>
  \<open>page_alloc\<close> returns NULL exactly when the free list is empty and then changes nothing;
  otherwise it returns the first free page, off the list, with no reference and no link, zeroed on
  request, and keeps the accounting invariant, every translation and every other page's contents.
\<close>

theorem page_alloc_correct:
  assumes "page_inv pds fl s"
  shows "case fl of
      [] \<Rightarrow> page_alloc flags s = Ret None s
    | p # fl' \<Rightarrow> (\<exists>s'. page_alloc flags s = Ret (Some p) s' \<and> page_inv pds fl' s' \<and> p \<notin> set fl'
          \<and> pages s' p = \<lparr>pp_link = None, pp_ref = 0\<rparr> \<and> tgt pds s' = tgt pds s
          \<and> (flags AND ALLOC_ZERO \<noteq> 0 \<longrightarrow> (\<forall>i. pm s' p i = 0))
          \<and> (\<forall>q i. q \<noteq> p \<longrightarrow> pm s' q i = pm s q i))"
proof (cases fl)
  case Nil
  then have "page_free_list s = None" using page_inv_free_ok [OF assms] by (cases "page_free_list s") (auto simp: free_ok_def)
  then show ?thesis using Nil by (simp add: page_alloc_None)
next
  case (Cons p fl')
  then have I: "page_inv pds (p # fl') s" using assms by simp
  let ?t = "if nz (flags AND ALLOC_ZERO) then memset_page p 0 (page_pop p s) else page_pop p s"
  note A = page_alloc_full [OF I, of flags]
  have "pp_ref (pages s p) = 0" using page_inv_free_ok [OF I] by (simp add: free_ok_def)
  then have "pages ?t p = \<lparr>pp_link = None, pp_ref = 0\<rparr>" by (simp add: st_defs)
  moreover have "p \<notin> set fl'" using A(4) by (simp add: mappable_def)
  moreover have "flags AND ALLOC_ZERO \<noteq> 0 \<longrightarrow> (\<forall>i. pm ?t p i = 0)"
    "\<forall>q i. q \<noteq> p \<longrightarrow> pm ?t q i = pm s q i" by (simp_all add: st_defs)
  ultimately show ?thesis
    using A(1-3) unfolding Cons list.case by (intro exI [of _ ?t] conjI)
qed

section \<open>Mapping\<close>

lemma page_inv_ref:
  "page_inv pds fl s \<Longrightarrow> tgt pds s sl = Some p \<Longrightarrow> unat (pp_ref (pages s p)) = card (fibre (tgt pds s) p)"
  using page_inv_acct [of pds fl s] unfolding acct_def by blast

text \<open>
  C11: \<open>page_insert\<close> maps a page at a user address: it fails, with -E\_NO\_MEM and no effect, only when
  no page is free; otherwise the MMU translates the address to the page with the given permissions,
  every other page of every environment is translated as before, and every reference count is
  again the number of references.
\<close>

theorem page_insert_correct:
  assumes "page_inv pds fl s" and "pd \<in> pds" and "va < UTOP" and "unat perm < 4096"
    and "mappable pds fl s pp"
  shows "(fl = [] \<and> page_insert pd pp va perm s = Ret (- E_NO_MEM) s) \<or>
    (\<exists>s' fl'. page_insert pd pp va perm s = Ret 0 s' \<and> page_inv pds fl' s'
       \<and> vpte s' pd va = Some (page2pa pp OR perm OR PTE_P)
       \<and> (\<forall>pd' \<in> pds. \<forall>va' < UTOP. pd' \<noteq> pd \<or> PGNUM va' \<noteq> PGNUM va \<longrightarrow> vpte s' pd' va' = vpte s pd' va')
       \<and> unat (pp_ref (pages s' pp)) = card (fibre (tgt pds s') pp))"
  using page_insert_full [OF assms]
proof (elim disjE exE conjE)
  fix s' fl' pt
  assume r: "page_insert pd pp va perm s = Ret 0 s'" and I': "page_inv pds fl' s'"
    and T: "tgt pds s' = (tgt pds s)(SPde pd (unat (PDX va)) := Some pt,
              SPte pd (unat (PDX va)) (unat (PTX va)) := Some pp)"
    and A: "as_eq pds (vpte s') (as_upd pd va (Some (page2pa pp OR perm OR PTE_P)) (vpte s))"
  have "tgt pds s' (SPte pd (unat (PDX va)) (unat (PTX va))) = Some pp" using T by simp
  then have "unat (pp_ref (pages s' pp)) = card (fibre (tgt pds s') pp)"
    by (rule page_inv_ref [OF I'])
  then show ?thesis using r I' A assms(2,3) by (auto simp: as_eq_def as_upd_def)
qed simp

lemma mapped_mappable:
  assumes I: "page_inv pds fl s" and t: "tgt pds s (SPte pd i j) = Some pp"
    and r: "unat (pp_ref (pages s pp)) < 65535"
  shows "mappable pds fl s pp"
proof -
  have "fibre (tgt pds s) pp = {sl}" if "tgt pds s sl = Some pp" "is_table sl" for sl
    using page_inv_acct [OF I] that unfolding acct_def by blast
  moreover have "SPte pd i j \<in> fibre (tgt pds s) pp" using t by (simp add: fibre_mem)
  ultimately have "\<not> is_table sl" if "tgt pds s sl = Some pp" for sl using that by force
  then show ?thesis
    using page_inv_tgt(1) [OF I t] page_inv_free_ok [OF I] r t
    unfolding mappable_def free_ok_def by (auto intro: ranI)
qed

text \<open>
  inserting a page again at the address where it is already mapped needs no memory and only
  changes the permissions: its reference count is the same before and after (and the page is not
  freed on the way, the hard case that the comment of \<open>page_insert\<close> points at).
\<close>

theorem page_insert_again:
  assumes "page_inv pds fl s" and "pd \<in> pds" and "va < UTOP" and "unat perm < 4096"
    and "vpte s pd va = Some e" and "unat (pp_ref (pages s (ppn e))) < 65535"
  shows "\<exists>s' fl'. page_insert pd (ppn e) va perm s = Ret 0 s' \<and> page_inv pds fl' s'
     \<and> pp_ref (pages s' (ppn e)) = pp_ref (pages s (ppn e))
     \<and> vpte s' pd va = Some (page2pa (ppn e) OR perm OR PTE_P)"
proof -
  let ?d = "SPde pd (unat (PDX va))" and ?t = "SPte pd (unat (PDX va)) (unat (PTX va))" and ?p = "ppn e"
  have t: "tgt pds s ?t = Some ?p" using vpte_page [OF assms(2,3), of s] assms(5) by simp
  then obtain pt0 where d: "tgt pds s ?d = Some pt0" by (auto simp: tgt_SPte_Some)
  have M: "mappable pds fl s ?p" by (rule mapped_mappable [OF assms(1) t assms(6)])
  obtain s' fl' pt where r: "page_insert pd ?p va perm s = Ret 0 s'" and I': "page_inv pds fl' s'"
    and T: "tgt pds s' = (tgt pds s)(?d := Some pt, ?t := Some ?p)"
    and A: "as_eq pds (vpte s') (as_upd pd va (Some (page2pa ?p OR perm OR PTE_P)) (vpte s))"
    using page_insert_full [OF assms(1-4) M] page_insert_present [OF assms(1) d, of ?p perm]
    by (auto simp: E_NO_MEM_def)
  have "fibre (tgt pds s') pt = {?d}" using page_inv_acct [OF I'] T by (auto simp: acct_def)
  moreover have t': "tgt pds s' ?t = Some ?p" using T by simp
  ultimately have "pt \<noteq> ?p" using fibre_mem [of ?t "tgt pds s'" ?p] by auto
  moreover have "tgt pds s ?d \<noteq> Some ?p" using M by (auto simp: mappable_def)
  ultimately have "fibre (tgt pds s') ?p = fibre (tgt pds s) ?p"
    using T t by (simp add: fibre_upd fibre_mem insert_absorb)
  then have "pp_ref (pages s' ?p) = pp_ref (pages s ?p)"
    using page_inv_ref [OF assms(1) t] page_inv_ref [OF I' t'] by (simp add: word_unat_eq_iff)
  then show ?thesis using r I' A assms(2,3) by (auto simp: as_eq_def as_upd_def)
qed


text \<open>
  \<open>page_lookup\<close> agrees with the MMU: it returns NULL exactly for an untranslated user address,
  and otherwise the page that the MMU would access and a pointer to the entry it would read.
\<close>

theorem page_lookup_correct:
  assumes "page_inv pds fl s" and "pd \<in> pds" and "va < UTOP"
  shows "case vpte s pd va of
      None \<Rightarrow> page_lookup pd va s = Ret None s
    | Some e \<Rightarrow> (\<exists>pt i. page_lookup pd va s = Ret (Some (ppn e, pt, i)) s \<and> pm s pt i = e \<and> ppn e < npages s)"
  using page_lookup_full [OF assms] by (auto split: option.split)

section \<open>Witnesses\<close>

lemma tgt_ks0: "tgt {2} ks0 sl = (if sl = SPd 2 then Some 2 else None)"
  by (cases sl) (auto simp: tgt.simps present_def)

lemma ran_tgt_ks0: "ran (tgt {2} ks0) = {2}"
  by (auto simp: ran_def tgt_ks0)

lemma page_inv_ks0: "page_inv {2} [4, 5, 6, 7] ks0"
proof (rule page_invI)
  have f: "fibre (tgt {2} ks0) 2 = {SPd 2}" by (auto simp: fibre_def tgt_ks0)
  show "acct (tgt {2} ks0) (\<lambda>p. pp_ref (pages ks0 p)) (npages ks0)"
    using f by (auto simp: acct_def tgt_ks0 split: if_splits)
  have "p < 8 \<Longrightarrow> p \<notin> {4, 5, 6, 7} \<Longrightarrow> p < 4" for p :: nat by simp
  then show "free_ok (tgt {2} ks0) ks0 [4, 5, 6, 7]"
    by (auto simp: free_ok_def ran_tgt_ks0)
qed (simp_all add: ptes_ok_def tgt_ks0)

lemma mappable_ks0: "mappable {2} [4, 5, 6, 7] ks0 3"
  by (auto simp: mappable_def tgt_ks0)

theorem page_alloc_correct_witness: "\<exists>s'. page_alloc 1 ks0 = Ret (Some 4) s' \<and> (\<forall>i. pm s' 4 i = 0)"
  using page_alloc_correct [OF page_inv_ks0, of 1] by (auto simp: ALLOC_ZERO_def)

theorem page_insert_correct_witness:
  "\<exists>s'. page_insert 2 3 0x800000 7 ks0 = Ret 0 s' \<and> vpte s' 2 0x800000 = Some (page2pa 3 OR 7 OR PTE_P)"
  using page_insert_correct [OF page_inv_ks0 _ _ _ mappable_ks0, of 2 "0x800000" 7]
  by (auto simp: const_simps)


theorem page_lookup_correct_witness: "page_lookup 2 0x800000 ks0 = Ret None ks0"
  using page_lookup_correct [OF page_inv_ks0, of 2 "0x800000"]
  by (simp add: const_simps vpte_def present_def)

lemma ks0_mapped:
  "\<exists>s fl e. page_insert 2 3 0x800000 7 ks0 = Ret 0 s \<and> page_inv {2} fl s \<and> vpte s 2 0x800000 = Some e
     \<and> ppn e = 3 \<and> unat (pp_ref (pages s 3)) = 1"
proof -
  have va: "0x800000 < UTOP" by (simp add: const_simps)
  let ?d = "SPde 2 (unat (PDX 0x800000))" and ?t = "SPte 2 (unat (PDX 0x800000)) (unat (PTX 0x800000))"
  obtain s fl pt where r: "page_insert 2 3 0x800000 7 ks0 = Ret 0 s" and I: "page_inv {2} fl s"
    and T: "tgt {2} s = (tgt {2} ks0)(?d := Some pt, ?t := Some 3)"
    using page_insert_full [OF page_inv_ks0 _ va _ mappable_ks0, of 2 7] by auto
  have t: "tgt {2} s ?t = Some 3" using T by simp
  have "fibre (tgt {2} s) pt = {?d}" using page_inv_acct [OF I] T by (auto simp: acct_def)
  then have "pt \<noteq> 3" using t fibre_mem [of ?t "tgt {2} s" 3] by auto
  then have "fibre (tgt {2} s) 3 = {?t}" using T by (auto simp: fibre_def tgt_ks0 split: if_splits)
  then have "unat (pp_ref (pages s 3)) = 1" using page_inv_ref [OF I t] by simp
  then show ?thesis using r I t vpte_page [OF _ va, of 2 "{2}" s] by (auto split: option.splits)
qed

theorem page_insert_again_witness:
  "\<exists>s s'. page_insert 2 3 0x800000 7 ks0 = Ret 0 s \<and> page_insert 2 3 0x800000 5 s = Ret 0 s'
     \<and> pp_ref (pages s' 3) = pp_ref (pages s 3)"
proof -
  obtain s fl e where s: "page_insert 2 3 0x800000 7 ks0 = Ret 0 s" "page_inv {2} fl s"
    "vpte s 2 0x800000 = Some e" "ppn e = 3" "unat (pp_ref (pages s 3)) = 1" using ks0_mapped by blast
  then show ?thesis
    using page_insert_again [OF s(2) _ _ _ s(3), of 5] by (auto simp: const_simps)
qed

end
