(* ===== verification/UserMem.thy ===== *)
theory UserMem
  imports PmapThms
begin

text \<open>
  Byte accesses that the kernel makes through an environment's page tables, as the MMU performs
  them. The kernel runs with \<open>CR0_WP\<close> set (mem\_init), so a write needs \<open>PTE_W\<close> in the directory
  and in the table entry even in kernel mode; an access that the MMU refuses is a page fault in
  kernel mode, which panics. Words are stored little endian.
\<close>

text \<open>The physical place of a byte: page, word index and position in the word.\<close>

definition vplace :: "kstate \<Rightarrow> nat \<Rightarrow> u32 \<Rightarrow> u32 \<Rightarrow> (nat \<times> nat \<times> nat) option" where
  "vplace s pd perm va =
     (let pde = pm s pd (unat (PDX va)); pte = pm s (ppn pde) (unat (PTX va)); off = unat (PGOFF va)
      in if (pde AND perm) = perm \<and> (pte AND perm) = perm
         then Some (ppn pte, off div 4, off mod 4) else None)"

definition vload8 :: "kstate \<Rightarrow> nat \<Rightarrow> u32 \<Rightarrow> u8 option" where
  "vload8 s pd va = map_option (\<lambda>(p, i, k). get_byte k (pm s p i)) (vplace s pd PTE_P va)"

definition vstore8 :: "nat \<Rightarrow> u32 \<Rightarrow> u8 \<Rightarrow> kstate \<Rightarrow> unit kres" where
  "vstore8 pd va b s =
     (case vplace s pd (PTE_P OR PTE_W) va of
        None \<Rightarrow> Panic ''page_fault_handler():page fault in kernel mode!'' s
      | Some (p, i, k) \<Rightarrow> Ret () (set_pm p i (set_byte k b (pm s p i)) s))"

text \<open>Stores of \<open>n\<close> bytes in ascending order, the bytes given by their index.\<close>

primrec vstore_loop :: "nat \<Rightarrow> u32 \<Rightarrow> (nat \<Rightarrow> u8) \<Rightarrow> nat \<Rightarrow> kstate \<Rightarrow> unit kres" where
  "vstore_loop pd va f 0 s = Ret () s"
| "vstore_loop pd va f (Suc n) s =
     kbind (vstore_loop pd va f n s) (\<lambda>_ s. vstore8 pd (va + word_of_nat n) (f n) s)"

definition vstore32 :: "nat \<Rightarrow> u32 \<Rightarrow> u32 \<Rightarrow> kstate \<Rightarrow> unit kres" where
  "vstore32 pd va w s = vstore_loop pd va (\<lambda>k. get_byte k w) 4 s"

end
