(* ===== verification/Spinlock.thy ===== *)
theory Spinlock
  imports KState
begin

text \<open>
  The big kernel lock (lab/kern/spinlock.c, lab/kern/spinlock.h, with \<open>DEBUG_SPINLOCK\<close>).

  \<open>spin_lock\<close> and \<open>spin_unlock\<close> are given twice: as the sequential operations the rest of the
  kernel model calls, and as the sequence of memory accesses each CPU performs, interleaved with
  those of the other CPUs by an inductive step relation. The theorems are about the second; its
  uninterrupted runs are the first. The call stack in \<open>pcs\<close> is only ever printed, so it is not
  part of the lock's state; \<open>get_caller_pcs\<close> is the walk that fills it.
\<close>

section \<open>Operations\<close>

definition holding :: "spinlock \<Rightarrow> nat \<Rightarrow> bool" where
  "holding lk c \<longleftrightarrow> nz (locked lk) \<and> lk_cpu lk = Some c"

definition spin_initlock :: "spinlock \<Rightarrow> spinlock" where
  "spin_initlock lk = lk\<lparr>locked := 0, lk_cpu := None\<rparr>"

text \<open>The acquisition of a lock that another CPU holds does not return (\<open>Exit Spin\<close>).\<close>

definition lock_kernel :: "kstate \<Rightarrow> unit kres" where
  "lock_kernel s =
     (if holding (kernel_lock s) (cpunum s) then Panic ''cannot acquire: already holding'' s
      else if locked (kernel_lock s) \<noteq> 0 then Exit Spin (s\<lparr>kernel_lock := (kernel_lock s)\<lparr>locked := 1\<rparr>\<rparr>)
      else Ret () (s\<lparr>kernel_lock := (kernel_lock s)\<lparr>locked := 1, lk_cpu := Some (cpunum s)\<rparr>\<rparr>))"

definition unlock_kernel :: "kstate \<Rightarrow> unit kres" where
  "unlock_kernel s =
     (if \<not> holding (kernel_lock s) (cpunum s) then Panic ''spin_unlock'' s
      else Ret () (s\<lparr>kernel_lock := (kernel_lock s)\<lparr>lk_cpu := None, locked := 0\<rparr>\<rparr>))"

text \<open>
  \<open>get_caller_pcs\<close> follows the chain of saved frame pointers on the kernel stack \<open>mem\<close>, at most
  ten frames, and pads with zeros.
\<close>

primrec caller_pcs :: "nat \<Rightarrow> (u32 \<Rightarrow> u32) \<Rightarrow> u32 \<Rightarrow> u32 list" where
  "caller_pcs 0 mem ebp = []"
| "caller_pcs (Suc n) mem ebp =
     (if ebp = 0 \<or> ebp < ULIM then [] else mem (ebp + 4) # caller_pcs n mem (mem ebp))"

definition get_caller_pcs :: "(u32 \<Rightarrow> u32) \<Rightarrow> u32 \<Rightarrow> u32 list" where
  "get_caller_pcs mem ebp =
     (let pcs = caller_pcs 10 mem ebp in pcs @ replicate (10 - length pcs) 0)"

lemma caller_pcs_len: "length (caller_pcs n mem ebp) \<le> n"
  by (induction n arbitrary: ebp) auto

lemma get_caller_pcs_len: "length (get_caller_pcs mem ebp) = 10"
  using caller_pcs_len [of 10 mem ebp] by (simp add: get_caller_pcs_def Let_def)

section \<open>The interleaving of the CPUs\<close>

text \<open>
  Where a CPU is: outside, between the two reads of \<open>holding\<close> on entry, spinning on \<open>xchg\<close>, holding
  the word but not yet recorded as the holder, inside, in the two reads of \<open>holding\<close> on release,
  having cleared \<open>lk->cpu\<close>, or panicked.
\<close>

datatype lpc = Outside | LHold1 | LHold2 | LXchg | LSet | Inside | UHold1 | UHold2 | UClear | UXchg | Panicked

record lmachine =
  mlock :: spinlock
  mpc :: "nat \<Rightarrow> lpc"

abbreviation at :: "lmachine \<Rightarrow> nat \<Rightarrow> lpc \<Rightarrow> lmachine" where
  "at m c p \<equiv> m\<lparr>mpc := (mpc m)(c := p)\<rparr>"

inductive lstep :: "nat \<Rightarrow> lmachine \<Rightarrow> lmachine \<Rightarrow> bool" where
  enter: "mpc m c = Outside \<Longrightarrow> lstep c m (at m c LHold1)"
| hold1: "mpc m c = LHold1 \<Longrightarrow> lstep c m (at m c (if nz (locked (mlock m)) then LHold2 else LXchg))"
| hold2: "mpc m c = LHold2 \<Longrightarrow> lstep c m (at m c (if lk_cpu (mlock m) = Some c then Panicked else LXchg))"
| xchg: "mpc m c = LXchg \<Longrightarrow>
    lstep c m (at (m\<lparr>mlock := (mlock m)\<lparr>locked := 1\<rparr>\<rparr>) c (if nz (locked (mlock m)) then LXchg else LSet))"
| set: "mpc m c = LSet \<Longrightarrow> lstep c m (at (m\<lparr>mlock := (mlock m)\<lparr>lk_cpu := Some c\<rparr>\<rparr>) c Inside)"
| leave: "mpc m c = Inside \<Longrightarrow> lstep c m (at m c UHold1)"
| uhold1: "mpc m c = UHold1 \<Longrightarrow> lstep c m (at m c (if nz (locked (mlock m)) then UHold2 else Panicked))"
| uhold2: "mpc m c = UHold2 \<Longrightarrow> lstep c m (at m c (if lk_cpu (mlock m) = Some c then UClear else Panicked))"
| uclear: "mpc m c = UClear \<Longrightarrow> lstep c m (at (m\<lparr>mlock := (mlock m)\<lparr>lk_cpu := None\<rparr>\<rparr>) c UXchg)"
| uxchg: "mpc m c = UXchg \<Longrightarrow> lstep c m (at (m\<lparr>mlock := (mlock m)\<lparr>locked := 0\<rparr>\<rparr>) c Outside)"

inductive_cases lstepE: "lstep c m m'"

definition linit :: "lmachine \<Rightarrow> bool" where
  "linit m \<longleftrightarrow> locked (mlock m) = 0 \<and> lk_cpu (mlock m) = None \<and> (\<forall>c. mpc m c = Outside)"

inductive lreach :: "lmachine \<Rightarrow> bool" where
  start: "linit m \<Longrightarrow> lreach m"
| more: "lreach m \<Longrightarrow> lstep c m m' \<Longrightarrow> lreach m'"

text \<open>A CPU owns the word from its successful \<open>xchg\<close> to the one that releases it.\<close>

definition owner :: "lpc \<Rightarrow> bool" where
  "owner p \<longleftrightarrow> p \<in> {LSet, Inside, UHold1, UHold2, UClear, UXchg}"

definition recorded :: "lpc \<Rightarrow> bool" where
  "recorded p \<longleftrightarrow> p \<in> {Inside, UHold1, UHold2, UClear}"

definition linv :: "lmachine \<Rightarrow> bool" where
  "linv m \<longleftrightarrow>
     (\<forall>c d. owner (mpc m c) \<and> owner (mpc m d) \<longrightarrow> c = d)
   \<and> (nz (locked (mlock m)) \<longleftrightarrow> (\<exists>c. owner (mpc m c)))
   \<and> (\<forall>c. lk_cpu (mlock m) = Some c \<longleftrightarrow> recorded (mpc m c))
   \<and> (\<forall>c. mpc m c \<noteq> Panicked)"

lemma recorded_owner: "recorded p \<Longrightarrow> owner p"
  by (auto simp: recorded_def owner_def)

lemma linv_linit: "linit m \<Longrightarrow> linv m"
  by (simp add: linit_def linv_def owner_def recorded_def)

lemmas pc_simps = owner_def recorded_def

lemma linv_owner: "linv m \<Longrightarrow> owner (mpc m c) \<Longrightarrow> owner (mpc m d) \<Longrightarrow> c = d"
  by (auto simp: linv_def)

lemma linv_locked: "linv m \<Longrightarrow> nz (locked (mlock m)) \<longleftrightarrow> (\<exists>c. owner (mpc m c))"
  by (auto simp: linv_def)

lemma linv_cpu: "linv m \<Longrightarrow> lk_cpu (mlock m) = Some c \<longleftrightarrow> recorded (mpc m c)"
  by (auto simp: linv_def)

text \<open>A step that changes only where one CPU is, within the same ownership.\<close>

lemma linv_move:
  assumes "linv m" "owner p = owner (mpc m c)" "recorded p = recorded (mpc m c)" "p \<noteq> Panicked"
  shows "linv (at m c p)"
  using assms unfolding linv_def by (auto simp: fun_upd_def)

lemma linv_step:
  assumes I: "linv m" and "lstep c m m'"
  shows "linv m'"
  using assms(2)
proof (cases rule: lstep.cases)
  case hold2
  then have "\<not> recorded (mpc m c)" by (simp add: pc_simps)
  then show ?thesis using hold2 linv_cpu [OF I] by (auto intro!: linv_move [OF I] simp: pc_simps)
next
  case uhold1
  then have "nz (locked (mlock m))" using linv_locked [OF I] by (auto simp: pc_simps)
  then show ?thesis using uhold1 by (auto intro!: linv_move [OF I] simp: pc_simps)
next
  case uhold2
  then have "lk_cpu (mlock m) = Some c" using linv_cpu [OF I] by (simp add: pc_simps)
  then show ?thesis using uhold2 by (auto intro!: linv_move [OF I] simp: pc_simps)
next
  case xchg
  show ?thesis
  proof (cases "nz (locked (mlock m))")
    case True
    then show ?thesis using I xchg by (simp add: linv_def fun_upd_idem)
  next
    case False
    then have "\<not> owner (mpc m d)" for d using linv_locked [OF I] by auto
    then show ?thesis using I xchg False by (auto simp: linv_def pc_simps)
  qed
next
  case set
  then have "d = c" if "owner (mpc m d)" for d using linv_owner [OF I that, of c] by (simp add: pc_simps)
  moreover have "owner (mpc m c)" using set by (simp add: pc_simps)
  ultimately show ?thesis
    using I set unfolding linv_def by (auto simp: fun_upd_def pc_simps)
next
  case uclear
  then have "d = c" if "owner (mpc m d)" for d using linv_owner [OF I that, of c] by (simp add: pc_simps)
  then show ?thesis using I uclear unfolding linv_def by (auto simp: fun_upd_def pc_simps)
next
  case uxchg
  then have "d = c" if "owner (mpc m d)" for d using linv_owner [OF I that, of c] by (simp add: pc_simps)
  then show ?thesis using I uxchg unfolding linv_def by (auto simp: fun_upd_def pc_simps)
qed (use I in \<open>auto intro!: linv_move simp: pc_simps\<close>)

lemma linv_lreach: "lreach m \<Longrightarrow> linv m"
  by (induction rule: lreach.induct) (auto intro: linv_linit linv_step)


section \<open>Properties\<close>


text \<open>
  when no other CPU interferes, the interleaved accesses of one CPU are the sequential
  \<open>lock_kernel\<close> and \<open>unlock_kernel\<close> of the kernel model: from a free lock a CPU gets inside with
  exactly the lock that \<open>lock_kernel\<close> leaves, and from inside it gets outside with exactly the lock
  that \<open>unlock_kernel\<close> leaves.
\<close>

theorem spinlock_sequential:
  assumes "kernel_lock s = mlock m"
  shows "(mpc m (cpunum s) = Outside \<and> lock_kernel s = Ret () t \<longrightarrow>
            (\<exists>m'. (lstep (cpunum s))\<^sup>*\<^sup>* m m' \<and> mpc m' = (mpc m)(cpunum s := Inside) \<and> mlock m' = kernel_lock t))
       \<and> (mpc m (cpunum s) = Inside \<and> unlock_kernel s = Ret () t \<longrightarrow>
            (\<exists>m'. (lstep (cpunum s))\<^sup>*\<^sup>* m m' \<and> mpc m' = (mpc m)(cpunum s := Outside) \<and> mlock m' = kernel_lock t))"
proof (intro conjI impI)
  let ?c = "cpunum s"
  assume a: "mpc m ?c = Outside \<and> lock_kernel s = Ret () t"
  then have l: "locked (mlock m) = 0" and t: "kernel_lock t = (mlock m)\<lparr>locked := 1, lk_cpu := Some ?c\<rparr>"
    using assms by (auto simp: lock_kernel_def split: if_splits)
  have "lstep ?c m (at m ?c LHold1)" using a by (auto intro: lstep.enter)
  moreover have "lstep ?c (at m ?c LHold1) (at m ?c LXchg)" using lstep.hold1 [of "at m ?c LHold1" ?c] l by simp
  moreover have "lstep ?c (at m ?c LXchg) (at (m\<lparr>mlock := (mlock m)\<lparr>locked := 1\<rparr>\<rparr>) ?c LSet)"
    using lstep.xchg [of "at m ?c LXchg" ?c] l by simp
  moreover have "lstep ?c (at (m\<lparr>mlock := (mlock m)\<lparr>locked := 1\<rparr>\<rparr>) ?c LSet)
      (at (m\<lparr>mlock := kernel_lock t\<rparr>) ?c Inside)"
    using lstep.set [of "at (m\<lparr>mlock := (mlock m)\<lparr>locked := 1\<rparr>\<rparr>) ?c LSet" ?c] t by simp
  ultimately have "(lstep ?c)\<^sup>*\<^sup>* m (at (m\<lparr>mlock := kernel_lock t\<rparr>) ?c Inside)"
    by (meson converse_rtranclp_into_rtranclp rtranclp.rtrancl_refl)
  then show "\<exists>m'. (lstep ?c)\<^sup>*\<^sup>* m m' \<and> mpc m' = (mpc m)(?c := Inside) \<and> mlock m' = kernel_lock t"
    by (intro exI [of _ "at (m\<lparr>mlock := kernel_lock t\<rparr>) ?c Inside"]) simp
next
  let ?c = "cpunum s"
  assume a: "mpc m ?c = Inside \<and> unlock_kernel s = Ret () t"
  then have h: "nz (locked (mlock m))" "lk_cpu (mlock m) = Some ?c"
    and t: "kernel_lock t = (mlock m)\<lparr>lk_cpu := None, locked := 0\<rparr>"
    using assms by (auto simp: unlock_kernel_def holding_def split: if_splits)
  have "lstep ?c m (at m ?c UHold1)" using a by (auto intro: lstep.leave)
  moreover have "lstep ?c (at m ?c UHold1) (at m ?c UHold2)" using lstep.uhold1 [of "at m ?c UHold1" ?c] h by simp
  moreover have "lstep ?c (at m ?c UHold2) (at m ?c UClear)" using lstep.uhold2 [of "at m ?c UHold2" ?c] h by simp
  moreover have "lstep ?c (at m ?c UClear) (at (m\<lparr>mlock := (mlock m)\<lparr>lk_cpu := None\<rparr>\<rparr>) ?c UXchg)"
    using lstep.uclear [of "at m ?c UClear" ?c] by simp
  moreover have "lstep ?c (at (m\<lparr>mlock := (mlock m)\<lparr>lk_cpu := None\<rparr>\<rparr>) ?c UXchg)
      (at (m\<lparr>mlock := kernel_lock t\<rparr>) ?c Outside)"
    using lstep.uxchg [of "at (m\<lparr>mlock := (mlock m)\<lparr>lk_cpu := None\<rparr>\<rparr>) ?c UXchg" ?c] t by simp
  ultimately have "(lstep ?c)\<^sup>*\<^sup>* m (at (m\<lparr>mlock := kernel_lock t\<rparr>) ?c Outside)"
    by (meson converse_rtranclp_into_rtranclp rtranclp.rtrancl_refl)
  then show "\<exists>m'. (lstep ?c)\<^sup>*\<^sup>* m m' \<and> mpc m' = (mpc m)(?c := Outside) \<and> mlock m' = kernel_lock t"
    by (intro exI [of _ "at (m\<lparr>mlock := kernel_lock t\<rparr>) ?c Outside"]) simp
qed

definition lmach0 :: lmachine where
  "lmach0 = \<lparr>mlock = \<lparr>locked = 0, lk_cpu = None\<rparr>, mpc = \<lambda>_. Outside\<rparr>"

definition lmach1 :: lmachine where
  "lmach1 = \<lparr>mlock = \<lparr>locked = 1, lk_cpu = None\<rparr>, mpc = (\<lambda>_. Outside)(0 := LSet, 1 := LXchg)\<rparr>"

lemma lmach1_reach: "lreach lmach1"
proof -
  have 0: "lreach lmach0" by (rule lreach.start) (simp add: linit_def lmach0_def)
  have 1: "lreach (at lmach0 0 LHold1)"
    using 0 by (rule lreach.more) (rule lstep.enter, simp add: lmach0_def)
  have 2: "lreach (at lmach0 0 LXchg)"
    using lreach.more [OF 1 lstep.hold1 [of _ 0]] by (simp add: lmach0_def)
  have 3: "lreach (at (at lmach0 0 LXchg) 1 LHold1)"
    using 2 by (rule lreach.more) (rule lstep.enter, simp add: lmach0_def)
  have 4: "lreach (at (at lmach0 0 LXchg) 1 LXchg)"
    using lreach.more [OF 3 lstep.hold1 [of _ 1]] by (simp add: lmach0_def)
  have "lstep 0 (at (at lmach0 0 LXchg) 1 LXchg) lmach1"
    using lstep.xchg [of "at (at lmach0 0 LXchg) 1 LXchg" 0]
    by (simp add: lmach0_def lmach1_def fun_upd_twist)
  with 4 show ?thesis by (rule lreach.more)
qed


theorem spinlock_sequential_witness:
  "\<exists>m'. (lstep 0)\<^sup>*\<^sup>* lmach0 m' \<and> mpc m' 0 = Inside \<and> locked (mlock m') = 1"
  using spinlock_sequential [of "ks0\<lparr>kernel_lock := mlock lmach0\<rparr>" lmach0
      "ks0\<lparr>kernel_lock := \<lparr>locked = 1, lk_cpu = Some 0\<rparr>\<rparr>"]
  by (auto simp: lock_kernel_def holding_def lmach0_def ks0_def)

end
