(* ===== verification/Env.thy ===== *)
theory Env
  imports UserMem Spinlock
begin

text \<open>
  Environments (lab/kern/env.c): ids, the free list of environments, address space set-up, loading
  a program, freeing, and the context switch. \<open>env_destroy\<close>, which calls the scheduler, is in the
  theory of the scheduler.
\<close>

section \<open>Identifiers\<close>

definition ENVX :: "u32 \<Rightarrow> nat" where
  "ENVX envid = unat (envid AND 1023)"

definition ENVGENSHIFT :: nat where [const_simps]: "ENVGENSHIFT = 12"

text \<open>\<open>envid2env\<close>: the return code and the environment stored through \<open>env_store\<close>.\<close>

definition envid2env :: "u32 \<Rightarrow> bool \<Rightarrow> kstate \<Rightarrow> (int \<times> nat option) kres" where
  "envid2env envid checkperm s =
     (if envid = 0 then Ret (0, curenv s) s
      else let e = ENVX envid
           in if env_status (envs s e) = ENV_FREE \<or> env_id (envs s e) \<noteq> envid
              then Ret (- E_BAD_ENV, None) s
              else if checkperm \<and> Some e \<noteq> curenv s
              then with_curenv s (\<lambda>c.
                     if env_parent_id (envs s e) \<noteq> env_id (envs s c)
                     then Ret (- E_BAD_ENV, None) s
                     else Ret (0, Some e) s)
              else Ret (0, Some e) s)"

section \<open>Initialisation\<close>

definition env_init_step :: "nat \<Rightarrow> kstate \<Rightarrow> kstate" where
  "env_init_step i s =
     (upd_env i (\<lambda>e. e\<lparr>env_id := 0, env_status := ENV_FREE, env_link := env_free_list s\<rparr>) s)
       \<lparr>env_free_list := Some i\<rparr>"

primrec env_init_loop :: "nat \<Rightarrow> kstate \<Rightarrow> kstate" where
  "env_init_loop 0 s = s"
| "env_init_loop (Suc i) s = env_init_loop i (env_init_step i s)"

definition env_init_percpu :: "kstate \<Rightarrow> kstate" where
  "env_init_percpu s =
     (let s = hw Lgdt s;
          s = hw (MovSeg ''gs'' (GD_UD OR 3)) s;
          s = hw (MovSeg ''fs'' (GD_UD OR 3)) s;
          s = hw (MovSeg ''es'' GD_KD) s;
          s = hw (MovSeg ''ds'' GD_KD) s;
          s = hw (MovSeg ''ss'' GD_KD) s;
          s = hw (Ljmp GD_KT) s
      in hw (Lldt 0) s)"

definition env_init :: "kstate \<Rightarrow> kstate" where
  "env_init s = env_init_percpu (env_init_loop NENV s)"

section \<open>Allocation\<close>

definition env_setup_vm :: "nat \<Rightarrow> kstate \<Rightarrow> int kres" where
  "env_setup_vm e s =
     kbind (page_alloc ALLOC_ZERO s) (\<lambda>p s.
       case p of
         None \<Rightarrow> Ret (- E_NO_MEM) s
       | Some p \<Rightarrow>
           let s = upd_page p (\<lambda>x. x\<lparr>pp_ref := pp_ref x + 1\<rparr>) s
           in kbind (page2kva p s) (\<lambda>pd s.
                let s = upd_env e (env_pgdir_update (\<lambda>_. Some pd)) s;
                    s = memcpy_page pd (kern_pgdir s) s;
                    s = set_pm pd (unat (PDX UVPT)) (page2pa pd OR PTE_P OR PTE_U) s
                in Ret 0 s))"

definition next_env_id :: "u32 \<Rightarrow> nat \<Rightarrow> u32" where
  "next_env_id old e =
     (let generation = (old + push_bit ENVGENSHIFT 1) AND NOT 1023;
          generation = (if generation \<le>s 0 then push_bit ENVGENSHIFT 1 else generation)
      in generation OR word_of_nat e)"

text \<open>\<open>env_alloc\<close>: \<open>Inl\<close> the (negative) return code, or \<open>Inr\<close> the environment of a return of 0.\<close>

definition env_alloc :: "u32 \<Rightarrow> kstate \<Rightarrow> (int + nat) kres" where
  "env_alloc parent_id s =
     (case env_free_list s of
        None \<Rightarrow> Ret (Inl (- E_NO_FREE_ENV)) s
      | Some e \<Rightarrow>
          kbind (env_setup_vm e s) (\<lambda>r s.
            if r < 0 then Ret (Inl r) s
            else let s = upd_env e (\<lambda>v. v\<lparr>env_id := next_env_id (env_id v) e\<rparr>) s;
                     s = upd_env e (\<lambda>v. v\<lparr>env_parent_id := parent_id, env_type := ENV_TYPE_USER,
                           env_status := ENV_RUNNABLE, env_runs := 0\<rparr>) s;
                     s = upd_env e (\<lambda>v. v\<lparr>env_tf := tf0\<lparr>tf_ds := GD_UD OR 3, tf_es := GD_UD OR 3,
                           tf_ss := GD_UD OR 3, tf_esp := USTACKTOP, tf_cs := GD_UT OR 3\<rparr>\<rparr>) s;
                     s = upd_env e (\<lambda>v. v\<lparr>env_tf := (env_tf v)\<lparr>tf_eflags := tf_eflags (env_tf v) OR FL_IF\<rparr>\<rparr>) s;
                     s = upd_env e (\<lambda>v. v\<lparr>env_pgfault_upcall := 0, env_ipc_recving := False\<rparr>) s;
                     s = s\<lparr>env_free_list := env_link (envs s e)\<rparr>
                 in Ret (Inr e) s))"

section \<open>Loading a program\<close>

text \<open>
  The loop of \<open>region_alloc\<close>; as in \<open>user_mem_check_loop\<close> the second conjunct of the guard never
  matters, since both bounds are multiples of PGSIZE. The result of \<open>page_insert\<close> is ignored.
\<close>

function region_alloc_loop :: "nat \<Rightarrow> u32 \<Rightarrow> u32 \<Rightarrow> kstate \<Rightarrow> unit kres" where
  "region_alloc_loop e cva eva s =
     (if cva < eva \<and> cva < cva + PGSIZE
      then kbind (page_alloc 0 s) (\<lambda>pp s.
             case pp of
               None \<Rightarrow> Panic ''region_alloc: page_alloc failed'' s
             | Some pp \<Rightarrow>
                 with_pgdir e s (\<lambda>pd.
                   kbind (page_insert pd pp cva (PTE_U OR PTE_W) s) (\<lambda>_ s.
                     region_alloc_loop e (cva + PGSIZE) eva s)))
      else Ret () s)"
  by pat_completeness auto
termination
  by (relation "measure (\<lambda>(e, cva, eva, s). unat eva - unat cva)") (auto simp: word_less_nat_alt)

declare region_alloc_loop.simps [simp del]

definition region_alloc :: "nat \<Rightarrow> u32 \<Rightarrow> u32 \<Rightarrow> kstate \<Rightarrow> unit kres" where
  "region_alloc e va len s = region_alloc_loop e (ROUNDDOWN va PGSIZE) (ROUNDUP (va + len) PGSIZE) s"

text \<open>
  A program image is the bytes from \<open>binary\<close> on; fields of the ELF header and of the program
  headers are read at their offsets (inc/elf.h).
\<close>

definition rd16 :: "(u32 \<Rightarrow> u8) \<Rightarrow> u32 \<Rightarrow> u16" where
  "rd16 b off = ucast (b off) OR push_bit 8 (ucast (b (off + 1)))"

definition rd32 :: "(u32 \<Rightarrow> u8) \<Rightarrow> u32 \<Rightarrow> u32" where
  "rd32 b off = ucast (b off) OR push_bit 8 (ucast (b (off + 1)))
     OR push_bit 16 (ucast (b (off + 2))) OR push_bit 24 (ucast (b (off + 3)))"

record Proghdr =
  p_type :: u32
  p_offset :: u32
  p_va :: u32
  p_filesz :: u32
  p_memsz :: u32

definition proghdr :: "(u32 \<Rightarrow> u8) \<Rightarrow> u32 \<Rightarrow> Proghdr" where
  "proghdr b off = \<lparr>p_type = rd32 b off, p_offset = rd32 b (off + 4), p_va = rd32 b (off + 8),
     p_filesz = rd32 b (off + 16), p_memsz = rd32 b (off + 20)\<rparr>"

definition ELF_MAGIC :: u32 where [const_simps]: "ELF_MAGIC = 0x464C457F"
definition ELF_PROG_LOAD :: u32 where [const_simps]: "ELF_PROG_LOAD = 1"

definition load_segment :: "nat \<Rightarrow> nat \<Rightarrow> (u32 \<Rightarrow> u8) \<Rightarrow> Proghdr \<Rightarrow> kstate \<Rightarrow> unit kres" where
  "load_segment e pd binary ph s =
     (if p_type ph = ELF_PROG_LOAD
      then kbind (region_alloc e (p_va ph) (p_memsz ph) s) (\<lambda>_ s.
           kbind (vstore_loop pd (p_va ph) (\<lambda>i. binary (p_offset ph + word_of_nat i)) (unat (p_filesz ph)) s) (\<lambda>_ s.
             if p_memsz ph > p_filesz ph
             then vstore_loop pd (p_va ph + p_filesz ph) (\<lambda>_. 0) (unat (p_memsz ph - p_filesz ph)) s
             else Ret () s))
      else Ret () s)"

primrec load_segments :: "nat \<Rightarrow> nat \<Rightarrow> (u32 \<Rightarrow> u8) \<Rightarrow> u32 \<Rightarrow> nat \<Rightarrow> kstate \<Rightarrow> unit kres" where
  "load_segments e pd binary phoff 0 s = Ret () s"
| "load_segments e pd binary phoff (Suc i) s =
     kbind (load_segments e pd binary phoff i s) (\<lambda>_ s.
       load_segment e pd binary (proghdr binary (phoff + word_of_nat (i * 32))) s)"

definition pgdir_pa :: "nat \<Rightarrow> kstate \<Rightarrow> u32 kres" where
  "pgdir_pa e s = (case env_pgdir (envs s e) of
      None \<Rightarrow> Panic ''PADDR called with invalid kva'' s
    | Some pd \<Rightarrow> Ret (page2pa pd) s)"

definition load_icode :: "nat \<Rightarrow> (u32 \<Rightarrow> u8) \<Rightarrow> kstate \<Rightarrow> unit kres" where
  "load_icode e binary s =
     (if rd32 binary 0 \<noteq> ELF_MAGIC then Panic ''load_icode: invalid ELF magic'' s
      else kbind (pgdir_pa e s) (\<lambda>cr3 s.
             let s = hw (Lcr3 cr3) s
             in with_pgdir e s (\<lambda>pd.
                  kbind (load_segments e pd binary (rd32 binary 28) (unat (rd16 binary 44)) s) (\<lambda>_ s.
                    let s = hw (Lcr3 (page2pa (kern_pgdir s))) s;
                        s = upd_env e (\<lambda>v. v\<lparr>env_tf := (env_tf v)\<lparr>tf_eip := rd32 binary 24\<rparr>\<rparr>) s
                    in region_alloc e (USTACKTOP - PGSIZE) PGSIZE s))))"

definition env_create :: "(u32 \<Rightarrow> u8) \<Rightarrow> EnvType \<Rightarrow> kstate \<Rightarrow> unit kres" where
  "env_create binary type s =
     kbind (env_alloc 0 s) (\<lambda>r s.
       case r of
         Inl err \<Rightarrow> Panic ''env_create: env_alloc failed'' s
       | Inr e \<Rightarrow>
           let s = upd_env e (\<lambda>v. v\<lparr>env_type := type\<rparr>) s;
               s = upd_env e (\<lambda>v. v\<lparr>env_parent_id := 0\<rparr>) s
           in load_icode e binary s)"

section \<open>Freeing\<close>

text \<open>The inner loop over the entries of one page table, and the outer one over the directory.\<close>

primrec env_free_ptes :: "nat \<Rightarrow> nat \<Rightarrow> nat \<Rightarrow> nat \<Rightarrow> kstate \<Rightarrow> unit kres" where
  "env_free_ptes pd pdeno pt 0 s = Ret () s"
| "env_free_ptes pd pdeno pt (Suc pteno) s =
     kbind (env_free_ptes pd pdeno pt pteno s) (\<lambda>_ s.
       if nz (pm s pt pteno AND PTE_P)
       then page_remove pd (PGADDR (word_of_nat pdeno) (word_of_nat pteno) 0) s
       else Ret () s)"

definition env_free_pde :: "nat \<Rightarrow> nat \<Rightarrow> kstate \<Rightarrow> unit kres" where
  "env_free_pde pd pdeno s =
     (if \<not> nz (pm s pd pdeno AND PTE_P) then Ret () s
      else let pa = PTE_ADDR (pm s pd pdeno)
           in kbind (KADDR pa s) (\<lambda>pt s.
              kbind (env_free_ptes pd pdeno pt NPTENTRIES s) (\<lambda>_ s.
                let s = set_pm pd pdeno 0 s
                in kbind (pa2page pa s) (\<lambda>pp s. page_decref pp s))))"

primrec env_free_pdes :: "nat \<Rightarrow> nat \<Rightarrow> kstate \<Rightarrow> unit kres" where
  "env_free_pdes pd 0 s = Ret () s"
| "env_free_pdes pd (Suc pdeno) s =
     kbind (env_free_pdes pd pdeno s) (\<lambda>_ s. env_free_pde pd pdeno s)"

definition env_free :: "nat \<Rightarrow> kstate \<Rightarrow> unit kres" where
  "env_free e s =
     (let s = (if curenv s = Some e then hw (Lcr3 (page2pa (kern_pgdir s))) s else s)
      in with_pgdir e s (\<lambda>pd.
           kbind (env_free_pdes pd (unat (PDX UTOP)) s) (\<lambda>_ s.
           kbind (pgdir_pa e s) (\<lambda>pa s.
             let s = upd_env e (env_pgdir_update (\<lambda>_. None)) s
             in kbind (pa2page pa s) (\<lambda>pp s.
                kbind (page_decref pp s) (\<lambda>_ s.
                  let s = upd_env e (\<lambda>v. v\<lparr>env_status := ENV_FREE, env_link := env_free_list s\<rparr>) s
                  in Ret () (s\<lparr>env_free_list := Some e\<rparr>)))))))"

section \<open>The context switch\<close>

definition env_pop_tf :: "nat \<Rightarrow> kstate \<Rightarrow> unit kres" where
  "env_pop_tf e s =
     with_curenv s (\<lambda>c. Exit (Run e) (upd_env c (env_cpunum_update (\<lambda>_. cpunum s)) s))"

definition env_run :: "nat \<Rightarrow> kstate \<Rightarrow> unit kres" where
  "env_run e s =
     (let s = (case curenv s of
                 None \<Rightarrow> s
               | Some c \<Rightarrow> if env_status (envs s c) = ENV_RUNNING
                          then upd_env c (env_status_update (\<lambda>_. ENV_RUNNABLE)) s else s);
          s = set_curenv (Some e) s;
          s = upd_env e (\<lambda>v. v\<lparr>env_status := ENV_RUNNING, env_runs := env_runs v + 1\<rparr>) s
      in kbind (pgdir_pa e s) (\<lambda>pa s.
           kbind (unlock_kernel (hw (Lcr3 pa) s)) (\<lambda>_ s. env_pop_tf e s)))"

end
