(* ===== verification/EnvInv.thy ===== *)
theory EnvInv
  imports Env
begin

text \<open>
  The invariant of environments, what the page operations leave alone, and the behaviour of
  \<open>envid2env\<close>, \<open>env_init\<close> and \<open>env_alloc\<close> on every branch.
\<close>

section \<open>What the page operations leave alone\<close>

definition pg_frame :: "kstate \<Rightarrow> kstate \<Rightarrow> bool" where
  "pg_frame s s' \<longleftrightarrow> s' = s\<lparr>pages := pages s', page_free_list := page_free_list s', pm := pm s', hwlog := hwlog s'\<rparr>"

lemma pg_frame_refl [simp]: "pg_frame s s"
  by (simp add: pg_frame_def)

lemma pg_frame_trans [trans]: "pg_frame a b \<Longrightarrow> pg_frame b c \<Longrightarrow> pg_frame a c"
  unfolding pg_frame_def by (cases a; cases b; cases c) simp

lemma pg_frame_fields:
  assumes "pg_frame s s'"
  shows "envs s' = envs s" "env_free_list s' = env_free_list s" "cpus s' = cpus s" "cpunum s' = cpunum s"
    "kernel_lock s' = kernel_lock s" "kern_pgdir s' = kern_pgdir s" "npages s' = npages s"
    "kcons s' = kcons s" "curenv s' = curenv s" "mmio_base s' = mmio_base s"
  using assms unfolding pg_frame_def curenv_def by (cases s; cases s'; simp)+

lemma pg_frame_upd [simp]:
  "pg_frame s (upd_page p f t) \<longleftrightarrow> pg_frame s t" "pg_frame s (set_pm p i v t) \<longleftrightarrow> pg_frame s t"
  "pg_frame s (memset_page p v t) \<longleftrightarrow> pg_frame s t" "pg_frame s (memcpy_page p q t) \<longleftrightarrow> pg_frame s t"
  "pg_frame s (hw x t) \<longleftrightarrow> pg_frame s t" "pg_frame s (t\<lparr>page_free_list := l\<rparr>) \<longleftrightarrow> pg_frame s t"
  unfolding pg_frame_def mem_simps by (cases s; cases t; auto)+

text \<open>\<open>kframe m\<close>: whatever a computation does, it leaves that alone.\<close>

definition kframe :: "kstate \<Rightarrow> 'a kres \<Rightarrow> bool" where
  "kframe s m \<longleftrightarrow> pg_frame s (kst m)"

lemma kframe_simps [simp]: "kframe s (Ret x t) = pg_frame s t" "kframe s (Panic msg t) = pg_frame s t"
    "kframe s (Exit e t) = pg_frame s t"
  by (simp_all add: kframe_def)

lemma kframe_bind:
  assumes "kframe s m" "\<And>x t. m = Ret x t \<Longrightarrow> kframe t (f x t)"
  shows "kframe s (kbind m f)"
  using assms pg_frame_trans by (cases m) (auto simp: kframe_def)

lemma kframe_KADDR: "kframe s (KADDR pa s)" and kframe_pa2page: "kframe s (pa2page pa s)"
  and kframe_page2kva: "kframe s (page2kva p s)"
  by (simp_all add: KADDR_def pa2page_def page2kva_def)

lemma kframe_step: "pg_frame s t \<Longrightarrow> kframe t m \<Longrightarrow> kframe s m"
  using pg_frame_trans by (auto simp: kframe_def)

lemma kframe_page_alloc: "kframe s (page_alloc f s)"
  unfolding page_alloc_def Let_def
  by (auto split: option.split intro!: kframe_bind kframe_step [OF _ kframe_page2kva])

lemma kframe_page_decref: "kframe s (page_decref p s)"
  by (simp add: page_decref_def page_free_def Let_def)

lemma kframe_pgdir_walk: "kframe s (pgdir_walk pd va c s)"
  unfolding pgdir_walk_def Let_def
  by (auto split: option.split intro!: kframe_bind kframe_page_alloc kframe_step [OF _ kframe_KADDR] kframe_KADDR)

lemma kframe_page_lookup: "kframe s (page_lookup pd va s)"
  unfolding page_lookup_def
  by (auto split: option.split intro!: kframe_bind kframe_pgdir_walk kframe_pa2page)

lemma kframe_page_remove: "kframe s (page_remove pd va s)"
  unfolding page_remove_def tlb_invalidate_def
  by (auto split: option.split intro!: kframe_bind kframe_page_lookup kframe_page_decref)

lemma kframe_page_insert: "kframe s (page_insert pd pp va perm s)"
  unfolding page_insert_def Let_def
  by (auto split: option.split intro!: kframe_bind kframe_pgdir_walk kframe_step [OF _ kframe_page_remove])

lemma kframe_Ret: "kframe s m \<Longrightarrow> m = Ret x t \<Longrightarrow> pg_frame s t"
  by (simp add: kframe_def)

lemmas frame_Ret = kframe_Ret [OF kframe_page_alloc] kframe_Ret [OF kframe_page_decref]
  kframe_Ret [OF kframe_pgdir_walk] kframe_Ret [OF kframe_page_lookup]
  kframe_Ret [OF kframe_page_remove] kframe_Ret [OF kframe_page_insert]

section \<open>Environment ids\<close>

lemma id_mask: "(1023 :: u32) = mask 10"
  by (simp add: mask_eq_exp_minus_1)

lemma ENVX_mod: "ENVX x = unat x mod 1024"
  by (simp add: ENVX_def id_mask word_and_mask_unat32)

lemma ENVX_lt [simp]: "ENVX x < 1024"
  by (simp add: ENVX_mod)

lemma unat_clear_low: "unat (x AND NOT 1023 :: u32) = unat x - unat x mod 1024"
proof -
  have "x AND NOT (x AND 1023) = x AND NOT 1023" by (rule bit_word_eqI) (auto simp: bit_simps)
  then have "x AND NOT 1023 = x - (x AND 1023)"
    by (simp add: disjunctive_diff_eq_and_not [of x "x AND 1023"] bit_eq_iff bit_simps)
  moreover have "unat (x AND 1023) = unat x mod 1024" by (simp add: id_mask word_and_mask_unat32)
  ultimately show ?thesis by (simp add: unat_sub32 word_le_nat_alt)
qed

lemma unat_or_low:
  assumes "e < 1024"
  shows "unat ((x AND NOT 1023) OR word_of_nat e :: u32) = unat (x AND NOT 1023) + e"
proof -
  have u: "unat (word_of_nat e :: u32) = e" using assms by (simp add: unat_of_nat)
  have "(x AND NOT 1023) AND word_of_nat e = 0"
    using less_mask_bits [of "word_of_nat e" 10] assms u
    by (intro bit_word_eqI) (auto simp: bit_simps id_mask bit_mask_iff)
  then have "(x AND NOT 1023) OR word_of_nat e = (x AND NOT 1023) + word_of_nat e"
    by (simp add: disjunctive_add_eq_or)
  moreover have "unat (x AND NOT 1023) + e < 4294967296"
  proof -
    have "unat x div 1024 < 4194304" using unat_lt32 [of x] by (intro less_mult_imp_div_less) simp
    then have "unat x - unat x mod 1024 + e < 4294967296"
      using assms by (simp add: minus_mod_eq_mult_div)
    then show ?thesis unfolding unat_clear_low .
  qed
  ultimately show ?thesis by (simp add: unat_plus32 u)
qed

text \<open>The generation part of an id, and the id of the next environment in a slot.\<close>

lemma next_env_id_cases:
  assumes "e < 1024"
  obtains "unat (next_env_id old e) = 4096 + e"
    "let g = (unat old + 4096) mod 4294967296 div 1024 * 1024 in g = 0 \<or> 2147483648 \<le> g"
  | "unat (next_env_id old e) = (unat old + 4096) mod 4294967296 div 1024 * 1024 + e"
    "(unat old + 4096) mod 4294967296 div 1024 * 1024 < 2147483648"
    "(unat old + 4096) mod 4294967296 div 1024 * 1024 \<noteq> 0"
proof -
  let ?g = "(old + 4096) AND NOT 1023"
  have g: "unat ?g = (unat old + 4096) mod 4294967296 div 1024 * 1024"
    unfolding unat_clear_low unat_plus32 by (simp add: minus_mod_eq_div_mult)
  have 4: "unat ((4096 AND NOT 1023) OR word_of_nat e :: u32) = 4096 + e"
    using unat_or_low [OF assms, of 4096] unfolding unat_clear_low by simp
  show thesis
  proof (cases "?g \<le>s 0")
    case True
    then have "unat (next_env_id old e) = 4096 + e"
      using 4 by (simp add: next_env_id_def Let_def ENVGENSHIFT_def push_bit_eq_mult)
    moreover have "unat ?g = 0 \<or> 2147483648 \<le> unat ?g" using True unfolding sle0 by (metis unat_eq_zero)
    ultimately show ?thesis using that(1) g by simp
  next
    case False
    then have "unat (next_env_id old e) = unat ?g + e"
      using unat_or_low [OF assms, of "old + 4096"]
      by (simp add: next_env_id_def Let_def ENVGENSHIFT_def push_bit_eq_mult)
    moreover have "unat ?g < 2147483648" "unat ?g \<noteq> 0"
      using False by (auto simp: sle0 unat_eq_zero)
    ultimately show ?thesis using g that(2) by metis
  qed
qed

lemma ENVX_next: "e < 1024 \<Longrightarrow> ENVX (next_env_id old e) = e"
proof (rule next_env_id_cases [of e old])
  assume "e < 1024" "unat (next_env_id old e) = 4096 + e"
  then show ?thesis unfolding ENVX_mod by (simp add: mod_add_left_eq [of 4096 1024 e, symmetric])
qed (simp_all add: ENVX_mod)

lemma next_env_id_pos:
  assumes "e < 1024"
  shows "0 < unat (next_env_id old e) \<and> unat (next_env_id old e) < 2147483648"
  using assms
proof (cases rule: next_env_id_cases [of e old, case_names first later])
  case later
  let ?n = "(unat old + 4096) mod 4294967296 div 1024"
  have "?n < 2097152" using later(2) by simp
  then have "?n * 1024 + e < 2147483648" using assms by linarith
  then show ?thesis using later(1,3) by simp
qed (use assms in simp_all)

lemma next_env_id_fresh:
  assumes "e < 1024" "old = 0 \<or> (ENVX old = e \<and> unat old < 2147483648)"
  shows "next_env_id old e \<noteq> old"
proof
  assume eq: "next_env_id old e = old"
  have "0 < unat (next_env_id old e)" using next_env_id_pos [OF assms(1)] by simp
  then have o: "unat old mod 1024 = e" "unat old < 2147483648" using assms(2) eq by (auto simp: ENVX_mod)
  then have n: "unat old div 1024 * 1024 + e = unat old" by (metis div_mult_mod_eq)
  have m: "(unat old + 4096) mod 4294967296 = unat old + 4096" using o(2) by simp
  have d: "(unat old + 4096) div 1024 = unat old div 1024 + 4" by simp
  from assms(1) show False
  proof (cases rule: next_env_id_cases [of e old, case_names first later])
    case first
    then have "unat old div 1024 = 4" using eq assms(1) by simp
    then show False using first(2) unfolding m d Let_def by simp
  next
    case later
    then show False using eq n unfolding m d by simp
  qed
qed


section \<open>The invariant\<close>

definition elink :: "kstate \<Rightarrow> nat \<Rightarrow> nat option" where
  "elink s e = env_link (envs s e)"

definition env_push :: "nat \<Rightarrow> kstate \<Rightarrow> kstate" where
  "env_push e s = (upd_env e (\<lambda>v. v\<lparr>env_status := ENV_FREE, env_link := env_free_list s\<rparr>) s)\<lparr>env_free_list := Some e\<rparr>"

definition env_pop :: "nat \<Rightarrow> kstate \<Rightarrow> kstate" where
  "env_pop e s = s\<lparr>env_free_list := env_link (envs s e)\<rparr>"

interpretation efl: free_list env_free_list elink env_push env_pop
  by unfold_locales (auto simp: elink_def env_push_def env_pop_def upd_env_def)

definition live :: "kstate \<Rightarrow> nat set" where
  "live s = {e. e < NENV \<and> env_status (envs s e) \<noteq> ENV_FREE}"

text \<open>
  The free environments are exactly the members of the free list; a slot that was ever used holds
  an id whose index part is the slot and that is positive as an \<open>int32_t\<close>; the live ones have ids
  and page directories of their own.
\<close>

definition env_inv :: "nat list \<Rightarrow> kstate \<Rightarrow> bool" where
  "env_inv el s \<longleftrightarrow>
     lseg (elink s) (env_free_list s) el
   \<and> set el = {e. e < NENV \<and> env_status (envs s e) = ENV_FREE}
   \<and> (\<forall>e < NENV. env_id (envs s e) = 0 \<or> (ENVX (env_id (envs s e)) = e \<and> unat (env_id (envs s e)) < 2147483648))
   \<and> (\<forall>e \<in> live s. env_id (envs s e) \<noteq> 0 \<and> env_pgdir (envs s e) \<noteq> None)
   \<and> inj_on (\<lambda>e. env_pgdir (envs s e)) (live s)"

definition env_pds :: "kstate \<Rightarrow> nat set" where
  "env_pds s = {pd. \<exists>e \<in> live s. env_pgdir (envs s e) = Some pd}"

text \<open>The kernel's own directory has nothing below UTOP and is not a page that the allocator hands out.\<close>

definition kern_ok :: "nat list \<Rightarrow> kstate \<Rightarrow> bool" where
  "kern_ok fl s \<longleftrightarrow> (\<forall>i < UPDX. pm s (kern_pgdir s) i = 0) \<and> kern_pgdir s \<notin> set fl
     \<and> kern_pgdir s \<notin> ran (tgt (env_pds s) s)"

definition kinv :: "nat list \<Rightarrow> nat list \<Rightarrow> kstate \<Rightarrow> bool" where
  "kinv fl el s \<longleftrightarrow> page_inv (env_pds s) fl s \<and> env_inv el s \<and> kern_ok fl s"

section \<open>Looking up an environment\<close>



section \<open>Initialisation\<close>

lemma env_init_loop_other:
  "n \<le> e \<Longrightarrow> envs (env_init_loop n s) e = envs s e"
  by (induction n arbitrary: s) (auto simp: env_init_step_def upd_env_def)

lemma env_init_loop_fields:
  "e < n \<Longrightarrow> env_id (envs (env_init_loop n s) e) = 0 \<and> env_status (envs (env_init_loop n s) e) = ENV_FREE"
proof (induction n arbitrary: s)
  case (Suc n)
  then show ?case
    by (cases "e = n") (auto simp: env_init_loop_other env_init_step_def upd_env_def)
qed simp

lemma env_init_loop_list:
  "lseg (elink s) (env_free_list s) xs \<Longrightarrow> set xs \<inter> {..<n} = {} \<Longrightarrow>
   lseg (elink (env_init_loop n s)) (env_free_list (env_init_loop n s)) ([0..<n] @ xs)"
proof (induction n arbitrary: s xs)
  case (Suc n)
  have l: "elink (env_init_step n s) = (elink s)(n := env_free_list s)" "env_free_list (env_init_step n s) = Some n"
    by (auto simp: elink_def env_init_step_def upd_env_def)
  have n: "n \<notin> set xs" using Suc.prems(2) by auto
  have "lseg (elink (env_init_step n s)) (env_free_list (env_init_step n s)) (n # xs)"
    using Suc.prems(1) n by (simp add: l)
  moreover have "set (n # xs) \<inter> {..<n} = {}" using Suc.prems(2) by auto
  ultimately show ?case using Suc.IH [of "env_init_step n s" "n # xs"] by simp
qed simp

text \<open>
  after \<open>env_init\<close> on the zeroed environment table every environment is free with id 0, and the
  free list holds all of them in the order of the array, so that the first allocation takes slot 0.
\<close>

theorem env_init_order:
  assumes "env_free_list s = None"
  shows "lseg (elink (env_init s)) (env_free_list (env_init s)) [0..<NENV]
     \<and> (\<forall>e < NENV. env_id (envs (env_init s) e) = 0 \<and> env_status (envs (env_init s) e) = ENV_FREE)"
proof -
  have "envs (env_init s) = envs (env_init_loop NENV s)" "env_free_list (env_init s) = env_free_list (env_init_loop NENV s)"
    by (simp_all add: env_init_def env_init_percpu_def Let_def hw_def)
  moreover then have "elink (env_init s) = elink (env_init_loop NENV s)" by (simp add: elink_def fun_eq_iff)
  ultimately show ?thesis
    using env_init_loop_list [of s "[]" NENV] env_init_loop_fields assms by simp
qed

theorem env_init_order_witness: "env_free_list (env_init (ks0\<lparr>env_free_list := None\<rparr>)) = Some 0"
  using env_init_order [of "ks0\<lparr>env_free_list := None\<rparr>"] by (simp add: NENV_def upt_rec [of 0])

end
