(* ===== verification/EnvAlloc.thy ===== *)
theory EnvAlloc
  imports EnvInv
begin

text \<open>
  \<open>env_alloc\<close> against the kernel invariant: its two errors, and the new environment with an empty
  address space of its own.
\<close>

section \<open>A new page directory\<close>

lemma page_inv_fill:
  assumes I: "page_inv pds fl s" and p: "p \<notin> ran (tgt pds s)"
    and f: "npages s' = npages s" "pages s' = pages s" "page_free_list s' = page_free_list s"
    and pm': "\<And>r. r \<noteq> p \<Longrightarrow> pm s' r = pm s r"
  shows "page_inv pds fl s'" "tgt pds s' = tgt pds s"
proof -
  show T: "tgt pds s' = tgt pds s" by (rule tgt_other_page [OF p pm'])
  have "pt \<noteq> p" if "tgt pds s (SPde pd i) = Some pt" for pd i pt using p that by (metis ranI)
  then have "ptes_ok pds s'" by (intro ptes_ok_cong [OF T pm' page_inv_ptes [OF I]])
  then show "page_inv pds fl s'"
    using page_inv_parts [OF I] by (intro page_invI) (simp_all add: T f free_ok_def)
qed

lemma page_inv_new_pd:
  assumes I: "page_inv pds fl s" and p: "p < npages s" "p \<notin> set fl" "pp_ref (pages s p) = 0"
    "p \<notin> ran (tgt pds s)" and z: "\<And>i. i < UPDX \<Longrightarrow> pm s p i = 0"
  shows "page_inv (insert p pds) fl (ref_add p 1 s)"
    and "tgt (insert p pds) (ref_add p 1 s) = (tgt pds s)(SPd p := Some p)"
proof -
  have np: "p \<notin> pds" using p(4) pd_ran [of p pds s] by blast
  have z': "\<not> present (pm s p i)" if "i < UPDX" for i using z [OF that] by (simp add: present_def)
  have T: "tgt (insert p pds) s = (tgt pds s)(SPd p := Some p)"
  proof
    fix sl show "tgt (insert p pds) s sl = ((tgt pds s)(SPd p := Some p)) sl"
      using z' np by (cases sl) (auto simp: tgt.simps)
  qed
  show T': "tgt (insert p pds) (ref_add p 1 s) = (tgt pds s)(SPd p := Some p)"
    using T tgt_cong [of "ref_add p 1 s" s] by simp
  have n: "tgt pds s (SPd p) = None" using np by (simp add: tgt_SPd)
  have A: "acct ((tgt pds s)(SPd p := Some p)) (\<lambda>q. pp_ref (pages (ref_add p 1 s) q)) (npages s)"
  proof -
    have "(\<lambda>q. pp_ref (pages (ref_add p 1 s) q)) = (\<lambda>q. pp_ref (pages s q))(p := pp_ref (pages s p) + 1)"
      by (auto simp: ref_add_def upd_page_def)
    then show ?thesis
      using acct_fill [OF page_inv_acct [OF I] finite_fibre [OF page_inv_finite [OF I]] n p(1)] p(3,4)
      by (auto simp: ran_def)
  qed
  have P: "ptes_ok (insert p pds) (ref_add p 1 s)"
    using page_inv_ptes [OF I] z' unfolding ptes_ok_def T' by auto
  have F: "free_ok ((tgt pds s)(SPd p := Some p)) (ref_add p 1 s) fl"
    using p(2) free_okD(4) [OF page_inv_free_ok [OF I]]
    by (intro free_ok_cong [OF page_inv_free_ok [OF I]])
      (auto simp: ref_add_def upd_page_def dest: ran_upd_Some)
  show "page_inv (insert p pds) fl (ref_add p 1 s)"
    using A P F page_inv_npages [OF I] page_inv_finite [OF I]
    by (intro page_invI) (simp_all add: T')
qed

section \<open>\<open>env_setup_vm\<close>\<close>

definition setup_st :: "nat \<Rightarrow> nat \<Rightarrow> kstate \<Rightarrow> kstate" where
  "setup_st e p s =
     set_pm p (unat (PDX UVPT)) (page2pa p OR PTE_P OR PTE_U)
       (memcpy_page p (kern_pgdir s)
         (upd_env e (env_pgdir_update (\<lambda>_. Some p)) (ref_add p 1 (memset_page p 0 (page_pop p s)))))"

lemma PDX_UVPT: "unat (PDX UVPT) = 957"
  by (simp add: unat_PDX const_simps)

lemma env_setup_vm_none:
  assumes "page_inv pds [] s"
  shows "env_setup_vm e s = Ret (- E_NO_MEM) s"
proof -
  have "page_free_list s = None"
    using page_inv_free_list [OF assms] by (cases "page_free_list s") auto
  then show ?thesis by (simp add: env_setup_vm_def page_alloc_None)
qed

lemma env_setup_vm_some:
  assumes I: "page_inv pds (p # fl) s"
  shows "env_setup_vm e s = Ret 0 (setup_st e p s)"
proof -
  have p: "p < npages s" "npages s \<le> 1048576"
    using page_inv_free [OF I, of p] page_inv_npages [OF I] by auto
  have "page_alloc ALLOC_ZERO s = Ret (Some p) (memset_page p 0 (page_pop p s))"
    using page_alloc_full(1) [OF I, of ALLOC_ZERO] by (simp add: ALLOC_ZERO_def)
  moreover have "page2kva p (ref_add p 1 (memset_page p 0 (page_pop p s)))
      = Ret p (ref_add p 1 (memset_page p 0 (page_pop p s)))"
    using p by (intro page2kva_eq) (simp_all add: st_defs)
  ultimately show ?thesis
    by (simp add: env_setup_vm_def setup_st_def Let_def ref_add_def) (simp add: st_defs)
qed

lemma setup_st_fields:
  "npages (setup_st e p s) = npages s" "kern_pgdir (setup_st e p s) = kern_pgdir s"
  "envs (setup_st e p s) = (envs s)(e := (envs s e)\<lparr>env_pgdir := Some p\<rparr>)"
  "env_free_list (setup_st e p s) = env_free_list s"
  "cpus (setup_st e p s) = cpus s" "cpunum (setup_st e p s) = cpunum s" "kernel_lock (setup_st e p s) = kernel_lock s"
  "r \<noteq> p \<Longrightarrow> pm (setup_st e p s) r = pm s r"
  "kern_pgdir s \<noteq> p \<Longrightarrow> pm (setup_st e p s) p = (pm s (kern_pgdir s))(957 := page2pa p OR PTE_P OR PTE_U)"
  by (simp_all add: setup_st_def st_defs PDX_UVPT)

lemma setup_st_inv:
  assumes I: "page_inv pds (p # fl) s" and z: "\<And>i. i < UPDX \<Longrightarrow> pm s (kern_pgdir s) i = 0"
    and k: "kern_pgdir s \<noteq> p"
  shows "page_inv (insert p pds) fl (setup_st e p s)"
    and "tgt (insert p pds) (setup_st e p s) = (tgt pds s)(SPd p := Some p)"
proof -
  let ?t = "page_pop p s"
  let ?u = "?t\<lparr>pm := (pm s)(p := (pm s (kern_pgdir s))(957 := page2pa p OR PTE_P OR PTE_U))\<rparr>"
  note P = page_inv_pop [OF I]
  have p: "p < npages s" "pp_ref (pages s p) = 0" "p \<notin> ran (tgt pds s)" "p \<notin> set fl"
    using page_inv_free [OF I, of p] lseg_distinct [OF page_inv_free_list [OF I]] by auto
  have n: "p \<notin> ran (tgt pds ?t)" using p(3) P(2) by simp
  have U: "page_inv pds fl ?u" "tgt pds ?u = tgt pds s"
    using page_inv_fill [OF P(1) n, of ?u] P(2) by (auto simp: st_defs)
  have z': "pm ?u p i = 0" if "i < UPDX" for i
    using z [OF that] that by (simp add: UPDX_def)
  have N: "page_inv (insert p pds) fl (ref_add p 1 ?u)"
    "tgt (insert p pds) (ref_add p 1 ?u) = (tgt pds s)(SPd p := Some p)"
    using page_inv_new_pd [OF U(1), of p] p z' U(2) by (auto simp: st_defs)
  have e: "pm (setup_st e p s) = pm (ref_add p 1 ?u)"
    using k by (auto simp: setup_st_def st_defs PDX_UVPT)
  show "page_inv (insert p pds) fl (setup_st e p s)"
    using N(1) by (subst page_inv_cong [of _ "ref_add p 1 ?u"]) (auto simp: e, auto simp: setup_st_def st_defs)
  show "tgt (insert p pds) (setup_st e p s) = (tgt pds s)(SPd p := Some p)"
    using N(2) tgt_cong [OF e] by simp
qed

section \<open>\<open>env_alloc\<close>\<close>

definition new_env :: "nat \<Rightarrow> nat \<Rightarrow> u32 \<Rightarrow> Env \<Rightarrow> Env" where
  "new_env e p parent v = v\<lparr>env_id := next_env_id (env_id v) e, env_parent_id := parent,
     env_type := ENV_TYPE_USER, env_status := ENV_RUNNABLE, env_runs := 0, env_pgdir := Some p,
     env_tf := tf0\<lparr>tf_ds := GD_UD OR 3, tf_es := GD_UD OR 3, tf_ss := GD_UD OR 3, tf_esp := USTACKTOP,
                   tf_cs := GD_UT OR 3, tf_eflags := FL_IF\<rparr>,
     env_pgfault_upcall := 0, env_ipc_recving := False\<rparr>"

definition alloc_st :: "nat \<Rightarrow> nat \<Rightarrow> u32 \<Rightarrow> kstate \<Rightarrow> kstate" where
  "alloc_st e p parent s =
     (setup_st e p s)\<lparr>envs := (envs s)(e := new_env e p parent (envs s e)),
                      env_free_list := env_link (envs s e)\<rparr>"

lemma upd_env_twice: "upd_env e f (upd_env e g s) = upd_env e (\<lambda>v. f (g v)) s"
  by (simp add: upd_env_def)

lemma upd_env_get: "envs (upd_env e f s) e = f (envs s e)"
  by (simp add: upd_env_def)

lemma env_alloc_some:
  assumes I: "page_inv pds (p # fl) s" and e: "env_free_list s = Some e"
  shows "env_alloc parent s = Ret (Inr e) (alloc_st e p parent s)"
proof -
  let ?v = "(envs s e)\<lparr>env_pgdir := Some p\<rparr>"
  have "tf_eflags tf0 = 0" by (simp add: tf0_def)
  then have v: "new_env e p parent (envs s e) = new_env e p parent ?v"
    "env_link (envs s e) = env_link (new_env e p parent ?v)"
    by (simp_all add: new_env_def)
  show ?thesis
    unfolding env_alloc_def e option.case env_setup_vm_some [OF I] kbind.simps Let_def upd_env_twice upd_env_get
      alloc_st_def v
    by (cases "envs s e") (simp add: upd_env_def setup_st_fields new_env_def tf0_def)
qed

lemma alloc_st_fields:
  "envs (alloc_st e p parent s) = (envs s)(e := new_env e p parent (envs s e))"
  "env_free_list (alloc_st e p parent s) = env_link (envs s e)" "npages (alloc_st e p parent s) = npages s"
  "pages (alloc_st e p parent s) = pages (setup_st e p s)" "pm (alloc_st e p parent s) = pm (setup_st e p s)"
  "page_free_list (alloc_st e p parent s) = page_free_list (setup_st e p s)"
  "kern_pgdir (alloc_st e p parent s) = kern_pgdir s"
  by (simp_all add: alloc_st_def setup_st_fields)

lemma env_invD:
  assumes "env_inv el s"
  shows "lseg (elink s) (env_free_list s) el" "set el = {e. e < NENV \<and> env_status (envs s e) = ENV_FREE}"
    "\<And>e. e < NENV \<Longrightarrow> env_id (envs s e) = 0 \<or> (ENVX (env_id (envs s e)) = e \<and> unat (env_id (envs s e)) < 2147483648)"
    "\<And>e. e \<in> live s \<Longrightarrow> env_id (envs s e) \<noteq> 0 \<and> env_pgdir (envs s e) \<noteq> None"
    "inj_on (\<lambda>e. env_pgdir (envs s e)) (live s)"
  using assms unfolding env_inv_def by auto

lemma live_upd:
  "envs s' = (envs s)(e := v) \<Longrightarrow> e < NENV \<Longrightarrow>
   live s' = (if env_status v = ENV_FREE then live s - {e} else insert e (live s))"
  by (auto simp: live_def)

lemma env_inv_alloc:
  assumes E: "env_inv (e # el) s" and p: "p \<notin> env_pds s"
    and s': "envs s' = (envs s)(e := new_env e p parent (envs s e))" "env_free_list s' = env_link (envs s e)"
  shows "env_inv el s'" "env_pds s' = insert p (env_pds s)"
proof -
  note D = env_invD [OF E]
  have e: "e < NENV" "env_status (envs s e) = ENV_FREE" using D(2) by auto
  then have e': "e < 1024" "e \<notin> live s" by (simp_all add: NENV_def live_def)
  have L: "live s' = insert e (live s)" using live_upd [OF s'(1) e(1)] by (simp add: new_env_def)
  have d: "distinct (e # el)" using D(1) by (rule lseg_distinct)
  have lk: "elink s' = elink s" using s'(1) by (auto simp: elink_def new_env_def)
  have l: "lseg (elink s') (env_free_list s') el"
    using D(1) by (simp add: lk s'(2)) (simp add: elink_def)
  have st: "set el = {e. e < NENV \<and> env_status (envs s' e) = ENV_FREE}"
    using D(2) d s'(1) by (auto simp: new_env_def)
  have ids: "env_id (envs s' x) = 0 \<or> (ENVX (env_id (envs s' x)) = x \<and> unat (env_id (envs s' x)) < 2147483648)"
    if "x < NENV" for x
    using D(3) [OF that] s'(1) ENVX_next [OF e'(1)] next_env_id_pos [OF e'(1)]
    by (cases "x = e") (simp_all add: new_env_def)
  have lv: "env_id (envs s' x) \<noteq> 0 \<and> env_pgdir (envs s' x) \<noteq> None" if "x \<in> live s'" for x
    using that D(4) [of x] L s'(1) next_env_id_pos [OF e'(1), of "env_id (envs s e)"]
    by (cases "x = e") (auto simp: new_env_def)
  have inj: "inj_on (\<lambda>e. env_pgdir (envs s' e)) (live s')"
    using D(5) p e'(2) unfolding L s'(1) by (auto simp: inj_on_def new_env_def env_pds_def)
  show "env_inv el s'" using l st ids lv inj unfolding env_inv_def by blast
  show "env_pds s' = insert p (env_pds s)"
    using e'(2) unfolding env_pds_def L s'(1) by (auto simp: new_env_def)
qed

lemma kinvD:
  assumes "kinv fl el s"
  shows "page_inv (env_pds s) fl s" "env_inv el s" "kern_ok fl s"
  using assms by (auto simp: kinv_def)

lemma alloc_st_kinv:
  assumes K: "kinv (p # fl) (e # el) s"
  shows "env_alloc parent s = Ret (Inr e) (alloc_st e p parent s)" "kinv fl el (alloc_st e p parent s)"
    "env_pds (alloc_st e p parent s) = insert p (env_pds s)" "p \<notin> env_pds s" "kern_pgdir s \<noteq> p" "e < 1024"
proof -
  let ?s = "alloc_st e p parent s"
  note I = kinvD(1) [OF K] and Ei = kinvD(2) [OF K]
  have z: "\<And>i. i < UPDX \<Longrightarrow> pm s (kern_pgdir s) i = 0" and k: "kern_pgdir s \<noteq> p" "kern_pgdir s \<notin> set fl"
    "kern_pgdir s \<notin> ran (tgt (env_pds s) s)"
    using kinvD(3) [OF K] by (auto simp: kern_ok_def)
  show p: "p \<notin> env_pds s" using page_inv_free(3) [OF I, of p] pd_ran [of p "env_pds s" s] by auto
  note A = env_inv_alloc [OF Ei p alloc_st_fields(1,2) [of e p parent s]]
  have P: "page_inv (env_pds ?s) fl ?s" "tgt (env_pds ?s) ?s = (tgt (env_pds s) s)(SPd p := Some p)"
    using setup_st_inv [OF I z k(1), of e] page_inv_cong [of ?s "setup_st e p s"]
      tgt_cong [of ?s "setup_st e p s"] A(2)
    by (simp_all add: alloc_st_fields setup_st_fields)
  have "kern_ok fl ?s"
    using z k P(2) unfolding kern_ok_def
    by (auto simp: alloc_st_fields setup_st_fields dest: ran_upd_Some)
  then show "kinv fl el ?s" using A(1) P(1) by (simp add: kinv_def)
  show "env_pds ?s = insert p (env_pds s)" "kern_pgdir s \<noteq> p" by (rule A(2), rule k(1))
  show "env_alloc parent s = Ret (Inr e) ?s"
    using env_invD(1) [OF Ei] by (intro env_alloc_some [OF I]) simp
  show "e < 1024" using env_invD(2) [OF Ei] by (auto simp: NENV_def)
qed

text \<open>
  C15: \<open>env_alloc\<close> on a state that satisfies the kernel invariant returns -E\_NO\_FREE\_ENV when no
  environment is free and -E\_NO\_MEM when no page is, changing nothing; otherwise it returns the
  first free environment, runnable in user mode with interrupts enabled, under an id that is
  positive as an \<open>int32_t\<close>, names its slot and differs from the slot's previous id. The user part
  of its address space is empty, every other environment is untouched, every other page keeps its
  contents, and the kernel invariant holds again.
\<close>

theorem env_alloc_correct:
  assumes K: "kinv fl el s"
  shows "(el = [] \<longrightarrow> env_alloc parent s = Ret (Inl (- E_NO_FREE_ENV)) s)
    \<and> (el \<noteq> [] \<and> fl = [] \<longrightarrow> env_alloc parent s = Ret (Inl (- E_NO_MEM)) s)
    \<and> (\<forall>e el' p fl'. el = e # el' \<and> fl = p # fl' \<longrightarrow>
         (\<exists>s'. env_alloc parent s = Ret (Inr e) s' \<and> kinv fl' el' s'
             \<and> envs s' = (envs s)(e := new_env e p parent (envs s e))
             \<and> ENVX (env_id (envs s' e)) = e \<and> 0 < unat (env_id (envs s' e))
             \<and> unat (env_id (envs s' e)) < 2147483648 \<and> env_id (envs s' e) \<noteq> env_id (envs s e)
             \<and> (\<forall>va < UTOP. vpte s' p va = None)
             \<and> (\<forall>q. q \<noteq> p \<longrightarrow> pm s' q = pm s q)))"
proof (intro conjI allI impI)
  note I = kinvD(1) [OF K] and E = env_invD [OF kinvD(2) [OF K]]
  show "env_alloc parent s = Ret (Inl (- E_NO_FREE_ENV)) s" if "el = []"
    using E(1) that by (cases "env_free_list s") (auto simp: env_alloc_def)
  show "env_alloc parent s = Ret (Inl (- E_NO_MEM)) s" if "el \<noteq> [] \<and> fl = []"
    using that E(1) I env_setup_vm_none [of "env_pds s" s]
    by (cases "env_free_list s") (auto simp: env_alloc_def E_NO_MEM_def)
  fix e el' p fl' assume "el = e # el' \<and> fl = p # fl'"
  then have K': "kinv (p # fl') (e # el') s" using K by simp
  note A = alloc_st_kinv [OF K'] and Ei = kinvD(2) [OF K']
  note e = A(6)
  let ?s = "alloc_st e p parent s"
  have z: "\<And>i. i < UPDX \<Longrightarrow> pm s (kern_pgdir s) i = 0" using kinvD(3) [OF K] by (auto simp: kern_ok_def)
  have old: "env_id (envs s e) = 0 \<or> ENVX (env_id (envs s e)) = e \<and> unat (env_id (envs s e)) < 2147483648"
    using env_invD(3) [OF Ei, of e] e by (simp add: NENV_def)
  have v: "vpte ?s p va = None" if "va < UTOP" for va
    using z below_UTOP_PDX [OF that] A(5)
    by (simp add: vpte_def alloc_st_fields setup_st_fields present_def UPDX_def)
  show "\<exists>s'. env_alloc parent s = Ret (Inr e) s' \<and> kinv fl' el' s'
             \<and> envs s' = (envs s)(e := new_env e p parent (envs s e))
             \<and> ENVX (env_id (envs s' e)) = e \<and> 0 < unat (env_id (envs s' e))
             \<and> unat (env_id (envs s' e)) < 2147483648 \<and> env_id (envs s' e) \<noteq> env_id (envs s e)
             \<and> (\<forall>va < UTOP. vpte s' p va = None)
             \<and> (\<forall>q. q \<noteq> p \<longrightarrow> pm s' q = pm s q)"
    using A(1,2) v next_env_id_pos [OF e, of "env_id (envs s e)"]
      ENVX_next [OF e, of "env_id (envs s e)"] next_env_id_fresh [OF e old]
    by (intro exI [of _ ?s]) (simp add: alloc_st_fields setup_st_fields new_env_def)
qed

section \<open>The concrete state satisfies the invariant\<close>

lemma live_ks0: "live ks0 = {0}"
  by (auto simp: live_def env0_def NENV_def)

lemma env_pds_ks0: "env_pds ks0 = {2}"
  by (auto simp: env_pds_def live_ks0 env0_def)

lemma env_list_ks0: "0 < n \<Longrightarrow> n \<le> 1024 \<Longrightarrow> lseg (elink ks0) (if n < 1024 then Some n else None) [n..<1024]"
proof (induction "1024 - n" arbitrary: n)
  case (Suc k)
  then have n: "n < 1024" by simp
  have "elink ks0 n = (if Suc n < 1024 then Some (Suc n) else None)"
    using Suc.prems n by (auto simp: elink_def env0_def)
  then show ?case using Suc.hyps(1) [of "Suc n"] Suc.hyps(2) n by (simp add: upt_conv_Cons)
qed simp

definition el0 :: "nat list" where
  "el0 = [1..<1024]"

lemma el0_Cons: "el0 = 1 # [2..<1024]"
  unfolding el0_def by (subst upt_conv_Cons) (simp_all add: numeral_2_eq_2)

lemma env_inv_ks0: "env_inv el0 ks0"
proof -
  have "set el0 = {e. e < NENV \<and> env_status (envs ks0 e) = ENV_FREE}"
    unfolding el0_def set_upt by (auto simp: NENV_def env0_def)
  moreover have "lseg (elink ks0) (Some 1) el0"
    using env_list_ks0 [of 1] unfolding el0_def by simp
  ultimately show ?thesis
    unfolding env_inv_def live_ks0 by (simp add: env0_def ENVX_def)
qed

lemma kinv_ks0: "kinv [4, 5, 6, 7] el0 ks0"
  using page_inv_ks0 env_inv_ks0 by (simp add: kinv_def env_pds_ks0 kern_ok_def ran_tgt_ks0)

theorem env_alloc_correct_witness:
  "\<exists>s'. env_alloc 0x1000 ks0 = Ret (Inr 1) s' \<and> ENVX (env_id (envs s' 1)) = 1 \<and> env_id (envs s' 1) \<noteq> 0"
proof -
  have "\<exists>s'. env_alloc 0x1000 ks0 = Ret (Inr 1) s' \<and> kinv [5, 6, 7] [2..<1024] s'
      \<and> envs s' = (envs ks0)(1 := new_env 1 4 0x1000 (envs ks0 1))
      \<and> ENVX (env_id (envs s' 1)) = 1 \<and> 0 < unat (env_id (envs s' 1))
      \<and> unat (env_id (envs s' 1)) < 2147483648 \<and> env_id (envs s' 1) \<noteq> env_id (envs ks0 1)
      \<and> (\<forall>va < UTOP. vpte s' 4 va = None) \<and> (\<forall>q. q \<noteq> 4 \<longrightarrow> pm s' q = pm ks0 q)"
    using env_alloc_correct [OF kinv_ks0, of "0x1000"] el0_Cons by blast
  then show ?thesis by (metis unat_0 less_irrefl)
qed

text \<open>The same state with a second, runnable environment.\<close>

definition ks1 :: kstate where
  "ks1 = alloc_st 1 4 0x1000 ks0"

lemma kinv_ks1: "kinv [5, 6, 7] [2..<1024] ks1"
  using alloc_st_kinv(2) [of 4 "[5, 6, 7]" 1 "[2..<1024]" ks0 "0x1000"] kinv_ks0 el0_Cons
  by (simp add: ks1_def)

lemma ks1_fields [simp]:
  "envs ks1 0 = env0 0" "envs ks1 1 = new_env 1 4 0x1000 (env0 1)" "cpus ks1 = cpus ks0" "cpunum ks1 = 0"
  "kernel_lock ks1 = \<lparr>locked = 1, lk_cpu = Some 0\<rparr>" "curenv ks1 = Some 0"
  by (simp_all add: ks1_def alloc_st_def setup_st_fields curenv_def)

lemma live_ks1: "live ks1 = {0, 1}"
  by (auto simp: live_def ks1_def alloc_st_fields env0_def new_env_def NENV_def split: if_splits)

end
