(* ===== verification/EnvFree.thy ===== *)
theory EnvFree
  imports EnvAlloc
begin

text \<open>
  \<open>env_free\<close> against the kernel invariant: every page mapped by the environment, its page tables and
  its directory are given back, and nothing else changes.
\<close>

section \<open>Removing one mapping\<close>

text \<open>\<open>owned\<close>: the pages that the page accounting knows of, free or referred to.\<close>

definition owned :: "nat set \<Rightarrow> nat list \<Rightarrow> kstate \<Rightarrow> nat set" where
  "owned pds fl s = set fl \<union> ran (tgt pds s)"

definition shrinks :: "nat \<Rightarrow> nat set \<Rightarrow> nat list \<Rightarrow> kstate \<Rightarrow> nat set \<Rightarrow> nat list \<Rightarrow> kstate \<Rightarrow> bool" where
  "shrinks pd pds fl s pds' fl' s' \<longleftrightarrow> pg_frame s s' \<and> owned pds' fl' s' = owned pds fl s
     \<and> (\<forall>r. r \<notin> owned pds fl s \<longrightarrow> pm s' r = pm s r) \<and> pds' \<subseteq> pds
     \<and> (\<forall>pd' \<in> pds' - {pd}. \<forall>va < UTOP. vpte s' pd' va = vpte s pd' va)"

lemma ran_clear: "T sl = Some p \<Longrightarrow> insert p (ran (T(sl := None))) = ran T"
  by (simp add: ran_def set_eq_iff) (metis option.inject)

lemma owned_clear:
  "T sl = Some p \<Longrightarrow> T' = T(sl := None) \<Longrightarrow>
   set (if p \<in> ran T' then fl else p # fl) \<union> ran T' = set fl \<union> ran T"
  using ran_clear [of T sl p] by auto

lemma shrinks_refl: "shrinks pd pds fl s pds fl s"
  by (simp add: shrinks_def)

lemma shrinks_trans:
  assumes "shrinks pd p1 f1 s1 p2 f2 s2" "shrinks pd p2 f2 s2 p3 f3 s3"
  shows "shrinks pd p1 f1 s1 p3 f3 s3"
proof -
  have "pg_frame s1 s3" using assms pg_frame_trans by (auto simp: shrinks_def)
  moreover have "owned p3 f3 s3 = owned p1 f1 s1" "p3 \<subseteq> p1" using assms by (auto simp: shrinks_def)
  moreover have "pm s3 r = pm s1 r" if "r \<notin> owned p1 f1 s1" for r
    using assms that unfolding shrinks_def by metis
  moreover have "vpte s3 pd' va = vpte s1 pd' va" if "pd' \<in> p3 - {pd}" "va < UTOP" for pd' va
    using assms that unfolding shrinks_def by (metis DiffD1 DiffD2 DiffI subsetD)
  ultimately show ?thesis by (auto simp: shrinks_def)
qed

lemma page_remove_step:
  assumes I: "page_inv pds fl s" and pd: "pd \<in> pds" and va: "va < UTOP"
  shows "\<exists>s' fl'. page_remove pd va s = Ret () s' \<and> page_inv pds fl' s'
    \<and> tgt pds s' = (tgt pds s)(SPte pd (unat (PDX va)) (unat (PTX va)) := None)
    \<and> shrinks pd pds fl s pds fl' s'"
proof (cases "tgt pds s (SPte pd (unat (PDX va)) (unat (PTX va)))")
  case None
  then show ?thesis
    using page_remove_none(1) [OF I pd va None] I shrinks_refl
    by (intro exI [of _ s] exI [of _ fl]) (simp add: fun_upd_idem)
next
  case (Some p)
  then obtain pt where t: "tgt pds s (SPde pd (unat (PDX va))) = Some pt" by (auto simp: tgt_SPte_Some)
  let ?s = "remove_st pd va pt p s" and ?T = "(tgt pds s)(SPte pd (unat (PDX va)) (unat (PTX va)) := None)"
  note R = page_remove_inv [OF I Some t]
  have "pt \<in> ran (tgt pds s)" "p \<in> ran (tgt pds s)" using t Some by (auto intro: ranI)
  moreover have "vpte ?s pd' va' = vpte s pd' va'" if "pd' \<in> pds - {pd}" "va' < UTOP" for pd' va'
    using page_remove_full [OF I pd va] R(1) that by (auto simp: as_eq_def as_upd_def)
  ultimately have "shrinks pd pds fl s pds (if p \<in> ran ?T then fl else p # fl) ?s"
    using frame_Ret(5) [OF R(1)] owned_clear [OF Some R(2), of fl] unfolding shrinks_def owned_def R(2)
    by (auto simp: remove_st_def set_pm_def)
  then show ?thesis using R by blast
qed

section \<open>Freeing a page table\<close>

definition pte_slots :: "nat \<Rightarrow> nat \<Rightarrow> nat \<Rightarrow> slot set" where
  "pte_slots pd i n = SPte pd i ` {..<n}"

lemma restrict_none: "(m |` (- A))(x := None) = m |` (- insert x A)"
  by (auto simp: restrict_map_def)

lemma restrict_idem: "m x = None \<Longrightarrow> m |` (- insert x A) = m |` (- A)"
  by (auto simp: restrict_map_def)

lemma env_free_ptes_ok:
  assumes I: "page_inv pds fl s" and pd: "pd \<in> pds" and i: "i < UPDX" and t: "tgt pds s (SPde pd i) = Some pt"
    and n: "n \<le> 1024"
  shows "\<exists>s' fl'. env_free_ptes pd i pt n s = Ret () s' \<and> page_inv pds fl' s'
    \<and> tgt pds s' = tgt pds s |` (- pte_slots pd i n) \<and> shrinks pd pds fl s pds fl' s'"
  using n
proof (induction n)
  case 0
  then show ?case using I shrinks_refl by (auto simp: pte_slots_def)
next
  case (Suc n)
  then obtain s1 fl1 where s1: "env_free_ptes pd i pt n s = Ret () s1" "page_inv pds fl1 s1"
    "tgt pds s1 = tgt pds s |` (- pte_slots pd i n)" "shrinks pd pds fl s pds fl1 s1" by auto
  let ?va = "PGADDR (word_of_nat i) (word_of_nat n) 0"
  have in1: "i < 1024" "n < 1024" using i Suc.prems by (auto simp: UPDX_def)
  then have va: "unat (PDX ?va) = i" "unat (PTX ?va) = n"
    using PGADDR_parts [of "word_of_nat i" "word_of_nat n" 0] by (simp_all add: unat_of_nat)
  have ut: "?va < UTOP"
  proof -
    have "unat ?va div 4194304 < 955" using va(1) i by (simp add: unat_PDX UPDX_def)
    then have "unat ?va < 955 * 4194304" by (simp add: div_less_iff_less_mult)
    then show ?thesis by (simp add: word_less_nat_alt const_simps)
  qed
  have t1: "tgt pds s1 (SPde pd i) = Some pt" using t by (simp add: s1(3) restrict_map_def pte_slots_def image_iff)
  have sl: "pte_slots pd i (Suc n) = insert (SPte pd i n) (pte_slots pd i n)"
    by (auto simp: pte_slots_def lessThan_Suc)
  show ?case
  proof (cases "present (pm s1 pt n)")
    case True
    obtain s2 fl2 where s2: "page_remove pd ?va s1 = Ret () s2" "page_inv pds fl2 s2"
      "tgt pds s2 = (tgt pds s1)(SPte pd i n := None)" "shrinks pd pds fl1 s1 pds fl2 s2"
      using page_remove_step [OF s1(2) pd ut] va by auto
    have "tgt pds s2 = tgt pds s |` (- pte_slots pd i (Suc n))"
      unfolding s2(3) s1(3) sl by (rule restrict_none)
    then show ?thesis
      using s1 s2 True shrinks_trans [OF s1(4) s2(4)] by (auto simp: present_def)
  next
    case False
    then have "tgt pds s1 (SPte pd i n) = None" using t1 by (simp add: tgt_SPte)
    then have "tgt pds s1 = (tgt pds s1)(SPte pd i n := None)" by (simp only: fun_upd_idem)
    then have "tgt pds s1 = tgt pds s |` (- pte_slots pd i (Suc n))"
      using restrict_none [of "tgt pds s" "pte_slots pd i n" "SPte pd i n"] unfolding sl s1(3) by (rule trans)
    then show ?thesis using s1 False by (auto simp: present_def)
  qed
qed

lemma page_inv_drop_table:
  assumes I: "page_inv pds fl s" and pd: "pd \<in> pds" and i: "i < UPDX"
    and t: "tgt pds s (SPde pd i) = Some pt" and z: "\<And>j. tgt pds s (SPte pd i j) = None"
    and s': "s' = decref_st pt (set_pm pd i 0 s)"
  shows "\<exists>fl'. page_inv pds fl' s' \<and> tgt pds s' = (tgt pds s)(SPde pd i := None) \<and> owned pds fl' s' = owned pds fl s
    \<and> (\<forall>pd' \<in> pds - {pd}. \<forall>va < UTOP. vpte s' pd' va = vpte s pd' va)"
proof -
  let ?T = "(tgt pds s)(SPde pd i := None)"
  note A = page_inv_acct [OF I] and p = page_inv_tgt [OF I t]
  note fin = finite_fibre [OF page_inv_finite [OF I]]
  have np: "\<not> present 0" by (simp add: present_def)
  have pm': "pm s' = (pm s)(pd := (pm s pd)(i := 0))" by (simp add: s' set_pm_def)
  have npd: "q \<noteq> pd" if "tgt pds s (SPde a b) = Some q" for a b q
    using acct_table_unique [OF A, of "SPd pd" pd "SPde a b"] that pd by (auto simp: tgt_SPd)
  have pde: "tgt pds s' (SPde a b) = ?T (SPde a b)" for a b
    using pd np by (auto simp: tgt.simps pm')
  have T: "tgt pds s' = ?T"
  proof
    fix sl show "tgt pds s' sl = ?T sl"
    proof (cases sl)
      case (SPte a b j)
      show ?thesis
        unfolding SPte tgt_SPte [of pds s'] pde using npd [of a b] z
        by (auto simp: pm' tgt_SPte [of pds s] split: option.splits)
    qed (auto simp: pde tgt_SPd)
  qed
  have P: "ptes_ok pds s'"
    unfolding ptes_ok_def T using page_inv_ptes [OF I] npd unfolding ptes_ok_def by (auto simp: pm')
  have A': "acct ?T (\<lambda>r. pp_ref (pages s' r)) (npages s')"
  proof -
    have "(\<lambda>r. pp_ref (pages s' r)) = (\<lambda>r. pp_ref (pages s r))(pt := pp_ref (pages s pt) - 1)"
      by (auto simp: s' decref_st_ref set_pm_def)
    moreover have "npages s' = npages s" by (simp add: s' set_pm_def)
    ultimately show ?thesis using acct_clear(1) [OF A fin t] by simp
  qed
  have R: "r \<in> set fl \<Longrightarrow> r \<notin> ran ?T" for r using page_inv_free(3) [OF I, of r] ran_upd_None by metis
  have F0: "free_ok (tgt pds s) (set_pm pd i 0 s) fl"
    using page_inv_free_ok [OF I] free_ok_same [of "set_pm pd i 0 s" s] by (simp add: set_pm_def)
  have "free_ok ?T s' (if pt \<in> ran ?T then fl else pt # fl)"
    unfolding s' by (rule decref_st_free_ok [OF F0])
      (use p R acct_clear(2) [OF A fin t] in \<open>auto simp: set_pm_def\<close>)
  then have "page_inv pds (if pt \<in> ran ?T then fl else pt # fl) s'"
    using A' P page_inv_npages [OF I] page_inv_finite [OF I] by (intro page_invI) (simp_all add: T, simp add: s' set_pm_def)
  moreover have "vpte s' pd' va = vpte s pd' va" if h: "pd' \<in> pds - {pd}" "va < UTOP" for pd' va
    using h npd [of pd' "unat (PDX va)"] below_UTOP_PDX [OF h(2)]
    by (auto simp: vpte_tgt T pm' split: option.split)
  moreover have "owned pds (if pt \<in> ran ?T then fl else pt # fl) s' = owned pds fl s"
    using owned_clear [of "tgt pds s" "SPde pd i" pt ?T fl] t by (simp only: owned_def T simp_thms)
  ultimately show ?thesis using T by blast
qed

definition pde_slots :: "nat \<Rightarrow> nat \<Rightarrow> slot set" where
  "pde_slots pd i = insert (SPde pd i) (pte_slots pd i 1024)"

lemma env_free_pde_ok:
  assumes I: "page_inv pds fl s" and pd: "pd \<in> pds" and i: "i < UPDX"
  shows "\<exists>s' fl'. env_free_pde pd i s = Ret () s' \<and> page_inv pds fl' s'
    \<and> tgt pds s' = tgt pds s |` (- pde_slots pd i) \<and> shrinks pd pds fl s pds fl' s'"
proof (cases "present (pm s pd i)")
  case False
  then have n: "tgt pds s sl = None" if "sl \<in> pde_slots pd i" for sl
    using that by (auto simp: pde_slots_def pte_slots_def tgt.simps)
  then have "tgt pds s = tgt pds s |` (- pde_slots pd i)" by (auto simp: restrict_map_def fun_eq_iff)
  then show ?thesis using False I shrinks_refl by (auto simp: env_free_pde_def present_def)
next
  case True
  let ?pt = "ppn (pm s pd i)"
  have t: "tgt pds s (SPde pd i) = Some ?pt" using True pd i by (simp add: tgt.simps)
  obtain s1 fl1 where s1: "env_free_ptes pd i ?pt 1024 s = Ret () s1" "page_inv pds fl1 s1"
    "tgt pds s1 = tgt pds s |` (- pte_slots pd i 1024)" "shrinks pd pds fl s pds fl1 s1"
    using env_free_ptes_ok [OF I pd i t, of 1024] by auto
  have t1: "tgt pds s1 (SPde pd i) = Some ?pt"
    using t by (simp add: s1(3) restrict_map_def pte_slots_def image_iff)
  have z: "tgt pds s1 (SPte pd i j) = None" for j
    by (cases "j < 1024") (auto simp: s1(3) restrict_map_def pte_slots_def tgt.simps)
  let ?s2 = "decref_st ?pt (set_pm pd i 0 s1)"
  obtain fl2 where s2: "page_inv pds fl2 ?s2" "tgt pds ?s2 = (tgt pds s1)(SPde pd i := None)"
    "owned pds fl2 ?s2 = owned pds fl1 s1" "\<forall>pd' \<in> pds - {pd}. \<forall>va < UTOP. vpte ?s2 pd' va = vpte s1 pd' va"
    using page_inv_drop_table [OF s1(2) pd i t1 z refl] by blast
  have "tgt pds ?s2 = tgt pds s |` (- pde_slots pd i)"
    unfolding s2(2) s1(3) pde_slots_def by (rule restrict_none)
  moreover have "env_free_pde pd i s = Ret () ?s2"
    using True page_inv_tgt [OF I t] page_inv_tgt [OF s1(2) t1] s1(1)
    by (simp add: env_free_pde_def present_def Let_def KADDR_eq NPTENTRIES_def pa2page_eq page_decref_eq set_pm_def)
  moreover have "shrinks pd pds fl1 s1 pds fl2 ?s2"
  proof -
    have "pd \<in> ran (tgt pds s1)" using pd_ran [OF pd] .
    moreover have "pg_frame s1 ?s2" by (simp add: decref_st_def page_push_def ref_add_def)
    ultimately show ?thesis
      using s2(3,4) unfolding shrinks_def by (auto simp: set_pm_def owned_def)
  qed
  ultimately show ?thesis using s2(1) shrinks_trans [OF s1(4)] by blast
qed

lemma env_free_pdes_ok:
  assumes I: "page_inv pds fl s" and pd: "pd \<in> pds" and n: "n \<le> UPDX"
  shows "\<exists>s' fl'. env_free_pdes pd n s = Ret () s' \<and> page_inv pds fl' s'
    \<and> tgt pds s' = tgt pds s |` (- (\<Union>i<n. pde_slots pd i)) \<and> shrinks pd pds fl s pds fl' s'"
  using n
proof (induction n)
  case 0
  then show ?case using I shrinks_refl by auto
next
  case (Suc n)
  then obtain s1 fl1 where s1: "env_free_pdes pd n s = Ret () s1" "page_inv pds fl1 s1"
    "tgt pds s1 = tgt pds s |` (- (\<Union>i<n. pde_slots pd i))" "shrinks pd pds fl s pds fl1 s1" by auto
  obtain s2 fl2 where s2: "env_free_pde pd n s1 = Ret () s2" "page_inv pds fl2 s2"
    "tgt pds s2 = tgt pds s1 |` (- pde_slots pd n)" "shrinks pd pds fl1 s1 pds fl2 s2"
    using env_free_pde_ok [OF s1(2) pd, of n] Suc.prems by auto
  have "tgt pds s2 = tgt pds s |` (- (\<Union>i<Suc n. pde_slots pd i))"
    unfolding s2(3) s1(3) by (auto simp: lessThan_Suc Int_commute)
  then show ?case using s1(1) s2(1,2) shrinks_trans [OF s1(4) s2(4)] by auto
qed

section \<open>Freeing the directory\<close>

lemma page_inv_drop_pd:
  assumes I: "page_inv pds fl s" and pd: "pd \<in> pds" and z: "\<And>i. tgt pds s (SPde pd i) = None"
    and s': "pages s' = pages (decref_st pd s)" "pm s' = pm s" "npages s' = npages s"
      "page_free_list s' = page_free_list (decref_st pd s)"
  shows "\<exists>fl'. page_inv (pds - {pd}) fl' s' \<and> tgt (pds - {pd}) s' = (tgt pds s)(SPd pd := None)
    \<and> owned (pds - {pd}) fl' s' = owned pds fl s"
proof -
  let ?T = "(tgt pds s)(SPd pd := None)"
  note A = page_inv_acct [OF I] and fin = finite_fibre [OF page_inv_finite [OF I]]
  have t: "tgt pds s (SPd pd) = Some pd" using pd by (simp add: tgt_SPd)
  have np: "\<not> present (pm s pd i)" if "i < UPDX" for i
    using z [of i] pd that by (simp add: tgt.simps split: if_splits)
  have T: "tgt (pds - {pd}) s' = ?T"
  proof
    fix sl show "tgt (pds - {pd}) s' sl = ?T sl"
      using np by (cases sl) (auto simp: tgt.simps s'(2))
  qed
  have P: "ptes_ok (pds - {pd}) s'"
    using page_inv_ptes [OF I] unfolding ptes_ok_def T s'(2) by auto
  have "(\<lambda>r. pp_ref (pages s' r)) = (\<lambda>r. pp_ref (pages s r))(pd := pp_ref (pages s pd) - 1)"
    by (auto simp: s'(1) decref_st_ref)
  then have A': "acct ?T (\<lambda>r. pp_ref (pages s' r)) (npages s')"
    using acct_clear(1) [OF A fin t] s'(3) by simp
  have R: "r \<in> set fl \<Longrightarrow> r \<notin> ran ?T" for r using page_inv_free(3) [OF I, of r] ran_upd_None by metis
  have "free_ok ?T (decref_st pd s) (if pd \<in> ran ?T then fl else pd # fl)"
    by (rule decref_st_free_ok [OF page_inv_free_ok [OF I]])
      (use page_inv_tgt [OF I t] R acct_clear(2) [OF A fin t] in auto)
  then have "free_ok ?T s' (if pd \<in> ran ?T then fl else pd # fl)"
    by (subst free_ok_same [of s' "decref_st pd s"]) (simp_all add: s')
  then have "page_inv (pds - {pd}) (if pd \<in> ran ?T then fl else pd # fl) s'"
    using A' P page_inv_npages [OF I] page_inv_finite [OF I] s'(3) by (intro page_invI) (simp_all add: T)
  moreover have "owned (pds - {pd}) (if pd \<in> ran ?T then fl else pd # fl) s' = owned pds fl s"
    using owned_clear [of "tgt pds s" "SPd pd" pd ?T fl] t by (simp only: owned_def T simp_thms)
  ultimately show ?thesis using T by blast
qed

section \<open>\<open>env_free\<close>\<close>

definition freed :: "kstate \<Rightarrow> Env \<Rightarrow> Env" where
  "freed s v = v\<lparr>env_pgdir := None, env_status := ENV_FREE, env_link := env_free_list s\<rparr>"

lemma env_inv_free:
  assumes E: "env_inv el s" and e: "e \<in> live s" "env_pgdir (envs s e) = Some pd"
    and s': "envs s' = (envs s)(e := freed s (envs s e))" "env_free_list s' = Some e"
  shows "env_inv (e # el) s'" "env_pds s' = env_pds s - {pd}"
proof -
  note D = env_invD [OF E]
  have e': "e < NENV" "env_status (envs s e) \<noteq> ENV_FREE" using e(1) by (auto simp: live_def)
  then have n: "e \<notin> set el" using D(2) by auto
  have L: "live s' = live s - {e}" using live_upd [OF s'(1) e'(1)] by (simp add: freed_def)
  have lk: "elink s' = elink (env_push e s)" "env_free_list s' = env_free_list (env_push e s)"
    using s' by (auto simp: elink_def env_push_def upd_env_def freed_def)
  have l: "lseg (elink s') (env_free_list s') (e # el)"
    unfolding lk by (rule efl.push_list [OF D(1) n])
  have st: "set (e # el) = {e. e < NENV \<and> env_status (envs s' e) = ENV_FREE}"
    using D(2) s'(1) e'(1) by (auto simp: freed_def)
  have ids: "env_id (envs s' x) = 0 \<or> (ENVX (env_id (envs s' x)) = x \<and> unat (env_id (envs s' x)) < 2147483648)"
    if "x < NENV" for x using D(3) [OF that] s'(1) by (auto simp: freed_def)
  have lv: "env_id (envs s' x) \<noteq> 0 \<and> env_pgdir (envs s' x) \<noteq> None" if "x \<in> live s'" for x
    using that D(4) [of x] L s'(1) by auto
  have inj: "inj_on (\<lambda>e. env_pgdir (envs s' e)) (live s')"
    using D(5) unfolding L s'(1) by (auto simp: inj_on_def)
  show "env_inv (e # el) s'" using l st ids lv inj unfolding env_inv_def by blast
  have "env_pgdir (envs s x) \<noteq> Some pd" if "x \<in> live s" "x \<noteq> e" for x
    using D(5) e that by (metis inj_onD)
  then show "env_pds s' = env_pds s - {pd}"
    using e(2) unfolding env_pds_def L s'(1) by auto
qed

lemma with_pgdir_eq: "env_pgdir (envs s e) = Some pd \<Longrightarrow> pgdir_pa e s = Ret (page2pa pd) s"
  by (simp add: pgdir_pa_def)

lemma env_free_run:
  assumes I: "page_inv pds fl s" and pd: "pd \<in> pds" "env_pgdir (envs s e) = Some pd"
  shows "\<exists>s1 fl1. page_inv pds fl1 s1 \<and> shrinks pd pds fl s pds fl1 s1
    \<and> (\<forall>i. tgt pds s1 (SPde pd i) = None)
    \<and> env_free e s = Ret () ((decref_st pd s1)\<lparr>envs := (envs s)(e := freed s (envs s e)), env_free_list := Some e\<rparr>)"
proof -
  let ?s = "if curenv s = Some e then hw (Lcr3 (page2pa (kern_pgdir s))) s else s"
  have f0: "pg_frame s ?s" "pm ?s = pm s" "npages ?s = npages s" "pages ?s = pages s" "page_free_list ?s = page_free_list s"
    by (simp_all add: hw_def pg_frame_def)
  have I': "page_inv pds fl ?s" using I f0 page_inv_cong [of ?s s] by simp
  obtain s1 fl1 where s1: "env_free_pdes pd UPDX ?s = Ret () s1" "page_inv pds fl1 s1"
    "tgt pds s1 = tgt pds ?s |` (- (\<Union>i<UPDX. pde_slots pd i))" "shrinks pd pds fl ?s pds fl1 s1"
    using env_free_pdes_ok [OF I' pd(1), of UPDX] by auto
  have z: "tgt pds s1 (SPde pd i) = None" for i
    by (cases "i < UPDX") (auto simp: s1(3) restrict_map_def pde_slots_def tgt.simps)
  have S: "shrinks pd pds fl s pds fl1 s1"
    using s1(4) f0 pg_frame_trans [OF f0(1)] vpte_cong [OF f0(2)] tgt_cong [OF f0(2)]
    unfolding shrinks_def owned_def by simp
  then have e1: "envs s1 = envs s" "env_free_list s1 = env_free_list s" using pg_frame_fields by (auto simp: shrinks_def)
  have "tgt pds s1 (SPd pd) = Some pd" using pd(1) by (simp add: tgt_SPd)
  note p = page_inv_tgt [OF s1(2) this]
  have n: "npages s1 \<le> 1048576" by (rule page_inv_npages [OF s1(2)])
  have w: "env_pgdir (envs ?s e) = Some pd" using pd(2) by (simp add: hw_def)
  let ?u = "upd_env e (env_pgdir_update (\<lambda>_. None)) s1"
  have a: "pa2page (page2pa pd) ?u = Ret pd ?u"
    using p(1) n by (simp add: pa2page_def upd_env_def PGNUM_page2pa)
  have d: "page_decref pd ?u = Ret () (decref_st pd ?u)"
    using p(3) by (intro page_decref_eq) (simp add: upd_env_def)
  have fin: "(upd_env e (\<lambda>v. v\<lparr>env_status := ENV_FREE, env_link := env_free_list (decref_st pd ?u)\<rparr>)
        (decref_st pd ?u))\<lparr>env_free_list := Some e\<rparr>
      = (decref_st pd s1)\<lparr>envs := (envs s)(e := freed s (envs s e)), env_free_list := Some e\<rparr>"
    using e1 by (simp add: decref_st_def page_push_def ref_add_def upd_env_def upd_page_def freed_def)
  have "env_free e s = Ret () ((decref_st pd s1)\<lparr>envs := (envs s)(e := freed s (envs s e)), env_free_list := Some e\<rparr>)"
    unfolding env_free_def Let_def with_pgdir_Some [OF w] UPDX_UTOP s1(1) kbind.simps
      with_pgdir_eq [of s1 e pd, unfolded e1, OF pd(2)] a d fin ..
  then show ?thesis using s1(2) S z by blast
qed

lemma env_free_full:
  assumes K: "kinv fl el s" and e: "e \<in> live s" and pd: "env_pgdir (envs s e) = Some pd"
  shows "\<exists>s' fl'. env_free e s = Ret () s' \<and> kinv fl' (e # el) s' \<and> env_pds s' = env_pds s - {pd}
    \<and> envs s' = (envs s)(e := freed s (envs s e)) \<and> owned (env_pds s') fl' s' = owned (env_pds s) fl s
    \<and> cpus s' = cpus s \<and> cpunum s' = cpunum s \<and> kernel_lock s' = kernel_lock s \<and> kern_pgdir s' = kern_pgdir s
    \<and> (\<forall>pd' \<in> env_pds s'. \<forall>va < UTOP. vpte s' pd' va = vpte s pd' va)"
proof -
  note I = kinvD(1) [OF K] and E = kinvD(2) [OF K]
  have pds: "pd \<in> env_pds s" using e pd by (auto simp: env_pds_def)
  obtain s1 fl1 where s1: "page_inv (env_pds s) fl1 s1" "shrinks pd (env_pds s) fl s (env_pds s) fl1 s1"
    "\<And>i. tgt (env_pds s) s1 (SPde pd i) = None"
    and r: "env_free e s = Ret () ((decref_st pd s1)\<lparr>envs := (envs s)(e := freed s (envs s e)), env_free_list := Some e\<rparr>)"
    using env_free_run [OF I pds pd] by blast
  let ?s = "(decref_st pd s1)\<lparr>envs := (envs s)(e := freed s (envs s e)), env_free_list := Some e\<rparr>"
  note F = env_inv_free [OF E e pd, of ?s]
  have pds': "env_pds ?s = env_pds s - {pd}" by (rule F(2)) simp_all
  obtain fl' where P: "page_inv (env_pds s - {pd}) fl' ?s"
    "owned (env_pds s - {pd}) fl' ?s = owned (env_pds s) fl1 s1"
    using page_inv_drop_pd [OF s1(1) pds s1(3), of ?s] by auto
  have o: "owned (env_pds s - {pd}) fl' ?s = owned (env_pds s) fl s"
    using P(2) s1(2) by (simp add: shrinks_def)
  have k0: "kern_pgdir s \<notin> owned (env_pds s) fl s" using kinvD(3) [OF K] by (auto simp: kern_ok_def owned_def)
  have k: "kern_pgdir ?s = kern_pgdir s" using s1(2) pg_frame_fields(6) by (auto simp: shrinks_def)
  have "kern_ok fl' ?s"
    unfolding kern_ok_def k pds'
    using o k0 s1(2) kinvD(3) [OF K] by (auto simp: kern_ok_def shrinks_def owned_def)
  then have Ki: "kinv fl' (e # el) ?s" using P(1) F(1) by (simp add: kinv_def pds')
  have "vpte ?s pd' va = vpte s pd' va" if "pd' \<in> env_pds ?s" "va < UTOP" for pd' va
    using s1(2) that vpte_cong [of ?s s1] unfolding pds' shrinks_def by simp
  moreover have "cpus ?s = cpus s" "cpunum ?s = cpunum s" "kernel_lock ?s = kernel_lock s"
    using s1(2) pg_frame_fields [of s s1] by (simp_all add: shrinks_def decref_st_def page_push_def ref_add_def upd_page_def)
  ultimately show ?thesis using r Ki pds' o k by (intro exI [of _ ?s] exI [of _ fl']) simp
qed

text \<open>
  C7: \<open>env_free\<close> of a live environment never panics: afterwards the environment is free and first on
  the free list, the kernel invariant holds (so the page accounting is right for the remaining
  environments), no page is leaked (each page that was free or referred to is free or still
  referred to), and the address spaces of the other environments are unchanged.
\<close>

theorem env_free_correct:
  assumes "kinv fl el s" and "e \<in> live s" and "env_pgdir (envs s e) = Some pd"
  shows "\<exists>s' fl'. env_free e s = Ret () s' \<and> kinv fl' (e # el) s' \<and> env_pds s' = env_pds s - {pd}
    \<and> env_status (envs s' e) = ENV_FREE \<and> (\<forall>e'. e' \<noteq> e \<longrightarrow> envs s' e' = envs s e')
    \<and> set fl' \<union> ran (tgt (env_pds s') s') = set fl \<union> ran (tgt (env_pds s) s)
    \<and> (\<forall>pd' \<in> env_pds s'. \<forall>va < UTOP. vpte s' pd' va = vpte s pd' va)"
  using env_free_full [OF assms] by (fastforce simp: owned_def freed_def)

theorem env_free_correct_witness:
  "\<exists>s'. env_free 0 ks0 = Ret () s' \<and> env_status (envs s' 0) = ENV_FREE \<and> env_pds s' = {}"
  using env_free_correct [OF kinv_ks0, of 0 2] by (auto simp: live_ks0 env_pds_ks0 env0_def)

end
