(* ===== verification/Sched.thy ===== *)
theory Sched
  imports EnvFree
begin

text \<open>
  The round-robin scheduler (lab/kern/sched.c), and the two operations that call it: \<open>env_destroy\<close>
  (lab/kern/env.c) and \<open>user_mem_assert\<close> (lab/kern/pmap.c). The kernel monitor, which \<open>sched_halt\<close>
  enters for good when nothing is left to run, is the exit \<open>Monitor\<close>.
\<close>

text \<open>\<open>n\<close> rounds of the loop over \<open>i\<close> are left.\<close>

primrec sched_loop :: "nat \<Rightarrow> nat \<Rightarrow> kstate \<Rightarrow> unit kres" where
  "sched_loop start 0 s = Ret () s"
| "sched_loop start (Suc n) s =
     (let j = (start + (NENV - Suc n)) mod NENV
      in if env_status (envs s j) = ENV_RUNNABLE
         then kbind (env_run j s) (\<lambda>_ s. sched_loop start n s)
         else sched_loop start n s)"

definition sched_halt :: "kstate \<Rightarrow> unit kres" where
  "sched_halt s =
     (if \<forall>i \<in> {..<NENV}. env_status (envs s i) \<notin> {ENV_RUNNABLE, ENV_RUNNING, ENV_DYING}
      then Exit Monitor s
      else let s = set_curenv None s;
               s = hw (Lcr3 (page2pa (kern_pgdir s))) s;
               s = upd_cpu (cpu_status_update (\<lambda>_. CPU_HALTED)) s
           in kbind (unlock_kernel s) (\<lambda>_ s. Exit Halted s))"

definition sched_yield :: "kstate \<Rightarrow> unit kres" where
  "sched_yield s =
     (let start = (case curenv s of None \<Rightarrow> 0 | Some c \<Rightarrow> ENVX (env_id (envs s c)) + 1)
      in kbind (sched_loop start NENV s) (\<lambda>_ s.
           case curenv s of
             None \<Rightarrow> sched_halt s
           | Some c \<Rightarrow> if env_status (envs s c) = ENV_RUNNING
                      then kbind (env_run c s) (\<lambda>_ s. sched_halt s)
                      else sched_halt s))"

definition env_destroy :: "nat \<Rightarrow> kstate \<Rightarrow> unit kres" where
  "env_destroy e s =
     (if env_status (envs s e) = ENV_RUNNING \<and> curenv s \<noteq> Some e
      then Ret () (upd_env e (env_status_update (\<lambda>_. ENV_DYING)) s)
      else kbind (env_free e s) (\<lambda>_ s.
             if curenv s = Some e then sched_yield (set_curenv None s) else Ret () s))"

definition user_mem_assert :: "nat \<Rightarrow> u32 \<Rightarrow> u32 \<Rightarrow> u32 \<Rightarrow> kstate \<Rightarrow> unit kres" where
  "user_mem_assert env va len perm s =
     kbind (user_mem_check env va len (perm OR PTE_U) s) (\<lambda>r s.
       if r < 0 then env_destroy env s else Ret () s)"

section \<open>The context switch\<close>

definition holds_lock :: "kstate \<Rightarrow> bool" where
  "holds_lock s \<longleftrightarrow> holding (kernel_lock s) (cpunum s)"

text \<open>The state in which \<open>env_run\<close> enters environment \<open>e\<close> with directory \<open>pd\<close>.\<close>

definition requeue :: "kstate \<Rightarrow> nat \<Rightarrow> Env" where
  "requeue s = (case curenv s of
       None \<Rightarrow> envs s
     | Some c \<Rightarrow> if env_status (envs s c) = ENV_RUNNING
                then (envs s)(c := (envs s c)\<lparr>env_status := ENV_RUNNABLE\<rparr>) else envs s)"

definition run_st :: "nat \<Rightarrow> nat \<Rightarrow> kstate \<Rightarrow> kstate" where
  "run_st e pd s =
     (set_curenv (Some e) s)
       \<lparr>envs := (requeue s)(e := (requeue s e)\<lparr>env_status := ENV_RUNNING, env_runs := env_runs (envs s e) + 1,
                                             env_cpunum := cpunum s\<rparr>),
        hwlog := Lcr3 (page2pa pd) # hwlog s,
        kernel_lock := (kernel_lock s)\<lparr>lk_cpu := None, locked := 0\<rparr>\<rparr>"

lemma env_run_eq:
  assumes l: "holds_lock s" and pd: "env_pgdir (envs s e) = Some pd"
  shows "env_run e s = Exit (Run e) (run_st e pd s)"
proof -
  let ?s1 = "case curenv s of None \<Rightarrow> s
      | Some c \<Rightarrow> if env_status (envs s c) = ENV_RUNNING
                 then upd_env c (env_status_update (\<lambda>_. ENV_RUNNABLE)) s else s"
  have s1: "?s1 = s\<lparr>envs := requeue s\<rparr>"
    by (auto simp: requeue_def upd_env_def split: option.split)
  have r: "env_pgdir (requeue s e) = Some pd" "env_runs (requeue s e) = env_runs (envs s e)"
    using pd by (auto simp: requeue_def split: option.split)
  show ?thesis
    using l r unfolding env_run_def s1 Let_def
    by (simp add: pgdir_pa_def upd_env_def set_curenv_def upd_cpu_def unlock_kernel_def hw_def
        holds_lock_def env_pop_tf_def with_curenv_def curenv_def run_st_def)
qed

section \<open>Which environment is chosen\<close>

definition runnable :: "kstate \<Rightarrow> nat \<Rightarrow> bool" where
  "runnable s e \<longleftrightarrow> env_status (envs s e) = ENV_RUNNABLE"

definition sched_start :: "kstate \<Rightarrow> nat" where
  "sched_start s = (case curenv s of None \<Rightarrow> 0 | Some c \<Rightarrow> ENVX (env_id (envs s c)) + 1)"

lemma sched_loop_eq:
  assumes l: "holds_lock s" and pd: "\<And>e. e < NENV \<Longrightarrow> runnable s e \<Longrightarrow> env_pgdir (envs s e) \<noteq> None" and n: "n \<le> NENV"
  shows "sched_loop start n s =
    (case find (\<lambda>i. runnable s ((start + i) mod NENV)) [NENV - n..<NENV] of
       None \<Rightarrow> Ret () s
     | Some i \<Rightarrow> let j = (start + i) mod NENV in Exit (Run j) (run_st j (the (env_pgdir (envs s j))) s))"
  using n
proof (induction n)
  case (Suc n)
  let ?j = "(start + (NENV - Suc n)) mod NENV"
  have j: "?j < NENV" by (simp add: NENV_def)
  have u: "[NENV - Suc n..<NENV] = (NENV - Suc n) # [NENV - n..<NENV]"
    using Suc.prems by (simp add: upt_conv_Cons Suc_diff_Suc)
  show ?case
  proof (cases "runnable s ?j")
    case True
    with pd j obtain pd' where "env_pgdir (envs s ?j) = Some pd'" by blast
    with True show ?thesis
      using env_run_eq [OF l] unfolding u by (simp add: runnable_def Let_def)
  next
    case False
    then have "sched_loop start (Suc n) s = sched_loop start n s" by (simp add: runnable_def Let_def)
    with False Suc show ?thesis unfolding u by simp
  qed
qed simp

text \<open>How many slots after \<open>a\<close>, in circular order, slot \<open>r\<close> comes.\<close>

definition ahead :: "nat \<Rightarrow> nat \<Rightarrow> nat" where
  "ahead a r = (r + NENV - a mod NENV) mod NENV"

lemma mod_NENV: "a mod NENV < NENV"
  by (simp add: NENV_def)

lemma ahead_add:
  assumes d: "d < NENV"
  shows "ahead a ((a + d) mod NENV) = d"
proof -
  let ?m = "a mod NENV"
  have e: "(a + d) mod NENV = (?m + d) mod NENV" by (rule mod_add_left_eq [symmetric])
  show ?thesis
  proof (cases "?m + d < NENV")
    case True
    then have "(a + d) mod NENV + NENV - ?m = d + NENV" unfolding e by simp
    then show ?thesis using d by (simp add: ahead_def)
  next
    case False
    have "(m + d) mod NENV = m + d - NENV" if "m < NENV" "\<not> m + d < NENV" for m
      using that d by (simp add: mod_if)
    then have "(a + d) mod NENV = ?m + d - NENV" unfolding e using mod_NENV False .
    then have "(a + d) mod NENV + NENV - ?m = d" using False by simp
    then show ?thesis using d by (simp add: ahead_def)
  qed
qed

lemma ahead_mod: "a mod NENV = b mod NENV \<Longrightarrow> ahead a r = ahead b r"
  by (simp add: ahead_def)

lemma ahead_back: "r < NENV \<Longrightarrow> (a + ahead a r) mod NENV = r"
proof -
  assume r: "r < NENV"
  have "(a + ahead a r) mod NENV = (a + (r + NENV - a mod NENV)) mod NENV"
    unfolding ahead_def by (rule mod_add_right_eq)
  also have "\<dots> = (a mod NENV + (r + NENV - a mod NENV)) mod NENV" by (rule mod_add_left_eq [symmetric])
  also have "a mod NENV + (r + NENV - a mod NENV) = r + NENV" using mod_NENV [of a] by linarith
  finally show ?thesis using r by simp
qed

lemma find_first: "find P [0..<n] = Some i \<longleftrightarrow> i < n \<and> P i \<and> (\<forall>k < i. \<not> P k)"
proof -
  have "find P [0..<n] = Some i \<longleftrightarrow> (\<exists>k < length [0..<n]. P ([0..<n] ! k) \<and> i = [0..<n] ! k \<and> (\<forall>j<k. \<not> P ([0..<n] ! j)))"
    by (rule find_Some_iff)
  then show ?thesis by auto
qed

lemma runnable_live: "kinv fl el s \<Longrightarrow> e < NENV \<Longrightarrow> runnable s e \<Longrightarrow> env_pgdir (envs s e) \<noteq> None"
  using env_invD(4) [OF kinvD(2), of fl el s e] by (auto simp: live_def runnable_def)

lemma sched_yield_runnable:
  assumes K: "kinv fl el s" and l: "holds_lock s" and r: "r < NENV" "runnable s r"
  shows "\<exists>i < NENV. let j = (sched_start s + i) mod NENV in
       runnable s j \<and> (\<forall>k < i. \<not> runnable s ((sched_start s + k) mod NENV))
     \<and> sched_yield s = Exit (Run j) (run_st j (the (env_pgdir (envs s j))) s)"
proof -
  let ?P = "\<lambda>i. runnable s ((sched_start s + i) mod NENV)"
  have "\<exists>i < NENV. ?P i"
    using ahead_back [OF r(1), of "sched_start s"] r(2) mod_NENV
    by (intro exI [of _ "ahead (sched_start s) r"]) (simp add: ahead_def)
  then have "find ?P [0..<NENV] \<noteq> None" by (auto simp: find_None_iff)
  then obtain i where i: "find ?P [0..<NENV] = Some i" by blast
  then have "sched_loop (sched_start s) NENV s = (let j = (sched_start s + i) mod NENV in
      Exit (Run j) (run_st j (the (env_pgdir (envs s j))) s))"
    using sched_loop_eq [OF l runnable_live [OF K], of NENV "sched_start s"] by simp
  then show ?thesis
    using i [unfolded find_first]
    by (intro exI [of _ i]) (simp add: sched_yield_def sched_start_def [symmetric] Let_def)
qed

text \<open>
  C19: the scheduler is round robin: when some environment is runnable, \<open>sched_yield\<close> enters the
  first runnable one in circular order after the environment that ran last on this CPU. It
  is now running with its address space loaded, the previous one is runnable again if it was
  running, no other environment changes, and the kernel lock is released.
\<close>

theorem sched_yield_round_robin:
  assumes "kinv fl el s" and "holds_lock s" and "r < NENV" and "runnable s r"
  shows "\<exists>i < NENV. let j = (sched_start s + i) mod NENV in
       runnable s j \<and> (\<forall>k < i. \<not> runnable s ((sched_start s + k) mod NENV))
     \<and> (\<exists>s' pd. sched_yield s = Exit (Run j) s' \<and> curenv s' = Some j
          \<and> env_pgdir (envs s j) = Some pd \<and> hwlog s' = Lcr3 (page2pa pd) # hwlog s
          \<and> env_status (envs s' j) = ENV_RUNNING \<and> locked (kernel_lock s') = 0
          \<and> (\<forall>e. e \<noteq> j \<longrightarrow> envs s' e =
               (if curenv s = Some e \<and> env_status (envs s e) = ENV_RUNNING
                then (envs s e)\<lparr>env_status := ENV_RUNNABLE\<rparr> else envs s e)))"
proof -
  obtain i where i: "i < NENV" and R: "runnable s ((sched_start s + i) mod NENV)"
    "\<forall>k < i. \<not> runnable s ((sched_start s + k) mod NENV)"
    "sched_yield s = Exit (Run ((sched_start s + i) mod NENV))
       (run_st ((sched_start s + i) mod NENV) (the (env_pgdir (envs s ((sched_start s + i) mod NENV)))) s)"
    using sched_yield_runnable [OF assms] by (auto simp: Let_def)
  let ?j = "(sched_start s + i) mod NENV"
  have "?j < NENV" by (simp add: NENV_def)
  then obtain pd where pd: "env_pgdir (envs s ?j) = Some pd"
    using runnable_live [OF assms(1) _ R(1)] by blast
  let ?s = "run_st ?j pd s"
  have "curenv ?s = Some ?j" "hwlog ?s = Lcr3 (page2pa pd) # hwlog s" "env_status (envs ?s ?j) = ENV_RUNNING"
    "locked (kernel_lock ?s) = 0"
    by (simp_all add: run_st_def curenv_def set_curenv_def upd_cpu_def)
  moreover have "\<forall>e. e \<noteq> ?j \<longrightarrow> envs ?s e =
      (if curenv s = Some e \<and> env_status (envs s e) = ENV_RUNNING
       then (envs s e)\<lparr>env_status := ENV_RUNNABLE\<rparr> else envs s e)"
    by (auto simp: run_st_def requeue_def split: option.split)
  ultimately show ?thesis
    using i R pd unfolding Let_def by (intro exI [of _ i]) simp
qed

lemma sched_yield_idle:
  assumes K: "kinv fl el s" and l: "holds_lock s" and n: "\<And>e. e < NENV \<Longrightarrow> \<not> runnable s e"
  shows "sched_yield s = (case curenv s of None \<Rightarrow> sched_halt s
     | Some c \<Rightarrow> if env_status (envs s c) = ENV_RUNNING then kbind (env_run c s) (\<lambda>_ s. sched_halt s) else sched_halt s)"
proof -
  have "find (\<lambda>i. runnable s ((sched_start s + i) mod NENV)) [0..<NENV] = None"
    using n by (simp add: find_None_iff NENV_def)
  then have "sched_loop (sched_start s) NENV s = Ret () s"
    using sched_loop_eq [OF l runnable_live [OF K], of NENV "sched_start s"] by simp
  then show ?thesis by (simp add: sched_yield_def sched_start_def)
qed

text \<open>
  when nothing is runnable, \<open>sched_yield\<close> goes on with the current environment if it is still
  running; otherwise it halts the CPU with the lock released and no current environment when
  some environment is still running or dying elsewhere, and enters the monitor when none is.
\<close>

theorem sched_yield_idle_correct:
  assumes "kinv fl el s" and "holds_lock s" and "\<forall>e < NENV. \<not> runnable s e"
    and "\<forall>c. curenv s = Some c \<longrightarrow> c < NENV"
  shows "if \<exists>c. curenv s = Some c \<and> env_status (envs s c) = ENV_RUNNING
     then \<exists>c s'. curenv s = Some c \<and> sched_yield s = Exit (Run c) s' \<and> env_status (envs s' c) = ENV_RUNNING
     else if \<exists>e < NENV. env_status (envs s e) \<in> {ENV_RUNNING, ENV_DYING}
     then \<exists>s'. sched_yield s = Exit Halted s' \<and> curenv s' = None \<and> locked (kernel_lock s') = 0
        \<and> cpu_status (cpus s' (cpunum s')) = CPU_HALTED \<and> envs s' = envs s
     else sched_yield s = Exit Monitor s"
proof -
  have n: "\<And>e. e < NENV \<Longrightarrow> \<not> runnable s e" using assms(3) by blast
  note Y = sched_yield_idle [OF assms(1,2) n]
  show ?thesis
  proof (cases "\<exists>c. curenv s = Some c \<and> env_status (envs s c) = ENV_RUNNING")
    case True
    then obtain c where c: "curenv s = Some c" "env_status (envs s c) = ENV_RUNNING" by blast
    then have "c \<in> live s" using assms(4) by (simp add: live_def)
    then obtain pd where "env_pgdir (envs s c) = Some pd" using env_invD(4) [OF kinvD(2) [OF assms(1)]] by blast
    then have "env_run c s = Exit (Run c) (run_st c pd s)" by (rule env_run_eq [OF assms(2)])
    then show ?thesis using c True Y by (simp add: run_st_def)
  next
    case False
    then have y: "sched_yield s = sched_halt s" using Y by (auto split: option.splits)
    have "(\<forall>i\<in>{..<NENV}. env_status (envs s i) \<notin> {ENV_RUNNABLE, ENV_RUNNING, ENV_DYING}) \<longleftrightarrow>
        \<not> (\<exists>e < NENV. env_status (envs s e) \<in> {ENV_RUNNING, ENV_DYING})"
      using n by (auto simp: runnable_def)
    then have h: "sched_halt s = (if \<exists>e < NENV. env_status (envs s e) \<in> {ENV_RUNNING, ENV_DYING}
        then (let s = set_curenv None s; s = hw (Lcr3 (page2pa (kern_pgdir s))) s;
                  s = upd_cpu (cpu_status_update (\<lambda>_. CPU_HALTED)) s
              in kbind (unlock_kernel s) (\<lambda>_ s. Exit Halted s))
        else Exit Monitor s)"
      unfolding sched_halt_def by argo
    show ?thesis
      using assms(2) unfolding y h if_not_P [OF False]
      by (simp add: Let_def unlock_kernel_def set_curenv_def upd_cpu_def hw_def holds_lock_def curenv_def)
  qed
qed

section \<open>Fairness\<close>


section \<open>Witnesses\<close>

lemma runnable_ks1: "runnable ks1 e \<longleftrightarrow> e = 1"
  by (auto simp: runnable_def ks1_def alloc_st_fields env0_def new_env_def)

lemma lock_ks1: "holds_lock ks1" and lock_ks0: "holds_lock ks0"
  by (simp_all add: holds_lock_def holding_def)

lemma start_ks1: "sched_start ks1 = 1"
  by (simp add: sched_start_def env0_def ENVX_def)

theorem sched_yield_round_robin_witness:
  "\<exists>s'. sched_yield ks1 = Exit (Run 1) s' \<and> curenv s' = Some 1 \<and> env_status (envs s' 0) = ENV_RUNNABLE"
proof -
  obtain i s' where i: "i < NENV" "runnable ks1 ((1 + i) mod NENV)"
    "sched_yield ks1 = Exit (Run ((1 + i) mod NENV)) s'" "curenv s' = Some ((1 + i) mod NENV)"
    "\<forall>e. e \<noteq> (1 + i) mod NENV \<longrightarrow> envs s' e = (if curenv ks1 = Some e \<and> env_status (envs ks1 e) = ENV_RUNNING
       then (envs ks1 e)\<lparr>env_status := ENV_RUNNABLE\<rparr> else envs ks1 e)"
    using sched_yield_round_robin [OF kinv_ks1 lock_ks1, of 1] unfolding start_ks1
    by (auto simp: Let_def runnable_ks1 NENV_def)
  then show ?thesis by (auto simp: runnable_ks1 env0_def)
qed

theorem sched_yield_idle_correct_witness: "\<exists>s'. sched_yield ks0 = Exit (Run 0) s'"
proof -
  have "\<not> runnable ks0 e" for e by (simp add: runnable_def env0_def)
  then show ?thesis
    using sched_yield_idle_correct [OF kinv_ks0 lock_ks0] by (auto simp: NENV_def env0_def)
qed


end
