(* ===== verification/KInv.thy ===== *)
theory KInv
  imports Sched
begin

text \<open>
  The kernel invariant under the operations that system calls are made of: page operations on the
  address space of a live environment, changes of environment fields, and the scheduler.
\<close>

section \<open>Page operations\<close>

lemma page_insert_step:
  assumes I: "page_inv pds fl s" and pd: "pd \<in> pds" and va: "va < UTOP"
    and perm: "unat perm < 4096" and M: "mappable pds fl s pp"
  shows "(fl = [] \<and> page_insert pd pp va perm s = Ret (- E_NO_MEM) s) \<or>
    (\<exists>s' fl'. page_insert pd pp va perm s = Ret 0 s' \<and> page_inv pds fl' s'
       \<and> owned pds fl' s' \<subseteq> insert pp (owned pds fl s)
       \<and> (\<forall>r. r \<notin> owned pds fl s \<longrightarrow> pm s' r = pm s r)
       \<and> (\<forall>r. r \<notin> set fl \<and> \<not> (\<exists>sl. is_table sl \<and> tgt pds s sl = Some r) \<longrightarrow> pm s' r = pm s r)
       \<and> as_eq pds (vpte s') (as_upd pd va (Some (page2pa pp OR perm OR PTE_P)) (vpte s)))"
  using page_insert_inv [OF I pd va M, of perm]
proof (elim disjE exE conjE)
  fix s1 fl1 pt
  let ?i = "unat (PDX va)" and ?s = "insert_st pd pp va perm pt s1"
  assume r: "page_insert pd pp va perm s = Ret 0 ?s"
    and I1: "page_inv pds fl1 s1" and M1: "mappable pds fl1 s1 pp" and w: "walk_made pd va fl s s1"
    and fl1: "set fl1 \<subseteq> set fl" and pt: "pt \<notin> set fl \<longrightarrow> tgt pds s (SPde pd ?i) = Some pt"
    and T1: "tgt pds s1 = (tgt pds s)(SPde pd ?i := Some pt)"
  have t1: "tgt pds s1 (SPde pd ?i) = Some pt" by (simp add: T1)
  obtain fl' where fl': "page_inv pds fl' ?s" "set fl' \<subseteq> set fl1 \<union> ran (tgt pds s1)"
    using insert_st_inv(1) [OF I1 t1 perm M1] by blast
  have T: "tgt pds ?s = (tgt pds s1)(SPte pd ?i (unat (PTX va)) := Some pp)"
    by (rule insert_st_inv(2) [OF I1 t1 perm M1])
  have pto: "pt \<in> owned pds fl s" using pt by (auto simp: owned_def intro: ranI)
  have r1: "ran (tgt pds s1) \<subseteq> owned pds fl s" using pto by (auto simp: T1 owned_def dest!: ran_upd_Some)
  then have o: "owned pds fl' ?s \<subseteq> insert pp (owned pds fl s)"
    using fl' fl1 by (auto simp: owned_def T dest!: ran_upd_Some)
  have pm2: "pm ?s r = pm s1 r" if "r \<noteq> pt" "r \<noteq> pd" for r
    using that by (auto simp: insert_st_def Let_def set_pm_def)
  have pm1: "pm s1 r = pm s r" if "r \<notin> set fl" "r \<noteq> pd" for r
    using w that by (auto simp: walk_made_def walk_new_def st_defs)
  have pmt: "pm ?s r = pm s r" if "r \<notin> set fl" "\<not> (\<exists>sl. is_table sl \<and> tgt pds s sl = Some r)" for r
  proof -
    have "r \<noteq> pd" using that(2) pd tgt_SPd [of pds s pd] by (metis is_table.simps(2))
    moreover have "r \<noteq> pt" using that pt by (metis is_table.simps(3))
    ultimately show ?thesis using pm1 [OF that(1)] pm2 by simp
  qed
  moreover have "pm ?s r = pm s r" if "r \<notin> owned pds fl s" for r
    using that by (intro pmt) (auto simp: owned_def ran_def)
  moreover have "as_eq pds (vpte ?s) (as_upd pd va (Some (page2pa pp OR perm OR PTE_P)) (vpte s))"
    using page_insert_full [OF I pd va perm M] r by (auto simp: E_NO_MEM_def)
  ultimately show ?thesis using r fl'(1) o by blast
qed simp

lemma kinv_frame:
  assumes K: "kinv fl el s" and P: "page_inv (env_pds s) fl' s'" and F: "pg_frame s s'"
    and o: "kern_pgdir s \<notin> owned (env_pds s) fl' s'" and k: "pm s' (kern_pgdir s) = pm s (kern_pgdir s)"
  shows "kinv fl' el s'"
proof -
  note f = pg_frame_fields [OF F]
  have "env_pds s' = env_pds s" "env_inv el s' = env_inv el s"
    by (simp_all add: env_pds_def env_inv_def live_def elink_def [abs_def] f)
  then show ?thesis
    using K P o k f by (simp add: kinv_def kern_ok_def owned_def)
qed

lemma kern_not_owned: "kinv fl el s \<Longrightarrow> kern_pgdir s \<notin> owned (env_pds s) fl s"
  by (auto simp: kinv_def kern_ok_def owned_def)

lemma kinv_page_insert:
  assumes K: "kinv fl el s" and pd: "pd \<in> env_pds s" and va: "va < UTOP" and perm: "unat perm < 4096"
    and M: "mappable (env_pds s) fl s pp" and n: "pp \<noteq> kern_pgdir s"
  shows "(fl = [] \<and> page_insert pd pp va perm s = Ret (- E_NO_MEM) s) \<or>
    (\<exists>s' fl'. page_insert pd pp va perm s = Ret 0 s' \<and> kinv fl' el s' \<and> pg_frame s s'
       \<and> as_eq (env_pds s) (vpte s') (as_upd pd va (Some (page2pa pp OR perm OR PTE_P)) (vpte s))
       \<and> (\<forall>r. r \<notin> set fl \<and> \<not> (\<exists>sl. is_table sl \<and> tgt (env_pds s) s sl = Some r) \<longrightarrow> pm s' r = pm s r))"
  using page_insert_step [OF kinvD(1) [OF K] pd va perm M]
proof (elim disjE exE conjE)
  fix s' fl'
  assume r: "page_insert pd pp va perm s = Ret 0 s'" and P: "page_inv (env_pds s) fl' s'"
    and o: "owned (env_pds s) fl' s' \<subseteq> insert pp (owned (env_pds s) fl s)"
    and k: "\<forall>r. r \<notin> owned (env_pds s) fl s \<longrightarrow> pm s' r = pm s r"
    and A: "as_eq (env_pds s) (vpte s') (as_upd pd va (Some (page2pa pp OR perm OR PTE_P)) (vpte s))"
    and t: "\<forall>r. r \<notin> set fl \<and> \<not> (\<exists>sl. is_table sl \<and> tgt (env_pds s) s sl = Some r) \<longrightarrow> pm s' r = pm s r"
  have "pg_frame s s'" by (rule frame_Ret(6) [OF r])
  moreover have "kinv fl' el s'"
    using kern_not_owned [OF K] o k n by (intro kinv_frame [OF K P \<open>pg_frame s s'\<close>]) auto
  ultimately show ?thesis using r A t by blast
qed simp

lemma kinv_page_remove:
  assumes K: "kinv fl el s" and pd: "pd \<in> env_pds s" and va: "va < UTOP"
  shows "\<exists>s' fl'. page_remove pd va s = Ret () s' \<and> kinv fl' el s' \<and> pg_frame s s'
       \<and> as_eq (env_pds s) (vpte s') (as_upd pd va None (vpte s))"
proof -
  obtain s' fl' where r: "page_remove pd va s = Ret () s'" and P: "page_inv (env_pds s) fl' s'"
    and S: "shrinks pd (env_pds s) fl s (env_pds s) fl' s'"
    using page_remove_step [OF kinvD(1) [OF K] pd va] by blast
  have "as_eq (env_pds s) (vpte s') (as_upd pd va None (vpte s))"
    using page_remove_full [OF kinvD(1) [OF K] pd va] r by auto
  moreover have "kinv fl' el s'"
    using S kern_not_owned [OF K] by (intro kinv_frame [OF K P]) (auto simp: shrinks_def)
  ultimately show ?thesis using r S by (auto simp: shrinks_def)
qed

lemma kinv_page_alloc:
  assumes K: "kinv (p # fl) el s"
  shows "page_alloc 1 s = Ret (Some p) (memset_page p 0 (page_pop p s))"
    and "kinv fl el (memset_page p 0 (page_pop p s))"
    and "mappable (env_pds s) fl (memset_page p 0 (page_pop p s)) p" and "p \<noteq> kern_pgdir s"
    and "vpte (memset_page p 0 (page_pop p s)) pd va = vpte s pd va \<or> pd \<notin> env_pds s \<or> \<not> va < UTOP"
proof -
  let ?s = "memset_page p 0 (page_pop p s)"
  note A = page_alloc_full [OF kinvD(1) [OF K], of 1]
  show "page_alloc 1 s = Ret (Some p) ?s" "mappable (env_pds s) fl ?s p"
    using A(1,4) by (simp_all add: ALLOC_ZERO_def)
  have I: "page_inv (env_pds s) fl ?s" and T: "tgt (env_pds s) ?s = tgt (env_pds s) s"
    using A(2,3) by (simp_all add: ALLOC_ZERO_def)
  show n: "p \<noteq> kern_pgdir s" using kern_not_owned [OF K] by (auto simp: owned_def)
  have F: "pg_frame s ?s" by (simp add: page_pop_def)
  show "kinv fl el ?s"
  proof (rule kinv_frame [OF K I F])
    show "kern_pgdir s \<notin> owned (env_pds s) fl ?s"
      using kern_not_owned [OF K] unfolding owned_def T by auto
    show "pm ?s (kern_pgdir s) = pm s (kern_pgdir s)" using n by (simp add: st_defs)
  qed
  show "vpte ?s pd va = vpte s pd va \<or> pd \<notin> env_pds s \<or> \<not> va < UTOP"
  proof -
    have "vpte ?s pd va = vpte s pd va" if h: "va < UTOP" "pd \<in> env_pds s"
    proof -
      have np: "p \<notin> ran (tgt (env_pds s) s)" using page_inv_free(3) [OF kinvD(1) [OF K], of p] by simp
      have "pt \<noteq> p" if "tgt (env_pds s) s (SPde pd (unat (PDX va))) = Some pt" for pt
        using np that by (metis ranI)
      then show ?thesis
        using vpte_tgt [OF h(2,1), of ?s] vpte_tgt [OF h(2,1), of s] unfolding T
        by (auto simp: st_defs split: option.split)
    qed
    then show ?thesis by blast
  qed
qed

section \<open>Environment fields\<close>

text \<open>What the invariant depends on: the memory, and of each environment its id, link, directory and whether it is free.\<close>

definition env_same :: "Env \<Rightarrow> Env \<Rightarrow> bool" where
  "env_same v w \<longleftrightarrow> env_id v = env_id w \<and> env_link v = env_link w \<and> env_pgdir v = env_pgdir w
     \<and> (env_status v = ENV_FREE \<longleftrightarrow> env_status w = ENV_FREE)"

lemma kinv_env_cong:
  assumes "npages s' = npages s" "pages s' = pages s" "page_free_list s' = page_free_list s" "pm s' = pm s"
    "kern_pgdir s' = kern_pgdir s" "env_free_list s' = env_free_list s" "\<And>e. env_same (envs s' e) (envs s e)"
  shows "kinv fl el s' = kinv fl el s" "env_pds s' = env_pds s" "live s' = live s"
proof -
  have e: "env_id (envs s' x) = env_id (envs s x)" "env_link (envs s' x) = env_link (envs s x)"
    "env_pgdir (envs s' x) = env_pgdir (envs s x)"
    "env_status (envs s' x) = ENV_FREE \<longleftrightarrow> env_status (envs s x) = ENV_FREE" for x
    using assms(7) [of x] by (auto simp: env_same_def)
  show L: "live s' = live s" by (simp add: live_def e)
  show P: "env_pds s' = env_pds s" by (simp add: env_pds_def L e)
  have "env_inv el s' = env_inv el s"
    unfolding env_inv_def L e elink_def assms(6) ..
  then show "kinv fl el s' = kinv fl el s"
    using page_inv_cong [OF assms(1-4)] tgt_cong [OF assms(4)] assms(4,5)
    by (simp add: kinv_def P kern_ok_def)
qed

lemma kinv_upd_env:
  assumes "env_same (f (envs s e)) (envs s e)"
  shows "kinv fl el (upd_env e f s) = kinv fl el s" "env_pds (upd_env e f s) = env_pds s"
    "live (upd_env e f s) = live s"
proof -
  have "env_same (envs (upd_env e f s) x) (envs s x)" for x
    using assms by (auto simp: upd_env_def env_same_def)
  then show "kinv fl el (upd_env e f s) = kinv fl el s" "env_pds (upd_env e f s) = env_pds s"
    "live (upd_env e f s) = live s"
    using kinv_env_cong [of "upd_env e f s" s] by (simp_all add: upd_env_def)
qed

end
