(* ===== verification/Syscall.thy ===== *)
theory Syscall
  imports KInv
begin

text \<open>
  System calls (lab/kern/syscall.c): every handler and the dispatcher. A return value of the C code
  is an \<open>int\<close>; environment ids are read as \<open>int32_t\<close>.
\<close>

section \<open>Console calls\<close>

text \<open>
  \<open>cprintf("%.*s", len, s)\<close>: the loop of \<open>vprintfmt\<close> over the bytes at \<open>p\<close>, read through the page
  tables of the caller. The byte is read before the precision is tested; a negative precision is
  no limit. The fuel is the number of addresses: a scan of all of memory that meets no zero byte
  does not return.
\<close>

primrec cputs_loop :: "nat \<Rightarrow> nat \<Rightarrow> u32 \<Rightarrow> int \<Rightarrow> kstate \<Rightarrow> unit kres" where
  "cputs_loop 0 pd p precision s = Exit Spin s"
| "cputs_loop (Suc n) pd p precision s =
     (case vload8 s pd p of
        None \<Rightarrow> Panic ''page_fault_handler():page fault in kernel mode!'' s
      | Some ch \<Rightarrow>
          if ch \<noteq> 0 \<and> (precision < 0 \<or> precision - 1 \<ge> 0)
          then cputs_loop n pd (p + 1) (if precision < 0 then precision else precision - 1)
                 (s\<lparr>kcons := cputchar (ucast ch) (kcons s)\<rparr>)
          else Ret () s)"

definition print_user :: "u32 \<Rightarrow> u32 \<Rightarrow> kstate \<Rightarrow> unit kres" where
  "print_user p len s =
     (if p = 0 then Ret () (s\<lparr>kcons := cputs (if sint len < 0 then ''(null)'' else take (nat (sint len)) ''(null)'') (kcons s)\<rparr>)
      else with_curenv s (\<lambda>c. with_pgdir c s (\<lambda>pd. cputs_loop 4294967297 pd p (sint len) s)))"

definition sys_cputs :: "u32 \<Rightarrow> u32 \<Rightarrow> kstate \<Rightarrow> unit kres" where
  "sys_cputs p len s =
     with_curenv s (\<lambda>c.
       kbind (user_mem_check c p len PTE_U s) (\<lambda>r s.
       kbind (if r < 0 then env_destroy c s else Ret () s) (\<lambda>_ s.
         print_user p len s)))"

definition sys_cgetc :: "kstate \<Rightarrow> int kres" where
  "sys_cgetc s = (case cons_getc (kcons s) of (c, con) \<Rightarrow> Ret (sint c) (s\<lparr>kcons := con\<rparr>))"

section \<open>Environment calls\<close>

definition sys_getenvid :: "kstate \<Rightarrow> int kres" where
  "sys_getenvid s = with_curenv s (\<lambda>c. Ret (sint (env_id (envs s c))) s)"

text \<open>An access through a NULL environment pointer faults.\<close>

definition with_env :: "nat option \<Rightarrow> kstate \<Rightarrow> (nat \<Rightarrow> 'a kres) \<Rightarrow> 'a kres" where
  "with_env e s f = (case e of
      None \<Rightarrow> Panic ''page_fault_handler():page fault in kernel mode!'' s
    | Some e \<Rightarrow> f e)"

lemma with_env_Some [simp]: "with_env (Some e) s f = f e"
  by (simp add: with_env_def)

definition sys_env_destroy :: "u32 \<Rightarrow> kstate \<Rightarrow> int kres" where
  "sys_env_destroy envid s =
     kbind (envid2env envid True s) (\<lambda>(r, e) s.
       if r < 0 then Ret r s
       else with_env e s (\<lambda>e. kbind (env_destroy e s) (\<lambda>_ s. Ret 0 s)))"

definition sys_yield :: "kstate \<Rightarrow> unit kres" where
  "sys_yield s = sched_yield s"

definition sys_exofork :: "kstate \<Rightarrow> int kres" where
  "sys_exofork s =
     with_curenv s (\<lambda>c.
       kbind (env_alloc (env_id (envs s c)) s) (\<lambda>r s.
         case r of
           Inl err \<Rightarrow> Panic ''env_alloc fail'' s
         | Inr newenv \<Rightarrow>
             let s = upd_env newenv (\<lambda>v. v\<lparr>env_status := ENV_NOT_RUNNABLE\<rparr>) s;
                 s = upd_env newenv (\<lambda>v. v\<lparr>env_tf := env_tf (envs s c)\<rparr>) s;
                 s = upd_env newenv (\<lambda>v. v\<lparr>env_tf := (env_tf v)\<lparr>tf_regs := (tf_regs (env_tf v))\<lparr>reg_eax := 0\<rparr>\<rparr>\<rparr>) s
             in Ret (sint (env_id (envs s newenv))) s))"

text \<open>The values of \<open>env_status\<close> that the call accepts: ENV\_RUNNABLE is 2, ENV\_NOT\_RUNNABLE is 4.\<close>

definition sys_env_set_status :: "u32 \<Rightarrow> u32 \<Rightarrow> kstate \<Rightarrow> int kres" where
  "sys_env_set_status envid status s =
     kbind (envid2env envid True s) (\<lambda>(r, e) s.
       if r \<noteq> 0 then Ret (- E_BAD_ENV) s
       else if status \<noteq> 2 \<and> status \<noteq> 4 then Ret (- E_INVAL) s
       else with_env e s (\<lambda>e.
              Ret 0 (upd_env e (\<lambda>v. v\<lparr>env_status := (if status = 2 then ENV_RUNNABLE else ENV_NOT_RUNNABLE)\<rparr>) s)))"

definition sys_env_set_trapframe :: "u32 \<Rightarrow> Trapframe \<Rightarrow> kstate \<Rightarrow> int kres" where
  "sys_env_set_trapframe envid tf s = Panic ''sys_env_set_trapframe not implemented'' s"

definition sys_env_set_pgfault_upcall :: "u32 \<Rightarrow> u32 \<Rightarrow> kstate \<Rightarrow> int kres" where
  "sys_env_set_pgfault_upcall envid func s =
     kbind (envid2env envid True s) (\<lambda>(r, e) s.
       if r \<noteq> 0 then Ret (- E_BAD_ENV) s
       else with_env e s (\<lambda>e. Ret 0 (upd_env e (\<lambda>v. v\<lparr>env_pgfault_upcall := func\<rparr>) s)))"

section \<open>Memory calls\<close>

definition perm_ok :: "u32 \<Rightarrow> bool" where
  "perm_ok perm \<longleftrightarrow> (perm AND (PTE_U OR PTE_P)) = (PTE_U OR PTE_P) \<and> (perm AND NOT PTE_SYSCALL) = 0"

definition sys_page_alloc :: "u32 \<Rightarrow> u32 \<Rightarrow> u32 \<Rightarrow> kstate \<Rightarrow> int kres" where
  "sys_page_alloc envid va perm s =
     kbind (envid2env envid True s) (\<lambda>(r, e) s.
       if r \<noteq> 0 then Ret (- E_BAD_ENV) s
       else if va > UTOP \<or> va mod PGSIZE \<noteq> 0 then Ret (- E_INVAL) s
       else if \<not> perm_ok perm then Ret (- E_INVAL) s
       else kbind (page_alloc 1 s) (\<lambda>pp s.
              case pp of
                None \<Rightarrow> Ret (- E_NO_MEM) s
              | Some pp \<Rightarrow>
                  with_env e s (\<lambda>e. with_pgdir e s (\<lambda>pd.
                    kbind (page_insert pd pp va perm s) (\<lambda>r s.
                      if r \<noteq> 0 then kbind (page_free pp s) (\<lambda>_ s. Ret (- E_NO_MEM) s)
                      else Ret 0 s)))))"

definition sys_page_map :: "u32 \<Rightarrow> u32 \<Rightarrow> u32 \<Rightarrow> u32 \<Rightarrow> u32 \<Rightarrow> kstate \<Rightarrow> int kres" where
  "sys_page_map srcenvid srcva dstenvid dstva perm s =
     kbind (envid2env srcenvid True s) (\<lambda>(r, srcenv) s.
       if r \<noteq> 0 then Ret (- E_BAD_ENV) s
       else kbind (envid2env dstenvid True s) (\<lambda>(r, dstenv) s.
         if r \<noteq> 0 then Ret (- E_BAD_ENV) s
         else if srcva \<ge> UTOP \<or> srcva mod PGSIZE \<noteq> 0 \<or> dstva \<ge> UTOP \<or> dstva mod PGSIZE \<noteq> 0
         then Ret (- E_INVAL) s
         else if \<not> perm_ok perm then Ret (- E_INVAL) s
         else with_env srcenv s (\<lambda>src. with_pgdir src s (\<lambda>spd.
                kbind (page_lookup spd srcva s) (\<lambda>r s.
                  case r of
                    None \<Rightarrow> Ret (- E_INVAL) s
                  | Some (pp, pt, i) \<Rightarrow>
                      if nz (perm AND PTE_W) \<and> \<not> nz (pm s pt i AND PTE_W) then Ret (- E_INVAL) s
                      else with_env dstenv s (\<lambda>dst. with_pgdir dst s (\<lambda>dpd.
                             kbind (page_insert dpd pp dstva perm s) (\<lambda>r s.
                               Ret (if r \<noteq> 0 then - E_NO_MEM else 0) s))))))))"

definition sys_page_unmap :: "u32 \<Rightarrow> u32 \<Rightarrow> kstate \<Rightarrow> int kres" where
  "sys_page_unmap envid va s =
     kbind (envid2env envid True s) (\<lambda>(r, e) s.
       if r \<noteq> 0 then Ret (- E_BAD_ENV) s
       else if va \<ge> UTOP \<or> va mod PGSIZE \<noteq> 0 then Ret (- E_INVAL) s
       else with_env e s (\<lambda>e. with_pgdir e s (\<lambda>pd.
              kbind (page_remove pd va s) (\<lambda>_ s. Ret 0 s))))"

section \<open>Message passing\<close>

text \<open>The common tail of \<open>sys_ipc_try_send\<close>: the receiver gets the message and is runnable again.\<close>

definition ipc_deliver :: "nat \<Rightarrow> u32 \<Rightarrow> u32 \<Rightarrow> kstate \<Rightarrow> int kres" where
  "ipc_deliver e value perm s =
     (let s = upd_env e (\<lambda>v. v\<lparr>env_ipc_perm := perm\<rparr>) s;
          s = upd_env e (\<lambda>v. v\<lparr>env_ipc_recving := False\<rparr>) s
      in with_curenv s (\<lambda>c.
           let s = upd_env e (\<lambda>v. v\<lparr>env_ipc_from := env_id (envs s c), env_ipc_value := value,
                     env_status := ENV_RUNNABLE\<rparr>) s;
               s = upd_env e (\<lambda>v. v\<lparr>env_tf := (env_tf v)\<lparr>tf_regs := (tf_regs (env_tf v))\<lparr>reg_eax := 0\<rparr>\<rparr>\<rparr>) s
           in Ret 0 s))"

definition sys_ipc_try_send :: "u32 \<Rightarrow> u32 \<Rightarrow> u32 \<Rightarrow> u32 \<Rightarrow> kstate \<Rightarrow> int kres" where
  "sys_ipc_try_send envid value srcva perm s =
     kbind (envid2env envid False s) (\<lambda>(r, e) s.
       if r < 0 then Ret (- E_BAD_ENV) s
       else with_env e s (\<lambda>e.
         if \<not> env_ipc_recving (envs s e) then Ret (- E_IPC_NOT_RECV) s
         else if srcva < UTOP
         then if srcva \<noteq> ROUNDDOWN srcva PGSIZE then Ret (- E_INVAL) s
              else if \<not> perm_ok perm then Ret (- E_INVAL) s
              else with_curenv s (\<lambda>c. with_pgdir c s (\<lambda>cpd.
                     kbind (page_lookup cpd srcva s) (\<lambda>r s.
                       case r of
                         None \<Rightarrow> Ret (- E_INVAL) s
                       | Some (pp, pt, i) \<Rightarrow>
                           if nz (perm AND PTE_W) \<and> \<not> nz (pm s pt i AND PTE_W) then Ret (- E_INVAL) s
                           else with_pgdir e s (\<lambda>epd.
                                  kbind (page_insert epd pp (env_ipc_dstva (envs s e)) perm s) (\<lambda>r s.
                                    if r < 0 then Ret (- E_INVAL) s else ipc_deliver e value perm s)))))
         else ipc_deliver e value 0 s))"

definition sys_ipc_recv :: "u32 \<Rightarrow> kstate \<Rightarrow> int kres" where
  "sys_ipc_recv dstva s =
     (if dstva < UTOP \<and> dstva \<noteq> ROUNDDOWN dstva PGSIZE then Ret (- E_INVAL) s
      else with_curenv s (\<lambda>c.
             let s = upd_env c (\<lambda>v. v\<lparr>env_ipc_recving := True, env_ipc_dstva := dstva,
                       env_status := ENV_NOT_RUNNABLE\<rparr>) s
             in kbind (sched_yield s) (\<lambda>_ s. Ret 0 s)))"

section \<open>The dispatcher\<close>

definition syscall :: "u32 \<Rightarrow> u32 \<Rightarrow> u32 \<Rightarrow> u32 \<Rightarrow> u32 \<Rightarrow> u32 \<Rightarrow> kstate \<Rightarrow> int kres" where
  "syscall syscallno a1 a2 a3 a4 a5 s =
     (if syscallno = 0 then
        with_curenv s (\<lambda>c.
          kbind (user_mem_assert c a1 a2 (PTE_U OR PTE_P) s) (\<lambda>_ s.
          kbind (sys_cputs a1 a2 s) (\<lambda>_ s. Ret 0 s)))
      else if syscallno = 1 then sys_cgetc s
      else if syscallno = 2 then sys_getenvid s
      else if syscallno = 3 then sys_env_destroy a1 s
      else if syscallno = 4 then sys_page_alloc a1 a2 a3 s
      else if syscallno = 5 then sys_page_map a1 a2 a3 a4 a5 s
      else if syscallno = 6 then sys_page_unmap a1 a2 s
      else if syscallno = 7 then sys_exofork s
      else if syscallno = 8 then sys_env_set_status a1 a2 s
      else if syscallno = 10 then sys_env_set_pgfault_upcall a1 a2 s
      else if syscallno = 11 then kbind (sys_yield s) (\<lambda>_ s. Ret 0 s)
      else if syscallno = 12 then sys_ipc_try_send a1 a2 a3 a4 s
      else if syscallno = 13 then sys_ipc_recv a1 s
      else Ret (- E_INVAL) s)"

end
