(* ===== verification/SysMem.thy ===== *)
theory SysMem
  imports Syscall
begin

text \<open>
  The memory system calls against the kernel invariant and the MMU's view of address spaces:
  \<open>sys_page_alloc\<close>, \<open>sys_page_map\<close>, \<open>sys_page_unmap\<close>.
\<close>

section \<open>The environment a call names\<close>

text \<open>The environment that \<open>envid\<close> denotes for caller \<open>c\<close>, when \<open>c\<close> may act on it.\<close>

definition named :: "kstate \<Rightarrow> nat \<Rightarrow> bool \<Rightarrow> u32 \<Rightarrow> nat option" where
  "named s c checkperm envid =
     (if envid = 0 then Some c
      else if env_status (envs s (ENVX envid)) \<noteq> ENV_FREE \<and> env_id (envs s (ENVX envid)) = envid
          \<and> (checkperm \<longrightarrow> ENVX envid = c \<or> env_parent_id (envs s (ENVX envid)) = env_id (envs s c))
      then Some (ENVX envid) else None)"

lemma envid2env_named:
  "curenv s = Some c \<Longrightarrow> envid2env envid chk s =
     (case named s c chk envid of None \<Rightarrow> Ret (- E_BAD_ENV, None) s | Some e \<Rightarrow> Ret (0, Some e) s)"
  by (auto simp: envid2env_def named_def Let_def)

text \<open>A caller: the current environment, alive.\<close>

definition caller :: "kstate \<Rightarrow> nat \<Rightarrow> bool" where
  "caller s c \<longleftrightarrow> curenv s = Some c \<and> c \<in> live s"

lemma live_pd:
  assumes "kinv fl el s" "e \<in> live s"
  obtains pd where "env_pgdir (envs s e) = Some pd" "pd \<in> env_pds s"
  using env_invD(4) [OF kinvD(2) [OF assms(1)] assms(2)] assms(2) by (auto simp: env_pds_def)

lemma named_live: "caller s c \<Longrightarrow> named s c chk envid = Some e \<Longrightarrow> e \<in> live s"
  using ENVX_lt [of envid] by (auto simp: named_def caller_def live_def NENV_def simp del: ENVX_lt split: if_splits)

lemma perm_ok_small:
  assumes "perm_ok perm"
  shows "unat perm < 4096" "perm OR PTE_P = perm"
proof -
  have "bit perm n \<Longrightarrow> bit PTE_SYSCALL n" for n
  proof -
    assume b: "bit perm n"
    have "\<not> bit (perm AND NOT PTE_SYSCALL) n" using assms by (simp add: perm_ok_def)
    with b show ?thesis by (auto simp: bit_simps dest: bit_imp_le_length)
  qed
  moreover have "bit PTE_SYSCALL n \<Longrightarrow> n < 12" for n
    using less_mask_bits [of PTE_SYSCALL 12] by (simp add: const_simps)
  ultimately have "take_bit 12 perm = perm"
    by (intro bit_word_eqI) (auto simp: bit_take_bit_iff)
  then have "unat perm = take_bit 12 (unat perm)" by (metis unsigned_take_bit_eq)
  then show "unat perm < 4096" using take_bit_nat_less_exp [of 12 "unat perm"] by simp
  have "bit (PTE_U OR PTE_P) 0" by (simp add: const_simps)
  then have "bit (perm AND (PTE_U OR PTE_P)) 0" using assms unfolding perm_ok_def by argo
  then have "bit perm 0" by (simp add: bit_and_iff)
  then show "perm OR PTE_P = perm"
    by (intro bit_word_eqI) (auto simp: bit_simps PTE_P_def bit_1_iff)
qed


section \<open>\<open>sys_page_alloc\<close>\<close>

lemma kinv_page_free:
  assumes K: "kinv fl el s" and p: "p < npages s" "p \<notin> set fl" "p \<notin> ran (tgt (env_pds s) s)"
    "pages s p = \<lparr>pp_link = None, pp_ref = 0\<rparr>" "p \<noteq> kern_pgdir s"
  shows "page_free p s = Ret () (page_push p s)" "kinv (p # fl) el (page_push p s)" "pm (page_push p s) = pm s"
proof -
  note I = kinvD(1) [OF K]
  show "page_free p s = Ret () (page_push p s)" using p(4) by (intro page_free_eq) simp_all
  show m: "pm (page_push p s) = pm s" by (simp add: st_defs)
  have F: "pg_frame s (page_push p s)" by (simp add: page_push_def)
  have T: "tgt (env_pds s) (page_push p s) = tgt (env_pds s) s" by (rule tgt_cong [OF m])
  have "free_ok (tgt (env_pds s) s) (page_push p s) (p # fl)"
    by (rule free_ok_push [OF page_inv_free_ok [OF I] p(1,2) _ p(3)]) (simp add: p(4))
  moreover have "acct (tgt (env_pds s) s) (\<lambda>q. pp_ref (pages (page_push p s) q)) (npages s)"
  proof -
    have "(\<lambda>q. pp_ref (pages (page_push p s) q)) = (\<lambda>q. pp_ref (pages s q))" by (auto simp: st_defs)
    then show ?thesis using page_inv_acct [OF I] by simp
  qed
  moreover have "ptes_ok (env_pds s) (page_push p s)"
    using page_inv_ptes [OF I] unfolding ptes_ok_def T m .
  ultimately have P: "page_inv (env_pds s) (p # fl) (page_push p s)"
    using page_inv_npages [OF I] page_inv_finite [OF I] by (intro page_invI) (simp_all add: T, simp_all add: st_defs)
  show "kinv (p # fl) el (page_push p s)"
    using kern_not_owned [OF K] p(5) by (intro kinv_frame [OF K P F]) (auto simp: owned_def T m)
qed

lemma as_eq_trans: "as_eq pds a b \<Longrightarrow> as_eq pds b c \<Longrightarrow> as_eq pds a c"
  by (simp add: as_eq_def)

lemma as_upd_cong: "as_eq pds a b \<Longrightarrow> as_eq pds (as_upd pd va v a) (as_upd pd va v b)"
  by (simp add: as_eq_def as_upd_def)

lemma alloc_insert:
  assumes K: "kinv fl el s" and pd: "pd \<in> env_pds s" and va: "va < UTOP" and perm: "perm_ok perm"
  shows "\<exists>s' fl'. kinv fl' el s' \<and> pg_frame s s' \<and>
    (case page_alloc 1 s of
        Ret (Some pp) s1 \<Rightarrow>
          (\<exists>s2. page_insert pd pp va perm s1 = Ret (- E_NO_MEM) s2 \<and> page_free pp s2 = Ret () s'
              \<and> as_eq (env_pds s) (vpte s') (vpte s)) \<or>
          (page_insert pd pp va perm s1 = Ret 0 s' \<and> pp \<in> set fl \<and> (\<forall>i. pm s' pp i = 0)
              \<and> as_eq (env_pds s) (vpte s') (as_upd pd va (Some (page2pa pp OR perm OR PTE_P)) (vpte s)))
      | r \<Rightarrow> r = Ret None s \<and> s' = s)"
proof (cases fl)
  case Nil
  then have "page_free_list s = None"
    using page_inv_free_list [OF kinvD(1) [OF K]] by (cases "page_free_list s") auto
  then show ?thesis using K by (auto simp: page_alloc_None)
next
  case (Cons p fl1)
  then have K': "kinv (p # fl1) el s" using K by simp
  let ?s = "memset_page p 0 (page_pop p s)"
  note A = kinv_page_alloc [OF K']
  have F: "pg_frame s ?s" by (simp add: page_pop_def)
  then have pds: "env_pds ?s = env_pds s" "kern_pgdir ?s = kern_pgdir s"
    using pg_frame_fields [OF F] by (simp_all add: env_pds_def live_def)
  have V: "as_eq (env_pds s) (vpte ?s) (vpte s)" using A(5) by (auto simp: as_eq_def)
  have M: "mappable (env_pds ?s) fl1 ?s p" and n: "p \<noteq> kern_pgdir ?s" using A(3,4) pds by auto
  have z: "pm ?s p i = 0" for i by (simp add: st_defs)
  have nr: "p \<notin> ran (tgt (env_pds s) ?s)"
    using page_alloc_full(3) [OF kinvD(1) [OF K'], of 1] page_inv_free(3) [OF kinvD(1) [OF K'], of p]
    by (simp add: ALLOC_ZERO_def)
  have pg: "pages ?s p = \<lparr>pp_link = None, pp_ref = 0\<rparr>"
    using page_inv_free(2) [OF kinvD(1) [OF K'], of p] by (simp add: st_defs)
  from kinv_page_insert [OF A(2) pd [folded pds(1)] va perm_ok_small(1) [OF perm] M n]
  show ?thesis
  proof (elim disjE exE conjE)
    assume f: "fl1 = []" and r: "page_insert pd p va perm ?s = Ret (- E_NO_MEM) ?s"
    have P: "p < npages ?s" "p \<notin> set fl1" using M by (auto simp: mappable_def)
    note R = kinv_page_free [OF A(2) P(1,2) nr [folded pds(1)] pg n]
    have "pg_frame s (page_push p ?s)" using F by (simp add: page_push_def)
    moreover have "as_eq (env_pds s) (vpte (page_push p ?s)) (vpte s)"
      using V vpte_cong [OF R(3)] by simp
    ultimately show ?thesis using A(1) r R(1,2) by (intro exI [of _ "page_push p ?s"] exI [of _ "p # fl1"]) simp
  next
    fix s' fl'
    assume r: "page_insert pd p va perm ?s = Ret 0 s'" and K2: "kinv fl' el s'" and F2: "pg_frame ?s s'"
      and V2: "as_eq (env_pds ?s) (vpte s') (as_upd pd va (Some (page2pa p OR perm OR PTE_P)) (vpte ?s))"
      and t: "\<forall>r. r \<notin> set fl1 \<and> \<not> (\<exists>sl. is_table sl \<and> tgt (env_pds ?s) ?s sl = Some r) \<longrightarrow> pm s' r = pm ?s r"
    have "pm s' p = pm ?s p" using t M by (auto simp: mappable_def)
    moreover have "as_eq (env_pds s) (vpte s') (as_upd pd va (Some (page2pa p OR perm OR PTE_P)) (vpte s))"
      using V2 as_upd_cong [OF V, of pd va] as_eq_trans unfolding pds by blast
    ultimately show ?thesis
      using A(1) r K2 pg_frame_trans [OF F F2] z Cons by (intro exI [of _ s'] exI [of _ fl']) simp
  qed
qed


section \<open>\<open>sys_page_map\<close>\<close>

text \<open>Mapping the page that another translation reaches: the part that \<open>sys_page_map\<close> and \<open>sys_ipc_try_send\<close> share.\<close>

lemma lookup_insert:
  assumes K: "kinv fl el s" and spd: "spd \<in> env_pds s" and sva: "sva < UTOP"
    and dpd: "dpd \<in> env_pds s" and dva: "dva < UTOP" and perm: "perm_ok perm"
    and v: "vpte s spd sva = Some e" and ref: "unat (pp_ref (pages s (ppn e))) < 65535"
  shows "(\<exists>pt i. page_lookup spd sva s = Ret (Some (ppn e, pt, i)) s \<and> pm s pt i = e) \<and>
    (page_insert dpd (ppn e) dva perm s = Ret (- E_NO_MEM) s \<or>
     (\<exists>s' fl'. page_insert dpd (ppn e) dva perm s = Ret 0 s' \<and> kinv fl' el s' \<and> pg_frame s s'
        \<and> as_eq (env_pds s) (vpte s') (as_upd dpd dva (Some (page2pa (ppn e) OR perm)) (vpte s))))"
proof -
  obtain pt where L: "page_lookup spd sva s = Ret (Some (ppn e, pt, unat (PTX sva))) s" "pm s pt (unat (PTX sva)) = e"
    and t: "tgt (env_pds s) s (SPte spd (unat (PDX sva)) (unat (PTX sva))) = Some (ppn e)"
    using page_lookup_full [OF kinvD(1) [OF K] spd sva] v by blast
  have M: "mappable (env_pds s) fl s (ppn e)" by (rule mapped_mappable [OF kinvD(1) [OF K] t ref])
  have n: "ppn e \<noteq> kern_pgdir s" using kern_not_owned [OF K] t by (auto simp: owned_def intro: ranI)
  have pa: "page2pa (ppn e) OR perm OR PTE_P = page2pa (ppn e) OR perm"
    using perm_ok_small(2) [OF perm] by (simp add: or.assoc)
  show ?thesis
    using L kinv_page_insert [OF K dpd dva perm_ok_small(1) [OF perm] M n] unfolding pa by blast
qed

lemma lookup_none:
  "kinv fl el s \<Longrightarrow> pd \<in> env_pds s \<Longrightarrow> va < UTOP \<Longrightarrow> vpte s pd va = None \<Longrightarrow> page_lookup pd va s = Ret None s"
  using page_lookup_full [OF kinvD(1)] by blast

definition map_args_ok :: "u32 \<Rightarrow> u32 \<Rightarrow> u32 \<Rightarrow> bool" where
  "map_args_ok srcva dstva perm \<longleftrightarrow> srcva < UTOP \<and> srcva mod PGSIZE = 0 \<and> dstva < UTOP
     \<and> dstva mod PGSIZE = 0 \<and> perm_ok perm"

text \<open>The guards of \<open>sys_page_map\<close>, and its work behind them.\<close>

lemma sys_page_map_guards:
  assumes cu: "curenv s = Some c"
  shows "named s c True srcid = None \<or> named s c True dstid = None \<Longrightarrow>
      sys_page_map srcid srcva dstid dstva perm s = Ret (- E_BAD_ENV) s"
    and "named s c True srcid = Some src \<Longrightarrow> named s c True dstid = Some dst \<Longrightarrow> \<not> map_args_ok srcva dstva perm \<Longrightarrow>
      sys_page_map srcid srcva dstid dstva perm s = Ret (- E_INVAL) s"
proof -
  note sys = sys_page_map_def envid2env_named [OF cu]
  show "named s c True srcid = None \<or> named s c True dstid = None \<Longrightarrow>
      sys_page_map srcid srcva dstid dstva perm s = Ret (- E_BAD_ENV) s"
    by (cases "named s c True srcid") (auto simp: sys E_BAD_ENV_def)
  assume n: "named s c True srcid = Some src" "named s c True dstid = Some dst" and b: "\<not> map_args_ok srcva dstva perm"
  have "(UTOP \<le> srcva \<or> srcva mod PGSIZE \<noteq> 0 \<or> UTOP \<le> dstva \<or> dstva mod PGSIZE \<noteq> 0) \<or> \<not> perm_ok perm"
    using b unfolding map_args_ok_def de_Morgan_conj linorder_not_less by argo
  then show "sys_page_map srcid srcva dstid dstva perm s = Ret (- E_INVAL) s"
    unfolding sys n option.case kbind.simps prod.case by (elim disjE) simp_all
qed

lemma sys_page_map_run:
  assumes cu: "curenv s = Some c" and n: "named s c True srcid = Some src" "named s c True dstid = Some dst"
    and a: "map_args_ok srcva dstva perm" and s1: "env_pgdir (envs s src) = Some spd"
  shows "sys_page_map srcid srcva dstid dstva perm s =
      kbind (page_lookup spd srcva s) (\<lambda>r s.
        case r of
          None \<Rightarrow> Ret (- E_INVAL) s
        | Some (pp, pt, i) \<Rightarrow>
            if nz (perm AND PTE_W) \<and> \<not> nz (pm s pt i AND PTE_W) then Ret (- E_INVAL) s
            else with_pgdir dst s (\<lambda>dpd. kbind (page_insert dpd pp dstva perm s) (\<lambda>r s.
                     Ret (if r \<noteq> 0 then - E_NO_MEM else 0) s)))"
  using a s1
  unfolding sys_page_map_def envid2env_named [OF cu] n option.case kbind.simps prod.case with_env_Some map_args_ok_def
  by (simp add: not_le [symmetric])

text \<open>
  C8: \<open>sys_page_map\<close>: -E\_BAD\_ENV without the right to both environments, -E\_INVAL for bad addresses
  or permissions, for an unmapped source, and for asking write access to a page that the source
  maps read-only; nothing changes then, nor on -E\_NO\_MEM. On success the destination address
  translates to the source's page with the permissions asked for, so a call never creates a
  writable mapping of a page that its source could not write; every other translation is
  unchanged and the kernel invariant is kept.
\<close>

theorem sys_page_map_correct:
  assumes K: "kinv fl el s" and c: "caller s c"
    and ref: "\<forall>e. vpte s spd srcva = Some e \<longrightarrow> unat (pp_ref (pages s (ppn e))) < 65535"
    and spd: "\<forall>src. named s c True srcid = Some src \<longrightarrow> env_pgdir (envs s src) = Some spd"
  shows "case (named s c True srcid, named s c True dstid) of
      (Some src, Some dst) \<Rightarrow>
        (\<exists>dpd. env_pgdir (envs s dst) = Some dpd \<and>
         (if \<not> map_args_ok srcva dstva perm \<or> vpte s spd srcva = None
             \<or> nz (perm AND PTE_W) \<and> \<not> nz (the (vpte s spd srcva) AND PTE_W)
          then sys_page_map srcid srcva dstid dstva perm s = Ret (- E_INVAL) s
          else sys_page_map srcid srcva dstid dstva perm s = Ret (- E_NO_MEM) s \<or>
             (\<exists>s' fl'. sys_page_map srcid srcva dstid dstva perm s = Ret 0 s' \<and> kinv fl' el s' \<and> pg_frame s s'
                \<and> as_eq (env_pds s) (vpte s')
                    (as_upd dpd dstva (Some (page2pa (ppn (the (vpte s spd srcva))) OR perm)) (vpte s)))))
    | _ \<Rightarrow> sys_page_map srcid srcva dstid dstva perm s = Ret (- E_BAD_ENV) s"
proof -
  have cu: "curenv s = Some c" using c by (simp add: caller_def)
  show ?thesis
  proof (cases "named s c True srcid = None \<or> named s c True dstid = None")
    case True
    then show ?thesis using sys_page_map_guards(1) [OF cu True] by (auto split: option.split)
  next
    case False
    then obtain src dst where n: "named s c True srcid = Some src" "named s c True dstid = Some dst" by auto
    have s1: "env_pgdir (envs s src) = Some spd" using spd n by blast
    have s2: "spd \<in> env_pds s" using s1 named_live [OF c n(1)] by (auto simp: env_pds_def)
    obtain dpd where d: "env_pgdir (envs s dst) = Some dpd" "dpd \<in> env_pds s"
      using live_pd [OF K named_live [OF c n(2)]] .
    show ?thesis
    proof (cases "map_args_ok srcva dstva perm")
      case False
      then show ?thesis using sys_page_map_guards(2) [OF cu n False] n d(1) by simp
    next
      case True
      then have ok: "srcva < UTOP" "dstva < UTOP" "perm_ok perm" by (auto simp: map_args_ok_def)
      note body = sys_page_map_run [OF cu n True s1]
      show ?thesis
      proof (cases "vpte s spd srcva")
        case None
        then show ?thesis using True n d(1) body lookup_none [OF K s2 ok(1) None] by simp
      next
        case (Some e)
        then obtain pt i where L: "page_lookup spd srcva s = Ret (Some (ppn e, pt, i)) s" "pm s pt i = e"
          and R: "page_insert dpd (ppn e) dstva perm s = Ret (- E_NO_MEM) s \<or>
            (\<exists>s' fl'. page_insert dpd (ppn e) dstva perm s = Ret 0 s' \<and> kinv fl' el s' \<and> pg_frame s s'
               \<and> as_eq (env_pds s) (vpte s') (as_upd dpd dstva (Some (page2pa (ppn e) OR perm)) (vpte s)))"
          using lookup_insert [OF K s2 ok(1) d(2) ok(2,3) Some] ref by blast
        have "if nz (perm AND PTE_W) \<and> \<not> nz (e AND PTE_W)
            then sys_page_map srcid srcva dstid dstva perm s = Ret (- E_INVAL) s
            else sys_page_map srcid srcva dstid dstva perm s = Ret (- E_NO_MEM) s \<or>
             (\<exists>s' fl'. sys_page_map srcid srcva dstid dstva perm s = Ret 0 s' \<and> kinv fl' el s' \<and> pg_frame s s'
                \<and> as_eq (env_pds s) (vpte s') (as_upd dpd dstva (Some (page2pa (ppn e) OR perm)) (vpte s)))"
          using R unfolding body L(1) kbind.simps option.case prod.case L(2) with_pgdir_Some [OF d(1)]
          by (auto simp: E_NO_MEM_def)
        then show ?thesis using True n Some d(1) by (auto split: if_splits)
      qed
    qed
  qed
qed

section \<open>\<open>sys_page_unmap\<close>\<close>

text \<open>
  \<open>sys_page_unmap\<close>: -E\_BAD\_ENV and -E\_INVAL as for the other memory calls, without effect;
  otherwise it returns 0 and removes exactly the translation at the address, if there is one, and
  the kernel invariant is kept.
\<close>

theorem sys_page_unmap_correct:
  assumes "kinv fl el s" and "caller s c"
  shows "case named s c True envid of
      None \<Rightarrow> sys_page_unmap envid va s = Ret (- E_BAD_ENV) s
    | Some e \<Rightarrow>
        if va \<ge> UTOP \<or> va mod PGSIZE \<noteq> 0 then sys_page_unmap envid va s = Ret (- E_INVAL) s
        else \<exists>s' fl' pd. env_pgdir (envs s e) = Some pd \<and> sys_page_unmap envid va s = Ret 0 s'
          \<and> kinv fl' el s' \<and> pg_frame s s' \<and> as_eq (env_pds s) (vpte s') (as_upd pd va None (vpte s))"
proof -
  have cu: "curenv s = Some c" using assms(2) by (simp add: caller_def)
  show ?thesis
  proof (cases "named s c True envid")
    case None
    then show ?thesis by (simp add: sys_page_unmap_def envid2env_named [OF cu] E_BAD_ENV_def)
  next
    case (Some e)
    obtain pd where pd: "env_pgdir (envs s e) = Some pd" "pd \<in> env_pds s"
      using live_pd [OF assms(1) named_live [OF assms(2) Some]] .
    show ?thesis
    proof (cases "va \<ge> UTOP \<or> va mod PGSIZE \<noteq> 0")
      case True
      then show ?thesis using Some by (simp add: sys_page_unmap_def envid2env_named [OF cu])
    next
      case False
      then have va: "va < UTOP" using linorder_not_le by blast
      from kinv_page_remove [OF assms(1) pd(2) va] obtain s' fl' where
        "page_remove pd va s = Ret () s'" "kinv fl' el s'" "pg_frame s s'"
        "as_eq (env_pds s) (vpte s') (as_upd pd va None (vpte s))" by blast
      then show ?thesis using Some False pd(1) by (simp add: sys_page_unmap_def envid2env_named [OF cu]) blast
    qed
  qed
qed

section \<open>Witnesses\<close>

lemma caller_ks0: "caller ks0 0"
  by (simp add: caller_def live_ks0)

lemma named_ks0: "named ks0 0 chk 0 = Some 0"
  by (simp add: named_def)

lemma perm_ok_7: "perm_ok 7" and perm_ok_5: "perm_ok 5"
  by (simp_all add: perm_ok_def const_simps)


theorem sys_page_map_correct_witness: "sys_page_map 0 0x800000 0 0x801000 7 ks0 = Ret (-3) ks0"
proof -
  have v: "vpte ks0 2 0x800000 = None" by (simp add: vpte_def present_def)
  show ?thesis
    using sys_page_map_correct [OF kinv_ks0 caller_ks0, of 2 "0x800000" 0 0 "0x801000" 7] v
    by (simp add: named_ks0 env0_def const_simps)
qed

theorem sys_page_unmap_correct_witness: "\<exists>s'. sys_page_unmap 0 0x800000 ks0 = Ret 0 s'"
  using sys_page_unmap_correct [OF kinv_ks0 caller_ks0, of 0 "0x800000"]
  by (auto simp: named_ks0 const_simps)

end
