(* ===== verification/UserCheck.thy ===== *)
theory UserCheck
  imports KInv
begin

text \<open>\<open>user_mem_check\<close> (lab/kern/pmap.c): what it establishes, which address it reports, and where it fails.\<close>

section \<open>One page\<close>

text \<open>A user may access the page of address \<open>i\<close> with permissions \<open>perm\<close>: the two tests of the specification.\<close>

definition accessible :: "kstate \<Rightarrow> nat \<Rightarrow> u32 \<Rightarrow> u32 \<Rightarrow> bool" where
  "accessible s pd perm i \<longleftrightarrow> i < ULIM \<and> (\<exists>e. vpte s pd i = Some e \<and> (e AND perm) = perm)"

lemma pgdir_walk_pure:
  "pgdir_walk pd va False s = (if present (pm s pd (unat (PDX va)))
     then if ppn (pm s pd (unat (PDX va))) < npages s
          then Ret (Some (ppn (pm s pd (unat (PDX va))), unat (PTX va))) s
          else Panic ''KADDR called with invalid pa'' s
     else Ret None s)"
  by (simp add: pgdir_walk_def Let_def present_def KADDR_def ppn_def)

text \<open>The directory's entries in use name existing pages, so that the walk cannot panic.\<close>

definition pd_ok :: "kstate \<Rightarrow> nat \<Rightarrow> bool" where
  "pd_ok s pd \<longleftrightarrow> (\<forall>i < 1024. present (pm s pd i) \<longrightarrow> ppn (pm s pd i) < npages s)"

lemma check_step:
  assumes "pd_ok s pd" "i < fin" "i < i + PGSIZE"
  shows "user_mem_check_loop pd va perm i fin s =
    (if accessible s pd perm i then user_mem_check_loop pd va perm (i + PGSIZE) fin s
     else Ret (- E_FAULT) (s\<lparr>user_mem_check_addr := (if i < va then va else i)\<rparr>))"
proof -
  have "present (pm s pd (unat (PDX i))) \<Longrightarrow> ppn (pm s pd (unat (PDX i))) < npages s"
    using assms(1) PDX_lt by (simp add: pd_ok_def)
  then show ?thesis
    using assms(2,3) unfolding user_mem_check_loop.simps [of pd va perm i fin s] pgdir_walk_pure accessible_def vpte_def
    by (auto simp: Let_def present_def not_less linorder_not_le [symmetric] split: option.split)
qed

section \<open>The range\<close>

text \<open>The \<open>n\<close>-th page of a range that starts at the page-aligned address \<open>b\<close>.\<close>

definition nth_page :: "u32 \<Rightarrow> nat \<Rightarrow> u32" where
  "nth_page b n = b + word_of_nat (n * 4096)"

lemma unat_nth_page: "unat b + n * 4096 < 4294967296 \<Longrightarrow> unat (nth_page b n) = unat b + n * 4096"
  unfolding nth_page_def unat_plus32 by (subst unat_word_of_nat32) simp_all

lemma check_loop:
  assumes "pd_ok s pd" "unat b + k * 4096 = unat fin" "n \<le> k"
  shows "user_mem_check_loop pd va perm (nth_page b (k - n)) fin s =
    (case find (\<lambda>j. \<not> accessible s pd perm (nth_page b j)) [k - n..<k] of
       None \<Rightarrow> Ret 0 s
     | Some j \<Rightarrow> Ret (- E_FAULT) (s\<lparr>user_mem_check_addr := (if nth_page b j < va then va else nth_page b j)\<rparr>))"
  using assms(3)
proof (induction n)
  case 0
  have "unat (nth_page b k) = unat fin" using assms(2) unat_lt32 [of fin] by (simp add: unat_nth_page)
  then have "\<not> nth_page b k < fin" by (simp add: word_less_nat_alt)
  then show ?case by (simp add: user_mem_check_loop.simps)
next
  case (Suc n)
  let ?j = "k - Suc n"
  have lt: "unat b + ?j * 4096 + 4096 \<le> unat fin"
    using assms(2) Suc.prems by (simp add: diff_mult_distrib)
  then have fin: "unat b + ?j * 4096 + 4096 < 4294967296" using unat_lt32 [of fin] by linarith
  have u: "unat (nth_page b ?j) = unat b + ?j * 4096" using fin by (intro unat_nth_page) simp
  have u': "unat (nth_page b ?j + PGSIZE) = unat b + ?j * 4096 + 4096"
    using fin u by (simp add: unat_plus32 PGSIZE_def)
  have g: "nth_page b ?j < fin" "nth_page b ?j < nth_page b ?j + PGSIZE"
    using lt u u' by (simp_all add: word_less_nat_alt)
  have nx: "nth_page b ?j + PGSIZE = nth_page b (k - n)"
  proof -
    have "k - n = Suc ?j" using Suc.prems by simp
    then show ?thesis by (simp add: nth_page_def PGSIZE_def algebra_simps)
  qed
  have up: "[?j..<k] = ?j # [k - n..<k]" using Suc.prems by (simp add: upt_conv_Cons Suc_diff_Suc)
  show ?case
    using Suc.IH Suc.prems unfolding up check_step [OF assms(1) g] nx by simp
qed

text \<open>
  C24: for a range that does not wrap around the address space, \<open>user_mem_check\<close> is exact: it returns
  0, changing nothing, when every page that the range touches is below ULIM and mapped with the
  permissions asked for; otherwise it returns -E\_FAULT and \<open>user_mem_check_addr\<close> is the first
  address of the range that is not accessible.
\<close>

theorem user_mem_check_correct:
  assumes "env_pgdir (envs s env) = Some pd" and "pd_ok s pd"
    and "unat va + unat len + 4095 < 4294967296"
    and "k = (unat va + unat len + 4095) div 4096 - unat va div 4096"
  shows "if \<forall>j < k. accessible s pd perm (nth_page (ROUNDDOWN va PGSIZE) j)
     then user_mem_check env va len perm s = Ret 0 s
     else \<exists>j < k. \<not> accessible s pd perm (nth_page (ROUNDDOWN va PGSIZE) j)
        \<and> (\<forall>i < j. accessible s pd perm (nth_page (ROUNDDOWN va PGSIZE) i))
        \<and> user_mem_check env va len perm s =
            Ret (- E_FAULT) (s\<lparr>user_mem_check_addr := max va (nth_page (ROUNDDOWN va PGSIZE) j)\<rparr>)"
proof -
  let ?b = "ROUNDDOWN va PGSIZE" and ?P = "\<lambda>j. \<not> accessible s pd perm (nth_page (ROUNDDOWN va PGSIZE) j)"
  have vl: "unat (va + len) = unat va + unat len" using assms(3) by (simp add: unat_plus32)
  have f: "unat (ROUNDUP (va + len) PGSIZE) = (unat va + unat len + 4095) div 4096 * 4096"
    using assms(3) unat_ROUNDUP_PGSIZE [of "va + len"] vl by simp
  have b: "unat ?b = unat va div 4096 * 4096"
    using unat_ROUNDDOWN_PGSIZE [of va] by (simp add: minus_mod_eq_div_mult)
  have le: "unat va div 4096 \<le> (unat va + unat len + 4095) div 4096" by (intro div_le_mono) simp
  have "unat ?b + k * 4096 = unat (ROUNDUP (va + len) PGSIZE)"
    unfolding f b assms(4) using le by (simp add: diff_mult_distrib)
  from check_loop [OF assms(2) this, of k]
  have L: "user_mem_check env va len perm s =
    (case find ?P [0..<k] of None \<Rightarrow> Ret 0 s
     | Some j \<Rightarrow> Ret (- E_FAULT) (s\<lparr>user_mem_check_addr := max va (nth_page ?b j)\<rparr>))"
    using assms(1) by (simp add: user_mem_check_def nth_page_def max_def not_less [symmetric] if_not_P split: option.split)
  show ?thesis
  proof (cases "find ?P [0..<k]")
    case None
    then have "\<forall>j < k. accessible s pd perm (nth_page ?b j)" by (simp add: find_None_iff)
    then show ?thesis using L None by simp
  next
    case (Some j)
    then have "j < k" "?P j" "\<forall>i < j. \<not> ?P i" by (simp_all only: find_first) simp_all
    then show ?thesis using L Some by auto
  qed
qed


lemma pd_ok_ks0: "pd_ok ks0 2"
  by (simp add: pd_ok_def present_def)

theorem user_mem_check_correct_witness:
  "user_mem_check 0 0x800010 4 PTE_U ks0 = Ret (-6) (ks0\<lparr>user_mem_check_addr := 0x800010\<rparr>)"
proof -
  have n: "\<not> accessible ks0 2 PTE_U a" for a by (simp add: accessible_def vpte_def present_def)
  have "1 = (unat (0x800010 :: u32) + unat (4 :: u32) + 4095) div 4096 - unat (0x800010 :: u32) div 4096" by simp
  then have "if \<forall>j < 1. accessible ks0 2 PTE_U (nth_page (ROUNDDOWN 0x800010 PGSIZE) j)
     then user_mem_check 0 0x800010 4 PTE_U ks0 = Ret 0 ks0
     else \<exists>j < 1. \<not> accessible ks0 2 PTE_U (nth_page (ROUNDDOWN 0x800010 PGSIZE) j)
        \<and> (\<forall>i < j. accessible ks0 2 PTE_U (nth_page (ROUNDDOWN 0x800010 PGSIZE) i))
        \<and> user_mem_check 0 0x800010 4 PTE_U ks0 =
            Ret (- E_FAULT) (ks0\<lparr>user_mem_check_addr := max 0x800010 (nth_page (ROUNDDOWN 0x800010 PGSIZE) j)\<rparr>)"
    by (intro user_mem_check_correct [OF _ pd_ok_ks0]) (simp_all add: env0_def)
  then have "user_mem_check 0 0x800010 4 PTE_U ks0 =
      Ret (- E_FAULT) (ks0\<lparr>user_mem_check_addr := max 0x800010 (nth_page (ROUNDDOWN 0x800010 PGSIZE) 0)\<rparr>)"
    using n by (auto split: if_splits)
  then show ?thesis by (simp add: nth_page_def ROUNDDOWN_def const_simps max_def)
qed


end
