(* ===== verification/SysEnv.thy ===== *)
theory SysEnv
  imports SysMem UserCheck
begin

text \<open>
  The environment and message system calls, and the theorem that every system call keeps the
  kernel invariant.
\<close>

section \<open>\<open>sys_exofork\<close>\<close>

lemma sint_pos: "0 < unat x \<Longrightarrow> unat x < 2147483648 \<Longrightarrow> 0 < sint x" for x :: u32
  by (simp only: sint32 if_True of_nat_0_less_iff)

definition forked :: "kstate \<Rightarrow> nat \<Rightarrow> nat \<Rightarrow> nat \<Rightarrow> Env" where
  "forked s c e p = (new_env e p (env_id (envs s c)) (envs s e))
     \<lparr>env_status := ENV_NOT_RUNNABLE,
      env_tf := (env_tf (envs s c))\<lparr>tf_regs := (tf_regs (env_tf (envs s c)))\<lparr>reg_eax := 0\<rparr>\<rparr>\<rparr>"

lemma live_ne_free: "kinv fl (e # el) s \<Longrightarrow> c \<in> live s \<Longrightarrow> c \<noteq> e"
  using env_invD(2) [OF kinvD(2)] by (fastforce simp: live_def)

lemma exofork_run:
  assumes K: "kinv (p # fl) (e # el) s" and c: "caller s c"
    and s': "s' = (alloc_st e p (env_id (envs s c)) s)\<lparr>envs := (envs s)(e := forked s c e p)\<rparr>"
  shows "sys_exofork s = Ret (sint (env_id (envs s' e))) s'" "kinv fl el s'"
    "\<And>va. va < UTOP \<Longrightarrow> vpte s' p va = None" "e < 1024"
proof -
  have cu: "curenv s = Some c" and l: "c \<in> live s" using c by (auto simp: caller_def)
  note A = alloc_st_kinv(1,2) [OF K, of "env_id (envs s c)"] alloc_st_kinv(5,6) [OF K]
  have ce: "c \<noteq> e" by (rule live_ne_free [OF K l])
  show "sys_exofork s = Ret (sint (env_id (envs s' e))) s'"
    using cu ce unfolding s' sys_exofork_def with_curenv_Some [OF cu] A(1) kbind.simps sum.case Let_def upd_env_twice
    by (simp add: upd_env_def alloc_st_fields forked_def)
  show "kinv fl el s'"
    using A(2) unfolding s' by (subst kinv_env_cong [of _ "alloc_st e p (env_id (envs s c)) s"])
      (auto simp: alloc_st_fields env_same_def forked_def new_env_def)
  have z: "\<And>i. i < UPDX \<Longrightarrow> pm s (kern_pgdir s) i = 0" using kinvD(3) [OF K] by (auto simp: kern_ok_def)
  show "vpte s' p va = None" if "va < UTOP" for va
    using z below_UTOP_PDX [OF that] A(3) unfolding s'
    by (simp add: vpte_def alloc_st_fields setup_st_fields present_def UPDX_def)
  show "e < 1024" by (rule A(4))
qed

lemma exofork_fail:
  assumes K: "kinv fl el s" and c: "caller s c" and h: "fl = [] \<or> el = []"
  shows "sys_exofork s = Panic ''env_alloc fail'' s"
proof -
  have "\<exists>x. env_alloc (env_id (envs s c)) s = Ret (Inl x) s"
  proof (cases el)
    case Nil
    then have "env_free_list s = None" using env_invD(1) [OF kinvD(2) [OF K]] by (cases "env_free_list s") auto
    then show ?thesis by (simp add: env_alloc_def)
  next
    case (Cons e el')
    then have "env_free_list s = Some e" "fl = []" using env_invD(1) [OF kinvD(2) [OF K]] h by auto
    then show ?thesis
      using env_setup_vm_none [of "env_pds s" s e] kinvD(1) [OF K] by (simp add: env_alloc_def E_NO_MEM_def)
  qed
  then show ?thesis using c by (auto simp: sys_exofork_def caller_def)
qed

text \<open>
  C25: \<open>sys_exofork\<close> with memory and an environment to spare creates a child of the caller that is
  not runnable, has the caller's registers except that its result register is 0, an empty user
  address space and a fresh positive id, which the caller gets as the result; the caller and all
  other environments are unchanged and the kernel invariant is kept. Without memory or free
  environments the call panics the kernel instead of returning an error.
\<close>

theorem sys_exofork_correct:
  assumes K: "kinv fl el s" and c: "caller s c"
  shows "(fl = [] \<or> el = [] \<longrightarrow> sys_exofork s = Panic ''env_alloc fail'' s)
    \<and> (\<forall>p fl' e el'. fl = p # fl' \<and> el = e # el' \<longrightarrow>
         (\<exists>s'. sys_exofork s = Ret (sint (env_id (envs s' e))) s' \<and> 0 < sint (env_id (envs s' e))
            \<and> kinv fl' el' s' \<and> envs s' = (envs s)(e := forked s c e p)
            \<and> (\<forall>va < UTOP. vpte s' p va = None)))"
proof (intro conjI allI impI)
  show "sys_exofork s = Panic ''env_alloc fail'' s" if "fl = [] \<or> el = []" by (rule exofork_fail [OF K c that])
  fix p fl' e el' assume "fl = p # fl' \<and> el = e # el'"
  then have K': "kinv (p # fl') (e # el') s" using K by simp
  let ?s = "(alloc_st e p (env_id (envs s c)) s)\<lparr>envs := (envs s)(e := forked s c e p)\<rparr>"
  note R = exofork_run [OF K' c refl]
  have "0 < sint (env_id (envs ?s e))"
    using next_env_id_pos [OF R(4), of "env_id (envs s e)"] sint_pos [of "env_id (envs ?s e)"]
    by (simp add: forked_def new_env_def)
  then show "\<exists>s'. sys_exofork s = Ret (sint (env_id (envs s' e))) s' \<and> 0 < sint (env_id (envs s' e))
            \<and> kinv fl' el' s' \<and> envs s' = (envs s)(e := forked s c e p) \<and> (\<forall>va < UTOP. vpte s' p va = None)"
    using R(1-3) by (intro exI [of _ ?s]) simp
qed

theorem sys_exofork_correct_witness: "\<exists>s'. sys_exofork ks0 = Ret (sint (env_id (envs s' 1))) s' \<and> 0 < sint (env_id (envs s' 1))"
  using sys_exofork_correct [OF kinv_ks0 caller_ks0] el0_Cons by blast

section \<open>\<open>sys_ipc_try_send\<close>\<close>

definition delivered :: "u32 \<Rightarrow> u32 \<Rightarrow> u32 \<Rightarrow> Env \<Rightarrow> Env" where
  "delivered from value perm v = v\<lparr>env_ipc_perm := perm, env_ipc_recving := False, env_ipc_from := from,
     env_ipc_value := value, env_status := ENV_RUNNABLE,
     env_tf := (env_tf v)\<lparr>tf_regs := (tf_regs (env_tf v))\<lparr>reg_eax := 0\<rparr>\<rparr>\<rparr>"

lemma ipc_deliver_eq:
  "curenv s = Some c \<Longrightarrow> ipc_deliver e value perm s =
     Ret 0 (upd_env e (delivered (env_id (envs s c)) value perm) s)"
proof -
  assume cu: "curenv s = Some c"
  have "curenv (upd_env e f s) = Some c" "env_id (envs (upd_env e (\<lambda>v. v\<lparr>env_ipc_perm := perm, env_ipc_recving := False\<rparr>) s) c) = env_id (envs s c)" for f
    using cu by (simp_all add: curenv_def upd_env_def)
  then show ?thesis
    by (simp add: ipc_deliver_def Let_def upd_env_twice delivered_def [abs_def])
qed

lemma delivered_same: "env_status v \<noteq> ENV_FREE \<Longrightarrow> env_same (delivered a b d v) v"
  by (simp add: env_same_def delivered_def)

lemma kinv_delivered:
  "env_status (envs s e) \<noteq> ENV_FREE \<Longrightarrow> kinv fl el (upd_env e (delivered a b d) s) = kinv fl el s"
  by (rule kinv_upd_env(1)) (rule delivered_same)

lemma rounddown_same: "(va = ROUNDDOWN va n) \<longleftrightarrow> va mod n = 0"
  by (simp add: ROUNDDOWN_def)

lemma sys_ipc_run:
  assumes cu: "curenv s = Some c" and cpd: "env_pgdir (envs s c) = Some cpd"
    and n: "named s c False envid = Some e" and rc: "env_ipc_recving (envs s e)" and sv: "srcva < UTOP"
  shows "sys_ipc_try_send envid value srcva perm s =
      (if srcva mod PGSIZE \<noteq> 0 \<or> \<not> perm_ok perm then Ret (- E_INVAL) s
       else kbind (page_lookup cpd srcva s) (\<lambda>r s.
            case r of
              None \<Rightarrow> Ret (- E_INVAL) s
            | Some (pp, pt, i) \<Rightarrow>
                if nz (perm AND PTE_W) \<and> \<not> nz (pm s pt i AND PTE_W) then Ret (- E_INVAL) s
                else with_pgdir e s (\<lambda>epd.
                       kbind (page_insert epd pp (env_ipc_dstva (envs s e)) perm s) (\<lambda>r s.
                         if r < 0 then Ret (- E_INVAL) s else ipc_deliver e value perm s))))"
  using rc sv cu cpd
  unfolding sys_ipc_try_send_def envid2env_named [OF cu] n option.case kbind.simps prod.case with_env_Some rounddown_same
  by simp

text \<open>
  C23: \<open>sys_ipc_try_send\<close>: -E\_BAD\_ENV for an id that names no environment, -E\_IPC\_NOT\_RECV when the
  target is not waiting, -E\_INVAL for a bad page argument; nothing changes then. Otherwise the
  target receives value, sender and permission, stops waiting, is runnable and will see 0 as the
  result of its call; with a page argument the sender's page appears at the address that the
  target asked for (or, without memory for the page table, the result is -E\_INVAL and nothing
  changes). No other environment changes, and the kernel invariant is kept. The target's address
  is assumed to be below UTOP: the code does not check it.
\<close>

theorem sys_ipc_try_send_correct:
  assumes K: "kinv fl el s" and c: "caller s c" and cpd: "env_pgdir (envs s c) = Some cpd"
    and ref: "\<forall>v. vpte s cpd srcva = Some v \<longrightarrow> unat (pp_ref (pages s (ppn v))) < 65535"
    and dst: "\<forall>e. named s c False envid = Some e \<and> srcva < UTOP \<longrightarrow> env_ipc_dstva (envs s e) < UTOP"
  shows "case named s c False envid of
      None \<Rightarrow> sys_ipc_try_send envid value srcva perm s = Ret (- E_BAD_ENV) s
    | Some e \<Rightarrow>
        if \<not> env_ipc_recving (envs s e) then sys_ipc_try_send envid value srcva perm s = Ret (- E_IPC_NOT_RECV) s
        else if srcva \<ge> UTOP
        then \<exists>s'. sys_ipc_try_send envid value srcva perm s = Ret 0 s' \<and> kinv fl el s'
           \<and> s' = s\<lparr>envs := (envs s)(e := delivered (env_id (envs s c)) value 0 (envs s e))\<rparr>
        else if srcva mod PGSIZE \<noteq> 0 \<or> \<not> perm_ok perm \<or> vpte s cpd srcva = None
           \<or> nz (perm AND PTE_W) \<and> \<not> nz (the (vpte s cpd srcva) AND PTE_W)
        then sys_ipc_try_send envid value srcva perm s = Ret (- E_INVAL) s
        else sys_ipc_try_send envid value srcva perm s = Ret (- E_INVAL) s \<or>
          (\<exists>s' fl' epd. sys_ipc_try_send envid value srcva perm s = Ret 0 s' \<and> kinv fl' el s'
             \<and> envs s' = (envs s)(e := delivered (env_id (envs s c)) value perm (envs s e))
             \<and> env_pgdir (envs s e) = Some epd
             \<and> as_eq (env_pds s) (vpte s') (as_upd epd (env_ipc_dstva (envs s e))
                  (Some (page2pa (ppn (the (vpte s cpd srcva))) OR perm)) (vpte s)))"
proof -
  have cu: "curenv s = Some c" and l: "c \<in> live s" using c by (auto simp: caller_def)
  note sys = sys_ipc_try_send_def envid2env_named [OF cu]
  have cpd': "cpd \<in> env_pds s" using cpd l by (auto simp: env_pds_def)
  show ?thesis
  proof (cases "named s c False envid")
    case None
    then show ?thesis by (simp add: sys E_BAD_ENV_def)
  next
    case (Some e)
    note el = named_live [OF c Some]
    then have nf: "env_status (envs s e) \<noteq> ENV_FREE" by (simp add: live_def)
    obtain epd where epd: "env_pgdir (envs s e) = Some epd" "epd \<in> env_pds s" using live_pd [OF K el] .
    let ?d = "\<lambda>perm. delivered (env_id (envs s c)) value perm"
    show ?thesis
    proof (cases "\<not> env_ipc_recving (envs s e) \<or> srcva \<ge> UTOP")
      case True
      have "kinv fl el (upd_env e (?d 0) s)" using K kinv_delivered [OF nf] by blast
      then show ?thesis
        using True Some ipc_deliver_eq [OF cu] unfolding sys Some option.case kbind.simps prod.case with_env_Some
        by (auto simp: upd_env_def not_less [symmetric])
    next
      case False
      then have rc: "env_ipc_recving (envs s e)" and sv: "srcva < UTOP" by (auto simp: not_le)
      note body = sys_ipc_run [OF cu cpd Some rc sv]
      show ?thesis
      proof (cases "srcva mod PGSIZE \<noteq> 0 \<or> \<not> perm_ok perm \<or> vpte s cpd srcva = None")
        case True
        then have "sys_ipc_try_send envid value srcva perm s = Ret (- E_INVAL) s"
          unfolding body using lookup_none [OF K cpd' sv] by auto
        with False True Some show ?thesis by simp
      next
        case ok: False
        then obtain v where v: "vpte s cpd srcva = Some v" and po: "perm_ok perm" by auto
        have dv: "env_ipc_dstva (envs s e) < UTOP" using dst Some sv by blast
        from lookup_insert [OF K cpd' sv epd(2) dv po v] ref v
        obtain pt i where L: "page_lookup cpd srcva s = Ret (Some (ppn v, pt, i)) s" "pm s pt i = v"
          and R: "page_insert epd (ppn v) (env_ipc_dstva (envs s e)) perm s = Ret (- E_NO_MEM) s \<or>
            (\<exists>s' fl'. page_insert epd (ppn v) (env_ipc_dstva (envs s e)) perm s = Ret 0 s' \<and> kinv fl' el s' \<and> pg_frame s s'
              \<and> as_eq (env_pds s) (vpte s') (as_upd epd (env_ipc_dstva (envs s e)) (Some (page2pa (ppn v) OR perm)) (vpte s)))"
          by blast
        have body2: "sys_ipc_try_send envid value srcva perm s =
            (if nz (perm AND PTE_W) \<and> \<not> nz (v AND PTE_W) then Ret (- E_INVAL) s
             else kbind (page_insert epd (ppn v) (env_ipc_dstva (envs s e)) perm s) (\<lambda>r s.
                    if r < 0 then Ret (- E_INVAL) s else ipc_deliver e value perm s))"
          using ok epd(1) unfolding body L(1) by (simp add: L(2))
        show ?thesis
        proof (cases "nz (perm AND PTE_W) \<and> \<not> nz (v AND PTE_W)")
          case True
          then show ?thesis using False ok Some v body2 by simp
        next
          case w: False
          have "sys_ipc_try_send envid value srcva perm s = Ret (- E_INVAL) s \<or>
            (\<exists>s' fl'. sys_ipc_try_send envid value srcva perm s = Ret 0 s' \<and> kinv fl' el s'
             \<and> envs s' = (envs s)(e := ?d perm (envs s e))
             \<and> as_eq (env_pds s) (vpte s') (as_upd epd (env_ipc_dstva (envs s e)) (Some (page2pa (ppn v) OR perm)) (vpte s)))"
            using R
          proof (elim disjE exE conjE)
            assume "page_insert epd (ppn v) (env_ipc_dstva (envs s e)) perm s = Ret (- E_NO_MEM) s"
            then show ?thesis using w body2 by (simp add: E_NO_MEM_def)
          next
            fix s1 fl1
            assume i: "page_insert epd (ppn v) (env_ipc_dstva (envs s e)) perm s = Ret 0 s1" and K1: "kinv fl1 el s1"
              and F: "pg_frame s s1"
              and V: "as_eq (env_pds s) (vpte s1) (as_upd epd (env_ipc_dstva (envs s e)) (Some (page2pa (ppn v) OR perm)) (vpte s))"
            note f = pg_frame_fields [OF F]
            let ?s = "upd_env e (?d perm) s1"
            have "sys_ipc_try_send envid value srcva perm s = Ret 0 ?s"
              using ipc_deliver_eq [of s1 c e "value" perm] f cu unfolding body2 if_not_P [OF w] i by simp
            moreover have "kinv fl1 el ?s"
              using K1 kinv_delivered [of s1 e] nf f(1) by simp
            moreover have "envs ?s = (envs s)(e := ?d perm (envs s e))" "vpte ?s = vpte s1"
              using f(1) vpte_cong [of ?s s1] by (simp_all add: upd_env_def)
            ultimately show ?thesis using V by auto
          qed
          then show ?thesis using False ok Some v w epd(1) by auto
        qed
      qed
    qed
  qed
qed

theorem sys_ipc_try_send_correct_witness: "sys_ipc_try_send 0 5 0 7 ks0 = Ret (-7) ks0"
proof -
  have v: "vpte ks0 2 0 = None" by (simp add: vpte_def present_def)
  show ?thesis
    using sys_ipc_try_send_correct [OF kinv_ks0 caller_ks0, of 2 0 0 5 7] v
    by (simp add: named_ks0 env0_def const_simps)
qed

section \<open>Every system call keeps the invariant\<close>

definition ok_state :: "kstate \<Rightarrow> bool" where
  "ok_state s \<longleftrightarrow> (\<exists>fl el. kinv fl el s)"

lemma ok_stateI: "kinv fl el s \<Longrightarrow> ok_state s"
  by (auto simp: ok_state_def)

lemma kinv_run_st:
  assumes "e \<in> live s"
  shows "kinv fl el (run_st e pd s) = kinv fl el s"
proof (rule kinv_env_cong(1))
  show "env_same (envs (run_st e pd s) x) (envs s x)" for x
    using assms by (auto simp: run_st_def requeue_def env_same_def live_def split: option.split)
qed (simp_all add: run_st_def set_curenv_def upd_cpu_def)

lemma ok_sched_yield:
  assumes K: "kinv fl el s" and l: "holds_lock s" and c: "\<forall>c. curenv s = Some c \<longrightarrow> c < NENV"
  shows "ok_state (kst (sched_yield s))"
proof (cases "\<exists>r < NENV. runnable s r")
  case True
  then obtain r where r: "r < NENV" "runnable s r" by blast
  from sched_yield_runnable [OF K l r] obtain j pd where
    "runnable s j" "j < NENV" "sched_yield s = Exit (Run j) (run_st j pd s)"
    by (auto simp: Let_def NENV_def)
  then show ?thesis using K kinv_run_st [of j s] by (auto intro!: ok_stateI simp: live_def runnable_def)
next
  case False
  then have n: "\<And>e. e < NENV \<Longrightarrow> \<not> runnable s e" by blast
  note Y = sched_yield_idle [OF K l n]
  have halt: "ok_state (kst (sched_halt s))"
  proof -
    let ?s = "upd_cpu (cpu_status_update (\<lambda>_. CPU_HALTED)) (hw (Lcr3 (page2pa (kern_pgdir (set_curenv None s)))) (set_curenv None s))"
    have "kinv fl el (kst (unlock_kernel ?s)) = kinv fl el s"
      by (rule kinv_env_cong(1)) (simp_all add: unlock_kernel_def mem_simps env_same_def)
    moreover have "\<exists>t. unlock_kernel ?s = Ret () t"
      using l by (simp add: unlock_kernel_def holds_lock_def mem_simps)
    ultimately show ?thesis using K by (auto simp: sched_halt_def Let_def intro: ok_stateI)
  qed
  show ?thesis
  proof (cases "\<exists>c. curenv s = Some c \<and> env_status (envs s c) = ENV_RUNNING")
    case True
    then obtain x where x: "curenv s = Some x" "env_status (envs s x) = ENV_RUNNING" by blast
    then have L: "x \<in> live s" using c by (simp add: live_def)
    then obtain pd where pd: "env_pgdir (envs s x) = Some pd" using live_pd [OF K] by blast
    show ?thesis using Y x env_run_eq [OF l pd] K kinv_run_st [OF L] by (auto intro: ok_stateI)
  next
    case False
    then show ?thesis using Y halt by (auto split: option.splits)
  qed
qed

lemma holds_lock_cong: "kernel_lock s' = kernel_lock s \<Longrightarrow> cpunum s' = cpunum s \<Longrightarrow> holds_lock s' = holds_lock s"
  by (simp add: holds_lock_def)

lemma ok_env_destroy:
  assumes K: "kinv fl el s" and l: "holds_lock s" and c: "caller s c" and e: "e \<in> live s"
  shows "ok_state (kst (env_destroy e s))" "e = c \<Longrightarrow> \<exists>x t. env_destroy e s = Exit x t"
    "e \<noteq> c \<Longrightarrow> \<exists>t. env_destroy e s = Ret () t"
proof -
  have cu: "curenv s = Some c" "c < NENV" using c by (auto simp: caller_def live_def)
  obtain pd where pd: "env_pgdir (envs s e) = Some pd" using live_pd [OF K e] by blast
  obtain s1 fl1 where s1: "env_free e s = Ret () s1" "kinv fl1 (e # el) s1" "cpus s1 = cpus s" "cpunum s1 = cpunum s"
    "kernel_lock s1 = kernel_lock s"
    using env_free_full [OF K e pd] by blast
  have cu1: "curenv s1 = Some c" using s1(3,4) cu(1) by (simp add: curenv_def)
  have K2: "kinv fl1 (e # el) (set_curenv None s1)"
    using s1(2) by (subst kinv_env_cong(1) [of _ s1]) (simp_all add: mem_simps env_same_def)
  have l2: "holds_lock (set_curenv None s1)"
    using l s1(4,5) by (subst holds_lock_cong [of _ s]) (simp_all add: mem_simps)
  have c2: "curenv (set_curenv None s1) = None" by (simp add: mem_simps)
  have Y: "ok_state (kst (sched_yield (set_curenv None s1)))" using ok_sched_yield [OF K2 l2] c2 by simp
  have X: "\<exists>x t. sched_yield (set_curenv None s1) = Exit x t"
  proof (cases "\<exists>r < NENV. runnable (set_curenv None s1) r")
    case True
    then show ?thesis using sched_yield_runnable [OF K2 l2] unfolding Let_def by blast
  next
    case False
    then have n: "\<And>e. e < NENV \<Longrightarrow> \<not> runnable (set_curenv None s1) e" by blast
    show ?thesis
      using sched_yield_idle [OF K2 l2 n] c2 l2
      by (simp add: sched_halt_def Let_def unlock_kernel_def holds_lock_def mem_simps)
  qed
  have D: "kinv fl el (upd_env e (env_status_update (\<lambda>_. ENV_DYING)) s)"
    using K e kinv_upd_env(1) [of "env_status_update (\<lambda>_. ENV_DYING)" s e] by (simp add: env_same_def live_def)
  show "ok_state (kst (env_destroy e s))"
    using D Y s1(1,2) cu(1) cu1 by (auto simp: env_destroy_def intro: ok_stateI)
  show "\<exists>x t. env_destroy e s = Exit x t" if "e = c" using that X s1(1) cu(1) cu1 by (simp add: env_destroy_def)
  show "\<exists>t. env_destroy e s = Ret () t" if "e \<noteq> c" using that s1(1) cu(1) cu1 by (auto simp: env_destroy_def)
qed

lemma ok_cong:
  assumes "kinv fl el s" "npages s' = npages s" "pages s' = pages s" "page_free_list s' = page_free_list s" "pm s' = pm s"
    "kern_pgdir s' = kern_pgdir s" "env_free_list s' = env_free_list s" "envs s' = envs s"
  shows "ok_state s'"
  using kinv_env_cong(1) [of s' s fl el] assms by (auto intro!: ok_stateI simp: env_same_def)

lemma user_mem_check_loop_state:
  "\<exists>a. kst (user_mem_check_loop pd va perm i fin s) = s\<lparr>user_mem_check_addr := a\<rparr>"
proof (induction pd va perm i fin s rule: user_mem_check_loop.induct)
  case (1 pd va perm i fin s)
  let ?e = "pm s (ppn (pm s pd (unat (PDX i)))) (unat (PTX i))"
  have self: "\<exists>a. s = s\<lparr>user_mem_check_addr := a\<rparr>" by (rule exI [of _ "user_mem_check_addr s"]) simp
  have IH: "\<exists>a. kst (user_mem_check_loop pd va perm (i + PGSIZE) fin s) = s\<lparr>user_mem_check_addr := a\<rparr>"
    if "i < fin \<and> i < i + PGSIZE" "\<not> (ULIM \<le> i \<or> \<not> nz (?e AND PTE_P) \<or> (?e AND perm) \<noteq> perm)"
    by (rule 1 [OF that(1), of s "Some (ppn (pm s pd (unat (PDX i))), unat (PTX i))"]) (use that(2) in simp)
  have "kst (user_mem_check_loop pd va perm i fin s) = s
     \<or> (\<exists>a. kst (user_mem_check_loop pd va perm i fin s) = s\<lparr>user_mem_check_addr := a\<rparr>)
     \<or> (i < fin \<and> i < i + PGSIZE) \<and> \<not> (ULIM \<le> i \<or> \<not> nz (?e AND PTE_P) \<or> (?e AND perm) \<noteq> perm)
        \<and> user_mem_check_loop pd va perm i fin s = user_mem_check_loop pd va perm (i + PGSIZE) fin s"
    unfolding user_mem_check_loop.simps [of pd va perm i fin s] pgdir_walk_pure by auto
  then show ?case using IH self by metis
qed

lemma user_mem_check_state: "\<exists>a. kst (user_mem_check env va len perm s) = s\<lparr>user_mem_check_addr := a\<rparr>"
proof (cases "env_pgdir (envs s env)")
  case None
  then show ?thesis
    by (intro exI [of _ "user_mem_check_addr s"]) (simp add: user_mem_check_def with_pgdir_def)
next
  case (Some pd)
  then show ?thesis using user_mem_check_loop_state by (simp add: user_mem_check_def)
qed

definition io_same :: "kstate \<Rightarrow> kstate \<Rightarrow> bool" where
  "io_same s s' \<longleftrightarrow> (\<exists>con a. s' = s\<lparr>kcons := con, user_mem_check_addr := a\<rparr>)"

lemma io_same_ok: "io_same s s' \<Longrightarrow> kinv fl el s \<Longrightarrow> kinv fl el s'"
  using kinv_env_cong(1) [of s' s fl el] by (auto simp: io_same_def env_same_def)

lemma io_same_refl: "io_same s s"
  unfolding io_same_def by (intro exI [of _ "kcons s"] exI [of _ "user_mem_check_addr s"]) simp

lemma io_same_trans: "io_same a b \<Longrightarrow> io_same b c \<Longrightarrow> io_same a c"
  unfolding io_same_def by (elim exE) (simp, blast)

lemma io_same_check: "io_same s (kst (user_mem_check env va len perm s))"
proof -
  obtain a where "kst (user_mem_check env va len perm s) = s\<lparr>user_mem_check_addr := a\<rparr>"
    using user_mem_check_state by blast
  then show ?thesis unfolding io_same_def by (intro exI [of _ "kcons s"] exI [of _ a]) simp
qed

lemma io_same_print: "io_same s (s\<lparr>kcons := con\<rparr>)"
  unfolding io_same_def by (intro exI [of _ con] exI [of _ "user_mem_check_addr s"]) simp

lemma io_same_cputs_loop: "io_same s (kst (cputs_loop n pd p prec s))"
proof (induction n arbitrary: p prec s)
  case (Suc n)
  show ?case
    using io_same_refl io_same_trans [OF io_same_print Suc.IH] by (auto split: option.split)
qed (simp add: io_same_refl)

lemma io_same_print_user: "io_same s (kst (print_user p len s))"
  using io_same_print io_same_refl io_same_cputs_loop
  by (auto simp: print_user_def with_curenv_def with_pgdir_def split: option.split)

lemma io_same_fields:
  assumes "io_same s s'"
  shows "caller s' c = caller s c" "holds_lock s' = holds_lock s" "envs s' = envs s" "live s' = live s"
  using assms by (auto simp: io_same_def caller_def curenv_def live_def holds_lock_def)

text \<open>After a failed check the caller is destroyed, so the call does not come back.\<close>

lemma ok_check_then:
  assumes K: "kinv fl el s" and l: "holds_lock s" and c: "caller s c"
    and f: "\<And>s'. io_same s s' \<Longrightarrow> ok_state (kst (f s'))"
  shows "ok_state (kst (kbind (user_mem_check c va len perm s) (\<lambda>r s.
     kbind (if r < 0 then env_destroy c s else Ret () s) (\<lambda>_ s. f s))))"
proof (cases "user_mem_check c va len perm s")
  case (Ret r s')
  then have io: "io_same s s'" using io_same_check [of s c va len perm] by simp
  note F = io_same_fields [OF io]
  have L: "c \<in> live s'" using c F(4) by (simp add: caller_def)
  note D = ok_env_destroy [OF io_same_ok [OF io K], of c c]
  show ?thesis
  proof (cases "r < 0")
    case True
    then obtain x t where "env_destroy c s' = Exit x t" using D(2) F l c L by auto
    then show ?thesis using Ret True D(1) F l c L by auto
  next
    case False
    then show ?thesis using Ret f [OF io] by simp
  qed
qed (use io_same_check [of s c va len perm] io_same_ok [OF _ K] ok_stateI in auto)

lemma ok_named:
  assumes "kinv fl el s" "caller s c" "\<And>e. e \<in> live s \<Longrightarrow> ok_state (kst (f (0, Some e) s))"
    "ok_state (kst (f (- E_BAD_ENV, None) s))"
  shows "ok_state (kst (kbind (envid2env envid chk s) f))"
  using assms(2-4) named_live [OF assms(2)] by (auto simp: envid2env_named caller_def split: option.split)

lemma ok_upd_env:
  "kinv fl el s \<Longrightarrow> env_same (f (envs s e)) (envs s e) \<Longrightarrow> ok_state (upd_env e f s)"
  using kinv_upd_env(1) [of f s e fl el] by (auto intro: ok_stateI)

lemma ok_lookup_insert:
  assumes K: "kinv fl el s" and spd: "spd \<in> env_pds s" and sva: "sva < UTOP"
    and d: "env_pgdir (envs s d) = Some dpd" "dpd \<in> env_pds s" and dva: "dva < UTOP" and perm: "perm_ok perm"
    and ref: "\<forall>p. unat (pp_ref (pages s p)) < 65535"
    and k: "\<And>r s' fl'. kinv fl' el s' \<Longrightarrow> pg_frame s s' \<Longrightarrow> ok_state (kst (k r s'))"
  shows "ok_state (kst (kbind (page_lookup spd sva s) (\<lambda>r s.
      case r of None \<Rightarrow> Ret x s
      | Some (pp, pt, i) \<Rightarrow> if w pt i s then Ret y s
          else with_pgdir d s (\<lambda>dpd. kbind (page_insert dpd pp dva perm s) k))))"
proof (cases "vpte s spd sva")
  case None
  then show ?thesis using lookup_none [OF K spd sva] ok_stateI [OF K] by simp
next
  case (Some v)
  from lookup_insert [OF K spd sva d(2) dva perm Some] ref obtain pt i where
    L: "page_lookup spd sva s = Ret (Some (ppn v, pt, i)) s"
    and R: "page_insert dpd (ppn v) dva perm s = Ret (- E_NO_MEM) s \<or>
       (\<exists>s' fl'. page_insert dpd (ppn v) dva perm s = Ret 0 s' \<and> kinv fl' el s' \<and> pg_frame s s')" by blast
  have "ok_state (kst (kbind (page_insert dpd (ppn v) dva perm s) k))"
    using R k K pg_frame_refl by (elim disjE exE conjE) auto
  then show ?thesis using L d(1) ok_stateI [OF K] by simp
qed

lemma ok_page_alloc:
  assumes K: "kinv fl el s" and c: "caller s c" and va: "va \<noteq> UTOP"
  shows "ok_state (kst (sys_page_alloc envid va perm s))"
proof (cases "named s c True envid")
  case None
  then show ?thesis
    using c ok_stateI [OF K] by (simp add: sys_page_alloc_def envid2env_named caller_def E_BAD_ENV_def)
next
  case (Some e)
  have cu: "curenv s = Some c" using c by (simp add: caller_def)
  obtain pd where pd: "env_pgdir (envs s e) = Some pd" "pd \<in> env_pds s"
    using live_pd [OF K named_live [OF c Some]] .
  have fr: "page_alloc 1 s = Ret (Some pp) s1 \<Longrightarrow> env_pgdir (envs s1 e) = Some pd" for pp s1
    using pg_frame_fields(1) [OF frame_Ret(1)] pd(1) by metis
  show ?thesis
  proof (cases "\<not> UTOP < va \<and> va mod PGSIZE = 0 \<and> perm_ok perm")
    case True
    then have "va < UTOP" "perm_ok perm" using va by auto
    then obtain s' fl' where s': "kinv fl' el s'" and A: "case page_alloc 1 s of
        Ret (Some pp) s1 \<Rightarrow>
          (\<exists>s2. page_insert pd pp va perm s1 = Ret (- E_NO_MEM) s2 \<and> page_free pp s2 = Ret () s') \<or>
          page_insert pd pp va perm s1 = Ret 0 s'
      | r \<Rightarrow> r = Ret None s"
    proof -
      assume h: "va < UTOP" "perm_ok perm"
        and t: "\<And>fl' s'. kinv fl' el s' \<Longrightarrow> case page_alloc 1 s of
          Ret (Some pp) s1 \<Rightarrow>
            (\<exists>s2. page_insert pd pp va perm s1 = Ret (- E_NO_MEM) s2 \<and> page_free pp s2 = Ret () s') \<or>
            page_insert pd pp va perm s1 = Ret 0 s'
        | r \<Rightarrow> r = Ret None s \<Longrightarrow> thesis"
      show thesis
        using alloc_insert [OF K pd(2) h] by (elim exE conjE, intro t) (assumption, auto split: kres.splits option.splits)
    qed
    show ?thesis
    proof (cases "page_alloc 1 s")
      case (Ret r s1)
      then show ?thesis
        using A True Some fr ok_stateI [OF s'] ok_stateI [OF K]
        by (auto simp: sys_page_alloc_def envid2env_named [OF cu] E_NO_MEM_def split: option.splits)
    qed (use A in auto)
  next
    case False
    then show ?thesis using Some ok_stateI [OF K] by (auto simp: sys_page_alloc_def envid2env_named [OF cu])
  qed
qed

lemma ok_page_map:
  assumes K: "kinv fl el s" and c: "caller s c" and ref: "\<forall>p. unat (pp_ref (pages s p)) < 65535"
  shows "ok_state (kst (sys_page_map srcid srcva dstid dstva perm s))"
proof (cases "named s c True srcid = None \<or> named s c True dstid = None")
  case True
  then show ?thesis using c ok_stateI [OF K] by (simp add: sys_page_map_guards(1) caller_def)
next
  case False
  have cu: "curenv s = Some c" using c by (simp add: caller_def)
  obtain src dst where n: "named s c True srcid = Some src" "named s c True dstid = Some dst" using False by auto
  obtain spd dpd where p: "env_pgdir (envs s src) = Some spd" "spd \<in> env_pds s"
    "env_pgdir (envs s dst) = Some dpd" "dpd \<in> env_pds s"
    using live_pd [OF K named_live [OF c n(1)]] live_pd [OF K named_live [OF c n(2)]] by metis
  show ?thesis
  proof (cases "map_args_ok srcva dstva perm")
    case True
    then have "srcva < UTOP" "dstva < UTOP" "perm_ok perm" by (auto simp: map_args_ok_def)
    then show ?thesis
      unfolding sys_page_map_run [OF cu n True p(1)]
      by (intro ok_lookup_insert [OF K p(2) _ p(3,4) _ _ ref]) (auto intro: ok_stateI)
  next
    case False
    then show ?thesis using sys_page_map_guards(2) [OF cu n False] ok_stateI [OF K] by simp
  qed
qed

lemma ok_ipc_send:
  assumes K: "kinv fl el s" and c: "caller s c" and ref: "\<forall>p. unat (pp_ref (pages s p)) < 65535"
    and dst: "\<forall>e \<in> live s. env_ipc_recving (envs s e) \<longrightarrow> env_ipc_dstva (envs s e) < UTOP"
  shows "ok_state (kst (sys_ipc_try_send envid value srcva perm s))"
proof (cases "named s c False envid")
  case None
  then show ?thesis
    using c ok_stateI [OF K] by (simp add: sys_ipc_try_send_def envid2env_named caller_def E_BAD_ENV_def)
next
  case (Some e)
  have cu: "curenv s = Some c" and l: "c \<in> live s" using c by (auto simp: caller_def)
  note e = named_live [OF c Some]
  obtain cpd epd where p: "env_pgdir (envs s c) = Some cpd" "cpd \<in> env_pds s"
    "env_pgdir (envs s e) = Some epd" "epd \<in> env_pds s"
    using live_pd [OF K l] live_pd [OF K e] by metis
  have del: "ok_state (kst (ipc_deliver e v q s'))" if "kinv fl' el s'" "pg_frame s s'" for fl' s' v q
    using that ipc_deliver_eq [of s' c e v q] pg_frame_fields [OF that(2)] cu e kinv_delivered [of s' e]
    by (auto simp: live_def intro: ok_stateI)
  show ?thesis
  proof (cases "env_ipc_recving (envs s e) \<and> srcva < UTOP")
    case True
    then have rc: "env_ipc_recving (envs s e)" and sv: "srcva < UTOP" by auto
    have "ok_state (kst (kbind (page_lookup cpd srcva s) (\<lambda>r s. case r of None \<Rightarrow> Ret (- E_INVAL) s
        | Some (pp, pt, i) \<Rightarrow> if nz (perm AND PTE_W) \<and> \<not> nz (pm s pt i AND PTE_W) then Ret (- E_INVAL) s
            else with_pgdir e s (\<lambda>epd. kbind (page_insert epd pp (env_ipc_dstva (envs s e)) perm s) (\<lambda>r s.
                   if r < 0 then Ret (- E_INVAL) s else ipc_deliver e value perm s)))))"
      if "perm_ok perm"
    proof (cases "vpte s cpd srcva")
      case None
      then show ?thesis using lookup_none [OF K p(2) sv] ok_stateI [OF K] by simp
    next
      case v: (Some v)
      have dv: "env_ipc_dstva (envs s e) < UTOP" using dst e rc by blast
      from lookup_insert [OF K p(2) sv p(4) dv that v] ref obtain pt i where
        L: "page_lookup cpd srcva s = Ret (Some (ppn v, pt, i)) s"
        and R: "page_insert epd (ppn v) (env_ipc_dstva (envs s e)) perm s = Ret (- E_NO_MEM) s \<or>
          (\<exists>s' fl'. page_insert epd (ppn v) (env_ipc_dstva (envs s e)) perm s = Ret 0 s' \<and> kinv fl' el s' \<and> pg_frame s s')"
        by blast
      show ?thesis using L R p(3) del ok_stateI [OF K] by (auto simp: E_NO_MEM_def)
    qed
    then show ?thesis unfolding sys_ipc_run [OF cu p(1) Some rc sv] using ok_stateI [OF K] by simp
  next
    case False
    then show ?thesis
      using del [OF K pg_frame_refl] ok_stateI [OF K] Some
      by (auto simp: sys_ipc_try_send_def envid2env_named [OF cu])
  qed
qed

lemma ok_cputs:
  assumes K: "kinv fl el s" and l: "holds_lock s" and c: "caller s c"
    and k: "\<And>s'. kinv fl el s' \<Longrightarrow> ok_state (kst (k () s'))"
  shows "ok_state (kst (kbind (sys_cputs p len s) k))"
proof -
  have cu: "curenv s = Some c" using c by (simp add: caller_def)
  have fin: "ok_state (kst (kbind (print_user p len s') k))" if "io_same s s'" for s'
  proof (cases "print_user p len s'")
    case (Ret u t)
    then have "kinv fl el t" using io_same_ok [OF io_same_trans [OF that io_same_print_user] K, of p len] by simp
    then show ?thesis using Ret k by simp
  qed (use io_same_ok [OF io_same_trans [OF that io_same_print_user] K, of p len] ok_stateI in auto)
  show ?thesis
    unfolding sys_cputs_def with_curenv_Some [OF cu] kbind_assoc
    using ok_check_then [OF K l c, of "\<lambda>s. kbind (print_user p len s) k" p len PTE_U] fin by (simp add: kbind_assoc)
qed

lemma ok_exofork:
  assumes K: "kinv fl el s" and c: "caller s c"
  shows "ok_state (kst (sys_exofork s))"
proof (cases "fl = [] \<or> el = []")
  case True
  then show ?thesis using exofork_fail [OF K c] ok_stateI [OF K] by simp
next
  case False
  then obtain p fl' e el' where "fl = p # fl'" "el = e # el'" by (meson neq_Nil_conv)
  then show ?thesis using exofork_run(1,2) [OF _ c refl] K ok_stateI by fastforce
qed

lemma ok_ipc_recv:
  assumes K: "kinv fl el s" and l: "holds_lock s" and c: "caller s c"
  shows "ok_state (kst (sys_ipc_recv dstva s))"
proof -
  have cu: "curenv s = Some c" and cl: "c \<in> live s" using c by (auto simp: caller_def)
  let ?f = "\<lambda>v. v\<lparr>env_ipc_recving := True, env_ipc_dstva := dstva, env_status := ENV_NOT_RUNNABLE\<rparr>"
  have K': "kinv fl el (upd_env c ?f s)"
    using K kinv_upd_env(1) [of ?f s c fl el] cl by (simp add: env_same_def live_def)
  have "ok_state (kst (sched_yield (upd_env c ?f s)))"
    using cu cl l by (intro ok_sched_yield [OF K']) (auto simp: holds_lock_def upd_env_def curenv_def live_def)
  then show ?thesis
    using ok_stateI [OF K] cu by (cases "sched_yield (upd_env c ?f s)") (auto simp: sys_ipc_recv_def Let_def)
qed

lemma ok_set_env:
  assumes K: "kinv fl el s" and c: "caller s c"
  shows "ok_state (kst (sys_env_set_status envid status s))" "ok_state (kst (sys_env_set_pgfault_upcall envid func s))"
    "ok_state (kst (sys_page_unmap envid va s))"
proof -
  show "ok_state (kst (sys_env_set_status envid status s))"
    unfolding sys_env_set_status_def
    by (rule ok_named [OF K c]) (auto intro!: ok_upd_env [OF K] simp: ok_stateI [OF K] env_same_def live_def E_BAD_ENV_def)
  show "ok_state (kst (sys_env_set_pgfault_upcall envid func s))"
    unfolding sys_env_set_pgfault_upcall_def
    by (rule ok_named [OF K c]) (auto intro!: ok_upd_env [OF K] simp: ok_stateI [OF K] env_same_def E_BAD_ENV_def)
  show "ok_state (kst (sys_page_unmap envid va s))"
  proof (cases "named s c True envid")
    case None
    then show ?thesis using c ok_stateI [OF K] by (simp add: sys_page_unmap_def envid2env_named caller_def E_BAD_ENV_def)
  next
    case (Some e)
    have cu: "curenv s = Some c" using c by (simp add: caller_def)
    obtain pd where pd: "env_pgdir (envs s e) = Some pd" "pd \<in> env_pds s"
      using live_pd [OF K named_live [OF c Some]] .
    show ?thesis
    proof (cases "va < UTOP")
      case True
      obtain s' fl' where "page_remove pd va s = Ret () s'" "kinv fl' el s'"
        using kinv_page_remove [OF K pd(2) True] by blast
      then show ?thesis
        using Some pd(1) ok_stateI [OF K] by (auto simp: sys_page_unmap_def envid2env_named [OF cu] intro: ok_stateI)
    next
      case False
      then show ?thesis
        using Some ok_stateI [OF K] by (simp add: sys_page_unmap_def envid2env_named [OF cu] not_less)
    qed
  qed
qed

lemma ok_syscall:
  assumes K: "kinv fl el s" and l: "holds_lock s" and c: "caller s c"
    and ref: "\<forall>p. unat (pp_ref (pages s p)) < 65535"
    and utop: "syscallno = 4 \<longrightarrow> a2 \<noteq> UTOP"
    and dst: "\<forall>e \<in> live s. env_ipc_recving (envs s e) \<longrightarrow> env_ipc_dstva (envs s e) < UTOP"
  shows "ok_state (kst (syscall syscallno a1 a2 a3 a4 a5 s))"
proof -
  have cu: "curenv s = Some c" "c < NENV" using c by (auto simp: caller_def live_def)
  have cputs: "ok_state (kst (kbind (user_mem_assert c a1 a2 (PTE_U OR PTE_P) s) (\<lambda>_ s.
      kbind (sys_cputs a1 a2 s) (\<lambda>_ s. Ret (0 :: int) s))))"
  proof -
    have f: "ok_state (kst (kbind (sys_cputs a1 a2 s') (\<lambda>_ s. Ret (0 :: int) s)))" if "io_same s s'" for s'
      using io_same_ok [OF that K] io_same_fields [OF that] l c
      by (intro ok_cputs [of fl el s' c]) (auto intro: ok_stateI)
    show ?thesis
      unfolding user_mem_assert_def kbind_assoc
      by (rule ok_check_then [OF K l c f])
  qed
  have destroy: "ok_state (kst (sys_env_destroy a1 s))"
  proof (cases "named s c True a1")
    case None
    then show ?thesis using cu ok_stateI [OF K] by (simp add: sys_env_destroy_def envid2env_named E_BAD_ENV_def)
  next
    case (Some e)
    note D = ok_env_destroy [OF K l c named_live [OF c Some]]
    show ?thesis
      using Some cu D(1) by (cases "env_destroy e s") (simp_all add: sys_env_destroy_def envid2env_named)
  qed
  have cgetc: "ok_state (kst (sys_cgetc s))"
    using io_same_ok [OF io_same_print K] by (auto simp: sys_cgetc_def intro: ok_stateI split: prod.split)
  have yld: "ok_state (kst (kbind (sys_yield s) (\<lambda>_ s. Ret (0 :: int) s)))"
    using ok_sched_yield [OF K l] cu by (cases "sched_yield s") (auto simp: sys_yield_def)
  show ?thesis
    unfolding syscall_def with_curenv_Some [OF cu(1)]
    using cputs destroy cgetc yld ok_page_alloc [OF K c] utop ok_page_map [OF K c ref] ok_set_env [OF K c]
      ok_exofork [OF K c] ok_ipc_send [OF K c ref dst] ok_ipc_recv [OF K l c] ok_stateI [OF K] cu(1)
    by (simp add: sys_getenvid_def)
qed



end
