(* ===== verification/UserStore.thy ===== *)
theory UserStore
  imports SysEnv
begin

text \<open>
  Stores of the kernel through an environment's page tables below UTOP: they change the contents of
  one mapped page and neither the page tables nor the bookkeeping, and what is stored is what a
  later load through the same tables returns.
\<close>

section \<open>A store keeps the invariant\<close>

text \<open>A page that a table entry refers to is neither a directory nor a table.\<close>

lemma leaf_not_table:
  assumes I: "page_inv pds fl s" and t: "tgt pds s (SPte pd i j) = Some p"
  shows "tgt pds s (SPde pd' i') \<noteq> Some p" "p \<notin> pds"
proof -
  note u = acct_table_unique [OF page_inv_acct [OF I]]
  show "tgt pds s (SPde pd' i') \<noteq> Some p" using u [of "SPde pd' i'" p "SPte pd i j"] t by auto
  show "p \<notin> pds" using u [of "SPd p" p "SPte pd i j"] t by (auto simp: tgt_SPd)
qed

lemma tgt_leaf_write:
  assumes I: "page_inv pds fl s" and t: "tgt pds s (SPte pd i j) = Some p"
  shows "tgt pds (set_pm p k v s) = tgt pds s"
proof
  fix sl
  note L = leaf_not_table [OF I t]
  have de: "tgt pds (set_pm p k v s) (SPde pd' i') = tgt pds s (SPde pd' i')" for pd' i'
    using L(2) by (cases "pd' \<in> pds") (auto simp: tgt.simps set_pm_def)
  show "tgt pds (set_pm p k v s) sl = tgt pds s sl"
  proof (cases sl)
    case (SPte pd' i' j')
    then show ?thesis
      using L(1) [of pd' i'] unfolding SPte tgt_SPte de by (auto simp: set_pm_def split: option.split)
  qed (simp_all add: de tgt_SPd)
qed

lemma page_inv_leaf_write:
  assumes I: "page_inv pds fl s" and t: "tgt pds s (SPte pd i j) = Some p"
  shows "page_inv pds fl (set_pm p k v s)"
proof -
  have "ptes_ok pds (set_pm p k v s)"
    using I leaf_not_table(1) [OF I t] tgt_leaf_write [OF I t]
    by (intro ptes_ok_cong [of pds "set_pm p k v s" s]) (auto simp: set_pm_def page_inv_def)
  then show ?thesis
    using I tgt_leaf_write [OF I t, of k v] by (simp add: page_inv_def free_ok_def set_pm_def)
qed

lemma kinv_leaf_write:
  assumes K: "kinv fl el s" and t: "tgt (env_pds s) s (SPte pd i j) = Some p"
  shows "kinv fl el (set_pm p k v s)"
proof (rule kinv_frame [OF K])
  note I = kinvD(1) [OF K]
  show "page_inv (env_pds s) fl (set_pm p k v s)" by (rule page_inv_leaf_write [OF I t])
  show "pg_frame s (set_pm p k v s)" by simp
  have ne: "kern_pgdir s \<noteq> p" using kern_not_owned [OF K] t by (auto simp: owned_def ran_def)
  then show "pm (set_pm p k v s) (kern_pgdir s) = pm s (kern_pgdir s)" by (simp add: set_pm_def)
  show "kern_pgdir s \<notin> owned (env_pds s) fl (set_pm p k v s)"
    using kern_not_owned [OF K] tgt_leaf_write [OF I t, of k v] by (simp add: owned_def)
qed

text \<open>Only memory pages differ.\<close>

definition mem_only :: "kstate \<Rightarrow> kstate \<Rightarrow> bool" where
  "mem_only s s' \<longleftrightarrow> (\<exists>m. s' = s\<lparr>pm := m\<rparr>)"

lemma mem_only_refl: "mem_only s s"
  unfolding mem_only_def by (rule exI [of _ "pm s"]) simp

lemma mem_only_trans: "mem_only a b \<Longrightarrow> mem_only b c \<Longrightarrow> mem_only a c"
  by (auto simp: mem_only_def)

lemma mem_only_fields:
  assumes "mem_only s s'"
  shows "envs s' = envs s" "cpus s' = cpus s" "cpunum s' = cpunum s" "kernel_lock s' = kernel_lock s"
    "env_pds s' = env_pds s" "live s' = live s" "curenv s' = curenv s" "holds_lock s' = holds_lock s" "caller s' = caller s"
  using assms by (auto simp: mem_only_def env_pds_def live_def curenv_def holds_lock_def caller_def fun_eq_iff)

lemma present_and: "(e AND (PTE_P OR PTE_W)) = PTE_P OR PTE_W \<Longrightarrow> present e"
proof -
  assume "(e AND (PTE_P OR PTE_W)) = PTE_P OR PTE_W"
  then have "(e AND (PTE_P OR PTE_W)) AND PTE_P = PTE_P" by (simp add: const_simps)
  then show ?thesis by (auto simp: present_def and.assoc const_simps)
qed

lemma vplace_leaf:
  assumes "pd \<in> env_pds s" "va < UTOP" "vplace s pd (PTE_P OR PTE_W) va = Some (p, i, k)"
  shows "tgt (env_pds s) s (SPte pd (unat (PDX va)) (unat (PTX va))) = Some p"
  using assms below_UTOP_PDX [OF assms(2)] PTX_lt [of va]
  by (auto simp: vplace_def Let_def tgt.simps present_and split: if_splits)

lemma vstore8_keeps:
  assumes "kinv fl el s" "pd \<in> env_pds s" "va < UTOP"
  shows "kinv fl el (kst (vstore8 pd va b s))" "mem_only s (kst (vstore8 pd va b s))"
  using assms kinv_leaf_write [OF assms(1) vplace_leaf [OF assms(2,3)]] mem_only_refl
  by (auto simp: vstore8_def mem_only_def set_pm_def split: option.split)

lemma below_UTOP_add: "unat va + n \<le> unat UTOP \<Longrightarrow> j < n \<Longrightarrow> va + word_of_nat j < UTOP"
proof -
  assume a: "unat va + n \<le> unat UTOP" "j < n"
  then have "unat va + j < 4294967296" using unat_lt32 [of UTOP] by linarith
  then have "unat (va + word_of_nat j) = unat va + j" by (simp add: unat_plus32 unat_word_of_nat32)
  then show ?thesis using a by (simp add: word_less_nat_alt)
qed

lemma vstore_loop_keeps:
  assumes "kinv fl el s" "pd \<in> env_pds s" "unat va + n \<le> unat UTOP"
  shows "kinv fl el (kst (vstore_loop pd va f n s)) \<and> mem_only s (kst (vstore_loop pd va f n s))"
  using assms(3)
proof (induction n)
  case 0
  then show ?case using assms(1) mem_only_refl by simp
next
  case (Suc n)
  then have IH: "kinv fl el (kst (vstore_loop pd va f n s))" "mem_only s (kst (vstore_loop pd va f n s))" by auto
  have va: "va + word_of_nat n < UTOP" using below_UTOP_add [OF Suc.prems, of n] by simp
  show ?case
  proof (cases "vstore_loop pd va f n s")
    case (Ret u t)
    then have t: "kinv fl el t" "mem_only s t" "pd \<in> env_pds t" using IH mem_only_fields assms(2) by auto
    show ?thesis
      using vstore8_keeps [OF t(1,3) va, of "f n"] mem_only_trans [OF t(2)] Ret by auto
  qed (use IH in auto)
qed

section \<open>Reading back\<close>

lemma vplace_write:
  assumes I: "page_inv pds fl s" and t: "tgt pds s (SPte pd' i j) = Some p" and pd: "pd \<in> pds" and va: "va < UTOP"
    and P: "present (pm s pd (unat (PDX va)))"
  shows "vplace (set_pm p k v s) pd perm va = vplace s pd perm va"
proof -
  have d: "tgt pds s (SPde pd (unat (PDX va))) = Some (ppn (pm s pd (unat (PDX va))))"
    using tgt_present [OF pd below_UTOP_PDX [OF va] P] .
  note L = leaf_not_table [OF I t]
  have "pd \<noteq> p" using L(2) pd by auto
  moreover have "ppn (pm s pd (unat (PDX va))) \<noteq> p" using L(1) d by metis
  ultimately show ?thesis by (simp add: vplace_def set_pm_def Let_def)
qed

text \<open>All \<open>n\<close> bytes from \<open>va\<close> on may be written by the kernel.\<close>

definition writable :: "kstate \<Rightarrow> nat \<Rightarrow> u32 \<Rightarrow> nat \<Rightarrow> bool" where
  "writable s pd va n \<longleftrightarrow> (\<forall>j < n. vplace s pd (PTE_P OR PTE_W) (va + word_of_nat j) \<noteq> None)"

lemma vplace_perm:
  "vplace s pd (PTE_P OR PTE_W) va = Some r \<Longrightarrow> vplace s pd PTE_P va = Some r"
  "vplace s pd (PTE_P OR PTE_W) va = Some r \<Longrightarrow> present (pm s pd (unat (PDX va)))"
proof -
  have e: "(x AND PTE_P) = PTE_P" if "(x AND (PTE_P OR PTE_W)) = PTE_P OR PTE_W" for x
  proof -
    have "(x AND (PTE_P OR PTE_W)) AND PTE_P = PTE_P" using that by (simp add: const_simps)
    then show ?thesis by (simp add: and.assoc const_simps)
  qed
  show "vplace s pd (PTE_P OR PTE_W) va = Some r \<Longrightarrow> vplace s pd PTE_P va = Some r"
    using e by (auto simp: vplace_def Let_def split: if_splits)
  show "vplace s pd (PTE_P OR PTE_W) va = Some r \<Longrightarrow> present (pm s pd (unat (PDX va)))"
    using present_and by (auto simp: vplace_def Let_def split: if_splits)
qed

lemma vplace_off: "vplace s pd perm va = Some (p, i, k) \<Longrightarrow> unat (PGOFF va) = 4 * i + k \<and> k < 4"
  by (auto simp: vplace_def Let_def split: if_splits)

lemma add_mod_inj: "(a + i) mod m = (a + j) mod m \<Longrightarrow> i < m \<Longrightarrow> j < m \<Longrightarrow> i = j" for a i j m :: nat
proof (induction i j rule: linorder_wlog)
  case (le i j)
  then have "m dvd (a + j) - (a + i)" using mod_eq_dvd_iff_nat [of "a + i" "a + j" m] by simp
  then have "m dvd j - i" by simp
  then show ?case using le by (metis dvd_imp_le not_less diff_is_0_eq le_antisym less_imp_diff_less neq0_conv)
qed simp

lemma PGOFF_apart:
  assumes "unat va + n \<le> unat UTOP" "i < n" "j < n" "i \<noteq> j" "n \<le> 4096"
  shows "PGOFF (va + word_of_nat i) \<noteq> PGOFF (va + word_of_nat j)"
proof
  have u: "unat (va + word_of_nat k) = unat va + k" if "k < n" for k
  proof -
    have "unat va + k < 4294967296" using assms(1) that unat_lt32 [of UTOP] by linarith
    then show ?thesis by (simp add: unat_plus32 unat_word_of_nat32)
  qed
  assume "PGOFF (va + word_of_nat i) = PGOFF (va + word_of_nat j)"
  then have "(unat va + i) mod 4096 = (unat va + j) mod 4096"
    using u assms(2,3) by (metis unat_PGOFF)
  then show False using assms(2-5)
    by (metis add_mod_inj less_le_trans)
qed


lemma vstore_loop_run:
  assumes K: "kinv fl el s" and pd: "pd \<in> env_pds s" and ut: "unat va + n \<le> unat UTOP" and n: "n \<le> 4096"
    and w: "writable s pd va n" and k: "k \<le> n"
  shows "\<exists>s'. vstore_loop pd va f k s = Ret () s' \<and> kinv fl el s' \<and> mem_only s s'
    \<and> (\<forall>j < n. \<forall>perm. vplace s' pd perm (va + word_of_nat j) = vplace s pd perm (va + word_of_nat j))
    \<and> (\<forall>j < k. vload8 s' pd (va + word_of_nat j) = Some (f j))"
  using k
proof (induction k)
  case 0
  then show ?case using K mem_only_refl by simp
next
  case (Suc k)
  then obtain s1 where s1: "vstore_loop pd va f k s = Ret () s1" "kinv fl el s1" "mem_only s s1"
    "\<And>j perm. j < n \<Longrightarrow> vplace s1 pd perm (va + word_of_nat j) = vplace s pd perm (va + word_of_nat j)"
    "\<And>j. j < k \<Longrightarrow> vload8 s1 pd (va + word_of_nat j) = Some (f j)" by auto
  let ?a = "va + word_of_nat k"
  have kn: "k < n" using Suc.prems by simp
  have pd1: "pd \<in> env_pds s1" using pd mem_only_fields(5) [OF s1(3)] by simp
  have a: "?a < UTOP" using below_UTOP_add [OF ut kn] .
  obtain p i b where pl: "vplace s1 pd (PTE_P OR PTE_W) ?a = Some (p, i, b)"
    using w s1(4) [OF kn] kn by (fastforce simp: writable_def)
  let ?s = "set_pm p i (set_byte b (f k) (pm s1 p i)) s1"
  have st: "vstore8 pd ?a (f k) s1 = Ret () ?s" using pl by (simp add: vstore8_def)
  note leaf = vplace_leaf [OF pd1 a pl]
  have vp: "vplace ?s pd perm (va + word_of_nat j) = vplace s1 pd perm (va + word_of_nat j)" if "j < n" for j perm
    using vplace_write [OF kinvD(1) [OF s1(2)] leaf pd1 below_UTOP_add [OF ut that]] vplace_perm(2) w s1(4) [OF that] that
    by (fastforce simp: writable_def)
  have ld: "vload8 ?s pd (va + word_of_nat j) = Some (f j)" if j: "j < Suc k" for j
  proof -
    have jn: "j < n" using j kn by simp
    obtain q i' b' where q: "vplace s1 pd (PTE_P OR PTE_W) (va + word_of_nat j) = Some (q, i', b')"
      using w s1(4) [OF jn] jn by (fastforce simp: writable_def)
    note q' = vplace_perm(1) [OF q]
    have b: "b < 4" "b' < 4" using vplace_off [OF pl] vplace_off [OF q] by auto
    have "vload8 ?s pd (va + word_of_nat j) = Some (get_byte b' (pm ?s q i'))"
      using q' vp [OF jn] by (simp add: vload8_def)
    moreover have "get_byte b' (pm ?s q i') = f j"
    proof (cases "j = k")
      case True
      then show ?thesis using pl q b by (simp add: set_pm_def get_set_byte)
    next
      case False
      then have "PGOFF (va + word_of_nat j) \<noteq> PGOFF ?a" using PGOFF_apart [OF ut jn kn _ n] by simp
      then have "i' \<noteq> i \<or> b' \<noteq> b" using vplace_off [OF pl] vplace_off [OF q] by (metis word_unat_eq_iff)
      moreover have "get_byte b' (pm s1 q i') = f j"
        using s1(5) [of j] j False q' by (simp add: vload8_def)
      ultimately show ?thesis using b by (auto simp: set_pm_def get_set_byte)
    qed
    ultimately show ?thesis by simp
  qed
  show ?case
    using s1(1) st kinv_leaf_write [OF s1(2), of pd] leaf mem_only_fields(5) [OF s1(3)] s1(3) vp s1(4) ld
    by (intro exI [of _ ?s]) (auto simp: mem_only_def set_pm_def)
qed

section \<open>Words\<close>

primrec vstore_words :: "nat \<Rightarrow> u32 \<Rightarrow> u32 list \<Rightarrow> kstate \<Rightarrow> unit kres" where
  "vstore_words pd va [] s = Ret () s"
| "vstore_words pd va (w # ws) s = kbind (vstore32 pd va w s) (\<lambda>_ s. vstore_words pd (va + 4) ws s)"

definition vload32 :: "kstate \<Rightarrow> nat \<Rightarrow> u32 \<Rightarrow> u32 option" where
  "vload32 s pd va =
     (case (vload8 s pd va, vload8 s pd (va + 1), vload8 s pd (va + 2), vload8 s pd (va + 3)) of
        (Some b0, Some b1, Some b2, Some b3) \<Rightarrow>
          Some (ucast b0 OR push_bit 8 (ucast b1) OR push_bit 16 (ucast b2) OR push_bit 24 (ucast b3))
      | _ \<Rightarrow> None)"

definition word_bytes :: "u32 list \<Rightarrow> nat \<Rightarrow> u8" where
  "word_bytes ws k = get_byte (k mod 4) (ws ! (k div 4))"

lemma vstore_loop_add:
  "vstore_loop pd va f (m + n) s =
     kbind (vstore_loop pd va f m s) (\<lambda>_ s. vstore_loop pd (va + word_of_nat m) (\<lambda>k. f (m + k)) n s)"
proof (induction n)
  case 0
  then show ?case by (cases "vstore_loop pd va f m s") auto
next
  case (Suc n)
  then show ?case by (simp add: kbind_assoc add.assoc)
qed

lemma vstore_loop_cong: "(\<And>k. k < n \<Longrightarrow> f k = g k) \<Longrightarrow> vstore_loop pd va f n s = vstore_loop pd va g n s"
  by (induction n arbitrary: s) auto

lemma vstore_words_bytes: "vstore_words pd va ws s = vstore_loop pd va (word_bytes ws) (4 * length ws) s"
proof (induction ws arbitrary: va s)
  case (Cons w ws)
  have "vstore_loop pd va (word_bytes (w # ws)) 4 s = vstore32 pd va w s"
    unfolding vstore32_def by (rule vstore_loop_cong) (simp add: word_bytes_def)
  moreover have "(\<lambda>k. word_bytes (w # ws) (4 + k)) = word_bytes ws"
    by (rule ext) (simp add: word_bytes_def div_add_self1)
  ultimately show ?case
    using Cons vstore_loop_add [of pd va "word_bytes (w # ws)" 4 "4 * length ws" s] by simp
qed simp

lemma word_of_bytes:
  "ucast (get_byte 0 w) OR push_bit 8 (ucast (get_byte 1 w)) OR push_bit 16 (ucast (get_byte 2 w)) OR push_bit 24 (ucast (get_byte 3 w)) = (w :: u32)"
  using word_from_bytes [of w] by (simp add: get_byte_def)

lemma vstore_words_run:
  assumes "kinv fl el s" "pd \<in> env_pds s" "unat va + 4 * length ws \<le> unat UTOP" "4 * length ws \<le> 4096" "writable s pd va (4 * length ws)"
  shows "\<exists>s'. vstore_words pd va ws s = Ret () s' \<and> kinv fl el s' \<and> mem_only s s'
    \<and> (\<forall>i < length ws. vload32 s' pd (va + 4 * word_of_nat i) = Some (ws ! i))"
proof -
  obtain s' where s': "vstore_words pd va ws s = Ret () s'" "kinv fl el s'" "mem_only s s'"
    "\<And>j. j < 4 * length ws \<Longrightarrow> vload8 s' pd (va + word_of_nat j) = Some (word_bytes ws j)"
    using vstore_loop_run [OF assms order_refl, of "word_bytes ws"] unfolding vstore_words_bytes by blast
  have "vload32 s' pd (va + 4 * word_of_nat i) = Some (ws ! i)" if i: "i < length ws" for i
  proof -
    have "vload8 s' pd (va + 4 * word_of_nat i + word_of_nat k) = Some (get_byte k (ws ! i))" if "k < 4" for k
      using s'(4) [of "4 * i + k"] i that by (simp add: word_bytes_def add.assoc)
    from this [of 0] this [of 1] this [of 2] this [of 3] show ?thesis
      using word_of_bytes [of "ws ! i"] by (simp add: vload32_def)
  qed
  then show ?thesis using s' by blast
qed

end
