(* ===== verification/CMem.thy ===== *)
theory CMem
  imports Prelude
begin

text \<open>
  The flat 32-bit byte memory that the C library routines of JOS and xv6 work on, with the i386
  string instructions they use, and what it means that a NUL-terminated string or a block of bytes
  lies at an address. Addresses wrap around like the machine's.
\<close>

type_synonym mem = "u32 \<Rightarrow> u8"

section \<open>Loads, stores and string instructions\<close>

definition ld32 :: "mem \<Rightarrow> u32 \<Rightarrow> u8 \<times> u8 \<times> u8 \<times> u8" where
  "ld32 m a = (m a, m (a + 1), m (a + 2), m (a + 3))"

definition st32 :: "u32 \<Rightarrow> u8 \<times> u8 \<times> u8 \<times> u8 \<Rightarrow> mem \<Rightarrow> mem" where
  "st32 a w m = (case w of (b0, b1, b2, b3) \<Rightarrow> m(a := b0, a + 1 := b1, a + 2 := b2, a + 3 := b3))"

text \<open>The bytes of a register, least significant first.\<close>

definition bytes32 :: "u32 \<Rightarrow> u8 \<times> u8 \<times> u8 \<times> u8" where
  "bytes32 w = (ucast w, ucast (drop_bit 8 w), ucast (drop_bit 16 w), ucast (drop_bit 24 w))"

primrec rep_stosb :: "nat \<Rightarrow> u32 \<Rightarrow> u8 \<Rightarrow> mem \<Rightarrow> mem" where
  "rep_stosb 0 d b m = m"
| "rep_stosb (Suc n) d b m = rep_stosb n (d + 1) b (m(d := b))"

primrec rep_stosl :: "nat \<Rightarrow> u32 \<Rightarrow> u8 \<times> u8 \<times> u8 \<times> u8 \<Rightarrow> mem \<Rightarrow> mem" where
  "rep_stosl 0 d w m = m"
| "rep_stosl (Suc n) d w m = rep_stosl n (d + 4) w (st32 d w m)"

text \<open>\<open>movsb\<close> and \<open>movsl\<close>, upwards (\<open>cld\<close>) and downwards (\<open>std\<close>).\<close>

primrec rep_movsb :: "nat \<Rightarrow> u32 \<Rightarrow> u32 \<Rightarrow> mem \<Rightarrow> mem" where
  "rep_movsb 0 d s m = m"
| "rep_movsb (Suc n) d s m = rep_movsb n (d + 1) (s + 1) (m(d := m s))"

primrec rep_movsb_std :: "nat \<Rightarrow> u32 \<Rightarrow> u32 \<Rightarrow> mem \<Rightarrow> mem" where
  "rep_movsb_std 0 d s m = m"
| "rep_movsb_std (Suc n) d s m = rep_movsb_std n (d - 1) (s - 1) (m(d := m s))"

primrec rep_movsl :: "nat \<Rightarrow> u32 \<Rightarrow> u32 \<Rightarrow> mem \<Rightarrow> mem" where
  "rep_movsl 0 d s m = m"
| "rep_movsl (Suc n) d s m = rep_movsl n (d + 4) (s + 4) (st32 d (ld32 m s) m)"

primrec rep_movsl_std :: "nat \<Rightarrow> u32 \<Rightarrow> u32 \<Rightarrow> mem \<Rightarrow> mem" where
  "rep_movsl_std 0 d s m = m"
| "rep_movsl_std (Suc n) d s m = rep_movsl_std n (d - 4) (s - 4) (st32 d (ld32 m s) m)"

section \<open>Strings and blocks in memory\<close>

text \<open>\<open>cstr m s bs\<close>: the C string at \<open>s\<close> is \<open>bs\<close>.\<close>

primrec cstr :: "mem \<Rightarrow> u32 \<Rightarrow> u8 list \<Rightarrow> bool" where
  "cstr m s [] \<longleftrightarrow> m s = 0"
| "cstr m s (b # bs) \<longleftrightarrow> m s = b \<and> b \<noteq> 0 \<and> cstr m (s + 1) bs"

text \<open>The \<open>n\<close> bytes at \<open>s\<close>.\<close>

primrec bytes_at :: "mem \<Rightarrow> u32 \<Rightarrow> nat \<Rightarrow> u8 list" where
  "bytes_at m s 0 = []"
| "bytes_at m s (Suc n) = m s # bytes_at m (s + 1) n"

text \<open>Address \<open>a\<close> is one of the \<open>n\<close> addresses from \<open>s\<close> on.\<close>

definition inblk :: "u32 \<Rightarrow> nat \<Rightarrow> u32 \<Rightarrow> bool" where
  "inblk s n a \<longleftrightarrow> unat (a - s) < n"

lemma length_bytes_at [simp]: "length (bytes_at m s n) = n"
  by (induction n arbitrary: s) auto

lemma bytes_at_numeral [simp]: "bytes_at m s (numeral k) = m s # bytes_at m (s + 1) (pred_numeral k)"
  by (simp add: numeral_eq_Suc)

lemma inblk_0 [simp]: "\<not> inblk s 0 a"
  by (simp add: inblk_def)

lemma unat_minus_1: "x \<noteq> 0 \<Longrightarrow> unat (x - 1 :: u32) = unat x - 1"
  by (simp add: unat_minus_one)

lemma unat_Suc_less: "unat (s :: u32) < unat (e :: u32) \<Longrightarrow> unat (s + 1) = Suc (unat s)"
  using unat_lt32 [of e] by (simp add: unat_plus32)

lemma inblk_Suc: "inblk s (Suc n) a \<longleftrightarrow> a = s \<or> inblk (s + 1) n a" if "Suc n \<le> 4294967296"
proof (cases "a = s")
  case True
  then show ?thesis by (simp add: inblk_def)
next
  case False
  then have "a - s \<noteq> 0" by simp
  from unat_minus_1 [OF this] have "unat (a - (s + 1)) = unat (a - s) - 1"
    by (simp add: algebra_simps)
  moreover have "unat (a - s) \<noteq> 0" using \<open>a - s \<noteq> 0\<close> by (simp add: unat_eq_zero)
  ultimately show ?thesis using False by (auto simp: inblk_def)
qed

lemma not_inblk_next: "n < 4294967296 \<Longrightarrow> \<not> inblk (s + 1) n s"
proof -
  assume n: "n < 4294967296"
  have "unat (- 1 :: u32) = 4294967295" by (simp add: unsigned_minus_1_eq_mask mask_eq_exp_minus_1)
  then show ?thesis using n by (simp add: inblk_def)
qed

lemma inblk_iff: "inblk s n a \<longleftrightarrow> (\<exists>i < n. a = s + word_of_nat i)" if "n \<le> 4294967296"
proof
  assume "inblk s n a"
  then show "\<exists>i < n. a = s + word_of_nat i"
    by (intro exI [of _ "unat (a - s)"]) (simp add: inblk_def)
next
  assume "\<exists>i < n. a = s + word_of_nat i"
  then obtain i where "i < n" "a = s + word_of_nat i" by blast
  then show "inblk s n a" using that by (simp add: inblk_def unat_word_of_nat32)
qed

lemma bytes_at_cong: "(\<And>a. inblk s n a \<Longrightarrow> m' a = m a) \<Longrightarrow> n < 4294967296 \<Longrightarrow> bytes_at m' s n = bytes_at m s n"
proof (induction n arbitrary: s)
  case (Suc n)
  then show ?case by (simp add: inblk_Suc)
qed simp

lemma nth_bytes_at: "i < n \<Longrightarrow> bytes_at m s n ! i = m (s + word_of_nat i)"
proof (induction n arbitrary: s i)
  case (Suc n)
  then show ?case by (cases i) (simp_all add: algebra_simps)
qed simp

lemma bytes_at_eqI: "length bs = n \<Longrightarrow> (\<And>i. i < n \<Longrightarrow> m (s + word_of_nat i) = bs ! i) \<Longrightarrow> bytes_at m s n = bs"
  by (rule nth_equalityI) (simp_all add: nth_bytes_at)

lemma cstr_bytes: "cstr m s bs \<longleftrightarrow> bytes_at m s (Suc (length bs)) = bs @ [0] \<and> 0 \<notin> set bs"
  by (induction bs arbitrary: s) auto

lemma cstr_unique: "cstr m s bs \<Longrightarrow> cstr m s cs \<Longrightarrow> bs = cs"
proof (induction bs arbitrary: s cs)
  case Nil
  then show ?case by (cases cs) auto
next
  case (Cons b bs)
  then show ?case by (cases cs) auto
qed

lemma cstr_cong:
  "(\<And>a. inblk s (Suc (length bs)) a \<Longrightarrow> m' a = m a) \<Longrightarrow> Suc (length bs) < 4294967296 \<Longrightarrow> cstr m' s bs = cstr m s bs"
  unfolding cstr_bytes using bytes_at_cong [of s "Suc (length bs)" m' m] by simp

lemma cstr_at:
  "cstr m s bs \<Longrightarrow> i \<le> length bs \<Longrightarrow> m (s + word_of_nat i) = (if i < length bs then bs ! i else 0)"
proof (induction bs arbitrary: s i)
  case (Cons b bs)
  show ?case
  proof (cases i)
    case 0
    then show ?thesis using Cons.prems by simp
  next
    case (Suc j)
    then show ?thesis using Cons.IH [of "s + 1" j] Cons.prems by (simp add: add.assoc)
  qed
qed simp

text \<open>Writing a list of bytes.\<close>

primrec put_bytes :: "u32 \<Rightarrow> u8 list \<Rightarrow> mem \<Rightarrow> mem" where
  "put_bytes d [] m = m"
| "put_bytes d (b # bs) m = put_bytes (d + 1) bs (m(d := b))"

lemma put_bytes_off: "length bs \<le> 4294967296 \<Longrightarrow> \<not> inblk d (length bs) a \<Longrightarrow> put_bytes d bs m a = m a"
  by (induction bs arbitrary: d m) (auto simp: inblk_Suc)

lemma bytes_at_put: "length bs \<le> 4294967296 \<Longrightarrow> bytes_at (put_bytes d bs m) d (length bs) = bs"
proof (induction bs arbitrary: d m)
  case (Cons b bs)
  have "put_bytes (d + 1) bs (m(d := b)) d = (m(d := b)) d"
    using Cons.prems by (intro put_bytes_off not_inblk_next) auto
  then show ?case using Cons by simp
qed simp

lemma put_bytes_append: "put_bytes d (bs @ cs) m = put_bytes (d + word_of_nat (length bs)) cs (put_bytes d bs m)"
  by (induction bs arbitrary: d m) (simp_all add: add.assoc)

lemma cstr_put: "0 \<notin> set bs \<Longrightarrow> length bs < 4294967296 \<Longrightarrow> cstr (put_bytes d (bs @ [0]) m) d bs"
  using bytes_at_put [of "bs @ [0]" d m] by (simp add: cstr_bytes)

section \<open>What the string instructions do\<close>

lemma st32_apply:
  "st32 a (b0, b1, b2, b3) m x =
     (if x = a then b0 else if x = a + 1 then b1 else if x = a + 2 then b2 else if x = a + 3 then b3 else m x)"
proof -
  have "a + 3 \<noteq> a" "a + 3 \<noteq> a + 1" "a + 3 \<noteq> a + 2" "a + 2 \<noteq> a" "a + 2 \<noteq> a + 1" "a + 1 \<noteq> a"
    by simp_all
  then show ?thesis by (auto simp: st32_def)
qed

lemma rep_stosb_apply: "n \<le> 4294967295 \<Longrightarrow> rep_stosb n d b m a = (if inblk d n a then b else m a)"
proof (induction n arbitrary: d m)
  case (Suc n)
  then show ?case by (auto simp: inblk_Suc)
qed simp

lemma rep_stosb_add: "rep_stosb (k + n) d b m = rep_stosb n (d + word_of_nat k) b (rep_stosb k d b m)"
  by (induction k arbitrary: d m) (simp_all add: ac_simps)

lemma rep_stosb_4: "rep_stosb 4 d b m = st32 d (b, b, b, b) m"
  by (rule ext) (simp add: st32_apply numeral_eq_Suc add.assoc)

lemma rep_stosl_stosb: "rep_stosl n d (b, b, b, b) m = rep_stosb (4 * n) d b m"
proof (induction n arbitrary: d m)
  case (Suc n)
  show ?case using Suc rep_stosb_add [of 4 "4 * n" d b m] by (simp add: rep_stosb_4)
qed simp

text \<open>
  \<open>copyblk n d s m\<close>: memory \<open>m\<close> with the \<open>n\<close> bytes at \<open>s\<close> copied, all at once, to \<open>d\<close>. A copy in
  pieces amounts to it when no piece is overwritten before it is read: pieces in ascending order
  when the destination is below the source or apart from it, in descending order when it is above.
\<close>

definition copyblk :: "nat \<Rightarrow> u32 \<Rightarrow> u32 \<Rightarrow> mem \<Rightarrow> mem" where
  "copyblk n d s m = (\<lambda>a. if inblk d n a then m (s + (a - d)) else m a)"

lemma copyblk_0 [simp]: "copyblk 0 d s m = m"
  by (simp add: copyblk_def)

lemma inblk_nat:
  assumes "unat d + n \<le> 4294967296"
  shows "inblk d n a \<longleftrightarrow> unat d \<le> unat a \<and> unat a < unat d + n"
proof (cases "d \<le> a")
  case True
  then show ?thesis using unat_sub [OF True] by (auto simp: inblk_def word_le_nat_alt)
next
  case False
  then have "unat (a - d) = unat a + (4294967296 - unat d)"
    using unat_lt32 [of d] by (subst unat_sub_if') (simp add: word_le_nat_alt)
  then show ?thesis using False assms unat_lt32 [of d] by (auto simp: inblk_def word_le_nat_alt)
qed

lemma unat_shift:
  assumes "unat s + n \<le> 4294967296" "unat d \<le> unat a" "unat a < unat d + n"
  shows "unat (s + (a - d) :: u32) = unat s + (unat a - unat d)"
proof -
  have "unat (a - d) = unat a - unat d" using assms by (intro unat_sub) (simp add: word_le_nat_alt)
  then show ?thesis using assms unat_plus32_no_wrap [of s "a - d"] by simp
qed

lemma copyblk_up:
  assumes "unat d + (k + n) \<le> 4294967296" "unat s + (k + n) \<le> 4294967296"
    and "unat d \<le> unat s \<or> unat s + (k + n) \<le> unat d" and n: "n \<noteq> 0"
  shows "copyblk n (d + word_of_nat k) (s + word_of_nat k) (copyblk k d s m) = copyblk (k + n) d s m"
proof
  fix a
  have k: "unat (d + word_of_nat k) = unat d + k" "unat (s + word_of_nat k) = unat s + k"
    using assms by (simp_all add: unat_plus32 unat_word_of_nat32)
  have e: "s + word_of_nat k + (a - (d + word_of_nat k)) = s + (a - d)" by simp
  have "\<not> inblk d k (s + (a - d))" if "unat d + k \<le> unat a" "unat a < unat d + (k + n)"
    using that unat_shift [of s "k + n" d a] assms by (subst inblk_nat) auto
  then show "copyblk n (d + word_of_nat k) (s + word_of_nat k) (copyblk k d s m) a = copyblk (k + n) d s m a"
    using assms by (auto simp: copyblk_def e inblk_nat k)
qed

lemma copyblk_down:
  assumes "unat d + (n + k) \<le> 4294967296" "unat s + (n + k) \<le> 4294967296" "unat s \<le> unat d" and k: "k \<noteq> 0"
  shows "copyblk n d s (copyblk k (d + word_of_nat n) (s + word_of_nat n) m) = copyblk (n + k) d s m"
proof
  fix a
  have n: "unat (d + word_of_nat n) = unat d + n" "unat (s + word_of_nat n) = unat s + n"
    using assms by (simp_all add: unat_plus32 unat_word_of_nat32)
  have e: "s + word_of_nat n + (a - (d + word_of_nat n)) = s + (a - d)" for a by simp
  have "\<not> inblk (d + word_of_nat n) k (s + (a - d))" if "unat d \<le> unat a" "unat a < unat d + n"
    using that unat_shift [of s "n + k" d a] assms by (subst inblk_nat) (auto simp: n)
  then show "copyblk n d s (copyblk k (d + word_of_nat n) (s + word_of_nat n) m) a = copyblk (n + k) d s m a"
    using assms by (auto simp: copyblk_def e inblk_nat n)
qed

lemma st32_copyblk: "st32 d (ld32 m s) m = copyblk 4 d s m"
proof
  fix a
  have i: "inblk d 4 a \<longleftrightarrow> a = d \<or> a = d + 1 \<or> a = d + 2 \<or> a = d + 3"
  proof -
    have "(\<exists>i < 4. P i) \<longleftrightarrow> P 0 \<or> P 1 \<or> P 2 \<or> P 3" for P :: "nat \<Rightarrow> bool"
      by (auto simp: less_Suc_eq numeral_eq_Suc)
    then show ?thesis by (simp add: inblk_iff)
  qed
  show "st32 d (ld32 m s) m a = copyblk 4 d s m a"
    unfolding copyblk_def i by (auto simp: ld32_def st32_apply)
qed

lemma st8_copyblk: "m(d := m s) = copyblk 1 d s m"
  by (auto simp: copyblk_def inblk_Suc)

lemma rep_movsb_copyblk:
  "unat d + n \<le> 4294967296 \<Longrightarrow> unat s + n \<le> 4294967296 \<Longrightarrow> unat d \<le> unat s \<or> unat s + n \<le> unat d \<Longrightarrow>
   rep_movsb n d s m = copyblk n d s m"
proof (induction n arbitrary: d s m)
  case (Suc n)
  show ?case
  proof (cases "n = 0")
    case False
    then have "unat (d + 1) = unat d + 1" "unat (s + 1) = unat s + 1"
      using Suc.prems by (simp_all add: unat_plus32)
    moreover from this have "rep_movsb n (d + 1) (s + 1) (copyblk 1 d s m) = copyblk n (d + 1) (s + 1) (copyblk 1 d s m)"
      using Suc.prems by (intro Suc.IH) auto
    ultimately show ?thesis
      using Suc.prems copyblk_up [of d 1 n s m] False by (simp add: st8_copyblk)
  qed (simp add: st8_copyblk)
qed simp

lemma rep_movsl_copyblk:
  "unat d + 4 * n \<le> 4294967296 \<Longrightarrow> unat s + 4 * n \<le> 4294967296 \<Longrightarrow> unat d \<le> unat s \<or> unat s + 4 * n \<le> unat d \<Longrightarrow>
   rep_movsl n d s m = copyblk (4 * n) d s m"
proof (induction n arbitrary: d s m)
  case (Suc n)
  show ?case
  proof (cases "n = 0")
    case False
    then have "unat (d + 4) = unat d + 4" "unat (s + 4) = unat s + 4"
      using Suc.prems by (simp_all add: unat_plus32)
    moreover from this have "rep_movsl n (d + 4) (s + 4) (copyblk 4 d s m) = copyblk (4 * n) (d + 4) (s + 4) (copyblk 4 d s m)"
      using Suc.prems by (intro Suc.IH) auto
    ultimately show ?thesis
      using Suc.prems copyblk_up [of d 4 "4 * n" s m] False by (simp add: st32_copyblk)
  qed (simp add: st32_copyblk)
qed simp

lemma rep_movsb_std_copyblk:
  "unat d + n \<le> 4294967296 \<Longrightarrow> unat s + n \<le> 4294967296 \<Longrightarrow> unat s \<le> unat d \<Longrightarrow>
   rep_movsb_std n (d + word_of_nat n - 1) (s + word_of_nat n - 1) m = copyblk n d s m"
proof (induction n arbitrary: m)
  case (Suc n)
  have "d + word_of_nat (Suc n) - 1 = d + word_of_nat n" "s + word_of_nat (Suc n) - 1 = s + word_of_nat n"
    by simp_all
  then show ?case
    using Suc copyblk_down [of d n 1 s m] by (simp add: st8_copyblk)
qed simp

lemma rep_movsl_std_copyblk:
  "unat d + 4 * n \<le> 4294967296 \<Longrightarrow> unat s + 4 * n \<le> 4294967296 \<Longrightarrow> unat s \<le> unat d \<Longrightarrow>
   rep_movsl_std n (d + word_of_nat (4 * n) - 4) (s + word_of_nat (4 * n) - 4) m = copyblk (4 * n) d s m"
proof (induction n arbitrary: m)
  case (Suc n)
  have "d + word_of_nat (4 * Suc n) - 4 = d + word_of_nat (4 * n)" "s + word_of_nat (4 * Suc n) - 4 = s + word_of_nat (4 * n)"
    by simp_all
  then show ?case
    using Suc copyblk_down [of d "4 * n" 4 s m] by (simp add: st32_copyblk add.commute del: of_nat_mult)
qed simp

end
