(* ===== verification/CString.thy ===== *)
theory CString
  imports CMem
begin

text \<open>
  The string routines of JOS (lab/lib/string.c), the versions that are compiled (\<open>ASM\<close> is 1). A
  pointer argument is an address, the memory is passed and, where it is written, returned. The scans
  for a NUL byte that the code does not bound are partial functions into \<open>option\<close>: \<open>None\<close> is a scan
  that never ends, because no address holds a NUL. \<open>int\<close> and \<open>long\<close> values are 32-bit words.
\<close>

section \<open>Definitions\<close>

partial_function (option) strlen_loop :: "mem \<Rightarrow> u32 \<Rightarrow> u32 \<Rightarrow> u32 option" where
  "strlen_loop m s n = (if m s \<noteq> 0 then strlen_loop m (s + 1) (n + 1) else Some n)"

definition strlen :: "mem \<Rightarrow> u32 \<Rightarrow> u32 option" where
  "strlen m s = strlen_loop m s 0"

function strnlen_loop :: "mem \<Rightarrow> u32 \<Rightarrow> u32 \<Rightarrow> u32 \<Rightarrow> u32" where
  "strnlen_loop m s sz n = (if sz > 0 \<and> m s \<noteq> 0 then strnlen_loop m (s + 1) (sz - 1) (n + 1) else n)"
  by pat_completeness auto
termination
  by (relation "measure (\<lambda>(m, s, sz, n). unat sz)") (auto simp: unat_minus_1 unat_gt_0)

declare strnlen_loop.simps [simp del]

definition strnlen :: "mem \<Rightarrow> u32 \<Rightarrow> u32 \<Rightarrow> u32" where
  "strnlen m s sz = strnlen_loop m s sz 0"

partial_function (option) strcpy_loop :: "u32 \<Rightarrow> u32 \<Rightarrow> mem \<Rightarrow> mem option" where
  "strcpy_loop dst src m =
     (let c = m src; m = m(dst := c)
      in if c \<noteq> 0 then strcpy_loop (dst + 1) (src + 1) m else Some m)"

definition strcpy :: "u32 \<Rightarrow> u32 \<Rightarrow> mem \<Rightarrow> (u32 \<times> mem) option" where
  "strcpy dst src m = map_option (\<lambda>m. (dst, m)) (strcpy_loop dst src m)"

definition strcat :: "u32 \<Rightarrow> u32 \<Rightarrow> mem \<Rightarrow> (u32 \<times> mem) option" where
  "strcat dst src m =
     Option.bind (strlen m dst) (\<lambda>len.
     Option.bind (strcpy (dst + len) src m) (\<lambda>(_, m). Some (dst, m)))"

primrec strncpy_loop :: "nat \<Rightarrow> u32 \<Rightarrow> u32 \<Rightarrow> mem \<Rightarrow> mem" where
  "strncpy_loop 0 dst src m = m"
| "strncpy_loop (Suc n) dst src m =
     (let m = m(dst := m src)
      in strncpy_loop n (dst + 1) (if m src \<noteq> 0 then src + 1 else src) m)"

definition strncpy :: "u32 \<Rightarrow> u32 \<Rightarrow> u32 \<Rightarrow> mem \<Rightarrow> u32 \<times> mem" where
  "strncpy dst src sz m = (dst, strncpy_loop (unat sz) dst src m)"

text \<open>The loop \<open>while (--sz > 0 && *src != 0)\<close>: \<open>sz\<close> is the value before the decrement.\<close>

function strlcpy_loop :: "u32 \<Rightarrow> u32 \<Rightarrow> u32 \<Rightarrow> mem \<Rightarrow> u32 \<times> mem" where
  "strlcpy_loop dst src sz m =
     (if sz - 1 > 0 \<and> sz > 0 \<and> m src \<noteq> 0 then strlcpy_loop (dst + 1) (src + 1) (sz - 1) (m(dst := m src))
      else (dst, m))"
  by pat_completeness auto
termination
  by (relation "measure (\<lambda>(dst, src, sz, m). unat sz)") (auto simp: unat_minus_1 unat_gt_0)

declare strlcpy_loop.simps [simp del]

definition strlcpy :: "u32 \<Rightarrow> u32 \<Rightarrow> u32 \<Rightarrow> mem \<Rightarrow> u32 \<times> mem" where
  "strlcpy dst src sz m =
     (if sz > 0
      then case strlcpy_loop dst src sz m of (d, m) \<Rightarrow> (d - dst, m(d := 0))
      else (0, m))"

text \<open>The difference of two bytes read as \<open>unsigned char\<close>.\<close>

definition byte_diff :: "u8 \<Rightarrow> u8 \<Rightarrow> int" where
  "byte_diff a b = uint a - uint b"

partial_function (option) strcmp :: "mem \<Rightarrow> u32 \<Rightarrow> u32 \<Rightarrow> int option" where
  "strcmp m p q = (if m p \<noteq> 0 \<and> m p = m q then strcmp m (p + 1) (q + 1) else Some (byte_diff (m p) (m q)))"

primrec strncmp_loop :: "nat \<Rightarrow> mem \<Rightarrow> u32 \<Rightarrow> u32 \<Rightarrow> int" where
  "strncmp_loop 0 m p q = 0"
| "strncmp_loop (Suc n) m p q =
     (if m p \<noteq> 0 \<and> m p = m q then strncmp_loop n m (p + 1) (q + 1) else byte_diff (m p) (m q))"

definition strncmp :: "mem \<Rightarrow> u32 \<Rightarrow> u32 \<Rightarrow> u32 \<Rightarrow> int" where
  "strncmp m p q n = strncmp_loop (unat n) m p q"

text \<open>The inner option of \<open>strchr\<close> is the returned pointer, \<open>None\<close> for NULL.\<close>

partial_function (option) strchr :: "mem \<Rightarrow> u32 \<Rightarrow> u8 \<Rightarrow> u32 option option" where
  "strchr m s c = (if m s \<noteq> 0 then if m s = c then Some (Some s) else strchr m (s + 1) c else Some None)"

partial_function (option) strfind :: "mem \<Rightarrow> u32 \<Rightarrow> u8 \<Rightarrow> u32 option" where
  "strfind m s c = (if m s \<noteq> 0 then if m s = c then Some s else strfind m (s + 1) c else Some s)"

definition memset :: "u32 \<Rightarrow> u32 \<Rightarrow> u32 \<Rightarrow> mem \<Rightarrow> u32 \<times> mem" where
  "memset v c n m =
     (if n = 0 then (v, m)
      else if v mod 4 = 0 \<and> n mod 4 = 0
      then let c = c AND 0xFF;
               c = push_bit 24 c OR push_bit 16 c OR push_bit 8 c OR c
           in (v, rep_stosl (unat (n div 4)) v (bytes32 c) m)
      else (v, rep_stosb (unat n) v (ucast c) m))"

definition memmove :: "u32 \<Rightarrow> u32 \<Rightarrow> u32 \<Rightarrow> mem \<Rightarrow> u32 \<times> mem" where
  "memmove dst src n m =
     (let s = src; d = dst
      in if s < d \<and> s + n > d
         then let s = s + n; d = d + n
              in if s mod 4 = 0 \<and> d mod 4 = 0 \<and> n mod 4 = 0
                 then (dst, rep_movsl_std (unat (n div 4)) (d - 4) (s - 4) m)
                 else (dst, rep_movsb_std (unat n) (d - 1) (s - 1) m)
         else if s mod 4 = 0 \<and> d mod 4 = 0 \<and> n mod 4 = 0
              then (dst, rep_movsl (unat (n div 4)) d s m)
              else (dst, rep_movsb (unat n) d s m))"

definition memcpy :: "u32 \<Rightarrow> u32 \<Rightarrow> u32 \<Rightarrow> mem \<Rightarrow> u32 \<times> mem" where
  "memcpy dst src n m = memmove dst src n m"

primrec memcmp_loop :: "nat \<Rightarrow> mem \<Rightarrow> u32 \<Rightarrow> u32 \<Rightarrow> int" where
  "memcmp_loop 0 m s1 s2 = 0"
| "memcmp_loop (Suc n) m s1 s2 =
     (if m s1 \<noteq> m s2 then byte_diff (m s1) (m s2) else memcmp_loop n m (s1 + 1) (s2 + 1))"

definition memcmp :: "mem \<Rightarrow> u32 \<Rightarrow> u32 \<Rightarrow> u32 \<Rightarrow> int" where
  "memcmp m v1 v2 n = memcmp_loop (unat n) m v1 v2"

function memfind_loop :: "mem \<Rightarrow> u32 \<Rightarrow> u32 \<Rightarrow> u8 \<Rightarrow> u32" where
  "memfind_loop m s ends c = (if s < ends then if m s = c then s else memfind_loop m (s + 1) ends c else s)"
  by pat_completeness auto
termination
  by (relation "measure (\<lambda>(m, s, ends, c). unat ends - unat s)")
     (auto simp: word_less_nat_alt unat_Suc_less)

declare memfind_loop.simps [simp del]

definition memfind :: "mem \<Rightarrow> u32 \<Rightarrow> u32 \<Rightarrow> u32 \<Rightarrow> u32" where
  "memfind m s c n = memfind_loop m s (s + n) (ucast c)"

section \<open>Numbers\<close>

partial_function (option) skip_blanks :: "mem \<Rightarrow> u32 \<Rightarrow> u32 option" where
  "skip_blanks m s = (if m s = 32 \<or> m s = 9 then skip_blanks m (s + 1) else Some s)"

text \<open>The digit a character stands for: \<open>0\<close> to \<open>9\<close>, then letters of either case from 10 on.\<close>

definition digit_of :: "u8 \<Rightarrow> u32 option" where
  "digit_of c =
     (if 48 \<le> c \<and> c \<le> 57 then Some (ucast c - 48)
      else if 97 \<le> c \<and> c \<le> 122 then Some (ucast c - 97 + 10)
      else if 65 \<le> c \<and> c \<le> 90 then Some (ucast c - 65 + 10)
      else None)"

partial_function (option) strtol_digits :: "mem \<Rightarrow> u32 \<Rightarrow> u32 \<Rightarrow> u32 \<Rightarrow> (u32 \<times> u32) option" where
  "strtol_digits m s base val =
     (case digit_of (m s) of
        None \<Rightarrow> Some (s, val)
      | Some dig \<Rightarrow> if base \<le>s dig then Some (s, val)
                   else strtol_digits m (s + 1) base (val * base + dig))"

text \<open>The result and the value that is stored through \<open>endptr\<close> if that is not NULL.\<close>

definition strtol :: "mem \<Rightarrow> u32 \<Rightarrow> u32 \<Rightarrow> (u32 \<times> u32) option" where
  "strtol m s base =
     Option.bind (skip_blanks m s) (\<lambda>s.
       let (s, neg) = (if m s = 43 then (s + 1, False) else if m s = 45 then (s + 1, True) else (s, False));
           (s, base) = (if (base = 0 \<or> base = 16) \<and> m s = 48 \<and> m (s + 1) = 120 then (s + 2, 16)
                        else if base = 0 \<and> m s = 48 then (s + 1, 8)
                        else if base = 0 then (s, 10)
                        else (s, base))
       in Option.bind (strtol_digits m s base 0) (\<lambda>(s, val).
            Some (if neg then - val else val, s)))"


section \<open>Strings\<close>

lemma strlen_loop_cstr: "cstr m s bs \<Longrightarrow> strlen_loop m s n = Some (n + word_of_nat (length bs))"
  by (induction bs arbitrary: s n) (subst strlen_loop.simps, simp)+

lemma strlen_cstr: "cstr m s bs \<Longrightarrow> strlen m s = Some (word_of_nat (length bs))"
  by (simp add: strlen_def strlen_loop_cstr)

lemma strnlen_loop_cstr:
  "cstr m s bs \<Longrightarrow> strnlen_loop m s sz n = n + word_of_nat (min (length bs) (unat sz))"
proof (induction bs arbitrary: s sz n)
  case Nil
  then show ?case by (subst strnlen_loop.simps) simp
next
  case (Cons b bs)
  show ?case
  proof (cases "sz = 0")
    case False
    then have "0 < sz" "unat sz = Suc (unat (sz - 1))" by (simp_all add: unat_minus_1 word_gt_0 unat_gt_0)
    then show ?thesis using Cons by (subst strnlen_loop.simps) simp
  qed (subst strnlen_loop.simps, simp)
qed

lemma strnlen_cstr: "cstr m s bs \<Longrightarrow> strnlen m s sz = word_of_nat (min (length bs) (unat sz))"
  by (simp add: strnlen_def strnlen_loop_cstr)

lemma strcpy_loop_cstr:
  "cstr m src bs \<Longrightarrow> length bs < 4294967295 \<Longrightarrow> (\<And>a. inblk dst (Suc (length bs)) a \<Longrightarrow> \<not> inblk src (Suc (length bs)) a) \<Longrightarrow>
   strcpy_loop dst src m = Some (put_bytes dst (bs @ [0]) m)"
proof (induction bs arbitrary: dst src m)
  case Nil
  then show ?case by (subst strcpy_loop.simps) simp
next
  case (Cons b bs)
  have off: "\<not> inblk src (Suc (Suc (length bs))) dst" using Cons.prems(2,3) by (simp add: inblk_def)
  then have "cstr (m(dst := b)) (src + 1) bs = cstr m (src + 1) bs"
    using Cons.prems(2) by (intro cstr_cong) (auto simp: inblk_Suc)
  then have c: "cstr (m(dst := b)) (src + 1) bs" using Cons.prems(1) by simp
  have "\<not> inblk (src + 1) (Suc (length bs)) a" if "inblk (dst + 1) (Suc (length bs)) a" for a
    using Cons.prems(2,3) that by (simp add: inblk_Suc [of "Suc (length bs)"])
  then have "strcpy_loop (dst + 1) (src + 1) (m(dst := b)) = Some (put_bytes (dst + 1) (bs @ [0]) (m(dst := b)))"
    using Cons.prems(2) by (intro Cons.IH [OF c]) auto
  then show ?case using Cons.prems by (subst strcpy_loop.simps) (simp add: Let_def)
qed

lemma strcpy_cstr:
  assumes "cstr m src bs" "length bs < 4294967295"
    and "\<And>a. inblk dst (Suc (length bs)) a \<Longrightarrow> \<not> inblk src (Suc (length bs)) a"
  shows "strcpy dst src m = Some (dst, put_bytes dst (bs @ [0]) m)"
  using strcpy_loop_cstr [OF assms] by (simp add: strcpy_def)

text \<open>\<open>strlcpy\<close> copies what fits and always terminates the destination.\<close>

lemma strlcpy_loop_cstr:
  "cstr m src bs \<Longrightarrow> 0 < unat sz \<Longrightarrow>
   (\<And>a. inblk dst (unat sz) a \<Longrightarrow> \<not> inblk src (Suc (length bs)) a) \<Longrightarrow> length bs < 4294967295 \<Longrightarrow>
   strlcpy_loop dst src sz m =
     (let k = min (length bs) (unat sz - 1) in (dst + word_of_nat k, put_bytes dst (take k bs) m))"
proof (induction bs arbitrary: dst src sz m)
  case Nil
  then show ?case by (subst strlcpy_loop.simps) simp
next
  case (Cons b bs)
  show ?case
  proof (cases "unat sz = 1")
    case True
    then have "sz = 1" by (metis unat_1 word_unat_eq_iff)
    then show ?thesis by (subst strlcpy_loop.simps) simp
  next
    case False
    have z: "unat sz = Suc (unat (sz - 1))" "0 < unat (sz - 1)"
      using False Cons.prems(2) unat_minus_1 [of sz] by fastforce+
    then have g: "sz - 1 > 0" "sz > 0" by (simp_all add: word_less_nat_alt)
    have off: "\<not> inblk src (Suc (Suc (length bs))) dst" using Cons.prems(2,3) by (simp add: inblk_def)
    then have "cstr (m(dst := b)) (src + 1) bs = cstr m (src + 1) bs"
      using Cons.prems(4) by (intro cstr_cong) (auto simp: inblk_Suc)
    then have c: "cstr (m(dst := b)) (src + 1) bs" using Cons.prems(1) by simp
    have d: "\<not> inblk (src + 1) (Suc (length bs)) a" if "inblk (dst + 1) (unat (sz - 1)) a" for a
      using Cons.prems(3,4) that z(1) unat_lt32 [of sz] by (simp add: inblk_Suc)
    then have "strlcpy_loop (dst + 1) (src + 1) (sz - 1) (m(dst := b)) =
        (let k = min (length bs) (unat (sz - 1) - 1) in (dst + 1 + word_of_nat k, put_bytes (dst + 1) (take k bs) (m(dst := b))))"
      using Cons.prems(4) z(2) by (intro Cons.IH [OF c] d) auto
    moreover have "unat sz - 1 = Suc (unat (sz - 1) - 1)" using z by simp
    ultimately show ?thesis
      using Cons.prems(1) g by (subst strlcpy_loop.simps) (simp add: Let_def add.assoc)
  qed
qed

section \<open>Comparison\<close>

text \<open>The order of C strings: by the first differing byte, read unsigned; a proper prefix is smaller.\<close>

fun str_less :: "u8 list \<Rightarrow> u8 list \<Rightarrow> bool" where
  "str_less [] ys \<longleftrightarrow> ys \<noteq> []"
| "str_less (x # xs) [] \<longleftrightarrow> False"
| "str_less (x # xs) (y # ys) \<longleftrightarrow> x < y \<or> x = y \<and> str_less xs ys"

lemma byte_diff_sign: "byte_diff a b = 0 \<longleftrightarrow> a = b" "byte_diff a b < 0 \<longleftrightarrow> a < b"
  by (simp_all add: byte_diff_def word_less_def word_uint_eq_iff)

lemma strcmp_cstr:
  "cstr m p bs \<Longrightarrow> cstr m q cs \<Longrightarrow>
   \<exists>r. strcmp m p q = Some r \<and> (r = 0 \<longleftrightarrow> bs = cs) \<and> (r < 0 \<longleftrightarrow> str_less bs cs)"
proof (induction bs arbitrary: p q cs)
  case Nil
  then show ?case
    by (subst strcmp.simps) (cases cs; auto simp: byte_diff_sign word_gt_0)
next
  case (Cons b bs)
  show ?case
  proof (cases cs)
    case Nil
    then show ?thesis using Cons.prems by (subst strcmp.simps) (auto simp: byte_diff_sign)
  next
    case cs: (Cons c ds)
    show ?thesis
    proof (cases "b = c")
      case True
      then show ?thesis using Cons cs by (subst strcmp.simps) auto
    next
      case False
      then show ?thesis using Cons.prems cs by (subst strcmp.simps) (auto simp: byte_diff_sign)
    qed
  qed
qed

lemma memcmp_loop_sign:
  "(memcmp_loop n m p q = 0 \<longleftrightarrow> bytes_at m p n = bytes_at m q n)
   \<and> (memcmp_loop n m p q < 0 \<longleftrightarrow> str_less (bytes_at m p n) (bytes_at m q n))"
  by (induction n arbitrary: p q) (auto simp: byte_diff_sign)

section \<open>Blocks\<close>

lemma fill_bytes: "bytes32 (let c = c AND 0xFF in push_bit 24 c OR push_bit 16 c OR push_bit 8 c OR c) = (ucast c, ucast c, ucast c, ucast c)"
proof -
  have m: "(0xFF :: u32) = mask 8" by (simp add: mask_eq_exp_minus_1)
  show ?thesis
    unfolding bytes32_def Let_def m prod.inject
    by (intro conjI bit_word_eqI) (auto simp: bit_simps bit_unsigned_iff bit_mask_iff dest: bit_imp_le_length)
qed

lemma unat_div4: "n mod 4 = 0 \<Longrightarrow> 4 * unat (n div 4) = unat n" for n :: u32
proof -
  assume "n mod 4 = 0"
  then have "unat n mod 4 = 0" using unat_mod_distrib [of n 4] by simp
  moreover have "unat (n div 4) = unat n div 4" by (simp add: unat_div_distrib)
  ultimately show ?thesis using mult_div_mod_eq [of 4 "unat n"] by simp
qed

lemma memset_run: "memset v c n m = (v, \<lambda>a. if inblk v (unat n) a then ucast c else m a)"
proof -
  have fill: "rep_stosb (unat n) v (ucast c) m = (\<lambda>a. if inblk v (unat n) a then ucast c else m a)"
    using unat_lt32 [of n] by (intro ext rep_stosb_apply) simp
  moreover have "rep_stosl (unat (n div 4)) v (bytes32 (let c = c AND 0xFF in push_bit 24 c OR push_bit 16 c OR push_bit 8 c OR c)) m
      = rep_stosb (unat n) v (ucast c) m" if "n mod 4 = 0"
    unfolding fill_bytes rep_stosl_stosb unat_div4 [OF that] ..
  ultimately show ?thesis
    by (auto simp: memset_def Let_def)
qed

lemma memmove_run:
  assumes d: "unat dst + unat n \<le> 4294967296" and s: "unat src + unat n \<le> 4294967296"
  shows "memmove dst src n m = (dst, copyblk (unat n) dst src m)"
proof (cases "src < dst \<and> src + n > dst")
  case True
  then have le: "unat src \<le> unat dst" by (simp add: word_less_nat_alt)
  have "rep_movsl_std (unat (n div 4)) (dst + n - 4) (src + n - 4) m = copyblk (unat n) dst src m" if "n mod 4 = 0"
    using rep_movsl_std_copyblk [of dst "unat (n div 4)" src m] d s le unfolding unat_div4 [OF that] by simp
  moreover have "rep_movsb_std (unat n) (dst + n - 1) (src + n - 1) m = copyblk (unat n) dst src m"
    using rep_movsb_std_copyblk [of dst "unat n" src m] d s le by simp
  ultimately show ?thesis using True by (simp add: memmove_def Let_def)
next
  case False
  have ap: "unat dst \<le> unat src \<or> unat src + unat n \<le> unat dst"
  proof (cases "src < dst")
    case True
    then have lt: "unat src + unat n < 4294967296" using d by (simp add: word_less_nat_alt)
    show ?thesis using False True unat_plus32_no_wrap [OF lt] by (simp add: word_less_nat_alt not_less)
  qed (simp add: word_less_nat_alt not_less)
  have "rep_movsl (unat (n div 4)) dst src m = copyblk (unat n) dst src m" if "n mod 4 = 0"
    using rep_movsl_copyblk [of dst "unat (n div 4)" src m] d s ap unfolding unat_div4 [OF that] by simp
  moreover have "rep_movsb (unat n) dst src m = copyblk (unat n) dst src m"
    using rep_movsb_copyblk [of dst "unat n" src m] d s ap by simp
  ultimately show ?thesis using False by (auto simp: memmove_def Let_def)
qed

text \<open>
  C36: \<open>memmove\<close> (and \<open>memcpy\<close>, which calls it) copies the block as it was before the call, however
  source and destination overlap and whichever of its four copying loops it picks, leaves every
  other byte alone and returns the destination, for blocks that do not run past the end of the
  address space.
\<close>

theorem memmove_correct:
  assumes "unat dst + unat n \<le> 4294967296" "unat src + unat n \<le> 4294967296"
  shows "\<exists>m'. memmove dst src n m = (dst, m') \<and> memcpy dst src n m = (dst, m')
     \<and> bytes_at m' dst (unat n) = bytes_at m src (unat n)
     \<and> (\<forall>a. \<not> inblk dst (unat n) a \<longrightarrow> m' a = m a)"
proof (intro exI conjI)
  let ?m' = "copyblk (unat n) dst src m"
  show "memmove dst src n m = (dst, ?m')" "memcpy dst src n m = (dst, ?m')"
    using memmove_run [OF assms] by (simp_all add: memcpy_def)
  show "bytes_at ?m' dst (unat n) = bytes_at m src (unat n)"
    using unat_lt32 [of n]
    by (intro bytes_at_eqI) (simp_all add: nth_bytes_at copyblk_def inblk_def unat_word_of_nat32)
  show "\<forall>a. \<not> inblk dst (unat n) a \<longrightarrow> ?m' a = m a" by (simp add: copyblk_def)
qed

theorem memmove_correct_witness:
  "\<exists>m'. memmove 0x1002 0x1000 6 (\<lambda>a. ucast a) = (0x1002, m') \<and> bytes_at m' 0x1002 6 = [0, 1, 2, 3, 4, 5]"
  using memmove_correct [of "0x1002" 6 "0x1000" "\<lambda>a. ucast a"]
  by auto

section \<open>Searching\<close>

lemma strchr_cstr:
  "cstr m s bs \<Longrightarrow> c \<noteq> 0 \<Longrightarrow>
   strchr m s c = Some (if c \<in> set bs then Some (s + word_of_nat (length (takeWhile (\<lambda>b. b \<noteq> c) bs))) else None)"
proof (induction bs arbitrary: s)
  case Nil
  then show ?case by (subst strchr.simps) simp
next
  case (Cons b bs)
  then show ?case by (subst strchr.simps) (auto simp: add.assoc)
qed

lemma strfind_cstr:
  "cstr m s bs \<Longrightarrow> strfind m s c = Some (s + word_of_nat (length (takeWhile (\<lambda>b. b \<noteq> c) bs)))"
proof (induction bs arbitrary: s)
  case Nil
  then show ?case by (subst strfind.simps) simp
next
  case (Cons b bs)
  then show ?case by (subst strfind.simps) (auto simp: add.assoc)
qed

end
