(* ===== verification/Printfmt.thy ===== *)
theory Printfmt
  imports CString KState
begin

text \<open>
  Formatted output: lab/lib/printfmt.c, the kernel's cprintf (lab/kern/printf.c) and the user
  library's (lab/lib/printf.c). \<open>putch\<close> is a function that updates the data \<open>putdat\<close> it is given.

  The format is a string and an index into it; reading at its end gives the NUL. Variable
  arguments are a list of typed values; fetching one of another type, or one that is not there,
  is undefined in C and here \<open>None\<close>, like an output loop that never ends because a string is not
  terminated. A pointer to characters comes with the memory it points into.
\<close>

section \<open>Definitions\<close>

datatype va = VA_INT u32 | VA_LL u64 | VA_PTR mem u32

definition MAXERROR :: int where [const_simps]: "MAXERROR = 16"

definition error_string :: "(string option) list" where
  "error_string = [None, Some ''unspecified error'', Some ''bad environment'', Some ''invalid parameter'',
     Some ''out of memory'', Some ''out of environments'', Some ''segmentation fault'',
     Some ''env is not recving'', Some ''unexpected end of file'', Some ''no free space on disk'',
     Some ''too many files are open'', Some ''file or block not found'', Some ''invalid path'',
     Some ''file already exists'', Some ''file is not a valid executable'', Some ''operation not supported'']"

text \<open>A string constant of the program, laid out in memory from address 4096 on.\<close>

definition str_arg :: "string \<Rightarrow> va" where
  "str_arg cs = VA_PTR (put_bytes 0x1000 (map of_char cs) (\<lambda>_. 0)) 0x1000"

primrec putn :: "(int \<Rightarrow> 'd \<Rightarrow> 'd) \<Rightarrow> int \<Rightarrow> nat \<Rightarrow> 'd \<Rightarrow> 'd" where
  "putn putch c 0 d = d"
| "putn putch c (Suc n) d = putn putch c n (putch c d)"

definition hex_digit :: "u64 \<Rightarrow> int" where
  "hex_digit x = of_char (''0123456789abcdef'' ! unat x)"

partial_function (option) printnum ::
    "(int \<Rightarrow> 'd \<Rightarrow> 'd) \<Rightarrow> u64 \<Rightarrow> u64 \<Rightarrow> int \<Rightarrow> int \<Rightarrow> 'd \<Rightarrow> 'd option" where
  "printnum putch num base width padc d =
     Option.bind
       (if num \<ge> base then printnum putch (num div base) base (width - 1) padc d
        else Some (putn putch padc (nat (width - 1)) d))
       (\<lambda>d. Some (putch (hex_digit (num mod base)) d))"

definition getuint :: "va list \<Rightarrow> nat \<Rightarrow> (u64 \<times> va list) option" where
  "getuint ap lflag = (case ap of
      VA_LL x # ap \<Rightarrow> if lflag \<ge> 2 then Some (x, ap) else None
    | VA_INT x # ap \<Rightarrow> if lflag \<ge> 2 then None else Some (ucast x, ap)
    | _ \<Rightarrow> None)"

definition getint :: "va list \<Rightarrow> nat \<Rightarrow> (u64 \<times> va list) option" where
  "getint ap lflag = (case ap of
      VA_LL x # ap \<Rightarrow> if lflag \<ge> 2 then Some (x, ap) else None
    | VA_INT x # ap \<Rightarrow> if lflag \<ge> 2 then None else Some (scast x, ap)
    | _ \<Rightarrow> None)"

section \<open>A conversion\<close>

definition NUL :: char where "NUL = CHR 0x00"

definition fch :: "string \<Rightarrow> nat \<Rightarrow> char" where
  "fch fmt i = (if i < length fmt then fmt ! i else NUL)"

record fmtflags =
  padc :: int
  width :: int
  precision :: int
  lflag :: nat
  altflag :: bool

definition flags0 :: fmtflags where
  "flags0 = \<lparr>padc = of_char CHR '' '', width = - 1, precision = - 1, lflag = 0, altflag = False\<rparr>"

definition isdigit :: "char \<Rightarrow> bool" where
  "isdigit c \<longleftrightarrow> (48 :: nat) \<le> of_char c \<and> of_char c \<le> (57 :: nat)"

lemma fch_NUL: "fch fmt i \<noteq> NUL \<Longrightarrow> i < length fmt"
  by (auto simp: fch_def split: if_splits)

lemma isdigit_NUL [simp]: "\<not> isdigit NUL"
  by (simp add: isdigit_def NUL_def)

lemma isdigit_fch: "isdigit (fch fmt i) \<Longrightarrow> i < length fmt"
  by (metis fch_NUL isdigit_NUL)

text \<open>The loop that reads a width; the index is past the digit \<open>ch\<close>.\<close>

function read_width :: "string \<Rightarrow> nat \<Rightarrow> char \<Rightarrow> int \<Rightarrow> int \<times> nat" where
  "read_width fmt i ch p =
     (let p = p * 10 + of_char ch - 48; c = fch fmt i
      in if isdigit c then read_width fmt (i + 1) c p else (p, i))"
  by pat_completeness auto
termination
  by (relation "measure (\<lambda>(fmt, i, ch, p). length fmt - i)") (auto dest: isdigit_fch)

declare read_width.simps [simp del]

lemma read_width_le: "i \<le> snd (read_width fmt i ch p)"
  by (induction fmt i ch p rule: read_width.induct) (subst read_width.simps, fastforce simp: Let_def)

definition process_precision :: "int \<Rightarrow> fmtflags \<Rightarrow> fmtflags" where
  "process_precision p fl =
     (let fl = fl\<lparr>precision := p\<rparr>
      in if width fl < 0 then fl\<lparr>width := precision fl, precision := - 1\<rparr> else fl)"

text \<open>From the label \<open>reswitch\<close> on: flags, width, precision and length up to the conversion character.\<close>

function reswitch :: "string \<Rightarrow> nat \<Rightarrow> fmtflags \<Rightarrow> va list \<Rightarrow> (char \<times> nat \<times> fmtflags \<times> va list) option" where
  "reswitch fmt i fl ap =
     (let ch = fch fmt i; i' = i + 1
      in if ch = CHR ''-'' then reswitch fmt i' (fl\<lparr>padc := of_char CHR ''-''\<rparr>) ap
         else if ch = CHR ''0'' then reswitch fmt i' (fl\<lparr>padc := of_char CHR ''0''\<rparr>) ap
         else if isdigit ch
         then case read_width fmt i' ch 0 of (p, j) \<Rightarrow> reswitch fmt j (process_precision p fl) ap
         else if ch = CHR ''*''
         then (case ap of VA_INT p # ap \<Rightarrow> reswitch fmt i' (process_precision (sint p) fl) ap | _ \<Rightarrow> None)
         else if ch = CHR ''.'' then reswitch fmt i' (if width fl < 0 then fl\<lparr>width := 0\<rparr> else fl) ap
         else if ch = CHR ''#'' then reswitch fmt i' (fl\<lparr>altflag := True\<rparr>) ap
         else if ch = CHR ''l'' then reswitch fmt i' (fl\<lparr>lflag := lflag fl + 1\<rparr>) ap
         else Some (ch, i', fl, ap))"
  by pat_completeness auto
termination
proof (relation "measure (\<lambda>(fmt, i, fl, ap). length fmt - i)", goal_cases)
  case (4 fmt i fl ap ch i' p j)
  then have "j = snd (read_width fmt (i + 1) (fch fmt i) 0)" "i < length fmt"
    using isdigit_fch [of fmt i] by (simp_all add: prod_eq_iff)
  then show ?case using read_width_le [of "i + 1" fmt "fch fmt i" 0] by simp
qed (auto intro!: diff_less_mono2 fch_NUL simp: NUL_def)

declare reswitch.simps [simp del]

text \<open>The characters of a string; the result has the remaining width.\<close>

partial_function (option) put_str ::
    "(int \<Rightarrow> 'd \<Rightarrow> 'd) \<Rightarrow> mem \<Rightarrow> u32 \<Rightarrow> int \<Rightarrow> int \<Rightarrow> bool \<Rightarrow> 'd \<Rightarrow> (int \<times> 'd) option" where
  "put_str putch m p prec wid alt d =
     (let ch = sint (m p)
      in if ch \<noteq> 0 \<and> (prec < 0 \<or> prec - 1 \<ge> 0)
         then put_str putch m (p + 1) (if prec < 0 then prec else prec - 1) (wid - 1) alt
                (if alt \<and> (ch < 32 \<or> ch > 126) then putch 63 d else putch ch d)
         else Some (wid, d))"

definition conv_s :: "(int \<Rightarrow> 'd \<Rightarrow> 'd) \<Rightarrow> fmtflags \<Rightarrow> mem \<Rightarrow> u32 \<Rightarrow> 'd \<Rightarrow> 'd option" where
  "conv_s putch fl m p d =
     (let (m, p) = (if p = 0 then (case str_arg ''(null)'' of VA_PTR m p \<Rightarrow> (m, p) | _ \<Rightarrow> (m, p)) else (m, p));
          pad = width fl > 0 \<and> padc fl \<noteq> of_char CHR ''-'';
          wid = (if pad then width fl - sint (strnlen m p (word_of_int (precision fl))) else width fl);
          d = (if pad then putn putch (padc fl) (nat wid) d else d);
          wid = (if pad then min wid 0 else wid)
      in Option.bind (put_str putch m p (precision fl) wid (altflag fl) d) (\<lambda>(wid, d).
           Some (putn putch (of_char CHR '' '') (nat wid) d)))"

text \<open>An unknown conversion goes back to the character after the percent sign.\<close>

primrec back_up :: "string \<Rightarrow> nat \<Rightarrow> nat" where
  "back_up fmt 0 = 0"
| "back_up fmt (Suc i) = (if fch fmt i = CHR ''%'' then Suc i else back_up fmt i)"

definition conv_num :: "(int \<Rightarrow> 'd \<Rightarrow> 'd) \<Rightarrow> nat \<Rightarrow> fmtflags \<Rightarrow> u64 \<Rightarrow> (u64 \<times> va list) option \<Rightarrow> 'd \<Rightarrow> (nat \<times> va list \<times> 'd) option" where
  "conv_num putch i fl base arg d =
     Option.bind arg (\<lambda>(num, ap).
     Option.bind (printnum putch num base (width fl) (padc fl) d) (\<lambda>d. Some (i, ap, d)))"

definition conv_d :: "(int \<Rightarrow> 'd \<Rightarrow> 'd) \<Rightarrow> nat \<Rightarrow> fmtflags \<Rightarrow> va list \<Rightarrow> 'd \<Rightarrow> (nat \<times> va list \<times> 'd) option" where
  "conv_d putch i fl ap d =
     Option.bind (getint ap (lflag fl)) (\<lambda>(num, ap).
       if sint num < 0 then conv_num putch i fl 10 (Some (- num, ap)) (putch (of_char CHR ''-'') d)
       else conv_num putch i fl 10 (Some (num, ap)) d)"

text \<open>All conversions but \<open>%e\<close>, which calls \<open>printfmt\<close> again.\<close>

definition conv :: "(int \<Rightarrow> 'd \<Rightarrow> 'd) \<Rightarrow> string \<Rightarrow> char \<Rightarrow> nat \<Rightarrow> fmtflags \<Rightarrow> va list \<Rightarrow> 'd \<Rightarrow> (nat \<times> va list \<times> 'd) option" where
  "conv putch fmt ch i fl ap d =
     (if ch = CHR ''c'' then (case ap of VA_INT x # ap \<Rightarrow> Some (i, ap, putch (sint x) d) | _ \<Rightarrow> None)
      else if ch = CHR ''s''
      then (case ap of VA_PTR m p # ap \<Rightarrow> Option.bind (conv_s putch fl m p d) (\<lambda>d. Some (i, ap, d)) | _ \<Rightarrow> None)
      else if ch = CHR ''d'' then conv_d putch i fl ap d
      else if ch = CHR ''u'' then conv_num putch i fl 10 (getuint ap (lflag fl)) d
      else if ch = CHR ''o'' then conv_num putch i fl 8 (getuint ap (lflag fl)) d
      else if ch = CHR ''p''
      then let d = putch (of_char CHR ''x'') (putch (of_char CHR ''0'') d)
           in conv_num putch i fl 16
                (case ap of VA_PTR m p # ap \<Rightarrow> Some (ucast p, ap) | VA_INT p # ap \<Rightarrow> Some (ucast p, ap) | _ \<Rightarrow> None) d
      else if ch = CHR ''x'' then conv_num putch i fl 16 (getuint ap (lflag fl)) d
      else if ch = CHR ''%'' then Some (i, ap, putch (of_char ch) d)
      else Some (back_up fmt (i - 1), ap, putch (of_char CHR ''%'') d))"

section \<open>The formatter\<close>

partial_function (option) vprintfmt :: "(int \<Rightarrow> 'd \<Rightarrow> 'd) \<Rightarrow> string \<Rightarrow> nat \<Rightarrow> va list \<Rightarrow> 'd \<Rightarrow> 'd option" where
  "vprintfmt putch fmt i ap d =
     (let ch = fch fmt i
      in if ch \<noteq> CHR ''%''
         then if ch = NUL then Some d else vprintfmt putch fmt (i + 1) ap (putch (of_char ch) d)
         else Option.bind (reswitch fmt (i + 1) flags0 ap) (\<lambda>(ch, i, fl, ap).
           if ch = CHR ''e''
           then (case ap of
                   VA_INT err # ap \<Rightarrow>
                     let err = (if sint err < 0 then - err else err)
                     in if sint err < 0 then None
                        else if sint err \<ge> MAXERROR \<or> error_string ! unat err = None
                        then Option.bind (vprintfmt putch ''error %d'' 0 [VA_INT err] d) (\<lambda>d. vprintfmt putch fmt i ap d)
                        else Option.bind (vprintfmt putch ''%s'' 0 [str_arg (the (error_string ! unat err))] d)
                               (\<lambda>d. vprintfmt putch fmt i ap d)
                 | _ \<Rightarrow> None)
           else Option.bind (conv putch fmt ch i fl ap d) (\<lambda>(i, ap, d). vprintfmt putch fmt i ap d)))"

definition printfmt :: "(int \<Rightarrow> 'd \<Rightarrow> 'd) \<Rightarrow> string \<Rightarrow> va list \<Rightarrow> 'd \<Rightarrow> 'd option" where
  "printfmt putch fmt args d = vprintfmt putch fmt 0 args d"

section \<open>Printing to a buffer\<close>

record sprintbuf =
  sb_buf :: u32
  sb_ebuf :: u32
  sb_cnt :: int
  sb_mem :: mem

definition sprintputch :: "int \<Rightarrow> sprintbuf \<Rightarrow> sprintbuf" where
  "sprintputch ch b =
     (let b = b\<lparr>sb_cnt := sb_cnt b + 1\<rparr>
      in if sb_buf b < sb_ebuf b
         then b\<lparr>sb_mem := (sb_mem b)(sb_buf b := word_of_int ch), sb_buf := sb_buf b + 1\<rparr> else b)"

definition vsnprintf :: "u32 \<Rightarrow> u32 \<Rightarrow> string \<Rightarrow> va list \<Rightarrow> mem \<Rightarrow> (int \<times> mem) option" where
  "vsnprintf buf n fmt ap m =
     (let b = \<lparr>sb_buf = buf, sb_ebuf = buf + n - 1, sb_cnt = 0, sb_mem = m\<rparr>
      in if buf = 0 \<or> sint n < 1 then Some (- E_INVAL, m)
         else Option.bind (vprintfmt sprintputch fmt 0 ap b) (\<lambda>b.
                Some (sb_cnt b, (sb_mem b)(sb_buf b := 0))))"

definition snprintf :: "u32 \<Rightarrow> u32 \<Rightarrow> string \<Rightarrow> va list \<Rightarrow> mem \<Rightarrow> (int \<times> mem) option" where
  "snprintf buf n fmt args m = vsnprintf buf n fmt args m"

section \<open>Printing to the console\<close>

text \<open>The kernel's \<open>putch\<close>: \<open>*cnt++\<close> advances the local pointer and leaves the counter alone.\<close>

definition kputch :: "int \<Rightarrow> console \<times> int \<Rightarrow> console \<times> int" where
  "kputch ch = (\<lambda>(con, cnt). (cputchar (word_of_int ch) con, cnt))"

definition vcprintf :: "string \<Rightarrow> va list \<Rightarrow> console \<Rightarrow> (int \<times> console) option" where
  "vcprintf fmt ap con =
     Option.bind (vprintfmt kputch fmt 0 ap (con, 0)) (\<lambda>(con, cnt). Some (cnt, con))"

definition cprintf :: "string \<Rightarrow> va list \<Rightarrow> console \<Rightarrow> (int \<times> console) option" where
  "cprintf fmt args con = vcprintf fmt args con"

text \<open>
  The user library collects 255 characters for each system call. \<open>pb_out\<close> are the arguments of the
  calls of \<open>sys_cputs\<close>, latest first.
\<close>

record printbuf =
  pb_idx :: nat
  pb_cnt :: int
  pb_buf :: "nat \<Rightarrow> u8"
  pb_out :: "u8 list list"

definition pb_flush :: "printbuf \<Rightarrow> printbuf" where
  "pb_flush b = b\<lparr>pb_out := map (pb_buf b) [0..<pb_idx b] # pb_out b\<rparr>"

definition uputch :: "int \<Rightarrow> printbuf \<Rightarrow> printbuf" where
  "uputch ch b =
     (let b = b\<lparr>pb_buf := (pb_buf b)(pb_idx b := word_of_int ch), pb_idx := pb_idx b + 1\<rparr>;
          b = (if pb_idx b = 256 - 1 then (pb_flush b)\<lparr>pb_idx := 0\<rparr> else b)
      in b\<lparr>pb_cnt := pb_cnt b + 1\<rparr>)"

definition user_vcprintf :: "string \<Rightarrow> va list \<Rightarrow> (int \<times> u8 list list) option" where
  "user_vcprintf fmt ap =
     Option.bind (vprintfmt uputch fmt 0 ap \<lparr>pb_idx = 0, pb_cnt = 0, pb_buf = (\<lambda>_. 0), pb_out = []\<rparr>) (\<lambda>b.
       let b = pb_flush b in Some (pb_cnt b, rev (pb_out b)))"

definition user_cprintf :: "string \<Rightarrow> va list \<Rightarrow> (int \<times> u8 list list) option" where
  "user_cprintf fmt args = user_vcprintf fmt args"

end
