(* ===== verification/PrintThms.thy ===== *)
theory PrintThms
  imports Printfmt
begin

text \<open>
  Properties of formatted output: the output of the formatter does not depend on where it goes (it
  is a sequence of characters handed to \<open>putch\<close>), numbers are printed as their digits, a buffer is
  never overrun, the user library's system calls together carry exactly the output, and what
  \<open>snprintf\<close> prints \<open>strtol\<close> reads back.
\<close>

section \<open>Output is a sequence of characters\<close>

lemma putn_fold: "putn putch c n d = fold putch (replicate n c) d"
  by (induction n arbitrary: d) auto

text \<open>
  Two output devices that are related step by step: the formatter leads from related data to
  related data, whatever it prints.
\<close>

locale output_sim =
  fixes pa :: "int \<Rightarrow> 'a \<Rightarrow> 'a" and pb :: "int \<Rightarrow> 'b \<Rightarrow> 'b" and R :: "'a \<Rightarrow> 'b \<Rightarrow> bool"
  assumes step: "R d e \<Longrightarrow> R (pa c d) (pb c e)"
begin

lemma sim_putn: "R d e \<Longrightarrow> R (putn pa c n d) (putn pb c n e)"
  by (induction n arbitrary: d e) (auto intro: step)

lemma sim_printnum:
  "printnum pc num base w c d = Some d' \<Longrightarrow> pc = pa \<Longrightarrow> R d e \<Longrightarrow> \<exists>e'. printnum pb num base w c e = Some e' \<and> R d' e'"
proof (induction arbitrary: e rule: printnum.raw_induct [rotated 1, consumes 1])
  case (1 pr pc num base w c d d')
  show ?case
  proof (cases "base \<le> num")
    case True
    then obtain d1 where "pr pc (num div base) base (w - 1) c d = Some d1" "d' = pa (hex_digit (num mod base)) d1"
      using 1(2,3) by (auto simp: bind_eq_Some_conv)
    then show ?thesis
      using 1(1) [OF _ 1(3,4)] True step by (subst printnum.simps) fastforce
  next
    case False
    then show ?thesis using 1(2-4) by (subst printnum.simps) (auto intro: step sim_putn)
  qed
qed

lemma sim_put_str:
  "put_str pc m p prec wid alt d = Some r \<Longrightarrow> pc = pa \<Longrightarrow> R d e \<Longrightarrow>
   \<exists>e'. put_str pb m p prec wid alt e = Some (fst r, e') \<and> R (snd r) e'"
proof (induction arbitrary: e rule: put_str.raw_induct [rotated 1, consumes 1])
  case (1 ps pc m p prec wid alt d r)
  show ?case
  proof (cases "sint (m p) \<noteq> 0 \<and> (prec < 0 \<or> prec - 1 \<ge> 0)")
    case True
    let ?put = "\<lambda>put d. if alt \<and> (sint (m p) < 32 \<or> sint (m p) > 126) then put 63 d else put (sint (m p)) d"
    have r: "ps pc m (p + 1) (if prec < 0 then prec else prec - 1) (wid - 1) alt (?put pc d) = Some r"
      using True 1(2) by (simp add: Let_def)
    have "R (?put pc d) (?put pb e)" using 1(3,4) step by auto
    from 1(1) [OF r 1(3) this] show ?thesis using True by (subst put_str.simps) (simp add: Let_def)
  next
    case False
    then have "r = (wid, d)" using 1(2) by (auto simp: Let_def)
    then show ?thesis using False 1(4) by (subst put_str.simps) (auto simp: Let_def)
  qed
qed

lemma sim_padded:
  assumes "put_str pa m p prec wid alt d = Some (w, d')" "R d e"
  shows "\<exists>e'. put_str pb m p prec wid alt e = Some (w, e') \<and> R (putn pa c n d') (putn pb c n e')"
  using sim_put_str [OF assms(1) refl assms(2)] sim_putn by fastforce

lemma sim_conv_s: "conv_s pa fl m p d = Some d' \<Longrightarrow> R d e \<Longrightarrow> \<exists>e'. conv_s pb fl m p e = Some e' \<and> R d' e'"
proof -
  assume c: "conv_s pa fl m p d = Some d'" and R: "R d e"
  obtain m1 p1 where mp: "(if p = 0 then (case str_arg ''(null)'' of VA_PTR m p \<Rightarrow> (m, p) | _ \<Rightarrow> (m, p)) else (m, p)) = (m1, p1)"
    by fastforce
  let ?pad = "width fl > 0 \<and> padc fl \<noteq> of_char CHR ''-''"
  let ?w = "if ?pad then width fl - sint (strnlen m1 p1 (word_of_int (precision fl))) else width fl"
  let ?v = "if ?pad then min ?w 0 else ?w"
  let ?d = "\<lambda>put d. if ?pad then putn put (padc fl) (nat ?w) d else d"
  have eq: "conv_s put fl m p d = Option.bind (put_str put m1 p1 (precision fl) ?v (altflag fl) (?d put d))
      (\<lambda>(wid, d). Some (putn put (of_char CHR '' '') (nat wid) d))" for put :: "int \<Rightarrow> 'd \<Rightarrow> 'd" and d
    unfolding conv_s_def mp Let_def split_conv ..
  obtain w d1 where p: "put_str pa m1 p1 (precision fl) ?v (altflag fl) (?d pa d) = Some (w, d1)"
    "d' = putn pa (of_char CHR '' '') (nat w) d1"
    using c unfolding eq bind_eq_Some_conv by auto
  have "R (?d pa d) (?d pb e)" using R sim_putn by simp
  from sim_padded [OF p(1) this, of "of_char CHR '' ''" "nat w"] show ?thesis
    unfolding eq p(2) by auto
qed

lemma sim_conv_num:
  "conv_num pa i fl base arg d = Some (j, ap, d') \<Longrightarrow> R d e \<Longrightarrow> \<exists>e'. conv_num pb i fl base arg e = Some (j, ap, e') \<and> R d' e'"
  using sim_printnum [OF _ refl] by (fastforce simp: conv_num_def bind_eq_Some_conv)

lemma sim_conv_d:
  "conv_d pa i fl ap d = Some (j, ap', d') \<Longrightarrow> R d e \<Longrightarrow> \<exists>e'. conv_d pb i fl ap e = Some (j, ap', e') \<and> R d' e'"
proof -
  assume c: "conv_d pa i fl ap d = Some (j, ap', d')" and R: "R d e"
  then obtain num aq where g: "getint ap (lflag fl) = Some (num, aq)"
    by (auto simp: conv_d_def bind_eq_Some_conv)
  have neg: "R (pa (of_char CHR ''-'') d) (pb (of_char CHR ''-'') e)" using R by (rule step)
  show ?thesis
    using c sim_conv_num [OF _ R] sim_conv_num [OF _ neg] g by (cases "sint num < 0") (auto simp: conv_d_def)
qed

lemma sim_conv:
  "conv pa fmt ch i fl ap d = Some (j, ap', d') \<Longrightarrow> R d e \<Longrightarrow> \<exists>e'. conv pb fmt ch i fl ap e = Some (j, ap', e') \<and> R d' e'"
  unfolding conv_def
  by (auto simp: Let_def bind_eq_Some_conv split: if_splits list.splits va.splits
      dest!: sim_conv_num sim_conv_d sim_conv_s intro: step)

lemma sim_vprintfmt:
  "vprintfmt pc fmt i ap d = Some d' \<Longrightarrow> pc = pa \<Longrightarrow> R d e \<Longrightarrow> \<exists>e'. vprintfmt pb fmt i ap e = Some e' \<and> R d' e'"
proof (induction arbitrary: e rule: vprintfmt.raw_induct [rotated 1, consumes 1])
  case (1 vp pc fmt i ap d d')
  note IH = 1(1) [OF _ 1(3)]
  show ?case
  proof (cases "fch fmt i = CHR ''%''")
    case False
    then have "fch fmt i = NUL \<and> d' = d \<or> fch fmt i \<noteq> NUL \<and> vp pc fmt (i + 1) ap (pa (of_char (fch fmt i)) d) = Some d'"
      using 1(2,3) by (auto simp: Let_def split: if_splits)
    then show ?thesis
      using False IH step [OF 1(4)] 1(4) by (subst vprintfmt.simps) (auto simp: Let_def)
  next
    case True
    then obtain ch j fl ap1 where r: "reswitch fmt (i + 1) flags0 ap = Some (ch, j, fl, ap1)"
      using 1(2) by (auto simp: Let_def bind_eq_Some_conv)
    show ?thesis
    proof (cases "ch = CHR ''e''")
      case e: True
      then obtain err ap2 where ap: "ap1 = VA_INT err # ap2" using 1(2) True r
        by (auto simp: Let_def split: list.splits va.splits)
      let ?err = "if sint err < 0 then - err else err"
      let ?bad = "sint ?err \<ge> MAXERROR \<or> error_string ! unat ?err = None"
      let ?f = "if ?bad then ''error %d'' else ''%s''"
      let ?a = "if ?bad then [VA_INT ?err] else [str_arg (the (error_string ! unat ?err))]"
      have ok: "\<not> sint ?err < 0" and b: "Option.bind (vp pc ?f 0 ?a d) (vp pc fmt j ap2) = Some d'"
        using 1(2) True r e ap by (auto simp: Let_def split: if_splits)
      from b obtain d1 where d1: "vp pc ?f 0 ?a d = Some d1" "vp pc fmt j ap2 d1 = Some d'"
        by (auto simp: bind_eq_Some_conv)
      obtain e1 where e1: "vprintfmt pb ?f 0 ?a e = Some e1" "R d1 e1" using IH [OF d1(1) 1(4)] by blast
      obtain e2 where e2: "vprintfmt pb fmt j ap2 e1 = Some e2" "R d' e2" using IH [OF d1(2) e1(2)] by blast
      have "vprintfmt pb fmt i ap e = Option.bind (vprintfmt pb ?f 0 ?a e) (vprintfmt pb fmt j ap2)"
        using True r e ap ok by (subst vprintfmt.simps) (simp add: Let_def)
      then show ?thesis using e1 e2 by simp
    next
      case False
      then obtain k ap2 d1 where c: "conv pa fmt ch j fl ap1 d = Some (k, ap2, d1)" "vp pc fmt k ap2 d1 = Some d'"
        using 1(2,3) True r by (auto simp: Let_def bind_eq_Some_conv)
      obtain e1 where e1: "conv pb fmt ch j fl ap1 e = Some (k, ap2, e1)" "R d1 e1" using sim_conv [OF c(1) 1(4)] by blast
      then show ?thesis
        using IH [OF c(2) e1(2)] True r False by (subst vprintfmt.simps) (simp add: Let_def)
    qed
  qed
qed

end

text \<open>
  The characters of the output, collected in a list. Every other run of the formatter hands these
  characters, in this order, to its \<open>putch\<close>.
\<close>

definition snoc :: "int \<Rightarrow> int list \<Rightarrow> int list" where
  "snoc c xs = xs @ [c]"

interpretation replay: output_sim snoc putch "\<lambda>xs d. d = fold putch xs start" for putch :: "int \<Rightarrow> 'd \<Rightarrow> 'd" and start
  by unfold_locales (simp add: snoc_def)

interpretation collect: output_sim putch snoc "\<lambda>d xs. d = fold putch xs start" for putch :: "int \<Rightarrow> 'd \<Rightarrow> 'd" and start
  by unfold_locales (simp add: snoc_def)

definition fmt_out :: "string \<Rightarrow> va list \<Rightarrow> int list option" where
  "fmt_out fmt args = vprintfmt snoc fmt 0 args []"

lemma vprintfmt_output: "vprintfmt putch fmt 0 args d = map_option (\<lambda>xs. fold putch xs d) (fmt_out fmt args)"
proof (cases "fmt_out fmt args")
  case None
  have "False" if v: "vprintfmt putch fmt 0 args d = Some d'" for d'
    using collect.sim_vprintfmt [OF v refl, where e = "[]" and start = d] None by (simp add: fmt_out_def)
  then show ?thesis using None by (cases "vprintfmt putch fmt 0 args d") auto
next
  case (Some xs)
  from replay.sim_vprintfmt [OF Some [unfolded fmt_out_def] refl, where putch = putch and e = d and start = d] show ?thesis
    using Some by auto
qed

section \<open>Printing to a buffer\<close>

text \<open>What a run of characters does to the buffer: they are all counted, those that fit are stored.\<close>

lemma fold_sprintputch:
  assumes "unat (sb_buf b) \<le> unat (sb_ebuf b)"
  shows "fold sprintputch xs b =
    (let k = min (length xs) (unat (sb_ebuf b) - unat (sb_buf b))
     in b\<lparr>sb_cnt := sb_cnt b + int (length xs), sb_mem := put_bytes (sb_buf b) (map word_of_int (take k xs)) (sb_mem b),
          sb_buf := sb_buf b + word_of_nat k\<rparr>)"
  using assms
proof (induction xs arbitrary: b)
  case (Cons x xs)
  let ?b = "sprintputch x b"
  show ?case
  proof (cases "sb_buf b < sb_ebuf b")
    case True
    then have u: "unat (sb_buf b + 1) = Suc (unat (sb_buf b))"
      by (intro unat_Suc_less [of _ "sb_ebuf b"]) (simp add: word_less_nat_alt)
    have b: "?b = b\<lparr>sb_cnt := sb_cnt b + 1, sb_mem := (sb_mem b)(sb_buf b := word_of_int x), sb_buf := sb_buf b + 1\<rparr>"
      using True by (simp add: sprintputch_def Let_def)
    have "unat (sb_buf ?b) \<le> unat (sb_ebuf ?b)" using True u by (simp add: b word_less_nat_alt)
    note IH = Cons.IH [OF this]
    have k: "min (length (x # xs)) (unat (sb_ebuf b) - unat (sb_buf b)) = Suc (min (length xs) (unat (sb_ebuf b) - unat (sb_buf b + 1)))"
      using True u by (simp add: word_less_nat_alt)
    show ?thesis unfolding k fold_simps IH unfolding b by (cases b) (simp add: Let_def add.assoc del: min_Suc_Suc)
  next
    case False
    then have e: "unat (sb_ebuf b) - unat (sb_buf b) = 0" by (simp add: word_less_nat_alt)
    have b: "?b = b\<lparr>sb_cnt := sb_cnt b + 1\<rparr>" using False by (simp add: sprintputch_def Let_def)
    show ?thesis using Cons.IH [of ?b] Cons.prems e by (simp add: b)
  qed
qed (cases b; simp)

lemma vsnprintf_run:
  assumes "buf \<noteq> 0" "0 < sint n" "unat buf + unat n \<le> 4294967296"
  shows "vsnprintf buf n fmt ap m = map_option (\<lambda>xs.
    (int (length xs), put_bytes buf (map word_of_int (take (unat n - 1) xs) @ [0]) m)) (fmt_out fmt ap)"
proof -
  let ?b = "\<lparr>sb_buf = buf, sb_ebuf = buf + n - 1, sb_cnt = 0, sb_mem = m\<rparr>"
  have n: "n \<noteq> 0" "0 < unat n" using assms(2) by (auto simp: unat_gt_0)
  have "unat (buf + n - 1) = unat (buf + (n - 1))" by (rule arg_cong [of _ _ unat]) simp
  then have e: "unat (buf + n - 1) = unat buf + (unat n - 1)"
    using assms(3) n unat_plus32_no_wrap [of buf "n - 1"] by (simp add: unat_minus_1)
  have "(case fold sprintputch xs ?b of b \<Rightarrow> (sb_cnt b, (sb_mem b)(sb_buf b := 0))) =
      (int (length xs), put_bytes buf (map word_of_int (take (unat n - 1) xs) @ [0]) m)" for xs
  proof -
    have "take (min (length xs) k) xs = take k xs" for k by (cases "length xs \<le> k") auto
    then show ?thesis by (simp add: fold_sprintputch e Let_def put_bytes_append)
  qed
  then show ?thesis
    using assms(1,2) by (cases "fmt_out fmt ap") (simp_all add: vsnprintf_def Let_def vprintfmt_output)
qed


section \<open>Numbers\<close>

text \<open>The digits of a number, most significant first.\<close>

fun digs :: "nat \<Rightarrow> nat \<Rightarrow> nat list" where
  "digs b n = (if b < 2 \<or> n < b then [n] else digs b (n div b) @ [n mod b])"

declare digs.simps [simp del]

definition dchar :: "nat \<Rightarrow> int" where
  "dchar n = of_char (''0123456789abcdef'' ! n)"

lemma digs_lt: "2 \<le> b \<Longrightarrow> x \<in> set (digs b n) \<Longrightarrow> x < b"
proof (induction b n rule: digs.induct)
  case (1 b n)
  then show ?case by (cases "n < b") (auto simp: digs.simps [of b n])
qed

lemma digs_value: "2 \<le> b \<Longrightarrow> foldl (\<lambda>v d. v * b + d) 0 (digs b n) = n"
proof (induction b n rule: digs.induct)
  case (1 b n)
  then show ?case by (cases "n < b") (simp_all add: digs.simps [of b n] mult.commute)
qed

lemma unat_div64: "unat ((a :: u64) div b) = unat a div unat b" and unat_mod64: "unat ((a :: u64) mod b) = unat a mod unat b"
  by (simp_all add: unat_div_distrib unat_mod_distrib)

text \<open>\<open>printnum\<close> returns for every base of at least two, and prints the digits, padded on the left.\<close>

lemma printnum_run:
  assumes "2 \<le> unat base"
  shows "printnum putch num base w c d =
    Some (fold putch (replicate (nat (w - int (length (digs (unat base) (unat num))))) c @ map dchar (digs (unat base) (unat num))) d)"
proof (induction "unat num" arbitrary: num w d rule: less_induct)
  case less
  let ?b = "unat base" and ?n = "unat num"
  show ?case
  proof (cases "base \<le> num")
    case True
    then have le: "?b \<le> ?n" by (simp add: word_le_nat_alt)
    then have "unat (num div base) < ?n" using assms by (simp add: unat_div64)
    note IH = less [OF this, unfolded unat_div64]
    have d: "digs ?b ?n = digs ?b (?n div ?b) @ [?n mod ?b]"
      using le assms by (subst digs.simps) simp
    have w: "w - 1 - int (length (digs ?b (?n div ?b))) = w - int (length (digs ?b (?n div ?b) @ [?n mod ?b]))" by simp
    show ?thesis
      unfolding d w [symmetric] using True by (subst printnum.simps) (simp add: IH hex_digit_def dchar_def unat_mod64)
  next
    case False
    then have lt: "?n < ?b" by (simp add: word_le_nat_alt)
    then have "digs ?b ?n = [?n]" by (subst digs.simps) simp
    then show ?thesis
      using False lt by (subst printnum.simps) (simp add: putn_fold hex_digit_def dchar_def unat_mod64)
  qed
qed

text \<open>Reading digits back.\<close>

lemma less16: "n < 16 \<longleftrightarrow> n = 0 \<or> n = 1 \<or> n = 2 \<or> n = 3 \<or> n = 4 \<or> n = 5 \<or> n = 6 \<or> n = 7 \<or> n = 8 \<or> n = 9
    \<or> n = 10 \<or> n = 11 \<or> n = 12 \<or> n = 13 \<or> n = 14 \<or> n = (15 :: nat)"
  by presburger

lemma digit_of_dchar: "n < 16 \<Longrightarrow> digit_of (word_of_int (dchar n)) = Some (word_of_nat n)"
  and dchar_nz: "n < 16 \<Longrightarrow> (word_of_int (dchar n) :: u8) \<noteq> 0"
  and dchar_other: "n < 16 \<Longrightarrow> (word_of_int (dchar n) :: u8) \<notin> {32, 9, 43, 45, 120}"
  and dchar_48: "n < 16 \<Longrightarrow> (word_of_int (dchar n) :: u8) = 48 \<longleftrightarrow> n = 0"
  unfolding less16 by (elim disjE; simp add: dchar_def digit_of_def)+

lemma sle_small: "b \<le> 16 \<Longrightarrow> n < 16 \<Longrightarrow> (word_of_nat b :: u32) \<le>s word_of_nat n \<longleftrightarrow> b \<le> n"
  by (simp add: word_sle_eq sint32 unat_word_of_nat32)

lemma strtol_digits_run:
  assumes "b \<le> 16" "\<And>x. x \<in> set ds \<Longrightarrow> x < b"
    and "cstr m s (map (\<lambda>n. word_of_int (dchar n)) ds)"
  shows "strtol_digits m s (word_of_nat b) val =
    Some (s + word_of_nat (length ds), foldl (\<lambda>v d. v * word_of_nat b + word_of_nat d) val ds)"
  using assms(2,3)
proof (induction ds arbitrary: s val)
  case Nil
  then show ?case by (subst strtol_digits.simps) (simp add: digit_of_def)
next
  case (Cons x ds)
  have x: "\<not> b \<le> x" "x < 16" using Cons.prems(1) [of x] assms(1) by auto
  then show ?case
    using Cons.IH [of "s + 1"] Cons.prems assms(1)
    by (subst strtol_digits.simps) (simp add: digit_of_dchar sle_small add.assoc)
qed

lemma foldl_word: "foldl (\<lambda>v d. v * word_of_nat b + word_of_nat d) (word_of_nat a :: u32) ds = word_of_nat (foldl (\<lambda>v d. v * b + d) a ds)"
  by (induction ds arbitrary: a) (simp_all flip: of_nat_mult of_nat_add del: of_nat_mult of_nat_add)

lemma strtol_digs:
  assumes "2 \<le> b" "b \<le> 16" "cstr m s (map (\<lambda>n. word_of_int (dchar n)) (digs b n))"
  shows "strtol_digits m s (word_of_nat b) 0 = Some (s + word_of_nat (length (digs b n)), word_of_nat n)"
  using strtol_digits_run [OF assms(2) digs_lt [OF assms(1)] assms(3)] foldl_word [of b 0 "digs b n"] digs_value [OF assms(1), of n]
  by simp

section \<open>Round trip\<close>

lemma vprintfmt_end: "length fmt \<le> i \<Longrightarrow> vprintfmt putch fmt i ap d = Some d"
  by (subst vprintfmt.simps) (simp add: fch_def NUL_def)

lemma vprintfmt_one:
  assumes "c \<in> {CHR ''d'', CHR ''u'', CHR ''o'', CHR ''x''}"
  shows "vprintfmt putch [CHR ''%'', c] 0 ap d =
    Option.bind (conv putch [CHR ''%'', c] c 2 flags0 ap d) (\<lambda>(i, ap, d). vprintfmt putch [CHR ''%'', c] i ap d)"
proof -
  have "reswitch [CHR ''%'', c] 1 flags0 ap = Some (c, 2, flags0, ap)"
    using assms by (elim insertE emptyE; subst reswitch.simps; simp add: fch_def isdigit_def Let_def)
  then show ?thesis using assms by (subst vprintfmt.simps) (auto simp: fch_def Let_def)
qed

text \<open>What \<open>%u\<close>, \<open>%o\<close>, \<open>%x\<close> and \<open>%d\<close> print.\<close>

lemma unat_ucast_32_64: "unat (ucast (x :: u32) :: u64) = unat x"
  by (simp add: unsigned_ucast_eq take_bit_nat_eq_self order_less_trans [OF unat_lt32])

lemma fold_snoc: "fold snoc xs ys = ys @ xs"
  by (induction xs arbitrary: ys) (simp_all add: snoc_def)

lemma print_unsigned:
  assumes "(c, b) \<in> {(CHR ''u'', 10), (CHR ''o'', 8), (CHR ''x'', 16)}"
  shows "fmt_out [CHR ''%'', c] [VA_INT x] = Some (map dchar (digs b (unat x)))"
proof -
  let ?n = "\<lambda>b. printnum snoc (ucast x) b (- 1) 32 []"
  have n: "?n 8 = Some (map dchar (digs 8 (unat x)))" "?n 10 = Some (map dchar (digs 10 (unat x)))"
    "?n 16 = Some (map dchar (digs 16 (unat x)))"
    using printnum_run [of 8 snoc "ucast x" "- 1" 32 "[]"] printnum_run [of 10 snoc "ucast x" "- 1" 32 "[]"]
      printnum_run [of 16 snoc "ucast x" "- 1" 32 "[]"]
    by (simp_all add: unat_ucast_32_64 fold_snoc)
  show ?thesis
    using assms n by (auto simp: fmt_out_def vprintfmt_one conv_def conv_num_def getuint_def flags0_def vprintfmt_end)
qed

definition dec_chars :: "u32 \<Rightarrow> int list" where
  "dec_chars x = (if sint x < 0 then 45 # map dchar (digs 10 (unat (- x))) else map dchar (digs 10 (unat x)))"

lemma unat_of_int64: "0 \<le> k \<Longrightarrow> k < 4294967296 \<Longrightarrow> unat (word_of_int k :: u64) = nat k"
  and unat_of_int32: "0 \<le> k \<Longrightarrow> k < 4294967296 \<Longrightarrow> unat (word_of_int k :: u32) = nat k"
  by (simp_all add: unsigned_of_int take_bit_int_eq_self)

lemma sint_range32: "- 4294967296 < sint (x :: u32)" "sint x < 4294967296"
proof -
  have "- 4294967296 < s \<and> s < 4294967296" if "n < 4294967296" "s = (if n < 2147483648 then int n else int n - 4294967296)" for n s
    using that by auto
  from this [OF unat_lt32 [of x] sint32] show "- 4294967296 < sint x" "sint x < 4294967296" by auto
qed

lemma unat_neg32: "sint x < 0 \<Longrightarrow> unat (- x :: u32) = nat (- sint x)"
  and unat_pos32: "\<not> sint x < 0 \<Longrightarrow> unat (x :: u32) = nat (sint x)"
  using unat_of_int32 [of "- sint x"] unat_of_int32 [of "sint x"] sint_range32 [of x] by simp_all

lemma print_signed: "fmt_out ''%d'' [VA_INT x] = Some (dec_chars x)"
proof -
  have sc: "scast x = (word_of_int (sint x) :: u64)" by (rule scast_eq)
  have s: "sint (scast x :: u64) = sint x" by (rule sint_up_scast) (simp add: is_up)
  have neg: "unat (- scast x :: u64) = unat (- x)" if "sint x < 0"
  proof -
    have "unat (word_of_int (- sint x) :: u64) = unat (- x)"
      using that sint_range32 [of x] by (subst unat_of_int64) (auto simp: unat_neg32)
    moreover have "word_of_int (- sint x) = - (word_of_int (sint x) :: u64)" by (simp only: of_int_minus)
    ultimately show ?thesis unfolding sc by argo
  qed
  have pos: "unat (scast x :: u64) = unat x" if "\<not> sint x < 0"
    unfolding sc unat_pos32 [OF that] using that sint_range32 [of x] by (intro unat_of_int64) auto
  have "conv_d snoc 2 flags0 [VA_INT x] [] = Some (2, [], dec_chars x)"
  proof (cases "sint x < 0")
    case True
    then show ?thesis
      using printnum_run [of 10 snoc "- scast x" "- 1" 32 "snoc 45 []"]
      by (simp add: fold_snoc snoc_def conv_d_def conv_num_def getint_def flags0_def s dec_chars_def neg)
  next
    case False
    then show ?thesis
      using printnum_run [of 10 snoc "scast x" "- 1" 32 "[]"]
      by (simp add: fold_snoc conv_d_def conv_num_def getint_def flags0_def s dec_chars_def pos)
  qed
  then show ?thesis by (simp add: fmt_out_def vprintfmt_one conv_def vprintfmt_end)
qed


lemma digs_nz: "2 \<le> b \<Longrightarrow> b \<le> 16 \<Longrightarrow> 0 \<notin> set (map (\<lambda>n. word_of_int (dchar n) :: u8) (digs b n))"
  using digs_lt [of b _ n] dchar_nz by fastforce

lemma digs_len: "n < 2 ^ k \<Longrightarrow> 2 \<le> b \<Longrightarrow> 0 < k \<Longrightarrow> length (digs b n) \<le> k"
proof (induction b n arbitrary: k rule: digs.induct)
  case (1 b n)
  show ?case
  proof (cases "n < b")
    case True
    then show ?thesis using 1 by (subst digs.simps) simp
  next
    case False
    then have "1 < k" using 1(2,3,4) by (cases "k = 1") auto
    then obtain j where k: "k = Suc j" "0 < j" by (cases k) auto
    have "n div b \<le> n div 2" using 1(3) by (simp add: div_le_mono2)
    then have "n div b < 2 ^ j" using 1(2) k by auto
    then have "length (digs b (n div b)) \<le> j" using 1 False k by auto
    then show ?thesis using False 1(3) k by (subst digs.simps) simp
  qed
qed

lemma digs_head: "2 \<le> b \<Longrightarrow> digs b n \<noteq> [] \<and> (hd (digs b n) = 0 \<longrightarrow> tl (digs b n) = [])"
proof (induction b n rule: digs.induct)
  case (1 b n)
  show ?case
  proof (cases "n < b")
    case True
    then show ?thesis by (subst (1 2 3) digs.simps) simp
  next
    case False
    then have IH: "digs b (n div b) \<noteq> []" "hd (digs b (n div b)) = 0 \<longrightarrow> tl (digs b (n div b)) = []" using 1 by auto
    have "hd (digs b (n div b)) \<noteq> 0"
    proof
      assume "hd (digs b (n div b)) = 0"
      then have "digs b (n div b) = [0]" using IH by (metis list.collapse)
      then have "n div b = 0" using digs_value [OF 1(2), of "n div b"] by simp
      then show False using False 1(2) by (simp add: div_eq_0_iff)
    qed
    then show ?thesis using False 1(2) IH(1) by (subst (1 2 3) digs.simps) simp
  qed
qed

text \<open>\<open>strtol\<close> on the digits of \<open>n\<close>, with or without a minus sign.\<close>

lemma strtol_run:
  assumes b: "b \<in> {8, 10, 16}" and c: "cstr m s (sg @ map (\<lambda>n. word_of_int (dchar n)) (digs b n))" and sg: "sg = [] \<or> sg = [45]"
  shows "strtol m s (word_of_nat b) =
    Some (if sg = [] then word_of_nat n else - word_of_nat n, s + word_of_nat (length sg + length (digs b n)))"
proof -
  let ?ds = "map (\<lambda>n. word_of_int (dchar n)) (digs b n) :: u8 list"
  let ?s = "s + word_of_nat (length sg)"
  have b2: "2 \<le> b" "b \<le> 16" using b by auto
  obtain x xs where x: "digs b n = x # xs" "x < 16" "x = 0 \<longrightarrow> xs = []"
    using digs_head [OF b2(1), of n] digs_lt [OF b2(1), of _ n] b2(2) by (cases "digs b n") fastforce+
  have c': "cstr m ?s ?ds" using c sg by auto
  then have h: "m ?s = word_of_int (dchar x)" "x = 0 \<longrightarrow> m (?s + 1) = 0"
    using x by auto
  have sk: "skip_blanks m s = Some s"
    using c sg h dchar_other [OF x(2)] by (subst skip_blanks.simps) auto
  have pre: "\<not> (m ?s = 48 \<and> m (?s + 1) = 120)" using h x dchar_48 [OF x(2)] by auto
  have bb: "(word_of_nat b :: u32) \<noteq> 0" using b by auto
  have sign: "(if m s = 43 then (s + 1, False) else if m s = 45 then (s + 1, True) else (s, False)) = (?s, sg \<noteq> [])"
    using c sg h dchar_other [OF x(2)] by auto
  show ?thesis
    unfolding strtol_def sk Option.bind.simps sign Let_def split_conv
    using pre bb strtol_digs [OF b2 c'] by (auto simp: add.assoc)
qed


text \<open>The bytes of a printed number fit into 33 bytes with the terminating NUL, 34 with a sign.\<close>

lemma roundtrip_run:
  assumes buf: "buf \<noteq> 0" "34 \<le> sint n" "unat buf + unat n \<le> 4294967296"
    and b: "b \<in> {8, 10, 16}" and sg: "sg = [] \<or> sg = [45]" and k: "k < 4294967296"
    and out: "fmt_out fmt ap = Some (sg @ map dchar (digs b k))"
  shows "\<exists>m'. snprintf buf n fmt ap m = Some (int (length sg + length (digs b k)), m')
     \<and> strtol m' buf (word_of_nat b) = Some (if sg = [] then word_of_nat k else - word_of_nat k,
         buf + word_of_nat (length sg + length (digs b k)))"
proof -
  let ?xs = "sg @ map dchar (digs b k)"
  let ?m' = "put_bytes buf (map word_of_int ?xs @ [0]) m"
  have len: "length (digs b k) \<le> 32" using digs_len [of k 32 b] k b by auto
  have n: "34 \<le> unat n" using buf(2) unat_pos32 [of n] by simp
  have t: "take (unat n - 1) ?xs = ?xs" using len n sg by auto
  have r: "snprintf buf n fmt ap m = Some (int (length sg + length (digs b k)), ?m')"
    unfolding snprintf_def using vsnprintf_run [OF buf(1) _ buf(3), of fmt ap m] buf(2) t out by (simp only: option.map) simp
  have "0 \<notin> set (map word_of_int ?xs :: u8 list)" using digs_nz [of b k] b sg by auto
  then have "cstr ?m' buf (map word_of_int sg @ map (\<lambda>n. word_of_int (dchar n)) (digs b k))"
    using cstr_put [of "map word_of_int ?xs" buf m] len sg by (auto simp: comp_def)
  then show ?thesis
    using strtol_run [OF b, of ?m' buf "map word_of_int sg" k] sg r by auto
qed

text \<open>
  C33: round trip. For every 32-bit integer, what \<open>snprintf\<close> prints with \<open>%d\<close>, \<open>%u\<close>, \<open>%x\<close> or \<open>%o\<close>
  into a buffer of at least 34 bytes, \<open>strtol\<close> in base 10, 10, 16 or 8 reads back as that integer,
  and it stops exactly at the end of what was printed. INT\_MIN and unsigned values beyond INT\_MAX
  are included.
\<close>

theorem snprintf_strtol_roundtrip:
  assumes buf: "buf \<noteq> 0" "34 \<le> sint n" "unat buf + unat n \<le> 4294967296"
    and conv: "(c, b) \<in> {(CHR ''d'', 10), (CHR ''u'', 10), (CHR ''x'', 16), (CHR ''o'', 8)}"
  shows "\<exists>r m'. snprintf buf n [CHR ''%'', c] [VA_INT x] m = Some (r, m') \<and> strtol m' buf b = Some (x, buf + word_of_int r)"
proof -
  have *: "\<exists>r m'. snprintf buf n fmt ap m = Some (r, m') \<and> strtol m' buf (word_of_nat k) = Some (x, buf + word_of_int r)"
    if "k \<in> {8, 10, 16}" "sg = [] \<or> sg = [45]" "j < 4294967296"
      "fmt_out fmt ap = Some (sg @ map dchar (digs k j))"
      "x = (if sg = [] then word_of_nat j else - word_of_nat j)" for k sg j fmt ap
    using roundtrip_run [OF buf that(1-4), of m] that(5) by auto
  have un: "\<exists>r m'. snprintf buf n [CHR ''%'', c] [VA_INT x] m = Some (r, m') \<and> strtol m' buf (word_of_nat k) = Some (x, buf + word_of_int r)"
    if "(c, k) \<in> {(CHR ''u'', 10), (CHR ''o'', 8), (CHR ''x'', 16)}" for k
    using that print_unsigned [OF that, of x] unat_lt32 [of x]
    by (intro * [of k "[]" "unat x"]) auto
  have sg: "\<exists>r m'. snprintf buf n ''%d'' [VA_INT x] m = Some (r, m') \<and> strtol m' buf (word_of_nat 10) = Some (x, buf + word_of_int r)"
  proof (cases "sint x < 0")
    case True
    then show ?thesis
      using print_signed [of x] unat_lt32 [of "- x"]
      by (intro * [of 10 "[45]" "unat (- x)"]) (auto simp: dec_chars_def)
  next
    case False
    then show ?thesis
      using print_signed [of x] unat_lt32 [of x]
      by (intro * [of 10 "[]" "unat x"]) (auto simp: dec_chars_def)
  qed
  show ?thesis using conv sg un [of 10] un [of 8] un [of 16] by auto
qed

theorem snprintf_strtol_roundtrip_witness:
  "\<exists>r m'. snprintf 0x1000 40 ''%d'' [VA_INT 0x80000000] (\<lambda>_. 0) = Some (r, m') \<and> strtol m' 0x1000 10 = Some (0x80000000, 0x1000 + word_of_int r)"
  by (rule snprintf_strtol_roundtrip) simp_all


section \<open>The user library's printf\<close>

text \<open>The characters that a buffer has passed on and still holds.\<close>

definition pb_all :: "printbuf \<Rightarrow> u8 list" where
  "pb_all b = concat (rev (pb_out b)) @ map (pb_buf b) [0..<pb_idx b]"

lemma upt_snoc: "map (f(n := x)) [0..<Suc n] = map f [0..<n] @ [x]"
  by simp

lemma uputch_all:
  assumes "pb_idx b < 255" "\<forall>c \<in> set (pb_out b). length c = 255"
  shows "pb_all (uputch x b) = pb_all b @ [word_of_int x]" "pb_idx (uputch x b) < 255"
    "\<forall>c \<in> set (pb_out (uputch x b)). length c = 255" "pb_cnt (uputch x b) = pb_cnt b + 1"
  using assms upt_snoc [of "pb_buf b" "pb_idx b" "word_of_int x"]
  by (auto simp: uputch_def pb_all_def pb_flush_def Let_def simp del: upt_Suc)

lemma fold_uputch:
  assumes "pb_idx b < 255" "\<forall>c \<in> set (pb_out b). length c = 255"
  shows "pb_all (fold uputch xs b) = pb_all b @ map word_of_int xs \<and> pb_idx (fold uputch xs b) < 255
    \<and> (\<forall>c \<in> set (pb_out (fold uputch xs b)). length c = 255) \<and> pb_cnt (fold uputch xs b) = pb_cnt b + int (length xs)"
  using assms
proof (induction xs arbitrary: b)
  case (Cons x xs)
  then show ?case using Cons.IH [OF uputch_all(2,3) [OF Cons.prems]] uputch_all [OF Cons.prems] by simp
qed simp

text \<open>
  C35: the user library's \<open>cprintf\<close> passes exactly the formatted characters to the kernel: the
  arguments of its calls of \<open>sys_cputs\<close>, put together, are the output of the formatter; all calls but
  the last carry 255 characters and the last fewer, so the 256-byte buffer is never overrun; and
  the result is the number of characters.
\<close>

theorem user_cprintf_output:
  assumes "fmt_out fmt args = Some xs"
  shows "\<exists>cs c. user_cprintf fmt args = Some (int (length xs), cs @ [c]) \<and> concat cs @ c = map word_of_int xs
     \<and> (\<forall>k \<in> set cs. length k = 255) \<and> length c < 255"
proof -
  let ?init = "\<lparr>pb_idx = 0, pb_cnt = 0, pb_buf = (\<lambda>_. 0), pb_out = []\<rparr>"
  let ?b = "fold uputch xs ?init"
  have "pb_all ?init = []" by (simp add: pb_all_def)
  then have F: "pb_all ?b = map word_of_int xs" "pb_idx ?b < 255" "\<forall>c \<in> set (pb_out ?b). length c = 255"
      "pb_cnt ?b = int (length xs)"
    using fold_uputch [of ?init xs] by auto
  have "user_cprintf fmt args = Some (int (length xs), rev (pb_out ?b) @ [map (pb_buf ?b) [0..<pb_idx ?b]])"
    using F(4) by (simp add: user_cprintf_def user_vcprintf_def vprintfmt_output assms pb_flush_def)
  then show ?thesis using F(1-3) by (force simp: pb_all_def)
qed

theorem user_cprintf_output_witness: "\<exists>cs c. user_cprintf ''%d'' [VA_INT 7] = Some (1, cs @ [c]) \<and> concat cs @ c = [55]"
proof -
  have "digs 10 (unat (7 :: u32)) = [7]" by (simp add: digs.simps)
  then have "fmt_out ''%d'' [VA_INT 7] = Some [55]"
    using print_signed [of 7] by (simp add: dec_chars_def dchar_def)
  from user_cprintf_output [OF this] show ?thesis by auto
qed

text \<open>The kernel's \<open>cprintf\<close> shows the output on the console; its result is always 0.\<close>

lemma cprintf_run:
  "cprintf fmt args con = map_option (\<lambda>xs. (0, fold (\<lambda>ch. cputchar (word_of_int ch)) xs con)) (fmt_out fmt args)"
proof -
  have "fold kputch xs (con, 0) = (fold (\<lambda>ch. cputchar (word_of_int ch)) xs con, 0)" for xs con
    by (induction xs arbitrary: con) (simp_all add: kputch_def)
  then show ?thesis
    by (cases "fmt_out fmt args") (simp_all add: cprintf_def vcprintf_def vprintfmt_output)
qed

end
