(* ===== verification/Trap.thy ===== *)
theory Trap
  imports UserStore PrintThms
begin

text \<open>
  Traps (lab/kern/trap.c): the interrupt descriptor table, the per-CPU task state, the dispatcher,
  the page fault handler and the entry point \<open>trap\<close>.

  What the processor has at the moment of the trap is an argument: the frame it pushed, CR2, and
  EFLAGS as \<open>read_eflags\<close> returns it. Addresses that the linker chooses (the handlers of
  trapentry.S, the task states, the saved frames) are arguments too, collected in \<open>image\<close>. A
  \<open>struct Trapframe *\<close> is either the frame on the kernel stack or an environment's \<open>env_tf\<close>. The
  monitor never returns, because no command of it returns a negative value, so calling it is the
  exit \<open>Monitor\<close>.
\<close>

section \<open>Trap numbers\<close>

definition T_DIVIDE :: u32 where [const_simps]: "T_DIVIDE = 0"
definition T_DEBUG :: u32 where [const_simps]: "T_DEBUG = 1"
definition T_NMI :: u32 where [const_simps]: "T_NMI = 2"
definition T_BRKPT :: u32 where [const_simps]: "T_BRKPT = 3"
definition T_OFLOW :: u32 where [const_simps]: "T_OFLOW = 4"
definition T_BOUND :: u32 where [const_simps]: "T_BOUND = 5"
definition T_ILLOP :: u32 where [const_simps]: "T_ILLOP = 6"
definition T_DEVICE :: u32 where [const_simps]: "T_DEVICE = 7"
definition T_DBLFLT :: u32 where [const_simps]: "T_DBLFLT = 8"
definition T_TSS :: u32 where [const_simps]: "T_TSS = 10"
definition T_SEGNP :: u32 where [const_simps]: "T_SEGNP = 11"
definition T_STACK :: u32 where [const_simps]: "T_STACK = 12"
definition T_GPFLT :: u32 where [const_simps]: "T_GPFLT = 13"
definition T_PGFLT :: u32 where [const_simps]: "T_PGFLT = 14"
definition T_FPERR :: u32 where [const_simps]: "T_FPERR = 16"
definition T_ALIGN :: u32 where [const_simps]: "T_ALIGN = 17"
definition T_MCHK :: u32 where [const_simps]: "T_MCHK = 18"
definition T_SIMDERR :: u32 where [const_simps]: "T_SIMDERR = 19"
definition T_SYSCALL :: u32 where [const_simps]: "T_SYSCALL = 48"
definition IRQ_OFFSET :: u32 where [const_simps]: "IRQ_OFFSET = 32"
definition IRQ_TIMER :: u32 where [const_simps]: "IRQ_TIMER = 0"
definition IRQ_KBD :: u32 where [const_simps]: "IRQ_KBD = 1"
definition IRQ_SERIAL :: u32 where [const_simps]: "IRQ_SERIAL = 4"
definition IRQ_SPURIOUS :: u32 where [const_simps]: "IRQ_SPURIOUS = 7"
definition IRQ_IDE :: u32 where [const_simps]: "IRQ_IDE = 14"
definition IRQ_ERROR :: u32 where [const_simps]: "IRQ_ERROR = 19"

definition excnames :: "string list" where
  "excnames = [''Divide error'', ''Debug'', ''Non-Maskable Interrupt'', ''Breakpoint'', ''Overflow'',
     ''BOUND Range Exceeded'', ''Invalid Opcode'', ''Device Not Available'', ''Double Fault'',
     ''Coprocessor Segment Overrun'', ''Invalid TSS'', ''Segment Not Present'', ''Stack Fault'',
     ''General Protection'', ''Page Fault'', ''(unknown trap)'', ''x87 FPU Floating-Point Error'',
     ''Alignment Check'', ''Machine-Check'', ''SIMD Floating-Point Exception'']"

text \<open>\<open>trapno\<close> is an \<open>int\<close>, but the first comparison is with an unsigned number.\<close>

definition trapname :: "u32 \<Rightarrow> string" where
  "trapname trapno =
     (if unat trapno < length excnames then excnames ! unat trapno
      else if trapno = T_SYSCALL then ''System call''
      else if IRQ_OFFSET \<le>s trapno \<and> trapno <s IRQ_OFFSET + 16 then ''Hardware Interrupt''
      else ''(unknown trap)'')"

section \<open>Descriptor tables\<close>

record Gatedesc =
  gd_off_15_0 :: u16
  gd_sel :: u16
  gd_args :: u8
  gd_rsv1 :: u8
  gd_type :: u8
  gd_s :: bool
  gd_dpl :: u8
  gd_p :: bool
  gd_off_31_16 :: u16

definition STS_IG32 :: u8 where [const_simps]: "STS_IG32 = 0xE"
definition STS_TG32 :: u8 where [const_simps]: "STS_TG32 = 0xF"
definition STS_T32A :: u8 where [const_simps]: "STS_T32A = 0x9"

definition SETGATE :: "bool \<Rightarrow> u16 \<Rightarrow> u32 \<Rightarrow> u8 \<Rightarrow> Gatedesc" where
  "SETGATE istrap sel off dpl =
     \<lparr>gd_off_15_0 = ucast (off AND 0xFFFF), gd_sel = sel, gd_args = 0, gd_rsv1 = 0,
      gd_type = (if istrap then STS_TG32 else STS_IG32), gd_s = False, gd_dpl = dpl, gd_p = True,
      gd_off_31_16 = ucast (drop_bit 16 off)\<rparr>"

record Segdesc =
  sd_lim_15_0 :: u16
  sd_base_15_0 :: u16
  sd_base_23_16 :: u8
  sd_type :: u8
  sd_s :: bool
  sd_dpl :: u8
  sd_p :: bool
  sd_lim_19_16 :: u8
  sd_avl :: bool
  sd_rsv1 :: bool
  sd_db :: bool
  sd_g :: bool
  sd_base_31_24 :: u8

definition SEG16 :: "u8 \<Rightarrow> u32 \<Rightarrow> u32 \<Rightarrow> u8 \<Rightarrow> Segdesc" where
  "SEG16 type base lim dpl =
     \<lparr>sd_lim_15_0 = ucast (lim AND 0xFFFF), sd_base_15_0 = ucast (base AND 0xFFFF),
      sd_base_23_16 = ucast (drop_bit 16 base AND 0xFF), sd_type = type, sd_s = True, sd_dpl = dpl, sd_p = True,
      sd_lim_19_16 = ucast (drop_bit 16 lim), sd_avl = False, sd_rsv1 = False, sd_db = True, sd_g = False,
      sd_base_31_24 = ucast (drop_bit 24 base)\<rparr>"

datatype tfp = OnStack Trapframe | EnvTf nat

record image =
  handler_at :: "u32 \<Rightarrow> u32"
  cpu_ts_at :: "nat \<Rightarrow> u32"
  tf_at :: "tfp \<Rightarrow> u32"

record desctabs =
  idt :: "u32 \<Rightarrow> Gatedesc"
  gdt :: "u32 \<Rightarrow> Segdesc"

text \<open>The gates of \<open>trap_init\<close>, in its order: vector, whether it is a trap gate, privilege level.\<close>

definition trap_gates :: "(u32 \<times> bool \<times> u8) list" where
  "trap_gates =
     [(T_DIVIDE, False, 0), (T_DEBUG, False, 0), (T_NMI, True, 0), (T_BRKPT, True, 3), (T_OFLOW, False, 0),
      (T_BOUND, False, 0), (T_ILLOP, False, 0), (T_DEVICE, False, 0), (T_DBLFLT, False, 0), (T_TSS, False, 0),
      (T_SEGNP, False, 0), (T_STACK, False, 0), (T_GPFLT, False, 0), (T_PGFLT, False, 0), (T_FPERR, False, 0),
      (T_ALIGN, False, 0), (T_MCHK, False, 0), (T_SIMDERR, False, 0), (T_SYSCALL, False, 3),
      (IRQ_TIMER + IRQ_OFFSET, False, 0), (IRQ_KBD + IRQ_OFFSET, False, 0), (IRQ_SERIAL + IRQ_OFFSET, False, 0),
      (IRQ_SPURIOUS + IRQ_OFFSET, False, 0), (IRQ_IDE + IRQ_OFFSET, False, 0), (IRQ_ERROR + IRQ_OFFSET, False, 0)]"

definition trap_init_percpu :: "image \<Rightarrow> desctabs \<times> kstate \<Rightarrow> desctabs \<times> kstate" where
  "trap_init_percpu img = (\<lambda>(dt, s).
     let cid = ucast (cpu_id (cpus s (cpunum s)));
         s = upd_cpu (\<lambda>c. c\<lparr>cpu_ts := (cpu_ts c)\<lparr>ts_esp0 := KSTACKTOP - cid * (KSTKSIZE + KSTKGAP)\<rparr>\<rparr>) s;
         s = upd_cpu (\<lambda>c. c\<lparr>cpu_ts := (cpu_ts c)\<lparr>ts_ss0 := GD_KD\<rparr>\<rparr>) s;
         i = ucast (drop_bit 3 GD_TSS0) + cid;
         dt = dt\<lparr>gdt := (gdt dt)(i := (SEG16 STS_T32A (cpu_ts_at img (cpunum s)) 104 0)\<lparr>sd_s := False\<rparr>)\<rparr>;
         s = hw (Ltr (GD_TSS0 + ucast (8 * cid))) s
     in (dt, hw Lidt s))"

definition trap_init :: "image \<Rightarrow> desctabs \<times> kstate \<Rightarrow> desctabs \<times> kstate" where
  "trap_init img = (\<lambda>(dt, s).
     trap_init_percpu img
       (fold (\<lambda>(v, istrap, dpl) dt. dt\<lparr>idt := (idt dt)(v := SETGATE istrap GD_KT (handler_at img v) dpl)\<rparr>)
          trap_gates dt, s))"

section \<open>Printing\<close>

definition kprintf :: "string \<Rightarrow> va list \<Rightarrow> kstate \<Rightarrow> unit kres" where
  "kprintf fmt args s =
     (case cprintf fmt args (kcons s) of
        None \<Rightarrow> Exit Spin s
      | Some (_, con) \<Rightarrow> Ret () (s\<lparr>kcons := con\<rparr>))"

definition nl :: string where "nl = [CHR 0x0A]"

primrec kprintfs :: "(string \<times> va list) list \<Rightarrow> kstate \<Rightarrow> unit kres" where
  "kprintfs [] s = Ret () s"
| "kprintfs (x # xs) s = kbind (kprintf (fst x) (snd x) s) (\<lambda>_ s. kprintfs xs s)"

definition print_regs :: "PushRegs \<Rightarrow> kstate \<Rightarrow> unit kres" where
  "print_regs regs s = kprintfs
     [(''  edi  0x%08x'' @ nl, [VA_INT (reg_edi regs)]), (''  esi  0x%08x'' @ nl, [VA_INT (reg_esi regs)]),
      (''  ebp  0x%08x'' @ nl, [VA_INT (reg_ebp regs)]), (''  oesp 0x%08x'' @ nl, [VA_INT (reg_oesp regs)]),
      (''  ebx  0x%08x'' @ nl, [VA_INT (reg_ebx regs)]), (''  edx  0x%08x'' @ nl, [VA_INT (reg_edx regs)]),
      (''  ecx  0x%08x'' @ nl, [VA_INT (reg_ecx regs)]), (''  eax  0x%08x'' @ nl, [VA_INT (reg_eax regs)])] s"

definition tf_get :: "kstate \<Rightarrow> tfp \<Rightarrow> Trapframe" where
  "tf_get s p = (case p of OnStack tf \<Rightarrow> tf | EnvTf e \<Rightarrow> env_tf (envs s e))"

text \<open>\<open>is_last\<close> says whether the frame is \<open>last_tf\<close>, so that CR2 belongs to it.\<close>

definition print_trapframe :: "image \<Rightarrow> u32 \<Rightarrow> bool \<Rightarrow> tfp \<Rightarrow> kstate \<Rightarrow> unit kres" where
  "print_trapframe img cr2 is_last p s =
     (let tf = tf_get s p; pf = tf_trapno tf = T_PGFLT
      in kbind (kprintf (''TRAP frame at %p from CPU %d'' @ nl) [VA_INT (tf_at img p), VA_INT (word_of_nat (cpunum s))] s) (\<lambda>_ s.
         kbind (print_regs (tf_regs tf) s) (\<lambda>_ s.
           kprintfs (
             [(''  es   0x----%04x'' @ nl, [VA_INT (ucast (tf_es tf))]),
              (''  ds   0x----%04x'' @ nl, [VA_INT (ucast (tf_ds tf))]),
              (''  trap 0x%08x %s'' @ nl, [VA_INT (tf_trapno tf), str_arg (trapname (tf_trapno tf))])]
             @ (if is_last \<and> pf then [(''  cr2  0x%08x'' @ nl, [VA_INT cr2])] else [])
             @ [(''  err  0x%08x'', [VA_INT (tf_err tf)])]
             @ (if pf
                then [('' [%s, %s, %s]'' @ nl,
                       [str_arg (if nz (tf_err tf AND 4) then ''user'' else ''kernel''),
                        str_arg (if nz (tf_err tf AND 2) then ''write'' else ''read''),
                        str_arg (if nz (tf_err tf AND 1) then ''protection'' else ''not-present'')])]
                else [(nl, [])])
             @ [(''  eip  0x%08x'' @ nl, [VA_INT (tf_eip tf)]),
                (''  cs   0x----%04x'' @ nl, [VA_INT (ucast (tf_cs tf))]),
                (''  flag 0x%08x'' @ nl, [VA_INT (tf_eflags tf)])]
             @ (if (tf_cs tf AND 3) \<noteq> 0
                then [(''  esp  0x%08x'' @ nl, [VA_INT (tf_esp tf)]),
                      (''  ss   0x----%04x'' @ nl, [VA_INT (ucast (tf_ss tf))])]
                else [])) s)))"

section \<open>Page faults\<close>

record UTrapframe =
  utf_fault_va :: u32
  utf_err :: u32
  utf_regs :: PushRegs
  utf_eip :: u32
  utf_eflags :: u32
  utf_esp :: u32

text \<open>The packed layout of the structure, as the words it consists of.\<close>

definition utf_words :: "UTrapframe \<Rightarrow> u32 list" where
  "utf_words u =
     [utf_fault_va u, utf_err u, reg_edi (utf_regs u), reg_esi (utf_regs u), reg_ebp (utf_regs u),
      reg_oesp (utf_regs u), reg_ebx (utf_regs u), reg_edx (utf_regs u), reg_ecx (utf_regs u),
      reg_eax (utf_regs u), utf_eip u, utf_eflags u, utf_esp u]"

definition fault_frame :: "u32 \<Rightarrow> Trapframe \<Rightarrow> UTrapframe" where
  "fault_frame fault_va tf =
     \<lparr>utf_fault_va = fault_va, utf_err = tf_err tf, utf_regs = tf_regs tf, utf_eip = tf_eip tf,
      utf_eflags = tf_eflags tf, utf_esp = tf_esp tf\<rparr>"

definition fault_stacktop :: "Trapframe \<Rightarrow> u32" where
  "fault_stacktop tf =
     (if UXSTACKTOP - PGSIZE < tf_esp tf \<and> tf_esp tf < UXSTACKTOP then tf_esp tf else UXSTACKTOP)"

text \<open>The frame is written through the page tables of the environment, which are loaded.\<close>

definition fault_upcall :: "nat \<Rightarrow> u32 \<Rightarrow> UTrapframe \<Rightarrow> kstate \<Rightarrow> unit kres" where
  "fault_upcall c utr u s =
     with_pgdir c s (\<lambda>pd.
       kbind (vstore_words pd utr (utf_words u) s) (\<lambda>_ s.
         let s = upd_env c (\<lambda>v. v\<lparr>env_tf := (env_tf v)\<lparr>tf_eip := env_pgfault_upcall v\<rparr>\<rparr>) s;
             s = upd_env c (\<lambda>v. v\<lparr>env_tf := (env_tf v)\<lparr>tf_esp := utr\<rparr>\<rparr>) s
         in env_run c s))"

definition page_fault_handler :: "image \<Rightarrow> u32 \<Rightarrow> tfp \<Rightarrow> kstate \<Rightarrow> unit kres" where
  "page_fault_handler img fault_va p s =
     (let tf = tf_get s p
      in if (tf_cs tf AND 3) = 0 then Panic ''page_fault_handler():page fault in kernel mode!'' s
         else with_curenv s (\<lambda>c.
           kbind
             (if nz (env_pgfault_upcall (envs s c))
              then let stacktop = fault_stacktop tf; sz = 52 + 4; utr = stacktop - sz
                   in kbind (user_mem_assert c utr sz (PTE_U OR PTE_W) s) (\<lambda>_ s.
                        fault_upcall c utr (fault_frame fault_va tf) s)
              else Ret () s)
             (\<lambda>_ s.
               kbind (kprintf (''[%08x] user fault va %08x ip %08x'' @ nl)
                        [VA_INT (env_id (envs s c)), VA_INT fault_va, VA_INT (tf_eip (tf_get s p))] s) (\<lambda>_ s.
               kbind (print_trapframe img fault_va True p s) (\<lambda>_ s.
                 env_destroy c s)))))"

section \<open>Dispatch\<close>

definition trap_dispatch :: "image \<Rightarrow> u32 \<Rightarrow> tfp \<Rightarrow> kstate \<Rightarrow> unit kres" where
  "trap_dispatch img cr2 p s =
     (let tf = tf_get s p; regs = tf_regs tf
      in if tf_trapno tf = T_PGFLT then page_fault_handler img cr2 p s
         else if tf_trapno tf = T_BRKPT
         then kbind (kprintf (''Welcome to the JOS kernel monitor!'' @ nl) [] s) (\<lambda>_ s.
              kbind (kprintf (''Type 'help' for a list of commands.'' @ nl) [] s) (\<lambda>_ s.
              kbind (print_trapframe img cr2 True p s) (\<lambda>_ s.
                Exit Monitor s)))
         else if tf_trapno tf = T_SYSCALL
         then kbind (syscall (reg_eax regs) (reg_edx regs) (reg_ecx regs) (reg_ebx regs) (reg_edi regs) (reg_esi regs) s) (\<lambda>r s.
                case p of
                  OnStack tf \<Rightarrow> Ret () s
                | EnvTf e \<Rightarrow> Ret () (upd_env e (\<lambda>v. v\<lparr>env_tf := (env_tf v)\<lparr>tf_regs := (tf_regs (env_tf v))\<lparr>reg_eax := word_of_int r\<rparr>\<rparr>\<rparr>) s))
         else if tf_trapno tf = IRQ_OFFSET + IRQ_SPURIOUS
         then kbind (kprintf (''Spurious interrupt on irq 7'' @ nl) [] s) (\<lambda>_ s. print_trapframe img cr2 True p s)
         else if tf_trapno tf = IRQ_OFFSET + IRQ_TIMER
         then sched_yield (hw LapicEoi s)
         else kbind (print_trapframe img cr2 True p s) (\<lambda>_ s.
                if tf_cs tf = GD_KT then Panic ''unhandled trap in kernel'' s
                else with_curenv s (\<lambda>c. env_destroy c s)))"

text \<open>The entry from user mode: take the lock, collect a zombie, save the frame.\<close>

definition trap_from_user :: "Trapframe \<Rightarrow> kstate \<Rightarrow> tfp kres" where
  "trap_from_user tf s =
     (case curenv s of
        None \<Rightarrow> Panic ''assertion failed: curenv'' s
      | Some c \<Rightarrow>
          kbind (lock_kernel s) (\<lambda>_ s.
          kbind (if env_status (envs s c) = ENV_DYING
                 then kbind (env_free c s) (\<lambda>_ s. sched_yield (set_curenv None s))
                 else Ret () s) (\<lambda>_ s.
            with_curenv s (\<lambda>c. Ret (EnvTf c) (upd_env c (\<lambda>v. v\<lparr>env_tf := tf\<rparr>) s)))))"

text \<open>The end of \<open>trap\<close>: the current environment goes on if it may.\<close>

definition trap_resume :: "kstate \<Rightarrow> unit kres" where
  "trap_resume s =
     (case curenv s of
        Some c \<Rightarrow> if env_status (envs s c) = ENV_RUNNING then env_run c s else sched_yield s
      | None \<Rightarrow> sched_yield s)"

definition trap_body :: "image \<Rightarrow> u32 \<Rightarrow> u32 \<Rightarrow> Trapframe \<Rightarrow> kstate \<Rightarrow> unit kres" where
  "trap_body img eflags cr2 tf s =
     (if nz (eflags AND FL_IF) then Panic ''assertion failed: !(read_eflags() & FL_IF)'' s
      else kbind (if (tf_cs tf AND 3) = 3 then trap_from_user tf s else Ret (OnStack tf) s) (\<lambda>p s.
           kbind (trap_dispatch img cr2 p s) (\<lambda>_ s. trap_resume s)))"

definition trap :: "image \<Rightarrow> bool \<Rightarrow> u32 \<Rightarrow> u32 \<Rightarrow> Trapframe \<Rightarrow> kstate \<Rightarrow> unit kres" where
  "trap img panicstr eflags cr2 tf s =
     (if panicstr then Exit Halted s
      else let old = cpu_status (cpus s (cpunum s)); s = upd_cpu (cpu_status_update (\<lambda>_. CPU_STARTED)) s
      in kbind (if old = CPU_HALTED then lock_kernel s else Ret () s) (\<lambda>_ s. trap_body img eflags cr2 tf s))"

end
