(* ===== verification/TrapThms.thy ===== *)
theory TrapThms
  imports Trap
begin

text \<open>
  Traps keep the kernel invariant; a page fault reaches the user's handler with a complete frame on
  the exception stack; breakpoints panic the kernel.
\<close>

section \<open>What a returning call leaves of its caller\<close>

text \<open>
  When a system call returns to its caller, the caller is still the current environment of this CPU,
  is still in use, and the lock is as it was.
\<close>

definition stays :: "nat \<Rightarrow> kstate \<Rightarrow> kstate \<Rightarrow> bool" where
  "stays c s t \<longleftrightarrow> cpus t = cpus s \<and> cpunum t = cpunum s \<and> kernel_lock t = kernel_lock s
     \<and> (env_status (envs s c) \<noteq> ENV_FREE \<longrightarrow> env_status (envs t c) \<noteq> ENV_FREE)"

definition rstays :: "nat \<Rightarrow> kstate \<Rightarrow> 'a kres \<Rightarrow> bool" where
  "rstays c s m \<longleftrightarrow> (\<forall>x t. m = Ret x t \<longrightarrow> stays c s t)"

lemma stays_refl [simp]: "stays c s s"
  by (simp add: stays_def)

lemma stays_trans: "stays c s t \<Longrightarrow> stays c t u \<Longrightarrow> stays c s u"
  by (simp add: stays_def)

lemma rstays_simps [simp]: "rstays c s (Ret x t) = stays c s t" "rstays c s (Panic msg t)" "rstays c s (Exit e t)"
  by (auto simp: rstays_def)

lemma rstays_bind: "rstays c s m \<Longrightarrow> (\<And>x t. stays c s t \<Longrightarrow> rstays c t (f x t)) \<Longrightarrow> rstays c s (kbind m f)"
  using stays_trans by (cases m) (fastforce simp: rstays_def)+

lemma stays_caller: "stays c s t \<Longrightarrow> caller s c \<Longrightarrow> caller t c" and stays_lock: "stays c s t \<Longrightarrow> holds_lock t = holds_lock s"
  by (auto simp: stays_def caller_def curenv_def live_def holds_lock_def)

lemma rstays_frame: "kframe s m \<Longrightarrow> rstays c s m"
  by (auto simp: rstays_def stays_def dest!: kframe_Ret dest: pg_frame_fields)

lemma rstays_with: "rstays c s (with_env e t f) = (\<forall>x. e = Some x \<longrightarrow> rstays c s (f x))"
    "rstays c s (with_pgdir d t g) = (\<forall>pd. env_pgdir (envs t d) = Some pd \<longrightarrow> rstays c s (g pd))"
    "rstays c s (with_curenv t h) = (\<forall>x. curenv t = Some x \<longrightarrow> rstays c s (h x))"
  by (auto simp: with_env_def with_pgdir_def with_curenv_def split: option.split)

lemma stays_upd_env:
  "stays c s t \<Longrightarrow> (\<And>v. env_status (f v) = ENV_FREE \<Longrightarrow> env_status v = ENV_FREE) \<Longrightarrow> stays c s (upd_env e f t)"
  by (auto simp: stays_def upd_env_def)

lemma stays_io: "io_same s t \<Longrightarrow> stays c s t"
  by (auto simp: io_same_def stays_def)

lemma rstays_io: "io_same s (kst m) \<Longrightarrow> rstays c s m"
  by (cases m) (auto dest: stays_io)

lemma rstays_envid2env: "rstays c s (envid2env envid chk s)"
  by (auto simp: envid2env_def Let_def rstays_with split: option.split)

lemma sched_yield_no_ret: "sched_yield s \<noteq> Ret x t"
proof -
  have h: "sched_halt s \<noteq> Ret x t" for s
    by (auto simp: sched_halt_def Let_def kbind_Ret_iff)
  show ?thesis
    using h by (auto simp: sched_yield_def Let_def kbind_Ret_iff split: option.splits if_splits)
qed

lemma rstays_yield: "rstays c s (kbind (sched_yield t) f)" "rstays c s (sched_yield t)"
  using sched_yield_no_ret by (auto simp: rstays_def kbind_Ret_iff)

lemmas rstays_pages = rstays_frame [OF kframe_page_alloc] rstays_frame [OF kframe_page_insert]
  rstays_frame [OF kframe_page_lookup] rstays_frame [OF kframe_page_remove]

lemma rstays_page_free: "rstays c s (page_free p s)"
  by (rule rstays_frame) (simp add: page_free_def)

lemma rstays_page_calls:
  "rstays c s (sys_page_alloc envid va perm s)" "rstays c s (sys_page_map a b d e perm s)" "rstays c s (sys_page_unmap envid va s)"
  unfolding sys_page_alloc_def sys_page_map_def sys_page_unmap_def
  by (auto intro!: rstays_bind rstays_envid2env rstays_pages rstays_page_free simp: rstays_with split: prod.split option.split)

lemma rstays_env_calls:
  "rstays c s (sys_env_set_status envid st s)" "rstays c s (sys_env_set_pgfault_upcall envid f s)"
  "rstays c s (sys_ipc_try_send envid v va perm s)" "rstays c s (sys_ipc_recv va s)" "rstays c s (sys_cgetc s)" "rstays c s (sys_getenvid s)"
  unfolding sys_env_set_status_def sys_env_set_pgfault_upcall_def sys_ipc_try_send_def sys_ipc_recv_def sys_cgetc_def
    sys_getenvid_def ipc_deliver_def Let_def
  by (auto intro!: rstays_bind rstays_envid2env rstays_pages rstays_yield stays_upd_env stays_io [OF io_same_print]
      simp: rstays_with split: prod.split option.split)

lemma stays_env_free:
  assumes K: "kinv fl el s" and e: "e \<in> live s" "e \<noteq> c" and f: "env_free e s = Ret u t"
  shows "stays c s t"
proof -
  obtain pd where pd: "env_pgdir (envs s e) = Some pd" using live_pd [OF K e(1)] by blast
  show ?thesis using env_free_full [OF K e(1) pd] f e(2) by (auto simp: stays_def)
qed

lemma env_destroy_self_no_ret:
  assumes K: "kinv fl el s" and c: "caller s c"
  shows "env_destroy c s \<noteq> Ret x t"
proof
  assume d: "env_destroy c s = Ret x t"
  have l: "c \<in> live s" and cu: "curenv s = Some c" using c by (auto simp: caller_def)
  obtain pd where pd: "env_pgdir (envs s c) = Some pd" using live_pd [OF K l] by blast
  obtain s1 where s1: "env_free c s = Ret () s1" "cpus s1 = cpus s" "cpunum s1 = cpunum s"
    using env_free_full [OF K l pd] by blast
  have "curenv s1 = Some c" using s1(2,3) cu by (simp add: curenv_def)
  then show False using d s1(1) cu sched_yield_no_ret by (simp add: env_destroy_def)
qed

lemma rstays_env_destroy:
  assumes K: "kinv fl el s" and c: "caller s c" and e: "e \<in> live s"
  shows "rstays c s (env_destroy e s)"
proof (cases "e = c")
  case True
  then show ?thesis using env_destroy_self_no_ret [OF K c] by (simp add: rstays_def)
next
  case False
  have "stays c s t" if d: "env_destroy e s = Ret x t" for x t
  proof (cases "env_status (envs s e) = ENV_RUNNING \<and> curenv s \<noteq> Some e")
    case True
    then show ?thesis using d by (auto simp: env_destroy_def intro!: stays_upd_env)
  next
    case nr: False
    then obtain u s1 where s1: "env_free e s = Ret u s1" "(if curenv s1 = Some e then sched_yield (set_curenv None s1) else Ret () s1) = Ret x t"
      using d by (auto simp: env_destroy_def kbind_Ret_iff)
    then have "t = s1" using sched_yield_no_ret by (auto split: if_splits)
    then show ?thesis using stays_env_free [OF K e False s1(1)] by simp
  qed
  then show ?thesis by (simp add: rstays_def)
qed

lemma rstays_check_then:
  assumes K: "kinv fl el s" and c: "caller s c" and f: "\<And>t. io_same s t \<Longrightarrow> rstays c s (f t)"
  shows "rstays c s (kbind (user_mem_check c va len perm s) (\<lambda>r s. kbind (if r < 0 then env_destroy c s else Ret () s) (\<lambda>_ s. f s)))"
proof (cases "user_mem_check c va len perm s")
  case (Ret r t)
  then have io: "io_same s t" using io_same_check [of s c va len perm] by simp
  have "caller t c" using io_same_fields(1) [OF io] c by simp
  note no = env_destroy_self_no_ret [OF io_same_ok [OF io K] this]
  then show ?thesis using Ret f [OF io] by (cases "env_destroy c t") auto
qed auto

lemma rstays_cputs:
  assumes K: "kinv fl el s" and c: "caller s c"
  shows "rstays c s (kbind (user_mem_assert c a len perm s) (\<lambda>_ s. kbind (sys_cputs a len s) (\<lambda>_ s. Ret (0 :: int) s)))"
proof -
  have "rstays c s (kbind (sys_cputs a len t) (\<lambda>_ s. Ret (0 :: int) s))" if io: "io_same s t" for t
  proof -
    have ct: "caller t c" using io_same_fields(1) [OF io] c by simp
    have "rstays c t (print_user a len u)" if "io_same t u" for u
      by (rule rstays_io [OF io_same_trans [OF that io_same_print_user]])
    moreover have "curenv t = Some c" using ct by (simp add: caller_def)
    ultimately have "rstays c t (sys_cputs a len t)"
      unfolding sys_cputs_def by (simp only: with_curenv_Some) (rule rstays_check_then [OF io_same_ok [OF io K] ct])
    then have "rstays c t (kbind (sys_cputs a len t) (\<lambda>_ s. Ret (0 :: int) s))" by (rule rstays_bind) simp
    then show ?thesis using stays_trans [OF stays_io [OF io]] by (auto simp: rstays_def)
  qed
  then show ?thesis unfolding user_mem_assert_def kbind_assoc by (rule rstays_check_then [OF K c])
qed

lemma rstays_exofork:
  assumes K: "kinv fl el s" and c: "caller s c"
  shows "rstays c s (sys_exofork s)"
proof (cases "fl = [] \<or> el = []")
  case True
  then show ?thesis using exofork_fail [OF K c] by simp
next
  case False
  then obtain p fl' e el' where ne: "fl = p # fl'" "el = e # el'" by (meson neq_Nil_conv)
  have ce: "c \<noteq> e" using live_ne_free [of fl e el' s c] K c ne by (simp add: caller_def)
  show ?thesis
    using exofork_run(1) [OF K [unfolded ne] c refl] ce by (simp add: stays_def alloc_st_def setup_st_def st_defs mem_simps)
qed

lemma rstays_syscall:
  assumes K: "kinv fl el s" and c: "caller s c"
  shows "rstays c s (syscall n a1 a2 a3 a4 a5 s)"
proof -
  have cu: "curenv s = Some c" using c by (simp add: caller_def)
  have "rstays c s (sys_env_destroy a1 s)"
  proof (cases "named s c True a1")
    case None
    then show ?thesis using cu by (simp add: sys_env_destroy_def envid2env_named E_BAD_ENV_def)
  next
    case (Some e)
    then show ?thesis
      using rstays_env_destroy [OF K c named_live [OF c Some]] cu
      by (simp add: sys_env_destroy_def envid2env_named rstays_bind)
  qed
  then show ?thesis
    unfolding syscall_def with_curenv_Some [OF cu]
    using rstays_page_calls rstays_env_calls rstays_exofork [OF K c] rstays_cputs [OF K c] rstays_yield(1) [of c s s "\<lambda>_. Ret (0 :: int)"]
    by (simp add: sys_yield_def)
qed

section \<open>Printing changes the console only\<close>

lemma io_same_bind: "io_same s (kst m) \<Longrightarrow> (\<And>x t. io_same s t \<Longrightarrow> io_same t (kst (f x t))) \<Longrightarrow> io_same s (kst (kbind m f))"
  using io_same_trans by (cases m) auto

lemma io_same_kprintf: "io_same s (kst (kprintf fmt args s))"
  using io_same_refl io_same_print by (auto simp: kprintf_def split: option.split)

lemma io_same_kprintfs: "io_same s (kst (kprintfs xs s))"
proof (induction xs arbitrary: s)
  case (Cons x xs)
  then show ?case by (auto intro!: io_same_bind io_same_kprintf)
qed (simp add: io_same_refl)

lemma io_same_trapframe: "io_same s (kst (print_trapframe img cr2 b p s))"
  unfolding print_trapframe_def print_regs_def Let_def
  by (intro io_same_bind io_same_kprintf io_same_kprintfs)

lemma ok_io_bind:
  assumes K: "kinv fl el s" and io: "io_same s (kst m)" and f: "\<And>x t. io_same s t \<Longrightarrow> ok_state (kst (f x t))"
  shows "ok_state (kst (kbind m f))"
  using io f io_same_ok [OF io K] ok_stateI by (cases m) auto

section \<open>Every trap keeps the invariant\<close>

lemma env_run_no_ret: "env_run e s \<noteq> Ret x t"
  by (auto simp: env_run_def env_pop_tf_def Let_def kbind_Ret_iff with_curenv_def split: option.splits)

lemma kst_bind_no_ret: "(\<And>x t. m \<noteq> Ret x t) \<Longrightarrow> kst (kbind m f) = kst m"
  by (cases m) auto

lemma ok_env_run:
  assumes K: "kinv fl el s" and l: "holds_lock s" and e: "e \<in> live s"
  shows "ok_state (kst (env_run e s))"
proof -
  obtain pd where "env_pgdir (envs s e) = Some pd" using live_pd [OF K e] by blast
  then show ?thesis using env_run_eq [OF l] K kinv_run_st [OF e] by (auto intro: ok_stateI)
qed

lemma ok_destroy_self:
  assumes K: "kinv fl el s" and l: "holds_lock s" and c: "caller s c"
  shows "ok_state (kst (env_destroy c s))"
  using ok_env_destroy(1) [OF K l c] c by (simp add: caller_def)

text \<open>Printing a frame and destroying the caller.\<close>

lemma ok_print_destroy:
  assumes K: "kinv fl el s" and l: "holds_lock s" and c: "caller s c"
  shows "ok_state (kst (kbind (print_trapframe img cr2 b p s) (\<lambda>_ s. env_destroy c s)))"
proof (rule ok_io_bind [OF K io_same_trapframe])
  fix t assume io: "io_same s t"
  show "ok_state (kst (env_destroy c t))"
    using ok_destroy_self [OF io_same_ok [OF io K], of c] io_same_fields(1,2) [OF io] l c by simp
qed

lemma fault_stacktop_range: "56 \<le> unat (fault_stacktop tf)" "unat (fault_stacktop tf) \<le> unat UTOP"
  by (auto simp: fault_stacktop_def const_simps word_less_nat_alt)

lemma fault_utr: "unat (fault_stacktop tf - 56) + 56 = unat (fault_stacktop tf)"
  using fault_stacktop_range [of tf] by (simp add: unat_sub32 word_le_nat_alt)

lemma length_utf_words [simp]: "length (utf_words u) = 13"
  by (simp add: utf_words_def)

lemma fault_upcall_no_ret: "fault_upcall c utr u s \<noteq> Ret x t"
  using env_run_no_ret by (auto simp: fault_upcall_def with_pgdir_def kbind_Ret_iff Let_def split: option.splits)

lemma ok_upcall:
  assumes K: "kinv fl el s" and l: "holds_lock s" and c: "caller s c"
  shows "ok_state (kst (fault_upcall c (fault_stacktop tf - 56) u s))"
proof -
  have L: "c \<in> live s" using c by (simp add: caller_def)
  obtain pd where pd: "env_pgdir (envs s c) = Some pd" "pd \<in> env_pds s" using live_pd [OF K L] by blast
  let ?utr = "fault_stacktop tf - 56"
  have "unat ?utr + 4 * length (utf_words u) \<le> unat UTOP" using fault_utr [of tf] fault_stacktop_range [of tf] by simp
  note V = vstore_loop_keeps [OF K pd(2) this, of "word_bytes (utf_words u)"]
  show ?thesis
  proof (cases "vstore_words pd ?utr (utf_words u) s")
    case (Ret x t)
    then have t: "kinv fl el t" "mem_only s t" using V unfolding vstore_words_bytes by auto
    let ?f = "\<lambda>v. v\<lparr>env_tf := (env_tf v)\<lparr>tf_eip := env_pgfault_upcall v\<rparr>\<rparr>"
    let ?g = "\<lambda>v. v\<lparr>env_tf := (env_tf v)\<lparr>tf_esp := ?utr\<rparr>\<rparr>"
    have "kinv fl el (upd_env c ?g (upd_env c ?f t))" using t(1) by (simp add: kinv_upd_env env_same_def)
    moreover have "c \<in> live (upd_env c ?g (upd_env c ?f t))" using L mem_only_fields(6) [OF t(2)] by (simp add: kinv_upd_env env_same_def)
    moreover have "holds_lock (upd_env c ?g (upd_env c ?f t))" using l mem_only_fields(8) [OF t(2)] by (simp add: holds_lock_def upd_env_def)
    ultimately show ?thesis using ok_env_run pd(1) Ret by (simp add: fault_upcall_def Let_def)
  qed (use V pd(1) ok_stateI in \<open>auto simp: vstore_words_bytes fault_upcall_def\<close>)
qed

lemma ok_if: "(b \<Longrightarrow> ok_state (kst x)) \<Longrightarrow> (\<not> b \<Longrightarrow> ok_state (kst y)) \<Longrightarrow> ok_state (kst (if b then x else y))"
  by simp

lemma rstays_if: "(b \<Longrightarrow> rstays c s x) \<Longrightarrow> (\<not> b \<Longrightarrow> rstays c s y) \<Longrightarrow> rstays c s (if b then x else y)"
  by simp

lemma ok_page_fault:
  assumes K: "kinv fl el s" and l: "holds_lock s" and c: "caller s c"
  shows "ok_state (kst (page_fault_handler img cr2 p s))"
proof -
  have cu: "curenv s = Some c" using c by (simp add: caller_def)
  have tail: "ok_state (kst (kbind (kprintf fmt args s) (\<lambda>_ s. kbind (print_trapframe img cr2 True p s) (\<lambda>_ s. env_destroy c s))))" for fmt args
  proof (rule ok_io_bind [OF K io_same_kprintf])
    fix u assume io: "io_same s u"
    show "ok_state (kst (kbind (print_trapframe img cr2 True p u) (\<lambda>_ s. env_destroy c s)))"
      using ok_print_destroy [OF io_same_ok [OF io K]] io_same_fields(1,2) [OF io] l c by simp
  qed
  have up: "ok_state (kst (kbind (fault_upcall c (fault_stacktop tf - 56) u t) f))" if io: "io_same s t" for tf u t f
    using ok_upcall [OF io_same_ok [OF io K]] io_same_fields(1,2) [OF io] l c by (simp add: kst_bind_no_ret [OF fault_upcall_no_ret])
  have chk: "ok_state (kst (kbind (kbind (user_mem_assert c utr sz perm s) (\<lambda>_ s. fault_upcall c (fault_stacktop tf - 56) u s)) f))" for utr sz perm tf u f
    unfolding user_mem_assert_def kbind_assoc
    by (rule ok_check_then [OF K l c, of "\<lambda>s. kbind (fault_upcall c (fault_stacktop tf - 56) u s) f"]) (rule up)
  note un = page_fault_handler_def Let_def with_curenv_Some [OF cu]
  show ?thesis
  proof (cases "nz (env_pgfault_upcall (envs s c))")
    case True
    show ?thesis unfolding un if_P [OF True] by (rule ok_if) (simp_all add: chk ok_stateI [OF K])
  next
    case False
    show ?thesis unfolding un if_not_P [OF False] kbind.simps by (rule ok_if) (simp_all only: tail kst.simps ok_stateI [OF K])
  qed
qed

lemma rstays_io_bind:
  assumes io: "io_same s (kst m)" and f: "\<And>x t. io_same s t \<Longrightarrow> rstays c t (f x t)"
  shows "rstays c s (kbind m f)"
proof (cases m)
  case (Ret x t)
  then have "io_same s t" using io by simp
  then show ?thesis using Ret f [of t x] stays_trans [OF stays_io] by (auto simp: rstays_def)
qed auto

lemma rstays_self:
  assumes "kinv fl el s" "caller s c" "io_same s t"
  shows "rstays c t (env_destroy c t)"
  using env_destroy_self_no_ret [OF io_same_ok [OF assms(3,1)], of c] io_same_fields(1) [OF assms(3)] assms(2)
  by (simp add: rstays_def)

lemma rstays_print_destroy:
  assumes K: "kinv fl el s" and c: "caller s c"
  shows "rstays c s (kbind (print_trapframe img cr2 b p s) (\<lambda>_ s. env_destroy c s))"
  by (rule rstays_io_bind [OF io_same_trapframe]) (rule rstays_self [OF K c])

lemma rstays_page_fault:
  assumes K: "kinv fl el s" and c: "caller s c"
  shows "rstays c s (page_fault_handler img cr2 p s)"
proof -
  have tail: "rstays c s (kbind (kprintf fmt args s) (\<lambda>_ s. kbind (print_trapframe img cr2 True p s) (\<lambda>_ s. env_destroy c s)))" for fmt args
  proof (rule rstays_io_bind [OF io_same_kprintf])
    fix t assume io: "io_same s t"
    show "rstays c t (kbind (print_trapframe img cr2 True p t) (\<lambda>_ s. env_destroy c s))"
      using rstays_print_destroy [OF io_same_ok [OF io K]] io_same_fields(1) [OF io] c by simp
  qed
  have up: "rstays c s (kbind (kbind m (\<lambda>_ s. fault_upcall c utr u s)) f)" for m :: "unit kres" and utr u f
    using fault_upcall_no_ret by (simp add: rstays_def kbind_Ret_iff)
  have cu: "curenv s = Some c" using c by (simp add: caller_def)
  note un = page_fault_handler_def Let_def with_curenv_Some [OF cu]
  show ?thesis
  proof (cases "nz (env_pgfault_upcall (envs s c))")
    case True
    show ?thesis unfolding un if_P [OF True] by (rule rstays_if) (simp_all add: up)
  next
    case False
    show ?thesis unfolding un if_not_P [OF False] kbind.simps by (rule rstays_if) (simp_all only: tail rstays_simps)
  qed
qed

lemma ok_dispatch:
  assumes K: "kinv fl el s" and l: "holds_lock s" and c: "caller s c"
    and sys: "tf_trapno (env_tf (envs s c)) = T_SYSCALL \<Longrightarrow> ok_state (kst (syscall (reg_eax r) a1 a2 a3 a4 a5 s))"
    and r: "r = tf_regs (env_tf (envs s c))" "a1 = reg_edx r" "a2 = reg_ecx r" "a3 = reg_ebx r" "a4 = reg_edi r" "a5 = reg_esi r"
  shows "ok_state (kst (trap_dispatch img cr2 (EnvTf c) s))" "rstays c s (trap_dispatch img cr2 (EnvTf c) s)"
proof -
  let ?tf = "env_tf (envs s c)"
  have cu: "curenv s = Some c" using c by (simp add: caller_def)
  have g: "tf_get s (EnvTf c) = ?tf" by (simp add: tf_get_def)
  let ?ret = "\<lambda>r s. Ret () (upd_env c (\<lambda>v. v\<lparr>env_tf := (env_tf v)\<lparr>tf_regs := (tf_regs (env_tf v))\<lparr>reg_eax := word_of_int r\<rparr>\<rparr>\<rparr>) s)"
  let ?sys = "kbind (syscall (reg_eax r) a1 a2 a3 a4 a5 s) ?ret"
  have s1: "ok_state (kst ?sys)" if "tf_trapno ?tf = T_SYSCALL"
    using sys [OF that] by (cases "syscall (reg_eax r) a1 a2 a3 a4 a5 s")
      (auto simp: ok_state_def intro!: ok_upd_env [unfolded ok_state_def] simp: env_same_def)
  have s2: "rstays c s ?sys"
    by (rule rstays_bind [OF rstays_syscall [OF K c]]) (auto intro!: stays_upd_env)
  have mon: "ok_state (kst (kbind (kprintf f1 [] s) (\<lambda>_ s. kbind (kprintf f2 [] s) (\<lambda>_ s. kbind (print_trapframe img cr2 True (EnvTf c) s) (\<lambda>_ s. Exit Monitor s)))))" for f1 f2
    by (rule ok_stateI, rule io_same_ok [OF _ K], intro io_same_bind io_same_kprintf io_same_trapframe) (simp add: io_same_refl)
  have spur: "io_same s (kst (kbind (kprintf f [] s) (\<lambda>_ s. print_trapframe img cr2 True (EnvTf c) s)))" for f
    by (intro io_same_bind io_same_kprintf io_same_trapframe)
  have tick: "ok_state (kst (sched_yield (hw LapicEoi s)))"
  proof (rule ok_sched_yield)
    show "kinv fl el (hw LapicEoi s)" using K kinv_env_cong(1) [of "hw LapicEoi s" s fl el] by (simp add: hw_def env_same_def)
  qed (use l c in \<open>auto simp: holds_lock_def hw_def curenv_def caller_def live_def\<close>)
  have kill: "ok_state (kst (kbind (print_trapframe img cr2 True (EnvTf c) s) (\<lambda>_ s. if b then Panic msg s else with_curenv s (\<lambda>c. env_destroy c s))))" for b msg
  proof (rule ok_io_bind [OF K io_same_trapframe])
    fix t assume io: "io_same s t"
    have "curenv t = Some c" using io cu by (auto simp: io_same_def curenv_def)
    then show "ok_state (kst (if b then Panic msg t else with_curenv t (\<lambda>c. env_destroy c t)))"
      using ok_destroy_self [OF io_same_ok [OF io K], of c] io_same_fields(1,2) [OF io] l c ok_stateI [OF io_same_ok [OF io K]] by simp
  qed
  have rmon: "rstays c s (kbind (kprintf f1 [] s) (\<lambda>_ s. kbind (kprintf f2 [] s) (\<lambda>_ s. kbind (print_trapframe img cr2 True (EnvTf c) s) (\<lambda>_ s. Exit Monitor s))))" for f1 f2
    by (simp add: rstays_def kbind_Ret_iff)
  have rkill: "rstays c s (kbind (print_trapframe img cr2 True (EnvTf c) s) (\<lambda>_ s. if b then Panic msg s else with_curenv s (\<lambda>c. env_destroy c s)))" for b msg
  proof (rule rstays_io_bind [OF io_same_trapframe])
    fix t assume io: "io_same s t"
    have "curenv t = Some c" using io cu by (auto simp: io_same_def curenv_def)
    then show "rstays c t (if b then Panic msg t else with_curenv t (\<lambda>c. env_destroy c t))"
      using rstays_self [OF K c io] by simp
  qed
  note un = trap_dispatch_def g Let_def tfp.case r(1) [symmetric] r(2-6) [symmetric]
  show "ok_state (kst (trap_dispatch img cr2 (EnvTf c) s))"
    unfolding un
    by (intro ok_if) (simp_all only: s1 mon ok_stateI [OF io_same_ok [OF spur K]] tick kill ok_page_fault [OF K l c])
  show "rstays c s (trap_dispatch img cr2 (EnvTf c) s)"
    unfolding un
    by (intro rstays_if) (simp_all only: s2 rmon rstays_io [OF spur] rstays_yield rkill rstays_page_fault [OF K c])
qed

text \<open>After the dispatch: the caller continues, or the scheduler picks another environment.\<close>

lemma ok_resume:
  assumes K: "kinv fl el s" and l: "holds_lock s" and c: "caller s c"
  shows "ok_state (kst (trap_resume s))"
  using ok_env_run [OF K l, of c] ok_sched_yield [OF K l] c by (auto simp: trap_resume_def caller_def live_def)

text \<open>The body of \<open>trap\<close> once the lock is held.\<close>

lemma ok_locked:
  assumes K: "kinv fl el s" and l: "holds_lock s" and c: "caller s c"
    and ref: "\<forall>p. unat (pp_ref (pages s p)) < 65535"
    and utop: "tf_trapno tf = T_SYSCALL \<Longrightarrow> reg_eax (tf_regs tf) = 4 \<Longrightarrow> reg_ecx (tf_regs tf) \<noteq> UTOP"
    and dst: "\<forall>e \<in> live s. env_ipc_recving (envs s e) \<longrightarrow> env_ipc_dstva (envs s e) < UTOP"
  shows "ok_state (kst (kbind (trap_dispatch img cr2 (EnvTf c) (upd_env c (\<lambda>v. v\<lparr>env_tf := tf\<rparr>) s)) (\<lambda>_ s. trap_resume s)))"
proof -
  let ?s = "upd_env c (\<lambda>v. v\<lparr>env_tf := tf\<rparr>) s"
  note U = kinv_upd_env [of "\<lambda>v. v\<lparr>env_tf := tf\<rparr>" s c]
  have K': "kinv fl el ?s" and lv: "live ?s = live s" using U K by (simp_all add: env_same_def)
  have l': "holds_lock ?s" using l by (simp add: holds_lock_def upd_env_def)
  have c': "caller ?s c" using c lv by (simp add: caller_def curenv_def upd_env_def)
  have tf: "env_tf (envs ?s c) = tf" by (simp add: upd_env_def)
  have sys: "ok_state (kst (syscall (reg_eax (tf_regs tf)) (reg_edx (tf_regs tf)) (reg_ecx (tf_regs tf)) (reg_ebx (tf_regs tf))
      (reg_edi (tf_regs tf)) (reg_esi (tf_regs tf)) ?s))" if "tf_trapno (env_tf (envs ?s c)) = T_SYSCALL"
  proof (rule ok_syscall [OF K' l' c'])
    show "\<forall>e \<in> live ?s. env_ipc_recving (envs ?s e) \<longrightarrow> env_ipc_dstva (envs ?s e) < UTOP"
      unfolding lv using dst by (simp add: upd_env_def)
  qed (use utop that tf ref in \<open>auto simp: upd_env_def\<close>)
  note D = ok_dispatch [OF K' l' c' sys, unfolded tf, OF _ refl refl refl refl refl refl]
  show ?thesis
  proof (cases "trap_dispatch img cr2 (EnvTf c) ?s")
    case (Ret x t)
    then have ok: "ok_state t" and st: "stays c ?s t" using D [of img cr2] tf by (auto simp: rstays_def)
    obtain fl' el' where "kinv fl' el' t" using ok by (auto simp: ok_state_def)
    from ok_resume [OF this, of c] show ?thesis using Ret stays_lock [OF st] stays_caller [OF st] l' c' by simp
  qed (use D(1) [of img cr2] tf in auto)
qed

lemma ok_zombie:
  assumes K: "kinv fl el s" and l: "holds_lock s" and c: "caller s c"
  shows "ok_state (kst (kbind (env_free c s) (\<lambda>_ s. sched_yield (set_curenv None s))))"
    "kbind (env_free c s) (\<lambda>_ s. sched_yield (set_curenv None s)) \<noteq> Ret x t"
proof -
  have L: "c \<in> live s" using c by (simp add: caller_def)
  obtain pd where pd: "env_pgdir (envs s c) = Some pd" using live_pd [OF K L] by blast
  obtain s1 fl1 where s1: "env_free c s = Ret () s1" "kinv fl1 (c # el) s1" "cpunum s1 = cpunum s" "kernel_lock s1 = kernel_lock s"
    using env_free_full [OF K L pd] by blast
  have K2: "kinv fl1 (c # el) (set_curenv None s1)"
    using s1(2) by (subst kinv_env_cong(1) [of _ s1]) (simp_all add: mem_simps env_same_def)
  have l2: "holds_lock (set_curenv None s1)"
    using l s1(3,4) by (subst holds_lock_cong [of _ s]) (simp_all add: mem_simps)
  show "ok_state (kst (kbind (env_free c s) (\<lambda>_ s. sched_yield (set_curenv None s))))"
    using ok_sched_yield [OF K2 l2] s1(1) by (simp add: mem_simps)
  show "kbind (env_free c s) (\<lambda>_ s. sched_yield (set_curenv None s)) \<noteq> Ret x t"
    using s1(1) sched_yield_no_ret by simp
qed

lemma kinv_status_lock: "kinv fl el (upd_cpu (cpu_status_update f) s) = kinv fl el s" "kinv fl el (s\<lparr>kernel_lock := k\<rparr>) = kinv fl el s"
  by (rule kinv_env_cong(1); simp add: upd_cpu_def env_same_def)+

lemma ok_lock_bind:
  assumes K: "kinv fl el s" and f: "\<And>x t. t = s\<lparr>kernel_lock := (kernel_lock s)\<lparr>locked := 1, lk_cpu := Some (cpunum s)\<rparr>\<rparr> \<Longrightarrow> ok_state (kst (f x t))"
  shows "ok_state (kst (kbind (lock_kernel s) f))"
  using f ok_stateI [OF K] K by (auto simp: lock_kernel_def kinv_status_lock intro: ok_stateI)

lemma ok_body:
  assumes K: "kinv fl el s" and c: "caller s c" and user: "(tf_cs tf AND 3) = 3"
    and ref: "\<forall>p. unat (pp_ref (pages s p)) < 65535"
    and utop: "tf_trapno tf = T_SYSCALL \<and> reg_eax (tf_regs tf) = 4 \<longrightarrow> reg_ecx (tf_regs tf) \<noteq> UTOP"
    and dst: "\<forall>e \<in> live s. env_ipc_recving (envs s e) \<longrightarrow> env_ipc_dstva (envs s e) < UTOP"
  shows "ok_state (kst (trap_body img eflags cr2 tf s))"
proof -
  have cu: "curenv s = Some c" using c by (simp add: caller_def)
  let ?go = "\<lambda>p s. kbind (trap_dispatch img cr2 p s) (\<lambda>_ s. trap_resume s)"
  have "ok_state (kst (kbind (trap_from_user tf s) ?go))"
    unfolding trap_from_user_def cu option.case kbind_assoc
  proof (rule ok_lock_bind [OF K])
    fix t assume t: "t = s\<lparr>kernel_lock := (kernel_lock s)\<lparr>locked := 1, lk_cpu := Some (cpunum s)\<rparr>\<rparr>"
    have Kt: "kinv fl el t" using K by (simp add: t kinv_status_lock)
    have lt: "holds_lock t" and ct: "caller t c" and lv: "live t = live s"
      using c by (auto simp: t holds_lock_def holding_def caller_def curenv_def live_def)
    have cut: "curenv t = Some c" using ct by (simp add: caller_def)
    note z = ok_zombie [OF Kt lt ct]
    show "ok_state (kst (kbind (if env_status (envs t c) = ENV_DYING
        then kbind (env_free c t) (\<lambda>_ s. sched_yield (set_curenv None s)) else Ret () t) (\<lambda>_ s.
        kbind (with_curenv s (\<lambda>c. Ret (EnvTf c) (upd_env c (\<lambda>v. v\<lparr>env_tf := tf\<rparr>) s))) ?go)))"
    proof (cases "env_status (envs t c) = ENV_DYING")
      case True
      show ?thesis unfolding if_P [OF True] kst_bind_no_ret [OF z(2)] by (rule z(1))
    next
      case False
      show ?thesis
        unfolding if_not_P [OF False] kbind.simps with_curenv_Some [OF cut]
        using ref dst utop lv by (intro ok_locked [OF Kt lt ct]) (auto simp: t)
    qed
  qed
  then show ?thesis using user ok_stateI [OF K] by (simp add: trap_body_def)
qed


section \<open>The user's page fault handler\<close>

lemma vload32_cong: "pm s' = pm s \<Longrightarrow> vload32 s' = vload32 s"
  by (auto simp: vload32_def vload8_def vplace_def fun_eq_iff)

text \<open>
  C9: a page fault of an environment with a registered upcall, whose exception stack passes the
  kernel's check and is writable through its page directory, resumes the environment at the upcall
  with the stack pointer at a complete \<open>struct UTrapframe\<close>: its thirteen words, read back through
  the page tables, are the faulting address, the error code, the registers, and the trap-time eip,
  eflags and esp. The frame is put below the trap-time stack pointer when the fault happened on the
  exception stack itself, at its top otherwise, and one scratch word is left above it. Nothing
  else of the saved frame changes, and the kernel invariant holds.
\<close>

theorem page_fault_upcall:
  assumes K: "kinv fl el s" and l: "holds_lock s" and c: "caller s c"
    and tf: "env_tf (envs s c) = tf" "(tf_cs tf AND 3) \<noteq> 0" and up: "env_pgfault_upcall (envs s c) = h" "h \<noteq> 0"
    and pd: "env_pgdir (envs s c) = Some pd"
    and utr: "utr = (if UXSTACKTOP - PGSIZE < tf_esp tf \<and> tf_esp tf < UXSTACKTOP then tf_esp tf else UXSTACKTOP) - 56"
    and chk: "user_mem_check c utr 56 (PTE_U OR PTE_W) s = Ret 0 s" and wr: "writable s pd utr 52"
  shows "\<exists>s'. page_fault_handler img cr2 (EnvTf c) s = Exit (Run c) s' \<and> kinv fl el s'
     \<and> env_tf (envs s' c) = tf\<lparr>tf_eip := h, tf_esp := utr\<rparr>
     \<and> map (\<lambda>i. vload32 s' pd (utr + 4 * word_of_nat i)) [0..<13] =
        map Some [cr2, tf_err tf, reg_edi (tf_regs tf), reg_esi (tf_regs tf), reg_ebp (tf_regs tf), reg_oesp (tf_regs tf),
          reg_ebx (tf_regs tf), reg_edx (tf_regs tf), reg_ecx (tf_regs tf), reg_eax (tf_regs tf), tf_eip tf, tf_eflags tf, tf_esp tf]"
proof -
  let ?u = "fault_frame cr2 tf"
  have u: "utr = fault_stacktop tf - 56" by (simp add: utr fault_stacktop_def)
  have cu: "curenv s = Some c" and L: "c \<in> live s" using c by (auto simp: caller_def)
  have pds: "pd \<in> env_pds s" using L pd by (auto simp: env_pds_def)
  have ut: "unat utr + 4 * length (utf_words ?u) \<le> unat UTOP" using fault_utr [of tf] fault_stacktop_range [of tf] by (simp add: u)
  obtain t where t: "vstore_words pd utr (utf_words ?u) s = Ret () t" "kinv fl el t" "mem_only s t"
    "\<And>i. i < 13 \<Longrightarrow> vload32 t pd (utr + 4 * word_of_nat i) = Some (utf_words ?u ! i)"
    using vstore_words_run [OF K pds ut] wr by auto
  note F = mem_only_fields [OF t(3)]
  let ?t = "upd_env c (\<lambda>v. v\<lparr>env_tf := (env_tf v)\<lparr>tf_esp := utr\<rparr>\<rparr>) (upd_env c (\<lambda>v. v\<lparr>env_tf := (env_tf v)\<lparr>tf_eip := env_pgfault_upcall v\<rparr>\<rparr>) t)"
  let ?s = "run_st c pd ?t"
  have K': "kinv fl el ?t" and L': "c \<in> live ?t" using t(2) L F(6) by (simp_all add: kinv_upd_env env_same_def)
  have "holds_lock ?t" using l F(8) by (simp add: holds_lock_def upd_env_def)
  then have run: "env_run c ?t = Exit (Run c) ?s" using pd F(1) by (intro env_run_eq) (simp_all add: upd_env_def)
  have "user_mem_assert c utr 56 (PTE_U OR PTE_W) s = Ret () s" using chk by (simp add: user_mem_assert_def const_simps)
  then have h: "page_fault_handler img cr2 (EnvTf c) s = Exit (Run c) ?s"
    using tf up cu t(1) run pd
    by (simp add: page_fault_handler_def tf_get_def fault_upcall_def u [symmetric])
  have "env_tf (envs ?s c) = tf\<lparr>tf_eip := h, tf_esp := utr\<rparr>"
    using tf(1) up(1) F(1) by (auto simp: run_st_def requeue_def upd_env_def split: option.split)
  moreover have "map (\<lambda>i. vload32 ?s pd (utr + 4 * word_of_nat i)) [0..<13] = map Some (utf_words ?u)"
  proof (rule nth_equalityI)
    fix i assume "i < length (map (\<lambda>i. vload32 ?s pd (utr + 4 * word_of_nat i)) [0..<13])"
    then have i: "i < 13" by simp
    have "pm ?s = pm t" by (simp add: run_st_def upd_env_def set_curenv_def upd_cpu_def)
    then show "map (\<lambda>i. vload32 ?s pd (utr + 4 * word_of_nat i)) [0..<13] ! i = map Some (utf_words ?u) ! i"
      using t(4) [OF i] i vload32_cong [of ?s t] by simp
  qed simp
  moreover have "kinv fl el ?s" using K' kinv_run_st [OF L'] by simp
  ultimately show ?thesis using h by (auto simp: utf_words_def fault_frame_def)
qed

section \<open>Breakpoints\<close>

text \<open>The gate of a vector after \<open>trap_init\<close>.\<close>

lemma trap_init_gates:
  "idt (fst (trap_init img (dt, s))) v =
    (case map_of (rev trap_gates) v of None \<Rightarrow> idt dt v | Some (istrap, dpl) \<Rightarrow> SETGATE istrap GD_KT (handler_at img v) dpl)"
proof -
  have "idt (fold (\<lambda>(v, istrap, dpl) dt. dt\<lparr>idt := (idt dt)(v := SETGATE istrap GD_KT (handler_at img v) dpl)\<rparr>) gs dt) v =
      (case map_of (rev gs) v of None \<Rightarrow> idt dt v | Some (istrap, dpl) \<Rightarrow> SETGATE istrap GD_KT (handler_at img v) dpl)" for gs
    by (induction gs arbitrary: dt) (auto simp: map_add_def split: option.split)
  then show ?thesis by (simp add: trap_init_def trap_init_percpu_def Let_def split_def)
qed

text \<open>
  \<open>trap_init\<close> gives every vector that a user program can invoke with \<open>int\<close> (privilege level 3)
  a gate in the kernel's code segment; these are exactly the breakpoint and the system call. The
  system call goes through an interrupt gate, which clears IF. The breakpoint goes through a trap
  gate, which leaves IF set, and user code runs with IF set; with IF set \<open>trap\<close> always panics, so
  one \<open>int3\<close> of a user program stops the kernel instead of entering the monitor.
\<close>

theorem user_gates:
  assumes "\<forall>v. gd_dpl (idt dt v) = 0" "nz (eflags AND FL_IF)"
    and "cpu_status (cpus s (cpunum s)) \<noteq> CPU_HALTED"
  shows "(gd_dpl (idt (fst (trap_init img (dt, s))) v) = 3 \<longleftrightarrow> v = T_BRKPT \<or> v = T_SYSCALL)
    \<and> gd_type (idt (fst (trap_init img (dt, s))) T_SYSCALL) = STS_IG32
    \<and> gd_type (idt (fst (trap_init img (dt, s))) T_BRKPT) = STS_TG32
    \<and> (\<exists>t. trap img False eflags cr2 tf s = Panic ''assertion failed: !(read_eflags() & FL_IF)'' t)"
proof -
  have p: "\<exists>t. trap img False eflags cr2 tf s = Panic ''assertion failed: !(read_eflags() & FL_IF)'' t"
    using assms(2,3) by (simp add: trap_def trap_body_def Let_def)
  have g: "gd_dpl (idt (fst (trap_init img (dt, s))) v) = 3 \<longleftrightarrow> v = T_BRKPT \<or> v = T_SYSCALL"
    using assms(1) unfolding trap_init_gates
    by (auto simp: trap_gates_def SETGATE_def const_simps split: if_splits)
  show ?thesis
    using p g by (simp add: trap_init_gates trap_gates_def SETGATE_def T_BRKPT_def T_SYSCALL_def const_simps)
qed

section \<open>Witnesses\<close>

definition img0 :: image where
  "img0 = \<lparr>handler_at = (\<lambda>v. 0xF0104000 + 16 * v), cpu_ts_at = (\<lambda>c. 0xF0200000), tf_at = (\<lambda>_. 0xF0300000)\<rparr>"

definition tf_user :: Trapframe where
  "tf_user = tf0\<lparr>tf_cs := 0x1B, tf_trapno := 14, tf_eip := 0x800020, tf_esp := 0xEEBFDF00\<rparr>"

text \<open>
  A state in which environment 0 has an exception stack: page 3 is its page table, page 4 the stack;
  its fault handler is at 0x800100.
\<close>

definition ks_fault :: kstate where
  "ks_fault = upd_env 0 (\<lambda>v. v\<lparr>env_tf := tf_user, env_pgfault_upcall := 0x800100\<rparr>)
     (ks0\<lparr>pages := (\<lambda>p. \<lparr>pp_link = (if 5 \<le> p \<and> p < 7 then Some (p + 1) else None), pp_ref = (if p < 5 then 1 else 0)\<rparr>),
        page_free_list := Some 5,
        pm := (\<lambda>p i. if p = 2 \<and> i = 954 then 0x3007 else if p = 3 \<and> i = 1023 then 0x4007 else 0)\<rparr>)"

lemma ks_fault_fields:
  "npages ks_fault = 8" "page_free_list ks_fault = Some 5" "kern_pgdir ks_fault = 0" "cpunum ks_fault = 0"
  "pages ks_fault p = \<lparr>pp_link = (if 5 \<le> p \<and> p < 7 then Some (p + 1) else None), pp_ref = (if p < 5 then 1 else 0)\<rparr>"
  "pm ks_fault = (\<lambda>p i. if p = 2 \<and> i = 954 then 0x3007 else if p = 3 \<and> i = 1023 then 0x4007 else 0)"
  "envs ks_fault = (envs ks0)(0 := (env0 0)\<lparr>env_tf := tf_user, env_pgfault_upcall := 0x800100\<rparr>)"
  "cpus ks_fault = cpus ks0" "env_free_list ks_fault = Some 1" "kernel_lock ks_fault = kernel_lock ks0"
  by (simp_all add: ks_fault_def upd_env_def fun_upd_def)

lemma ppn_eq: "ppn 0x3007 = 3" "ppn 0x4007 = 4" "present 0x3007" "present 0x4007" "\<not> present 0"
  by (simp_all add: ppn_def present_def PGNUM_def PTE_ADDR_def const_simps)

lemma tgt_ks_fault:
  "tgt {2} ks_fault sl = (if sl = SPd 2 then Some 2 else if sl = SPde 2 954 then Some 3
     else if sl = SPte 2 954 1023 then Some 4 else None)"
  by (cases sl) (auto simp: tgt.simps ks_fault_fields ppn_eq UPDX_def)

lemma ran_tgt_ks_fault: "ran (tgt {2} ks_fault) = {2, 3, 4}"
proof -
  have "tgt {2} ks_fault = [SPd 2 \<mapsto> 2, SPde 2 954 \<mapsto> 3, SPte 2 954 1023 \<mapsto> 4]"
    by (rule ext) (simp add: tgt_ks_fault)
  then show ?thesis by (simp add: insert_commute)
qed

lemma page_inv_ks_fault: "page_inv {2} [5, 6, 7] ks_fault"
proof (rule page_invI)
  have f: "fibre (tgt {2} ks_fault) 2 = {SPd 2}" "fibre (tgt {2} ks_fault) 3 = {SPde 2 954}"
    "fibre (tgt {2} ks_fault) 4 = {SPte 2 954 1023}"
    by (auto simp: fibre_def tgt_ks_fault split: if_splits)
  show "acct (tgt {2} ks_fault) (\<lambda>p. pp_ref (pages ks_fault p)) (npages ks_fault)"
    using f by (auto simp: acct_def tgt_ks_fault ks_fault_fields split: if_splits)
  have "p < 8 \<Longrightarrow> p \<notin> {5, 6, 7} \<Longrightarrow> p < 5" for p :: nat by simp
  then show "free_ok (tgt {2} ks_fault) ks_fault [5, 6, 7]"
    by (auto simp: free_ok_def ran_tgt_ks_fault ks_fault_fields)
  show "ptes_ok {2} ks_fault" by (auto simp: ptes_ok_def tgt_ks_fault ks_fault_fields ppn_eq split: if_splits)
qed (simp_all add: ks_fault_fields)

lemma live_ks_fault: "live ks_fault = {0}"
  by (auto simp: live_def ks_fault_fields env0_def NENV_def)

lemma env_pds_ks_fault: "env_pds ks_fault = {2}"
  by (auto simp: env_pds_def live_ks_fault ks_fault_fields env0_def)

lemma kinv_ks_fault: "kinv [5, 6, 7] el0 ks_fault"
proof -
  have "elink ks_fault = elink ks0" by (auto simp: elink_def ks_fault_fields)
  then have "env_inv el0 ks_fault"
    using env_inv_ks0 unfolding env_inv_def live_ks_fault live_ks0 by (auto simp: ks_fault_fields)
  then show ?thesis
    using page_inv_ks_fault by (simp add: kinv_def env_pds_ks_fault kern_ok_def ran_tgt_ks_fault ks_fault_fields)
qed

lemma ks_fault_place:
  assumes "j < 52"
  shows "vplace ks_fault 2 (PTE_P OR PTE_W) (0xEEBFFFC8 + word_of_nat j) \<noteq> None"
proof -
  have "j \<in> set [0..<52]" using assms by simp
  then show ?thesis
    by (auto simp: upt_rec vplace_def Let_def ks_fault_fields PDX_def PTX_def ppn_eq const_simps)
qed

theorem page_fault_upcall_witness:
  "\<exists>s'. page_fault_handler img0 0x12345678 (EnvTf 0) ks_fault = Exit (Run 0) s'
     \<and> env_tf (envs s' 0) = tf_user\<lparr>tf_eip := 0x800100, tf_esp := 0xEEBFFFC8\<rparr>"
proof -
  have utr: "(0xEEBFFFC8 :: u32) = (if UXSTACKTOP - PGSIZE < tf_esp tf_user \<and> tf_esp tf_user < UXSTACKTOP
      then tf_esp tf_user else UXSTACKTOP) - 56" by (simp add: tf_user_def const_simps)
  have c: "holds_lock ks_fault" "caller ks_fault 0"
    by (simp_all add: holds_lock_def holding_def caller_def live_ks_fault curenv_def ks_fault_fields)
  have e: "env_tf (envs ks_fault 0) = tf_user" "(tf_cs tf_user AND 3) \<noteq> 0" "env_pgfault_upcall (envs ks_fault 0) = 0x800100"
    "0x800100 \<noteq> (0 :: u32)" "env_pgdir (envs ks_fault 0) = Some 2"
    by (simp_all add: ks_fault_fields tf_user_def env0_def)
  have "user_mem_check 0 0xEEBFFFC8 56 (PTE_U OR PTE_W) ks_fault = Ret 0 ks_fault"
    using e(5) by (simp add: user_mem_check_def ROUNDUP_def ROUNDDOWN_def const_simps user_mem_check_loop.simps
        pgdir_walk_pure PDX_def PTX_def ks_fault_fields ppn_eq)
  then show ?thesis
    using page_fault_upcall [OF kinv_ks_fault c e utr, of img0 "0x12345678"] ks_fault_place
    by (auto simp: writable_def)
qed


theorem user_gates_witness:
  "gd_dpl (idt (fst (trap_init img0 (\<lparr>idt = (\<lambda>_. SETGATE False 0 0 0), gdt = (\<lambda>_. SEG16 0 0 0 0)\<rparr>, ks0))) T_BRKPT) = 3"
  using user_gates [of "\<lparr>idt = (\<lambda>_. SETGATE False 0 0 0), gdt = (\<lambda>_. SEG16 0 0 0 0)\<rparr>" "0x200" ks0 img0 T_BRKPT 0 tf0]
  by (simp add: SETGATE_def const_simps FL_IF_def)

end
