(* ===== verification/Kdebug.thy ===== *)
theory Kdebug
  imports Sched CString
begin

text \<open>
  Debugging information (lab/kern/kdebug.c, lab/inc/stab.h): the search in the STABS tables and
  \<open>debuginfo_eip\<close>.

  Table indices are C \<open>int\<close>s, here unbounded integers: a table has far fewer than $2^{30}$ entries, so
  neither they nor \<open>l + r\<close> overflow. The tables are read through virtual memory \<open>vm\<close>, a function from
  addresses to bytes; the addresses that the linker gives to the kernel's tables and to the literal
  \<open>"<unknown>"\<close> are arguments (\<open>dbgimg\<close>).
\<close>

section \<open>The search\<close>

record Stab =
  n_strx :: u32
  n_type :: u8
  n_other :: u8
  n_desc :: u16
  n_value :: u32

definition N_FUN :: u8 where [const_simps]: "N_FUN = 0x24"
definition N_SLINE :: u8 where [const_simps]: "N_SLINE = 0x44"
definition N_SO :: u8 where [const_simps]: "N_SO = 0x64"
definition N_SOL :: u8 where [const_simps]: "N_SOL = 0x84"
definition N_PSYM :: u8 where [const_simps]: "N_PSYM = 0xA0"
definition USTABDATA :: u32 where [const_simps]: "USTABDATA = PTSIZE div 2"

text \<open>Division of an \<open>int\<close> by a positive constant rounds towards zero.\<close>

definition cdiv :: "int \<Rightarrow> int \<Rightarrow> int" where
  "cdiv a b = (if a < 0 then - (- a div b) else a div b)"

function scan_left :: "(int \<Rightarrow> Stab) \<Rightarrow> u8 \<Rightarrow> int \<Rightarrow> int \<Rightarrow> int" where
  "scan_left stabs type l m = (if l \<le> m \<and> n_type (stabs m) \<noteq> type then scan_left stabs type l (m - 1) else m)"
  by auto
termination by (relation "measure (\<lambda>(stabs, type, l, m). nat (m - l + 1))") auto

declare scan_left.simps [simp del]

lemma scan_left_le: "scan_left stabs type l m \<le> m"
proof (induction stabs type l m rule: scan_left.induct)
  case (1 stabs type l m)
  show ?case
  proof (cases "l \<le> m \<and> n_type (stabs m) \<noteq> type")
    case True
    then show ?thesis using 1 [OF True] by (simp add: scan_left.simps [of stabs type l m])
  next
    case False
    then show ?thesis by (subst scan_left.simps) (simp only: if_False)
  qed
qed

lemma scan_left_hit: "l \<le> scan_left stabs type l m \<Longrightarrow> n_type (stabs (scan_left stabs type l m)) = type"
  by (induction stabs type l m rule: scan_left.induct) (metis scan_left.simps)

lemma scan_left_skip: "scan_left stabs type l m < i \<Longrightarrow> l \<le> i \<Longrightarrow> i \<le> m \<Longrightarrow> n_type (stabs i) \<noteq> type"
proof (induction stabs type l m rule: scan_left.induct)
  case (1 stabs type l m)
  then show ?case using scan_left.simps [of stabs type l m] by (cases "i = m") (auto split: if_splits)
qed

lemma cdiv_mid: "l \<le> r \<Longrightarrow> l \<le> cdiv (l + r) 2 \<and> cdiv (l + r) 2 \<le> r"
  by (auto simp: cdiv_def)

text \<open>
  The loop of \<open>stab_binsearch\<close>: \<open>lt\<close> and \<open>rt\<close> are \<open>*region_left\<close> and \<open>*region_right\<close>.
\<close>

function binsearch_loop ::
  "(int \<Rightarrow> Stab) \<Rightarrow> u8 \<Rightarrow> int \<Rightarrow> int \<Rightarrow> int \<Rightarrow> int \<Rightarrow> bool \<Rightarrow> u32 \<Rightarrow> int \<times> int \<times> bool" where
  "binsearch_loop stabs type l r lt rt any_matches addr =
     (if l \<le> r
      then let true_m = cdiv (l + r) 2; m = scan_left stabs type l true_m
           in if m < l then binsearch_loop stabs type (true_m + 1) r lt rt any_matches addr
              else if n_value (stabs m) < addr then binsearch_loop stabs type (true_m + 1) r m rt True addr
              else if addr < n_value (stabs m) then binsearch_loop stabs type l (m - 1) lt (m - 1) True addr
              else binsearch_loop stabs type m r m rt True (addr + 1)
      else (lt, rt, any_matches))"
  by auto
termination
proof (relation "measure (\<lambda>(stabs, type, l, r, lt, rt, any_matches, addr). 2 * nat (r - l + 1) +
    (if n_value (stabs (scan_left stabs type l (cdiv (l + r) 2))) = addr then 1 else 0))", goal_cases)
  case (2 stabs type l r lt rt any_matches addr)
  then show ?case using cdiv_mid [of l r] by auto
next
  case (3 stabs type l r lt rt any_matches addr)
  then show ?case using cdiv_mid [of l r] by auto
next
  case (4 stabs type l r lt rt any_matches addr true_m m)
  then show ?case using cdiv_mid [of l r] scan_left_le [of stabs type l "cdiv (l + r) 2"] by auto
next
  case (5 stabs type l r lt rt any_matches addr true_m m)
  then have m: "l \<le> m" "m \<le> r" "n_value (stabs m) = addr"
    using cdiv_mid [of l r] scan_left_le [of stabs type l "cdiv (l + r) 2"] by auto
  show ?case
  proof (cases "l = m")
    case True
    then show ?thesis using 5 m by simp
  next
    case False
    then have "nat (r - m + 1) < nat (r - l + 1)" using m by simp
    then have "2 * nat (r - m + 1) + 1 < 2 * nat (r - l + 1) + 1" by linarith
    then show ?thesis using 5 m(3) by (auto simp del: nat_less_eq_zless)
  qed
qed simp_all

declare binsearch_loop.simps [simp del]

definition stab_binsearch :: "(int \<Rightarrow> Stab) \<Rightarrow> int \<Rightarrow> int \<Rightarrow> u8 \<Rightarrow> u32 \<Rightarrow> int \<times> int" where
  "stab_binsearch stabs region_left region_right type addr =
     (case binsearch_loop stabs type region_left region_right region_left region_right False addr of
        (lt, rt, any_matches) \<Rightarrow>
          if \<not> any_matches then (lt, lt - 1)
          else (scan_left stabs type (lt + 1) rt, rt))"

section \<open>What the search finds\<close>

text \<open>The entries of the wanted type, and those whose address is at most \<open>addr\<close>.\<close>

definition hits :: "(int \<Rightarrow> Stab) \<Rightarrow> u8 \<Rightarrow> int \<Rightarrow> int \<Rightarrow> int set" where
  "hits stabs type lo hi = {i. lo \<le> i \<and> i \<le> hi \<and> n_type (stabs i) = type}"

lemma finite_hits: "finite (hits stabs type lo hi)"
  by (rule finite_subset [of _ "{lo..hi}"]) (auto simp: hits_def)

text \<open>The invariant of the search; \<open>rt\<close> is always \<open>r\<close>.\<close>

definition search_inv :: "(int \<Rightarrow> Stab) \<Rightarrow> u8 \<Rightarrow> u32 \<Rightarrow> int \<Rightarrow> int \<Rightarrow> int \<Rightarrow> int \<Rightarrow> int \<Rightarrow> bool \<Rightarrow> u32 \<Rightarrow> bool" where
  "search_inv stabs type x lo hi l r lt found addr \<longleftrightarrow>
     lo \<le> l \<and> r \<le> hi \<and> l \<le> r + 1 \<and> (addr = x \<or> addr = x + 1) \<and>
     (\<forall>i \<in> hits stabs type lo hi. i < l \<longrightarrow> n_value (stabs i) \<le> x) \<and>
     (\<forall>i \<in> hits stabs type lo hi. r < i \<longrightarrow> x < n_value (stabs i)) \<and>
     (lt = lo \<or> (lt \<in> hits stabs type lo hi \<and> n_value (stabs lt) \<le> x)) \<and>
     (r = hi \<or> r + 1 \<in> hits stabs type lo hi) \<and>
     (if found then hits stabs type lo hi \<noteq> {} else r = hi \<and> lt = lo \<and> (\<forall>i \<in> hits stabs type lo hi. l \<le> i))"

lemma search_hit:
  assumes I: "search_inv stabs type x lo hi l r lt found addr" and lr: "l \<le> r"
    and m: "m = scan_left stabs type l (cdiv (l + r) 2)" "l \<le> m"
  shows "m \<in> hits stabs type lo hi" "m \<le> cdiv (l + r) 2"
    "\<And>i. i \<in> hits stabs type lo hi \<Longrightarrow> i < cdiv (l + r) 2 + 1 \<Longrightarrow> i \<le> m"
proof -
  show le: "m \<le> cdiv (l + r) 2" using scan_left_le m by simp
  have "n_type (stabs m) = type" using scan_left_hit [of l stabs type "cdiv (l + r) 2"] m by simp
  then show "m \<in> hits stabs type lo hi" using I m(2) le cdiv_mid [OF lr] by (auto simp: hits_def search_inv_def)
  show "i \<le> m" if "i \<in> hits stabs type lo hi" "i < cdiv (l + r) 2 + 1" for i
    using scan_left_skip [of stabs type l "cdiv (l + r) 2" i] that m by (force simp: hits_def)
qed

lemma below_succ: "x < x + 1 \<Longrightarrow> v < x + 1 \<longleftrightarrow> v \<le> x" for v x :: u32
proof -
  assume "x < x + 1"
  then have "unat (x + 1) = unat x + 1" using unat_lt32 [of x] by (auto simp: word_less_nat_alt unat_word_ariths(1) mod_if split: if_splits)
  then show ?thesis by (simp add: word_less_nat_alt word_le_nat_alt less_Suc_eq_le)
qed

lemma search_cmp:
  assumes I: "search_inv stabs type x lo hi l r lt found addr" and v: "v \<noteq> x + 1" and x: "x < x + 1"
  shows "v < addr \<Longrightarrow> v \<le> x" "addr < v \<Longrightarrow> x < v" "\<not> v < addr \<Longrightarrow> \<not> addr < v \<Longrightarrow> v = x \<and> addr = x"
  using I v x below_succ [OF x, of v] by (auto simp: search_inv_def)

text \<open>One round in each of its outcomes.\<close>

lemma search_step:
  assumes I: "search_inv stabs type x lo hi l r lt found addr" and lr: "l \<le> r"
    and m: "m = scan_left stabs type l (cdiv (l + r) 2)"
    and srt: "\<forall>i \<in> hits stabs type lo hi. \<forall>j \<in> hits stabs type lo hi. i < j \<longrightarrow> n_value (stabs i) \<le> n_value (stabs j)"
    and gap: "\<forall>i \<in> hits stabs type lo hi. n_value (stabs i) \<noteq> x + 1" and x: "x < x + 1"
  shows "m < l \<Longrightarrow> search_inv stabs type x lo hi (cdiv (l + r) 2 + 1) r lt found addr"
    "l \<le> m \<Longrightarrow> n_value (stabs m) < addr \<Longrightarrow> search_inv stabs type x lo hi (cdiv (l + r) 2 + 1) r m True addr"
    "l \<le> m \<Longrightarrow> addr < n_value (stabs m) \<Longrightarrow> search_inv stabs type x lo hi l (m - 1) lt True addr"
    "l \<le> m \<Longrightarrow> \<not> n_value (stabs m) < addr \<Longrightarrow> \<not> addr < n_value (stabs m) \<Longrightarrow> search_inv stabs type x lo hi m r m True (addr + 1)"
proof -
  let ?t = "cdiv (l + r) 2" and ?H = "hits stabs type lo hi"
  note t = cdiv_mid [OF lr]
  note D = I [unfolded search_inv_def]
  have skip: "i \<notin> ?H \<or> i < l \<or> ?t < i" if "m < l" for i
    using scan_left_skip [of stabs type l ?t i] m that by (force simp: hits_def)
  show "search_inv stabs type x lo hi (?t + 1) r lt found addr" if "m < l"
    using D t skip [OF that] unfolding search_inv_def by (auto simp: not_less) (metis add1_zle_eq not_less)+
  assume ml: "l \<le> m"
  note h = search_hit [OF I lr m ml]
  note c = search_cmp [OF I bspec [OF gap h(1)] x]
  have le: "n_value (stabs i) \<le> n_value (stabs m)" if "i \<in> ?H" "i \<le> m" for i
    using srt that(1) h(1) that(2) by (cases "i = m") auto
  have ge: "n_value (stabs m) \<le> n_value (stabs i)" if "i \<in> ?H" "m \<le> i" for i
    using srt h(1) that(1) that(2) by (cases "i = m") auto
  show "search_inv stabs type x lo hi (?t + 1) r m True addr" if "n_value (stabs m) < addr"
  proof -
    have v: "n_value (stabs m) \<le> x" using c(1) that .
    have "\<forall>i \<in> ?H. i < ?t + 1 \<longrightarrow> n_value (stabs i) \<le> x" using le h(3) v order_trans by blast
    then show ?thesis using D t h(1) v unfolding search_inv_def by auto
  qed
  show "search_inv stabs type x lo hi l (m - 1) lt True addr" if "addr < n_value (stabs m)"
  proof -
    have v: "x < n_value (stabs m)" using c(2) that .
    have "\<forall>i \<in> ?H. m - 1 < i \<longrightarrow> x < n_value (stabs i)"
    proof (intro ballI impI)
      fix i assume "i \<in> ?H" "m - 1 < i"
      then have "n_value (stabs m) \<le> n_value (stabs i)" using ge by simp
      then show "x < n_value (stabs i)" using v by simp
    qed
    then show ?thesis using D t h(1,2) ml v unfolding search_inv_def by auto
  qed
  show "search_inv stabs type x lo hi m r m True (addr + 1)" if "\<not> n_value (stabs m) < addr" "\<not> addr < n_value (stabs m)"
  proof -
    have v: "n_value (stabs m) = x" "addr = x" using c(3) that by auto
    have "\<forall>i \<in> ?H. i < m \<longrightarrow> n_value (stabs i) \<le> x" using le v by force
    then show ?thesis using D t h(1,2) ml v unfolding search_inv_def by auto
  qed
qed

lemma binsearch_inv:
  assumes "search_inv stabs type x lo hi l r lt found addr" and "rt = r"
    and "\<forall>i \<in> hits stabs type lo hi. \<forall>j \<in> hits stabs type lo hi. i < j \<longrightarrow> n_value (stabs i) \<le> n_value (stabs j)"
    and "\<forall>i \<in> hits stabs type lo hi. n_value (stabs i) \<noteq> x + 1" and "x < x + 1"
  shows "\<exists>r' lt' found' addr'. binsearch_loop stabs type l r lt rt found addr = (lt', r', found')
     \<and> search_inv stabs type x lo hi (r' + 1) r' lt' found' addr'"
  using assms
proof (induction stabs type l r lt rt found addr rule: binsearch_loop.induct)
  case (1 stabs type l r lt rt found addr)
  let ?t = "cdiv (l + r) 2"
  let ?m = "scan_left stabs type l ?t"

  show ?case
  proof (cases "l \<le> r")
    case False
    then have "l = r + 1" using "1.prems"(1) by (simp add: search_inv_def)
    then show ?thesis using "1.prems"(1,2) by (subst binsearch_loop.simps) auto
  next
    case True
    note S = search_step [OF "1.prems"(1) True refl "1.prems"(3,4,5)]
    consider "?m < l" | "l \<le> ?m" "n_value (stabs ?m) < addr" | "l \<le> ?m" "addr < n_value (stabs ?m)"
      | "l \<le> ?m" "\<not> n_value (stabs ?m) < addr" "\<not> addr < n_value (stabs ?m)" by linarith
    then show ?thesis
    proof cases
      case 1
      then show ?thesis using "1.IH"(1) [OF True refl refl 1 S(1) [OF 1] "1.prems"(2-5)] True
        by (subst binsearch_loop.simps) (simp add: Let_def)
    next
      case 2
      then have "\<not> ?m < l" by simp
      then show ?thesis using "1.IH"(2) [OF True refl refl _ 2(2) S(2) [OF 2] "1.prems"(2-5)] True 2(2)
        by (subst binsearch_loop.simps) (simp add: Let_def)
    next
      case 3
      then have "\<not> ?m < l" "\<not> n_value (stabs ?m) < addr" by auto
      then show ?thesis using "1.IH"(3) [OF True refl refl _ _ 3(2) S(3) [OF 3] refl "1.prems"(3-5)] True 3(2)
        by (subst binsearch_loop.simps) (simp add: Let_def)
    next
      case 4
      then have "\<not> ?m < l" by simp
      then show ?thesis using "1.IH"(4) [OF True refl refl _ 4(2,3) S(4) [OF 4] "1.prems"(2-5)] True 4(2,3)
        by (subst binsearch_loop.simps) (simp add: Let_def)
    qed
  qed
qed

text \<open>The scan that ends the search.\<close>

lemma scan_left_Max:
  assumes "i \<in> hits stabs type lo hi" "lt \<le> i" "i \<le> rt" "\<forall>j \<in> hits stabs type lo hi. j \<le> rt \<longrightarrow> j \<le> i"
    "lo \<le> lt" "rt \<le> hi"
  shows "scan_left stabs type (lt + 1) rt = i"
  using assms
proof (induction stabs type "lt + 1" rt rule: scan_left.induct)
  case (1 stabs type m)
  show ?case
  proof (cases "lt + 1 \<le> m \<and> n_type (stabs m) \<noteq> type")
    case True
    then have "m \<noteq> i" using "1.prems"(1) by (auto simp: hits_def)
    then have "scan_left stabs type (lt + 1) (m - 1) = i" using 1 True by auto
    then show ?thesis using True by (subst scan_left.simps) simp
  next
    case False
    have "m = i"
    proof (rule ccontr)
      assume "m \<noteq> i"
      then have "i < m" using "1.prems"(3) by simp
      then have "n_type (stabs m) = type" using False "1.prems"(2) by auto
      then have "m \<in> hits stabs type lo hi" using "1.prems"(2,5,6) \<open>i < m\<close> by (simp add: hits_def)
      then show False using "1.prems"(4) \<open>i < m\<close> by force
    qed
    then show ?thesis using False by (subst scan_left.simps) (simp only: if_False)
  qed
qed

lemma scan_left_none:
  assumes "\<forall>j. lo < j \<longrightarrow> j \<le> rt \<longrightarrow> n_type (stabs j) \<noteq> type"
  shows "scan_left stabs type (lo + 1) rt = min lo rt"
  using assms
proof (induction stabs type "lo + 1" rt rule: scan_left.induct)
  case (1 stabs type m)
  show ?case
  proof (cases "lo + 1 \<le> m \<and> n_type (stabs m) \<noteq> type")
    case True
    then have "scan_left stabs type (lo + 1) (m - 1) = min lo (m - 1)" using 1 by auto
    then show ?thesis using True by (subst scan_left.simps) auto
  next
    case False
    then have "m \<le> lo" using 1(2) by (metis add1_zle_eq not_le order_refl)
    then show ?thesis using False by (subst scan_left.simps) auto
  qed
qed

text \<open>
  C37: \<open>stab_binsearch\<close> terminates and finds the entry that contains an address. Let the entries of
  the wanted type in the region be sorted by address, and none of them have the address
  \<open>addr + 1\<close>. Then the right end is just before the first such entry beyond \<open>addr\<close> (or the old
  right end), and the left end is the last entry at or below \<open>addr\<close>. Without such an entry the
  left end stays, or moves to the right end when that is below it; without any entry of the type the
  region becomes empty.
\<close>

theorem stab_binsearch_correct:
  assumes srt: "\<forall>i \<in> hits stabs type lo hi. \<forall>j \<in> hits stabs type lo hi. i < j \<longrightarrow> n_value (stabs i) \<le> n_value (stabs j)"
    and gap: "\<forall>i \<in> hits stabs type lo hi. n_value (stabs i) \<noteq> addr + 1" and x: "addr < addr + 1" and lo: "lo \<le> hi + 1"
    and inn: "inn = {i \<in> hits stabs type lo hi. n_value (stabs i) \<le> addr}"
    and out: "out = {i \<in> hits stabs type lo hi. addr < n_value (stabs i)}"
    and rt: "right = (if out = {} then hi else Min out - 1)"
  shows "stab_binsearch stabs lo hi type addr =
    (if hits stabs type lo hi = {} then (lo, lo - 1)
     else if inn = {} then (min lo right, right)
     else (Max inn, right))"
proof -
  let ?H = "hits stabs type lo hi"
  have "search_inv stabs type addr lo hi lo hi lo False addr"
    using lo by (auto simp: search_inv_def hits_def)
  then obtain r lt found a where b: "binsearch_loop stabs type lo hi lo hi False addr = (lt, r, found)"
    and I: "search_inv stabs type addr lo hi (r + 1) r lt found a"
    using binsearch_inv [OF _ refl srt gap x] by blast
  note D = I [unfolded search_inv_def]
  have i: "inn = {i \<in> ?H. i \<le> r}" and o: "out = {i \<in> ?H. r < i}"
    using D unfolding inn out by (auto simp: not_less)
  have f: "finite inn" "finite out" using finite_hits by (simp_all add: i o)
  have r: "right = r"
  proof (cases "out = {}")
    case True
    then have "r + 1 \<notin> ?H" using o by auto
    then show ?thesis using D rt True by auto
  next
    case False
    then have "r \<noteq> hi" using o by (auto simp: hits_def)
    then have "r + 1 \<in> out" using D o by auto
    moreover have "\<forall>j \<in> out. r + 1 \<le> j" using o by auto
    ultimately have "Min out = r + 1" using f(2) by (simp add: Min_eqI)
    then show ?thesis using False rt by simp
  qed
  show ?thesis
  proof (cases "?H = {}")
    case True
    then show ?thesis using D b by (auto simp: stab_binsearch_def split: if_splits)
  next
    case False
    then have found proof (cases found) case False with D \<open>?H \<noteq> {}\<close> show ?thesis by (auto simp: hits_def) qed
    then have s: "stab_binsearch stabs lo hi type addr = (scan_left stabs type (lt + 1) r, r)"
      using b by (simp add: stab_binsearch_def)
    show ?thesis
    proof (cases "inn = {}")
      case True
      then have "lt = lo" using D inn by auto
      moreover have "\<forall>j. lo < j \<longrightarrow> j \<le> r \<longrightarrow> n_type (stabs j) \<noteq> type"
        using True D i by (auto simp: hits_def)
      ultimately show ?thesis using s True False r scan_left_none [of lo r stabs type] by simp
    next
      case ne: False
      have M: "Max inn \<in> inn" using f(1) ne by simp
      have "lt \<le> Max inn"
      proof (cases "lt = lo")
        case True
        then show ?thesis using M i by (auto simp: hits_def)
      next
        case False
        then have "lt \<in> inn" using D inn by auto
        then show ?thesis using f(1) by simp
      qed
      moreover have "\<forall>j \<in> ?H. j \<le> r \<longrightarrow> j \<le> Max inn" using f(1) i by auto
      moreover have "lo \<le> lt" using D by (auto simp: hits_def)
      ultimately have "scan_left stabs type (lt + 1) r = Max inn"
        using M i D by (intro scan_left_Max [of _ _ _ lo hi]) auto
      then show ?thesis using s ne False r by simp
    qed
  qed
qed

text \<open>
  the condition on \<open>addr + 1\<close> is needed. After an exact match the search goes on for \<open>addr + 1\<close>,
  and takes an entry with that address for another exact match: of two consecutive entries at
  \<open>a\<close> and \<open>a + 1\<close> the search for \<open>a\<close> returns the second, which does not contain \<open>a\<close>.
\<close>

theorem stab_binsearch_off_by_one:
  assumes "n_type (stabs 0) = type" "n_type (stabs 1) = type"
    and "n_value (stabs 0) = a" "n_value (stabs 1) = a + 1" "a < a + 1" "a + 1 < a + 2"
  shows "stab_binsearch stabs 0 1 type a = (1, 1)"
  using assms order.asym [OF assms(6)]
  by (simp add: add.commute [of 2] stab_binsearch_def binsearch_loop.simps [of stabs type 0 1] binsearch_loop.simps [of stabs type 1 1]
      binsearch_loop.simps [of stabs type 2 1] cdiv_def Let_def scan_left.simps [of stabs])

definition stabs0 :: "int \<Rightarrow> Stab" where
  "stabs0 i = \<lparr>n_strx = 0, n_type = 0x44, n_other = 0, n_desc = word_of_int i, n_value = (if i = 0 then 0x10 else 0x11)\<rparr>"

theorem stab_binsearch_off_by_one_witness: "stab_binsearch stabs0 0 1 0x44 0x10 = (1, 1)"
  by (rule stab_binsearch_off_by_one) (simp_all add: stabs0_def)

theorem stab_binsearch_correct_witness: "stab_binsearch stabs0 0 1 0x44 0x20 = (1, 1)"
proof -
  have h: "hits stabs0 0x44 0 1 = {0, 1}" by (auto simp: hits_def stabs0_def)
  have e: "{i \<in> {0, 1}. n_value (stabs0 i) \<le> 0x20} = {0, 1}" "{i \<in> {0, 1}. 0x20 < n_value (stabs0 i)} = {}"
    by (auto simp: stabs0_def)
  show ?thesis
    using stab_binsearch_correct [of stabs0 "0x44" 0 1 "0x20", OF _ _ _ _ refl refl refl]
    unfolding h e by (simp add: stabs0_def)
qed

section \<open>Debugging information about an address\<close>

record Eipdebuginfo =
  eip_file :: u32
  eip_line :: int
  eip_fn_name :: u32
  eip_fn_namelen :: int
  eip_fn_addr :: u32
  eip_fn_narg :: int

text \<open>\<open>struct UserStabData\<close>; the kernel has the same four pointers from the linker.\<close>

record UserStabData =
  usd_stabs :: u32
  usd_stab_end :: u32
  usd_stabstr :: u32
  usd_stabstr_end :: u32

record dbgimg =
  kernel_stabs :: UserStabData
  unknown_at :: u32

definition stab_at :: "mem \<Rightarrow> u32 \<Rightarrow> int \<Rightarrow> Stab" where
  "stab_at vm stabs i =
     (let a = stabs + word_of_int (12 * i)
      in \<lparr>n_strx = rd32 vm a, n_type = vm (a + 4), n_other = vm (a + 5),
          n_desc = ucast (vm (a + 6)) OR push_bit 8 (ucast (vm (a + 7))), n_value = rd32 vm (a + 8)\<rparr>)"

definition user_stabs :: "mem \<Rightarrow> kstate \<Rightarrow> UserStabData kres" where
  "user_stabs vm s =
     with_curenv s (\<lambda>c.
     kbind (user_mem_assert c USTABDATA 16 PTE_U s) (\<lambda>_ s.
       let usd = \<lparr>usd_stabs = rd32 vm USTABDATA, usd_stab_end = rd32 vm (USTABDATA + 4),
                  usd_stabstr = rd32 vm (USTABDATA + 8), usd_stabstr_end = rd32 vm (USTABDATA + 12)\<rparr>
       in kbind (user_mem_assert c (usd_stabs usd) (word_of_int (cdiv (sint (usd_stab_end usd - usd_stabs usd)) 12) * 12) PTE_U s) (\<lambda>_ s.
          kbind (user_mem_assert c (usd_stabstr usd) (usd_stabstr_end usd - usd_stabstr usd) PTE_U s) (\<lambda>_ s.
            Ret usd s))))"

text \<open>The backward search for the file name, and the count of the parameters.\<close>

function file_scan :: "(int \<Rightarrow> Stab) \<Rightarrow> int \<Rightarrow> int \<Rightarrow> int" where
  "file_scan stabs lfile lline =
     (if lfile \<le> lline \<and> n_type (stabs lline) \<noteq> N_SOL \<and> (n_type (stabs lline) \<noteq> N_SO \<or> n_value (stabs lline) = 0)
      then file_scan stabs lfile (lline - 1) else lline)"
  by auto
termination by (relation "measure (\<lambda>(stabs, lfile, lline). nat (lline - lfile + 1))") auto

function count_args :: "(int \<Rightarrow> Stab) \<Rightarrow> int \<Rightarrow> int \<Rightarrow> int \<Rightarrow> int" where
  "count_args stabs lline rfun narg =
     (if lline < rfun \<and> n_type (stabs lline) = N_PSYM then count_args stabs (lline + 1) rfun (narg + 1) else narg)"
  by auto
termination by (relation "measure (\<lambda>(stabs, lline, rfun, narg). nat (rfun - lline))") auto

declare file_scan.simps [simp del] count_args.simps [simp del]

text \<open>
  From the validity check of the string table on: \<open>None\<close> when \<open>strfind\<close> does not return, which needs
  memory without a NUL byte.
\<close>

definition search_stabs :: "mem \<Rightarrow> UserStabData \<Rightarrow> u32 \<Rightarrow> Eipdebuginfo \<Rightarrow> (int \<times> Eipdebuginfo) option" where
  "search_stabs vm usd addr info =
     (let stabs = stab_at vm (usd_stabs usd); stabstr = usd_stabstr usd; stabstr_end = usd_stabstr_end usd
      in if stabstr_end \<le> stabstr \<or> vm (stabstr_end - 1) \<noteq> 0 then Some (- 1, info)
         else let (lfile, rfile) = stab_binsearch stabs 0 (cdiv (sint (usd_stab_end usd - usd_stabs usd)) 12 - 1) N_SO addr
         in if lfile = 0 then Some (- 1, info)
         else let (lfun, rfun) = stab_binsearch stabs lfile rfile N_FUN addr;
              (info, addr, lline, rline) =
                (if lfun \<le> rfun
                 then let info = (if n_strx (stabs lfun) < stabstr_end - stabstr
                                  then info\<lparr>eip_fn_name := stabstr + n_strx (stabs lfun)\<rparr> else info);
                          info = info\<lparr>eip_fn_addr := n_value (stabs lfun)\<rparr>
                      in (info, addr - eip_fn_addr info, lfun, rfun)
                 else (info\<lparr>eip_fn_addr := addr\<rparr>, addr, lfile, rfile))
         in case strfind vm (eip_fn_name info) 0x3A of
              None \<Rightarrow> None
            | Some p \<Rightarrow>
                let info = info\<lparr>eip_fn_namelen := sint (p - eip_fn_name info)\<rparr>;
                    (lline, rline) = stab_binsearch stabs lline rline N_SLINE addr
                in if rline < lline then Some (- 1, info)
                   else let info = info\<lparr>eip_line := uint (n_desc (stabs lline))\<rparr>;
                            lline = file_scan stabs lfile lline;
                            info = (if lfile \<le> lline \<and> n_strx (stabs lline) < stabstr_end - stabstr
                                    then info\<lparr>eip_file := stabstr + n_strx (stabs lline)\<rparr> else info);
                            info = (if lfun < rfun
                                    then info\<lparr>eip_fn_narg := count_args stabs (lfun + 1) rfun (eip_fn_narg info)\<rparr> else info)
                        in Some (0, info))"

definition debuginfo_eip :: "dbgimg \<Rightarrow> mem \<Rightarrow> u32 \<Rightarrow> kstate \<Rightarrow> (int \<times> Eipdebuginfo) kres" where
  "debuginfo_eip img vm addr s =
     (let info = \<lparr>eip_file = unknown_at img, eip_line = 0, eip_fn_name = unknown_at img, eip_fn_namelen = 9,
                  eip_fn_addr = addr, eip_fn_narg = 0\<rparr>
      in kbind (if ULIM \<le> addr then Ret (kernel_stabs img) s else user_stabs vm s) (\<lambda>usd s.
           case search_stabs vm usd addr info of
             None \<Rightarrow> Exit Spin s
           | Some r \<Rightarrow> Ret r s))"

end
