(* ===== verification/Monitor.thy ===== *)
theory Monitor
  imports Trap Kdebug
begin

text \<open>
  The kernel monitor (lab/kern/monitor.c) and the line editor it reads commands with
  (lab/lib/readline.c, the kernel's version).

  Both work on buffers in memory: \<open>vm\<close> is virtual memory, as in the debugging information. What the
  linker chooses is in \<open>monimg\<close>: where the line buffer, the white space literal and the names of the
  commands are, and the symbols that \<open>kerninfo\<close> prints. \<open>None\<close> and the exit \<open>Spin\<close> stand for a loop
  that never ends, such as waiting for a key.
\<close>

section \<open>Reading a line\<close>

definition BUFLEN :: nat where [const_simps]: "BUFLEN = 1024"
definition E_EOF :: int where [const_simps]: "E_EOF = 8"

text \<open>The loop of \<open>readline\<close>; \<open>echoing\<close> is what \<open>iscons\<close> returned.\<close>

partial_function (option) readline_loop ::
  "u32 \<Rightarrow> bool \<Rightarrow> nat \<Rightarrow> mem \<Rightarrow> console \<Rightarrow> (u32 option \<times> mem \<times> console) option" where
  "readline_loop buf echoing i vm con =
     (case getchar con of
        None \<Rightarrow> None
      | Some (c, con) \<Rightarrow>
          if c <s 0
          then if sint c \<noteq> - E_EOF
               then (case cprintf (''read error: %e'' @ nl) [VA_INT c] con of
                       None \<Rightarrow> None | Some (_, con) \<Rightarrow> Some (None, vm, con))
               else Some (None, vm, con)
          else if (c = 8 \<or> c = 0x7F) \<and> 0 < i
          then readline_loop buf echoing (i - 1) vm (if echoing then cputchar 8 con else con)
          else if 0x20 \<le>s c \<and> i < BUFLEN - 1
          then readline_loop buf echoing (i + 1) (vm(buf + word_of_nat i := ucast c)) (if echoing then cputchar c con else con)
          else if c = 0x0A \<or> c = 0x0D
          then Some (Some buf, vm(buf + word_of_nat i := 0), if echoing then cputchar 0x0A con else con)
          else readline_loop buf echoing i vm con)"

definition readline :: "u32 \<Rightarrow> string \<Rightarrow> mem \<Rightarrow> console \<Rightarrow> (u32 option \<times> mem \<times> console) option" where
  "readline buf prompt vm con =
     (case cprintf ''%s'' [str_arg prompt] con of
        None \<Rightarrow> None
      | Some (_, con) \<Rightarrow> readline_loop buf (iscons 0 \<noteq> 0) 0 vm con)"

section \<open>Commands\<close>

record monimg =
  img :: image
  dbg :: dbgimg
  line_at :: u32
  white_at :: u32
  name_at :: "nat \<Rightarrow> u32"
  sym_start :: u32
  sym_entry :: u32
  sym_etext :: u32
  sym_edata :: u32
  sym_end :: u32

datatype command = Mon_help | Mon_kerninfo | Mon_backtrace

definition commands :: "(string \<times> string \<times> command) list" where
  "commands =
     [(''help'', ''Display this list of commands'', Mon_help),
      (''kerninfo'', ''Display information about the kernel'', Mon_kerninfo),
      (''backtrace'', ''Display information about the function call stack'', Mon_backtrace)]"

definition mon_help :: "kstate \<Rightarrow> int kres" where
  "mon_help s =
     kbind (kprintfs (map (\<lambda>(name, desc, _). (''%s - %s'' @ nl, [str_arg name, str_arg desc])) commands) s) (\<lambda>_ s. Ret 0 s)"

definition mon_kerninfo :: "monimg \<Rightarrow> kstate \<Rightarrow> int kres" where
  "mon_kerninfo mi s =
     (let sym = (\<lambda>name a. (name @ ''  %08x (virt)  %08x (phys)'' @ nl, [VA_INT a, VA_INT (a - KERNBASE)]))
      in kbind (kprintfs
           [(''Special kernel symbols:'' @ nl, []),
            (''  _start                  %08x (phys)'' @ nl, [VA_INT (sym_start mi)]),
            sym ''  entry'' (sym_entry mi),
            sym ''  etext'' (sym_etext mi),
            sym ''  edata'' (sym_edata mi),
            sym ''  end  '' (sym_end mi),
            (''Kernel executable memory footprint: %dKB'' @ nl,
             [VA_INT (word_of_int (cdiv (sint (ROUNDUP (sym_end mi - sym_entry mi) 1024)) 1024))])] s) (\<lambda>_ s. Ret 0 s))"

text \<open>One round of the loop of \<open>mon_backtrace\<close>.\<close>

definition frame_info :: "monimg \<Rightarrow> mem \<Rightarrow> u32 \<Rightarrow> kstate \<Rightarrow> unit kres" where
  "frame_info mi vm ebp s =
     (let w = (\<lambda>k. rd32 vm (ebp + 4 * k))
      in kbind (debuginfo_eip (dbg mi) vm (w 1) s) (\<lambda>(_, info) s.
         kprintfs
           [(''  ebp %08x eip %08x args %08x %08x %08x %08x %08x'' @ nl,
             [VA_INT ebp, VA_INT (w 1), VA_INT (w 2), VA_INT (w 3), VA_INT (w 4), VA_INT (w 5), VA_INT (w 6)]),
            (''         %s:%d:  %.*s+%d'' @ nl,
             [VA_PTR vm (eip_file info), VA_INT (word_of_int (eip_line info)), VA_INT (word_of_int (eip_fn_namelen info)),
              VA_PTR vm (eip_fn_name info), VA_INT (w 1 - eip_fn_addr info)])] s))"

partial_function (option) backtrace_loop :: "monimg \<Rightarrow> mem \<Rightarrow> u32 \<Rightarrow> kstate \<Rightarrow> unit kres option" where
  "backtrace_loop mi vm ebp s =
     (if ebp \<noteq> 0
      then (case frame_info mi vm ebp s of
              Ret _ s \<Rightarrow> backtrace_loop mi vm (rd32 vm ebp) s
            | Panic msg s \<Rightarrow> Some (Panic msg s)
            | Exit e s \<Rightarrow> Some (Exit e s))
      else Some (Ret () s))"

definition mon_backtrace :: "monimg \<Rightarrow> mem \<Rightarrow> u32 \<Rightarrow> kstate \<Rightarrow> int kres" where
  "mon_backtrace mi vm ebp s =
     kbind (kprintf (''Stack backtrace:'' @ nl) [] s) (\<lambda>_ s.
       case backtrace_loop mi vm ebp s of
         None \<Rightarrow> Exit Spin s
       | Some r \<Rightarrow> kbind r (\<lambda>_ s. Ret 0 s))"

section \<open>The command interpreter\<close>

definition MAXARGS :: nat where [const_simps]: "MAXARGS = 16"

text \<open>\<open>strchr(WHITESPACE, c)\<close>, which may not return, and the two inner loops of the parser.\<close>

partial_function (option) gobble :: "u32 \<Rightarrow> u32 \<Rightarrow> mem \<Rightarrow> (u32 \<times> mem) option" where
  "gobble ws buf vm =
     (if vm buf = 0 then Some (buf, vm)
      else case strchr vm ws (vm buf) of
        None \<Rightarrow> None
      | Some r \<Rightarrow> if r \<noteq> None then gobble ws (buf + 1) (vm(buf := 0)) else Some (buf, vm))"

partial_function (option) scan_arg :: "u32 \<Rightarrow> u32 \<Rightarrow> mem \<Rightarrow> u32 option" where
  "scan_arg ws buf vm =
     (if vm buf = 0 then Some buf
      else case strchr vm ws (vm buf) of
        None \<Rightarrow> None
      | Some r \<Rightarrow> if r = None then scan_arg ws (buf + 1) vm else Some buf)"

text \<open>The parser: the arguments so far are \<open>argv\<close>; the result is None in place of too many.\<close>

partial_function (option) parse_args :: "u32 \<Rightarrow> u32 \<Rightarrow> u32 list \<Rightarrow> mem \<Rightarrow> (u32 list option \<times> mem) option" where
  "parse_args ws buf argv vm =
     (case gobble ws buf vm of
        None \<Rightarrow> None
      | Some (buf, vm) \<Rightarrow>
          if vm buf = 0 then Some (Some argv, vm)
          else if length argv = MAXARGS - 1 then Some (None, vm)
          else case scan_arg ws buf vm of
            None \<Rightarrow> None
          | Some buf' \<Rightarrow> parse_args ws buf' (argv @ [buf]) vm)"

definition run_command :: "monimg \<Rightarrow> mem \<Rightarrow> u32 \<Rightarrow> command \<Rightarrow> kstate \<Rightarrow> int kres" where
  "run_command mi vm ebp c s =
     (case c of Mon_help \<Rightarrow> mon_help s | Mon_kerninfo \<Rightarrow> mon_kerninfo mi s | Mon_backtrace \<Rightarrow> mon_backtrace mi vm ebp s)"

text \<open>The lookup loop, from command \<open>i\<close> on.\<close>

primrec lookup_command :: "monimg \<Rightarrow> mem \<Rightarrow> u32 \<Rightarrow> (string \<times> string \<times> command) list \<Rightarrow> nat \<Rightarrow> command option option" where
  "lookup_command mi vm arg [] i = Some None"
| "lookup_command mi vm arg (c # cs) i =
     (case strcmp vm arg (name_at mi i) of
        None \<Rightarrow> None
      | Some r \<Rightarrow> if r = 0 then Some (Some (snd (snd c))) else lookup_command mi vm arg cs (i + 1))"

definition runcmd :: "monimg \<Rightarrow> u32 \<Rightarrow> u32 \<Rightarrow> mem \<Rightarrow> kstate \<Rightarrow> (int \<times> mem) kres" where
  "runcmd mi ebp buf vm s =
     (case parse_args (white_at mi) buf [] vm of
        None \<Rightarrow> Exit Spin s
      | Some (None, vm) \<Rightarrow>
          kbind (kprintf (''Too many arguments (max %d)'' @ nl) [VA_INT 16] s) (\<lambda>_ s. Ret (0, vm) s)
      | Some (Some argv, vm) \<Rightarrow>
          if argv = [] then Ret (0, vm) s
          else case lookup_command mi vm (hd argv) commands 0 of
            None \<Rightarrow> Exit Spin s
          | Some (Some c) \<Rightarrow> kbind (run_command mi vm ebp c s) (\<lambda>r s. Ret (r, vm) s)
          | Some None \<Rightarrow>
              kbind (kprintf (''Unknown command ''@ [CHR 0x27] @ ''%s'' @ [CHR 0x27] @ nl) [VA_PTR vm (hd argv)] s) (\<lambda>_ s. Ret (0, vm) s))"

text \<open>The loop of \<open>monitor\<close>; every round has its own \<open>ebp\<close>.\<close>

partial_function (option) monitor_loop :: "monimg \<Rightarrow> u32 \<Rightarrow> mem \<Rightarrow> kstate \<Rightarrow> unit kres option" where
  "monitor_loop mi ebp vm s =
     (case readline (line_at mi) ''K> '' vm (kcons s) of
        None \<Rightarrow> None
      | Some (None, vm, con) \<Rightarrow> monitor_loop mi ebp vm (s\<lparr>kcons := con\<rparr>)
      | Some (Some buf, vm, con) \<Rightarrow>
          (case runcmd mi ebp buf vm (s\<lparr>kcons := con\<rparr>) of
             Ret (r, vm) s \<Rightarrow> if r < 0 then Some (Ret () s) else monitor_loop mi ebp vm s
           | Panic msg s \<Rightarrow> Some (Panic msg s)
           | Exit e s \<Rightarrow> Some (Exit e s)))"

definition monitor :: "monimg \<Rightarrow> u32 \<Rightarrow> mem \<Rightarrow> u32 \<Rightarrow> bool \<Rightarrow> tfp option \<Rightarrow> kstate \<Rightarrow> unit kres" where
  "monitor mi ebp vm cr2 is_last tf s =
     kbind (kprintf (''Welcome to the JOS kernel monitor!'' @ nl) [] s) (\<lambda>_ s.
     kbind (kprintf (''Type 'help' for a list of commands.'' @ nl) [] s) (\<lambda>_ s.
     kbind (case tf of None \<Rightarrow> Ret () s | Some p \<Rightarrow> print_trapframe (img mi) cr2 is_last p s) (\<lambda>_ s.
       case monitor_loop mi ebp vm s of
         None \<Rightarrow> Exit Monitor s
       | Some r \<Rightarrow> r)))"

end
