(* ===== verification/MonitorThms.thy ===== *)
theory MonitorThms
  imports Monitor
begin

text \<open>
  The monitor is never left, its line editor delivers the edited line, and its parser splits the line
  into words.
\<close>

section \<open>The monitor never returns\<close>

lemma kbind_ret: "kbind m (\<lambda>_ t. Ret r t) = Ret x t \<Longrightarrow> x = r"
  by (auto simp: kbind_Ret_iff)

lemma run_command_zero: "run_command mi vm ebp c s = Ret r t \<Longrightarrow> r = 0"
  by (auto simp: run_command_def mon_help_def mon_kerninfo_def mon_backtrace_def kbind_Ret_iff
      split: command.splits option.splits dest: kbind_ret)

lemma runcmd_zero: "runcmd mi ebp buf vm s = Ret r t \<Longrightarrow> fst r = 0"
  by (auto simp: runcmd_def kbind_Ret_iff split: option.splits if_splits) (metis run_command_zero)

lemma monitor_loop_no_ret: "monitor_loop mi ebp vm s = Some r \<Longrightarrow> r \<noteq> Ret () t"
proof (induction rule: monitor_loop.raw_induct [rotated 1, consumes 1])
  case (1 f mi ebp vm s r)
  then show ?case
    by (auto split: option.splits prod.splits kres.splits if_splits dest: runcmd_zero)
qed

text \<open>
  the kernel monitor never returns to its caller: no command returns a negative value, so the
  loop is not left, whatever is typed. What follows a call of \<open>monitor\<close> is dead code.
\<close>

theorem monitor_never_returns: "monitor mi ebp vm cr2 is_last tf s \<noteq> Ret () t"
proof
  assume "monitor mi ebp vm cr2 is_last tf s = Ret () t"
  then obtain u where "(case monitor_loop mi ebp vm u of None \<Rightarrow> Exit Monitor u | Some r \<Rightarrow> r) = Ret () t"
    by (auto simp: monitor_def kbind_Ret_iff)
  then have "monitor_loop mi ebp vm u = Some (Ret () t)" by (simp split: option.splits)
  then show False by (metis monitor_loop_no_ret)
qed

section \<open>The line editor\<close>

text \<open>
  What a sequence of keys means, as a function: the line so far and the keys to come give the line
  and the keys left over.
\<close>

fun edit :: "u8 list \<Rightarrow> u8 list \<Rightarrow> (u8 list \<times> u8 list) option" where
  "edit acc [] = None"
| "edit acc (c # cs) =
     (if (c = 8 \<or> c = 0x7F) \<and> acc \<noteq> [] then edit (butlast acc) cs
      else if 0x20 \<le> c \<and> length acc < 1023 then edit (acc @ [c]) cs
      else if c = 0x0A \<or> c = 0x0D then Some (acc, cs)
      else edit acc cs)"

lemma same_input_getc: "same_input a b \<Longrightarrow> ring_inv a = ring_inv b \<and> quiet a = quiet b \<and> pending a = pending b"
  by (simp add: same_input_def ring_inv_def quiet_def pending_def ring_len_def)

lemma same_input_refl: "same_input a a"
  by (simp add: same_input_def)

lemma same_input_fold: "same_input (fold (\<lambda>ch. cputchar (word_of_int ch)) xs con) con"
proof (induction xs arbitrary: con)
  case (Cons x xs)
  then show ?case using same_input_trans [OF Cons same_input_cons_putc] by (simp add: cputchar_def)
qed (simp add: same_input_refl)

text \<open>A key that is waiting in the buffer.\<close>

lemma getchar_pending:
  assumes "quiet con" "ring_inv con" "pending con = b # bs" "b \<noteq> 0"
  shows "\<exists>con'. getchar con = Some (ucast b, con') \<and> quiet con' \<and> ring_inv con' \<and> pending con' = bs"
proof -
  have t: "fst (ring_take con) = Some b" "pending (snd (ring_take con)) = bs"
    using ringq.take_cons [OF assms(2,3)] by auto
  then obtain con' where c: "ring_take con = (Some b, con')" by (cases "ring_take con") auto
  have "cons_getc con = (ucast b, con')"
    using quiet_poll [OF assms(1)] c by (simp add: cons_getc_def cons_take_ring)
  then show ?thesis
    using c t(2) assms(4) quiet_take [OF assms(1)] ringq.inv_take [OF assms(2)] by (subst getchar.simps) simp
qed

lemma sint_key: "sint (ucast (b :: u8) :: u32) = int (unat b)"
  using sint32 [of "ucast b"] unsigned_less [of b, where 'a = nat] by (simp add: unat_ucast8_32)

lemma key_compare:
  "\<not> (ucast (b :: u8) :: u32) <s 0" "(0x20 \<le>s (ucast b :: u32)) = (0x20 \<le> b)"
  "((ucast b :: u32) = 8) = (b = 8)" "((ucast b :: u32) = 0x7F) = (b = 0x7F)"
  "((ucast b :: u32) = 0x0A) = (b = 0x0A)" "((ucast b :: u32) = 0x0D) = (b = 0x0D)"
  by (simp_all add: word_sless_alt word_sle_eq sint_key word_le_nat_alt unat_ucast8_32 word_unat_eq_iff flip: of_nat_le_iff [where 'a = int])

lemma bytes_at_snoc: "bytes_at m s (Suc n) = bytes_at m s n @ [m (s + word_of_nat n)]"
proof (rule nth_equalityI)
  fix i assume "i < length (bytes_at m s (Suc n))"
  then show "bytes_at m s (Suc n) ! i = (bytes_at m s n @ [m (s + word_of_nat n)]) ! i"
    by (cases "i = n") (simp_all only: length_bytes_at nth_bytes_at nth_append less_Suc_eq refl if_True if_False, simp_all add: nth_bytes_at)
qed simp

lemma bytes_at_take: "k \<le> n \<Longrightarrow> bytes_at m s k = take k (bytes_at m s n)"
  by (rule nth_equalityI) (simp_all add: nth_bytes_at)

lemma bytes_at_store: "n < 4294967296 \<Longrightarrow> bytes_at (m(s + word_of_nat n := c)) s (Suc n) = bytes_at m s n @ [c]"
proof -
  assume n: "n < 4294967296"
  then have "bytes_at (m(s + word_of_nat n := c)) s n = bytes_at m s n"
    by (intro bytes_at_cong) (auto simp: inblk_def unat_word_of_nat32)
  then show ?thesis by (simp only: bytes_at_snoc) simp
qed

lemma cstr_store:
  assumes "bytes_at m s (length bs) = bs" "0 \<notin> set bs" "length bs < 4294967296"
  shows "cstr (m(s + word_of_nat (length bs) := 0)) s bs"
  using assms bytes_at_store [of "length bs" m s 0] by (simp only: cstr_bytes) simp

lemma readline_loop_edit:
  assumes "edit acc bs = Some (line, rest)" "quiet con" "ring_inv con" "pending con = bs" "0 \<notin> set bs"
    "bytes_at vm buf (length acc) = acc" "0 \<notin> set acc" "length acc \<le> 1023"
  shows "\<exists>vm' con'. readline_loop buf echoing (length acc) vm con = Some (Some buf, vm', con')
    \<and> cstr vm' buf line \<and> length line \<le> 1023 \<and> (\<forall>a. \<not> inblk buf 1024 a \<longrightarrow> vm' a = vm a)
    \<and> pending con' = rest \<and> ring_inv con'"
  using assms
proof (induction acc bs arbitrary: con vm rule: edit.induct)
  case (2 acc c cs)
  obtain con1 where g: "getchar con = Some (ucast c, con1)" and q: "quiet con1" "ring_inv con1" "pending con1 = cs"
    using getchar_pending [OF "2.prems"(2,3,4)] "2.prems"(5) by auto
  let ?e = "\<lambda>c. if echoing then cputchar c con1 else con1"
  have e: "quiet (?e x)" "ring_inv (?e x)" "pending (?e x) = cs" for x
    using q same_input_getc [OF same_input_cons_putc [of x con1]] by (simp_all add: cputchar_def)
  have cs: "0 \<notin> set cs" "c \<noteq> 0" using "2.prems"(5) by auto
  note L = readline_loop.simps [of buf echoing "length acc" vm con]
  show ?case
  proof (cases "(c = 8 \<or> c = 0x7F) \<and> acc \<noteq> []")
    case True
    then have "bytes_at vm buf (length (butlast acc)) = butlast acc"
      using bytes_at_take [of "length acc - 1" "length acc" vm buf] "2.prems"(6) by (simp add: butlast_conv_take)
    moreover have "0 \<notin> set (butlast acc)" using "2.prems"(7) in_set_butlastD by fast
    moreover have "edit (butlast acc) cs = Some (line, rest)" using "2.prems"(1) True by simp
    ultimately have "\<exists>vm' con'. readline_loop buf echoing (length (butlast acc)) vm (?e 8) = Some (Some buf, vm', con')
      \<and> cstr vm' buf line \<and> length line \<le> 1023 \<and> (\<forall>a. \<not> inblk buf 1024 a \<longrightarrow> vm' a = vm a)
      \<and> pending con' = rest \<and> ring_inv con'"
      using "2.prems"(8) by (intro "2.IH"(1) [OF True] e cs) auto
    then show ?thesis using True g by (simp add: L key_compare)
  next
    case nb: False
    show ?thesis
    proof (cases "0x20 \<le> c \<and> length acc < 1023")
      case True
      let ?m = "vm(buf + word_of_nat (length acc) := c)"
      have b: "bytes_at ?m buf (length (acc @ [c])) = acc @ [c]"
        using bytes_at_store [of "length acc" vm buf c] "2.prems"(6,8) by simp
      have "edit (acc @ [c]) cs = Some (line, rest)" using "2.prems"(1) True nb by auto
      then have "\<exists>vm' con'. readline_loop buf echoing (length (acc @ [c])) ?m (?e (ucast c)) = Some (Some buf, vm', con')
        \<and> cstr vm' buf line \<and> length line \<le> 1023 \<and> (\<forall>a. \<not> inblk buf 1024 a \<longrightarrow> vm' a = ?m a)
        \<and> pending con' = rest \<and> ring_inv con'"
        using "2.prems"(7,8) cs True by (intro "2.IH"(2) [OF nb True _ e _ b]) simp_all
      moreover have "inblk buf 1024 (buf + word_of_nat (length acc))"
        using True by (simp add: inblk_def unat_word_of_nat32)
      ultimately show ?thesis using True nb g by (auto simp: L key_compare BUFLEN_def)
    next
      case ni: False
      show ?thesis
      proof (cases "c = 0x0A \<or> c = 0x0D")
        case True
        have "inblk buf 1024 (buf + word_of_nat (length acc))"
          using "2.prems"(8) by (simp add: inblk_def unat_word_of_nat32)
        then have m: "\<forall>a. \<not> inblk buf 1024 a \<longrightarrow> (vm(buf + word_of_nat (length acc) := 0)) a = vm a" by auto
        have l: "line = acc" "rest = cs" using "2.prems"(1) True nb ni by (simp_all only: edit.simps if_True if_False refl option.inject prod.inject)
        have "cstr (vm(buf + word_of_nat (length acc) := 0)) buf acc" using "2.prems"(6-8) by (intro cstr_store) simp_all
        moreover have "readline_loop buf echoing (length acc) vm con =
            Some (Some buf, vm(buf + word_of_nat (length acc) := 0), ?e 0x0A)"
          using True nb ni g by (simp only: L option.case prod.case key_compare BUFLEN_def if_False if_True) auto
        ultimately show ?thesis using m l "2.prems"(8) e [of "0x0A"] by blast
      next
        case False
        then have "edit acc cs = Some (line, rest)" using "2.prems"(1) nb ni by auto
        then have "\<exists>vm' con'. readline_loop buf echoing (length acc) vm con1 = Some (Some buf, vm', con')
          \<and> cstr vm' buf line \<and> length line \<le> 1023 \<and> (\<forall>a. \<not> inblk buf 1024 a \<longrightarrow> vm' a = vm a)
          \<and> pending con' = rest \<and> ring_inv con'"
          using "2.prems"(6-8) by (intro "2.IH"(3) [OF nb ni False] q cs)
        then show ?thesis using nb ni False g by (auto simp: L key_compare BUFLEN_def)
      qed
    qed
  qed
qed simp

text \<open>What \<open>%s\<close> prints.\<close>

lemma put_str_cstr:
  "cstr m p bs \<Longrightarrow> prec < 0 \<Longrightarrow> put_str putch m p prec w False d = Some (w - int (length bs), fold (\<lambda>b. putch (sint b)) bs d)"
proof (induction bs arbitrary: p w d)
  case (Cons b bs)
  have "sint b \<noteq> 0" using Cons.prems(1) by (simp add: signed_eq_0_iff)
  then show ?case using Cons by (subst put_str.simps) (simp add: Let_def)
qed (subst put_str.simps, simp add: Let_def)

lemma print_string:
  assumes "cstr m p bs" "p \<noteq> 0"
  shows "fmt_out ''%s'' [VA_PTR m p] = Some (map sint bs)"
proof -
  have r: "reswitch ''%s'' (Suc 0) flags0 ap = Some (CHR ''s'', 2, flags0, ap)" for ap
    by (subst reswitch.simps) (simp add: fch_def isdigit_def Let_def)
  have "conv_s snoc flags0 m p [] = Some (map sint bs)"
    using assms put_str_cstr [OF assms(1), of "- 1" snoc "- 1" "[]"]
    by (simp add: conv_s_def flags0_def Let_def fold_map [symmetric, unfolded comp_def] fold_snoc)
  then show ?thesis
    unfolding fmt_out_def by (subst vprintfmt.simps) (simp add: fch_def r Let_def conv_def vprintfmt_end)
qed

lemma of_char_byte: "unat (of_char c :: u8) = of_char c"
proof -
  have "(of_char c :: nat) < 256" using of_char_mod_256 [of c, where 'a = nat] by (metis mod_less_divisor zero_less_numeral)
  then have "unat (word_of_nat (of_char c) :: u8) = of_char c" by (simp add: unat_of_nat take_bit_eq_mod)
  then show ?thesis by (simp only: of_nat_of_char)
qed

lemma of_char_inj8: "(of_char c :: u8) = of_char d \<longleftrightarrow> c = d"
  using of_char_byte [of c] of_char_byte [of d] by (metis of_char_eq_iff)

lemma of_char_0: "(of_char c :: u8) = 0 \<longleftrightarrow> c = NUL"
  using of_char_inj8 [of c NUL] by (simp add: NUL_def)

lemma str_arg_cstr:
  assumes "NUL \<notin> set str" "length str < 4294967296"
  shows "\<exists>m. str_arg str = VA_PTR m 0x1000 \<and> cstr m 0x1000 (map of_char str)"
proof -
  let ?m = "put_bytes 0x1000 (map (of_char :: char \<Rightarrow> u8) str) (\<lambda>_. 0)"
  have "\<not> inblk 0x1000 (length str) (0x1000 + word_of_nat (length str))"
    using assms(2) by (simp add: inblk_def unat_word_of_nat32)
  then have z: "?m (0x1000 + word_of_nat (length str)) = 0" using assms(2) by (simp add: put_bytes_off)
  have "0 \<notin> set (map (of_char :: char \<Rightarrow> u8) str)"
    using assms(1) by (metis (no_types, lifting) imageE list.set_map of_char_0)
  then have "cstr ?m 0x1000 (map of_char str)"
    unfolding cstr_bytes bytes_at_snoc length_map z
    using bytes_at_put [of "map (of_char :: char \<Rightarrow> u8) str" "0x1000"] assms(2) by simp
  then show ?thesis by (simp add: str_arg_def)
qed


section \<open>The parser\<close>

definition is_white :: "u8 \<Rightarrow> bool" where
  "is_white b \<longleftrightarrow> b \<in> {9, 13, 10, 32}"

text \<open>The words of a line.\<close>

function words :: "u8 list \<Rightarrow> u8 list list" where
  "words bs =
     (case dropWhile is_white bs of
        [] \<Rightarrow> []
      | b # cs \<Rightarrow> (b # takeWhile (\<lambda>c. \<not> is_white c) cs) # words (dropWhile (\<lambda>c. \<not> is_white c) cs))"
  by auto
termination
proof (relation "measure length")
  fix bs b cs assume "dropWhile is_white bs = b # cs"
  then have "length (b # cs) \<le> length bs" by (metis length_dropWhile_le)
  then show "(dropWhile (\<lambda>c. \<not> is_white c) cs, bs) \<in> measure length"
    using length_dropWhile_le [of "\<lambda>c. \<not> is_white c" cs] by simp
qed simp

declare words.simps [simp del]

lemma cstr_append: "cstr m s (xs @ ys) \<longleftrightarrow> bytes_at m s (length xs) = xs \<and> 0 \<notin> set xs \<and> cstr m (s + word_of_nat (length xs)) ys"
  by (induction xs arbitrary: s) (auto simp: add.assoc)

abbreviation wsp :: "u8 list" where "wsp \<equiv> [9, 13, 10, 32]"

lemma strchr_white: "cstr vm ws wsp \<Longrightarrow> c \<noteq> 0 \<Longrightarrow> \<exists>r. strchr vm ws c = Some r \<and> (r \<noteq> None \<longleftrightarrow> is_white c)"
  by (frule strchr_cstr [of _ _ _ c]) (auto simp: is_white_def)

lemma white_cong: "cstr vm ws wsp \<Longrightarrow> (\<And>a. inblk ws 5 a \<Longrightarrow> vm' a = vm a) \<Longrightarrow> cstr vm' ws wsp"
  by (subst cstr_cong [of ws wsp vm' vm]) (simp_all add: inblk_def)

lemma white_keep: "cstr vm ws wsp \<Longrightarrow> \<not> inblk ws 5 a \<Longrightarrow> cstr (vm(a := 0)) ws wsp"
  by (erule white_cong) auto

lemma gobble_run:
  assumes "cstr vm ws wsp" "cstr vm buf bs" "length bs < 4294967295" "\<And>a. inblk buf (length bs) a \<Longrightarrow> \<not> inblk ws 5 a"
  shows "\<exists>vm'. gobble ws buf vm = Some (buf + word_of_nat (length (takeWhile is_white bs)), vm')
    \<and> (\<forall>a. vm' a = (if inblk buf (length (takeWhile is_white bs)) a then 0 else vm a))"
  using assms
proof (induction bs arbitrary: buf vm)
  case Nil
  then show ?case by (subst gobble.simps) simp
next
  case (Cons b bs)
  then have b: "vm buf = b" "b \<noteq> 0" by auto
  obtain r where r: "strchr vm ws b = Some r" "r \<noteq> None \<longleftrightarrow> is_white b" using strchr_white [OF Cons.prems(1) b(2)] by blast
  show ?case
  proof (cases "is_white b")
    case False
    then show ?thesis using r b by (subst gobble.simps) auto
  next
    case True
    have i: "\<not> inblk ws 5 a" if "inblk (buf + 1) (length bs) a \<or> a = buf" for a
      using Cons.prems(3,4) that by (auto simp: inblk_Suc)
    have "cstr (vm(buf := 0)) (buf + 1) bs = cstr vm (buf + 1) bs"
      using Cons.prems(3) not_inblk_next [of "Suc (length bs)" buf] by (intro cstr_cong) auto
    then have c: "cstr (vm(buf := 0)) (buf + 1) bs" using Cons.prems(2) by simp
    obtain vm' where v: "gobble ws (buf + 1) (vm(buf := 0)) = Some (buf + 1 + word_of_nat (length (takeWhile is_white bs)), vm')"
      "\<And>a. vm' a = (if inblk (buf + 1) (length (takeWhile is_white bs)) a then 0 else (vm(buf := 0)) a)"
      using Cons.IH [OF white_keep [OF Cons.prems(1)] c] i Cons.prems(3) by (metis Suc_lessD length_Cons)
    have l: "Suc (length (takeWhile is_white bs)) \<le> 4294967296"
      using Cons.prems(3) length_takeWhile_le [of is_white bs] by simp
    show ?thesis using v r b True l by (subst gobble.simps) (auto simp: inblk_Suc add.assoc)
  qed
qed

lemma scan_run:
  assumes "cstr vm ws wsp" "cstr vm buf bs"
  shows "scan_arg ws buf vm = Some (buf + word_of_nat (length (takeWhile (\<lambda>c. \<not> is_white c) bs)))"
  using assms(2)
proof (induction bs arbitrary: buf)
  case Nil
  then show ?case by (subst scan_arg.simps) simp
next
  case (Cons b bs)
  then obtain r where r: "strchr vm ws b = Some r" "r \<noteq> None \<longleftrightarrow> is_white b" using strchr_white [OF assms(1), of b] by (metis cstr.simps(2))
  show ?case using Cons r by (subst scan_arg.simps) (auto simp: add.assoc)
qed

lemma inblk_shift:
  assumes "n + k \<le> 4294967296" "inblk (s + word_of_nat n) k a"
  shows "\<not> inblk s n a" "inblk s (n + k) a"
proof -
  obtain i where i: "i < k" "a = s + word_of_nat n + word_of_nat i" using assms inblk_iff [of k "s + word_of_nat n" a] by auto
  then have "unat (a - s) = n + i" using assms(1) unat_word_of_nat32 [of "n + i"] by (simp add: add.assoc flip: of_nat_add)
  then show "\<not> inblk s n a" "inblk s (n + k) a" using i(1) by (simp_all add: inblk_def)
qed

lemma inblk_mono: "inblk s n a \<Longrightarrow> n \<le> k \<Longrightarrow> inblk s k a"
  by (simp add: inblk_def)

lemma inblk_self: "0 < n \<Longrightarrow> inblk s n s"
  by (simp add: inblk_def)

text \<open>
  The parser on the rest of a line: it appends the words to \<open>argv\<close>, writes only in the rest, and
  terminates the word before it.
\<close>

definition parsed :: "u32 \<Rightarrow> u32 list \<Rightarrow> u8 list \<Rightarrow> mem \<Rightarrow> u32 list option \<Rightarrow> mem \<Rightarrow> bool" where
  "parsed buf argv bs vm av vm' \<longleftrightarrow>
     (if length argv + length (words bs) \<le> 15
       then \<exists>new. av = Some (argv @ new) \<and> length new = length (words bs)
          \<and> (\<forall>i < length new. cstr vm' (new ! i) (words bs ! i))
       else av = None)
    \<and> (\<forall>a. \<not> inblk buf (length bs) a \<longrightarrow> vm' a = vm a)
    \<and> (bs = [] \<or> is_white (hd bs) \<longrightarrow> vm' buf = 0)"

lemma words_Nil: "dropWhile is_white bs = [] \<Longrightarrow> words bs = []"
  by (subst words.simps) (simp only: list.case)

lemma words_Cons: "dropWhile is_white bs = b # cs \<Longrightarrow>
    words bs = (b # takeWhile (\<lambda>c. \<not> is_white c) cs) # words (dropWhile (\<lambda>c. \<not> is_white c) cs)"
  by (subst words.simps) simp

lemma parsed_word:
  assumes dw: "dropWhile is_white bs = b # cs"
    and tw: "tw = takeWhile (\<lambda>c. \<not> is_white c) cs" and dn: "rest = dropWhile (\<lambda>c. \<not> is_white c) cs"
    and p: "p = buf + word_of_nat (length (takeWhile is_white bs))" and len: "length bs < 4294967295"
    and c: "cstr vm1 p (b # cs)"
    and v1: "\<And>a. vm1 a = (if inblk buf (length (takeWhile is_white bs)) a then 0 else vm a)"
    and P: "parsed (p + word_of_nat (length (b # tw))) (argv @ [p]) rest vm1 av vm'"
  shows "parsed buf argv bs vm av vm'"
proof -
  let ?sp = "takeWhile is_white bs" and ?q = "p + word_of_nat (length (b # tw))"
  let ?n = "length ?sp + length (b # tw)"
  have bs: "bs = ?sp @ (b # tw) @ rest" using dw tw dn by (metis append_Cons takeWhile_dropWhile_id)
  have l: "length bs = ?n + length rest" by (subst bs) simp
  have q: "?q = buf + word_of_nat ?n" by (simp only: p of_nat_add add.assoc)
  have out: "vm' a = vm1 a" if "\<not> inblk ?q (length rest) a" for a using P that by (simp add: parsed_def)
  have "cstr vm1 p ((b # tw) @ rest)" using c tw dn by simp
  then have bt: "bytes_at vm1 p (length (b # tw)) = b # tw" "0 \<notin> set (b # tw)"
    unfolding cstr_append by blast+
  have "\<not> inblk ?q (length rest) a" if "inblk p (length (b # tw)) a" for a
    using inblk_shift(1) [of "length (b # tw)" "length rest" p a] that l len by auto
  then have "bytes_at vm' p (length (b # tw)) = b # tw"
    using bytes_at_cong [of p "length (b # tw)" vm' vm1] out bt(1) l len by simp
  moreover have "vm' ?q = 0"
    using P hd_dropWhile [of "\<lambda>c. \<not> is_white c" cs] dn by (auto simp: parsed_def)
  ultimately have w: "cstr vm' p (b # tw)"
    unfolding cstr_bytes bytes_at_snoc using bt(2) by simp
  have "vm' a = vm a" if "\<not> inblk buf (length bs) a" for a
  proof -
    have "\<not> inblk ?q (length rest) a" unfolding q using inblk_shift(2) [of ?n "length rest" buf a] that l len by auto
    moreover have "\<not> inblk buf (length ?sp) a" using that l inblk_mono by fastforce
    ultimately show ?thesis using out v1 by simp
  qed
  moreover have "vm' buf = 0" if "is_white (hd bs)"
  proof -
    have "bs \<noteq> []" using dw by auto
    then have "0 < length ?sp" using that by (cases bs) auto
    then have "inblk buf (length ?sp) buf" "inblk buf ?n buf" by (simp_all add: inblk_self)
    then have "\<not> inblk ?q (length rest) buf" unfolding q using inblk_shift(1) [of ?n "length rest" buf buf] l len by auto
    then show ?thesis using out v1 \<open>inblk buf (length ?sp) buf\<close> by simp
  qed
  moreover have "if length argv + length (words bs) \<le> 15
       then \<exists>new. av = Some (argv @ new) \<and> length new = length (words bs)
          \<and> (\<forall>i < length new. cstr vm' (new ! i) (words bs ! i))
       else av = None"
  proof (cases "length argv + length (words bs) \<le> 15")
    case True
    then obtain new where "av = Some (argv @ p # new)" "length new = length (words rest)"
      "\<forall>i < length new. cstr vm' (new ! i) (words rest ! i)"
      using P unfolding words_Cons [OF dw] tw [symmetric] dn [symmetric] by (auto simp: parsed_def)
    then show ?thesis
      using True w unfolding words_Cons [OF dw] tw [symmetric] dn [symmetric]
      by (auto intro!: exI [of _ "p # new"] simp: nth_Cons split: nat.split)
  next
    case False
    then show ?thesis using P unfolding words_Cons [OF dw] tw [symmetric] dn [symmetric] by (simp add: parsed_def)
  qed
  moreover have "bs \<noteq> []" using dw by auto
  ultimately show ?thesis by (simp add: parsed_def)
qed

lemma parse_run:
  assumes "cstr vm ws wsp" "cstr vm buf bs" "length bs < 4294967295" "\<And>a. inblk buf (length bs) a \<Longrightarrow> \<not> inblk ws 5 a"
    "length argv \<le> 15"
  shows "\<exists>av vm'. parse_args ws buf argv vm = Some (av, vm') \<and> parsed buf argv bs vm av vm'"
  using assms
proof (induction bs arbitrary: buf argv vm rule: words.induct)
  case (1 bs)
  let ?sp = "takeWhile is_white bs"
  let ?b = "buf + word_of_nat (length ?sp)"
  obtain vm1 where g: "gobble ws buf vm = Some (?b, vm1)"
    and v1: "\<And>a. vm1 a = (if inblk buf (length ?sp) a then 0 else vm a)"
    using gobble_run [OF "1.prems"(1-4)] by blast
  have len: "length bs = length ?sp + length (dropWhile is_white bs)"
    by (metis length_append takeWhile_dropWhile_id)
  have "vm1 a = vm a" if "inblk ?b (Suc (length (dropWhile is_white bs))) a" for a
    using inblk_shift(1) [of "length ?sp" "Suc (length (dropWhile is_white bs))" buf a] that len "1.prems"(3) v1 by auto
  then have "cstr vm1 ?b (dropWhile is_white bs) = cstr vm ?b (dropWhile is_white bs)"
    using len "1.prems"(3) by (intro cstr_cong) auto
  then have c1: "cstr vm1 ?b (dropWhile is_white bs)"
    using "1.prems"(2) cstr_append [of vm buf ?sp "dropWhile is_white bs"] by simp
  have "vm1 a = vm a" if "inblk ws 5 a" for a
    using "1.prems"(4) [of a] that v1 inblk_mono [of buf "length ?sp" a "length bs"] len by auto
  then have w1: "cstr vm1 ws wsp" using "1.prems"(1) by (rule white_cong [rotated])
  show ?case
  proof (cases "dropWhile is_white bs")
    case Nil
    then have "parsed buf argv bs vm (Some argv) vm1"
      using c1 v1 len "1.prems"(2,5) inblk_self [of "length ?sp" buf]
      by (cases bs) (auto simp: parsed_def words_Nil)
    then show ?thesis using g c1 Nil by (subst parse_args.simps) simp
  next
    case (Cons b cs)
    then have b: "vm1 ?b = b" "b \<noteq> 0" "\<not> is_white b" using c1 hd_dropWhile [of is_white bs] by auto
    let ?tw = "takeWhile (\<lambda>c. \<not> is_white c) cs" and ?rest = "dropWhile (\<lambda>c. \<not> is_white c) cs"
    show ?thesis
    proof (cases "length argv = 15")
      case True
      have "vm1 a = vm a" if "\<not> inblk buf (length bs) a" for a
        using that v1 inblk_mono [of buf "length ?sp" a "length bs"] len by auto
      moreover have "vm1 buf = 0" if "is_white (hd bs)"
        using that v1 inblk_self [of "length ?sp" buf] Cons by (cases bs) auto
      moreover have "bs \<noteq> []" using Cons by auto
      ultimately have "parsed buf argv bs vm None vm1" using True by (simp add: parsed_def words_Cons [OF Cons])
      then show ?thesis using True g b by (subst parse_args.simps) (auto simp: MAXARGS_def)
    next
      case False
      let ?q = "?b + word_of_nat (length (b # ?tw))"
      have s: "scan_arg ws ?b vm1 = Some ?q" using scan_run [OF w1 c1] Cons b(3) by simp
      have cs: "cstr vm1 ?b ((b # ?tw) @ ?rest)" using c1 Cons by simp
      then have c2: "cstr vm1 ?q ?rest" by (simp only: cstr_append)
      have l: "length bs = (length ?sp + length (b # ?tw)) + length ?rest"
        using len Cons by (metis append_Cons length_append takeWhile_dropWhile_id add.assoc)
      have q: "?q = buf + word_of_nat (length ?sp + length (b # ?tw))" by (simp only: of_nat_add add.assoc)
      have "\<not> inblk ws 5 a" if "inblk ?q (length ?rest) a" for a
        using inblk_shift(2) [of "length ?sp + length (b # ?tw)" "length ?rest" buf a, folded q l, OF _ that] "1.prems"(3,4)
        by simp
      then obtain av vm' where "parse_args ws ?q (argv @ [?b]) vm1 = Some (av, vm')"
        and P: "parsed ?q (argv @ [?b]) ?rest vm1 av vm'"
        using "1.IH" [OF Cons w1 c2, of "argv @ [?b]"] False "1.prems"(3,5) l by auto
      moreover have "parsed buf argv bs vm av vm'"
        using c1 Cons by (intro parsed_word [OF Cons refl refl refl "1.prems"(3) _ v1 P]) simp
      ultimately show ?thesis using g b False s by (subst parse_args.simps) (auto simp: MAXARGS_def)
    qed
  qed
qed

lemma lookup_run:
  assumes "cstr vm arg w" "\<forall>j < length cs. cstr vm (name_at mi (i + j)) (map of_char (fst (cs ! j)))"
  shows "lookup_command mi vm arg cs i = Some (map_option (\<lambda>c. snd (snd c)) (find (\<lambda>c. map of_char (fst c) = w) cs))"
  using assms(2)
proof (induction cs arbitrary: i)
  case (Cons c cs)
  have "cstr vm (name_at mi i) (map of_char (fst c))" using Cons.prems [rule_format, of 0] by simp
  then obtain r where r: "strcmp vm arg (name_at mi i) = Some r" "r = 0 \<longleftrightarrow> w = map of_char (fst c)"
    using strcmp_cstr [OF assms(1)] by blast
  have "\<forall>j < length cs. cstr vm (name_at mi (i + 1 + j)) (map of_char (fst (cs ! j)))"
    using Cons.prems by (auto dest: spec [of _ "Suc _"])
  then show ?case using Cons.IH [of "i + 1"] r by auto
qed simp

text \<open>The literals of the monitor are where the linker put them, outside the line buffer.\<close>

definition literals_ok :: "monimg \<Rightarrow> mem \<Rightarrow> u32 \<Rightarrow> nat \<Rightarrow> bool" where
  "literals_ok mi vm buf n \<longleftrightarrow>
     cstr vm (white_at mi) wsp \<and> (\<forall>a. inblk buf n a \<longrightarrow> \<not> inblk (white_at mi) 5 a) \<and>
     (\<forall>j < length commands. cstr vm (name_at mi j) (map of_char (fst (commands ! j)))
        \<and> (\<forall>a. inblk buf n a \<longrightarrow> \<not> inblk (name_at mi j) (Suc (length (fst (commands ! j)))) a))"

lemma names_short: "j < length commands \<Longrightarrow> length (fst (commands ! j)) \<le> 9"
  by (auto simp: commands_def less_Suc_eq nth_Cons split: nat.splits)

text \<open>
  C38: \<open>runcmd\<close> splits the line into its words and acts on them: no word, nothing happens; more than
  15 words, it refuses; otherwise \<open>argv\<close> points to the words, as separate C strings, and the command
  whose name is the first word is run, if there is one.
\<close>

theorem runcmd_correct:
  assumes c: "cstr vm buf line" and l: "length line < 1024" and L: "literals_ok mi vm buf (length line)"
  shows "\<exists>argv vm'. (length (words line) \<le> 15 \<longrightarrow> length argv = length (words line) \<and> (\<forall>i < length argv. cstr vm' (argv ! i) (words line ! i)))
    \<and> runcmd mi ebp buf vm s =
       (if words line = [] then Ret (0, vm') s
        else if 15 < length (words line)
        then kbind (kprintf (''Too many arguments (max %d)'' @ nl) [VA_INT 16] s) (\<lambda>_ s. Ret (0, vm') s)
        else case find (\<lambda>c. map of_char (fst c) = hd (words line)) commands of
          Some c \<Rightarrow> kbind (run_command mi vm' ebp (snd (snd c)) s) (\<lambda>r s. Ret (r, vm') s)
        | None \<Rightarrow> kbind (kprintf (''Unknown command ''@ [CHR 0x27] @ ''%s'' @ [CHR 0x27] @ nl) [VA_PTR vm' (hd argv)] s) (\<lambda>_ s. Ret (0, vm') s))"
proof -
  have W: "cstr vm (white_at mi) wsp" "\<And>a. inblk buf (length line) a \<Longrightarrow> \<not> inblk (white_at mi) 5 a"
    using L by (auto simp: literals_ok_def)
  obtain av vm' where p: "parse_args (white_at mi) buf [] vm = Some (av, vm')" and P: "parsed buf [] line vm av vm'"
    using parse_run [OF W(1) c _ W(2), of "[]"] l by auto
  have N: "cstr vm' (name_at mi (0 + j)) (map of_char (fst (commands ! j)))" if "j < length commands" for j
  proof -
    have "cstr vm' (name_at mi j) (map of_char (fst (commands ! j))) = cstr vm (name_at mi j) (map of_char (fst (commands ! j)))"
      using P L that names_short [OF that] by (intro cstr_cong) (auto simp: parsed_def literals_ok_def)
    then show ?thesis using L that by (simp add: literals_ok_def)
  qed
  show ?thesis
  proof (cases "length (words line) \<le> 15")
    case False
    then have "av = None" "words line \<noteq> []" using P by (auto simp: parsed_def)
    then show ?thesis using False p by (auto simp: runcmd_def)
  next
    case True
    then obtain argv where av: "av = Some argv" "length argv = length (words line)"
      "\<forall>i < length argv. cstr vm' (argv ! i) (words line ! i)"
      using P by (auto simp: parsed_def)
    show ?thesis
    proof (cases "words line = []")
      case True
      then show ?thesis using p av by (auto simp: runcmd_def)
    next
      case False
      then have ne: "argv \<noteq> []" using av(2) by auto
      then have "cstr vm' (hd argv) (hd (words line))" using av(2,3) False by (simp add: hd_conv_nth)
      then have "lookup_command mi vm' (hd argv) commands 0 =
          Some (map_option (\<lambda>c. snd (snd c)) (find (\<lambda>c. map of_char (fst c) = hd (words line)) commands))"
        using lookup_run N by blast
      then show ?thesis
        using True False p av ne
        by (intro exI [of _ argv] exI [of _ vm']) (simp add: runcmd_def split: option.split)
    qed
  qed
qed

section \<open>Witnesses\<close>

text \<open>The keys \<open>ab\<close>, backspace, newline and a key typed ahead.\<close>

definition con_keys :: console where
  "con_keys = con0\<lparr>cons_buf := (\<lambda>i. [97, 98, 8, 10, 120] ! i), rpos := 0, wpos := 5, serial_in := []\<rparr>"


definition mi0 :: monimg where
  "mi0 = \<lparr>img = \<lparr>handler_at = (\<lambda>_. 0), cpu_ts_at = (\<lambda>_. 0), tf_at = (\<lambda>_. 0)\<rparr>,
     dbg = \<lparr>kernel_stabs = \<lparr>usd_stabs = 0, usd_stab_end = 0, usd_stabstr = 0, usd_stabstr_end = 0\<rparr>, unknown_at = 0x4000\<rparr>,
     line_at = 0x2000, white_at = 0x3000, name_at = (\<lambda>j. 0x3100 + 0x20 * word_of_nat j),
     sym_start = 0x100000, sym_entry = 0xF0100000, sym_etext = 0xF0104000, sym_edata = 0xF0110000, sym_end = 0xF0120000\<rparr>"

definition vm0 :: mem where
  "vm0 = put_bytes 0x2000 (map of_char '' help'')
     (put_bytes 0x3000 wsp (put_bytes 0x3100 (map of_char ''help'')
       (put_bytes 0x3120 (map of_char ''kerninfo'') (put_bytes 0x3140 (map of_char ''backtrace'') (\<lambda>_. 0)))))"

lemma vm0_strings:
  "cstr vm0 0x2000 (map of_char '' help'')" "cstr vm0 0x3000 wsp" "cstr vm0 0x3100 (map of_char ''help'')"
  "cstr vm0 0x3120 (map of_char ''kerninfo'')" "cstr vm0 0x3140 (map of_char ''backtrace'')"
  by (simp_all add: vm0_def)

lemma line_apart: "inblk 0x2000 5 a \<Longrightarrow> n \<le> 16 \<Longrightarrow> q \<in> {0x3000, 0x3100, 0x3120, 0x3140} \<Longrightarrow> \<not> inblk q n a"
proof -
  assume "inblk 0x2000 5 a" "n \<le> 16" "q \<in> {0x3000, 0x3100, 0x3120, 0x3140}"
  moreover from this have "a \<in> {0x2000, 0x2001, 0x2002, 0x2003, 0x2004}"
  proof -
    obtain i :: nat where "i < 5" "a = 0x2000 + word_of_nat i" using \<open>inblk 0x2000 5 a\<close> inblk_iff [of 5 "0x2000" a] by auto
    moreover from this(1) have "i \<in> {0, 1, 2, 3, 4}" by auto
    ultimately show ?thesis by auto
  qed
  ultimately show ?thesis by (auto simp: inblk_def)
qed

lemma literals_ok_vm0: "literals_ok mi0 vm0 0x2000 5"
proof -
  have j: "j = 0 \<or> j = 1 \<or> j = 2" if "j < length commands" for j using that by (auto simp: commands_def)
  have "cstr vm0 (name_at mi0 j) (map of_char (fst (commands ! j)))
      \<and> (\<forall>a. inblk 0x2000 5 a \<longrightarrow> \<not> inblk (name_at mi0 j) (Suc (length (fst (commands ! j)))) a)"
    if "j < length commands" for j
    using j [OF that] vm0_strings(3,4,5) line_apart
    by (elim disjE) (simp_all add: mi0_def commands_def numeral_2_eq_2)
  then show ?thesis
    using vm0_strings(2) line_apart unfolding literals_ok_def by (simp add: mi0_def)
qed

theorem runcmd_correct_witness: "\<exists>vm. runcmd mi0 0 0x2000 vm0 ks0 = kbind (mon_help ks0) (\<lambda>r s. Ret (r, vm) s)"
proof -
  have w: "words (map of_char '' help'') = [map of_char ''help'']"
    by (simp add: words.simps is_white_def)
  have l: "length (map (of_char :: char \<Rightarrow> u8) '' help'') < 1024" "length (map (of_char :: char \<Rightarrow> u8) '' help'') = 5" by simp_all
  from runcmd_correct [OF vm0_strings(1) l(1), unfolded l(2), OF literals_ok_vm0, of 0 ks0]
  show ?thesis
    unfolding w by (auto simp: commands_def run_command_def)
qed

end
