(* ===== verification/XBuf.thy ===== *)
theory XBuf
  imports Prelude
begin

text \<open>
  The buffer cache of xv6 (xv6-public/bio.c, buf.h, sleeplock.c) with the disk below it (ide.c).

  The model follows one process: it runs to the end of an operation, or sleeps when a sleep lock is
  held. The spin locks that make the operations atomic for other processors are not part of the
  state. The disks (one bit of the device number selects one) are a function from addresses to blocks;
  they transfer without error and interrupt after every request. A write is stored when the request is
  started; every write is recorded in \<open>dlog\<close>, because the order of the writes is what a crash
  exposes. Buffers are numbered; number NBUF is \<open>bcache.head\<close>. The scans of the list of buffers are loops along pointers:
  \<open>Hang\<close> stands for one that never comes back to the head.
\<close>

section \<open>State\<close>

type_synonym block = "nat \<Rightarrow> u8"

record sleeplock =
  sl_locked :: bool
  sl_pid :: int

record buf =
  b_flags :: u32
  b_dev :: u32
  b_blockno :: u32
  b_lock :: sleeplock
  b_refcnt :: u32
  b_prev :: nat
  b_next :: nat
  b_data :: block

definition B_VALID :: u32 where "B_VALID = 2"
definition B_DIRTY :: u32 where "B_DIRTY = 4"
definition NBUF :: nat where "NBUF = 30"
definition FSSIZE :: u32 where "FSSIZE = 1000"
definition BSIZE :: nat where "BSIZE = 512"

record xstate =
  bufs :: "nat \<Rightarrow> buf"
  disk :: "u32 \<times> u32 \<Rightarrow> block"
  dlog :: "((u32 \<times> u32) \<times> block) list"
  havedisk1 :: bool
  idequeue :: "nat list"
  curpid :: int

datatype ('a, 's) sres = Done 'a 's | Panicked string 's | Sleeping 's | Hang

type_synonym 'a xres = "('a, xstate) sres"

primrec xbind :: "('a, 's) sres \<Rightarrow> ('a \<Rightarrow> 's \<Rightarrow> ('b, 's) sres) \<Rightarrow> ('b, 's) sres" where
  "xbind (Done x s) f = f x s"
| "xbind (Panicked msg s) f = Panicked msg s"
| "xbind (Sleeping s) f = Sleeping s"
| "xbind Hang f = Hang"

lemma xbind_Done: "xbind m f = Done y s' \<longleftrightarrow> (\<exists>x s. m = Done x s \<and> f x s = Done y s')"
  by (cases m) auto

definition upd_buf :: "nat \<Rightarrow> (buf \<Rightarrow> buf) \<Rightarrow> xstate \<Rightarrow> xstate" where
  "upd_buf b f s = s\<lparr>bufs := (bufs s)(b := f (bufs s b))\<rparr>"

section \<open>Sleep locks\<close>

definition initsleeplock :: "sleeplock \<Rightarrow> sleeplock" where
  "initsleeplock lk = lk\<lparr>sl_locked := False, sl_pid := 0\<rparr>"

definition acquiresleep :: "nat \<Rightarrow> xstate \<Rightarrow> unit xres" where
  "acquiresleep b s =
     (if sl_locked (b_lock (bufs s b)) then Sleeping s
      else Done () (upd_buf b (\<lambda>v. v\<lparr>b_lock := \<lparr>sl_locked = True, sl_pid = curpid s\<rparr>\<rparr>) s))"

definition releasesleep :: "nat \<Rightarrow> xstate \<Rightarrow> xstate" where
  "releasesleep b s = upd_buf b (\<lambda>v. v\<lparr>b_lock := \<lparr>sl_locked = False, sl_pid = 0\<rparr>\<rparr>) s"

definition holdingsleep :: "nat \<Rightarrow> xstate \<Rightarrow> bool" where
  "holdingsleep b s \<longleftrightarrow> sl_locked (b_lock (bufs s b)) \<and> sl_pid (b_lock (bufs s b)) = curpid s"

section \<open>The disk\<close>

definition idestart :: "nat \<Rightarrow> xstate \<Rightarrow> unit xres" where
  "idestart b s =
     (let v = bufs s b; a = (b_dev v AND 1, b_blockno v)
      in if FSSIZE \<le> b_blockno v then Panicked ''incorrect blockno'' s
         else if nz (b_flags v AND B_DIRTY)
         then Done () (s\<lparr>disk := (disk s)(a := b_data v), dlog := dlog s @ [(a, b_data v)]\<rparr>)
         else Done () s)"

text \<open>The effect of an interrupt on the request that was active.\<close>

definition idedone :: "nat \<Rightarrow> xstate \<Rightarrow> xstate" where
  "idedone b s =
     (let v = bufs s b;
          s = (if nz (b_flags v AND B_DIRTY) then s
               else upd_buf b (\<lambda>v. v\<lparr>b_data := disk s (b_dev v AND 1, b_blockno v)\<rparr>) s);
          s = upd_buf b (\<lambda>v. v\<lparr>b_flags := b_flags v OR B_VALID\<rparr>) s
      in upd_buf b (\<lambda>v. v\<lparr>b_flags := b_flags v AND NOT B_DIRTY\<rparr>) s)"

definition ideintr :: "xstate \<Rightarrow> unit xres" where
  "ideintr s =
     (case idequeue s of
        [] \<Rightarrow> Done () s
      | b # q \<Rightarrow>
          let s = idedone b (s\<lparr>idequeue := q\<rparr>)
          in if q \<noteq> [] then idestart (hd q) s else Done () s)"

definition synced :: "nat \<Rightarrow> xstate \<Rightarrow> bool" where
  "synced b s \<longleftrightarrow> (b_flags (bufs s b) AND (B_VALID OR B_DIRTY)) = B_VALID"

text \<open>
  Sleeping until the request is finished: the interrupts that come meanwhile, at most one for every
  request in the queue.
\<close>

primrec ide_wait :: "nat \<Rightarrow> nat \<Rightarrow> xstate \<Rightarrow> unit xres" where
  "ide_wait 0 b s = (if synced b s then Done () s else Sleeping s)"
| "ide_wait (Suc n) b s = (if synced b s then Done () s else xbind (ideintr s) (\<lambda>_ s. ide_wait n b s))"

definition iderw :: "nat \<Rightarrow> xstate \<Rightarrow> unit xres" where
  "iderw b s =
     (if \<not> holdingsleep b s then Panicked ''iderw: buf not locked'' s
      else if synced b s then Panicked ''iderw: nothing to do'' s
      else if b_dev (bufs s b) \<noteq> 0 \<and> \<not> havedisk1 s then Panicked ''iderw: ide disk 1 not present'' s
      else let s = s\<lparr>idequeue := idequeue s @ [b]\<rparr>
           in xbind (if hd (idequeue s) = b then idestart b s else Done () s)
                (\<lambda>_ s. ide_wait (length (idequeue s)) b s))"

section \<open>Buffers\<close>

text \<open>The loop of \<open>binit\<close>, over the buffers from \<open>b\<close> on.\<close>

definition binit_step :: "nat \<Rightarrow> xstate \<Rightarrow> xstate" where
  "binit_step b s =
     (let s = upd_buf b (\<lambda>v. v\<lparr>b_next := b_next (bufs s NBUF)\<rparr>) s;
          s = upd_buf b (\<lambda>v. v\<lparr>b_prev := NBUF\<rparr>) s;
          s = upd_buf b (\<lambda>v. v\<lparr>b_lock := initsleeplock (b_lock v)\<rparr>) s;
          s = upd_buf (b_next (bufs s NBUF)) (\<lambda>v. v\<lparr>b_prev := b\<rparr>) s
      in upd_buf NBUF (\<lambda>v. v\<lparr>b_next := b\<rparr>) s)"

definition binit :: "xstate \<Rightarrow> xstate" where
  "binit s =
     (let s = upd_buf NBUF (\<lambda>v. v\<lparr>b_prev := NBUF\<rparr>) s;
          s = upd_buf NBUF (\<lambda>v. v\<lparr>b_next := NBUF\<rparr>) s
      in fold binit_step [0..<NBUF] s)"

partial_function (option) find_cached :: "u32 \<Rightarrow> u32 \<Rightarrow> xstate \<Rightarrow> nat \<Rightarrow> nat option option" where
  "find_cached dev blockno s b =
     (if b = NBUF then Some None
      else if b_dev (bufs s b) = dev \<and> b_blockno (bufs s b) = blockno then Some (Some b)
      else find_cached dev blockno s (b_next (bufs s b)))"

partial_function (option) find_unused :: "xstate \<Rightarrow> nat \<Rightarrow> nat option option" where
  "find_unused s b =
     (if b = NBUF then Some None
      else if b_refcnt (bufs s b) = 0 \<and> (b_flags (bufs s b) AND B_DIRTY) = 0 then Some (Some b)
      else find_unused s (b_prev (bufs s b)))"

definition bget :: "u32 \<Rightarrow> u32 \<Rightarrow> xstate \<Rightarrow> nat xres" where
  "bget dev blockno s =
     (case find_cached dev blockno s (b_next (bufs s NBUF)) of
        None \<Rightarrow> Hang
      | Some (Some b) \<Rightarrow>
          xbind (acquiresleep b (upd_buf b (\<lambda>v. v\<lparr>b_refcnt := b_refcnt v + 1\<rparr>) s)) (\<lambda>_ s. Done b s)
      | Some None \<Rightarrow>
          (case find_unused s (b_prev (bufs s NBUF)) of
             None \<Rightarrow> Hang
           | Some (Some b) \<Rightarrow>
               xbind (acquiresleep b (upd_buf b (\<lambda>v. v\<lparr>b_dev := dev, b_blockno := blockno, b_flags := 0, b_refcnt := 1\<rparr>) s))
                 (\<lambda>_ s. Done b s)
           | Some None \<Rightarrow> Panicked ''bget: no buffers'' s))"

definition bread :: "u32 \<Rightarrow> u32 \<Rightarrow> xstate \<Rightarrow> nat xres" where
  "bread dev blockno s =
     xbind (bget dev blockno s) (\<lambda>b s.
       if (b_flags (bufs s b) AND B_VALID) = 0 then xbind (iderw b s) (\<lambda>_ s. Done b s)
       else Done b s)"

definition bwrite :: "nat \<Rightarrow> xstate \<Rightarrow> unit xres" where
  "bwrite b s =
     (if \<not> holdingsleep b s then Panicked ''bwrite'' s
      else iderw b (upd_buf b (\<lambda>v. v\<lparr>b_flags := b_flags v OR B_DIRTY\<rparr>) s))"

text \<open>The pointer updates of \<open>brelse\<close>.\<close>

definition to_front :: "nat \<Rightarrow> xstate \<Rightarrow> xstate" where
  "to_front b s =
     (let s = upd_buf (b_next (bufs s b)) (\<lambda>v. v\<lparr>b_prev := b_prev (bufs s b)\<rparr>) s;
          s = upd_buf (b_prev (bufs s b)) (\<lambda>v. v\<lparr>b_next := b_next (bufs s b)\<rparr>) s;
          s = upd_buf b (\<lambda>v. v\<lparr>b_next := b_next (bufs s NBUF)\<rparr>) s;
          s = upd_buf b (\<lambda>v. v\<lparr>b_prev := NBUF\<rparr>) s;
          s = upd_buf (b_next (bufs s NBUF)) (\<lambda>v. v\<lparr>b_prev := b\<rparr>) s
      in upd_buf NBUF (\<lambda>v. v\<lparr>b_next := b\<rparr>) s)"

definition brelse :: "nat \<Rightarrow> xstate \<Rightarrow> unit xres" where
  "brelse b s =
     (if \<not> holdingsleep b s then Panicked ''brelse'' s
      else let s = releasesleep b s;
               s = upd_buf b (\<lambda>v. v\<lparr>b_refcnt := b_refcnt v - 1\<rparr>) s
           in Done () (if b_refcnt (bufs s b) = 0 then to_front b s else s))"

section \<open>The list of buffers\<close>

text \<open>A doubly linked segment from \<open>x\<close> to \<open>z\<close> over the buffers between them.\<close>

primrec chain :: "xstate \<Rightarrow> nat \<Rightarrow> nat list \<Rightarrow> nat \<Rightarrow> bool" where
  "chain s x [] z \<longleftrightarrow> b_next (bufs s x) = z \<and> b_prev (bufs s z) = x"
| "chain s x (y # ys) z \<longleftrightarrow> b_next (bufs s x) = y \<and> b_prev (bufs s y) = x \<and> chain s y ys z"

definition mru :: "xstate \<Rightarrow> nat list \<Rightarrow> bool" where
  "mru s ls \<longleftrightarrow> chain s NBUF ls NBUF \<and> distinct ls \<and> set ls = {..<NBUF}"

lemma chain_append: "chain s x (xs @ b # ys) z \<longleftrightarrow> chain s x xs b \<and> chain s b ys z"
  by (induction xs arbitrary: x) auto

lemma chain_cong:
  "(\<And>v. v \<in> set (x # ys) \<Longrightarrow> b_next (bufs t v) = b_next (bufs s v)) \<Longrightarrow>
   (\<And>v. v \<in> set (ys @ [z]) \<Longrightarrow> b_prev (bufs t v) = b_prev (bufs s v)) \<Longrightarrow> chain t x ys z = chain s x ys z"
  by (induction ys arbitrary: x) auto

lemma find_cached_run:
  "chain s x ys NBUF \<Longrightarrow> NBUF \<notin> set ys \<Longrightarrow>
   find_cached dev blockno s (b_next (bufs s x)) =
     Some (find (\<lambda>b. b_dev (bufs s b) = dev \<and> b_blockno (bufs s b) = blockno) ys)"
proof (induction ys arbitrary: x)
  case Nil
  then show ?case by (subst find_cached.simps) simp
next
  case (Cons y ys)
  then show ?case by (subst find_cached.simps) auto
qed

lemma find_unused_run:
  "chain s NBUF ys z \<Longrightarrow> NBUF \<notin> set ys \<Longrightarrow>
   find_unused s (b_prev (bufs s z)) =
     Some (find (\<lambda>b. b_refcnt (bufs s b) = 0 \<and> (b_flags (bufs s b) AND B_DIRTY) = 0) (rev ys))"
proof (induction ys arbitrary: z rule: rev_induct)
  case Nil
  then show ?case by (subst find_unused.simps) simp
next
  case (snoc y ys)
  then have "b_prev (bufs s z) = y" "y \<noteq> NBUF" "chain s NBUF ys y" using chain_append [of s NBUF ys y "[]" z] by auto
  then show ?case using snoc by (subst find_unused.simps) auto
qed

text \<open>Moving a buffer to the front.\<close>

lemma bufs_upd [simp]: "bufs (upd_buf b f s) c = (if c = b then f (bufs s b) else bufs s c)"
  by (simp add: upd_buf_def)

lemma upd_buf_rest [simp]:
  "disk (upd_buf b f s) = disk s" "dlog (upd_buf b f s) = dlog s" "havedisk1 (upd_buf b f s) = havedisk1 s"
  "curpid (upd_buf b f s) = curpid s" "idequeue (upd_buf b f s) = idequeue s"
  by (simp_all add: upd_buf_def)

lemma to_front_first:
  assumes "chain s NBUF (b # ys) NBUF" "distinct (NBUF # b # ys)"
  shows "chain (to_front b s) NBUF (b # ys) NBUF"
proof (cases ys)
  case Nil
  then show ?thesis using assms by (auto simp: to_front_def Let_def)
next
  case (Cons y zs)
  have n: "b_next (bufs (to_front b s) v) = b_next (bufs s v)" for v
    using assms Cons by (auto simp: to_front_def Let_def)
  have p: "b_prev (bufs (to_front b s) v) = b_prev (bufs s v)" for v
    using assms Cons by (auto simp: to_front_def Let_def)
  show ?thesis using assms(1) chain_cong [of NBUF "b # ys" "to_front b s" s NBUF] n p by simp
qed

lemma chain_ends: "chain s x ys z \<Longrightarrow> b_next (bufs s x) = hd (ys @ [z]) \<and> b_prev (bufs s z) = last (x # ys)"
  by (induction ys arbitrary: x) auto

text \<open>The same segment up to another end.\<close>

lemma chain_retarget:
  "chain s x ys z \<Longrightarrow> distinct (x # ys) \<Longrightarrow>
   (\<And>v. v \<in> set (x # ys) \<Longrightarrow> v \<noteq> last (x # ys) \<Longrightarrow> b_next (bufs t v) = b_next (bufs s v)) \<Longrightarrow>
   (\<And>v. v \<in> set ys \<Longrightarrow> b_prev (bufs t v) = b_prev (bufs s v)) \<Longrightarrow>
   b_next (bufs t (last (x # ys))) = z' \<Longrightarrow> b_prev (bufs t z') = last (x # ys) \<Longrightarrow> chain t x ys z'"
proof (induction ys arbitrary: x)
  case (Cons y ys)
  have "last (y # ys) \<noteq> x" using Cons.prems(2) last_in_set [of "y # ys"] by auto
  then have "b_next (bufs t x) = y" using Cons.prems(1,3) by auto
  moreover have "chain t y ys z'" using Cons.prems by (intro Cons.IH) auto
  ultimately show ?case using Cons.prems(1,4) by auto
qed simp

lemma to_front_links:
  assumes "b_next (bufs s b) = n" "b_prev (bufs s b) = l" "b_next (bufs s NBUF) = x"
    and "l \<noteq> b" "l \<noteq> NBUF" "n \<noteq> b" "x \<noteq> b" "x \<noteq> NBUF" "b \<noteq> NBUF"
  shows "b_next (bufs (to_front b s) v) = (if v = NBUF then b else if v = b then x else if v = l then n else b_next (bufs s v))"
    "b_prev (bufs (to_front b s) v) = (if v = x then b else if v = b then NBUF else if v = n then l else b_prev (bufs s v))"
  using assms by (simp_all add: to_front_def Let_def)

lemma to_front_later:
  assumes "chain s NBUF ((x # xs) @ b # ys) NBUF" "distinct (NBUF # (x # xs) @ b # ys)"
  shows "chain (to_front b s) NBUF (b # (x # xs) @ ys) NBUF"
proof -
  let ?t = "to_front b s"
  define l where "l = last (x # xs)"
  define n where "n = hd (ys @ [NBUF])"
  have c: "chain s NBUF (x # xs) b" "chain s b ys NBUF" using assms(1) chain_append by auto
  have e: "b_next (bufs s b) = n" "b_prev (bufs s b) = l" "b_next (bufs s NBUF) = x"
    using chain_ends [OF c(1)] chain_ends [OF c(2)] by (simp_all add: l_def n_def)
  have li: "l \<in> set (x # xs)" unfolding l_def by (rule last_in_set) simp
  have ni: "n \<in> set ys \<or> n = NBUF" unfolding n_def by (cases ys) auto
  have D: "distinct (x # xs)" "NBUF \<notin> set (x # xs)" "b \<notin> set (x # xs)" "x \<notin> set xs" using assms(2) by auto
  have d: "l \<noteq> b" "l \<noteq> NBUF" "n \<noteq> b" "x \<noteq> b" "x \<noteq> NBUF" "b \<noteq> NBUF"
    using assms(2) li ni by auto
  have nx: "n \<notin> set (x # xs)" using assms(2) ni by auto
  note NP = to_front_links [OF e d]
  have r1: "b_next (bufs ?t v) = b_next (bufs s v)" if "v \<in> set (x # xs)" "v \<noteq> l" for v
    using that D(2,3) by (simp only: NP) auto
  have r2: "b_prev (bufs ?t v) = b_prev (bufs s v)" if "v \<in> set xs" for v
    using that D(3,4) nx by (simp only: NP) auto
  have r3: "b_next (bufs ?t l) = n" "b_prev (bufs ?t n) = l" using d nx by (simp_all add: NP)
  have "chain s x xs b" using c(1) by simp
  then have R: "chain ?t x xs n" 
    using D(1) r1 r2 r3 by (rule chain_retarget [of s x xs b ?t n, folded l_def])
  have "chain ?t x (xs @ ys) NBUF"
  proof (cases ys)
    case (Cons y zs)
    have "chain ?t y zs NBUF = chain s y zs NBUF"
      using assms(2) Cons li n_def by (intro chain_cong) (auto simp: NP)
    then show ?thesis using R c(2) Cons chain_append [of ?t x xs y zs NBUF] n_def by simp
  qed (use R n_def in simp)
  then show ?thesis using d by (simp add: NP)
qed

lemma to_front_mru:
  assumes "mru s ls" "b < NBUF"
  shows "mru (to_front b s) (b # remove1 b ls)"
proof -
  obtain as cs where ls: "ls = as @ b # cs" "b \<notin> set as" using assms split_list_first [of b ls] by (auto simp: mru_def)
  have r: "remove1 b ls = as @ cs" using ls by (simp add: remove1_append)
  have "chain (to_front b s) NBUF (b # as @ cs) NBUF"
    using to_front_first [of s b cs] to_front_later [of s "hd as" "tl as" b cs] assms ls
    by (cases as) (auto simp: mru_def)
  moreover have "distinct (b # remove1 b ls)" "set (b # remove1 b ls) = set ls"
    using assms(1) ls r by (auto simp: mru_def)
  ultimately show ?thesis using assms(1) r by (simp add: mru_def)
qed

lemma link_fields:
  "b_flags (bufs (upd_buf c (\<lambda>v. v\<lparr>b_prev := k\<rparr>) s) v) = b_flags (bufs s v)"
  "b_flags (bufs (upd_buf c (\<lambda>v. v\<lparr>b_next := k\<rparr>) s) v) = b_flags (bufs s v)"
  "b_dev (bufs (upd_buf c (\<lambda>v. v\<lparr>b_prev := k\<rparr>) s) v) = b_dev (bufs s v)"
  "b_dev (bufs (upd_buf c (\<lambda>v. v\<lparr>b_next := k\<rparr>) s) v) = b_dev (bufs s v)"
  "b_blockno (bufs (upd_buf c (\<lambda>v. v\<lparr>b_prev := k\<rparr>) s) v) = b_blockno (bufs s v)"
  "b_blockno (bufs (upd_buf c (\<lambda>v. v\<lparr>b_next := k\<rparr>) s) v) = b_blockno (bufs s v)"
  "b_lock (bufs (upd_buf c (\<lambda>v. v\<lparr>b_prev := k\<rparr>) s) v) = b_lock (bufs s v)"
  "b_lock (bufs (upd_buf c (\<lambda>v. v\<lparr>b_next := k\<rparr>) s) v) = b_lock (bufs s v)"
  "b_refcnt (bufs (upd_buf c (\<lambda>v. v\<lparr>b_prev := k\<rparr>) s) v) = b_refcnt (bufs s v)"
  "b_refcnt (bufs (upd_buf c (\<lambda>v. v\<lparr>b_next := k\<rparr>) s) v) = b_refcnt (bufs s v)"
  "b_data (bufs (upd_buf c (\<lambda>v. v\<lparr>b_prev := k\<rparr>) s) v) = b_data (bufs s v)"
  "b_data (bufs (upd_buf c (\<lambda>v. v\<lparr>b_next := k\<rparr>) s) v) = b_data (bufs s v)"
  by simp_all

lemma to_front_fields [simp]:
  "b_flags (bufs (to_front b s) v) = b_flags (bufs s v)" "b_dev (bufs (to_front b s) v) = b_dev (bufs s v)"
  "b_blockno (bufs (to_front b s) v) = b_blockno (bufs s v)" "b_lock (bufs (to_front b s) v) = b_lock (bufs s v)"
  "b_refcnt (bufs (to_front b s) v) = b_refcnt (bufs s v)" "b_data (bufs (to_front b s) v) = b_data (bufs s v)"
  "disk (to_front b s) = disk s" "dlog (to_front b s) = dlog s" "havedisk1 (to_front b s) = havedisk1 s"
  "curpid (to_front b s) = curpid s" "idequeue (to_front b s) = idequeue s"
  by (simp_all only: to_front_def Let_def link_fields upd_buf_rest)

end
