(* ===== verification/XBufInv.thy ===== *)
theory XBufInv
  imports XBuf
begin

text \<open>
  The contract of the buffer cache: what its clients rely on. \<open>binv s H\<close> is its invariant while the
  process holds the buffers \<open>H\<close>; \<open>view s\<close> is the contents of the disk as the cache shows them; \<open>dirtyb s\<close>
  is the set of blocks that are pinned because they were changed and not yet written. All blocks are
  those of the file system's disk, device 1.
\<close>

section \<open>Flags\<close>

definition valid :: "buf \<Rightarrow> bool" where "valid v \<longleftrightarrow> bit (b_flags v) 1"
definition dirty :: "buf \<Rightarrow> bool" where "dirty v \<longleftrightarrow> bit (b_flags v) 2"

lemma flag_tests:
  "(b_flags v AND B_VALID = 0) = (\<not> valid v)" "(b_flags v AND B_DIRTY = 0) = (\<not> dirty v)"
  using and_exp_eq_0_iff_not_bit [of "b_flags v" 1] and_exp_eq_0_iff_not_bit [of "b_flags v" 2]
  by (simp_all add: B_VALID_def B_DIRTY_def valid_def dirty_def)

lemma flag_bits: "bit B_VALID n = (n = 1)" "bit B_DIRTY n = (n = 2)"
  using bit_exp_iff [of 1 n, where 'a = u32] bit_exp_iff [of 2 n, where 'a = u32]
  by (auto simp: B_VALID_def B_DIRTY_def)

lemma flag_sync: "(b_flags v AND (B_VALID OR B_DIRTY) = B_VALID) = (valid v \<and> \<not> dirty v)"
proof
  assume "b_flags v AND (B_VALID OR B_DIRTY) = B_VALID"
  then have "bit (b_flags v AND (B_VALID OR B_DIRTY)) 1 = bit B_VALID 1" "bit (b_flags v AND (B_VALID OR B_DIRTY)) 2 = bit B_VALID 2"
    by (simp_all only:)
  then show "valid v \<and> \<not> dirty v" by (simp only: bit_and_iff bit_or_iff flag_bits) (simp add: valid_def dirty_def)
next
  assume "valid v \<and> \<not> dirty v"
  then show "b_flags v AND (B_VALID OR B_DIRTY) = B_VALID"
    by (intro bit_word_eqI) (auto simp only: bit_and_iff bit_or_iff flag_bits valid_def dirty_def)
qed

lemma flag_sets:
  "valid (v\<lparr>b_flags := 0\<rparr>) = False" "dirty (v\<lparr>b_flags := 0\<rparr>) = False"
  "valid (v\<lparr>b_flags := f OR B_DIRTY\<rparr>) = bit f 1" "dirty (v\<lparr>b_flags := f OR B_DIRTY\<rparr>)"
  "valid (v\<lparr>b_flags := (f OR B_VALID) AND NOT B_DIRTY\<rparr>)" "\<not> dirty (v\<lparr>b_flags := (f OR B_VALID) AND NOT B_DIRTY\<rparr>)"
  by (simp_all add: valid_def dirty_def bit_and_iff bit_or_iff bit_not_iff flag_bits)

lemma synced_flags: "synced b s \<longleftrightarrow> valid (bufs s b) \<and> \<not> dirty (bufs s b)"
  by (simp add: synced_def flag_sync)

lemma idedone_flags: "valid (bufs (idedone b s) b)" "\<not> dirty (bufs (idedone b s) b)"
  by (simp_all add: idedone_def Let_def valid_def dirty_def bit_and_iff bit_or_iff bit_not_iff flag_bits)

text \<open>With no other request queued, \<open>iderw\<close> starts and finishes the transfer.\<close>

lemma iderw_idle:
  assumes "idequeue s = []" "holdingsleep b s" "\<not> synced b s" "b_dev (bufs s b) \<noteq> 0 \<longrightarrow> havedisk1 s" "b_blockno (bufs s b) < FSSIZE"
  shows "iderw b s = xbind (idestart b s) (\<lambda>_ s. Done () (idedone b s))"
proof -
  obtain s1 where s1: "idestart b s = Done () s1" "bufs s1 = bufs s" "idequeue s1 = []"
    using assms(1,5) by (cases "nz (b_flags (bufs s b) AND B_DIRTY)") (auto simp: idestart_def Let_def not_le [symmetric])
  have q: "idestart b (s\<lparr>idequeue := [b]\<rparr>) = Done () (s1\<lparr>idequeue := [b]\<rparr>)"
    using s1(1) assms(5) by (auto simp: idestart_def Let_def not_le [symmetric] split: if_splits)
  have e: "s1\<lparr>idequeue := []\<rparr> = s1" using s1(3) by simp
  have i: "ideintr (s1\<lparr>idequeue := [b]\<rparr>) = Done () (idedone b s1)" by (simp add: ideintr_def e)
  have "\<not> synced b (s1\<lparr>idequeue := [b]\<rparr>)" using assms(3) s1(2) by (simp add: synced_def)
  moreover have "synced b (idedone b s1)" using idedone_flags by (simp add: synced_flags)
  ultimately have "ide_wait 1 b (s1\<lparr>idequeue := [b]\<rparr>) = Done () (idedone b s1)"
    using i by simp
  then show ?thesis using assms(1-4) q s1(1) by (auto simp: iderw_def Let_def)
qed

section \<open>The contract\<close>

definition ROOTDEV :: u32 where "ROOTDEV = 1"

definition blk :: "xstate \<Rightarrow> nat \<Rightarrow> u32" where "blk s b = b_blockno (bufs s b)"

definition held :: "xstate \<Rightarrow> nat \<Rightarrow> bool" where
  "held s b \<longleftrightarrow> b_refcnt (bufs s b) = 1 \<and> b_lock (bufs s b) = \<lparr>sl_locked = True, sl_pid = curpid s\<rparr> \<and> valid (bufs s b)"

definition idle :: "xstate \<Rightarrow> nat \<Rightarrow> bool" where
  "idle s b \<longleftrightarrow> b_refcnt (bufs s b) = 0 \<and> \<not> sl_locked (b_lock (bufs s b))"

text \<open>A buffer agrees with the disk, or is pinned.\<close>

definition coherent :: "xstate \<Rightarrow> nat \<Rightarrow> bool" where
  "coherent s b \<longleftrightarrow> (valid (bufs s b) \<and> \<not> dirty (bufs s b) \<longrightarrow> b_data (bufs s b) = disk s (1, blk s b))"

definition binv :: "xstate \<Rightarrow> nat set \<Rightarrow> bool" where
  "binv s H \<longleftrightarrow> (\<exists>ls. mru s ls) \<and> havedisk1 s \<and> idequeue s = [] \<and> H \<subseteq> {..<NBUF} \<and>
     (\<forall>b < NBUF. (if b \<in> H then held s b else idle s b \<and> coherent s b)
        \<and> (valid (bufs s b) \<longleftrightarrow> b_dev (bufs s b) = ROOTDEV)
        \<and> (valid (bufs s b) \<longrightarrow> blk s b < FSSIZE) \<and> (dirty (bufs s b) \<longrightarrow> valid (bufs s b))) \<and>
     (\<forall>b < NBUF. \<forall>c < NBUF. valid (bufs s b) \<and> valid (bufs s c) \<and> blk s b = blk s c \<longrightarrow> b = c)"

definition caches :: "xstate \<Rightarrow> u32 \<Rightarrow> nat \<Rightarrow> bool" where
  "caches s n b \<longleftrightarrow> b < NBUF \<and> valid (bufs s b) \<and> blk s b = n"

definition view :: "xstate \<Rightarrow> u32 \<Rightarrow> block" where
  "view s n = (case find (\<lambda>b. valid (bufs s b) \<and> blk s b = n) [0..<NBUF] of Some b \<Rightarrow> b_data (bufs s b) | None \<Rightarrow> disk s (1, n))"

definition dirtyb :: "xstate \<Rightarrow> u32 set" where
  "dirtyb s = {blk s b |b. b < NBUF \<and> dirty (bufs s b)}"

lemma caches_unique: "binv s H \<Longrightarrow> caches s n b \<Longrightarrow> caches s n c \<Longrightarrow> b = c"
  by (auto simp: binv_def caches_def)

lemma view_cached:
  assumes "binv s H" "caches s n b"
  shows "view s n = b_data (bufs s b)"
proof -
  have "\<exists>c. find (\<lambda>b. valid (bufs s b) \<and> blk s b = n) [0..<NBUF] = Some c"
    using assms(2) by (cases "find (\<lambda>b. valid (bufs s b) \<and> blk s b = n) [0..<NBUF]") (auto simp: find_None_iff caches_def)
  then obtain c where c: "find (\<lambda>b. valid (bufs s b) \<and> blk s b = n) [0..<NBUF] = Some c" ..
  then have "caches s n c" by (auto simp: find_Some_iff caches_def)
  then show ?thesis using c caches_unique [OF assms] by (simp add: view_def)
qed

lemma view_uncached: "(\<And>b. \<not> caches s n b) \<Longrightarrow> view s n = disk s (1, n)"
proof -
  assume "\<And>b. \<not> caches s n b"
  then have "find (\<lambda>b. valid (bufs s b) \<and> blk s b = n) [0..<NBUF] = None" by (auto simp: find_None_iff caches_def)
  then show ?thesis by (simp add: view_def)
qed

lemma view_eqI:
  assumes "binv s H" "\<And>b. caches s n b \<Longrightarrow> x = b_data (bufs s b)" "(\<And>b. \<not> caches s n b) \<Longrightarrow> x = disk s (1, n)"
  shows "view s n = x"
  using assms view_cached [OF assms(1)] view_uncached by metis

text \<open>Away from the pinned and the held blocks the view is the disk.\<close>

lemma view_disk:
  assumes I: "binv s {}" and n: "n \<notin> dirtyb s"
  shows "view s n = disk s (1, n)"
  using I n by (intro view_eqI [OF I]) (auto simp: caches_def binv_def coherent_def dirtyb_def)

lemma binvD:
  assumes "binv s H" "b < NBUF"
  shows "b \<in> H \<Longrightarrow> held s b" "b \<notin> H \<Longrightarrow> idle s b" "b \<notin> H \<Longrightarrow> coherent s b"
    "valid (bufs s b) \<longleftrightarrow> b_dev (bufs s b) = ROOTDEV" "valid (bufs s b) \<Longrightarrow> blk s b < FSSIZE"
    "dirty (bufs s b) \<Longrightarrow> valid (bufs s b)"
  using assms by (auto simp: binv_def split: if_splits)

section \<open>Changing one buffer\<close>

lemma mru_cong: "(\<And>v. b_next (bufs t v) = b_next (bufs s v) \<and> b_prev (bufs t v) = b_prev (bufs s v)) \<Longrightarrow> mru t ls = mru s ls"
  using chain_cong [of NBUF ls t s NBUF] by (simp add: mru_def)

lemma binv_upd:
  assumes I: "binv s H" and b: "b < NBUF" and o: "\<And>c. c \<noteq> b \<Longrightarrow> bufs t c = bufs s c"
    and l: "\<And>ls. mru s ls \<Longrightarrow> \<exists>ls. mru t ls" and g: "havedisk1 t = havedisk1 s" "curpid t = curpid s" "idequeue t = idequeue s"
    and d: "\<And>c. c < NBUF \<Longrightarrow> c \<noteq> b \<Longrightarrow> valid (bufs s c) \<Longrightarrow> disk t (1, blk s c) = disk s (1, blk s c)"
    and H: "H' - {b} = H - {b}"
    and st: "b \<in> H' \<Longrightarrow> held t b" "b \<notin> H' \<Longrightarrow> idle t b \<and> coherent t b"
    and v: "valid (bufs t b) \<longleftrightarrow> b_dev (bufs t b) = ROOTDEV" "valid (bufs t b) \<Longrightarrow> blk t b < FSSIZE"
      "dirty (bufs t b) \<Longrightarrow> valid (bufs t b)"
    and u: "\<And>c. c < NBUF \<Longrightarrow> c \<noteq> b \<Longrightarrow> valid (bufs s c) \<Longrightarrow> valid (bufs t b) \<Longrightarrow> blk s c \<noteq> blk t b"
  shows "binv t H'"
proof -
  have bl: "blk t c = blk s c" if "c \<noteq> b" for c using o [OF that] by (simp add: blk_def)
  have "\<exists>ls. mru t ls" using I l by (auto simp: binv_def)
  moreover have "H' \<subseteq> {..<NBUF}" using I H b by (auto simp: binv_def)
  moreover have "(if c \<in> H' then held t c else idle t c \<and> coherent t c)
      \<and> (valid (bufs t c) \<longleftrightarrow> b_dev (bufs t c) = ROOTDEV)
      \<and> (valid (bufs t c) \<longrightarrow> blk t c < FSSIZE) \<and> (dirty (bufs t c) \<longrightarrow> valid (bufs t c))" if c: "c < NBUF" for c
  proof (cases "c = b")
    case True
    then show ?thesis using st v by auto
  next
    case False
    note D = binvD [OF I c]
    have "c \<in> H' \<longleftrightarrow> c \<in> H" using H False by auto
    moreover have "held t c = held s c" "idle t c = idle s c" using o [OF False] g(2) by (simp_all add: held_def idle_def)
    moreover have "coherent s c \<longrightarrow> coherent t c" using o [OF False] d [OF c False] bl [OF False] by (auto simp: coherent_def)
    ultimately show ?thesis using D o [OF False] bl [OF False] by (cases "c \<in> H") simp_all
  qed
  moreover have "x = y" if "x < NBUF" "y < NBUF" "valid (bufs t x)" "valid (bufs t y)" "blk t x = blk t y" for x y
    using that u [of x] u [of y] o bl I by (cases "x = b"; cases "y = b") (auto simp: binv_def)
  moreover have "havedisk1 t" "idequeue t = []" using I g by (simp_all add: binv_def)
  ultimately show ?thesis unfolding binv_def by blast
qed

lemma dirtyb_cached:
  assumes I: "binv s H" and c: "caches s n b"
  shows "dirty (bufs s b) \<longleftrightarrow> n \<in> dirtyb s"
proof
  assume "dirty (bufs s b)"
  then show "n \<in> dirtyb s" using c by (auto simp: dirtyb_def caches_def)
next
  assume "n \<in> dirtyb s"
  then obtain x where x: "n = blk s x" "x < NBUF" "dirty (bufs s x)" by (auto simp: dirtyb_def)
  then have "caches s n x" using binvD(6) [OF I x(2,3)] by (simp add: caches_def)
  then have "x = b" using caches_unique [OF I _ c] by simp
  then show "dirty (bufs s b)" using x(3) by simp
qed

lemma binv_clean:
  assumes I: "binv s H" and full: "card (dirtyb s \<union> blk s ` H) < NBUF"
  shows "\<exists>b. b < NBUF \<and> b \<notin> H \<and> \<not> dirty (bufs s b)"
proof (rule ccontr)
  assume "\<nexists>b. b < NBUF \<and> b \<notin> H \<and> \<not> dirty (bufs s b)"
  then have all: "b \<in> H \<or> dirty (bufs s b)" if "b < NBUF" for b using that by auto
  have v: "valid (bufs s b)" if "b < NBUF" for b
    using all [OF that] binvD [OF I that] by (auto simp: held_def)
  have "inj_on (blk s) {..<NBUF}" using I v by (auto simp: inj_on_def binv_def)
  moreover have "blk s ` {..<NBUF} \<subseteq> dirtyb s \<union> blk s ` H" using all by (auto simp: dirtyb_def)
  moreover have "finite (dirtyb s \<union> blk s ` H)" by (rule finite)
  ultimately have "NBUF \<le> card (dirtyb s \<union> blk s ` H)"
    using card_mono [of "dirtyb s \<union> blk s ` H" "blk s ` {..<NBUF}"] card_image [of "blk s" "{..<NBUF}"] by simp
  then show False using full by simp
qed

section \<open>Reading a block\<close>

text \<open>What an operation leaves alone.\<close>

definition cache_same :: "xstate \<Rightarrow> xstate \<Rightarrow> bool" where
  "cache_same s t \<longleftrightarrow> view t = view s \<and> disk t = disk s \<and> dlog t = dlog s \<and> dirtyb t = dirtyb s \<and> curpid t = curpid s"

text \<open>The state in which a cached block is returned, and one in which a buffer is recycled.\<close>

definition hit_st :: "nat \<Rightarrow> xstate \<Rightarrow> xstate" where
  "hit_st b s = upd_buf b (\<lambda>v. v\<lparr>b_refcnt := b_refcnt v + 1, b_lock := \<lparr>sl_locked = True, sl_pid = curpid s\<rparr>\<rparr>) s"

definition miss_st :: "u32 \<Rightarrow> nat \<Rightarrow> xstate \<Rightarrow> xstate" where
  "miss_st n b s = upd_buf b (\<lambda>v. v\<lparr>b_dev := ROOTDEV, b_blockno := n, b_refcnt := 1,
     b_lock := \<lparr>sl_locked = True, sl_pid = curpid s\<rparr>, b_data := disk s (1, n), b_flags := (0 OR B_VALID) AND NOT B_DIRTY\<rparr>) s"

lemma upd_buf_twice: "upd_buf b f (upd_buf b g s) = upd_buf b (\<lambda>v. f (g v)) s"
  by (simp add: upd_buf_def)

lemma find_unique: "(\<And>c. c \<in> set xs \<Longrightarrow> P c \<longleftrightarrow> c = b) \<Longrightarrow> b \<in> set xs \<Longrightarrow> find P xs = Some b"
  by (induction xs) auto

lemma bread_hit:
  assumes I: "binv s H" and c: "caches s n b" and h: "b \<notin> H"
  shows "bread ROOTDEV n s = Done b (hit_st b s)"
proof -
  obtain ls where ls: "mru s ls" using I by (auto simp: binv_def)
  let ?P = "\<lambda>b. b_dev (bufs s b) = ROOTDEV \<and> b_blockno (bufs s b) = n"
  have "?P c \<longleftrightarrow> c = b" if "c \<in> set ls" for c
    using that ls assms(2) binvD(4) [OF I, of c] binvD(4) [OF I, of b] caches_unique [OF I, of n c b]
    by (auto simp: mru_def caches_def blk_def)
  moreover have "b \<in> set ls" using ls c by (auto simp: mru_def caches_def)
  ultimately have "find ?P ls = Some b" by (intro find_unique) auto
  then have f: "find_cached ROOTDEV n s (b_next (bufs s NBUF)) = Some (Some b)"
    using find_cached_run [of s NBUF ls ROOTDEV n] ls by (auto simp: mru_def)
  have "b < NBUF" "valid (bufs s b)" using c by (auto simp: caches_def)
  then have "idle s b" using binvD(2) [OF I _ h] by simp
  then show ?thesis
    using f c unfolding bread_def bget_def
    by (simp add: acquiresleep_def idle_def caches_def upd_buf_twice hit_st_def flag_tests(1)) (simp add: valid_def)
qed

lemma bread_miss:
  assumes I: "binv s H" and c: "\<And>b. \<not> caches s n b" and n: "n < FSSIZE" and full: "card (dirtyb s \<union> blk s ` H) < NBUF"
  shows "\<exists>b. b < NBUF \<and> b \<notin> H \<and> \<not> dirty (bufs s b) \<and> bread ROOTDEV n s = Done b (miss_st n b s)"
proof -
  obtain ls where ls: "mru s ls" using I by (auto simp: binv_def)
  have s: "set ls = {..<NBUF}" "NBUF \<notin> set ls" "chain s NBUF ls NBUF" using ls by (auto simp: mru_def)
  let ?P = "\<lambda>b. b_dev (bufs s b) = ROOTDEV \<and> b_blockno (bufs s b) = n"
  let ?Q = "\<lambda>b. b_refcnt (bufs s b) = 0 \<and> (b_flags (bufs s b) AND B_DIRTY) = 0"
  have "find ?P ls = None"
    using c binvD(4) [OF I] s(1) by (auto simp: find_None_iff caches_def blk_def)
  then have f: "find_cached ROOTDEV n s (b_next (bufs s NBUF)) = Some None"
    using find_cached_run [OF s(3,2)] by simp
  obtain b0 where "b0 < NBUF" "b0 \<notin> H" "\<not> dirty (bufs s b0)" using binv_clean [OF I full] by blast
  then have "\<exists>x \<in> set (rev ls). ?Q x" using binvD(2) [OF I] s(1) by (auto simp: idle_def flag_tests)
  then obtain b where b: "find ?Q (rev ls) = Some b" by (cases "find ?Q (rev ls)") (auto simp: find_None_iff)
  then have "b \<in> set (rev ls)" "?Q b" unfolding find_Some_iff by (metis nth_mem)+
  then have q: "b < NBUF" "b_refcnt (bufs s b) = 0" "\<not> dirty (bufs s b)" using s(1) by (auto simp: flag_tests)
  then have h: "b \<notin> H" using binvD(1) [OF I q(1)] by (auto simp: held_def)
  have g: "find_unused s (b_prev (bufs s NBUF)) = Some (Some b)" using find_unused_run [OF s(3,2)] b by simp
  have lk: "\<not> sl_locked (b_lock (bufs s b))" using binvD(2) [OF I q(1) h] by (simp add: idle_def)
  have hd1: "havedisk1 s" "idequeue s = []" using I by (simp_all add: binv_def)
  let ?t = "upd_buf b (\<lambda>v. v\<lparr>b_dev := ROOTDEV, b_blockno := n, b_flags := 0, b_refcnt := 1,
      b_lock := \<lparr>sl_locked = True, sl_pid = curpid s\<rparr>\<rparr>) s"
  have "bget ROOTDEV n s = Done b ?t"
    using f g lk unfolding bget_def by (simp add: acquiresleep_def upd_buf_twice)
  moreover have "iderw b ?t = Done () (miss_st n b s)"
    using hd1 n by (subst iderw_idle)
      (simp_all add: holdingsleep_def synced_flags valid_def idestart_def idedone_def Let_def upd_buf_twice miss_st_def ROOTDEV_def not_le)
  ultimately have "bread ROOTDEV n s = Done b (miss_st n b s)" by (simp add: bread_def)
  then show ?thesis using q h by blast
qed

lemma bread_ok:
  assumes I: "binv s H" and n: "n < FSSIZE" "n \<notin> blk s ` H" and room: "card (dirtyb s \<union> blk s ` H \<union> {n}) \<le> NBUF"
  shows "\<exists>b t. bread ROOTDEV n s = Done b t \<and> b < NBUF \<and> b \<notin> H \<and> binv t (insert b H) \<and> cache_same s t
    \<and> blk t b = n \<and> b_data (bufs t b) = view s n \<and> (\<forall>c. c \<noteq> b \<longrightarrow> bufs t c = bufs s c)
    \<and> (dirty (bufs t b) \<longleftrightarrow> n \<in> dirtyb s)"
proof (cases "\<exists>b. caches s n b")
  case True
  then obtain b where c: "caches s n b" ..
  then have b: "b < NBUF" "valid (bufs s b)" "blk s b = n" by (auto simp: caches_def)
  then have h: "b \<notin> H" using n(2) by auto
  let ?t = "hit_st b s"
  have f: "bufs ?t c = bufs s c" if "c \<noteq> b" for c using that by (simp add: hit_st_def)
  have fb: "b_flags (bufs ?t c) = b_flags (bufs s c)" "b_data (bufs ?t c) = b_data (bufs s c)" "blk ?t c = blk s c"
    "b_dev (bufs ?t c) = b_dev (bufs s c)" for c by (simp_all add: hit_st_def blk_def)
  have fv: "valid (bufs ?t c) = valid (bufs s c)" "dirty (bufs ?t c) = dirty (bufs s c)" for c
    by (simp_all add: valid_def dirty_def fb)
  have d: "disk ?t = disk s" "dlog ?t = dlog s" by (simp_all add: hit_st_def)
  have J: "binv ?t (insert b H)"
  proof (rule binv_upd [OF I b(1) f])
    show "\<exists>ls. mru ?t ls" if "mru s ls" for ls
      using that mru_cong [of ?t s] by (auto simp: hit_st_def)
    show "held ?t b" using binvD(2) [OF I b(1) h] b(2) by (simp add: held_def idle_def fv) (simp add: hit_st_def)
    show "valid (bufs ?t b) = (b_dev (bufs ?t b) = ROOTDEV)" "valid (bufs ?t b) \<Longrightarrow> blk ?t b < FSSIZE"
      using binvD(4,5) [OF I b(1)] by (simp_all add: fb fv)
    show "dirty (bufs ?t b) \<Longrightarrow> valid (bufs ?t b)" using binvD(6) [OF I b(1)] by (simp add: fv)
    show "blk s c \<noteq> blk ?t b" if "c < NBUF" "c \<noteq> b" "valid (bufs s c)" for c
      using caches_unique [OF I c, of c] that b by (auto simp: caches_def fb)
  qed (auto simp: hit_st_def)
  have v: "view ?t = view s"
    by (rule ext) (simp add: view_def fb fv d split: option.split)
  have db: "dirtyb ?t = dirtyb s" by (simp add: dirtyb_def fb fv)
  have cp: "curpid ?t = curpid s" by (simp add: hit_st_def)
  have cs: "cache_same s ?t" unfolding cache_same_def by (intro conjI v db d cp)
  have "dirty (bufs s b) \<longleftrightarrow> n \<in> dirtyb s" by (rule dirtyb_cached [OF I c])
  then have "dirty (bufs ?t b) \<longleftrightarrow> n \<in> dirtyb s" by (simp only: fv)
  moreover have "blk ?t b = n" "b_data (bufs ?t b) = view s n" using b(3) view_cached [OF I c] by (simp_all add: fb)
  ultimately show ?thesis using bread_hit [OF I c h] b(1) h J f cs by blast
next
  case False
  then have c: "\<not> caches s n b" for b by simp
  have "n \<notin> dirtyb s" using c binvD(6) [OF I] by (auto simp: dirtyb_def caches_def)
  then have "card (dirtyb s \<union> blk s ` H) < NBUF" using room n(2) by (simp add: card_insert_if)
  then obtain b where b: "b < NBUF" "b \<notin> H" "\<not> dirty (bufs s b)" and r: "bread ROOTDEV n s = Done b (miss_st n b s)"
    using bread_miss [OF I c n(1)] by blast
  let ?t = "miss_st n b s"
  have f: "bufs ?t c = bufs s c" if "c \<noteq> b" for c using that by (simp add: miss_st_def)
  have fb: "blk ?t b = n" "b_data (bufs ?t b) = disk s (1, n)" "b_dev (bufs ?t b) = ROOTDEV" by (simp_all add: miss_st_def blk_def)
  have fv: "valid (bufs ?t b)" "\<not> dirty (bufs ?t b)"
    by (simp_all add: miss_st_def valid_def dirty_def bit_and_iff bit_not_iff flag_bits)
  have d: "disk ?t = disk s" "dlog ?t = dlog s" by (simp_all add: miss_st_def)
  have J: "binv ?t (insert b H)"
  proof (rule binv_upd [OF I b(1) f])
    show "\<exists>ls. mru ?t ls" if "mru s ls" for ls
      using that mru_cong [of ?t s] by (auto simp: miss_st_def)
    show "held ?t b" using fv by (simp add: held_def) (simp add: miss_st_def)
    show "blk s c \<noteq> blk ?t b" if "c < NBUF" "c \<noteq> b" "valid (bufs s c)" for c
      using c [of c] that fb by (auto simp: caches_def)
  qed (use fb fv n in \<open>auto simp: miss_st_def\<close>)
  have ca: "caches ?t m x \<longleftrightarrow> (if x = b then m = n else caches s m x)" for m x
    using f [of x] fb fv b(1) by (auto simp: caches_def blk_def)
  have co: "coherent s b" using binvD(3) [OF I b(1,2)] .
  have v: "view ?t m = view s m" for m
  proof (rule view_eqI [OF J])
    show "view s m = b_data (bufs ?t x)" if "caches ?t m x" for x
      using that ca f fb c view_uncached [of s n] view_cached [OF I, of m x] by (auto split: if_splits)
    assume n': "\<And>x. \<not> caches ?t m x"
    show "view s m = disk ?t (1, m)"
    proof (rule view_eqI [OF I])
      fix x assume "caches s m x"
      then have "x = b" using n' [of x] ca by (auto split: if_splits)
      then show "disk ?t (1, m) = b_data (bufs s x)"
        using co \<open>caches s m x\<close> b(3) d by (auto simp: coherent_def caches_def)
    qed (simp add: d)
  qed
  have "dirtyb ?t = dirtyb s"
  proof -
    have "x < NBUF \<and> dirty (bufs ?t x) \<longleftrightarrow> x < NBUF \<and> dirty (bufs s x)" for x using f fv b by (cases "x = b") auto
    moreover have "blk ?t x = blk s x" if "dirty (bufs s x)" for x using f [of x] b that by (cases "x = b") (auto simp: blk_def)
    ultimately show ?thesis unfolding dirtyb_def by metis
  qed
  moreover have "curpid ?t = curpid s" by (simp add: miss_st_def)
  ultimately have cs: "cache_same s ?t" unfolding cache_same_def using v d by (intro conjI ext) auto
  have "b_data (bufs ?t b) = view s n" using fb(2) view_uncached [OF c] by simp
  moreover have "dirty (bufs ?t b) \<longleftrightarrow> n \<in> dirtyb s" using fv(2) \<open>n \<notin> dirtyb s\<close> by simp
  ultimately show ?thesis using r b(1,2) J f fb(1) cs by blast
qed

section \<open>Changing, writing and releasing a held buffer\<close>

text \<open>The client changes the contents of a buffer it holds.\<close>

definition set_data :: "nat \<Rightarrow> block \<Rightarrow> xstate \<Rightarrow> xstate" where
  "set_data b d s = upd_buf b (\<lambda>v. v\<lparr>b_data := d\<rparr>) s"

lemma set_data_fields [simp]:
  "b_flags (bufs (set_data b d s) c) = b_flags (bufs s c)" "b_dev (bufs (set_data b d s) c) = b_dev (bufs s c)"
  "blk (set_data b d s) c = blk s c" "b_data (bufs (set_data b d s) c) = (if c = b then d else b_data (bufs s c))"
  "valid (bufs (set_data b d s) c) = valid (bufs s c)" "dirty (bufs (set_data b d s) c) = dirty (bufs s c)"
  "disk (set_data b d s) = disk s" "dlog (set_data b d s) = dlog s" "dirtyb (set_data b d s) = dirtyb s"
  "caches (set_data b d s) n c = caches s n c" "c \<noteq> b \<Longrightarrow> bufs (set_data b d s) c = bufs s c"
  "havedisk1 (set_data b d s) = havedisk1 s" "curpid (set_data b d s) = curpid s" "idequeue (set_data b d s) = idequeue s"
  "b_refcnt (bufs (set_data b d s) c) = b_refcnt (bufs s c)" "b_lock (bufs (set_data b d s) c) = b_lock (bufs s c)"
  by (auto simp: set_data_def blk_def valid_def dirty_def dirtyb_def caches_def)

lemma set_data_ok:
  assumes I: "binv s H" and b: "b \<in> H"
  shows "binv (set_data b d s) H" "view (set_data b d s) = (view s)(blk s b := d)"
proof -
  have bn: "b < NBUF" using I b by (auto simp: binv_def)
  have h: "held s b" using binvD(1) [OF I bn b] .
  then have c: "caches s (blk s b) b" using bn by (simp add: caches_def held_def)
  show J: "binv (set_data b d s) H"
  proof (rule binv_upd [OF I bn])
    show "\<exists>ls. mru (set_data b d s) ls" if "mru s ls" for ls
      using that mru_cong [of "set_data b d s" s] by (auto simp: set_data_def)
    show "held (set_data b d s) b" using h by (simp add: held_def)
    show "blk s x \<noteq> blk (set_data b d s) b" if "x < NBUF" "x \<noteq> b" "valid (bufs s x)" for x
      using caches_unique [OF I c, of x] that by (auto simp: caches_def)
    show "dirty (bufs (set_data b d s) b) \<Longrightarrow> valid (bufs (set_data b d s) b)" using binvD(6) [OF I bn] by simp
  qed (use b binvD(4,5) [OF I bn] in simp_all)
  show "view (set_data b d s) = (view s)(blk s b := d)"
  proof
    fix n
    show "view (set_data b d s) n = ((view s)(blk s b := d)) n"
    proof (rule view_eqI [OF J])
      fix x assume "caches (set_data b d s) n x"
      then have x: "caches s n x" by simp
      then have "n = blk s b \<longleftrightarrow> x = b" using c caches_unique [OF I] by (auto simp: caches_def)
      then show "((view s)(blk s b := d)) n = b_data (bufs (set_data b d s) x)" using view_cached [OF I x] by auto
    next
      assume "\<And>x. \<not> caches (set_data b d s) n x"
      then have nx: "\<And>x. \<not> caches s n x" by simp
      then show "((view s)(blk s b := d)) n = disk (set_data b d s) (1, n)" using c view_uncached [OF nx] by auto
    qed
  qed
qed

text \<open>The state after a block was written.\<close>

definition written :: "nat \<Rightarrow> xstate \<Rightarrow> xstate" where
  "written b s = (upd_buf b (\<lambda>v. v\<lparr>b_flags := ((b_flags v OR B_DIRTY) OR B_VALID) AND NOT B_DIRTY\<rparr>) s)
     \<lparr>disk := (disk s)((1, blk s b) := b_data (bufs s b)), dlog := dlog s @ [((1, blk s b), b_data (bufs s b))]\<rparr>"

lemma bwrite_run:
  assumes I: "binv s H" and b: "b \<in> H"
  shows "bwrite b s = Done () (written b s)"
proof -
  have bn: "b < NBUF" using I b by (auto simp: binv_def)
  have h: "held s b" using binvD(1) [OF I bn b] .
  then have v: "b_dev (bufs s b) = 1" "\<not> FSSIZE \<le> b_blockno (bufs s b)" "holdingsleep b s" "havedisk1 s" "idequeue s = []"
    using binvD(4,5) [OF I bn] I by (auto simp: held_def ROOTDEV_def blk_def not_le holdingsleep_def binv_def)
  let ?s = "upd_buf b (\<lambda>v. v\<lparr>b_flags := b_flags v OR B_DIRTY\<rparr>) s"
  have d: "dirty (bufs ?s b)" by (simp add: flag_sets)
  have h: "holdingsleep b ?s" using v(3) by (simp add: holdingsleep_def)
  have i: "idestart b ?s = Done () (?s\<lparr>disk := (disk s)((1, blk s b) := b_data (bufs s b)), dlog := dlog s @ [((1, blk s b), b_data (bufs s b))]\<rparr>)"
    using v d flag_tests(2) [of "bufs ?s b"] by (simp add: idestart_def Let_def blk_def)
  have "iderw b ?s = Done () (written b s)"
    using h d v(2,4,5) i flag_tests(2) [of "bufs ?s b"]
    by (subst iderw_idle) (simp_all add: synced_flags not_le idedone_def Let_def written_def, simp add: upd_buf_def)
  then show ?thesis using v(3) by (simp add: bwrite_def)
qed

lemma written_fields [simp]:
  "b_data (bufs (written b s) c) = b_data (bufs s c)" "b_dev (bufs (written b s) c) = b_dev (bufs s c)"
  "blk (written b s) c = blk s c" "disk (written b s) = (disk s)((1, blk s b) := b_data (bufs s b))"
  "dlog (written b s) = dlog s @ [((1, blk s b), b_data (bufs s b))]" "valid (bufs (written b s) b)" "\<not> dirty (bufs (written b s) b)"
  "c \<noteq> b \<Longrightarrow> bufs (written b s) c = bufs s c" "havedisk1 (written b s) = havedisk1 s" "curpid (written b s) = curpid s" "idequeue (written b s) = idequeue s"
  "b_refcnt (bufs (written b s) c) = b_refcnt (bufs s c)" "b_lock (bufs (written b s) c) = b_lock (bufs s c)"
  by (auto simp: written_def blk_def flag_sets upd_buf_def)

lemma bwrite_ok:
  assumes I: "binv s H" and b: "b \<in> H"
  shows "binv (written b s) H" "view (written b s) = view s" "dirtyb (written b s) = dirtyb s - {blk s b}"
proof -
  have bn: "b < NBUF" using I b by (auto simp: binv_def)
  have h: "held s b" using binvD(1) [OF I bn b] .
  then have c: "caches s (blk s b) b" using bn by (simp add: caches_def held_def)
  show J: "binv (written b s) H"
  proof (rule binv_upd [OF I bn])
    show "\<exists>ls. mru (written b s) ls" if "mru s ls" for ls
      using that mru_cong [of "written b s" s] by (auto simp: written_def)
    show "held (written b s) b" using h by (simp add: held_def)
    show "disk (written b s) (1, blk s c) = disk s (1, blk s c)" if "c < NBUF" "c \<noteq> b" "valid (bufs s c)" for c
      using caches_unique [OF I \<open>caches s (blk s b) b\<close>, of c] that by (auto simp: caches_def)
    show "blk s c \<noteq> blk (written b s) b" if "c < NBUF" "c \<noteq> b" "valid (bufs s c)" for c
      using caches_unique [OF I \<open>caches s (blk s b) b\<close>, of c] that by (auto simp: caches_def)
  qed (use h b binvD(4,5) [OF I bn] in \<open>simp_all add: held_def\<close>)
  have ca: "caches (written b s) n x = caches s n x" for n x
    using h by (cases "x = b") (auto simp: caches_def held_def)
  show "view (written b s) = view s"
  proof
    fix n show "view (written b s) n = view s n"
    proof (rule view_eqI [OF J])
      show "view s n = b_data (bufs (written b s) x)" if "caches (written b s) n x" for x
        using view_cached [OF I] that ca by simp
      assume "\<And>x. \<not> caches (written b s) n x"
      then have nx: "\<And>x. \<not> caches s n x" using ca by simp
      then show "view s n = disk (written b s) (1, n)" using c view_uncached [OF nx] by auto
    qed
  qed
  show "dirtyb (written b s) = dirtyb s - {blk s b}"
  proof -
    have "dirty (bufs (written b s) x) \<longleftrightarrow> dirty (bufs s x) \<and> x \<noteq> b" for x by (cases "x = b") auto
    moreover have "x = b" if "x < NBUF" "dirty (bufs s x)" "blk s x = blk s b" for x
      using that caches_unique [OF I c, of x] binvD(6) [OF I that(1)] by (auto simp: caches_def)
    ultimately show ?thesis unfolding dirtyb_def by auto
  qed
qed

text \<open>The state after a buffer was released.\<close>

definition released :: "nat \<Rightarrow> xstate \<Rightarrow> xstate" where
  "released b s = to_front b (upd_buf b (\<lambda>v. v\<lparr>b_lock := \<lparr>sl_locked = False, sl_pid = 0\<rparr>, b_refcnt := b_refcnt v - 1\<rparr>) s)"

lemma released_fields [simp]:
  "b_flags (bufs (released b s) c) = b_flags (bufs s c)" "b_dev (bufs (released b s) c) = b_dev (bufs s c)"
  "b_data (bufs (released b s) c) = b_data (bufs s c)" "blk (released b s) c = blk s c"
  "valid (bufs (released b s) c) = valid (bufs s c)" "dirty (bufs (released b s) c) = dirty (bufs s c)"
  "disk (released b s) = disk s" "dlog (released b s) = dlog s" "havedisk1 (released b s) = havedisk1 s" "curpid (released b s) = curpid s" "idequeue (released b s) = idequeue s"
  "c \<noteq> b \<Longrightarrow> b_refcnt (bufs (released b s) c) = b_refcnt (bufs s c)" "c \<noteq> b \<Longrightarrow> b_lock (bufs (released b s) c) = b_lock (bufs s c)"
  "b_refcnt (bufs (released b s) b) = b_refcnt (bufs s b) - 1" "b_lock (bufs (released b s) b) = \<lparr>sl_locked = False, sl_pid = 0\<rparr>"
  by (simp_all add: released_def blk_def valid_def dirty_def)

lemma brelse_run:
  assumes "binv s H" "b \<in> H"
  shows "brelse b s = Done () (released b s)"
proof -
  have "b < NBUF" using assms by (auto simp: binv_def)
  then have "held s b" using binvD(1) assms by blast
  then show ?thesis
    by (simp add: brelse_def holdingsleep_def held_def releasesleep_def upd_buf_twice released_def Let_def)
qed

lemma brelse_ok:
  assumes I: "binv s H" and b: "b \<in> H" and co: "coherent s b"
  shows "binv (released b s) (H - {b})" "cache_same s (released b s)"
proof -
  let ?t = "released b s"
  have bn: "b < NBUF" using I b by (auto simp: binv_def)
  have h: "held s b" using binvD(1) [OF I bn b] .
  obtain ls where ls: "mru s ls" using I by (auto simp: binv_def)
  let ?u = "upd_buf b (\<lambda>v. v\<lparr>b_lock := \<lparr>sl_locked = False, sl_pid = 0\<rparr>, b_refcnt := b_refcnt v - 1\<rparr>) s"
  have "mru ?u ls" using ls mru_cong [of ?u s ls] by simp
  then have "mru ?t (b # remove1 b ls)" unfolding released_def using to_front_mru bn by blast
  moreover have "H - {b} \<subseteq> {..<NBUF}" "havedisk1 s" "idequeue s = []" using I by (auto simp: binv_def)
  moreover have "(if c \<in> H - {b} then held ?t c else idle ?t c \<and> coherent ?t c)
      \<and> (valid (bufs ?t c) \<longleftrightarrow> b_dev (bufs ?t c) = ROOTDEV)
      \<and> (valid (bufs ?t c) \<longrightarrow> blk ?t c < FSSIZE) \<and> (dirty (bufs ?t c) \<longrightarrow> valid (bufs ?t c))" if c: "c < NBUF" for c
  proof (cases "c = b")
    case True
    have "idle ?t b" "coherent ?t b" using h co by (simp_all add: idle_def held_def coherent_def)
    then show ?thesis using True binvD(4,5,6) [OF I bn] by auto
  next
    case False
    have "held ?t c = held s c" "idle ?t c = idle s c" "coherent ?t c = coherent s c"
      using False by (simp_all add: held_def idle_def coherent_def)
    then show ?thesis using False binvD [OF I c] by auto
  qed
  moreover have "\<forall>x < NBUF. \<forall>y < NBUF. valid (bufs ?t x) \<and> valid (bufs ?t y) \<and> blk ?t x = blk ?t y \<longrightarrow> x = y"
    using I unfolding binv_def by simp
  ultimately show "binv ?t (H - {b})" unfolding binv_def by auto
  have "view ?t = view s" by (rule ext) (simp add: view_def split: option.split)
  moreover have "dirtyb ?t = dirtyb s" by (simp add: dirtyb_def)
  ultimately show "cache_same s ?t" by (simp add: cache_same_def)
qed

section \<open>Initialisation\<close>

lemma binit_step_chain:
  assumes c: "chain s NBUF ys NBUF" and d: "b \<notin> set ys" "b \<noteq> NBUF" "NBUF \<notin> set ys" "distinct ys"
  shows "chain (binit_step b s) NBUF (b # ys) NBUF"
proof (cases ys)
  case Nil
  then show ?thesis using c d by (simp add: binit_step_def Let_def)
next
  case (Cons y zs)
  have y: "b_next (bufs s NBUF) = y" "y \<noteq> b" "y \<noteq> NBUF" using c d Cons by auto
  have n: "b_next (bufs (binit_step b s) v) = (if v = NBUF then b else if v = b then y else b_next (bufs s v))" for v
    using y d(2) by (simp add: binit_step_def Let_def)
  have p: "b_prev (bufs (binit_step b s) v) = (if v = y then b else if v = b then NBUF else b_prev (bufs s v))" for v
    using y d(2) by (simp add: binit_step_def Let_def)
  have "chain (binit_step b s) y zs NBUF = chain s y zs NBUF"
    using d y Cons by (intro chain_cong) (auto simp: n p)
  then show ?thesis using c y d Cons by (simp add: n p)
qed

lemma binit_step_fields:
  "b_flags (bufs (binit_step b s) v) = b_flags (bufs s v)" "b_dev (bufs (binit_step b s) v) = b_dev (bufs s v)"
  "b_refcnt (bufs (binit_step b s) v) = b_refcnt (bufs s v)" "b_data (bufs (binit_step b s) v) = b_data (bufs s v)"
  "disk (binit_step b s) = disk s" "dlog (binit_step b s) = dlog s" "havedisk1 (binit_step b s) = havedisk1 s"
  "curpid (binit_step b s) = curpid s" "idequeue (binit_step b s) = idequeue s"
  "sl_locked (b_lock (bufs (binit_step b s) v)) \<longleftrightarrow> v \<noteq> b \<and> sl_locked (b_lock (bufs s v))"
  by (simp_all add: binit_step_def Let_def initsleeplock_def)

lemma fold_binit:
  assumes "chain s NBUF [] NBUF" "k \<le> NBUF"
  shows "chain (fold binit_step [0..<k] s) NBUF (rev [0..<k]) NBUF"
  using assms(2)
proof (induction k)
  case (Suc k)
  then show ?case using binit_step_chain [of "fold binit_step [0..<k] s" "rev [0..<k]" k] by simp
qed (use assms in simp)

lemma fold_binit_fields:
  "b_flags (bufs (fold binit_step bs s) v) = b_flags (bufs s v)" "b_dev (bufs (fold binit_step bs s) v) = b_dev (bufs s v)"
  "b_refcnt (bufs (fold binit_step bs s) v) = b_refcnt (bufs s v)" "b_data (bufs (fold binit_step bs s) v) = b_data (bufs s v)"
  "disk (fold binit_step bs s) = disk s" "dlog (fold binit_step bs s) = dlog s" "havedisk1 (fold binit_step bs s) = havedisk1 s"
  "curpid (fold binit_step bs s) = curpid s" "idequeue (fold binit_step bs s) = idequeue s"
  "sl_locked (b_lock (bufs (fold binit_step bs s) v)) \<longleftrightarrow> v \<notin> set bs \<and> sl_locked (b_lock (bufs s v))"
  by (induction bs arbitrary: s) (auto simp: binit_step_fields)

lemma binit_mru: "mru (binit s) (rev [0..<NBUF])"
  by (auto simp: mru_def binit_def Let_def intro!: fold_binit)

lemma binit_fields [simp]:
  "b_flags (bufs (binit s) v) = b_flags (bufs s v)" "b_dev (bufs (binit s) v) = b_dev (bufs s v)"
  "b_refcnt (bufs (binit s) v) = b_refcnt (bufs s v)" "b_data (bufs (binit s) v) = b_data (bufs s v)"
  "disk (binit s) = disk s" "dlog (binit s) = dlog s" "havedisk1 (binit s) = havedisk1 s"
  "curpid (binit s) = curpid s" "idequeue (binit s) = idequeue s" "v < NBUF \<Longrightarrow> \<not> sl_locked (b_lock (bufs (binit s) v))"
  by (simp_all add: binit_def Let_def fold_binit_fields)

text \<open>From zeroed memory, \<open>binit\<close> establishes the invariant, with nothing cached.\<close>

lemma binit_ok:
  assumes z: "\<And>b. b_flags (bufs s b) = 0" "\<And>b. b_dev (bufs s b) = 0" "\<And>b. b_refcnt (bufs s b) = 0" and h: "havedisk1 s" "idequeue s = []"
  shows "binv (binit s) {}" "dirtyb (binit s) = {}" "\<And>b. \<not> valid (bufs (binit s) b)"
proof -
  have v: "\<not> valid (bufs (binit s) b)" "\<not> dirty (bufs (binit s) b)" for b using z(1) by (simp_all add: valid_def dirty_def)
  show "\<And>b. \<not> valid (bufs (binit s) b)" by (rule v(1))
  show "dirtyb (binit s) = {}" using v(2) by (simp add: dirtyb_def)
  have "idle (binit s) b \<and> coherent (binit s) b" if "b < NBUF" for b
    using that z(3) v by (simp add: idle_def coherent_def)
  then show "binv (binit s) {}" unfolding binv_def using v h z(2) exI [of "mru (binit s)", OF binit_mru] by (simp add: ROOTDEV_def)
qed

end
