(* ===== verification/XLog.thy ===== *)
theory XLog
  imports XBufInv
begin

text \<open>
  The redo log of the xv6 file system (xv6-public/log.c, and \<open>readsb\<close> of fs.c) over the buffer cache.

  \<open>log\<close> is the variable of that name without its spin lock, which makes the steps of \<open>begin_op\<close>,
  \<open>end_op\<close> and \<open>log_write\<close> atomic. The array \<open>lh_block\<close> has LOGSIZE elements; an index beyond them,
  which a header on disk with a count above LOGSIZE would lead to, is not modelled as the memory
  corruption it is.
\<close>

section \<open>Data\<close>

definition MAXOPBLOCKS :: int where "MAXOPBLOCKS = 10"
definition LOGSIZE :: int where "LOGSIZE = MAXOPBLOCKS * 3"

record log =
  l_start :: u32
  l_size :: int
  outstanding :: int
  committing :: bool
  l_dev :: u32
  lh_n :: int
  lh_block :: "nat \<Rightarrow> u32"

text \<open>The integers in a block, at byte offset \<open>k\<close>.\<close>

definition rdw :: "block \<Rightarrow> nat \<Rightarrow> u32" where
  "rdw d k = ucast (d k) OR push_bit 8 (ucast (d (k + 1))) OR push_bit 16 (ucast (d (k + 2))) OR push_bit 24 (ucast (d (k + 3)))"

definition wrw :: "nat \<Rightarrow> u32 \<Rightarrow> block \<Rightarrow> block" where
  "wrw k w d = d(k := ucast w, k + 1 := ucast (drop_bit 8 w), k + 2 := ucast (drop_bit 16 w), k + 3 := ucast (drop_bit 24 w))"

section \<open>Recovery and commit\<close>

text \<open>One round of the loops of \<open>install_trans\<close> and \<open>write_log\<close>.\<close>

definition install_step :: "log \<Rightarrow> nat \<Rightarrow> xstate \<Rightarrow> unit xres" where
  "install_step lg tail s =
     xbind (bread (l_dev lg) (l_start lg + word_of_nat tail + 1) s) (\<lambda>lbuf s.
     xbind (bread (l_dev lg) (lh_block lg tail) s) (\<lambda>dbuf s.
     xbind (bwrite dbuf (set_data dbuf (b_data (bufs s lbuf)) s)) (\<lambda>_ s.
     xbind (brelse lbuf s) (\<lambda>_ s. brelse dbuf s))))"

definition write_step :: "log \<Rightarrow> nat \<Rightarrow> xstate \<Rightarrow> unit xres" where
  "write_step lg tail s =
     xbind (bread (l_dev lg) (l_start lg + word_of_nat tail + 1) s) (\<lambda>to s.
     xbind (bread (l_dev lg) (lh_block lg tail) s) (\<lambda>from s.
     xbind (bwrite to (set_data to (b_data (bufs s from)) s)) (\<lambda>_ s.
     xbind (brelse from s) (\<lambda>_ s. brelse to s))))"

primrec for_tail :: "(nat \<Rightarrow> xstate \<Rightarrow> unit xres) \<Rightarrow> nat \<Rightarrow> xstate \<Rightarrow> unit xres" where
  "for_tail f 0 s = Done () s"
| "for_tail f (Suc n) s = xbind (for_tail f n s) (\<lambda>_ s. f n s)"

definition install_trans :: "log \<Rightarrow> xstate \<Rightarrow> unit xres" where
  "install_trans lg s = for_tail (install_step lg) (nat (lh_n lg)) s"

definition write_log :: "log \<Rightarrow> xstate \<Rightarrow> unit xres" where
  "write_log lg s = for_tail (write_step lg) (nat (lh_n lg)) s"

definition get_head :: "block \<Rightarrow> log \<Rightarrow> log" where
  "get_head d lg =
     (let lg = lg\<lparr>lh_n := sint (rdw d 0)\<rparr>
      in lg\<lparr>lh_block := (\<lambda>i. if int i < lh_n lg then rdw d (4 + 4 * i) else lh_block lg i)\<rparr>)"

definition put_head :: "log \<Rightarrow> block \<Rightarrow> block" where
  "put_head lg d = fold (\<lambda>i. wrw (4 + 4 * i) (lh_block lg i)) [0..<nat (lh_n lg)] (wrw 0 (word_of_int (lh_n lg)) d)"

definition read_head :: "log \<Rightarrow> xstate \<Rightarrow> log xres" where
  "read_head lg s =
     xbind (bread (l_dev lg) (l_start lg) s) (\<lambda>b s.
       let lg = get_head (b_data (bufs s b)) lg
       in xbind (brelse b s) (\<lambda>_ s. Done lg s))"

definition write_head :: "log \<Rightarrow> xstate \<Rightarrow> unit xres" where
  "write_head lg s =
     xbind (bread (l_dev lg) (l_start lg) s) (\<lambda>b s.
     xbind (bwrite b (set_data b (put_head lg (b_data (bufs s b))) s)) (\<lambda>_ s. brelse b s))"

definition recover_from_log :: "log \<Rightarrow> xstate \<Rightarrow> log xres" where
  "recover_from_log lg s =
     xbind (read_head lg s) (\<lambda>lg s.
     xbind (install_trans lg s) (\<lambda>_ s.
       let lg = lg\<lparr>lh_n := 0\<rparr>
       in xbind (write_head lg s) (\<lambda>_ s. Done lg s)))"

definition commit :: "log \<Rightarrow> xstate \<Rightarrow> log xres" where
  "commit lg s =
     (if 0 < lh_n lg
      then xbind (write_log lg s) (\<lambda>_ s.
           xbind (write_head lg s) (\<lambda>_ s.
           xbind (install_trans lg s) (\<lambda>_ s.
             let lg = lg\<lparr>lh_n := 0\<rparr>
             in xbind (write_head lg s) (\<lambda>_ s. Done lg s))))
      else Done lg s)"

section \<open>Start up\<close>

record superblock =
  sb_size :: u32
  sb_nblocks :: u32
  sb_ninodes :: u32
  sb_nlog :: u32
  sb_logstart :: u32
  sb_inodestart :: u32
  sb_bmapstart :: u32

definition readsb :: "u32 \<Rightarrow> xstate \<Rightarrow> superblock xres" where
  "readsb dev s =
     xbind (bread dev 1 s) (\<lambda>b s.
       let d = b_data (bufs s b);
           sb = \<lparr>sb_size = rdw d 0, sb_nblocks = rdw d 4, sb_ninodes = rdw d 8, sb_nlog = rdw d 12,
                 sb_logstart = rdw d 16, sb_inodestart = rdw d 20, sb_bmapstart = rdw d 24\<rparr>
       in xbind (brelse b s) (\<lambda>_ s. Done sb s))"

text \<open>The size of \<open>struct logheader\<close> is 124, below BSIZE, so the first panic is not reached.\<close>

definition initlog :: "u32 \<Rightarrow> log \<Rightarrow> xstate \<Rightarrow> log xres" where
  "initlog dev lg s =
     (if BSIZE \<le> 4 + 4 * nat LOGSIZE then Panicked ''initlog: too big logheader'' s
      else xbind (readsb dev s) (\<lambda>sb s.
             recover_from_log (lg\<lparr>l_start := sb_logstart sb, l_size := sint (sb_nlog sb), l_dev := dev\<rparr>) s))"

section \<open>System calls\<close>

text \<open>\<open>begin_op\<close>: None while the caller has to sleep.\<close>

definition begin_op :: "log \<Rightarrow> log option" where
  "begin_op lg =
     (if committing lg then None
      else if LOGSIZE < lh_n lg + (outstanding lg + 1) * MAXOPBLOCKS then None
      else Some (lg\<lparr>outstanding := outstanding lg + 1\<rparr>))"

definition end_op :: "log \<Rightarrow> xstate \<Rightarrow> log xres" where
  "end_op lg s =
     (let lg = lg\<lparr>outstanding := outstanding lg - 1\<rparr>
      in if committing lg then Panicked ''log.committing'' s
         else if outstanding lg = 0
         then xbind (commit (lg\<lparr>committing := True\<rparr>) s) (\<lambda>lg s. Done (lg\<lparr>committing := False\<rparr>) s)
         else Done lg s)"

text \<open>The position that \<open>log_write\<close> finds for a block.\<close>

definition log_slot :: "log \<Rightarrow> u32 \<Rightarrow> nat" where
  "log_slot lg blockno = (case find (\<lambda>i. lh_block lg i = blockno) [0..<nat (lh_n lg)] of Some i \<Rightarrow> i | None \<Rightarrow> nat (lh_n lg))"

definition log_write :: "nat \<Rightarrow> log \<Rightarrow> xstate \<Rightarrow> log xres" where
  "log_write b lg s =
     (if LOGSIZE \<le> lh_n lg \<or> l_size lg - 1 \<le> lh_n lg then Panicked ''too big a transaction'' s
      else if outstanding lg < 1 then Panicked ''log_write outside of trans'' s
      else let i = log_slot lg (b_blockno (bufs s b));
               lg = lg\<lparr>lh_block := (lh_block lg)(i := b_blockno (bufs s b))\<rparr>;
               lg = (if int i = lh_n lg then lg\<lparr>lh_n := lh_n lg + 1\<rparr> else lg)
           in Done lg (upd_buf b (\<lambda>v. v\<lparr>b_flags := b_flags v OR B_DIRTY\<rparr>) s))"

end
