(* ===== verification/XLogThms.thy ===== *)
theory XLogThms
  imports XLog
begin

text \<open>
  The log makes a transaction atomic with respect to crashes. The argument has two layers: a redo log
  in the abstract (\<open>redo_log\<close>), where a crash cuts a list of block writes short and recovery is a
  function of the disk, and the proof that \<open>commit\<close> and \<open>recover_from_log\<close>, running over the buffer
  cache, perform exactly these writes.
\<close>

section \<open>A redo log\<close>

definition play :: "('a \<times> 'b) list \<Rightarrow> ('a \<Rightarrow> 'b) \<Rightarrow> 'a \<Rightarrow> 'b" where
  "play ws d = fold (\<lambda>(a, v) d. d(a := v)) ws d"

lemma play_Nil [simp]: "play [] d = d"
  by (simp add: play_def)

lemma play_append [simp]: "play (xs @ ys) d = play ys (play xs d)"
  by (simp add: play_def)

lemma play_Cons [simp]: "play ((a, v) # ws) d = play ws (d(a := v))"
  by (simp add: play_def)

lemma play_other: "x \<notin> fst ` set ws \<Longrightarrow> play ws d x = d x"
  by (induction ws arbitrary: d) auto

text \<open>Writes to pairwise different addresses.\<close>

lemma play_map:
  assumes "inj_on f {..<n}" "i < n"
  shows "play (map (\<lambda>i. (f i, g i)) [0..<n]) d (f i) = g i"
  using assms
proof (induction n)
  case (Suc n)
  show ?case
  proof (cases "i = n")
    case False
    then have "f n \<noteq> f i" using Suc.prems by (auto simp: inj_on_def)
    then show ?thesis using Suc False by (auto simp: inj_on_def)
  qed simp
qed simp

lemma play_map_other: "(\<And>i. i < n \<Longrightarrow> f i \<noteq> x) \<Longrightarrow> play (map (\<lambda>i. (f i, g i)) [0..<n]) d x = d x"
  by (rule play_other) force

lemma play_value: "play ws d x = d x \<or> (\<exists>v. (x, v) \<in> set ws \<and> play ws d x = v)"
proof (induction ws arbitrary: d)
  case (Cons w ws)
  obtain a b where w: "w = (a, b)" by fastforce
  have "play ws (d(a := b)) x = (d(a := b)) x \<or> (\<exists>v. (x, v) \<in> set ws \<and> play ws (d(a := b)) x = v)" by (rule Cons)
  then show ?case unfolding w play_Cons by (metis fun_upd_apply list.set_intros)
qed simp

text \<open>
  \<open>enc as b\<close> is the header block \<open>b\<close> with the addresses \<open>as\<close> recorded in it; \<open>slot i\<close> is where the
  log keeps the block that belongs to address \<open>as ! i\<close>.
\<close>

locale redo_log =
  fixes hdr :: 'a
    and slot :: "nat \<Rightarrow> 'a"
    and enc :: "'a list \<Rightarrow> 'b \<Rightarrow> 'b"
    and dec :: "'b \<Rightarrow> 'a list"
    and cap :: nat
  assumes dec_enc: "length as \<le> cap \<Longrightarrow> dec (enc as b) = as"
    and slot_inj: "inj_on slot {..<cap}"
    and slot_hdr: "i < cap \<Longrightarrow> slot i \<noteq> hdr"
begin

definition area :: "'a set" where
  "area = insert hdr (slot ` {..<cap})"

definition log_writes :: "'a list \<Rightarrow> ('a \<Rightarrow> 'b) \<Rightarrow> ('a \<times> 'b) list" where
  "log_writes as val = map (\<lambda>i. (slot i, val (as ! i))) [0..<length as]"

definition home_writes :: "'a list \<Rightarrow> ('a \<Rightarrow> 'b) \<Rightarrow> ('a \<times> 'b) list" where
  "home_writes as val = map (\<lambda>i. (as ! i, val (as ! i))) [0..<length as]"

text \<open>The writes of a commit, and what recovery makes of a disk.\<close>

definition commit_writes :: "'a list \<Rightarrow> ('a \<Rightarrow> 'b) \<Rightarrow> ('a \<Rightarrow> 'b) \<Rightarrow> ('a \<times> 'b) list" where
  "commit_writes as val d = log_writes as val @ [(hdr, enc as (d hdr))] @ home_writes as val @ [(hdr, enc [] (enc as (d hdr)))]"

definition recovered :: "('a \<Rightarrow> 'b) \<Rightarrow> 'a \<Rightarrow> 'b" where
  "recovered d = (let as = dec (d hdr) in play (map (\<lambda>i. (as ! i, d (slot i))) [0..<length as] @ [(hdr, enc [] (d hdr))]) d)"

text \<open>A transaction: different addresses, outside the log, not too many.\<close>

definition trans_ok :: "'a list \<Rightarrow> bool" where
  "trans_ok as \<longleftrightarrow> distinct as \<and> set as \<inter> area = {} \<and> length as \<le> cap"

lemma trans_inj: "trans_ok as \<Longrightarrow> inj_on (\<lambda>i. as ! i) {..<length as}"
  by (auto simp: trans_ok_def inj_on_def nth_eq_iff_index_eq)

lemma slot_area: "i < cap \<Longrightarrow> slot i \<in> area" "hdr \<in> area"
  by (auto simp: area_def)

lemma play_homes:
  assumes t: "trans_ok as"
  shows "play (map (\<lambda>i. (as ! i, val (as ! i))) [0..<length as]) d x = (if x \<in> set as then val x else d x)"
proof (cases "x \<in> set as")
  case True
  then obtain i where "i < length as" "x = as ! i" by (auto simp: in_set_conv_nth)
  then show ?thesis using True play_map [OF trans_inj [OF t], of i "\<lambda>i. val (as ! i)" d] by simp
next
  case False
  then show ?thesis using play_map_other [of "length as" "\<lambda>i. as ! i" x] by (auto simp: in_set_conv_nth)
qed

text \<open>Before the header is written, recovery changes nothing outside the log.\<close>

lemma crash_before:
  assumes t: "trans_ok as" and d: "dec (d hdr) = []" and k: "k \<le> length as" and x: "x \<notin> area"
  shows "recovered (play (take k (log_writes as val)) d) x = d x"
proof -
  let ?d = "play (take k (log_writes as val)) d"
  have s: "slot i \<in> area" if "i < length as" for i using t that slot_area by (auto simp: trans_ok_def)
  have "take k (log_writes as val) = map (\<lambda>i. (slot i, val (as ! i))) [0..<k]"
    using k by (simp add: log_writes_def take_map)
  then have o: "?d y = d y" if "\<And>i. i < k \<Longrightarrow> slot i \<noteq> y" for y using that play_map_other [of k slot y] by simp
  have "?d hdr = d hdr" using k t slot_hdr by (intro o) (auto simp: trans_ok_def)
  moreover have "?d x = d x" using k x s by (intro o) auto
  moreover have "hdr \<noteq> x" using x slot_area(2) by auto
  ultimately show ?thesis using d by (simp add: recovered_def Let_def)
qed

text \<open>A disk whose header and slots hold the transaction recovers to its result.\<close>

lemma recover_install:
  assumes t: "trans_ok as" and h: "dec (d hdr) = as" and s: "\<And>i. i < length as \<Longrightarrow> d (slot i) = val (as ! i)"
    and x: "x \<notin> area"
  shows "recovered d x = (if x \<in> set as then val x else d x)"
proof -
  have hx: "hdr \<noteq> x" using x slot_area(2) by auto
  have m: "map (\<lambda>i. (as ! i, d (slot i))) [0..<length as] = map (\<lambda>i. (as ! i, val (as ! i))) [0..<length as]"
    using s by simp
  have "recovered d x = play (map (\<lambda>i. (as ! i, val (as ! i))) [0..<length as]) d x"
    using h hx by (simp add: recovered_def Let_def m)
  also have "\<dots> = (if x \<in> set as then val x else d x)" by (rule play_homes [OF t])
  finally show ?thesis .
qed

lemma crash_after:
  assumes t: "trans_ok as" and k: "k \<le> length as" and x: "x \<notin> area"
  shows "recovered (play (log_writes as val @ [(hdr, enc as (d hdr))] @ take k (home_writes as val)) d) x
    = (if x \<in> set as then val x else d x)"
proof -
  let ?l = "play (log_writes as val) d"
  let ?d = "play (take k (home_writes as val)) (?l(hdr := enc as (d hdr)))"
  have len: "length as \<le> cap" using t by (simp add: trans_ok_def)
  have a: "as ! i \<notin> area" if "i < length as" for i using t that nth_mem by (fastforce simp: trans_ok_def)
  have tk: "take k (home_writes as val) = map (\<lambda>i. (as ! i, val (as ! i))) [0..<k]"
    using k by (simp add: home_writes_def take_map)
  have o: "?d y = (?l(hdr := enc as (d hdr))) y" if "y \<in> area" for y
    using k a that unfolding tk by (intro play_map_other) auto
  have "?d hdr = enc as (d hdr)" using o slot_area(2) by simp
  then have h: "dec (?d hdr) = as" using dec_enc [OF len] by simp
  have s: "?d (slot i) = val (as ! i)" if i: "i < length as" for i
  proof -
    have "i < cap" using i len by simp
    then have "?d (slot i) = ?l (slot i)" using o slot_area(1) slot_hdr by simp
    also have "\<dots> = val (as ! i)" unfolding log_writes_def
      using i inj_on_subset [OF slot_inj, of "{..<length as}"] len by (intro play_map) auto
    finally show ?thesis .
  qed
  have "?l x = d x"
    unfolding log_writes_def using x len slot_area(1) by (intro play_map_other) fastforce
  then have "?d x = (if x \<in> set as then ?d x else d x)"
    unfolding tk using x slot_area(2) k
    by (auto simp: in_set_conv_nth play_map_other)
  then have "(if x \<in> set as then val x else ?d x) = (if x \<in> set as then val x else d x)" by auto
  then show ?thesis using recover_install [where d = ?d, OF t h s x] by simp
qed

text \<open>Without a crash the blocks of the transaction are in place.\<close>

lemma commit_result:
  assumes t: "trans_ok as" and x: "x \<notin> area"
  shows "play (commit_writes as val d) d x = (if x \<in> set as then val x else d x)"
proof -
  let ?l = "(play (log_writes as val) d)(hdr := enc as (d hdr))"
  have hx: "hdr \<noteq> x" using x slot_area(2) by auto
  have "play (log_writes as val) d x = d x"
    unfolding log_writes_def using x t slot_area(1) by (intro play_map_other) (fastforce simp: trans_ok_def)
  moreover have "play (home_writes as val) ?l x = (if x \<in> set as then val x else ?l x)"
    unfolding home_writes_def by (rule play_homes [OF t])
  ultimately show ?thesis using hx by (simp add: commit_writes_def)
qed

text \<open>The header that a crash leaves is one of three.\<close>

lemma crash_header:
  assumes t: "trans_ok as"
  shows "play (take k (commit_writes as val d)) d hdr \<in> {d hdr, enc as (d hdr), enc [] (enc as (d hdr))}"
proof -
  have "v = enc as (d hdr) \<or> v = enc [] (enc as (d hdr))" if "(hdr, v) \<in> set (commit_writes as val d)" for v
  proof -
    have "(hdr, v) \<notin> set (log_writes as val)"
      using t slot_hdr by (auto simp: log_writes_def trans_ok_def) (metis less_le_trans)
    moreover have "(hdr, v) \<notin> set (home_writes as val)"
      using t slot_area(2) by (auto simp: home_writes_def trans_ok_def dest!: nth_mem)
    ultimately show ?thesis using that by (auto simp: commit_writes_def)
  qed
  moreover have "set (take k (commit_writes as val d)) \<subseteq> set (commit_writes as val d)" by (rule set_take_subset)
  ultimately show ?thesis using play_value [of "take k (commit_writes as val d)" d hdr] by fastforce
qed

text \<open>A crash after any number of the writes of a commit leaves all of the transaction or nothing.\<close>

lemma crash_safe:
  assumes t: "trans_ok as" and d: "dec (d hdr) = []" and k: "k \<le> length (commit_writes as val d)"
  shows "(\<forall>x. x \<notin> area \<longrightarrow> recovered (play (take k (commit_writes as val d)) d) x = d x) \<or>
    (\<forall>x. x \<notin> area \<longrightarrow> recovered (play (take k (commit_writes as val d)) d) x = (if x \<in> set as then val x else d x))"
proof -
  let ?n = "length as"
  have ll: "length (log_writes as val) = ?n" "length (home_writes as val) = ?n" by (simp_all add: log_writes_def home_writes_def)
  consider "k \<le> ?n" | j where "k = ?n + 1 + j" "j \<le> ?n" | "k = 2 * ?n + 2"
    using k ll by (cases "k \<le> ?n"; cases "k = 2 * ?n + 2") (auto simp: commit_writes_def dest!: less_imp_Suc_add simp: not_le)
  then show ?thesis
  proof cases
    case 1
    then have "take k (commit_writes as val d) = take k (log_writes as val)" using ll by (simp add: commit_writes_def)
    then show ?thesis using crash_before [where d = d, OF t d 1] by simp
  next
    case 2
    then have "take k (commit_writes as val d) = log_writes as val @ [(hdr, enc as (d hdr))] @ take j (home_writes as val)"
      using ll by (simp add: commit_writes_def)
    then show ?thesis using crash_after [OF t 2(2)] by simp
  next
    case 3
    let ?d = "play (commit_writes as val d) d"
    have tk: "take k (commit_writes as val d) = commit_writes as val d" using 3 ll by (simp add: commit_writes_def)
    have h: "dec (?d hdr) = []" using dec_enc [of "[]"] by (simp add: commit_writes_def)
    have "recovered ?d x = (if x \<in> set as then val x else d x)" if x: "x \<notin> area" for x
      using recover_install [where d = ?d and val = val, OF _ h _ x] commit_result [OF t x] by (simp add: trans_ok_def)
    then show ?thesis unfolding tk by simp
  qed
qed

end

section \<open>The header block\<close>

lemma rdw_wrw:
  "rdw (wrw k w d) k = w" "j + 4 \<le> k \<or> k + 4 \<le> j \<Longrightarrow> rdw (wrw k w d) j = rdw d j"
  using word_from_bytes [of w] by (auto simp: rdw_def wrw_def)

definition head_enc :: "u32 list \<Rightarrow> block \<Rightarrow> block" where
  "head_enc as d = fold (\<lambda>i. wrw (4 + 4 * i) (as ! i)) [0..<length as] (wrw 0 (word_of_nat (length as)) d)"

definition head_dec :: "block \<Rightarrow> u32 list" where
  "head_dec d = map (\<lambda>i. rdw d (4 + 4 * i)) [0..<nat (sint (rdw d 0))]"

lemma fold_wrw:
  "rdw (fold (\<lambda>i. wrw (4 + 4 * i) (f i)) [0..<n] d) 0 = rdw d 0"
  "i < n \<Longrightarrow> rdw (fold (\<lambda>i. wrw (4 + 4 * i) (f i)) [0..<n] d) (4 + 4 * i) = f i"
proof (induction n)
  case (Suc n)
  {
    case 1
    then show ?case using Suc.IH(1) by (simp add: rdw_wrw)
  next
    case 2
    then show ?case using Suc.IH(2) by (cases "i = n") (auto simp: rdw_wrw)
  }
qed simp_all

lemma head_dec_enc: "length as \<le> 29 \<Longrightarrow> head_dec (head_enc as d) = as"
proof -
  assume l: "length as \<le> 29"
  let ?e = "head_enc as d"
  have "rdw ?e 0 = word_of_nat (length as)" by (simp add: head_enc_def fold_wrw(1) rdw_wrw)
  then have n: "nat (sint (rdw ?e 0)) = length as" using l by (simp add: sint32 unat_word_of_nat32)
  have "rdw ?e (4 + 4 * i) = as ! i" if "i < length as" for i
    using that unfolding head_enc_def by (rule fold_wrw(2))
  then show ?thesis unfolding head_dec_def n by (intro nth_equalityI) auto
qed

lemma slot_index: "i < 29 \<Longrightarrow> unat (word_of_nat i + 1 :: u32) = i + 1"
  using unat_word_of_nat32 [of "i + 1"] by (simp add: add.commute)

interpretation rlog: redo_log start "\<lambda>i. start + word_of_nat i + 1" head_enc head_dec 29 for start :: u32
proof
  show "head_dec (head_enc as b) = as" if "length as \<le> 29" for as b using that by (rule head_dec_enc)
  show "inj_on (\<lambda>i. start + word_of_nat i + 1) {..<29}"
    by (auto simp: inj_on_def word_of_nat_eq_iff32)
  show "start + word_of_nat i + 1 \<noteq> start" if "i < 29" for i
    using slot_index [OF that] by (auto simp: add.assoc)
qed

section \<open>The writes of the log\<close>

text \<open>An operation that ends with no buffer held and has performed the block writes \<open>ws\<close>.\<close>

definition dev1 :: "(u32 \<times> block) list \<Rightarrow> ((u32 \<times> u32) \<times> block) list" where
  "dev1 ws = map (\<lambda>(n, d). ((1, n), d)) ws"

definition performs :: "xstate \<Rightarrow> (u32 \<times> block) list \<Rightarrow> xstate \<Rightarrow> bool" where
  "performs s ws t \<longleftrightarrow> binv t {} \<and> disk t = play (dev1 ws) (disk s) \<and> dlog t = dlog s @ dev1 ws
     \<and> view t = play ws (view s) \<and> dirtyb t = dirtyb s - fst ` set ws \<and> curpid t = curpid s"

lemma performs_trans: "performs s ws t \<Longrightarrow> performs t ws' u \<Longrightarrow> performs s (ws @ ws') u"
  by (auto simp: performs_def dev1_def)

lemma play_dev1: "play (dev1 ws) d (1, n) = play ws (\<lambda>n. d (1, n)) n"
proof (induction ws arbitrary: d)
  case (Cons w ws)
  obtain a b where w: "w = (a, b)" by fastforce
  have e: "(\<lambda>n. (d((1, a) := b)) (1, n)) = (\<lambda>n. d (1, n))(a := b)" by auto
  have "play (dev1 (w # ws)) d (1, n) = play (dev1 ws) (d((1, a) := b)) (1, n)" by (simp only: w dev1_def list.map prod.case play_Cons)
  also have "\<dots> = play ws ((\<lambda>n. d (1, n))(a := b)) n" by (simp only: Cons e)
  finally show ?case by (simp only: w play_Cons)
qed (simp add: dev1_def)

text \<open>What \<open>bread\<close> returns may be released again.\<close>

lemma read_coherent:
  assumes "binv s {}" "cache_same s t" "blk t b = n" "b_data (bufs t b) = view s n" "dirty (bufs t b) \<longleftrightarrow> n \<in> dirtyb s"
  shows "coherent t b"
  using assms view_disk [OF assms(1), of n] by (auto simp: coherent_def cache_same_def)

lemma two_reads:
  assumes I: "binv s {}" and a: "A < FSSIZE" "B < FSSIZE" "A \<noteq> B" and room: "card (dirtyb s \<union> {A, B}) \<le> NBUF"
  shows "\<exists>x y u t. bread ROOTDEV A s = Done x u \<and> bread ROOTDEV B u = Done y t \<and> x \<noteq> y \<and> binv t {x, y} \<and> cache_same s t
    \<and> blk t x = A \<and> blk t y = B \<and> b_data (bufs t x) = view s A \<and> b_data (bufs t y) = view s B \<and> coherent t x \<and> coherent t y"
proof -
  have "card (dirtyb s \<union> {A}) \<le> card (dirtyb s \<union> {A, B})" by (rule card_mono) auto
  then have "card (dirtyb s \<union> blk s ` {} \<union> {A}) \<le> NBUF" using room by simp
  then obtain x u where x: "bread ROOTDEV A s = Done x u" "x < NBUF" "binv u {x}" "cache_same s u" "blk u x = A"
    "b_data (bufs u x) = view s A" "dirty (bufs u x) \<longleftrightarrow> A \<in> dirtyb s"
    using bread_ok [OF I a(1)] by auto
  have "B \<notin> blk u ` {x}" using x(5) a(3) by simp
  moreover have "card (dirtyb u \<union> blk u ` {x} \<union> {B}) \<le> NBUF" using room x(4,5) by (simp add: cache_same_def insert_commute)
  ultimately obtain y t where y: "bread ROOTDEV B u = Done y t" "y \<noteq> x" "binv t {y, x}" "cache_same u t" "blk t y = B"
    "b_data (bufs t y) = view u B" "\<forall>c. c \<noteq> y \<longrightarrow> bufs t c = bufs u c" "dirty (bufs t y) \<longleftrightarrow> B \<in> dirtyb u"
    using bread_ok [OF x(3) a(2)] by blast
  have st: "cache_same s t" using x(4) y(4) by (simp add: cache_same_def)
  have bx: "bufs t x = bufs u x" using y(2,7) by simp
  have cx: "coherent t x" using read_coherent [OF I st] bx x(5-7) by (simp add: blk_def)
  have cy: "coherent t y" using read_coherent [OF I st y(5)] y(6,8) x(4) by (simp add: cache_same_def)
  have "binv t {x, y}" using y(3) by (simp add: insert_commute)
  then show ?thesis using x(1,5,6) y(1,2,5,6) st cx cy bx x(4)
    by (intro exI [of _ x] exI [of _ y] exI [of _ u] exI [of _ t]) (auto simp: blk_def cache_same_def)
qed

text \<open>Change one of two held buffers, write it, and release both, in either order.\<close>

lemma change_release:
  assumes I: "binv s {x, y}" and ne: "x \<noteq> y" and co: "coherent s y"
    and w: "w = written x (set_data x d s)"
  shows "bwrite x (set_data x d s) = Done () w"
    "xbind (brelse y w) (\<lambda>_ s. brelse x s) = Done () (released x (released y w))"
    "xbind (brelse x w) (\<lambda>_ s. brelse y s) = Done () (released y (released x w))"
    "performs s [(blk s x, d)] (released x (released y w))" "performs s [(blk s x, d)] (released y (released x w))"
proof -
  let ?s = "set_data x d s"
  have J: "binv ?s {x, y}" "view ?s = (view s)(blk s x := d)" using set_data_ok [OF I, of x d] by auto
  show "bwrite x ?s = Done () w" using bwrite_run [OF J(1), of x] w by simp
  have W: "binv w {x, y}" "view w = view ?s" "dirtyb w = dirtyb s - {blk s x}" using bwrite_ok [OF J(1), of x] w by auto
  have lt: "x < NBUF" "y < NBUF" using I by (simp_all add: binv_def)
  have "caches s (blk s x) x" "caches s (blk s y) y"
    using lt binvD(1) [OF I lt(1)] binvD(1) [OF I lt(2)] by (simp_all add: caches_def held_def)
  then have b: "blk s x \<noteq> blk s y" using caches_unique [OF I] ne by metis
  have cx: "coherent w x" by (simp add: coherent_def w)
  have cy: "coherent w y" using co b ne by (simp add: coherent_def w)
  have cr: "coherent w c \<Longrightarrow> coherent (released b w) c" for b c by (simp add: coherent_def)
  have d: "disk w = play (dev1 [(blk s x, d)]) (disk s)" "dlog w = dlog s @ dev1 [(blk s x, d)]"
    using ne by (simp_all add: w dev1_def)
  have cp: "curpid w = curpid s" by (simp add: w)
  show "xbind (brelse y w) (\<lambda>_ s. brelse x s) = Done () (released x (released y w))"
    using brelse_run [OF W(1), of y] brelse_run [OF brelse_ok(1) [OF W(1) _ cy], of x] ne by simp
  show "xbind (brelse x w) (\<lambda>_ s. brelse y s) = Done () (released y (released x w))"
    using brelse_run [OF W(1), of x] brelse_run [OF brelse_ok(1) [OF W(1) _ cx], of y] ne by simp
  have e: "{x, y} - {y} - {x} = {}" "{x, y} - {x} - {y} = {}" by auto
  have fin: "performs s [(blk s x, d)] t" if "binv t {}" "cache_same w t" for t
    using that W(2,3) J(2) d cp by (simp add: performs_def cache_same_def)
  have y: "binv (released y w) ({x, y} - {y})" "cache_same w (released y w)" using brelse_ok [OF W(1) _ cy] by auto
  have x: "binv (released x w) ({x, y} - {x})" "cache_same w (released x w)" using brelse_ok [OF W(1) _ cx] by auto
  have "binv (released x (released y w)) ({x, y} - {y} - {x})" "cache_same (released y w) (released x (released y w))"
    using brelse_ok [OF y(1) _ cr [OF cx]] ne by auto
  then show "performs s [(blk s x, d)] (released x (released y w))" using y(2) unfolding e by (intro fin) (auto simp: cache_same_def)
  have "binv (released y (released x w)) ({x, y} - {x} - {y})" "cache_same (released x w) (released y (released x w))"
    using brelse_ok [OF x(1) _ cr [OF cy]] ne by auto
  then show "performs s [(blk s x, d)] (released y (released x w))" using x(2) unfolding e by (intro fin) (auto simp: cache_same_def)
qed

text \<open>The same for a single buffer.\<close>

lemma change_release1:
  assumes I: "binv s {x}" and w: "w = written x (set_data x d s)"
  shows "bwrite x (set_data x d s) = Done () w" "brelse x w = Done () (released x w)" "performs s [(blk s x, d)] (released x w)"
proof -
  let ?s = "set_data x d s"
  have J: "binv ?s {x}" "view ?s = (view s)(blk s x := d)" using set_data_ok [OF I, of x d] by auto
  show "bwrite x ?s = Done () w" using bwrite_run [OF J(1), of x] w by simp
  have W: "binv w {x}" "view w = view ?s" "dirtyb w = dirtyb s - {blk s x}" using bwrite_ok [OF J(1), of x] w by auto
  have cx: "coherent w x" by (simp add: coherent_def w)
  show "brelse x w = Done () (released x w)" using brelse_run [OF W(1), of x] by simp
  have "binv (released x w) ({x} - {x})" "cache_same w (released x w)" using brelse_ok [OF W(1) _ cx] by auto
  then show "performs s [(blk s x, d)] (released x w)"
    using W(2,3) J(2) by (simp add: performs_def cache_same_def w dev1_def)
qed

section \<open>The operations of the log\<close>

lemma card_two: "card (S \<union> {b}) + 1 \<le> n \<Longrightarrow> card (S \<union> {a, b}) \<le> n" for S :: "u32 set"
  by (simp add: card_insert_if insert_commute split: if_splits)

lemma install_step_run:
  assumes I: "binv s {}" and dv: "l_dev lg = ROOTDEV" and A: "A = l_start lg + word_of_nat k + 1" "A < FSSIZE"
    and B: "B = lh_block lg k" "B < FSSIZE" "A \<noteq> B" and room: "card (dirtyb s \<union> {B}) + 1 \<le> NBUF"
  shows "\<exists>t. install_step lg k s = Done () t \<and> performs s [(B, view s A)] t"
proof -
  obtain x y u t where r: "bread ROOTDEV A s = Done x u" "bread ROOTDEV B u = Done y t" "x \<noteq> y" "binv t {x, y}" "cache_same s t"
    "blk t x = A" "blk t y = B" "b_data (bufs t x) = view s A" "coherent t x"
    using two_reads [OF I A(2) B(2,3) card_two [OF room]] by blast
  have J: "binv t {y, x}" using r(4) by (simp add: insert_commute)
  let ?w = "written y (set_data y (view s A) t)"
  note c = change_release [OF J r(3) [symmetric] r(9), of ?w "view s A", OF refl]
  have "install_step lg k s = Done () (released y (released x ?w))"
    using r(1,2,8) c(1,2) by (simp add: install_step_def dv A(1) [symmetric] B(1) [symmetric])
  moreover have "performs s [(B, view s A)] (released y (released x ?w))"
    using c(4) r(5,7) by (simp add: performs_def cache_same_def)
  ultimately show ?thesis by blast
qed

lemma write_step_run:
  assumes I: "binv s {}" and dv: "l_dev lg = ROOTDEV" and A: "A = l_start lg + word_of_nat k + 1" "A < FSSIZE"
    and B: "B = lh_block lg k" "B < FSSIZE" "A \<noteq> B" and room: "card (dirtyb s \<union> {B}) + 1 \<le> NBUF"
  shows "\<exists>t. write_step lg k s = Done () t \<and> performs s [(A, view s B)] t"
proof -
  obtain x y u t where r: "bread ROOTDEV A s = Done x u" "bread ROOTDEV B u = Done y t" "x \<noteq> y" "binv t {x, y}" "cache_same s t"
    "blk t x = A" "blk t y = B" "b_data (bufs t y) = view s B" "coherent t y"
    using two_reads [OF I A(2) B(2,3) card_two [OF room]] by blast
  let ?w = "written x (set_data x (view s B) t)"
  note c = change_release [OF r(4,3,9), of ?w "view s B", OF refl]
  have "write_step lg k s = Done () (released x (released y ?w))"
    using r(1,2,8) c(1,2) by (simp add: write_step_def dv A(1) [symmetric] B(1) [symmetric])
  moreover have "performs s [(A, view s B)] (released x (released y ?w))"
    using c(4) r(5,6) by (simp add: performs_def cache_same_def)
  ultimately show ?thesis by blast
qed

lemma one_read:
  assumes I: "binv s {}" and a: "A < FSSIZE" and room: "card (dirtyb s \<union> {A}) \<le> NBUF"
  shows "\<exists>x t. bread ROOTDEV A s = Done x t \<and> binv t {x} \<and> cache_same s t \<and> blk t x = A
    \<and> b_data (bufs t x) = view s A \<and> coherent t x"
proof -
  obtain x u where x: "bread ROOTDEV A s = Done x u" "x < NBUF" "binv u {x}" "cache_same s u" "blk u x = A"
    "b_data (bufs u x) = view s A" "dirty (bufs u x) \<longleftrightarrow> A \<in> dirtyb s"
    using bread_ok [OF I a] room by auto
  then show ?thesis using read_coherent [OF I x(4,5,6,7)] by blast
qed

lemma write_head_run:
  assumes I: "binv s {}" and dv: "l_dev lg = ROOTDEV" and A: "l_start lg < FSSIZE" and room: "card (dirtyb s) + 1 \<le> NBUF"
  shows "\<exists>t. write_head lg s = Done () t \<and> performs s [(l_start lg, put_head lg (view s (l_start lg)))] t"
proof -
  have "card (dirtyb s \<union> {l_start lg}) \<le> NBUF" using room by (simp add: card_insert_if)
  then obtain x t where r: "bread ROOTDEV (l_start lg) s = Done x t" "binv t {x}" "cache_same s t" "blk t x = l_start lg"
    "b_data (bufs t x) = view s (l_start lg)"
    using one_read [OF I A] by blast
  let ?d = "put_head lg (view s (l_start lg))"
  let ?w = "written x (set_data x ?d t)"
  note c = change_release1 [OF r(2), of ?w ?d, OF refl]
  have "write_head lg s = Done () (released x ?w)" using r(1,5) c(1,2) by (simp add: write_head_def dv)
  moreover have "performs s [(l_start lg, ?d)] (released x ?w)" using c(3) r(3,4) by (simp add: performs_def cache_same_def)
  ultimately show ?thesis by blast
qed

lemma read_head_run:
  assumes I: "binv s {}" and dv: "l_dev lg = ROOTDEV" and A: "l_start lg < FSSIZE" and room: "card (dirtyb s) + 1 \<le> NBUF"
  shows "\<exists>t. read_head lg s = Done (get_head (view s (l_start lg)) lg) t \<and> performs s [] t"
proof -
  have "card (dirtyb s \<union> {l_start lg}) \<le> NBUF" using room by (simp add: card_insert_if)
  then obtain x t where r: "bread ROOTDEV (l_start lg) s = Done x t" "binv t {x}" "cache_same s t" "blk t x = l_start lg"
    "b_data (bufs t x) = view s (l_start lg)" "coherent t x"
    using one_read [OF I A] by blast
  have "brelse x t = Done () (released x t)" "binv (released x t) ({x} - {x})" "cache_same t (released x t)"
    using brelse_run [OF r(2)] brelse_ok [OF r(2) _ r(6)] by auto
  then show ?thesis
    using r(1,3,5) by (intro exI [of _ "released x t"]) (simp add: read_head_def dv Let_def performs_def cache_same_def dev1_def)
qed

text \<open>The blocks of a log of 30 blocks, and the transaction recorded in memory.\<close>

definition in_log :: "u32 \<Rightarrow> u32 \<Rightarrow> bool" where
  "in_log start b \<longleftrightarrow> start \<le> b \<and> b < start + 30"

definition logged :: "log \<Rightarrow> u32 list" where
  "logged lg = map (lh_block lg) [0..<nat (lh_n lg)]"

lemma start_fits: "unat start + 30 \<le> 1000 \<Longrightarrow> i < 30 \<Longrightarrow> unat (start + word_of_nat i) = unat start + i" for start :: u32
  by (simp add: unat_plus32 unat_word_of_nat32)

lemma area_in_log: "unat start + 30 \<le> 1000 \<Longrightarrow> b \<in> rlog.area start \<longleftrightarrow> in_log start b"
proof -
  assume s: "unat start + 30 \<le> 1000"
  have u: "unat (start + 30) = unat start + 30" using s by (simp add: unat_plus32)
  have "b \<in> rlog.area start \<longleftrightarrow> (\<exists>i < 30. b = start + word_of_nat i)"
  proof
    assume "b \<in> rlog.area start"
    then consider "b = start" | i where "i < 29" "b = start + word_of_nat i + 1" by (auto simp: rlog.area_def)
    then show "\<exists>i < 30. b = start + word_of_nat i"
    proof cases
      case 2
      then show ?thesis by (intro exI [of _ "Suc i"]) (simp add: add.commute add.left_commute)
    qed (auto intro: exI [of _ 0])
  next
    assume "\<exists>i < 30. b = start + word_of_nat i"
    then obtain i where i: "i < 30" "b = start + word_of_nat i" by blast
    then show "b \<in> rlog.area start"
      using image_eqI [of b "\<lambda>i. start + word_of_nat i + 1" "i - 1" "{..<29}"]
      unfolding rlog.area_def by (cases i) (auto simp: add.commute add.left_commute)
  qed
  also have "\<dots> \<longleftrightarrow> in_log start b"
  proof
    assume "\<exists>i < 30. b = start + word_of_nat i"
    then show "in_log start b" using start_fits [OF s] u by (auto simp: in_log_def word_le_nat_alt word_less_nat_alt)
  next
    assume "in_log start b"
    then have "unat start \<le> unat b" "unat b < unat start + 30" using u by (simp_all add: in_log_def word_le_nat_alt word_less_nat_alt)
    then have "unat b - unat start < 30" "b = start + word_of_nat (unat b - unat start)"
      using start_fits [OF s, of "unat b - unat start"] by (auto simp: word_unat_eq_iff)
    then show "\<exists>i < 30. b = start + word_of_nat i" by blast
  qed
  finally show ?thesis .
qed

lemma FSSIZE_less: "a < FSSIZE \<longleftrightarrow> unat a < 1000"
  by (simp add: FSSIZE_def word_less_nat_alt)

lemma slot_fits: "unat start + 30 \<le> 1000 \<Longrightarrow> i < 29 \<Longrightarrow> start + word_of_nat i + 1 < FSSIZE"
  using start_fits [of start "Suc i"] by (simp add: FSSIZE_less add.commute add.left_commute)

text \<open>A log in which a transaction may be recorded.\<close>

definition log_ok :: "log \<Rightarrow> bool" where
  "log_ok lg \<longleftrightarrow> l_dev lg = ROOTDEV \<and> unat (l_start lg) + 30 \<le> 1000 \<and> 0 \<le> lh_n lg \<and> lh_n lg \<le> 29
     \<and> distinct (logged lg) \<and> (\<forall>b \<in> set (logged lg). b < FSSIZE \<and> \<not> in_log (l_start lg) b)"

lemma log_okD:
  assumes "log_ok lg"
  shows "rlog.trans_ok (l_start lg) (logged lg)" "l_dev lg = ROOTDEV" "l_start lg < FSSIZE" "length (logged lg) = nat (lh_n lg)"
    "length (logged lg) \<le> 29" "\<And>i. i < nat (lh_n lg) \<Longrightarrow> logged lg ! i = lh_block lg i"
    "\<And>i. i < nat (lh_n lg) \<Longrightarrow> lh_block lg i < FSSIZE"
    "\<And>i. i < nat (lh_n lg) \<Longrightarrow> l_start lg + word_of_nat i + 1 < FSSIZE"
    "\<And>i. i < nat (lh_n lg) \<Longrightarrow> lh_block lg i \<notin> rlog.area (l_start lg)"
proof -
  have s: "unat (l_start lg) + 30 \<le> 1000" using assms by (simp add: log_ok_def)
  show "rlog.trans_ok (l_start lg) (logged lg)"
    using assms area_in_log [OF s] by (auto simp: rlog.trans_ok_def log_ok_def logged_def)
  show "l_dev lg = ROOTDEV" "l_start lg < FSSIZE" "length (logged lg) = nat (lh_n lg)" "length (logged lg) \<le> 29"
    using assms by (auto simp: log_ok_def logged_def FSSIZE_less)
  show "logged lg ! i = lh_block lg i" "lh_block lg i < FSSIZE" "l_start lg + word_of_nat i + 1 < FSSIZE"
    "lh_block lg i \<notin> rlog.area (l_start lg)" if "i < nat (lh_n lg)" for i
    using assms that slot_fits [OF s, of i] area_in_log [OF s] by (auto simp: log_ok_def logged_def)
qed

lemma put_head_enc: "0 \<le> lh_n lg \<Longrightarrow> put_head lg d = head_enc (logged lg) d"
  unfolding put_head_def head_enc_def logged_def by (intro fold_cong) auto

text \<open>The two loops.\<close>

lemma performs_room: "performs s ws t \<Longrightarrow> card (dirtyb s \<union> B) + 1 \<le> NBUF \<Longrightarrow> card (dirtyb t \<union> B) + 1 \<le> NBUF"
proof -
  assume p: "performs s ws t" and c: "card (dirtyb s \<union> B) + 1 \<le> NBUF"
  have "card (dirtyb t \<union> B) \<le> card (dirtyb s \<union> B)" using p by (intro card_mono) (auto simp: performs_def)
  then show ?thesis using c by simp
qed

lemma for_tail_performs:
  assumes I: "binv s {}"
    and step: "\<And>i t. i < n \<Longrightarrow> performs s (map w [0..<i]) t \<Longrightarrow> \<exists>u. f i t = Done () u \<and> performs t [w i] u"
  shows "\<exists>t. for_tail f n s = Done () t \<and> performs s (map w [0..<n]) t"
  using step
proof (induction n)
  case 0
  then show ?case using I by (simp add: performs_def dev1_def)
next
  case (Suc n)
  then obtain t where t: "for_tail f n s = Done () t" "performs s (map w [0..<n]) t" by auto
  then obtain u where u: "f n t = Done () u" "performs t [w n] u" using Suc.prems [of n t] by auto
  then show ?case using t performs_trans [OF t(2) u(2)] by simp
qed

lemma write_log_run:
  assumes I: "binv s {}" and L: "log_ok lg" and room: "\<And>b. b \<in> set (logged lg) \<Longrightarrow> card (dirtyb s \<union> {b}) + 1 \<le> NBUF"
  shows "\<exists>t. write_log lg s = Done () t \<and> performs s (rlog.log_writes (l_start lg) (logged lg) (view s)) t"
proof -
  note D = log_okD [OF L]
  let ?w = "\<lambda>i. (l_start lg + word_of_nat i + 1, view s (logged lg ! i))"
  have "\<exists>u. write_step lg i t = Done () u \<and> performs t [?w i] u" if i: "i < nat (lh_n lg)" and t: "performs s (map ?w [0..<i]) t" for i t
  proof -
    have b: "lh_block lg i \<in> set (logged lg)" using D(4) D(6) [OF i] i by (metis nth_mem)
    have "view t (lh_block lg i) = view s (lh_block lg i)"
    proof -
      have "l_start lg + word_of_nat j + 1 \<in> rlog.area (l_start lg)" if "j < i" for j
        using that i D(4,5) by (intro rlog.slot_area) simp
      then have "lh_block lg i \<notin> fst ` set (map ?w [0..<i])" using D(9) [OF i] by auto
      then show ?thesis using t play_other by (simp add: performs_def del: set_map)
    qed
    moreover have "l_start lg + word_of_nat i + 1 \<noteq> lh_block lg i"
      using D(9) [OF i] rlog.slot_area(1) [of i "l_start lg"] i D(4,5) by fastforce
    moreover have "binv t {}" using t by (simp add: performs_def)
    ultimately show ?thesis
      using write_step_run [OF _ D(2) refl D(8) [OF i] refl D(7) [OF i] _ performs_room [OF t room [OF b]]] D(6) [OF i] by simp
  qed
  from for_tail_performs [OF I this] show ?thesis
    by (simp add: write_log_def rlog.log_writes_def D(4))
qed

lemma install_run:
  assumes I: "binv s {}" and L: "log_ok lg" and room: "\<And>b. b \<in> set (logged lg) \<Longrightarrow> card (dirtyb s \<union> {b}) + 1 \<le> NBUF"
  shows "\<exists>t. install_trans lg s = Done () t
    \<and> performs s (map (\<lambda>i. (logged lg ! i, view s (l_start lg + word_of_nat i + 1))) [0..<length (logged lg)]) t"
proof -
  note D = log_okD [OF L]
  let ?w = "\<lambda>i. (logged lg ! i, view s (l_start lg + word_of_nat i + 1))"
  have "\<exists>u. install_step lg i t = Done () u \<and> performs t [?w i] u" if i: "i < nat (lh_n lg)" and t: "performs s (map ?w [0..<i]) t" for i t
  proof -
    have b: "lh_block lg i \<in> set (logged lg)" using D(4) D(6) [OF i] i by (metis nth_mem)
    have a: "l_start lg + word_of_nat i + 1 \<in> rlog.area (l_start lg)" using i D(4,5) by (intro rlog.slot_area) simp
    have "logged lg ! j \<notin> rlog.area (l_start lg)" if "j < i" for j using that i D(6) [of j] D(9) [of j] by simp
    then have "l_start lg + word_of_nat i + 1 \<notin> fst ` set (map ?w [0..<i])" using a by fastforce
    then have "view t (l_start lg + word_of_nat i + 1) = view s (l_start lg + word_of_nat i + 1)"
      using t play_other by (simp add: performs_def del: set_map)
    moreover have "l_start lg + word_of_nat i + 1 \<noteq> lh_block lg i" using D(9) [OF i] a by fastforce
    moreover have "binv t {}" using t by (simp add: performs_def)
    ultimately show ?thesis
      using install_step_run [OF _ D(2) refl D(8) [OF i] refl D(7) [OF i] _ performs_room [OF t room [OF b]]] D(6) [OF i] by simp
  qed
  from for_tail_performs [OF I this] show ?thesis by (simp add: install_trans_def D(4))
qed

section \<open>Recovery\<close>

lemma head_count: "rdw (head_enc as d) 0 = word_of_nat (length as)"
  by (simp add: head_enc_def fold_wrw(1) rdw_wrw)

lemma clean_view: "binv s {} \<Longrightarrow> dirtyb s = {} \<Longrightarrow> view s = (\<lambda>n. disk s (1, n))"
  using view_disk by auto

lemma performs_disk: "performs s ws t \<Longrightarrow> (\<lambda>n. disk t (1, n)) = play ws (\<lambda>n. disk s (1, n))"
  by (rule ext) (simp add: performs_def play_dev1)

lemma recover_run:
  assumes I: "binv s {}" and c: "dirtyb s = {}" and lg: "l_dev lg = ROOTDEV" "unat (l_start lg) + 30 \<le> 1000"
    and d: "d = (\<lambda>n. disk s (1, n))" and n: "0 \<le> sint (rdw (d (l_start lg)) 0)"
    and T: "rlog.trans_ok (l_start lg) (head_dec (d (l_start lg)))" "\<forall>b \<in> set (head_dec (d (l_start lg))). b < FSSIZE"
  shows "\<exists>lg' t. recover_from_log lg s = Done lg' t \<and> lh_n lg' = 0 \<and> binv t {} \<and> dirtyb t = {}
    \<and> (\<lambda>n. disk t (1, n)) = rlog.recovered (l_start lg) d"
proof -
  let ?h = "l_start lg"
  let ?lg = "get_head (d ?h) lg"
  have v: "view s = d" using clean_view [OF I c] d by simp
  have h: "?h < FSSIZE" using lg(2) by (simp add: FSSIZE_less)
  have room: "card (dirtyb s) + 1 \<le> NBUF" using c by (simp add: NBUF_def)
  obtain t where t: "read_head lg s = Done ?lg t" "performs s [] t"
    using read_head_run [OF I lg(1) h room] v by auto
  have ll: "logged ?lg = head_dec (d ?h)" by (auto simp: logged_def head_dec_def get_head_def Let_def)
  have f: "l_start ?lg = ?h" "l_dev ?lg = ROOTDEV" "lh_n ?lg = sint (rdw (d ?h) 0)"
    using lg(1) by (simp_all add: get_head_def Let_def)
  have "length (logged ?lg) \<le> 29" using T(1) ll by (simp add: rlog.trans_ok_def)
  then have "lh_n ?lg \<le> 29" using n by (simp add: logged_def f)
  then have L: "log_ok ?lg"
    using T f n lg(2) ll area_in_log [OF lg(2)] by (auto simp: log_ok_def rlog.trans_ok_def)
  have J: "binv t {}" "dirtyb t = {}" "view t = d" using t(2) c v by (simp_all add: performs_def dev1_def)
  let ?ws = "map (\<lambda>i. (logged ?lg ! i, d (?h + word_of_nat i + 1))) [0..<length (logged ?lg)]"
  obtain u where u: "install_trans ?lg t = Done () u" "performs t ?ws u"
    using install_run [OF J(1) L] J f by (auto simp: NBUF_def)
  have U: "binv u {}" "dirtyb u = {}" using u(2) J(2) by (simp_all add: performs_def)
  have "?h \<notin> set (logged ?lg)"
    using T(1) ll rlog.slot_area(2) [of ?h] by (auto simp: rlog.trans_ok_def)
  then have "?h \<notin> fst ` set ?ws" by (auto simp: in_set_conv_nth)
  then have vh: "view u ?h = d ?h" using u(2) J(3) play_other by (simp add: performs_def del: set_map)
  let ?l0 = "?lg\<lparr>lh_n := 0\<rparr>"
  have room': "card (dirtyb u) + 1 \<le> NBUF" using U(2) by (simp add: NBUF_def)
  have hh: "l_dev ?l0 = ROOTDEV" "l_start ?l0 < FSSIZE" using f h by simp_all
  obtain x where x: "write_head ?l0 u = Done () x" "performs u [(?h, head_enc [] (d ?h))] x"
    using write_head_run [OF U(1) hh room'] put_head_enc [of ?l0 "d ?h"] vh f by (auto simp: logged_def)
  have P: "performs s ([] @ ?ws @ [(?h, head_enc [] (d ?h))]) x"
    by (intro performs_trans [OF t(2)] performs_trans [OF u(2) x(2)])
  have "(\<lambda>n. disk x (1, n)) = rlog.recovered ?h d"
    using performs_disk [OF P] d ll by (simp add: rlog.recovered_def Let_def)
  moreover have "recover_from_log lg s = Done ?l0 x"
    using t(1) u(1) x(1) by (simp add: recover_from_log_def Let_def)
  moreover have "binv x {}" "dirtyb x = {}" using P c by (simp_all add: performs_def)
  ultimately show ?thesis by auto
qed

section \<open>Commit\<close>

lemma commit_run:
  assumes I: "binv s {}" and L: "log_ok lg" "0 < lh_n lg" and dt: "dirtyb s = set (logged lg)"
    and d: "d = (\<lambda>n. disk s (1, n))"
  shows "\<exists>t. commit lg s = Done (lg\<lparr>lh_n := 0\<rparr>) t \<and> performs s (rlog.commit_writes (l_start lg) (logged lg) (view s) d) t"
proof -
  let ?h = "l_start lg" and ?as = "logged lg"
  note D = log_okD [OF L(1)]
  have T: "distinct ?as" "set ?as \<inter> rlog.area ?h = {}" "length ?as \<le> 29" using D(1) by (simp_all add: rlog.trans_ok_def)
  have "card (dirtyb s) \<le> 29" using dt T(1,3) by (simp add: distinct_card)
  then have room: "card (dirtyb s \<union> {b}) + 1 \<le> NBUF" if "b \<in> set ?as" for b
    using that dt by (simp add: NBUF_def insert_absorb)
  have hd: "?h \<notin> set ?as" using T(2) rlog.slot_area(2) [of ?h] by auto
  have vh: "view s ?h = d ?h" using view_disk [OF I, of ?h] hd dt d by simp
  obtain t1 where t1: "write_log lg s = Done () t1" "performs s (rlog.log_writes ?h ?as (view s)) t1"
    using write_log_run [OF I L(1) room] by auto
  have vh1: "view t1 ?h = d ?h"
  proof -
    have "?h \<notin> fst ` set (rlog.log_writes ?h ?as (view s))"
      using T(3) rlog.slot_hdr [of _ ?h] by (fastforce simp: rlog.log_writes_def)
    then show ?thesis using t1(2) play_other [of ?h _ "view s"] vh by (simp add: performs_def)
  qed
  have J1: "binv t1 {}" using t1(2) by (simp add: performs_def)
  have r1: "card (dirtyb t1) + 1 \<le> NBUF" using performs_room [OF t1(2), of "{}"] \<open>card (dirtyb s) \<le> 29\<close> by (simp add: NBUF_def)
  obtain t2 where t2: "write_head lg t1 = Done () t2" "performs t1 [(?h, head_enc ?as (d ?h))] t2"
    using write_head_run [OF J1 D(2,3) r1] put_head_enc [of lg] vh1 L(2) by auto
  have P2: "performs s (rlog.log_writes ?h ?as (view s) @ [(?h, head_enc ?as (d ?h))]) t2"
    by (rule performs_trans [OF t1(2) t2(2)])
  have J2: "binv t2 {}" using t2(2) by (simp add: performs_def)
  have vs: "view t2 (?h + word_of_nat i + 1) = view s (?as ! i)" if i: "i < length ?as" for i
  proof -
    have c: "i < 29" using i T(3) by simp
    have "view t2 (?h + word_of_nat i + 1) = play (rlog.log_writes ?h ?as (view s)) (view s) (?h + word_of_nat i + 1)"
      using P2 rlog.slot_hdr [OF c, of ?h] by (simp add: performs_def)
    also have "\<dots> = view s (?as ! i)" unfolding rlog.log_writes_def
      using i inj_on_subset [OF rlog.slot_inj [of ?h], of "{..<length ?as}"] T(3) by (intro play_map) auto
    finally show ?thesis .
  qed
  have "map (\<lambda>i. (?as ! i, view t2 (?h + word_of_nat i + 1))) [0..<length ?as] = rlog.home_writes ?as (view s)"
    using vs by (simp add: rlog.home_writes_def)
  then obtain t3 where t3: "install_trans lg t2 = Done () t3" "performs t2 (rlog.home_writes ?as (view s)) t3"
    using install_run [OF J2 L(1) performs_room [OF P2 room]] by auto
  have P3: "performs s ((rlog.log_writes ?h ?as (view s) @ [(?h, head_enc ?as (d ?h))]) @ rlog.home_writes ?as (view s)) t3"
    by (rule performs_trans [OF P2 t3(2)])
  have vh3: "view t3 ?h = head_enc ?as (d ?h)"
  proof -
    have "?h \<notin> fst ` set (rlog.home_writes ?as (view s))" using hd by (auto simp: rlog.home_writes_def)
    then have "view t3 ?h = play (rlog.log_writes ?h ?as (view s) @ [(?h, head_enc ?as (d ?h))]) (view s) ?h"
      using P3 play_other [of ?h "rlog.home_writes ?as (view s)"] by (simp add: performs_def)
    then show ?thesis by simp
  qed
  have J3: "binv t3 {}" using t3(2) by (simp add: performs_def)
  have r3: "card (dirtyb t3) + 1 \<le> NBUF" using performs_room [OF P3, of "{}"] \<open>card (dirtyb s) \<le> 29\<close> by (simp add: NBUF_def)
  let ?l0 = "lg\<lparr>lh_n := 0\<rparr>"
  have hh: "l_dev ?l0 = ROOTDEV" "l_start ?l0 < FSSIZE" using D(2,3) by simp_all
  obtain t4 where t4: "write_head ?l0 t3 = Done () t4" "performs t3 [(?h, head_enc [] (head_enc ?as (d ?h)))] t4"
    using write_head_run [OF J3 hh r3] put_head_enc [of ?l0] vh3 by (auto simp: logged_def)
  have "performs s (rlog.commit_writes ?h ?as (view s) d) t4"
    using performs_trans [OF P3 t4(2)] by (simp add: rlog.commit_writes_def)
  moreover have "commit lg s = Done ?l0 t4" using t1(1) t2(1) t3(1) t4(1) L(2) by (simp add: commit_def Let_def)
  ultimately show ?thesis by blast
qed

text \<open>
  C4: a transaction is atomic across crashes. \<open>commit\<close> terminates without panic and writes the
  changed blocks to their homes. If the machine stops after any number of its block writes, then
  recovery at the next start, from whatever clean cache, succeeds and leaves the file system (all
  blocks outside the log) either exactly as it was before the transaction or with every block of the
  transaction in place.
\<close>

theorem commit_atomic:
  assumes I: "binv s {}" and L: "log_ok lg" "0 < lh_n lg" and dt: "dirtyb s = set (logged lg)"
    and empty: "rdw (disk s (1, l_start lg)) 0 = 0"
  shows "\<exists>t ws. commit lg s = Done (lg\<lparr>lh_n := 0\<rparr>) t \<and> binv t {} \<and> dirtyb t = {}
    \<and> dlog t = dlog s @ ws \<and> disk t = play ws (disk s)
    \<and> (\<forall>b. \<not> in_log (l_start lg) b \<longrightarrow> disk t (1, b) = view s b)
    \<and> (\<forall>k r lg1. k \<le> length ws \<longrightarrow> binv r {} \<longrightarrow> dirtyb r = {} \<longrightarrow> disk r = play (take k ws) (disk s) \<longrightarrow>
         l_dev lg1 = ROOTDEV \<longrightarrow> l_start lg1 = l_start lg \<longrightarrow>
         (\<exists>lg2 u. recover_from_log lg1 r = Done lg2 u \<and> lh_n lg2 = 0
           \<and> ((\<forall>b. \<not> in_log (l_start lg) b \<longrightarrow> disk u (1, b) = disk s (1, b))
            \<or> (\<forall>b. \<not> in_log (l_start lg) b \<longrightarrow> disk u (1, b) = view s b))))"
proof -
  let ?h = "l_start lg" and ?as = "logged lg" and ?d = "\<lambda>n. disk s (1, n)"
  let ?ws = "rlog.commit_writes ?h ?as (view s) ?d"
  note D = log_okD [OF L(1)]
  have fit: "unat ?h + 30 \<le> 1000" using L(1) by (simp add: log_ok_def)
  have ar: "b \<notin> rlog.area ?h \<longleftrightarrow> \<not> in_log ?h b" for b using area_in_log [OF fit] by simp
  have dec0: "head_dec (?d ?h) = []" using empty by (simp add: head_dec_def)
  have new: "(if b \<in> set ?as then view s b else ?d b) = view s b" for b using view_disk [OF I, of b] dt by simp
  obtain t where t: "commit lg s = Done (lg\<lparr>lh_n := 0\<rparr>) t" "performs s ?ws t" using commit_run [OF I L dt refl] by blast
  have crash: "\<exists>lg2 u. recover_from_log lg1 r = Done lg2 u \<and> lh_n lg2 = 0
      \<and> ((\<forall>b. \<not> in_log ?h b \<longrightarrow> disk u (1, b) = ?d b) \<or> (\<forall>b. \<not> in_log ?h b \<longrightarrow> disk u (1, b) = view s b))"
    if r: "k \<le> length (dev1 ?ws)" "binv r {}" "dirtyb r = {}" "disk r = play (take k (dev1 ?ws)) (disk s)"
      "l_dev lg1 = ROOTDEV" "l_start lg1 = ?h" for k r lg1
  proof -
    let ?r = "play (take k ?ws) ?d"
    have dr: "(\<lambda>n. disk r (1, n)) = ?r" using r(4) play_dev1 [of "take k ?ws"] by (auto simp: dev1_def take_map)
    have "?r ?h \<in> {?d ?h, head_enc ?as (?d ?h), head_enc [] (head_enc ?as (?d ?h))}" by (rule rlog.crash_header [OF D(1)])
    then have hc: "sint (rdw (?r ?h) 0) \<ge> 0" "head_dec (?r ?h) \<in> {[], ?as}"
      using empty dec0 head_dec_enc [OF D(5)] head_dec_enc [of "[]"] head_count D(5)
      by (auto simp: sint32 unat_word_of_nat32)
    have T: "rlog.trans_ok ?h (head_dec (?r ?h))" "\<forall>b \<in> set (head_dec (?r ?h)). b < FSSIZE"
      using hc(2) D(1) L(1) by (auto simp: rlog.trans_ok_def log_ok_def)
    obtain lg2 u where u: "recover_from_log lg1 r = Done lg2 u" "lh_n lg2 = 0" "(\<lambda>n. disk u (1, n)) = rlog.recovered ?h ?r"
      using recover_run [OF r(2,3,5) _ dr [symmetric]] hc(1) T fit r(6) by auto
    have du: "disk u (1, b) = rlog.recovered ?h ?r b" for b using u(3) by (simp add: fun_eq_iff)
    have "k \<le> length ?ws" using r(1) by (simp add: dev1_def)
    from rlog.crash_safe [where d = ?d, OF D(1) dec0 this] have
      "(\<forall>b. \<not> in_log ?h b \<longrightarrow> disk u (1, b) = ?d b) \<or> (\<forall>b. \<not> in_log ?h b \<longrightarrow> disk u (1, b) = view s b)"
      unfolding ar du new .
    then show ?thesis using u(1,2) by blast
  qed
  have homes: "disk t (1, b) = view s b" if "\<not> in_log ?h b" for b
    using fun_cong [OF performs_disk [OF t(2)], of b] rlog.commit_result [OF D(1), of b "view s" ?d] that ar new by simp
  have "set ?as \<subseteq> fst ` set ?ws"
    by (auto simp: rlog.commit_writes_def rlog.home_writes_def in_set_conv_nth image_Un image_image)
  then have "dirtyb t = {}" using t(2) dt by (auto simp: performs_def)
  then show ?thesis using t homes crash unfolding performs_def by blast
qed

text \<open>A machine at start, and a log with one block.\<close>

definition zbuf :: buf where
  "zbuf = \<lparr>b_flags = 0, b_dev = 0, b_blockno = 0, b_lock = \<lparr>sl_locked = False, sl_pid = 0\<rparr>, b_refcnt = 0, b_prev = 0, b_next = 0,
     b_data = (\<lambda>_. 0)\<rparr>"

definition zstate :: "(u32 \<times> u32 \<Rightarrow> block) \<Rightarrow> xstate" where
  "zstate d = \<lparr>bufs = (\<lambda>_. zbuf), disk = d, dlog = [], havedisk1 = True, idequeue = [], curpid = 1\<rparr>"

definition ex_state :: xstate where
  "ex_state = upd_buf 0 (\<lambda>v. v\<lparr>b_flags := 6, b_dev := 1, b_blockno := 100, b_data := (\<lambda>_. 7)\<rparr>) (binit (zstate (\<lambda>_ _. 0)))"

definition ex_log :: log where
  "ex_log = \<lparr>l_start = 2, l_size = 30, outstanding = 0, committing = False, l_dev = 1, lh_n = 1, lh_block = (\<lambda>_. 100)\<rparr>"

lemma zstate_ok: "binv (binit (zstate d)) {}" "dirtyb (binit (zstate d)) = {}" "\<not> valid (bufs (binit (zstate d)) b)"
  by (rule binit_ok; simp add: zstate_def zbuf_def)+

lemma ex_state_fields:
  "bit (6 :: u32) 1" "bit (6 :: u32) 2" "blk ex_state 0 = 100" "disk ex_state = (\<lambda>_ _. 0)"
  "c \<noteq> 0 \<Longrightarrow> bufs ex_state c = bufs (binit (zstate (\<lambda>_ _. 0))) c" "valid (bufs ex_state 0)" "dirty (bufs ex_state 0)"
  by (simp_all add: ex_state_def blk_def valid_def dirty_def zstate_def)

lemma ex_state_ok: "binv ex_state {}" "dirtyb ex_state = {100}" "view ex_state 100 = (\<lambda>_. 7)"
proof -
  have n: "0 < NBUF" by (simp add: NBUF_def)
  show I: "binv ex_state {}"
  proof (rule binv_upd [OF zstate_ok(1) n ex_state_fields(5)])
    have "b_next (bufs ex_state v) = b_next (bufs (binit (zstate (\<lambda>_ _. 0))) v) \<and> b_prev (bufs ex_state v) = b_prev (bufs (binit (zstate (\<lambda>_ _. 0))) v)" for v
      by (simp add: ex_state_def)
    then show "\<exists>ls. mru ex_state ls" if "mru (binit (zstate (\<lambda>_ _. 0))) ls" for ls
      using that mru_cong by blast
    show "idle ex_state 0 \<and> coherent ex_state 0"
      using n ex_state_fields(7) by (simp add: idle_def coherent_def) (simp add: ex_state_def zstate_def zbuf_def)
  qed (use ex_state_fields zstate_ok(3) in \<open>auto simp: ex_state_def ROOTDEV_def FSSIZE_def zstate_def\<close>)
  have "dirty (bufs ex_state c) \<longleftrightarrow> c = 0" for c
    using ex_state_fields zstate_ok(3) by (cases "c = 0") (auto simp: dirty_def zstate_def zbuf_def)
  then show "dirtyb ex_state = {100}" using ex_state_fields(3) n by (auto simp: dirtyb_def)
  have "caches ex_state 100 0" using ex_state_fields n by (simp add: caches_def)
  then show "view ex_state 100 = (\<lambda>_. 7)" using view_cached [OF I] by (simp add: ex_state_def)
qed

lemma ex_log_ok: "log_ok ex_log" "logged ex_log = [100]"
  by (simp_all add: log_ok_def ex_log_def logged_def ROOTDEV_def in_log_def FSSIZE_def)

theorem commit_atomic_witness:
  "\<exists>t ws lg2 u. commit ex_log ex_state = Done (ex_log\<lparr>lh_n := 0\<rparr>) t \<and> disk t (1, 100) = (\<lambda>_. 7) \<and> 1 \<le> length ws
    \<and> recover_from_log ex_log (binit (zstate (play (take 1 ws) (disk ex_state)))) = Done lg2 u \<and> lh_n lg2 = 0"
proof -
  have H: "0 < lh_n ex_log" "dirtyb ex_state = set (logged ex_log)" "rdw (disk ex_state (1, l_start ex_log)) 0 = 0"
    "l_dev ex_log = ROOTDEV" "\<not> in_log (l_start ex_log) 100"
    using ex_state_ok ex_log_ok ex_state_fields(4) by (simp_all add: ex_log_def rdw_def ROOTDEV_def in_log_def)
  from commit_atomic [OF ex_state_ok(1) ex_log_ok(1) H(1-3)] obtain t ws where
    t: "commit ex_log ex_state = Done (ex_log\<lparr>lh_n := 0\<rparr>) t" "disk t = play ws (disk ex_state)"
      "\<forall>b. \<not> in_log (l_start ex_log) b \<longrightarrow> disk t (1, b) = view ex_state b"
    and c: "\<forall>k r lg1. k \<le> length ws \<longrightarrow> binv r {} \<longrightarrow> dirtyb r = {} \<longrightarrow> disk r = play (take k ws) (disk ex_state) \<longrightarrow>
         l_dev lg1 = ROOTDEV \<longrightarrow> l_start lg1 = l_start ex_log \<longrightarrow>
         (\<exists>lg2 u. recover_from_log lg1 r = Done lg2 u \<and> lh_n lg2 = 0
           \<and> ((\<forall>b. \<not> in_log (l_start ex_log) b \<longrightarrow> disk u (1, b) = disk ex_state (1, b))
            \<or> (\<forall>b. \<not> in_log (l_start ex_log) b \<longrightarrow> disk u (1, b) = view ex_state b)))"
    by blast
  have d: "disk t (1, 100) = (\<lambda>_. 7)" using t(3) H(5) ex_state_ok(3) by simp
  have "(\<lambda>_. 7) \<noteq> ((\<lambda>_. 0) :: block)" by (simp add: fun_eq_iff)
  then have "ws \<noteq> []" using d t(2) ex_state_fields(4) by auto
  then have l: "1 \<le> length ws" by (cases ws) auto
  have dk: "disk (binit (zstate e)) = e" for e by (simp add: zstate_def)
  show ?thesis using t(1) d l c [rule_format, OF l zstate_ok(1) zstate_ok(2) dk H(4) refl] by blast
qed

end
