(* ===== verification/XLogSpace.thy ===== *)
theory XLogSpace
  imports XLogThms "HOL-Library.Multiset"
begin

text \<open>
  System calls that share the log: the steps of any number of processes, interleaved, and the space
  that \<open>begin_op\<close> reserves for them; and the initial state of the buffer cache.
\<close>

section \<open>Interleaved system calls\<close>

text \<open>
  A state has the log, the cache, and for each system call in progress the number of blocks that it
  may still pass to \<open>log_write\<close>; each may write MAXOPBLOCKS of them.
\<close>

type_synonym opstate = "log \<times> xstate \<times> nat list"

inductive op_step :: "opstate \<Rightarrow> opstate \<Rightarrow> bool" where
  Begin: "begin_op lg = Some lg' \<Longrightarrow> op_step (lg, s, R) (lg', s, nat MAXOPBLOCKS # R)"
| Write: "i < length R \<Longrightarrow> 0 < R ! i \<Longrightarrow> log_write b lg s = Done lg' s' \<Longrightarrow> op_step (lg, s, R) (lg', s', R[i := R ! i - 1])"
| End: "i < length R \<Longrightarrow> end_op lg s = Done lg' s' \<Longrightarrow> op_step (lg, s, R) (lg', s', take i R @ drop (Suc i) R)"

inductive_cases op_stepE: "op_step (lg, s, R) st"

definition log_start :: "log \<Rightarrow> bool" where
  "log_start lg \<longleftrightarrow> lh_n lg = 0 \<and> outstanding lg = 0 \<and> \<not> committing lg"

inductive op_reach :: "opstate \<Rightarrow> opstate \<Rightarrow> bool" for st where
  refl: "op_reach st st"
| step: "op_reach st t \<Longrightarrow> op_step t u \<Longrightarrow> op_reach st u"

text \<open>The invariant: what is logged and what may still be logged fit.\<close>

fun space_inv :: "opstate \<Rightarrow> bool" where
  "space_inv (lg, s, R) \<longleftrightarrow> outstanding lg = int (length R) \<and> (\<forall>r \<in> set R. r \<le> 10) \<and> \<not> committing lg
     \<and> 0 \<le> lh_n lg \<and> lh_n lg + int (sum_list R) \<le> 30"

lemma sum_list_le10: "\<forall>r \<in> set R. r \<le> 10 \<Longrightarrow> sum_list R \<le> 10 * length R" for R :: "nat list"
  by (induction R) auto

lemma commit_n: "commit lg s = Done lg' t \<Longrightarrow> 0 \<le> lh_n lg \<Longrightarrow>
    lh_n lg' = 0 \<and> outstanding lg' = outstanding lg \<and> l_size lg' = l_size lg"
proof -
  have x: "xbind m f = Done y t \<Longrightarrow> \<exists>a s. m = Done a s \<and> f a s = Done y t" for m and f :: "'a \<Rightarrow> xstate \<Rightarrow> 'b xres" and y t
    by (cases m) auto
  assume "commit lg s = Done lg' t" "0 \<le> lh_n lg"
  then show ?thesis by (auto simp: commit_def Let_def split: if_splits dest!: x)
qed

lemma log_write_n: "log_write b lg s = Done lg' t \<Longrightarrow> 0 \<le> lh_n lg \<Longrightarrow>
    lh_n lg \<le> lh_n lg' \<and> lh_n lg' \<le> lh_n lg + 1 \<and> outstanding lg' = outstanding lg \<and> committing lg' = committing lg \<and> l_size lg' = l_size lg"
  by (auto simp: log_write_def Let_def split: if_splits)

lemma end_op_n:
  assumes "end_op lg s = Done lg' t" "0 \<le> lh_n lg"
  shows "lh_n lg' \<le> lh_n lg \<and> 0 \<le> lh_n lg' \<and> outstanding lg' = outstanding lg - 1 \<and> \<not> committing lg' \<and> l_size lg' = l_size lg"
proof (cases "outstanding lg = 1 \<and> \<not> committing lg")
  case True
  let ?lg = "lg\<lparr>outstanding := 0, committing := True\<rparr>"
  obtain l where l: "commit ?lg s = Done l t" "lg' = l\<lparr>committing := False\<rparr>"
    using assms True by (cases "commit ?lg s") (auto simp: end_op_def)
  show ?thesis using commit_n [OF l(1)] l(2) assms(2) True by simp
next
  case False
  then show ?thesis using assms by (auto simp: end_op_def Let_def split: if_splits)
qed

lemma space_step:
  assumes st: "op_step st st'" and I: "space_inv st"
  shows "space_inv st'" "l_size (fst st') = l_size (fst st)"
proof -
  have "space_inv st' \<and> l_size (fst st') = l_size (fst st)"
    using st I
  proof cases
    case (Begin lg lg' s R)
    have "sum_list R \<le> 10 * length R" using I Begin(1) by (intro sum_list_le10) auto
    then show ?thesis
      using Begin I by (auto simp: begin_op_def LOGSIZE_def MAXOPBLOCKS_def split: if_splits)
  next
    case (Write i R b lg s lg' s')
    have "sum_list (R[i := R ! i - 1]) + 1 = sum_list R"
      using Write(3,4) sum_list_update [of i R "R ! i - 1"] elem_le_sum_list [of i R] by simp
    moreover have "\<forall>r \<in> set (R[i := R ! i - 1]). r \<le> 10"
    proof
      fix r assume "r \<in> set (R[i := R ! i - 1])"
      then have "r = R ! i - 1 \<or> r \<in> set R" using set_update_subset_insert by fast
      moreover have "R ! i \<le> 10" using I Write(1) nth_mem [OF Write(3)] by auto
      ultimately show "r \<le> 10" using I Write(1) by auto
    qed
    ultimately show ?thesis using I Write log_write_n [OF Write(5)] by auto
  next
    case (End i R lg s lg' s')
    define Q where "Q = take i R @ drop (Suc i) R"
    have R: "R = take i R @ R ! i # drop (Suc i) R" using End(3) by (rule id_take_nth_drop)
    have "mset R = add_mset (R ! i) (mset Q)" by (subst R) (simp add: Q_def)
    then have Q: "sum_list R = sum_list Q + R ! i" "length R = length Q + 1" "set Q \<subseteq> set R"
      using sum_mset_sum_list [of R] sum_mset_sum_list [of Q] size_mset [of R] size_mset [of Q] set_mset_mset [of R] set_mset_mset [of Q]
      by (auto simp del: sum_mset_sum_list size_mset set_mset_mset)
    have J: "space_inv (lg, s, R)" using I End(1) by simp
    then have n: "0 \<le> lh_n lg" by simp
    note E = end_op_n [OF End(4) n]
    have "\<forall>r \<in> set Q. r \<le> 10" using J Q(3) by auto
    then have "space_inv (lg', s', Q)" using J E Q(1,2) by simp
    then show ?thesis using End(1,2) E by (simp add: Q_def)
  qed
  then show "space_inv st'" "l_size (fst st') = l_size (fst st)" by auto
qed

lemma space_reach:
  assumes "op_reach st st'" "space_inv st"
  shows "space_inv st' \<and> l_size (fst st') = l_size (fst st)"
  using assms(1)
proof induction
  case refl
  show ?case using assms(2) by simp
next
  case (step t u)
  then show ?case using space_step [OF step(2)] by simp
qed



section \<open>The log that mkfs makes\<close>

text \<open>The state after three system calls have begun and \<open>k\<close> different blocks have been logged.\<close>

lemma begin_three:
  assumes "log_start lg"
  shows "\<exists>lg'. op_reach (lg, s, []) (lg', s, [10, 10, 10]) \<and> lh_n lg' = 0 \<and> outstanding lg' = 3 \<and> l_size lg' = l_size lg"
proof -
  let ?o = "\<lambda>k. lg\<lparr>outstanding := k\<rparr>"
  have b: "begin_op (?o k) = Some (?o (k + 1))" if "0 \<le> k" "k < 3" for k
    using assms that by (simp add: begin_op_def log_start_def LOGSIZE_def MAXOPBLOCKS_def)
  have lg: "lg = ?o 0" using assms by (simp add: log_start_def)
  have "op_step (?o 0, s, []) (?o 1, s, [10])" "op_step (?o 1, s, [10]) (?o 2, s, [10, 10])" "op_step (?o 2, s, [10, 10]) (?o 3, s, [10, 10, 10])"
    using op_step.Begin [OF b [of 0], of s "[]"] op_step.Begin [OF b [of 1], of s "[10]"] op_step.Begin [OF b [of 2], of s "[10, 10]"]
    by (simp_all add: MAXOPBLOCKS_def)
  then have "op_reach (?o 0, s, []) (?o 3, s, [10, 10, 10])" by (meson op_reach.refl op_reach.step)
  then have "op_reach (lg, s, []) (?o 3, s, [10, 10, 10])" using lg by simp
  then show ?thesis using assms by (auto simp: log_start_def)
qed

lemma find_fresh: "(\<And>i. i < n \<Longrightarrow> f i \<noteq> x) \<Longrightarrow> find (\<lambda>i. f i = x) [0..<n] = None"
  by (auto simp: find_None_iff)

lemma write_many:
  assumes "log_start lg" and inj: "inj_on (\<lambda>b. b_blockno (bufs s b)) {..<30}" and size: "l_size lg = 30" and k: "k \<le> 29"
  shows "\<exists>lg' s' R. op_reach (lg, s, []) (lg', s', R) \<and> lh_n lg' = int k \<and> (\<forall>i < k. lh_block lg' i = b_blockno (bufs s i))
    \<and> outstanding lg' = 3 \<and> l_size lg' = 30 \<and> (\<forall>b. b_blockno (bufs s' b) = b_blockno (bufs s b))
    \<and> sum_list R = 30 - k"
  using k
proof (induction k)
  case 0
  obtain lg' where "op_reach (lg, s, []) (lg', s, [10, 10, 10])" "lh_n lg' = 0" "outstanding lg' = 3" "l_size lg' = l_size lg"
    using begin_three [OF assms(1), of s] by blast
  then show ?case using size by (intro exI [of _ lg'] exI [of _ s] exI [of _ "[10, 10, 10]"]) simp
next
  case (Suc k)
  then obtain lg1 s1 R where I: "op_reach (lg, s, []) (lg1, s1, R)" "lh_n lg1 = int k" "\<forall>i < k. lh_block lg1 i = b_blockno (bufs s i)"
    "outstanding lg1 = 3" "l_size lg1 = 30" "\<forall>b. b_blockno (bufs s1 b) = b_blockno (bufs s b)" "sum_list R = 30 - k" by auto
  have "\<exists>i < length R. 0 < R ! i"
  proof (rule ccontr)
    assume "\<not> (\<exists>i < length R. 0 < R ! i)"
    then have "sum_list R = 0" by (auto simp: sum_list_eq_0_iff in_set_conv_nth)
    then show False using I(7) Suc.prems by simp
  qed
  then obtain i where i: "i < length R" "0 < R ! i" by blast
  have "lh_block lg1 j \<noteq> b_blockno (bufs s k)" if "j < k" for j
  proof
    assume "lh_block lg1 j = b_blockno (bufs s k)"
    then have "b_blockno (bufs s j) = b_blockno (bufs s k)" using I(3) that by simp
    then have "j = k" using that Suc.prems by (intro inj_onD [OF inj]) auto
    then show False using that by simp
  qed
  then have sl: "log_slot lg1 (b_blockno (bufs s1 k)) = k"
    using find_fresh [of k "lh_block lg1" "b_blockno (bufs s k)"] I(2,6) by (simp add: log_slot_def)
  let ?s = "upd_buf k (\<lambda>v. v\<lparr>b_flags := b_flags v OR B_DIRTY\<rparr>) s1"
  let ?lg = "lg1\<lparr>lh_block := (lh_block lg1)(k := b_blockno (bufs s1 k)), lh_n := int k + 1\<rparr>"
  have "log_write k lg1 s1 = Done ?lg ?s"
    using I(2,4,5) Suc.prems sl by (simp add: log_write_def Let_def LOGSIZE_def MAXOPBLOCKS_def)
  then have "op_reach (lg, s, []) (?lg, ?s, R[i := R ! i - 1])"
    using op_reach.step [OF I(1) op_step.Write [OF i]] by blast
  moreover have "sum_list (R[i := R ! i - 1]) = 30 - Suc k"
    using i I(7) sum_list_update [of i R "R ! i - 1"] elem_le_sum_list [of i R] by simp
  ultimately show ?case using I by (intro exI [of _ ?lg] exI [of _ ?s] exI [of _ "R[i := R ! i - 1]"]) (auto simp: less_Suc_eq)
qed

text \<open>
  C40: the log that mkfs lays out has only LOGSIZE blocks including the header, one too few for the
  reservation: three system calls that each stay within MAXOPBLOCKS and together write 30 different
  blocks are all admitted by \<open>begin_op\<close>, and the thirtieth \<open>log_write\<close> panics.
\<close>

theorem log_one_block_short:
  assumes "log_start lg0" and "l_size lg0 = LOGSIZE" and "inj_on (\<lambda>b. b_blockno (bufs s0 b)) {..<30}"
  shows "\<exists>lg s R i. op_reach (lg0, s0, []) (lg, s, R) \<and> i < length R \<and> 0 < R ! i
    \<and> log_write 29 lg s = Panicked ''too big a transaction'' s"
proof -
  obtain lg s R where I: "op_reach (lg0, s0, []) (lg, s, R)" "lh_n lg = 29" "l_size lg = 30" "sum_list R = 1"
    using write_many [OF assms(1,3), of 29] assms(2) by (auto simp: LOGSIZE_def MAXOPBLOCKS_def)
  have "\<exists>i < length R. 0 < R ! i"
  proof (rule ccontr)
    assume "\<not> (\<exists>i < length R. 0 < R ! i)"
    then have "sum_list R = 0" by (auto simp: sum_list_eq_0_iff in_set_conv_nth)
    then show False using I(4) by simp
  qed
  then obtain i where "i < length R" "0 < R ! i" by blast
  then show ?thesis using I by (intro exI [of _ lg] exI [of _ s] exI [of _ R] exI [of _ i]) (simp add: log_write_def)
qed

theorem log_one_block_short_witness:
  "\<exists>lg s R i. op_reach (ex_log\<lparr>lh_n := 0\<rparr>, ex_state\<lparr>bufs := (\<lambda>i. zbuf\<lparr>b_blockno := word_of_nat (100 + i)\<rparr>)\<rparr>, []) (lg, s, R)
    \<and> i < length R \<and> 0 < R ! i \<and> log_write 29 lg s = Panicked ''too big a transaction'' s"
proof -
  have "inj_on (\<lambda>b. b_blockno (bufs (ex_state\<lparr>bufs := (\<lambda>i. zbuf\<lparr>b_blockno := word_of_nat (100 + i)\<rparr>)\<rparr>) b)) {..<30}"
    using word_of_nat_eq_iff32 [of "100 + _" "100 + _"] by (auto simp: inj_on_def simp del: of_nat_add)
  then show ?thesis
    by (intro log_one_block_short) (simp_all add: log_start_def ex_log_def LOGSIZE_def MAXOPBLOCKS_def)
qed

end
