(* ===== verification/XPipe.thy ===== *)
theory XPipe
  imports Prelude
begin

text \<open>
  Pipes of xv6 (xv6-public/pipe.c): a ring buffer with free-running 32-bit counters.

  A call of \<open>pipewrite\<close> or \<open>piperead\<close> runs with the pipe's lock held until it returns or sleeps; the
  model gives the outcome of such a run. A sleeping writer goes on with the index it had reached; a
  sleeping reader starts over. Wake-ups only decide when a sleeper goes on, and are left open.
\<close>

section \<open>The code\<close>

definition PIPESIZE :: u32 where "PIPESIZE = 512"

record pipe =
  p_data :: "nat \<Rightarrow> u8"
  nread :: u32
  nwrite :: u32
  readopen :: bool
  writeopen :: bool

text \<open>The pipe that \<open>pipealloc\<close> makes of a fresh page.\<close>

definition pipe_init :: "pipe \<Rightarrow> pipe" where
  "pipe_init p = p\<lparr>readopen := True, writeopen := True, nwrite := 0, nread := 0\<rparr>"

text \<open>True in the result: the page of the pipe is given back.\<close>

definition pipeclose :: "bool \<Rightarrow> pipe \<Rightarrow> bool \<times> pipe" where
  "pipeclose writable p =
     (let p = (if writable then p\<lparr>writeopen := False\<rparr> else p\<lparr>readopen := False\<rparr>)
      in (\<not> readopen p \<and> \<not> writeopen p, p))"

datatype 'a pipe_res = Returned int 'a pipe | Slept int pipe

definition pipe_put :: "u8 \<Rightarrow> pipe \<Rightarrow> pipe" where
  "pipe_put c p = p\<lparr>p_data := (p_data p)(unat (nwrite p mod PIPESIZE) := c), nwrite := nwrite p + 1\<rparr>"

function pipewrite_loop :: "bool \<Rightarrow> (nat \<Rightarrow> u8) \<Rightarrow> int \<Rightarrow> int \<Rightarrow> pipe \<Rightarrow> unit pipe_res" where
  "pipewrite_loop killed addr n i p =
     (if i < n
      then if nwrite p = nread p + PIPESIZE
           then if \<not> readopen p \<or> killed then Returned (- 1) () p else Slept i p
           else pipewrite_loop killed addr n (i + 1) (pipe_put (addr (nat i)) p)
      else Returned n () p)"
  by auto
termination by (relation "measure (\<lambda>(killed, addr, n, i, p). nat (n - i))") auto

declare pipewrite_loop.simps [simp del]

definition pipewrite :: "bool \<Rightarrow> (nat \<Rightarrow> u8) \<Rightarrow> int \<Rightarrow> pipe \<Rightarrow> unit pipe_res" where
  "pipewrite killed addr n p = pipewrite_loop killed addr n 0 p"

function piperead_loop :: "int \<Rightarrow> int \<Rightarrow> u8 list \<Rightarrow> pipe \<Rightarrow> int \<times> u8 list \<times> pipe" where
  "piperead_loop n i addr p =
     (if i < n
      then if nread p = nwrite p then (i, addr, p)
           else piperead_loop n (i + 1) (addr @ [p_data p (unat (nread p mod PIPESIZE))]) (p\<lparr>nread := nread p + 1\<rparr>)
      else (i, addr, p))"
  by auto
termination by (relation "measure (\<lambda>(n, i, addr, p). nat (n - i))") auto

declare piperead_loop.simps [simp del]

definition piperead :: "bool \<Rightarrow> int \<Rightarrow> pipe \<Rightarrow> u8 list pipe_res" where
  "piperead killed n p =
     (if nread p = nwrite p \<and> writeopen p
      then if killed then Returned (- 1) [] p else Slept 0 p
      else let (i, addr, p) = piperead_loop n 0 [] p in Returned i addr p)"

section \<open>Bounded queues\<close>

text \<open>
  What the two ends of a bounded queue rely on: \<open>put\<close> appends while there is room, \<open>get\<close> and \<open>drop1\<close>
  take from the front.
\<close>

locale ring_queue =
  fixes inv :: "'s \<Rightarrow> bool"
    and contents :: "'s \<Rightarrow> 'a list"
    and cap :: nat
    and put :: "'a \<Rightarrow> 's \<Rightarrow> 's"
    and get :: "'s \<Rightarrow> 'a"
    and drop1 :: "'s \<Rightarrow> 's"
  assumes put: "inv s \<Longrightarrow> length (contents s) < cap \<Longrightarrow> inv (put x s) \<and> contents (put x s) = contents s @ [x]"
    and get: "inv s \<Longrightarrow> contents s \<noteq> [] \<Longrightarrow> get s = hd (contents s)"
    and drop1: "inv s \<Longrightarrow> contents s \<noteq> [] \<Longrightarrow> inv (drop1 s) \<and> contents (drop1 s) = tl (contents s)"
    and bound: "inv s \<Longrightarrow> length (contents s) \<le> cap"
begin

lemma put_all:
  "inv s \<Longrightarrow> length (contents s) + length xs \<le> cap \<Longrightarrow> inv (fold put xs s) \<and> contents (fold put xs s) = contents s @ xs"
proof (induction xs arbitrary: s)
  case (Cons x xs)
  have p: "inv (put x s)" "contents (put x s) = contents s @ [x]" using put [of s x] Cons.prems by auto
  then show ?case using Cons.IH [OF p(1)] Cons.prems by simp
qed simp

lemma drop_all: "inv s \<Longrightarrow> k \<le> length (contents s) \<Longrightarrow> inv ((drop1 ^^ k) s) \<and> contents ((drop1 ^^ k) s) = drop k (contents s)"
proof (induction k)
  case (Suc k)
  then have I: "inv ((drop1 ^^ k) s)" "contents ((drop1 ^^ k) s) = drop k (contents s)" by auto
  have "contents ((drop1 ^^ k) s) \<noteq> []" using I(2) Suc.prems(2) by simp
  then show ?case using drop1 [OF I(1)] I(2) by (simp add: tl_drop drop_Suc)
qed simp

lemma get_nth: "inv s \<Longrightarrow> k < length (contents s) \<Longrightarrow> get ((drop1 ^^ k) s) = contents s ! k"
  using drop_all [of s k] get [of "(drop1 ^^ k) s"] by (simp add: hd_drop_conv_nth)

end

section \<open>The ring buffer\<close>

definition pipe_len :: "pipe \<Rightarrow> nat" where
  "pipe_len p = unat (nwrite p - nread p)"

definition pipe_ok :: "pipe \<Rightarrow> bool" where
  "pipe_ok p \<longleftrightarrow> pipe_len p \<le> 512"

definition pipe_contents :: "pipe \<Rightarrow> u8 list" where
  "pipe_contents p = map (\<lambda>k. p_data p (unat ((nread p + word_of_nat k) mod PIPESIZE))) [0..<pipe_len p]"

lemma length_contents [simp]: "length (pipe_contents p) = pipe_len p"
  by (simp add: pipe_contents_def)

lemma slot_eq: "unat ((a + word_of_nat j) mod PIPESIZE) = (unat a + j) mod 512" for a :: u32
proof -
  have "unat (a + word_of_nat j) = (unat a + j) mod 4294967296"
    by (simp add: unat_plus32 unat_of_nat take_bit_eq_mod mod_simps)
  then have "unat ((a + word_of_nat j) mod PIPESIZE) = (unat a + j) mod 4294967296 mod 512"
    by (simp add: PIPESIZE_def unat_mod32)
  then show ?thesis by (simp add: mod_mod_cancel)
qed

lemma slot_inj: "j < 512 \<Longrightarrow> k < 512 \<Longrightarrow> (a + j) mod 512 = (a + k) mod 512 \<Longrightarrow> j = k" for a j k :: nat
proof -
  assume l: "j < 512" "k < 512" and e: "(a + j) mod 512 = (a + k) mod 512"
  have "(int a + int j) mod 512 = (int a + int k) mod 512" using e by (metis of_nat_add of_nat_mod of_nat_numeral)
  then have "512 dvd int j - int k" by (simp add: mod_eq_dvd_iff)
  then show "j = k" using l zdvd_not_zless [of "int j - int k" 512] zdvd_not_zless [of "int k - int j" 512]
    by (cases j k rule: linorder_cases) (auto simp: dvd_diff_commute)
qed

lemma pipe_nwrite: "nwrite p = nread p + word_of_nat (pipe_len p)"
  by (simp add: pipe_len_def)

lemma pipe_empty: "nread p = nwrite p \<longleftrightarrow> pipe_contents p = []"
proof -
  have "nread p = nwrite p \<longleftrightarrow> pipe_len p = 0" by (auto simp: pipe_len_def unat_eq_zero)
  then show ?thesis by (metis length_contents length_0_conv)
qed

lemma pipe_full: "pipe_ok p \<Longrightarrow> nwrite p = nread p + PIPESIZE \<longleftrightarrow> pipe_len p = 512"
proof -
  assume "pipe_ok p"
  then have "word_of_nat (pipe_len p) = (512 :: u32) \<longleftrightarrow> pipe_len p = 512"
    using word_of_nat_eq_iff32 [of "pipe_len p" 512] by (simp add: pipe_ok_def)
  then show ?thesis using pipe_nwrite [of p] by (auto simp: PIPESIZE_def)
qed

lemma pipe_put_ok:
  assumes "pipe_ok p" "pipe_len p < 512"
  shows "pipe_ok (pipe_put c p) \<and> pipe_contents (pipe_put c p) = pipe_contents p @ [c]"
proof -
  let ?n = "pipe_len p" and ?q = "pipe_put c p"
  have "nwrite ?q - nread ?q = word_of_nat (Suc ?n)" by (simp add: pipe_put_def pipe_nwrite [of p])
  then have l: "pipe_len ?q = Suc ?n" using assms(2) unat_word_of_nat32 [of "Suc ?n"] by (simp add: pipe_len_def)
  have w: "unat (nwrite p mod PIPESIZE) = (unat (nread p) + ?n) mod 512" by (subst pipe_nwrite) (rule slot_eq)
  have "p_data ?q (unat ((nread ?q + word_of_nat k) mod PIPESIZE)) = (pipe_contents p @ [c]) ! k" if "k \<le> ?n" for k
    using that assms(2) slot_inj [of k ?n "unat (nread p)"] unfolding slot_eq
    by (cases "k = ?n") (auto simp: pipe_put_def w nth_append pipe_contents_def slot_eq)
  then have "pipe_contents ?q = map ((!) (pipe_contents p @ [c])) [0..<Suc ?n]"
    unfolding pipe_contents_def [of ?q] l by (intro map_cong) auto
  also have "\<dots> = pipe_contents p @ [c]" using map_nth [of "pipe_contents p @ [c]"] by simp
  finally show ?thesis using l assms(2) by (simp add: pipe_ok_def)
qed

definition pipe_get :: "pipe \<Rightarrow> u8" where
  "pipe_get p = p_data p (unat (nread p mod PIPESIZE))"

definition pipe_drop :: "pipe \<Rightarrow> pipe" where
  "pipe_drop p = p\<lparr>nread := nread p + 1\<rparr>"

lemma pipe_drop_ok:
  assumes "pipe_ok p" "pipe_contents p \<noteq> []"
  shows "pipe_ok (pipe_drop p) \<and> pipe_contents (pipe_drop p) = tl (pipe_contents p)" "pipe_get p = hd (pipe_contents p)"
proof -
  let ?q = "pipe_drop p"
  obtain m where m: "pipe_len p = Suc m" using assms(2) by (cases "pipe_len p") (auto simp: pipe_contents_def)
  have "nwrite ?q - nread ?q = word_of_nat m" using pipe_nwrite [of p] by (simp add: pipe_drop_def m)
  then have l: "pipe_len ?q = m" using assms(1) m unat_word_of_nat32 [of m] by (simp add: pipe_len_def pipe_ok_def)
  have "[0..<Suc m] = 0 # map Suc [0..<m]" by (simp add: upt_conv_Cons map_Suc_upt del: upt_Suc)
  then have c: "pipe_contents p = pipe_get p # map (\<lambda>k. p_data p (unat ((nread p + word_of_nat (Suc k)) mod PIPESIZE))) [0..<m]"
    by (simp add: pipe_contents_def m pipe_get_def o_def)
  have "pipe_contents ?q = map (\<lambda>k. p_data p (unat ((nread p + word_of_nat (Suc k)) mod PIPESIZE))) [0..<m]"
    unfolding pipe_contents_def l by (simp add: pipe_drop_def add.assoc)
  then show "pipe_ok ?q \<and> pipe_contents ?q = tl (pipe_contents p)" "pipe_get p = hd (pipe_contents p)"
    using c l m assms(1) by (simp_all add: pipe_ok_def)
qed

interpretation pq: ring_queue pipe_ok pipe_contents 512 pipe_put pipe_get pipe_drop
proof unfold_locales
  show "pipe_ok p \<Longrightarrow> length (pipe_contents p) < 512 \<Longrightarrow>
      pipe_ok (pipe_put c p) \<and> pipe_contents (pipe_put c p) = pipe_contents p @ [c]" for p c
    using pipe_put_ok [of p c] by simp
  show "pipe_ok p \<Longrightarrow> pipe_contents p \<noteq> [] \<Longrightarrow> pipe_get p = hd (pipe_contents p)" for p by (rule pipe_drop_ok)
  show "pipe_ok p \<Longrightarrow> pipe_contents p \<noteq> [] \<Longrightarrow> pipe_ok (pipe_drop p) \<and> pipe_contents (pipe_drop p) = tl (pipe_contents p)" for p
    by (rule pipe_drop_ok)
  show "pipe_ok p \<Longrightarrow> length (pipe_contents p) \<le> 512" for p by (simp add: pipe_ok_def)
qed

section \<open>What the two loops do\<close>

lemma pipe_put_rest [simp]:
  "readopen (pipe_put c p) = readopen p" "writeopen (pipe_put c p) = writeopen p" "nread (pipe_put c p) = nread p"
  by (simp_all add: pipe_put_def)

lemma pipe_drop_rest [simp]:
  "readopen ((pipe_drop ^^ k) p) = readopen p" "writeopen ((pipe_drop ^^ k) p) = writeopen p" "nwrite ((pipe_drop ^^ k) p) = nwrite p"
  by (induction k) (simp_all add: pipe_drop_def)

lemma put_all_rest [simp]:
  "readopen (fold pipe_put cs p) = readopen p" "writeopen (fold pipe_put cs p) = writeopen p" "nread (fold pipe_put cs p) = nread p"
  by (induction cs arbitrary: p) simp_all

text \<open>A run of the writer stores as many of its bytes as there is room for.\<close>

definition bytes_from :: "(nat \<Rightarrow> u8) \<Rightarrow> nat \<Rightarrow> nat \<Rightarrow> u8 list" where
  "bytes_from addr i k = map addr [i..<i + k]"

lemma bytes_from_0 [simp]: "bytes_from addr i 0 = []"
  by (simp add: bytes_from_def)

lemma bytes_from_Suc: "bytes_from addr i (Suc k) = addr i # bytes_from addr (Suc i) k"
  by (simp add: bytes_from_def upt_conv_Cons del: upt_Suc)

lemma length_bytes_from [simp]: "length (bytes_from addr i k) = k"
  by (simp add: bytes_from_def)

lemma pipewrite_loop_run:
  assumes "pipe_ok p" "i \<le> n" "k = min (n - i) (512 - pipe_len p)"
  shows "pipewrite_loop killed addr (int n) (int i) p =
    (let q = fold pipe_put (bytes_from addr i k) p
     in if i + k = n then Returned (int n) () q else if \<not> readopen p \<or> killed then Returned (- 1) () q else Slept (int (i + k)) q)"
  using assms
proof (induction "n - i" arbitrary: i p k)
  case 0
  then show ?case by (subst pipewrite_loop.simps) (simp add: Let_def)
next
  case (Suc d)
  show ?case
  proof (cases "pipe_len p = 512")
    case True
    then show ?thesis using Suc pipe_full [of p] by (subst pipewrite_loop.simps) (simp add: Let_def)
  next
    case False
    let ?p = "pipe_put (addr i) p"
    have l: "pipe_len p < 512" using False Suc.prems(1) by (simp add: pipe_ok_def)
    have P: "pipe_ok ?p" "pipe_len ?p = Suc (pipe_len p)"
      using pipe_put_ok [OF Suc.prems(1) l, of "addr i"] by (auto simp flip: length_contents)
    obtain k' where k: "k = Suc k'" "k' = min (n - Suc i) (512 - pipe_len ?p)"
      using Suc.hyps(2) Suc.prems(3) l P(2) by (intro that [of "k - 1"]) (auto simp: min_def split: if_splits)
    have d: "d = n - Suc i" "Suc i \<le> n" using Suc.hyps(2) by auto
    have "pipewrite_loop killed addr (int n) (int i) p = pipewrite_loop killed addr (int n) (int (Suc i)) ?p"
      using d(2) False pipe_full [OF Suc.prems(1)] by (subst pipewrite_loop.simps) (simp add: add.commute)
    then show ?thesis using Suc.hyps(1) [OF d(1) P(1) d(2) k(2)] k(1) by (simp add: bytes_from_Suc Let_def)
  qed
qed

lemma piperead_loop_run:
  assumes "pipe_ok p" "i \<le> n" "k = min (n - i) (pipe_len p)"
  shows "piperead_loop (int n) (int i) addr p = (int (i + k), addr @ take k (pipe_contents p), (pipe_drop ^^ k) p)"
  using assms
proof (induction "n - i" arbitrary: i p k addr)
  case 0
  then show ?case by (subst piperead_loop.simps) simp
next
  case (Suc d)
  show ?case
  proof (cases "pipe_contents p")
    case Nil
    then have "pipe_len p = 0" by (metis length_contents list.size(3))
    then show ?thesis using Suc Nil pipe_empty [of p] by (subst piperead_loop.simps) simp
  next
    case (Cons c cs)
    let ?p = "pipe_drop p"
    have P: "pipe_ok ?p" "pipe_contents ?p = cs" "pipe_get p = c" using pipe_drop_ok [OF Suc.prems(1)] Cons by auto
    have l: "pipe_len p = Suc (length cs)" "pipe_len ?p = length cs" using Cons P(2) by (metis length_contents length_Cons)+
    obtain k' where k: "k = Suc k'" "k' = min (n - Suc i) (pipe_len ?p)"
      using Suc.hyps(2) Suc.prems(2,3) l by (cases k) auto
    have d: "d = n - Suc i" "Suc i \<le> n" using Suc.hyps(2) by auto
    have "piperead_loop (int n) (int i) addr p = piperead_loop (int n) (int (Suc i)) (addr @ [c]) ?p"
      using d(2) Cons P(3) pipe_empty [of p]
      by (subst piperead_loop.simps) (simp add: add.commute pipe_drop_def pipe_get_def)
    then show ?thesis
      using Suc.hyps(1) [OF d(1) P(1) d(2) k(2)] k(1) Cons P(2) by (simp add: funpow_swap1)
  qed
qed

section \<open>Interleaved use\<close>

text \<open>
  Any number of processes use the pipe. A step is a run of a writer from index \<open>i\<close> on, of a reader, or
  a close. Beside the pipe the state has what was stored so far and what readers have got.
\<close>

datatype pipe_op = Write bool "nat \<Rightarrow> u8" nat nat | Read bool nat | Close bool

fun res_pipe :: "'a pipe_res \<Rightarrow> pipe" where
  "res_pipe (Returned r x p) = p"
| "res_pipe (Slept i p) = p"

fun pipe_do :: "pipe_op \<Rightarrow> pipe \<times> u8 list \<times> u8 list \<Rightarrow> pipe \<times> u8 list \<times> u8 list" where
  "pipe_do (Write killed addr n i) (p, sent, recv) =
     (let q = res_pipe (pipewrite_loop killed addr (int n) (int i) p)
      in (q, sent @ bytes_from addr i (unat (nwrite q - nwrite p)), recv))"
| "pipe_do (Read killed n) (p, sent, recv) =
     (case piperead killed (int n) p of Returned r bs q \<Rightarrow> (q, sent, recv @ bs) | Slept i q \<Rightarrow> (q, sent, recv))"
| "pipe_do (Close w) (p, sent, recv) = (snd (pipeclose w p), sent, recv)"

fun pipe_inv :: "pipe \<times> u8 list \<times> u8 list \<Rightarrow> bool" where
  "pipe_inv (p, sent, recv) \<longleftrightarrow> pipe_ok p \<and> recv @ pipe_contents p = sent"

lemma nwrite_put_all: "nwrite (fold pipe_put cs p) = nwrite p + word_of_nat (length cs)"
  by (induction cs arbitrary: p) (simp_all add: pipe_put_def)

lemma pipe_write_fifo:
  assumes "pipe_inv (p, sent, recv)"
  shows "pipe_inv (pipe_do (Write killed addr n i) (p, sent, recv))"
proof (cases "i \<le> n")
  case True
  let ?k = "min (n - i) (512 - pipe_len p)"
  let ?q = "fold pipe_put (bytes_from addr i ?k) p"
  have I: "pipe_ok p" "recv @ pipe_contents p = sent" using assms by auto
  have q: "res_pipe (pipewrite_loop killed addr (int n) (int i) p) = ?q"
    using pipewrite_loop_run [OF I(1) True refl] by (simp add: Let_def)
  have Q: "pipe_ok ?q" "pipe_contents ?q = pipe_contents p @ bytes_from addr i ?k"
    using pq.put_all [OF I(1), of "bytes_from addr i ?k"] I(1) by (auto simp: pipe_ok_def)
  have "unat (nwrite ?q - nwrite p) = ?k" using nwrite_put_all [of "bytes_from addr i ?k" p] unat_word_of_nat32 [of ?k] by simp
  then show ?thesis using Q I(2) by (auto simp: q Let_def)
next
  case False
  then have "pipewrite_loop killed addr (int n) (int i) p = Returned (int n) () p" by (subst pipewrite_loop.simps) simp
  then show ?thesis using assms by simp
qed

lemma pipe_read_fifo:
  assumes "pipe_inv (p, sent, recv)"
  shows "pipe_inv (pipe_do (Read killed n) (p, sent, recv))"
proof -
  let ?k = "min n (pipe_len p)"
  have I: "pipe_ok p" "recv @ pipe_contents p = sent" using assms by auto
  have r: "piperead_loop (int n) 0 [] p = (int ?k, take ?k (pipe_contents p), (pipe_drop ^^ ?k) p)"
    using piperead_loop_run [OF I(1), of 0 n ?k "[]"] by simp
  have "pipe_ok ((pipe_drop ^^ ?k) p)" "pipe_contents ((pipe_drop ^^ ?k) p) = drop ?k (pipe_contents p)"
    using pq.drop_all [OF I(1), of ?k] by auto
  then have "pipe_inv ((pipe_drop ^^ ?k) p, sent, recv @ take ?k (pipe_contents p))" using I(2) by simp
  then show ?thesis using assms by (simp add: piperead_def r)
qed

lemma pipe_close_fifo: "pipe_inv (p, sent, recv) \<Longrightarrow> pipe_inv (pipe_do (Close w) (p, sent, recv))"
  by (simp add: pipeclose_def Let_def pipe_ok_def pipe_len_def pipe_contents_def)

lemma pipe_do_fifo: "pipe_inv st \<Longrightarrow> pipe_inv (pipe_do op st)"
  using pipe_write_fifo pipe_read_fifo pipe_close_fifo by (cases st; cases op) (blast+)

lemma pipe_run_fifo: "pipe_inv st \<Longrightarrow> pipe_inv (fold pipe_do ops st)"
  by (induction ops arbitrary: st) (use pipe_do_fifo in auto)

lemma pipe_init_ok: "pipe_ok (pipe_init p)" "pipe_contents (pipe_init p) = []"
  by (simp_all add: pipe_ok_def pipe_len_def pipe_init_def pipe_contents_def)

text \<open>
  C21: a pipe is a first-in first-out queue of at most PIPESIZE bytes, for any number of readers and
  writers and any interleaving of their runs, and however often the two counters wrap around: what
  has been read is what was written, in order, less the bytes that are still in the buffer.
\<close>

theorem pipe_fifo:
  "case fold pipe_do ops (pipe_init p, [], []) of (q, sent, recv) \<Rightarrow>
     recv @ pipe_contents q = sent \<and> length (pipe_contents q) \<le> unat PIPESIZE"
proof -
  have "pipe_inv (fold pipe_do ops (pipe_init p, [], []))" using pipe_init_ok by (intro pipe_run_fifo) simp
  then show ?thesis by (auto simp: pipe_ok_def PIPESIZE_def split: prod.splits)
qed

section \<open>A transfer completes\<close>

text \<open>A writer and a reader take turns; the reader asks for \<open>m\<close> bytes each time.\<close>

primrec pipe_rounds :: "nat \<Rightarrow> (nat \<Rightarrow> u8) \<Rightarrow> nat \<Rightarrow> nat \<Rightarrow> int \<Rightarrow> pipe \<Rightarrow> u8 list \<Rightarrow> int option \<times> u8 list \<times> pipe" where
  "pipe_rounds 0 addr n m i p recv = (None, recv, p)"
| "pipe_rounds (Suc k) addr n m i p recv =
     (case pipewrite_loop False addr (int n) i p of
        Returned r x p \<Rightarrow> (Some r, recv, p)
      | Slept i p \<Rightarrow>
          (case piperead False (int m) p of
             Returned r bs p \<Rightarrow> pipe_rounds k addr n m i p (recv @ bs)
           | Slept j p \<Rightarrow> pipe_rounds k addr n m i p recv))"

lemma pipe_rounds_end:
  assumes "pipe_ok p" "readopen p" "writeopen p" "i \<le> n" "0 < m" "n - i \<le> k + (512 - pipe_len p)"
  shows "\<exists>recv' q. pipe_rounds (Suc k) addr n m (int i) p recv = (Some (int n), recv', q)
    \<and> recv' @ pipe_contents q = recv @ pipe_contents p @ bytes_from addr i (n - i)"
  using assms
proof (induction k arbitrary: i p recv)
  case 0
  have "pipewrite_loop False addr (int n) (int i) p = Returned (int n) () (fold pipe_put (bytes_from addr i (n - i)) p)"
    using pipewrite_loop_run [OF 0(1,4) refl] 0(4,6) by (simp add: Let_def min_def)
  then show ?case using pq.put_all [OF 0(1), of "bytes_from addr i (n - i)"] 0(1,6) by (auto simp: pipe_ok_def)
next
  case (Suc k)
  let ?r = "512 - pipe_len p"
  show ?case
  proof (cases "n - i \<le> ?r")
    case True
    have "pipewrite_loop False addr (int n) (int i) p = Returned (int n) () (fold pipe_put (bytes_from addr i (n - i)) p)"
      using pipewrite_loop_run [OF Suc.prems(1,4) refl] Suc.prems(4) True by (simp add: Let_def min_def)
    then show ?thesis using pq.put_all [OF Suc.prems(1), of "bytes_from addr i (n - i)"] Suc.prems(1) True by (auto simp: pipe_ok_def)
  next
    case False
    let ?q = "fold pipe_put (bytes_from addr i ?r) p" and ?k = "min m 512"
    have w: "pipewrite_loop False addr (int n) (int i) p = Slept (int (i + ?r)) ?q"
      using pipewrite_loop_run [OF Suc.prems(1,4) refl, of False addr] Suc.prems(2) False by (simp add: Let_def min_def)
    have q: "pipe_ok ?q" "pipe_contents ?q = pipe_contents p @ bytes_from addr i ?r"
      using pq.put_all [OF Suc.prems(1), of "bytes_from addr i ?r"] Suc.prems(1) by (auto simp: pipe_ok_def)
    have lq: "pipe_len ?q = 512" using arg_cong [OF q(2), of length] Suc.prems(1) by (simp add: pipe_ok_def)
    let ?t = "(pipe_drop ^^ ?k) ?q"
    have "piperead_loop (int m) 0 [] ?q = (int ?k, take ?k (pipe_contents ?q), ?t)"
      using piperead_loop_run [OF q(1), of 0 m ?k "[]"] lq by simp
    moreover have "nread ?q \<noteq> nwrite ?q" using pipe_empty [of ?q] lq by (metis length_contents list.size(3) zero_neq_numeral)
    ultimately have r: "piperead False (int m) ?q = Returned (int ?k) (take ?k (pipe_contents ?q)) ?t"
      by (simp add: piperead_def)
    have t: "pipe_ok ?t" "pipe_contents ?t = drop ?k (pipe_contents ?q)" using pq.drop_all [OF q(1), of ?k] lq by auto
    have lt: "pipe_len ?t = 512 - ?k" using arg_cong [OF t(2), of length] lq by simp
    have i: "i + ?r \<le> n" using False by simp
    have "1 \<le> 512 - pipe_len ?t" using Suc.prems(5) lt by (simp add: min_def)
    then have le: "n - (i + ?r) \<le> k + (512 - pipe_len ?t)" using Suc.prems(6) by linarith
    obtain recv' q' where R: "pipe_rounds (Suc k) addr n m (int (i + ?r)) ?t (recv @ take ?k (pipe_contents ?q)) = (Some (int n), recv', q')"
      "recv' @ pipe_contents q' = (recv @ take ?k (pipe_contents ?q)) @ pipe_contents ?t @ bytes_from addr (i + ?r) (n - (i + ?r))"
      using Suc.IH [OF t(1) _ _ i Suc.prems(5) le, of "recv @ take ?k (pipe_contents ?q)"] Suc.prems(2,3) by auto
    have "bytes_from addr i (n - i) = bytes_from addr i ?r @ bytes_from addr (i + ?r) (n - (i + ?r))"
      using i upt_add_eq_append [of i "i + ?r" "n - (i + ?r)"] by (simp add: bytes_from_def flip: map_append)
    moreover have "take ?k (pipe_contents ?q) @ pipe_contents ?t = pipe_contents p @ bytes_from addr i ?r"
      unfolding t(2) append_take_drop_id by (rule q(2))
    ultimately have "recv' @ pipe_contents q' = recv @ pipe_contents p @ bytes_from addr i (n - i)"
      using R(2) by (metis append_assoc)
    then show ?thesis using R(1) w r by (subst pipe_rounds.simps(2)) (simp del: pipe_rounds.simps)
  qed
qed



end
