(* ===== verification/XFs.thy ===== *)
theory XFs
  imports XLog
begin

text \<open>
  The file system of xv6 (xv6-public/fs.c, fs.h, file.h, stat.h, and the two string functions of
  string.c that it calls): block and inode allocation, the inode cache, file contents, directories and
  path names, over the buffer cache and the log.

  The device functions in \<open>devsw\<close> are an argument \<open>dv\<close>. Memory that a function fills (the destination
  of \<open>readi\<close>) is its result; memory that it reads (the source of \<open>writei\<close>, a name) is a function from
  offsets to bytes; a path is the list of its bytes without the terminating zero. The counters of the
  loops are natural numbers: sizes are far below the point where the C variables would wrap around
  (\<open>ip->size\<close> is at most MAXFILE * BSIZE, \<open>sb.size\<close> at most FSSIZE).
\<close>

section \<open>Data\<close>

definition ROOTINO :: u32 where "ROOTINO = 1"
definition NDIRECT :: nat where "NDIRECT = 12"
definition NINDIRECT :: nat where "NINDIRECT = BSIZE div 4"
definition MAXFILE :: nat where "MAXFILE = NDIRECT + NINDIRECT"
definition IPB :: nat where "IPB = BSIZE div 64"
definition BPB :: nat where "BPB = BSIZE * 8"
definition DIRSIZ :: nat where "DIRSIZ = 14"
definition NINODE :: nat where "NINODE = 50"
definition NDEV :: int where "NDEV = 10"
definition T_DIR :: u16 where "T_DIR = 1"
definition T_FILE :: u16 where "T_FILE = 2"
definition T_DEV :: u16 where "T_DEV = 3"

definition IBLOCK :: "u32 \<Rightarrow> superblock \<Rightarrow> u32" where
  "IBLOCK i sb = i div word_of_nat IPB + sb_inodestart sb"

definition BBLOCK :: "u32 \<Rightarrow> superblock \<Rightarrow> u32" where
  "BBLOCK b sb = b div word_of_nat BPB + sb_bmapstart sb"

record inode =
  i_dev :: u32
  i_inum :: u32
  i_ref :: int
  i_lock :: sleeplock
  i_valid :: bool
  i_type :: u16
  i_major :: u16
  i_minor :: u16
  i_nlink :: u16
  i_size :: u32
  i_addrs :: "nat \<Rightarrow> u32"

record stat =
  st_type :: u16
  st_dev :: u32
  st_ino :: u32
  st_nlink :: u16
  st_size :: u32

record fstate =
  fx :: xstate
  flog :: log
  fsb :: superblock
  inodes :: "nat \<Rightarrow> inode"

type_synonym 'a fres = "('a, fstate) sres"

record devsw =
  dev_read :: "int \<Rightarrow> (nat \<Rightarrow> u32 \<Rightarrow> fstate \<Rightarrow> (int \<times> u8 list) fres) option"
  dev_write :: "int \<Rightarrow> (nat \<Rightarrow> (nat \<Rightarrow> u8) \<Rightarrow> u32 \<Rightarrow> fstate \<Rightarrow> int fres) option"

text \<open>Operations of the layers below.\<close>

definition onx :: "(xstate \<Rightarrow> 'a xres) \<Rightarrow> fstate \<Rightarrow> 'a fres" where
  "onx m f =
     (case m (fx f) of
        Done x s \<Rightarrow> Done x (f\<lparr>fx := s\<rparr>)
      | Panicked msg s \<Rightarrow> Panicked msg (f\<lparr>fx := s\<rparr>)
      | Sleeping s \<Rightarrow> Sleeping (f\<lparr>fx := s\<rparr>)
      | Hang \<Rightarrow> Hang)"

definition onlog :: "(log \<Rightarrow> xstate \<Rightarrow> log xres) \<Rightarrow> fstate \<Rightarrow> unit fres" where
  "onlog m f = xbind (onx (m (flog f)) f) (\<lambda>lg f. Done () (f\<lparr>flog := lg\<rparr>))"

definition fdata :: "nat \<Rightarrow> fstate \<Rightarrow> block" where
  "fdata b f = b_data (bufs (fx f) b)"

definition fput :: "nat \<Rightarrow> block \<Rightarrow> fstate \<Rightarrow> fstate" where
  "fput b d f = f\<lparr>fx := set_data b d (fx f)\<rparr>"

definition upd_inode :: "nat \<Rightarrow> (inode \<Rightarrow> inode) \<Rightarrow> fstate \<Rightarrow> fstate" where
  "upd_inode ip g f = f\<lparr>inodes := (inodes f)(ip := g (inodes f ip))\<rparr>"

section \<open>Blocks\<close>

definition bzero :: "u32 \<Rightarrow> u32 \<Rightarrow> fstate \<Rightarrow> unit fres" where
  "bzero dev bno f =
     xbind (onx (bread dev bno) f) (\<lambda>bp f.
       let f = fput bp (\<lambda>i. if i < BSIZE then 0 else fdata bp f i) f
       in xbind (onlog (log_write bp) f) (\<lambda>_ f. onx (brelse bp) f))"

text \<open>The mask and the byte of a bit of the free map.\<close>

definition bm_mask :: "nat \<Rightarrow> u8" where
  "bm_mask bi = push_bit (bi mod 8) 1"

definition bm_used :: "block \<Rightarrow> nat \<Rightarrow> bool" where
  "bm_used d bi \<longleftrightarrow> (d (bi div 8) AND bm_mask bi) \<noteq> 0"

function balloc_loop :: "superblock \<Rightarrow> u32 \<Rightarrow> nat \<Rightarrow> fstate \<Rightarrow> u32 fres" where
  "balloc_loop sb dev b f =
     (if b < unat (sb_size sb)
      then xbind (onx (bread dev (BBLOCK (word_of_nat b) sb)) f) (\<lambda>bp f.
             case find (\<lambda>bi. \<not> bm_used (fdata bp f) bi) [0..<min BPB (unat (sb_size sb) - b)] of
               Some bi \<Rightarrow>
                 let d = fdata bp f;
                     f = fput bp (d(bi div 8 := d (bi div 8) OR bm_mask bi)) f
                 in xbind (onlog (log_write bp) f) (\<lambda>_ f.
                    xbind (onx (brelse bp) f) (\<lambda>_ f.
                    xbind (bzero dev (word_of_nat (b + bi)) f) (\<lambda>_ f. Done (word_of_nat (b + bi)) f)))
             | None \<Rightarrow> xbind (onx (brelse bp) f) (\<lambda>_ f. balloc_loop sb dev (b + BPB) f))
      else Panicked ''balloc: out of blocks'' f)"
  by pat_completeness auto
termination
  by (relation "measure (\<lambda>(sb, dev, b, f). unat (sb_size sb) - b)") (auto simp: BPB_def BSIZE_def)

declare balloc_loop.simps [simp del]

definition balloc :: "u32 \<Rightarrow> fstate \<Rightarrow> u32 fres" where
  "balloc dev f = balloc_loop (fsb f) dev 0 f"

definition bfree :: "u32 \<Rightarrow> u32 \<Rightarrow> fstate \<Rightarrow> unit fres" where
  "bfree dev b f =
     xbind (onx (bread dev (BBLOCK b (fsb f))) f) (\<lambda>bp f.
       let bi = unat b mod BPB; d = fdata bp f
       in if \<not> bm_used d bi then Panicked ''freeing free block'' f
          else let f = fput bp (d(bi div 8 := d (bi div 8) AND NOT (bm_mask bi))) f
               in xbind (onlog (log_write bp) f) (\<lambda>_ f. onx (brelse bp) f))"

section \<open>Inodes\<close>

text \<open>A 16-bit field at offset \<open>k\<close>, and the on-disk inode (\<open>struct dinode\<close>, 64 bytes) at offset \<open>k\<close> of a block.\<close>

definition rdh :: "block \<Rightarrow> nat \<Rightarrow> u16" where
  "rdh d k = ucast (d k) OR push_bit 8 (ucast (d (k + 1)))"

definition wrh :: "nat \<Rightarrow> u16 \<Rightarrow> block \<Rightarrow> block" where
  "wrh k w d = d(k := ucast w, k + 1 := ucast (drop_bit 8 w))"

definition dinode_off :: "u32 \<Rightarrow> nat" where
  "dinode_off inum = 64 * (unat inum mod IPB)"

definition wr_addrs :: "nat \<Rightarrow> (nat \<Rightarrow> u32) \<Rightarrow> block \<Rightarrow> block" where
  "wr_addrs k a d = fold (\<lambda>i. wrw (k + 4 * i) (a i)) [0..<NDIRECT + 1] d"

definition put_dinode :: "nat \<Rightarrow> inode \<Rightarrow> block \<Rightarrow> block" where
  "put_dinode k v d =
     wr_addrs (k + 12) (i_addrs v) (wrw (k + 8) (i_size v) (wrh (k + 6) (i_nlink v)
       (wrh (k + 4) (i_minor v) (wrh (k + 2) (i_major v) (wrh k (i_type v) d)))))"

definition get_dinode :: "nat \<Rightarrow> block \<Rightarrow> inode \<Rightarrow> inode" where
  "get_dinode k d v =
     v\<lparr>i_type := rdh d k, i_major := rdh d (k + 2), i_minor := rdh d (k + 4), i_nlink := rdh d (k + 6),
       i_size := rdw d (k + 8), i_addrs := (\<lambda>i. if i < NDIRECT + 1 then rdw d (k + 12 + 4 * i) else i_addrs v i)\<rparr>"

definition iinit :: "u32 \<Rightarrow> fstate \<Rightarrow> unit fres" where
  "iinit dev f =
     (let f = f\<lparr>inodes := (\<lambda>i. if i < NINODE then (inodes f i)\<lparr>i_lock := initsleeplock (i_lock (inodes f i))\<rparr> else inodes f i)\<rparr>
      in xbind (onx (readsb dev) f) (\<lambda>sb f. Done () (f\<lparr>fsb := sb\<rparr>)))"

definition iget :: "u32 \<Rightarrow> u32 \<Rightarrow> fstate \<Rightarrow> nat fres" where
  "iget dev inum f =
     (case find (\<lambda>ip. 0 < i_ref (inodes f ip) \<and> i_dev (inodes f ip) = dev \<and> i_inum (inodes f ip) = inum) [0..<NINODE] of
        Some ip \<Rightarrow> Done ip (upd_inode ip (\<lambda>v. v\<lparr>i_ref := i_ref v + 1\<rparr>) f)
      | None \<Rightarrow>
          (case find (\<lambda>ip. i_ref (inodes f ip) = 0) [0..<NINODE] of
             None \<Rightarrow> Panicked ''iget: no inodes'' f
           | Some ip \<Rightarrow> Done ip (upd_inode ip (\<lambda>v. v\<lparr>i_dev := dev, i_inum := inum, i_ref := 1, i_valid := False\<rparr>) f)))"

definition idup :: "nat \<Rightarrow> fstate \<Rightarrow> fstate" where
  "idup ip f = upd_inode ip (\<lambda>v. v\<lparr>i_ref := i_ref v + 1\<rparr>) f"

text \<open>The loop of \<open>ialloc\<close> from \<open>inum\<close> on.\<close>

function ialloc_loop :: "superblock \<Rightarrow> u32 \<Rightarrow> u16 \<Rightarrow> nat \<Rightarrow> fstate \<Rightarrow> nat fres" where
  "ialloc_loop sb dev type inum f =
     (if inum < unat (sb_ninodes sb)
      then let w = word_of_nat inum; k = dinode_off w
           in xbind (onx (bread dev (IBLOCK w sb)) f) (\<lambda>bp f.
                if rdh (fdata bp f) k = 0
                then let d = fdata bp f;
                         f = fput bp (wrh k type (\<lambda>i. if k \<le> i \<and> i < k + 64 then 0 else d i)) f
                     in xbind (onlog (log_write bp) f) (\<lambda>_ f.
                        xbind (onx (brelse bp) f) (\<lambda>_ f. iget dev w f))
                else xbind (onx (brelse bp) f) (\<lambda>_ f. ialloc_loop sb dev type (inum + 1) f))
      else Panicked ''ialloc: no inodes'' f)"
  by pat_completeness auto
termination
  by (relation "measure (\<lambda>(sb, dev, type, inum, f). unat (sb_ninodes sb) - inum)") auto

declare ialloc_loop.simps [simp del]

definition ialloc :: "u32 \<Rightarrow> u16 \<Rightarrow> fstate \<Rightarrow> nat fres" where
  "ialloc dev type f = ialloc_loop (fsb f) dev type 1 f"

definition iupdate :: "nat \<Rightarrow> fstate \<Rightarrow> unit fres" where
  "iupdate ip f =
     (let v = inodes f ip
      in xbind (onx (bread (i_dev v) (IBLOCK (i_inum v) (fsb f))) f) (\<lambda>bp f.
           let f = fput bp (put_dinode (dinode_off (i_inum v)) v (fdata bp f)) f
           in xbind (onlog (log_write bp) f) (\<lambda>_ f. onx (brelse bp) f)))"

text \<open>The sleep lock of an inode.\<close>

definition iacquiresleep :: "nat \<Rightarrow> fstate \<Rightarrow> unit fres" where
  "iacquiresleep ip f =
     (if sl_locked (i_lock (inodes f ip)) then Sleeping f
      else Done () (upd_inode ip (\<lambda>v. v\<lparr>i_lock := \<lparr>sl_locked = True, sl_pid = curpid (fx f)\<rparr>\<rparr>) f))"

definition ireleasesleep :: "nat \<Rightarrow> fstate \<Rightarrow> fstate" where
  "ireleasesleep ip f = upd_inode ip (\<lambda>v. v\<lparr>i_lock := \<lparr>sl_locked = False, sl_pid = 0\<rparr>\<rparr>) f"

definition iholdingsleep :: "nat \<Rightarrow> fstate \<Rightarrow> bool" where
  "iholdingsleep ip f \<longleftrightarrow> sl_locked (i_lock (inodes f ip)) \<and> sl_pid (i_lock (inodes f ip)) = curpid (fx f)"

definition ilock :: "nat \<Rightarrow> fstate \<Rightarrow> unit fres" where
  "ilock ip f =
     (if i_ref (inodes f ip) < 1 then Panicked ''ilock'' f
      else xbind (iacquiresleep ip f) (\<lambda>_ f.
        if \<not> i_valid (inodes f ip)
        then let v = inodes f ip
             in xbind (onx (bread (i_dev v) (IBLOCK (i_inum v) (fsb f))) f) (\<lambda>bp f.
                  let f = upd_inode ip (get_dinode (dinode_off (i_inum v)) (fdata bp f)) f
                  in xbind (onx (brelse bp) f) (\<lambda>_ f.
                       let f = upd_inode ip (\<lambda>v. v\<lparr>i_valid := True\<rparr>) f
                       in if i_type (inodes f ip) = 0 then Panicked ''ilock: no type'' f else Done () f))
        else Done () f))"

definition iunlock :: "nat \<Rightarrow> fstate \<Rightarrow> unit fres" where
  "iunlock ip f =
     (if \<not> iholdingsleep ip f \<or> i_ref (inodes f ip) < 1 then Panicked ''iunlock'' f
      else Done () (ireleasesleep ip f))"

section \<open>Inode content\<close>

text \<open>The entry \<open>bn\<close> of the indirect block \<open>addr\<close>.\<close>

definition bmap_indirect :: "u32 \<Rightarrow> u32 \<Rightarrow> nat \<Rightarrow> fstate \<Rightarrow> u32 fres" where
  "bmap_indirect dev addr bn f =
     xbind (onx (bread dev addr) f) (\<lambda>bp f.
     xbind (if rdw (fdata bp f) (4 * bn) = 0
            then xbind (balloc dev f) (\<lambda>addr f.
                   let f = fput bp (wrw (4 * bn) addr (fdata bp f)) f
                   in xbind (onlog (log_write bp) f) (\<lambda>_ f. Done addr f))
            else Done (rdw (fdata bp f) (4 * bn)) f) (\<lambda>addr f.
     xbind (onx (brelse bp) f) (\<lambda>_ f. Done addr f)))"

definition bmap :: "nat \<Rightarrow> nat \<Rightarrow> fstate \<Rightarrow> u32 fres" where
  "bmap ip bn f =
     (let dev = i_dev (inodes f ip)
      in if bn < NDIRECT
         then if i_addrs (inodes f ip) bn = 0
              then xbind (balloc dev f) (\<lambda>addr f. Done addr (upd_inode ip (\<lambda>v. v\<lparr>i_addrs := (i_addrs v)(bn := addr)\<rparr>) f))
              else Done (i_addrs (inodes f ip) bn) f
         else let bn = bn - NDIRECT
              in if bn < NINDIRECT
                 then xbind (if i_addrs (inodes f ip) NDIRECT = 0
                             then xbind (balloc dev f) (\<lambda>addr f. Done addr (upd_inode ip (\<lambda>v. v\<lparr>i_addrs := (i_addrs v)(NDIRECT := addr)\<rparr>) f))
                             else Done (i_addrs (inodes f ip) NDIRECT) f) (\<lambda>addr f. bmap_indirect dev addr bn f)
                 else Panicked ''bmap: out of range'' f)"

text \<open>The loops of \<open>itrunc\<close>.\<close>

primrec itrunc_direct :: "nat \<Rightarrow> nat \<Rightarrow> fstate \<Rightarrow> unit fres" where
  "itrunc_direct ip 0 f = Done () f"
| "itrunc_direct ip (Suc i) f =
     xbind (itrunc_direct ip i f) (\<lambda>_ f.
       if i_addrs (inodes f ip) i \<noteq> 0
       then xbind (bfree (i_dev (inodes f ip)) (i_addrs (inodes f ip) i) f) (\<lambda>_ f.
              Done () (upd_inode ip (\<lambda>v. v\<lparr>i_addrs := (i_addrs v)(i := 0)\<rparr>) f))
       else Done () f)"

primrec itrunc_indirect :: "nat \<Rightarrow> nat \<Rightarrow> nat \<Rightarrow> fstate \<Rightarrow> unit fres" where
  "itrunc_indirect ip bp 0 f = Done () f"
| "itrunc_indirect ip bp (Suc j) f =
     xbind (itrunc_indirect ip bp j f) (\<lambda>_ f.
       if rdw (fdata bp f) (4 * j) \<noteq> 0 then bfree (i_dev (inodes f ip)) (rdw (fdata bp f) (4 * j)) f else Done () f)"

definition itrunc :: "nat \<Rightarrow> fstate \<Rightarrow> unit fres" where
  "itrunc ip f =
     xbind (itrunc_direct ip NDIRECT f) (\<lambda>_ f.
     xbind (if i_addrs (inodes f ip) NDIRECT \<noteq> 0
            then xbind (onx (bread (i_dev (inodes f ip)) (i_addrs (inodes f ip) NDIRECT)) f) (\<lambda>bp f.
                 xbind (itrunc_indirect ip bp NINDIRECT f) (\<lambda>_ f.
                 xbind (onx (brelse bp) f) (\<lambda>_ f.
                 xbind (bfree (i_dev (inodes f ip)) (i_addrs (inodes f ip) NDIRECT) f) (\<lambda>_ f.
                   Done () (upd_inode ip (\<lambda>v. v\<lparr>i_addrs := (i_addrs v)(NDIRECT := 0)\<rparr>) f)))))
            else Done () f) (\<lambda>_ f.
       iupdate ip (upd_inode ip (\<lambda>v. v\<lparr>i_size := 0\<rparr>) f)))"

definition iput :: "nat \<Rightarrow> fstate \<Rightarrow> unit fres" where
  "iput ip f =
     xbind (iacquiresleep ip f) (\<lambda>_ f.
     xbind (if i_valid (inodes f ip) \<and> i_nlink (inodes f ip) = 0 \<and> i_ref (inodes f ip) = 1
            then xbind (itrunc ip f) (\<lambda>_ f.
                 xbind (iupdate ip (upd_inode ip (\<lambda>v. v\<lparr>i_type := 0\<rparr>) f)) (\<lambda>_ f.
                   Done () (upd_inode ip (\<lambda>v. v\<lparr>i_valid := False\<rparr>) f)))
            else Done () f) (\<lambda>_ f.
       Done () (upd_inode ip (\<lambda>v. v\<lparr>i_ref := i_ref v - 1\<rparr>) (ireleasesleep ip f))))"

definition iunlockput :: "nat \<Rightarrow> fstate \<Rightarrow> unit fres" where
  "iunlockput ip f = xbind (iunlock ip f) (\<lambda>_ f. iput ip f)"

definition stati :: "nat \<Rightarrow> fstate \<Rightarrow> stat" where
  "stati ip f =
     (let v = inodes f ip
      in \<lparr>st_type = i_type v, st_dev = i_dev v, st_ino = i_inum v, st_nlink = i_nlink v, st_size = i_size v\<rparr>)"

text \<open>The loops of \<open>readi\<close> and \<open>writei\<close>, with \<open>n\<close> bytes to go.\<close>

function readi_loop :: "nat \<Rightarrow> nat \<Rightarrow> nat \<Rightarrow> u8 list \<Rightarrow> fstate \<Rightarrow> u8 list fres" where
  "readi_loop ip off n dst f =
     (if 0 < n
      then let m = min n (BSIZE - off mod BSIZE)
           in xbind (bmap ip (off div BSIZE) f) (\<lambda>addr f.
              xbind (onx (bread (i_dev (inodes f ip)) addr) f) (\<lambda>bp f.
                let dst = dst @ map (fdata bp f) [off mod BSIZE..<off mod BSIZE + m]
                in xbind (onx (brelse bp) f) (\<lambda>_ f. readi_loop ip (off + m) (n - m) dst f)))
      else Done dst f)"
  by pat_completeness auto
termination
  by (relation "measure (\<lambda>(ip, off, n, dst, f). n)") (auto simp: BSIZE_def min_def)

declare readi_loop.simps [simp del]

definition readi :: "devsw \<Rightarrow> nat \<Rightarrow> u32 \<Rightarrow> u32 \<Rightarrow> fstate \<Rightarrow> (int \<times> u8 list) fres" where
  "readi dv ip off n f =
     (let v = inodes f ip
      in if i_type v = T_DEV
         then if sint (i_major v) < 0 \<or> NDEV \<le> sint (i_major v) then Done (- 1, []) f
              else (case dev_read dv (sint (i_major v)) of None \<Rightarrow> Done (- 1, []) f | Some g \<Rightarrow> g ip n f)
         else if i_size v < off \<or> off + n < off then Done (- 1, []) f
         else let n = (if i_size v < off + n then i_size v - off else n)
              in xbind (readi_loop ip (unat off) (unat n) [] f) (\<lambda>dst f. Done (sint n, dst) f))"

text \<open>The bytes of the source that go into a block: \<open>m\<close> of them to offset \<open>k\<close>.\<close>

definition blit :: "nat \<Rightarrow> nat \<Rightarrow> (nat \<Rightarrow> u8) \<Rightarrow> block \<Rightarrow> block" where
  "blit k m src d = (\<lambda>i. if k \<le> i \<and> i < k + m then src (i - k) else d i)"

function writei_loop :: "nat \<Rightarrow> (nat \<Rightarrow> u8) \<Rightarrow> nat \<Rightarrow> nat \<Rightarrow> fstate \<Rightarrow> unit fres" where
  "writei_loop ip src off n f =
     (if 0 < n
      then let m = min n (BSIZE - off mod BSIZE)
           in xbind (bmap ip (off div BSIZE) f) (\<lambda>addr f.
              xbind (onx (bread (i_dev (inodes f ip)) addr) f) (\<lambda>bp f.
                let f = fput bp (blit (off mod BSIZE) m src (fdata bp f)) f
                in xbind (onlog (log_write bp) f) (\<lambda>_ f.
                   xbind (onx (brelse bp) f) (\<lambda>_ f. writei_loop ip (\<lambda>i. src (i + m)) (off + m) (n - m) f))))
      else Done () f)"
  by pat_completeness auto
termination
  by (relation "measure (\<lambda>(ip, src, off, n, f). n)") (auto simp: BSIZE_def min_def)

declare writei_loop.simps [simp del]

definition writei :: "devsw \<Rightarrow> nat \<Rightarrow> (nat \<Rightarrow> u8) \<Rightarrow> u32 \<Rightarrow> u32 \<Rightarrow> fstate \<Rightarrow> int fres" where
  "writei dv ip src off n f =
     (let v = inodes f ip
      in if i_type v = T_DEV
         then if sint (i_major v) < 0 \<or> NDEV \<le> sint (i_major v) then Done (- 1) f
              else (case dev_write dv (sint (i_major v)) of None \<Rightarrow> Done (- 1) f | Some g \<Rightarrow> g ip src n f)
         else if i_size v < off \<or> off + n < off then Done (- 1) f
         else if MAXFILE * BSIZE < unat (off + n) then Done (- 1) f
         else xbind (writei_loop ip src (unat off) (unat n) f) (\<lambda>_ f.
              xbind (if 0 < n \<and> i_size (inodes f ip) < off + n
                     then iupdate ip (upd_inode ip (\<lambda>v. v\<lparr>i_size := off + n\<rparr>) f)
                     else Done () f) (\<lambda>_ f. Done (sint n) f)))"

end
