(* ===== verification/XDir.thy ===== *)
theory XDir
  imports XFs
begin

text \<open>
  Directories and path names of xv6 (the second half of xv6-public/fs.c, and \<open>strncmp\<close> and \<open>strncpy\<close>
  of string.c). A directory is a file of 16-byte entries: an inode number, zero for an unused entry,
  and a name of up to DIRSIZ bytes, padded with zeros. The size of a directory is read once per loop;
  the code reads it in every round, and it cannot change while the inode is locked.
\<close>

section \<open>Names\<close>

type_synonym name = "nat \<Rightarrow> u8"

primrec x_strncmp :: "nat \<Rightarrow> name \<Rightarrow> name \<Rightarrow> int" where
  "x_strncmp 0 p q = 0"
| "x_strncmp (Suc n) p q =
     (if p 0 \<noteq> 0 \<and> p 0 = q 0 then x_strncmp n (\<lambda>i. p (Suc i)) (\<lambda>i. q (Suc i)) else int (unat (p 0)) - int (unat (q 0)))"

primrec strncpy_from :: "nat \<Rightarrow> nat \<Rightarrow> name \<Rightarrow> name \<Rightarrow> name" where
  "strncpy_from 0 k s t = s"
| "strncpy_from (Suc n) k s t =
     (let s = s(k := t k)
      in if t k \<noteq> 0 then strncpy_from n (Suc k) s t else fold (\<lambda>i s. s(i := 0)) [Suc k..<Suc k + n] s)"

definition x_strncpy :: "name \<Rightarrow> name \<Rightarrow> nat \<Rightarrow> name" where
  "x_strncpy s t n = strncpy_from n 0 s t"

definition namecmp :: "name \<Rightarrow> name \<Rightarrow> int" where
  "namecmp s t = x_strncmp DIRSIZ s t"

section \<open>Directories\<close>

text \<open>The fields of an entry.\<close>

definition de_inum :: "u8 list \<Rightarrow> u16" where
  "de_inum de = ucast (de ! 0) OR push_bit 8 (ucast (de ! 1))"

definition de_name :: "u8 list \<Rightarrow> name" where
  "de_name de i = de ! (2 + i)"

definition mk_dirent :: "u16 \<Rightarrow> name \<Rightarrow> name" where
  "mk_dirent inum nm i = (if i = 0 then ucast inum else if i = 1 then ucast (drop_bit 8 inum) else nm (i - 2))"

function dirlookup_loop :: "devsw \<Rightarrow> nat \<Rightarrow> name \<Rightarrow> nat \<Rightarrow> nat \<Rightarrow> fstate \<Rightarrow> (nat \<times> nat) option fres" where
  "dirlookup_loop dv dp name sz off f =
     (if off < sz
      then xbind (readi dv dp (word_of_nat off) 16 f) (\<lambda>(r, de) f.
             if r \<noteq> 16 then Panicked ''dirlookup read'' f
             else if de_inum de = 0 then dirlookup_loop dv dp name sz (off + 16) f
             else if namecmp name (de_name de) = 0
             then xbind (iget (i_dev (inodes f dp)) (ucast (de_inum de)) f) (\<lambda>ip f. Done (Some (ip, off)) f)
             else dirlookup_loop dv dp name sz (off + 16) f)
      else Done None f)"
  by pat_completeness auto
termination
  by (relation "measure (\<lambda>(dv, dp, name, sz, off, f). sz - off)") auto

declare dirlookup_loop.simps [simp del]

definition dirlookup :: "devsw \<Rightarrow> nat \<Rightarrow> name \<Rightarrow> fstate \<Rightarrow> (nat \<times> nat) option fres" where
  "dirlookup dv dp name f =
     (if i_type (inodes f dp) \<noteq> T_DIR then Panicked ''dirlookup not DIR'' f
      else dirlookup_loop dv dp name (unat (i_size (inodes f dp))) 0 f)"

function dirlink_loop :: "devsw \<Rightarrow> nat \<Rightarrow> nat \<Rightarrow> nat \<Rightarrow> fstate \<Rightarrow> nat fres" where
  "dirlink_loop dv dp sz off f =
     (if off < sz
      then xbind (readi dv dp (word_of_nat off) 16 f) (\<lambda>(r, de) f.
             if r \<noteq> 16 then Panicked ''dirlink read'' f
             else if de_inum de = 0 then Done off f
             else dirlink_loop dv dp sz (off + 16) f)
      else Done off f)"
  by pat_completeness auto
termination
  by (relation "measure (\<lambda>(dv, dp, sz, off, f). sz - off)") auto

declare dirlink_loop.simps [simp del]

definition dirlink :: "devsw \<Rightarrow> nat \<Rightarrow> name \<Rightarrow> u16 \<Rightarrow> fstate \<Rightarrow> int fres" where
  "dirlink dv dp name inum f =
     xbind (dirlookup dv dp name f) (\<lambda>r f.
       case r of
         Some (ip, off) \<Rightarrow> xbind (iput ip f) (\<lambda>_ f. Done (- 1) f)
       | None \<Rightarrow>
           xbind (dirlink_loop dv dp (unat (i_size (inodes f dp))) 0 f) (\<lambda>off f.
           xbind (writei dv dp (mk_dirent inum (x_strncpy (\<lambda>_. 0) name DIRSIZ)) (word_of_nat off) 16 f) (\<lambda>r f.
             if r \<noteq> 16 then Panicked ''dirlink'' f else Done 0 f)))"

section \<open>Paths\<close>

definition skipelem :: "u8 list \<Rightarrow> name \<Rightarrow> (u8 list \<times> name) option" where
  "skipelem path name =
     (let path = dropWhile (\<lambda>c. c = 0x2F) path
      in if path = [] then None
         else let s = takeWhile (\<lambda>c. c \<noteq> 0x2F) path;
                  path = dropWhile (\<lambda>c. c \<noteq> 0x2F) path;
                  len = length s;
                  name = (if DIRSIZ \<le> len then (\<lambda>i. if i < DIRSIZ then s ! i else name i)
                          else (\<lambda>i. if i < len then s ! i else if i = len then 0 else name i))
              in Some (dropWhile (\<lambda>c. c = 0x2F) path, name))"

lemma skipelem_shorter [simp]: "skipelem path name = Some (path', name') \<Longrightarrow> length path' < length path"
proof -
  assume s: "skipelem path name = Some (path', name')"
  let ?p = "dropWhile (\<lambda>c. c = 0x2F) path"
  have p: "?p \<noteq> []" "path' = dropWhile (\<lambda>c. c = 0x2F) (dropWhile (\<lambda>c. c \<noteq> 0x2F) ?p)"
    using s by (auto simp: skipelem_def Let_def split: if_splits)
  obtain c cs where c: "?p = c # cs" using p(1) by (cases ?p) auto
  then have "c \<noteq> 0x2F" using hd_dropWhile [OF p(1)] by simp
  then have "length path' \<le> length cs" unfolding p(2) c by (simp add: le_trans [OF length_dropWhile_le length_dropWhile_le])
  also have "length cs < length path" using c length_dropWhile_le [of "\<lambda>c. c = 0x2F" path] by simp
  finally show ?thesis .
qed

function namex_loop :: "devsw \<Rightarrow> bool \<Rightarrow> nat \<Rightarrow> u8 list \<Rightarrow> name \<Rightarrow> fstate \<Rightarrow> (nat option \<times> name) fres" where
  "namex_loop dv nameiparent ip path name f =
     (case skipelem path name of
        None \<Rightarrow> if nameiparent then xbind (iput ip f) (\<lambda>_ f. Done (None, name) f) else Done (Some ip, name) f
      | Some (path, name) \<Rightarrow>
          xbind (ilock ip f) (\<lambda>_ f.
            if i_type (inodes f ip) \<noteq> T_DIR then xbind (iunlockput ip f) (\<lambda>_ f. Done (None, name) f)
            else if nameiparent \<and> path = [] then xbind (iunlock ip f) (\<lambda>_ f. Done (Some ip, name) f)
            else xbind (dirlookup dv ip name f) (\<lambda>next f.
                   xbind (iunlockput ip f) (\<lambda>_ f.
                     case next of None \<Rightarrow> Done (None, name) f | Some (ip, off) \<Rightarrow> namex_loop dv nameiparent ip path name f))))"
  by pat_completeness auto
termination
  by (relation "measure (\<lambda>(dv, np, ip, path, name, f). length path)") auto

declare namex_loop.simps [simp del]

definition namex :: "devsw \<Rightarrow> nat \<Rightarrow> u8 list \<Rightarrow> bool \<Rightarrow> name \<Rightarrow> fstate \<Rightarrow> (nat option \<times> name) fres" where
  "namex dv cwd path nameiparent name f =
     xbind (if path \<noteq> [] \<and> hd path = 0x2F then iget ROOTDEV ROOTINO f else Done cwd (idup cwd f)) (\<lambda>ip f.
       namex_loop dv nameiparent ip path name f)"

definition namei :: "devsw \<Rightarrow> nat \<Rightarrow> u8 list \<Rightarrow> fstate \<Rightarrow> nat option fres" where
  "namei dv cwd path f = xbind (namex dv cwd path False (\<lambda>_. 0) f) (\<lambda>(ip, name) f. Done ip f)"

definition nameiparent :: "devsw \<Rightarrow> nat \<Rightarrow> u8 list \<Rightarrow> name \<Rightarrow> fstate \<Rightarrow> (nat option \<times> name) fres" where
  "nameiparent dv cwd path name f = namex dv cwd path True name f"

end
