(* ===== verification/XFsInv.thy ===== *)
theory XFsInv
  imports XFs XLogThms
begin

text \<open>
  The file system code inside a transaction: \<open>txn f H\<close> is the state between its calls while it holds
  the buffers \<open>H\<close>, and \<open>fview f\<close> the blocks as it sees them. Every function of fs.c changes blocks
  only by reading a buffer, changing it, and passing it to \<open>log_write\<close>; the lemmas here turn this into
  updates of \<open>fview\<close>.
\<close>

section \<open>Transactions\<close>

definition fview :: "fstate \<Rightarrow> u32 \<Rightarrow> block" where
  "fview f = view (fx f)"

definition flogged :: "fstate \<Rightarrow> u32 set" where
  "flogged f = set (logged (flog f))"

definition txn :: "fstate \<Rightarrow> nat set \<Rightarrow> bool" where
  "txn f H \<longleftrightarrow> binv (fx f) H \<and> (\<forall>b \<in> H. coherent (fx f) b) \<and> dirtyb (fx f) = flogged f
     \<and> log_ok (flog f) \<and> 1 \<le> outstanding (flog f) \<and> 30 \<le> l_size (flog f)"

definition nlog :: "fstate \<Rightarrow> nat" where
  "nlog f = card (flogged f)"

lemma nlog_n: "log_ok (flog f) \<Longrightarrow> lh_n (flog f) = int (nlog f)"
  using log_okD(4) [of "flog f"] by (auto simp: nlog_def flogged_def log_ok_def distinct_card)

text \<open>Everything but the contents of blocks and the log stays.\<close>

definition fkeep :: "nat set \<Rightarrow> fstate \<Rightarrow> fstate \<Rightarrow> bool" where
  "fkeep H f f' \<longleftrightarrow> fsb f' = fsb f \<and> inodes f' = inodes f \<and> curpid (fx f') = curpid (fx f)
     \<and> l_start (flog f') = l_start (flog f) \<and> outstanding (flog f') = outstanding (flog f) \<and> committing (flog f') = committing (flog f)
     \<and> (\<forall>b \<in> H. blk (fx f') b = blk (fx f) b)"

text \<open>A run from \<open>f\<close> to \<open>f'\<close> that leaves the view \<open>v\<close> and logs the blocks \<open>W\<close>.\<close>

definition feff :: "nat set \<Rightarrow> fstate \<Rightarrow> (u32 \<Rightarrow> block) \<Rightarrow> u32 set \<Rightarrow> fstate \<Rightarrow> bool" where
  "feff H f v W f' \<longleftrightarrow> txn f' H \<and> fview f' = v \<and> flogged f' = flogged f \<union> W \<and> fkeep H f f'"

lemma feff_trans: "feff H f v W f' \<Longrightarrow> feff H f' v' W' f'' \<Longrightarrow> feff H f v' (W \<union> W') f''"
  by (auto simp: feff_def fkeep_def)

lemma feff_refl: "txn f H \<Longrightarrow> feff H f (fview f) {} f"
  by (simp add: feff_def fkeep_def)

lemma nlog_eff: "feff H f v W f' \<Longrightarrow> finite W \<Longrightarrow> nlog f' \<le> nlog f + card W"
proof -
  assume a: "feff H f v W f'" "finite W"
  have "card (flogged f \<union> W) \<le> card (flogged f) + card W" by (rule card_Un_le)
  then show ?thesis using a(1) by (simp add: feff_def nlog_def)
qed

lemma onx_Done: "m (fx f) = Done x s \<Longrightarrow> onx m f = Done x (f\<lparr>fx := s\<rparr>)"
  by (simp add: onx_def)

lemma held_data: "txn f H \<Longrightarrow> b \<in> H \<Longrightarrow> fdata b f = fview f (blk (fx f) b)"
proof -
  assume t: "txn f H" "b \<in> H"
  then have I: "binv (fx f) H" by (simp add: txn_def)
  have b: "b < NBUF" using I t(2) by (auto simp: binv_def)
  then have "caches (fx f) (blk (fx f) b) b" using binvD(1) [OF I b t(2)] by (simp add: caches_def held_def)
  then show ?thesis using view_cached [OF I] by (simp add: fdata_def fview_def)
qed

lemma view_disk_held:
  assumes I: "binv s H" and n: "n \<notin> dirtyb s" "n \<notin> blk s ` H"
  shows "view s n = disk s (1, n)"
proof (rule view_eqI [OF I])
  show "disk s (1, n) = b_data (bufs s b)" if "caches s n b" for b
  proof -
    have b: "b < NBUF" "valid (bufs s b)" "blk s b = n" using that by (auto simp: caches_def)
    then have "\<not> dirty (bufs s b)" "b \<notin> H" using n by (auto simp: dirtyb_def)
    then show ?thesis using binvD(3) [OF I b(1)] b by (simp add: coherent_def)
  qed
qed simp

lemma bread_txn:
  assumes t: "txn f H" and n: "n < FSSIZE" "n \<notin> blk (fx f) ` H" and room: "nlog f + card H < 30"
  shows "\<exists>b f'. onx (bread ROOTDEV n) f = Done b f' \<and> b \<notin> H \<and> txn f' (insert b H) \<and> fview f' = fview f
    \<and> flogged f' = flogged f \<and> fkeep H f f' \<and> blk (fx f') b = n"
proof -
  let ?s = "fx f"
  have I: "binv ?s H" and D: "dirtyb ?s = flogged f" and co: "\<And>b. b \<in> H \<Longrightarrow> coherent ?s b" using t by (auto simp: txn_def)
  have fin: "finite H" using I by (auto simp: binv_def intro: finite_subset)
  have "card (dirtyb ?s \<union> blk ?s ` H \<union> {n}) \<le> card (dirtyb ?s \<union> blk ?s ` H) + 1" using card_Un_le [of _ "{n}"] by simp
  also have "card (dirtyb ?s \<union> blk ?s ` H) \<le> card (dirtyb ?s) + card (blk ?s ` H)" by (rule card_Un_le)
  also have "card (blk ?s ` H) \<le> card H" using fin by (rule card_image_le)
  finally have "card (dirtyb ?s \<union> blk ?s ` H \<union> {n}) \<le> NBUF" using room D by (simp add: NBUF_def nlog_def)
  from bread_ok [OF I n this] obtain b s' where B: "bread ROOTDEV n ?s = Done b s'" "b < NBUF" "b \<notin> H" "binv s' (insert b H)"
    "cache_same ?s s'" "blk s' b = n" "b_data (bufs s' b) = view ?s n" "\<And>c. c \<noteq> b \<Longrightarrow> bufs s' c = bufs ?s c"
    "dirty (bufs s' b) \<longleftrightarrow> n \<in> dirtyb ?s" by metis
  have cs: "view s' = view ?s" "dirtyb s' = dirtyb ?s" "disk s' = disk ?s" "curpid s' = curpid ?s" using B(5) by (auto simp: cache_same_def)
  have cb: "coherent s' b" unfolding coherent_def using B(6,7,9) cs(3) view_disk_held [OF I _ n(2)] by auto
  have bH: "bufs s' c = bufs ?s c" if "c \<in> H" for c using B(3) that by (intro B(8)) auto
  have ch: "coherent s' c" if "c \<in> H" for c
  proof -
    have "bufs s' c = bufs ?s c" by (rule bH [OF that])
    then show ?thesis using co [OF that] cs(3) by (simp add: coherent_def blk_def)
  qed
  have "txn (f\<lparr>fx := s'\<rparr>) (insert b H)"
    using t B(4) cb ch cs by (auto simp: txn_def flogged_def)
  moreover have "fkeep H f (f\<lparr>fx := s'\<rparr>)"
    using bH cs(4) by (simp add: fkeep_def blk_def)
  ultimately show ?thesis using onx_Done [of "bread ROOTDEV n" f, OF B(1)] B(3,6) cs
    by (intro exI [of _ b] exI [of _ "f\<lparr>fx := s'\<rparr>"]) (simp add: fview_def flogged_def)
qed

text \<open>\<open>log_write\<close> pins a held buffer.\<close>

definition mark :: "nat \<Rightarrow> xstate \<Rightarrow> xstate" where
  "mark b s = upd_buf b (\<lambda>v. v\<lparr>b_flags := b_flags v OR B_DIRTY\<rparr>) s"

lemma mark_fields [simp]:
  "b_data (bufs (mark b s) c) = b_data (bufs s c)" "b_dev (bufs (mark b s) c) = b_dev (bufs s c)" "blk (mark b s) c = blk s c"
  "valid (bufs (mark b s) c) = valid (bufs s c)" "dirty (bufs (mark b s) c) \<longleftrightarrow> c = b \<or> dirty (bufs s c)"
  "disk (mark b s) = disk s" "havedisk1 (mark b s) = havedisk1 s" "curpid (mark b s) = curpid s" "idequeue (mark b s) = idequeue s"
  "b_refcnt (bufs (mark b s) c) = b_refcnt (bufs s c)" "b_lock (bufs (mark b s) c) = b_lock (bufs s c)"
  "c \<noteq> b \<Longrightarrow> bufs (mark b s) c = bufs s c" "b_next (bufs (mark b s) c) = b_next (bufs s c)" "b_prev (bufs (mark b s) c) = b_prev (bufs s c)"
  by (auto simp: mark_def blk_def dirty_def valid_def bit_or_iff flag_bits)

lemma mark_ok:
  assumes I: "binv s H" and b: "b \<in> H"
  shows "binv (mark b s) H" "view (mark b s) = view s" "dirtyb (mark b s) = insert (blk s b) (dirtyb s)"
proof -
  have bn: "b < NBUF" using I b by (auto simp: binv_def)
  have h: "held s b" using binvD(1) [OF I bn b] .
  then have c: "caches s (blk s b) b" using bn by (simp add: caches_def held_def)
  show "binv (mark b s) H"
  proof (rule binv_upd [OF I bn])
    show "\<exists>ls. mru (mark b s) ls" if "mru s ls" for ls using that mru_cong [of "mark b s" s] by simp metis
    show "held (mark b s) b" using h by (simp add: held_def)
    show "blk s x \<noteq> blk (mark b s) b" if "x < NBUF" "x \<noteq> b" "valid (bufs s x)" for x
      using caches_unique [OF I c, of x] that by (auto simp: caches_def)
  qed (use h b binvD(4,5) [OF I bn] in \<open>simp_all add: held_def\<close>)
  show "view (mark b s) = view s" by (rule ext) (simp add: view_def split: option.split)
  show "dirtyb (mark b s) = insert (blk s b) (dirtyb s)" using bn by (auto simp: dirtyb_def)
qed

lemma log_slot_cases:
  assumes "0 \<le> lh_n lg"
  shows "n \<in> set (logged lg) \<Longrightarrow> log_slot lg n < nat (lh_n lg) \<and> lh_block lg (log_slot lg n) = n"
    "n \<notin> set (logged lg) \<Longrightarrow> log_slot lg n = nat (lh_n lg)"
proof -
  let ?F = "find (\<lambda>i. lh_block lg i = n) [0..<nat (lh_n lg)]"
  show "log_slot lg n < nat (lh_n lg) \<and> lh_block lg (log_slot lg n) = n" if "n \<in> set (logged lg)"
  proof -
    have "?F \<noteq> None" using that by (auto simp: find_None_iff logged_def)
    then obtain i where i: "?F = Some i" by blast
    then have "i < nat (lh_n lg) \<and> lh_block lg i = n" by (auto simp: find_Some_iff)
    then show ?thesis by (simp add: log_slot_def i)
  qed
  show "log_slot lg n = nat (lh_n lg)" if "n \<notin> set (logged lg)"
  proof -
    have "?F = None" using that by (auto simp: find_None_iff logged_def)
    then show ?thesis by (simp add: log_slot_def)
  qed
qed

definition add_log :: "u32 \<Rightarrow> log \<Rightarrow> log" where
  "add_log n lg = (if n \<in> set (logged lg) then lg else lg\<lparr>lh_block := (lh_block lg)(nat (lh_n lg) := n), lh_n := lh_n lg + 1\<rparr>)"

lemma logged_add:
  assumes "0 \<le> lh_n lg"
  shows "logged (add_log n lg) = (if n \<in> set (logged lg) then logged lg else logged lg @ [n])"
proof (cases "n \<in> set (logged lg)")
  case False
  then have "logged (add_log n lg) = map ((lh_block lg)(nat (lh_n lg) := n)) [0..<Suc (nat (lh_n lg))]"
    using assms by (simp add: add_log_def logged_def nat_add_distrib)
  also have "\<dots> = logged lg @ [n]" by (simp add: logged_def)
  finally show ?thesis using False by simp
qed (simp add: add_log_def)

lemma log_write_run:
  assumes L: "log_ok lg" and n: "lh_n lg < 29" "30 \<le> l_size lg" "1 \<le> outstanding lg"
  shows "log_write b lg s = Done (add_log (blk s b) lg) (mark b s)"
proof (cases "blk s b \<in> set (logged lg)")
  case True
  have z: "0 \<le> lh_n lg" using L by (simp add: log_ok_def)
  note S = log_slot_cases(1) [OF z True]
  have "(lh_block lg)(log_slot lg (blk s b) := blk s b) = lh_block lg" using S by (simp add: fun_eq_iff)
  moreover have "int (log_slot lg (blk s b)) \<noteq> lh_n lg" using S z by linarith
  ultimately show ?thesis using n True by (simp add: log_write_def Let_def LOGSIZE_def MAXOPBLOCKS_def mark_def add_log_def blk_def)
next
  case False
  have z: "0 \<le> lh_n lg" using L by (simp add: log_ok_def)
  then show ?thesis using n log_slot_cases(2) [OF z False] False
    by (simp add: log_write_def Let_def LOGSIZE_def MAXOPBLOCKS_def mark_def add_log_def blk_def)
qed

lemma log_ok_add:
  assumes "log_ok lg" "lh_n lg < 29" "n < FSSIZE" "\<not> in_log (l_start lg) n"
  shows "log_ok (add_log n lg)"
proof (cases "n \<in> set (logged lg)")
  case False
  then show ?thesis using assms logged_add [of lg n] by (auto simp: log_ok_def add_log_def)
qed (use assms in \<open>simp add: add_log_def\<close>)

lemma add_log_fields [simp]: "l_start (add_log n lg) = l_start lg" "outstanding (add_log n lg) = outstanding lg" "committing (add_log n lg) = committing lg" "l_size (add_log n lg) = l_size lg"
  by (simp_all add: add_log_def)

lemma update_txn:
  assumes t: "txn f H" and b: "b \<in> H" and n: "\<not> in_log (l_start (flog f)) (blk (fx f) b)" and room: "nlog f < 29"
  shows "\<exists>f'. onlog (log_write b) (fput b d f) = Done () f' \<and> feff H f ((fview f)(blk (fx f) b := d)) {blk (fx f) b} f'"
proof -
  let ?s = "fx f" and ?lg = "flog f"
  let ?s1 = "set_data b d ?s"
  have I: "binv ?s H" and D: "dirtyb ?s = flogged f" and L: "log_ok ?lg" "1 \<le> outstanding ?lg" "30 \<le> l_size ?lg"
    and co: "\<And>b. b \<in> H \<Longrightarrow> coherent ?s b" using t by (auto simp: txn_def)
  have bn: "b < NBUF" using I b by (auto simp: binv_def)
  have bf: "blk ?s b < FSSIZE" using binvD(1) [OF I bn b] binvD(5) [OF I bn] by (simp add: held_def)
  have I1: "binv ?s1 H" "view ?s1 = (view ?s)(blk ?s b := d)" using set_data_ok [OF I b] by auto
  note M = mark_ok [OF I1(1) b]
  have r: "lh_n ?lg < 29" using nlog_n [OF L(1)] room by simp
  have w: "onlog (log_write b) (fput b d f) = Done () (f\<lparr>fx := mark b ?s1, flog := add_log (blk ?s b) ?lg\<rparr>)"
    using log_write_run [OF L(1) r L(3,2), of b ?s1] by (simp add: onlog_def onx_def fput_def)
  let ?f = "f\<lparr>fx := mark b ?s1, flog := add_log (blk ?s b) ?lg\<rparr>"
  have z: "0 \<le> lh_n ?lg" using L(1) by (simp add: log_ok_def)
  have fl: "flogged ?f = flogged f \<union> {blk ?s b}" using logged_add [OF z, of "blk ?s b"] by (auto simp: flogged_def)
  have "coherent (mark b ?s1) c" if "c \<in> H" for c
    using co [OF that] by (cases "c = b") (auto simp: coherent_def)
  then have "txn ?f H" unfolding txn_def using M(1,3) D L(2,3) log_ok_add [OF L(1) r bf n] fl by auto
  moreover have "fview ?f = (fview f)(blk ?s b := d)" using M(2) I1(2) by (simp add: fview_def)
  moreover have "fkeep H f ?f" by (simp add: fkeep_def)
  ultimately show ?thesis using w fl by (auto simp: feff_def)
qed

lemma brelse_txn:
  assumes t: "txn f H" and b: "b \<in> H"
  shows "\<exists>f'. onx (brelse b) f = Done () f' \<and> feff (H - {b}) f (fview f) {} f'"
proof -
  let ?s = "released b (fx f)"
  have I: "binv (fx f) H" and co: "\<And>b. b \<in> H \<Longrightarrow> coherent (fx f) b" using t by (auto simp: txn_def)
  have R: "binv ?s (H - {b})" "cache_same (fx f) ?s" using brelse_ok [OF I b co [OF b]] by auto
  have "coherent ?s c" if "c \<in> H" for c using co [OF that] by (simp add: coherent_def)
  then have "txn (f\<lparr>fx := ?s\<rparr>) (H - {b})" using t R by (auto simp: txn_def cache_same_def flogged_def)
  moreover have "fkeep (H - {b}) f (f\<lparr>fx := ?s\<rparr>)" by (simp add: fkeep_def)
  ultimately show ?thesis using R(2) onx_Done [of "brelse b" f, OF brelse_run [OF I b]]
    by (auto simp: feff_def fview_def flogged_def cache_same_def)
qed

section \<open>Reading and changing a block\<close>

lemma fkeep_eff:
  assumes "fkeep H f f1" "flogged f1 = flogged f" "feff (insert b H) f1 v W f2" "feff H f2 v' W' f3"
  shows "feff H f v' (W \<union> W') f3"
  using assms by (auto simp: feff_def fkeep_def)

lemma read_block:
  assumes t: "txn f H" and n: "n < FSSIZE" "n \<notin> blk (fx f) ` H" and room: "nlog f + card H < 30"
  obtains b f1 where "onx (bread ROOTDEV n) f = Done b f1" "b \<notin> H" "txn f1 (insert b H)" "fdata b f1 = fview f n"
    "fview f1 = fview f" "flogged f1 = flogged f" "fkeep H f f1" "blk (fx f1) b = n"
    "\<And>f2 v W. feff (insert b H) f1 v W f2 \<Longrightarrow> \<exists>f3. onx (brelse b) f2 = Done () f3 \<and> feff H f v W f3"
proof -
  obtain b f1 where B: "onx (bread ROOTDEV n) f = Done b f1" "b \<notin> H" "txn f1 (insert b H)" "fview f1 = fview f"
    "flogged f1 = flogged f" "fkeep H f f1" "blk (fx f1) b = n" using bread_txn [OF assms] by blast
  have d: "fdata b f1 = fview f n" using held_data [OF B(3)] B(4,7) by simp
  have "\<exists>f3. onx (brelse b) f2 = Done () f3 \<and> feff H f v W f3" if "feff (insert b H) f1 v W f2" for f2 v W
  proof -
    have t2: "txn f2 (insert b H)" "fview f2 = v" using that by (auto simp: feff_def)
    obtain f3 where f3: "onx (brelse b) f2 = Done () f3" "feff (insert b H - {b}) f2 (fview f2) {} f3"
      using brelse_txn [OF t2(1)] by blast
    have "insert b H - {b} = H" using B(2) by auto
    then have "feff H f2 v {} f3" using f3(2) t2(2) by simp
    then show ?thesis using fkeep_eff [OF B(6,5) that, of v "{}" f3] f3(1) by simp
  qed
  then show thesis using that [OF B(1-3) d B(4-7)] by blast
qed

text \<open>The pattern of all updates.\<close>

definition modify_block :: "u32 \<Rightarrow> u32 \<Rightarrow> (block \<Rightarrow> block) \<Rightarrow> fstate \<Rightarrow> unit fres" where
  "modify_block dev n g f =
     xbind (onx (bread dev n) f) (\<lambda>bp f.
       let f = fput bp (g (fdata bp f)) f
       in xbind (onlog (log_write bp) f) (\<lambda>_ f. onx (brelse bp) f))"

lemma modify_block_run:
  assumes t: "txn f H" and n: "n < FSSIZE" "n \<notin> blk (fx f) ` H" "\<not> in_log (l_start (flog f)) n" and room: "nlog f + card H < 29"
  shows "\<exists>f'. modify_block ROOTDEV n g f = Done () f' \<and> feff H f ((fview f)(n := g (fview f n))) {n} f'"
proof -
  have r: "nlog f + card H < 30" "nlog f < 29" using room by auto
  obtain b f1 where B: "onx (bread ROOTDEV n) f = Done b f1" "b \<notin> H" "txn f1 (insert b H)" "fdata b f1 = fview f n"
    "fview f1 = fview f" "flogged f1 = flogged f" "fkeep H f f1" "blk (fx f1) b = n"
    "\<And>f2 v W. feff (insert b H) f1 v W f2 \<Longrightarrow> \<exists>f3. onx (brelse b) f2 = Done () f3 \<and> feff H f v W f3"
    using read_block [OF t n(1,2) r(1)] by blast
  have l: "\<not> in_log (l_start (flog f1)) (blk (fx f1) b)" "nlog f1 < 29" using B(6,7,8) n(3) r(2) by (simp_all add: fkeep_def nlog_def)
  obtain f2 where f2: "onlog (log_write b) (fput b (g (fview f n)) f1) = Done () f2"
    "feff (insert b H) f1 ((fview f1)(blk (fx f1) b := g (fview f n))) {blk (fx f1) b} f2"
    using update_txn [OF B(3) insertI1 l, of "g (fview f n)"] by blast
  obtain f3 where f3: "onx (brelse b) f2 = Done () f3" "feff H f ((fview f)(n := g (fview f n))) {n} f3"
    using B(9) [OF f2(2)] B(5,8) by auto
  then show ?thesis using B(1,4) f2(1) by (simp add: modify_block_def Let_def)
qed

end
