(* ===== verification/XBlocks.thy ===== *)
theory XBlocks
  imports XFsInv
begin

text \<open>Allocation of disk blocks: what \<open>bzero\<close>, \<open>balloc\<close>, \<open>bfree\<close> and \<open>iupdate\<close> do to the blocks that the file system sees.\<close>

section \<open>The free map\<close>

lemma bm_bit: "bm_used d bi \<longleftrightarrow> bit (d (bi div 8)) (bi mod 8)"
  using and_exp_eq_0_iff_not_bit [of "d (bi div 8)" "bi mod 8"] by (simp add: bm_used_def bm_mask_def push_bit_eq_mult)

definition bm_set :: "nat \<Rightarrow> block \<Rightarrow> block" where
  "bm_set bi d = d(bi div 8 := d (bi div 8) OR bm_mask bi)"

definition bm_clear :: "nat \<Rightarrow> block \<Rightarrow> block" where
  "bm_clear bi d = d(bi div 8 := d (bi div 8) AND NOT (bm_mask bi))"

lemma same_bit: "m div 8 = n div 8 \<Longrightarrow> m mod 8 = n mod 8 \<longleftrightarrow> m = n" for m n :: nat
  by (metis div_mult_mod_eq)

lemma bit_mask8: "j < 8 \<Longrightarrow> bit (bm_mask bi) j \<longleftrightarrow> j = bi mod 8"
  using bit_exp_iff [of "bi mod 8" j, where 'a = u8] by (auto simp: bm_mask_def push_bit_eq_mult)

lemma bm_used_set [simp]: "bm_used (bm_set n d) m \<longleftrightarrow> m = n \<or> bm_used d m"
  using same_bit [of m n] by (auto simp: bm_bit bm_set_def bit_or_iff bit_mask8)

lemma bm_used_clear [simp]: "bm_used (bm_clear n d) m \<longleftrightarrow> m \<noteq> n \<and> bm_used d m"
  using same_bit [of m n] by (auto simp: bm_bit bm_clear_def bit_and_iff bit_not_iff bit_mask8)

section \<open>The layout of the disk\<close>

type_synonym geo = "superblock \<times> u32"

text \<open>The super block and the start of the log.\<close>

definition fgeo :: "fstate \<Rightarrow> geo" where
  "fgeo f = (fsb f, l_start (flog f))"

abbreviation bmblk :: "geo \<Rightarrow> u32" where
  "bmblk g \<equiv> sb_bmapstart (fst g)"

definition used :: "geo \<Rightarrow> (u32 \<Rightarrow> block) \<Rightarrow> u32 \<Rightarrow> bool" where
  "used g v n \<longleftrightarrow> bm_used (v (bmblk g)) (unat n)"

text \<open>One block of free map is enough for FSSIZE blocks; the blocks of the file system's own data are in use.\<close>

definition layout :: "geo \<Rightarrow> (u32 \<Rightarrow> block) \<Rightarrow> bool" where
  "layout g v \<longleftrightarrow> sb_size (fst g) \<le> FSSIZE \<and> bmblk g < sb_size (fst g) \<and> used g v (bmblk g) \<and> used g v 0
     \<and> \<not> in_log (snd g) (bmblk g) \<and> (\<forall>n < sb_size (fst g). in_log (snd g) n \<longrightarrow> used g v n)"

definition free_blocks :: "geo \<Rightarrow> (u32 \<Rightarrow> block) \<Rightarrow> u32 set" where
  "free_blocks g v = {n. n < sb_size (fst g) \<and> \<not> used g v n}"

definition zeroed :: "block \<Rightarrow> block" where
  "zeroed d = (\<lambda>i. if i < BSIZE then 0 else d i)"

lemma bzero_modify: "bzero dev n = modify_block dev n zeroed"
  by (rule ext) (simp add: bzero_def modify_block_def zeroed_def)

lemma iupdate_modify:
  "iupdate ip f = modify_block (i_dev (inodes f ip)) (IBLOCK (i_inum (inodes f ip)) (fsb f))
     (put_dinode (dinode_off (i_inum (inodes f ip))) (inodes f ip)) f"
  by (simp add: iupdate_def modify_block_def Let_def)

lemma finite_free: "finite (free_blocks g v)"
  by (rule finite_subset [of _ "UNIV"]) auto

text \<open>The held buffers of a caller are blocks in use other than the free map.\<close>

definition held_used :: "nat set \<Rightarrow> fstate \<Rightarrow> bool" where
  "held_used H f \<longleftrightarrow> (\<forall>b \<in> H. used (fgeo f) (fview f) (blk (fx f) b) \<and> blk (fx f) b \<noteq> bmblk (fgeo f))"

lemma balloc_run:
  assumes t: "txn f H" and l: "layout (fgeo f) (fview f)" and h: "held_used H f" and free: "free_blocks (fgeo f) (fview f) \<noteq> {}" and room: "card (insert (bmblk (fgeo f)) (flogged f)) + card H < 29"
  shows "\<exists>n f'. balloc ROOTDEV f = Done n f' \<and> n \<in> free_blocks (fgeo f) (fview f)
    \<and> feff H f ((fview f)(bmblk (fgeo f) := bm_set (unat n) (fview f (bmblk (fgeo f))), n := zeroed (fview f n))) {bmblk (fgeo f), n} f'"
proof -
  let ?bm = "bmblk (fgeo f)" and ?z = "unat (sb_size (fsb f))"
  have z: "?z \<le> 1000" using l by (simp add: layout_def FSSIZE_def word_le_nat_alt fgeo_def)
  have bm: "?bm < FSSIZE" "\<not> in_log (l_start (flog f)) ?bm" "?bm \<notin> blk (fx f) ` H"
    using l h by (auto simp: layout_def held_used_def fgeo_def)
  have "nlog f \<le> card (insert ?bm (flogged f))" unfolding nlog_def by (rule card_mono) (auto simp: flogged_def)
  then have r: "nlog f + card H < 30" "nlog f < 29" using room by auto
  obtain b f1 where B: "onx (bread ROOTDEV ?bm) f = Done b f1" "b \<notin> H" "txn f1 (insert b H)" "fdata b f1 = fview f ?bm"
    "fview f1 = fview f" "flogged f1 = flogged f" "fkeep H f f1" "blk (fx f1) b = ?bm"
    "\<And>f2 v W. feff (insert b H) f1 v W f2 \<Longrightarrow> \<exists>f3. onx (brelse b) f2 = Done () f3 \<and> feff H f v W f3"
    using read_block [OF t bm(1,3) r(1)] by blast
  let ?P = "\<lambda>bi. \<not> bm_used (fview f ?bm) bi"
  obtain m where "m \<in> free_blocks (fgeo f) (fview f)" using free by blast
  then have "unat m < ?z" "?P (unat m)" by (auto simp: free_blocks_def used_def word_less_nat_alt fgeo_def)
  then have "find ?P [0..<?z] \<noteq> None" by (auto simp: find_None_iff)
  then obtain bi where F: "find ?P [0..<?z] = Some bi" by blast
  then have bi: "bi < ?z" "?P bi" by (auto simp: find_Some_iff)
  let ?n = "word_of_nat bi :: u32"
  have un: "unat ?n = bi" using bi z unat_word_of_nat32 [of bi] by simp
  have nf: "?n \<in> free_blocks (fgeo f) (fview f)" using bi un by (simp add: free_blocks_def used_def word_less_nat_alt fgeo_def)
  have l1: "\<not> in_log (l_start (flog f1)) (blk (fx f1) b)" "nlog f1 < 29" using B(6,7,8) bm(2) r(2) by (simp_all add: fkeep_def nlog_def)
  obtain f2 where f2: "onlog (log_write b) (fput b (bm_set bi (fview f ?bm)) f1) = Done () f2"
    "feff (insert b H) f1 ((fview f1)(blk (fx f1) b := bm_set bi (fview f ?bm))) {blk (fx f1) b} f2"
    using update_txn [OF B(3) insertI1 l1] by blast
  obtain f3 where f3: "onx (brelse b) f2 = Done () f3" "feff H f ((fview f)(?bm := bm_set bi (fview f ?bm))) {?bm} f3"
    using B(9) [OF f2(2)] B(5,8) by auto
  have t3: "txn f3 H" "nlog f3 + card H < 29" "fview f3 = (fview f)(?bm := bm_set bi (fview f ?bm))" "fkeep H f f3"
    using f3(2) room by (auto simp: feff_def nlog_def)
  have n3: "?n < FSSIZE" "?n \<notin> blk (fx f3) ` H" "\<not> in_log (l_start (flog f3)) ?n" "nlog f3 + card H < 29" "?n \<noteq> ?bm"
    using nf l h t3(2,4) by (auto simp: layout_def free_blocks_def held_used_def fkeep_def fgeo_def)
  obtain f4 where f4: "bzero ROOTDEV ?n f3 = Done () f4" "feff H f3 ((fview f3)(?n := zeroed (fview f3 ?n))) {?n} f4"
    using modify_block_run [OF t3(1) n3(1-4), of zeroed] by (auto simp: bzero_modify)
  have e: "feff H f ((fview f)(?bm := bm_set (unat ?n) (fview f ?bm), ?n := zeroed (fview f ?n))) {?bm, ?n} f4"
    using feff_trans [OF f3(2) f4(2)] t3(3) n3(5) un by (simp add: insert_commute)
  have "BBLOCK (word_of_nat 0) (fsb f) = ?bm" by (simp add: BBLOCK_def fgeo_def)
  moreover have "min BPB (?z - 0) = ?z" using z by (simp add: BPB_def BSIZE_def)
  ultimately have "balloc ROOTDEV f = Done ?n f4"
    unfolding balloc_def using B(1,4) F f2(1) f3(1) f4(1) bi(1)
    by (subst balloc_loop.simps) (simp add: Let_def bm_set_def)
  then show ?thesis using e nf by blast
qed

end
