(* ===== verification/XInode.thy ===== *)
theory XInode
  imports XBlocks
begin

text \<open>
  Files as the file system sees them: the block numbers of an inode, its bytes, and the invariant that
  its blocks are its own. These are facts about the contents of blocks (\<open>v\<close>) and an inode alone.
\<close>

section \<open>Blocks and bytes of a file\<close>

definition addr_of :: "(u32 \<Rightarrow> block) \<Rightarrow> inode \<Rightarrow> nat \<Rightarrow> u32" where
  "addr_of v i bn =
     (if bn < 12 then i_addrs i bn else if i_addrs i 12 = 0 then 0 else rdw (v (i_addrs i 12)) (4 * (bn - 12)))"

text \<open>The blocks of a file with its indirect block, as number 140.\<close>

definition fslot :: "(u32 \<Rightarrow> block) \<Rightarrow> inode \<Rightarrow> nat \<Rightarrow> u32" where
  "fslot v i k = (if k = 140 then i_addrs i 12 else addr_of v i k)"

definition byte_of :: "(u32 \<Rightarrow> block) \<Rightarrow> inode \<Rightarrow> nat \<Rightarrow> u8" where
  "byte_of v i k = (if addr_of v i (k div 512) = 0 then 0 else v (addr_of v i (k div 512)) (k mod 512))"

definition file_bytes :: "(u32 \<Rightarrow> block) \<Rightarrow> inode \<Rightarrow> u8 list" where
  "file_bytes v i = map (byte_of v i) [0..<unat (i_size i)]"

definition data_block :: "geo \<Rightarrow> (u32 \<Rightarrow> block) \<Rightarrow> u32 \<Rightarrow> bool" where
  "data_block g v n \<longleftrightarrow> n < sb_size (fst g) \<and> used g v n \<and> n \<noteq> 0 \<and> n \<noteq> bmblk g \<and> \<not> in_log (snd g) n"

definition iblk :: "geo \<Rightarrow> inode \<Rightarrow> u32" where
  "iblk g i = IBLOCK (i_inum i) (fst g)"

definition ino_ok :: "geo \<Rightarrow> (u32 \<Rightarrow> block) \<Rightarrow> inode \<Rightarrow> bool" where
  "ino_ok g v i \<longleftrightarrow> i_dev i = ROOTDEV \<and> data_block g v (iblk g i) \<and> unat (i_size i) \<le> 71680
     \<and> (\<forall>k \<le> 140. fslot v i k \<noteq> 0 \<longrightarrow> data_block g v (fslot v i k) \<and> fslot v i k \<noteq> iblk g i)
     \<and> (\<forall>j \<le> 140. \<forall>k \<le> 140. fslot v i j = fslot v i k \<and> fslot v i j \<noteq> 0 \<longrightarrow> j = k)
     \<and> (\<forall>k < 140. 512 * k < unat (i_size i) \<longrightarrow> fslot v i k \<noteq> 0)"

lemma ino_okD:
  assumes "ino_ok g v i"
  shows "i_dev i = ROOTDEV" "data_block g v (iblk g i)" "unat (i_size i) \<le> 71680"
    "k \<le> 140 \<Longrightarrow> fslot v i k \<noteq> 0 \<Longrightarrow> data_block g v (fslot v i k)"
    "k \<le> 140 \<Longrightarrow> fslot v i k \<noteq> 0 \<Longrightarrow> fslot v i k \<noteq> iblk g i"
    "j \<le> 140 \<Longrightarrow> k \<le> 140 \<Longrightarrow> fslot v i j = fslot v i k \<Longrightarrow> fslot v i j \<noteq> 0 \<Longrightarrow> j = k"
    "k < 140 \<Longrightarrow> 512 * k < unat (i_size i) \<Longrightarrow> fslot v i k \<noteq> 0"
  using assms unfolding ino_ok_def by blast+

section \<open>Taking a free block\<close>

definition alloc :: "geo \<Rightarrow> u32 \<Rightarrow> (u32 \<Rightarrow> block) \<Rightarrow> u32 \<Rightarrow> block" where
  "alloc g n v = v(bmblk g := bm_set (unat n) (v (bmblk g)), n := zeroed (v n))"

lemma alloc_used:
  assumes l: "layout g v" and n: "n \<in> free_blocks g v"
  shows "n \<noteq> bmblk g" "used g (alloc g n v) m \<longleftrightarrow> m = n \<or> used g v m" "layout g (alloc g n v)"
    "free_blocks g (alloc g n v) = free_blocks g v - {n}" "data_block g (alloc g n v) n"
    "data_block g v m \<Longrightarrow> data_block g (alloc g n v) m \<and> alloc g n v m = v m \<and> m \<noteq> n"
proof -
  show nb: "n \<noteq> bmblk g" using l n by (auto simp: layout_def free_blocks_def)
  have u: "used g (alloc g n v) m \<longleftrightarrow> m = n \<or> used g v m" for m
    using nb by (auto simp: used_def alloc_def word_unat_eq_iff)
  show "used g (alloc g n v) m \<longleftrightarrow> m = n \<or> used g v m" by (rule u)
  show "layout g (alloc g n v)" "free_blocks g (alloc g n v) = free_blocks g v - {n}"
    using l by (auto simp: layout_def free_blocks_def u)
  have z: "n \<noteq> 0" "\<not> in_log (snd g) n" "n < sb_size (fst g)" "\<not> used g v n" using l n by (auto simp: layout_def free_blocks_def)
  show "data_block g (alloc g n v) n" using z nb by (simp add: data_block_def u)
  show "data_block g (alloc g n v) m \<and> alloc g n v m = v m \<and> m \<noteq> n" if "data_block g v m"
    using that z by (auto simp: data_block_def u) (auto simp: alloc_def)
qed

text \<open>A file gets a new block in an empty fslot.\<close>

lemma ino_extend:
  assumes I: "ino_ok g v i" and i: "i_dev i' = i_dev i" "i_inum i' = i_inum i" "i_size i' = i_size i"
    and K: "K \<le> 140" "fslot v i K = 0" and s: "\<And>k. k \<le> 140 \<Longrightarrow> fslot v' i' k = (if k = K then n else fslot v i k)"
    and d: "\<And>m. data_block g v m \<Longrightarrow> data_block g v' m \<and> m \<noteq> n" and n: "data_block g v' n"
  shows "ino_ok g v' i'"
proof -
  have b: "iblk g i' = iblk g i" by (simp add: iblk_def i)
  have o: "fslot v i k \<noteq> n" if "k \<le> 140" for k using ino_okD(4) [OF I that] d n by (cases "fslot v i k = 0") (auto simp: data_block_def)
  have nb: "n \<noteq> iblk g i" using ino_okD(2) [OF I] d by blast
  have "data_block g v' (fslot v' i' k) \<and> fslot v' i' k \<noteq> iblk g i'" if "k \<le> 140" "fslot v' i' k \<noteq> 0" for k
    using nb that s [OF that(1)] ino_okD(2) [OF I] ino_okD(4,5) [OF I that(1)] d n b by (cases "k = K") auto
  moreover have "j = k" if "j \<le> 140" "k \<le> 140" "fslot v' i' j = fslot v' i' k" "fslot v' i' j \<noteq> 0" for j k
    using that s [OF that(1)] s [OF that(2)] o [OF that(1)] o [OF that(2)] ino_okD(6) [OF I that(1,2)] by (auto split: if_splits)
  moreover have "fslot v' i' k \<noteq> 0" if "k < 140" "512 * k < unat (i_size i')" for k
    using that ino_okD(7) [OF I that(1)] s [of k] K(2) i(3) by (cases "k = K") auto
  ultimately show ?thesis using ino_okD(1-3) [OF I] d i b unfolding ino_ok_def by metis
qed

lemma byte_of_slot: "k div 512 < 140 \<Longrightarrow> byte_of v i k = (if fslot v i (k div 512) = 0 then 0 else v (fslot v i (k div 512)) (k mod 512))"
  by (simp add: byte_of_def fslot_def)

text \<open>The bytes of a file depend on its slots and their contents.\<close>

lemma byte_of_cong:
  assumes "k < 71680" "fslot v' i' (k div 512) = fslot v i (k div 512)"
    "fslot v i (k div 512) \<noteq> 0 \<Longrightarrow> v' (fslot v i (k div 512)) = v (fslot v i (k div 512))"
  shows "byte_of v' i' k = byte_of v i k"
  using assms by (simp add: byte_of_slot)

lemma byte_of_new:
  assumes "k < 71680" "fslot v i (k div 512) = 0" "fslot v' i' (k div 512) = n" "v' n = zeroed d"
  shows "byte_of v' i' k = byte_of v i k"
  using assms by (simp add: byte_of_slot zeroed_def BSIZE_def)

definition set_addr :: "nat \<Rightarrow> u32 \<Rightarrow> inode \<Rightarrow> inode" where
  "set_addr k n i = i\<lparr>i_addrs := (i_addrs i)(k := n)\<rparr>"

lemma set_addr_fields [simp]:
  "i_dev (set_addr k n i) = i_dev i" "i_inum (set_addr k n i) = i_inum i" "i_size (set_addr k n i) = i_size i"
  "i_type (set_addr k n i) = i_type i" "iblk g (set_addr k n i) = iblk g i"
  by (simp_all add: set_addr_def iblk_def)

lemma slot_alloc:
  assumes "layout g v" "n \<in> free_blocks g v" "ino_ok g v i" "k \<le> 140"
  shows "fslot (alloc g n v) i k = fslot v i k"
proof (cases "i_addrs i 12 = 0")
  case False
  then have "data_block g v (i_addrs i 12)" using ino_okD(4) [OF assms(3), of 140] by (simp add: fslot_def)
  then have "alloc g n v (i_addrs i 12) = v (i_addrs i 12)" using alloc_used(6) [OF assms(1,2)] by blast
  then show ?thesis by (simp add: fslot_def addr_of_def)
qed (simp add: fslot_def addr_of_def)

lemma zeroed_words: "j < 128 \<Longrightarrow> rdw (zeroed d) (4 * j) = 0"
  by (simp add: rdw_def zeroed_def BSIZE_def)

text \<open>The three places for a new block.\<close>

lemma new_direct:
  assumes l: "layout g v" "n \<in> free_blocks g v" and I: "ino_ok g v i" and k: "bn < 12" "i_addrs i bn = 0"
  shows "ino_ok g (alloc g n v) (set_addr bn n i)" "addr_of (alloc g n v) (set_addr bn n i) bn = n"
    "o' < 71680 \<Longrightarrow> byte_of (alloc g n v) (set_addr bn n i) o' = byte_of v i o'"
    "j \<le> 140 \<Longrightarrow> fslot (alloc g n v) (set_addr bn n i) j = (if j = bn then n else fslot v i j)"
proof -
  let ?v = "alloc g n v" and ?i = "set_addr bn n i"
  have s: "fslot ?v ?i j = (if j = bn then n else fslot v i j)" if "j \<le> 140" for j
    using slot_alloc [OF l I that] k by (auto simp: fslot_def addr_of_def set_addr_def)
  then show "j \<le> 140 \<Longrightarrow> fslot ?v ?i j = (if j = bn then n else fslot v i j)" .
  have z: "fslot v i bn = 0" using k by (simp add: fslot_def addr_of_def)
  show "ino_ok g ?v ?i" using k alloc_used(5,6) [OF l] z s by (intro ino_extend [OF I, of ?i bn ?v n]) auto
  show "addr_of ?v ?i bn = n" using k by (simp add: addr_of_def set_addr_def)
  show "byte_of ?v ?i o' = byte_of v i o'" if o: "o' < 71680"
  proof (cases "o' div 512 = bn")
    case True
    have "?v n = zeroed (v n)" using alloc_used(1) [OF l] by (simp add: alloc_def)
    then show ?thesis using byte_of_new [OF o, of v i ?v ?i n] s [of "o' div 512"] z True k by auto
  next
    case False
    have b: "o' div 512 \<le> 140" using o by simp
    show ?thesis using o s [OF b] False ino_okD(4) [OF I b] alloc_used(6) [OF l] by (intro byte_of_cong) auto
  qed
qed

lemma new_indirect:
  assumes l: "layout g v" "n \<in> free_blocks g v" and I: "ino_ok g v i" and k: "i_addrs i 12 = 0"
  shows "ino_ok g (alloc g n v) (set_addr 12 n i)" "i_addrs (set_addr 12 n i) 12 = n"
    "o' < 71680 \<Longrightarrow> byte_of (alloc g n v) (set_addr 12 n i) o' = byte_of v i o'"
    "j \<le> 140 \<Longrightarrow> fslot (alloc g n v) (set_addr 12 n i) j = (if j = 140 then n else fslot v i j)"
proof -
  let ?v = "alloc g n v" and ?i = "set_addr 12 n i"
  have z: "?v n = zeroed (v n)" using alloc_used(1) [OF l] by (simp add: alloc_def)
  have s: "fslot ?v ?i j = (if j = 140 then n else fslot v i j)" if "j \<le> 140" for j
    using that k zeroed_words [of "j - 12"] by (auto simp: fslot_def addr_of_def set_addr_def z)
  then show "j \<le> 140 \<Longrightarrow> fslot ?v ?i j = (if j = 140 then n else fslot v i j)" .
  have z: "fslot v i 140 = 0" using k by (simp add: fslot_def)
  show "ino_ok g ?v ?i" using k alloc_used(5,6) [OF l] z s by (intro ino_extend [OF I, of ?i 140 ?v n]) auto
  show "i_addrs ?i 12 = n" by (simp add: set_addr_def)
  show "byte_of ?v ?i o' = byte_of v i o'" if o: "o' < 71680"
  proof -
    have b: "o' div 512 \<le> 140" "o' div 512 \<noteq> 140" using o by auto
    show ?thesis using o s [OF b(1)] b(2) ino_okD(4) [OF I b(1)] alloc_used(6) [OF l] by (intro byte_of_cong) auto
  qed
qed

lemma new_data:
  assumes l: "layout g v" "n \<in> free_blocks g v" and I: "ino_ok g v i" and k: "12 \<le> bn" "bn < 140" "addr_of v i bn = 0"
    and ind: "i_addrs i 12 = a" "a \<noteq> 0" and v': "v' = (alloc g n v)(a := wrw (4 * (bn - 12)) n (v a))"
  shows "ino_ok g v' i" "addr_of v' i bn = n" "o' < 71680 \<Longrightarrow> byte_of v' i o' = byte_of v i o'"
    "j \<le> 140 \<Longrightarrow> fslot v' i j = (if j = bn then n else fslot v i j)" "layout g v'" "free_blocks g v' = free_blocks g v - {n}"
proof -
  have da: "data_block g v a" using ino_okD(4) [OF I, of 140] ind by (simp add: fslot_def)
  have ab: "a \<noteq> bmblk g" "a \<noteq> n" using da alloc_used(6) [OF l da] by (auto simp: data_block_def)
  have u: "used g v' = used g (alloc g n v)" using ab by (auto simp: used_def v')
  have du: "data_block g v' = data_block g (alloc g n v)" by (auto simp: data_block_def u)
  show "layout g v'" "free_blocks g v' = free_blocks g v - {n}"
    using alloc_used(3,4) [OF l] by (auto simp: layout_def free_blocks_def u)
  have s: "fslot v' i j = (if j = bn then n else fslot v i j)" if "j \<le> 140" for j
  proof (cases "j < 12 \<or> j = 140")
    case True
    then show ?thesis using k by (auto simp: fslot_def addr_of_def)
  next
    case False
    then have "j \<noteq> bn \<Longrightarrow> 4 * (j - 12) + 4 \<le> 4 * (bn - 12) \<or> 4 * (bn - 12) + 4 \<le> 4 * (j - 12)" using k by arith
    then show ?thesis using False k ind that rdw_wrw(2) [of "4 * (j - 12)" "4 * (bn - 12)" n "v a"] rdw_wrw(1) [of "4 * (bn - 12)" n "v a"]
      by (cases "j = bn") (auto simp: fslot_def addr_of_def v')
  qed
  then show "j \<le> 140 \<Longrightarrow> fslot v' i j = (if j = bn then n else fslot v i j)" .
  have z: "fslot v i bn = 0" using k by (simp add: fslot_def)
  show "ino_ok g v' i" using k z s alloc_used(5,6) [OF l] by (intro ino_extend [OF I refl refl refl, of bn v' n]) (auto simp: du)
  show "addr_of v' i bn = n" using s [of bn] k by (simp add: fslot_def)
  show "byte_of v' i o' = byte_of v i o'" if o: "o' < 71680"
  proof (cases "o' div 512 = bn")
    case True
    have "v' n = zeroed (v n)" using alloc_used(1) [OF l] ab by (simp add: alloc_def v')
    then show ?thesis using byte_of_new [OF o, of v i v' i n] s [of "o' div 512"] z True k by auto
  next
    case False
    have b: "o' div 512 \<le> 140" "o' div 512 \<noteq> 140" using o by auto
    have "v' (fslot v i (o' div 512)) = v (fslot v i (o' div 512))" if nz: "fslot v i (o' div 512) \<noteq> 0"
    proof -
      have "fslot v i (o' div 512) \<noteq> a" using ino_okD(6) [OF I b(1), of 140] nz b(2) ind by (auto simp: fslot_def)
      moreover have "alloc g n v (fslot v i (o' div 512)) = v (fslot v i (o' div 512))"
        using alloc_used(6) [OF l] ino_okD(4) [OF I b(1) nz] by blast
      ultimately show ?thesis by (simp add: v')
    qed
    then show ?thesis using o s [OF b(1)] False by (intro byte_of_cong) auto
  qed
qed

section \<open>Growth of a file\<close>

text \<open>
  What the changes of one file have in common: blocks are only taken from the free ones, the blocks
  that the file had stay in their slots, and no other block in use changes. \<open>D\<close> are data blocks of
  the file.
\<close>

definition indb :: "inode \<Rightarrow> u32 set" where
  "indb i = {i_addrs i 12} - {0}"

definition ext :: "geo \<Rightarrow> (u32 \<Rightarrow> block) \<Rightarrow> inode \<Rightarrow> u32 set \<Rightarrow> (u32 \<Rightarrow> block) \<Rightarrow> inode \<Rightarrow> bool" where
  "ext g v i D v' i' \<longleftrightarrow>
     (\<forall>k \<le> 140. fslot v i k \<noteq> 0 \<longrightarrow> fslot v' i' k = fslot v i k)
     \<and> (\<forall>k \<le> 140. fslot v' i' k \<noteq> 0 \<longrightarrow> fslot v i k = 0 \<longrightarrow> \<not> used g v (fslot v' i' k))
     \<and> (\<forall>m. used g v m \<longrightarrow> used g v' m)
     \<and> (\<forall>m. used g v m \<longrightarrow> m \<noteq> bmblk g \<longrightarrow> m \<notin> fslot v i ` {..140} \<longrightarrow> v' m = v m)
     \<and> free_blocks g v \<subseteq> free_blocks g v' \<union> indb i' \<union> D"

lemma extD:
  assumes "ext g v i D v' i'"
  shows "k \<le> 140 \<Longrightarrow> fslot v i k \<noteq> 0 \<Longrightarrow> fslot v' i' k = fslot v i k"
    "k \<le> 140 \<Longrightarrow> fslot v' i' k \<noteq> 0 \<Longrightarrow> fslot v i k = 0 \<Longrightarrow> \<not> used g v (fslot v' i' k)" "used g v m \<Longrightarrow> used g v' m"
    "used g v m \<Longrightarrow> m \<noteq> bmblk g \<Longrightarrow> m \<notin> fslot v i ` {..140} \<Longrightarrow> v' m = v m" "free_blocks g v \<subseteq> free_blocks g v' \<union> indb i' \<union> D"
  using assms unfolding ext_def by blast+

lemma ext_indb: "ext g v i D v' i' \<Longrightarrow> indb i \<subseteq> indb i'"
  using extD(1) [of g v i D v' i' 140] by (auto simp: indb_def fslot_def)

lemma ext_trans:
  assumes a: "ext g v i D v' i'" and b: "ext g v' i' D' v'' i''"
  shows "ext g v i (D \<union> D') v'' i''"
proof -
  have "fslot v'' i'' k = fslot v i k" if "k \<le> 140" "fslot v i k \<noteq> 0" for k
    using extD(1) [OF a that] extD(1) [OF b that(1)] that(2) by simp
  moreover have "\<not> used g v (fslot v'' i'' k)" if k: "k \<le> 140" "fslot v'' i'' k \<noteq> 0" "fslot v i k = 0" for k
    using extD(2) [OF a k(1)] extD(1,2) [OF b k(1)] extD(3) [OF a] k by metis
  moreover have "v'' m = v m" if m: "used g v m" "m \<noteq> bmblk g" "m \<notin> fslot v i ` {..140}" for m
  proof -
    have "m \<notin> fslot v' i' ` {..140}"
    proof
      assume "m \<in> fslot v' i' ` {..140}"
      then obtain k where k: "k \<le> 140" "m = fslot v' i' k" by auto
      then show False using extD(1,2) [OF a k(1)] m by (metis atMost_iff image_eqI)
    qed
    then show ?thesis using extD(4) [OF a m] extD(4) [OF b extD(3) [OF a m(1)] m(2)] by simp
  qed
  moreover have "free_blocks g v \<subseteq> free_blocks g v'' \<union> indb i'' \<union> (D \<union> D')"
    using extD(5) [OF a] extD(5) [OF b] ext_indb [OF b] by blast
  ultimately show ?thesis using extD(3) [OF a] extD(3) [OF b] unfolding ext_def by blast
qed

lemma ext_refl: "ext g v i D v i"
  by (auto simp: ext_def)

text \<open>Slot \<open>K\<close> gets the free block \<open>n\<close>.\<close>

lemma ext_new:
  assumes l: "layout g v" "n \<in> free_blocks g v" and I: "ino_ok g v i" and z: "fslot v i K = 0"
    and s: "\<And>j. j \<le> 140 \<Longrightarrow> fslot v' i' j = (if j = K then n else fslot v i j)"
    and u: "used g v' = used g (alloc g n v)" and c: "\<And>m. m \<notin> fslot v i ` {..140} \<Longrightarrow> v' m = alloc g n v m" and n: "n \<in> indb i' \<union> D"
  shows "ext g v i D v' i'"
proof -
  have nu: "\<not> used g v n" using l(2) by (simp add: free_blocks_def)
  have "v' m = v m" if "used g v m" "m \<noteq> bmblk g" "m \<notin> fslot v i ` {..140}" for m
    using c [OF that(3)] that(1,2) nu by (auto simp: alloc_def)
  moreover have "free_blocks g v \<subseteq> free_blocks g v' \<union> indb i' \<union> D"
    using n alloc_used(2) [OF l] by (auto simp: free_blocks_def u)
  ultimately show ?thesis using s z nu alloc_used(2) [OF l] unfolding ext_def by (auto simp: u)
qed

lemma ext_direct:
  assumes "layout g v" "n \<in> free_blocks g v" "ino_ok g v i" "bn < 12" "i_addrs i bn = 0"
  shows "ext g v i {n} (alloc g n v) (set_addr bn n i)"
  using assms new_direct(4) [OF assms] by (intro ext_new [of g v n i bn]) (auto simp: fslot_def addr_of_def)

lemma ext_indirect:
  assumes "layout g v" "n \<in> free_blocks g v" "ino_ok g v i" "i_addrs i 12 = 0"
  shows "ext g v i {} (alloc g n v) (set_addr 12 n i)"
proof -
  have "n \<noteq> 0" using assms(1,2) by (auto simp: layout_def free_blocks_def)
  then show ?thesis using assms new_indirect(4) [OF assms]
    by (intro ext_new [of g v n i 140]) (auto simp: fslot_def indb_def set_addr_def)
qed

lemma ext_data:
  assumes "layout g v" "n \<in> free_blocks g v" "ino_ok g v i" "12 \<le> bn" "bn < 140" "addr_of v i bn = 0"
    "i_addrs i 12 = a" "a \<noteq> 0" "v' = (alloc g n v)(a := wrw (4 * (bn - 12)) n (v a))"
  shows "ext g v i {n} v' i"
proof -
  have a: "a \<in> fslot v i ` {..140}" using assms(7) by (intro image_eqI [of _ _ 140]) (auto simp: fslot_def)
  have da: "data_block g v a" using ino_okD(4) [OF assms(3), of 140] assms(7,8) by (simp add: fslot_def)
  have "used g v' = used g (alloc g n v)" using da by (auto simp: used_def assms(9) data_block_def)
  then show ?thesis using assms new_data(4) [OF assms] a
    by (intro ext_new [of g v n i bn]) (auto simp: fslot_def)
qed

text \<open>A block of the file is written.\<close>

lemma ext_write:
  assumes I: "ino_ok g v i" and k: "k < 140" "fslot v i k = a" "a \<noteq> 0"
  shows "ext g v i {a} (v(a := d)) i" "ino_ok g (v(a := d)) i" "layout g v \<Longrightarrow> layout g (v(a := d))"
    "\<And>j. fslot (v(a := d)) i j = fslot v i j"
proof -
  have ab: "data_block g v a" using ino_okD(4) [OF I, of k] k by simp
  then have u: "used g (v(a := d)) = used g v" by (auto simp: used_def data_block_def)
  have "a \<noteq> i_addrs i 12" using ino_okD(6) [OF I, of k 140] k by (auto simp: fslot_def)
  then show s: "fslot (v(a := d)) i j = fslot v i j" for j by (simp add: fslot_def addr_of_def)
  have da: "data_block g (v(a := d)) = data_block g v" by (auto simp: data_block_def u)
  show "ino_ok g (v(a := d)) i" using I unfolding ino_ok_def s da .
  show "layout g (v(a := d))" if "layout g v" using that unfolding layout_def u .
  have "a \<in> fslot v i ` {..140}" using k by (intro image_eqI [of _ _ k]) auto
  then show "ext g v i {a} (v(a := d)) i" unfolding ext_def s u free_blocks_def by auto
qed

lemma byte_write:
  assumes I: "ino_ok g v i" and b: "bn < 140" "fslot v i bn = a" "a \<noteq> 0" and k: "k < 71680"
  shows "byte_of (v(a := d)) i k = (if k div 512 = bn then d (k mod 512) else byte_of v i k)"
proof -
  have k': "k div 512 < 140" using k by simp
  have s: "fslot (v(a := d)) i j = fslot v i j" for j by (rule ext_write(4) [OF I b])
  show ?thesis
  proof (cases "k div 512 = bn")
    case True
    then show ?thesis using b by (simp add: byte_of_slot [OF k'] s)
  next
    case False
    then have "fslot v i (k div 512) \<noteq> 0 \<Longrightarrow> fslot v i (k div 512) \<noteq> a"
      using ino_okD(6) [OF I, of "k div 512" bn] b k' by auto
    then show ?thesis using False by (simp add: byte_of_slot [OF k'] s)
  qed
qed

end
