(* ===== verification/XFile.thy ===== *)
theory XFile
  imports XInode
begin

text \<open>
  The contents of files: \<open>bmap\<close>, \<open>readi\<close> and \<open>writei\<close> implement a file as a list of bytes.
\<close>

section \<open>The state of a file operation\<close>

definition fs :: "fstate \<Rightarrow> nat \<Rightarrow> bool" where
  "fs f ip \<longleftrightarrow> txn f {} \<and> layout (fgeo f) (fview f) \<and> ino_ok (fgeo f) (fview f) (inodes f ip)"

abbreviation faddr :: "fstate \<Rightarrow> nat \<Rightarrow> nat \<Rightarrow> u32" where
  "faddr f ip bn \<equiv> addr_of (fview f) (inodes f ip) bn"

abbreviation fbyte :: "fstate \<Rightarrow> nat \<Rightarrow> nat \<Rightarrow> u8" where
  "fbyte f ip k \<equiv> byte_of (fview f) (inodes f ip) k"

text \<open>A run that lets file \<open>ip\<close> grow and logs the free map, its indirect block and data blocks \<open>D\<close> of it.\<close>

definition grow :: "nat \<Rightarrow> fstate \<Rightarrow> u32 set \<Rightarrow> fstate \<Rightarrow> bool" where
  "grow ip f D f' \<longleftrightarrow> fs f' ip \<and> fgeo f' = fgeo f \<and> fsb f' = fsb f \<and> curpid (fx f') = curpid (fx f)
     \<and> outstanding (flog f') = outstanding (flog f) \<and> committing (flog f') = committing (flog f) \<and> (\<forall>j. j \<noteq> ip \<longrightarrow> inodes f' j = inodes f j)
     \<and> (\<exists>a. inodes f' ip = (inodes f ip)\<lparr>i_addrs := a\<rparr>)
     \<and> ext (fgeo f) (fview f) (inodes f ip) D (fview f') (inodes f' ip)
     \<and> flogged f' \<subseteq> flogged f \<union> insert (bmblk (fgeo f)) (indb (inodes f' ip)) \<union> D"

lemma grow_trans:
  assumes a: "grow ip f D f'" and b: "grow ip f' D' f''"
  shows "grow ip f (D \<union> D') f''"
proof -
  have e: "ext (fgeo f) (fview f) (inodes f ip) D (fview f') (inodes f' ip)"
    "ext (fgeo f) (fview f') (inodes f' ip) D' (fview f'') (inodes f'' ip)" using a b by (simp_all add: grow_def)
  have "flogged f'' \<subseteq> flogged f \<union> insert (bmblk (fgeo f)) (indb (inodes f'' ip)) \<union> (D \<union> D')"
    using a b ext_indb [OF e(2)] unfolding grow_def by auto
  moreover obtain x y where "inodes f' ip = (inodes f ip)\<lparr>i_addrs := x\<rparr>" "inodes f'' ip = (inodes f' ip)\<lparr>i_addrs := y\<rparr>"
    using a b unfolding grow_def by blast
  then have "inodes f'' ip = (inodes f ip)\<lparr>i_addrs := y\<rparr>" by simp
  ultimately show ?thesis using a b ext_trans [OF e] unfolding grow_def by auto
qed

lemma fgeo_keep: "fkeep H f f' \<Longrightarrow> fgeo f' = fgeo f"
  by (simp add: fkeep_def fgeo_def)

lemma grow_eff:
  assumes e: "feff {} f v W f'" and x: "ext (fgeo f) (fview f) (inodes f ip) D v (inodes f ip)"
    and i: "ino_ok (fgeo f) v (inodes f ip)" "layout (fgeo f) v"
    and W: "W \<subseteq> insert (bmblk (fgeo f)) (indb (inodes f ip)) \<union> D"
  shows "grow ip f D f'"
proof -
  have k: "fkeep {} f f'" "fview f' = v" "txn f' {}" "flogged f' = flogged f \<union> W" using e by (auto simp: feff_def)
  then have g: "fgeo f' = fgeo f" "inodes f' = inodes f" using fgeo_keep by (auto simp: fkeep_def)
  have "\<exists>a. inodes f ip = (inodes f ip)\<lparr>i_addrs := a\<rparr>" by (rule exI [of _ "i_addrs (inodes f ip)"]) simp
  then show ?thesis using k g x i W unfolding grow_def fs_def by (auto simp: fkeep_def)
qed

lemma grow_refl: "fs f ip \<Longrightarrow> grow ip f D f"
  unfolding fs_def by (rule grow_eff [OF feff_refl]) (simp_all add: ext_refl)

lemma upd_inode_fields [simp]:
  "fx (upd_inode ip h f) = fx f" "flog (upd_inode ip h f) = flog f" "fsb (upd_inode ip h f) = fsb f"
  "inodes (upd_inode ip h f) j = (if j = ip then h (inodes f ip) else inodes f j)" "fgeo (upd_inode ip h f) = fgeo f"
  "fview (upd_inode ip h f) = fview f" "flogged (upd_inode ip h f) = flogged f" "txn (upd_inode ip h f) H = txn f H" "nlog (upd_inode ip h f) = nlog f"
  by (simp_all add: upd_inode_def fgeo_def fview_def flogged_def txn_def nlog_def)

lemma data_FSSIZE: "layout g v \<Longrightarrow> data_block g v n \<Longrightarrow> n < FSSIZE"
  by (auto simp: layout_def data_block_def)

lemma txn_nlog: "txn f H \<Longrightarrow> nlog f \<le> 29"
proof -
  assume "txn f H"
  then have L: "log_ok (flog f)" unfolding txn_def by blast
  then have "lh_n (flog f) \<le> 29" by (simp add: log_ok_def)
  then show ?thesis using nlog_n [OF L] by simp
qed

section \<open>Block map\<close>

text \<open>A block that the file has.\<close>

lemma bmap_hit:
  assumes s: "fs f ip" and bn: "bn < 140" "faddr f ip bn \<noteq> 0"
  shows "\<exists>f'. bmap ip bn f = Done (faddr f ip bn) f' \<and> feff {} f (fview f) {} f'"
proof -
  have t: "txn f {}" and l: "layout (fgeo f) (fview f)" and I: "ino_ok (fgeo f) (fview f) (inodes f ip)" using s by (auto simp: fs_def)
  have dv: "i_dev (inodes f ip) = ROOTDEV" by (rule ino_okD(1) [OF I])
  show ?thesis
  proof (cases "bn < 12")
    case True
    then show ?thesis using bn(2) feff_refl [OF t] by (auto simp: bmap_def NDIRECT_def addr_of_def)
  next
    case False
    let ?a = "i_addrs (inodes f ip) 12"
    have a: "?a \<noteq> 0" "faddr f ip bn = rdw (fview f ?a) (4 * (bn - 12))" using bn False by (auto simp: addr_of_def split: if_splits)
    have d: "data_block (fgeo f) (fview f) ?a" using ino_okD(4) [OF I, of 140] a(1) by (simp add: fslot_def)
    obtain b f1 where B: "onx (bread ROOTDEV ?a) f = Done b f1" "txn f1 (insert b {})" "fdata b f1 = fview f ?a" "fview f1 = fview f"
      "\<And>f2 v W. feff (insert b {}) f1 v W f2 \<Longrightarrow> \<exists>f3. onx (brelse b) f2 = Done () f3 \<and> feff {} f v W f3"
    proof (rule read_block [OF t data_FSSIZE [OF l d]])
      show "?a \<notin> blk (fx f) ` {}" "nlog f + card {} < 30" using txn_nlog [OF t] by simp_all
    qed blast
    obtain f3 where "onx (brelse b) f1 = Done () f3" "feff {} f (fview f) {} f3"
      using B(5) [OF feff_refl [OF B(2)]] B(4) by auto
    then show ?thesis using B(1,3) a dv False bn
      by (auto simp: bmap_def bmap_indirect_def NDIRECT_def NINDIRECT_def BSIZE_def Let_def)
  qed
qed

lemma card_insert_flogged: "card (insert x (flogged f)) \<le> Suc (nlog f)" "nlog f \<le> card (insert x (flogged f))"
proof -
  have "finite (flogged f)" by (simp add: flogged_def)
  then show "card (insert x (flogged f)) \<le> Suc (nlog f)" "nlog f \<le> card (insert x (flogged f))"
    by (simp_all add: nlog_def card_insert_if)
qed

text \<open>A new block that is listed in the inode, as a direct block or the indirect block.\<close>

lemma balloc_inode:
  assumes s: "fs f ip" and free: "free_blocks (fgeo f) (fview f) \<noteq> {}" and room: "card (insert (bmblk (fgeo f)) (flogged f)) < 29"
    and k: "k \<le> 12" "i_addrs (inodes f ip) k = 0"
  shows "\<exists>n f1. balloc (i_dev (inodes f ip)) f = Done n f1 \<and> n \<in> free_blocks (fgeo f) (fview f)
    \<and> grow ip f (if k < 12 then {n} else {}) (upd_inode ip (set_addr k n) f1)
    \<and> fview f1 = alloc (fgeo f) n (fview f) \<and> flogged f1 = flogged f \<union> {bmblk (fgeo f), n} \<and> inodes f1 = inodes f"
proof -
  let ?g = "fgeo f" and ?v = "fview f" and ?i = "inodes f ip"
  have t: "txn f {}" and l: "layout ?g ?v" and I: "ino_ok ?g ?v ?i" using s by (auto simp: fs_def)
  obtain n f1 where n: "balloc ROOTDEV f = Done n f1" "n \<in> free_blocks ?g ?v" "feff {} f (alloc ?g n ?v) {bmblk ?g, n} f1"
    using balloc_run [OF t l _ free] room by (auto simp: held_used_def alloc_def)
  have K: "fkeep {} f f1" "fview f1 = alloc ?g n ?v" "txn f1 {}" "flogged f1 = flogged f \<union> {bmblk ?g, n}" using n(3) by (auto simp: feff_def)
  have G: "fgeo f1 = ?g" "inodes f1 = inodes f" using fgeo_keep [OF K(1)] K(1) by (auto simp: fkeep_def)
  let ?f = "upd_inode ip (set_addr k n) f1" and ?D = "if k < 12 then {n} else {}"
  have nz: "n \<noteq> 0" using l n(2) by (auto simp: layout_def free_blocks_def)
  have x: "ext ?g ?v ?i ?D (alloc ?g n ?v) (set_addr k n ?i)" "ino_ok ?g (alloc ?g n ?v) (set_addr k n ?i)"
    using k ext_direct [OF l n(2) I, of k] new_direct(1) [OF l n(2) I, of k] ext_indirect [OF l n(2) I] new_indirect(1) [OF l n(2) I]
    by (cases "k = 12"; force)+
  have "flogged f1 \<subseteq> flogged f \<union> insert (bmblk ?g) (indb (set_addr k n ?i)) \<union> ?D"
    using K(4) nz k by (auto simp: indb_def set_addr_def)
  moreover have "\<exists>a. set_addr k n ?i = ?i\<lparr>i_addrs := a\<rparr>" by (auto simp: set_addr_def)
  ultimately have "grow ip f ?D ?f"
    using K G x alloc_used(3) [OF l n(2)] unfolding grow_def fs_def by (auto simp: fkeep_def)
  then show ?thesis using n(1,2) K G ino_okD(1) [OF I] by metis
qed

text \<open>The second half of \<open>bmap\<close> for a block that the indirect block does not list yet.\<close>

lemma bmap_new_data:
  assumes s: "fs f ip" and free: "free_blocks (fgeo f) (fview f) \<noteq> {}" and a: "a = i_addrs (inodes f ip) 12" "a \<noteq> 0"
    and room: "card (flogged f \<union> {bmblk (fgeo f), a}) < 28" and bn: "12 \<le> bn" "bn < 140" "faddr f ip bn = 0"
  shows "\<exists>n f'. bmap_indirect ROOTDEV a (bn - 12) f = Done n f'
    \<and> grow ip f {n} f' \<and> faddr f' ip bn = n \<and> n \<noteq> 0 \<and> (\<forall>k < 71680. fbyte f' ip k = fbyte f ip k)
    \<and> n \<in> free_blocks (fgeo f) (fview f)"
proof -
  let ?g = "fgeo f" and ?v = "fview f" and ?i = "inodes f ip"
  have t: "txn f {}" and l: "layout ?g ?v" and I: "ino_ok ?g ?v ?i" using s by (auto simp: fs_def)
  have d: "data_block ?g ?v a" using ino_okD(4) [OF I, of 140] a by (simp add: fslot_def)
  have af: "a < FSSIZE" "a \<noteq> bmblk ?g" "used ?g ?v a" "\<not> in_log (snd ?g) a" using data_FSSIZE [OF l d] d by (auto simp: data_block_def)
  have fin: "finite (flogged f)" by (simp add: flogged_def)
  have "card (insert (bmblk ?g) (flogged f)) \<le> card (flogged f \<union> {bmblk ?g, a})" using fin by (intro card_mono) auto
  then have c1: "card (insert (bmblk ?g) (flogged f)) < 28" using room by simp
  have w0: "rdw (?v a) (4 * (bn - 12)) = 0" using bn a by (simp add: addr_of_def)
  obtain b f1 where B: "onx (bread ROOTDEV a) f = Done b f1" "txn f1 {b}" "fdata b f1 = ?v a" "fview f1 = ?v" "flogged f1 = flogged f"
    "fkeep {} f f1" "blk (fx f1) b = a" and R:
    "\<And>f2 v W. feff {b} f1 v W f2 \<Longrightarrow> \<exists>f3. onx (brelse b) f2 = Done () f3 \<and> feff {} f v W f3"
  proof (rule read_block [OF t af(1)])
    show "a \<notin> blk (fx f) ` {}" "nlog f + card {} < 30" using txn_nlog [OF t] by simp_all
  qed blast
  have g1: "fgeo f1 = ?g" using B(6) by (rule fgeo_keep)
  have h1: "held_used {b} f1" using B(4,7) af g1 by (simp add: held_used_def)
  have p1: "layout (fgeo f1) (fview f1)" "free_blocks (fgeo f1) (fview f1) \<noteq> {}" "card (insert (bmblk (fgeo f1)) (flogged f1)) + card {b} < 29"
    using l free c1 by (simp_all add: g1 B(4,5))
  obtain n f2 where n: "balloc ROOTDEV f1 = Done n f2" "n \<in> free_blocks ?g ?v" "feff {b} f1 (alloc ?g n ?v) {bmblk ?g, n} f2"
    using balloc_run [OF B(2) p1(1) h1 p1(2,3)] by (auto simp: g1 B(4) alloc_def)
  have K: "fkeep {b} f1 f2" "txn f2 {b}" "fview f2 = alloc ?g n ?v" "flogged f2 = flogged f \<union> {bmblk ?g, n}"
    using n(3) B(5) by (auto simp: feff_def)
  have b2: "blk (fx f2) b = a" "l_start (flog f2) = snd ?g" using K(1) B(6,7) by (auto simp: fkeep_def fgeo_def)
  have d2: "fdata b f2 = ?v a" using held_data [OF K(2)] b2(1) K(3) alloc_used(6) [OF l n(2) d] by simp
  have "nlog f2 \<le> Suc (card (insert (bmblk ?g) (flogged f)))"
    using fin by (simp add: nlog_def K(4) insert_commute card_insert_if)
  then have c2: "nlog f2 < 29" using c1 by simp
  let ?d = "wrw (4 * (bn - 12)) n (?v a)"
  obtain f3 where f3: "onlog (log_write b) (fput b ?d f2) = Done () f3"
    "feff {b} f2 ((fview f2)(a := ?d)) {a} f3"
    using update_txn [OF K(2), of b ?d] b2 af(4) c2 by auto
  have "feff {b} f1 ((fview f2)(a := ?d)) ({bmblk ?g, n} \<union> {a}) f3" by (rule feff_trans [OF n(3) f3(2)])
  then have "feff {b} f1 ((alloc ?g n ?v)(a := ?d)) {bmblk ?g, n, a} f3" unfolding K(3) by (simp add: insert_commute)
  then obtain f4 where f4: "onx (brelse b) f3 = Done () f4" "feff {} f ((alloc ?g n ?v)(a := ?d)) {bmblk ?g, n, a} f4"
    using R by blast
  note P = l n(2) I bn a(1) [symmetric] a(2) refl [of "(alloc ?g n ?v)(a := ?d)"]
  have Wsub: "{bmblk ?g, n, a} \<subseteq> insert (bmblk ?g) (indb ?i) \<union> {n}" using a by (auto simp: indb_def)
  have gr: "grow ip f {n} f4"
    by (rule grow_eff [OF f4(2) ext_data [OF P] new_data(1) [OF P] new_data(5) [OF P] Wsub])
  have v4: "fview f4 = (alloc ?g n ?v)(a := ?d)" "inodes f4 = inodes f" using f4(2) by (auto simp: feff_def fkeep_def)
  have "faddr f4 ip bn = n" using new_data(2) [OF P] v4 by simp
  moreover have "fbyte f4 ip k = fbyte f ip k" if "k < 71680" for k using new_data(3) [OF P that] v4 by simp
  moreover have "n \<noteq> 0" using l n(2) by (auto simp: layout_def free_blocks_def)
  ultimately show ?thesis using gr n(2) B(1,3) w0 n(1) d2 f3(1) f4(1) by (simp add: bmap_indirect_def Let_def)
qed

lemma grow_mono: "grow ip f D f' \<Longrightarrow> D \<subseteq> D' \<Longrightarrow> grow ip f D' f'"
  unfolding grow_def ext_def by blast

lemma set_addr_fold: "(\<lambda>v. v\<lparr>i_addrs := (i_addrs v)(k := n)\<rparr>) = set_addr k n"
  by (simp add: fun_eq_iff set_addr_def)

lemma card_free_less:
  assumes "ext g v i D v' i'" "i_addrs i' 12 = n" "2 \<le> card (free_blocks g v)" "D = {}"
  shows "free_blocks g v' \<noteq> {}"
proof
  assume "free_blocks g v' = {}"
  then have "free_blocks g v \<subseteq> {n}" using extD(5) [OF assms(1)] assms(2,4) by (auto simp: indb_def)
  then have "card (free_blocks g v) \<le> card {n}" by (rule card_mono [rotated]) simp
  then show False using assms(3) by simp
qed

lemma bmap_run:
  assumes s: "fs f ip" and bn: "bn < 140" and free: "2 \<le> card (free_blocks (fgeo f) (fview f))"
    and room: "card (insert (bmblk (fgeo f)) (flogged f)) < 27"
  shows "\<exists>a f'. bmap ip bn f = Done a f' \<and> grow ip f {a} f' \<and> faddr f' ip bn = a \<and> a \<noteq> 0
    \<and> (\<forall>k < 71680. fbyte f' ip k = fbyte f ip k) \<and> (faddr f ip bn \<noteq> 0 \<longrightarrow> inodes f' = inodes f)"
proof (cases "faddr f ip bn = 0")
  case False
  obtain f' where f': "bmap ip bn f = Done (faddr f ip bn) f'" "feff {} f (fview f) {} f'" using bmap_hit [OF s bn False] by blast
  have v: "fview f' = fview f" "inodes f' = inodes f" using f'(2) by (auto simp: feff_def fkeep_def)
  have "grow ip f {faddr f ip bn} f'" using s by (intro grow_eff [OF f'(2)]) (simp_all add: ext_refl fs_def)
  then show ?thesis using f'(1) v False by auto
next
  case True
  let ?g = "fgeo f" and ?v = "fview f" and ?i = "inodes f ip"
  have l: "layout ?g ?v" and I: "ino_ok ?g ?v ?i" using s by (auto simp: fs_def)
  have dv: "i_dev ?i = ROOTDEV" by (rule ino_okD(1) [OF I])
  have ne: "free_blocks ?g ?v \<noteq> {}" using free by auto
  show ?thesis
  proof (cases "bn < 12")
    case d: True
    then have z: "i_addrs ?i bn = 0" using True by (simp add: addr_of_def)
    obtain n f1 where n: "balloc (i_dev ?i) f = Done n f1" "n \<in> free_blocks ?g ?v" "grow ip f {n} (upd_inode ip (set_addr bn n) f1)"
      "fview f1 = alloc ?g n ?v" "inodes f1 = inodes f"
      using balloc_inode [OF s ne _ _ z] room d by auto
    let ?f = "upd_inode ip (set_addr bn n) f1"
    have b: "bmap ip bn f = Done n ?f" using n(1) d z by (simp add: bmap_def NDIRECT_def set_addr_fold)
    have "n \<noteq> 0" using l n(2) by (auto simp: layout_def free_blocks_def)
    moreover have "faddr ?f ip bn = n" using new_direct(2) [OF l n(2) I d z] n(4,5) by simp
    moreover have "fbyte ?f ip k = fbyte f ip k" if "k < 71680" for k using new_direct(3) [OF l n(2) I d z that] n(4,5) by simp
    ultimately show ?thesis using b n(3) True by blast
  next
    case False
    then have bn12: "12 \<le> bn" "bn - 12 < 128" using bn by auto
    show ?thesis
    proof (cases "i_addrs ?i 12 = 0")
      case z: False
      have r: "card (flogged f \<union> {bmblk ?g, i_addrs ?i 12}) < 28"
      proof -
        have "card (insert (i_addrs ?i 12) (insert (bmblk ?g) (flogged f))) \<le> Suc (card (insert (bmblk ?g) (flogged f)))"
          by (rule card_insert_le_m1) (auto simp: card_insert_if flogged_def)
        then show ?thesis using room by (simp add: insert_commute)
      qed
      obtain n f' where "bmap ip bn f = Done n f'" "grow ip f {n} f'" "faddr f' ip bn = n" "n \<noteq> 0" "\<forall>k < 71680. fbyte f' ip k = fbyte f ip k"
        using bmap_new_data [OF s ne refl z r bn12(1) bn True] z dv False bn12(2)
        by (auto simp: bmap_def NDIRECT_def NINDIRECT_def BSIZE_def Let_def)
      then show ?thesis using True by blast
    next
      case z: True
      obtain a f1 where a: "balloc (i_dev ?i) f = Done a f1" "a \<in> free_blocks ?g ?v" "grow ip f {} (upd_inode ip (set_addr 12 a) f1)"
        "fview f1 = alloc ?g a ?v" "flogged f1 = flogged f \<union> {bmblk ?g, a}" "inodes f1 = inodes f"
        using balloc_inode [OF s ne _ _ z] room by auto
      let ?f = "upd_inode ip (set_addr 12 a) f1"
      note N = new_indirect [OF l a(2) I z]
      have az: "a \<noteq> 0" using l a(2) by (auto simp: layout_def free_blocks_def)
      have s1: "fs ?f ip" "fgeo ?f = ?g" and x1: "ext ?g ?v ?i {} (fview ?f) (inodes ?f ip)" using a(3) by (auto simp: grow_def)
      have i1: "i_addrs (inodes ?f ip) 12 = a" by (simp add: set_addr_def)
      have ne1: "free_blocks (fgeo ?f) (fview ?f) \<noteq> {}" unfolding s1(2) using card_free_less [OF x1 i1 free refl] .
      have z1: "faddr ?f ip bn = 0" using N(4) [of bn] True bn bn12(1) a(4,6) by (simp add: fslot_def)
      have r1: "card (flogged ?f \<union> {bmblk (fgeo ?f), a}) < 28"
      proof -
        have "flogged ?f \<union> {bmblk (fgeo ?f), a} = insert a (insert (bmblk ?g) (flogged f))" using a(5) s1(2) by auto
        moreover have "card (insert a (insert (bmblk ?g) (flogged f))) \<le> Suc (card (insert (bmblk ?g) (flogged f)))"
          by (rule card_insert_le_m1) (auto simp: card_insert_if flogged_def)
        ultimately show ?thesis using room by simp
      qed
      obtain n f' where n: "bmap ip bn f = Done n f'" "grow ip ?f {n} f'" "faddr f' ip bn = n" "n \<noteq> 0" "\<forall>k < 71680. fbyte f' ip k = fbyte ?f ip k"
        using bmap_new_data [OF s1(1) ne1 i1 [symmetric] az r1 bn12(1) bn z1] z dv False bn12(2) a(1)
        by (auto simp: bmap_def NDIRECT_def NINDIRECT_def BSIZE_def Let_def set_addr_fold)
      have "fbyte ?f ip k = fbyte f ip k" if "k < 71680" for k using N(3) [OF that] a(4,6) by simp
      then show ?thesis using n grow_trans [OF a(3) n(2)] True by auto
    qed
  qed
qed

section \<open>Reading\<close>

lemma fs_eff: "fs f ip \<Longrightarrow> feff {} f (fview f) W f' \<Longrightarrow> fs f' ip"
  unfolding fs_def feff_def by (auto simp: fkeep_def fgeo_def)

lemma same_block:
  fixes off :: nat
  assumes "m \<le> 512 - off mod 512" "j < m"
  shows "(off + j) div 512 = off div 512" "(off + j) mod 512 = off mod 512 + j"
proof -
  define q r where "q = off div 512" and "r = off mod 512 + j"
  have e: "off + j = 512 * q + r" using div_mult_mod_eq [of off 512] by (simp add: q_def r_def)
  have l: "r < 512" using assms by (simp add: r_def)
  have "(off + j) div 512 = q" "(off + j) mod 512 = r" unfolding e using l by simp_all
  then show "(off + j) div 512 = off div 512" "(off + j) mod 512 = off mod 512 + j" by (simp_all only: q_def r_def)
qed

lemma readi_loop_run:
  assumes "fs f ip" "off + n \<le> 71680" "\<And>k. off \<le> k \<Longrightarrow> k < off + n \<Longrightarrow> faddr f ip (k div 512) \<noteq> 0"
  shows "\<exists>f'. readi_loop ip off n dst f = Done (dst @ map (fbyte f ip) [off..<off + n]) f' \<and> feff {} f (fview f) {} f'"
  using assms
proof (induction n arbitrary: off f dst rule: less_induct)
  case (less n)
  show ?case
  proof (cases "n = 0")
    case True
    have "txn f {}" using less.prems(1) by (simp add: fs_def)
    then show ?thesis using True feff_refl by (subst readi_loop.simps) auto
  next
    case False
    let ?m = "min n (512 - off mod 512)" and ?bn = "off div 512"
    have m: "0 < ?m" "?m \<le> n" "?m \<le> 512 - off mod 512" using False mod_less_divisor [of 512 off] by (simp_all only: min_def) auto
    have bn: "?bn < 140" "faddr f ip ?bn \<noteq> 0" using less.prems(2) less.prems(3) [of off] False by auto
    let ?a = "faddr f ip ?bn"
    obtain f1 where f1: "bmap ip ?bn f = Done ?a f1" "feff {} f (fview f) {} f1" using bmap_hit [OF less.prems(1) bn] by blast
    have v1: "fview f1 = fview f" "inodes f1 = inodes f" "flogged f1 = flogged f" "fgeo f1 = fgeo f"
      using f1(2) by (auto simp: feff_def fkeep_def fgeo_def)
    have s1: "fs f1 ip" by (rule fs_eff [OF less.prems(1) f1(2)])
    have t1: "txn f1 {}" and l1: "layout (fgeo f1) (fview f1)" and I: "ino_ok (fgeo f) (fview f) (inodes f ip)"
      using s1 less.prems(1) by (auto simp: fs_def)
    have "data_block (fgeo f) (fview f) ?a" using ino_okD(4) [OF I, of ?bn] bn by (simp add: fslot_def)
    then have af: "?a < FSSIZE" using data_FSSIZE l1 v1 by metis
    obtain b f2 where B: "onx (bread ROOTDEV ?a) f1 = Done b f2" "txn f2 {b}" "fdata b f2 = fview f1 ?a" "fview f2 = fview f1" and R:
      "\<And>f3 v W. feff {b} f2 v W f3 \<Longrightarrow> \<exists>f4. onx (brelse b) f3 = Done () f4 \<and> feff {} f1 v W f4"
    proof (rule read_block [OF t1 af])
      show "?a \<notin> blk (fx f1) ` {}" "nlog f1 + card {} < 30" using txn_nlog [OF t1] by simp_all
    qed blast
    obtain f3 where f3: "onx (brelse b) f2 = Done () f3" "feff {} f1 (fview f1) {} f3" using R [OF feff_refl [OF B(2)]] B(4) by auto
    have e3: "feff {} f (fview f) {} f3" using feff_trans [OF f1(2) f3(2)] v1(1) by simp
    have s3: "fs f3 ip" by (rule fs_eff [OF less.prems(1) e3])
    have v3: "fview f3 = fview f" "inodes f3 = inodes f" using e3 by (auto simp: feff_def fkeep_def)
    have bt: "map (fdata b f2) [off mod 512..<off mod 512 + ?m] = map (fbyte f ip) [off..<off + ?m]"
    proof (rule nth_equalityI)
      fix j assume "j < length (map (fdata b f2) [off mod 512..<off mod 512 + ?m])"
      then have j: "j < ?m" by simp
      have "fbyte f ip (off + j) = fview f ?a (off mod 512 + j)"
        using same_block [OF m(3) j] bn(2) by (simp add: byte_of_def)
      then show "map (fdata b f2) [off mod 512..<off mod 512 + ?m] ! j = map (fbyte f ip) [off..<off + ?m] ! j"
        using j by (simp add: B(3) v1(1))
    qed simp
    have p: "n - ?m < n" "off + ?m + (n - ?m) \<le> 71680" using m less.prems(2) by auto
    have q: "faddr f3 ip (k div 512) \<noteq> 0" if "off + ?m \<le> k" "k < off + ?m + (n - ?m)" for k
      using less.prems(3) [of k] that m v3 by simp
    obtain f' where f': "readi_loop ip (off + ?m) (n - ?m) (dst @ map (fbyte f ip) [off..<off + ?m]) f3 =
        Done ((dst @ map (fbyte f ip) [off..<off + ?m]) @ map (fbyte f3 ip) [off + ?m..<off + ?m + (n - ?m)]) f'"
      "feff {} f3 (fview f3) {} f'" using less.IH [OF p(1) s3 p(2) q] by blast
    have "[off..<off + ?m] @ [off + ?m..<off + n] = [off..<off + n]" using upt_add_eq_append [of off "off + ?m" "n - ?m"] m by simp
    then have c: "map (fbyte f ip) [off..<off + ?m] @ map (fbyte f3 ip) [off + ?m..<off + ?m + (n - ?m)] = map (fbyte f ip) [off..<off + n]"
      using v3 m by (simp flip: map_append)
    have "readi_loop ip off n dst f = readi_loop ip (off + ?m) (n - ?m) (dst @ map (fbyte f ip) [off..<off + ?m]) f3"
      using f1(1) B(1) f3(1) bt False ino_okD(1) [OF I] v1(2) by (subst readi_loop.simps) (simp add: Let_def BSIZE_def)
    then show ?thesis using f' c feff_trans [OF e3 f'(2)] v3(1) by auto
  qed
qed

section \<open>Writing\<close>

lemma card_indb: "finite (indb i)" "card (indb i) \<le> 1"
  by (cases "i_addrs i 12 = 0"; simp add: indb_def)+

lemma card_grown:
  assumes g: "grow ip f0 D f" and D: "finite D"
  shows "card (insert (bmblk (fgeo f)) (flogged f)) \<le> nlog f0 + 2 + card D" "nlog f \<le> nlog f0 + 2 + card D"
    "card (free_blocks (fgeo f0) (fview f0)) \<le> card (free_blocks (fgeo f) (fview f)) + 1 + card D"
proof -
  let ?g = "fgeo f0" and ?j = "indb (inodes f ip)"
  have j: "finite ?j" "card ?j \<le> 1" using card_indb by auto
  have gg: "fgeo f = ?g" using g by (simp add: grow_def)
  have "insert (bmblk ?g) (flogged f) \<subseteq> (flogged f0 \<union> ({bmblk ?g} \<union> ?j)) \<union> D" using g unfolding grow_def by auto
  then have "card (insert (bmblk ?g) (flogged f)) \<le> card ((flogged f0 \<union> ({bmblk ?g} \<union> ?j)) \<union> D)"
    using D j by (intro card_mono) (auto simp: flogged_def)
  also have "\<dots> \<le> card (flogged f0 \<union> ({bmblk ?g} \<union> ?j)) + card D" by (rule card_Un_le)
  also have "card (flogged f0 \<union> ({bmblk ?g} \<union> ?j)) \<le> nlog f0 + card ({bmblk ?g} \<union> ?j)" unfolding nlog_def by (rule card_Un_le)
  also have "card ({bmblk ?g} \<union> ?j) \<le> 1 + card ?j" using card_Un_le [of "{bmblk ?g}" ?j] by simp
  finally show c: "card (insert (bmblk (fgeo f)) (flogged f)) \<le> nlog f0 + 2 + card D" using j gg by simp
  then show "nlog f \<le> nlog f0 + 2 + card D" using card_insert_flogged(2) le_trans by blast
  have "free_blocks ?g (fview f0) \<subseteq> free_blocks ?g (fview f) \<union> ?j \<union> D" using g unfolding grow_def ext_def by blast
  then have "card (free_blocks ?g (fview f0)) \<le> card (free_blocks ?g (fview f) \<union> ?j \<union> D)"
    using D j finite_free by (intro card_mono) auto
  also have "\<dots> \<le> card (free_blocks ?g (fview f) \<union> ?j) + card D" by (rule card_Un_le)
  also have "card (free_blocks ?g (fview f) \<union> ?j) \<le> card (free_blocks ?g (fview f)) + card ?j" by (rule card_Un_le)
  finally show "card (free_blocks (fgeo f0) (fview f0)) \<le> card (free_blocks (fgeo f) (fview f)) + 1 + card D" using j gg by simp
qed

text \<open>One round of the loop: block \<open>bn\<close> gets the bytes \<open>h\<close> makes of its old ones.\<close>

lemma write_round:
  assumes s: "fs f ip" and bn: "bn < 140" and free: "2 \<le> card (free_blocks (fgeo f) (fview f))"
    and room: "card (insert (bmblk (fgeo f)) (flogged f)) < 27"
  shows "\<exists>a f1 f2. bmap ip bn f = Done a f1 \<and> i_dev (inodes f1 ip) = ROOTDEV \<and> modify_block ROOTDEV a h f1 = Done () f2
    \<and> grow ip f {a} f2 \<and> faddr f2 ip bn \<noteq> 0
    \<and> (\<forall>k < 71680. fbyte f2 ip k = (if k div 512 = bn then h (fview f1 a) (k mod 512) else fbyte f ip k))
    \<and> (\<forall>k < 71680. k div 512 = bn \<longrightarrow> fview f1 a (k mod 512) = fbyte f ip k)
    \<and> (faddr f ip bn \<noteq> 0 \<longrightarrow> inodes f2 = inodes f)"
proof -
  obtain a f1 where B: "bmap ip bn f = Done a f1" "grow ip f {a} f1" "faddr f1 ip bn = a" "a \<noteq> 0" "\<forall>k < 71680. fbyte f1 ip k = fbyte f ip k"
    "faddr f ip bn \<noteq> 0 \<longrightarrow> inodes f1 = inodes f" using bmap_run [OF s bn free] room by auto
  let ?g = "fgeo f1" and ?v = "fview f1" and ?i = "inodes f1 ip"
  have s1: "fs f1 ip" using B(2) by (simp add: grow_def)
  then have t: "txn f1 {}" and l: "layout ?g ?v" and I: "ino_ok ?g ?v ?i" by (auto simp: fs_def)
  have sl: "fslot ?v ?i bn = a" using B(3) bn by (simp add: fslot_def)
  have d: "data_block ?g ?v a" using ino_okD(4) [OF I, of bn] bn sl B(4) by simp
  have "nlog f1 \<le> card (insert (bmblk (fgeo f)) (flogged f) \<union> (indb ?i \<union> {a}))"
    unfolding nlog_def using B(2) by (intro card_mono) (auto simp: grow_def flogged_def indb_def)
  also have "\<dots> \<le> card (insert (bmblk (fgeo f)) (flogged f)) + card (indb ?i \<union> {a})" by (rule card_Un_le)
  also have "card (indb ?i \<union> {a}) \<le> card (indb ?i) + card {a}" by (rule card_Un_le)
  finally have n1: "nlog f1 + card {} < 29" using room card_indb(2) [of ?i] by simp
  obtain f2 where f2: "modify_block ROOTDEV a h f1 = Done () f2" "feff {} f1 (?v(a := h (?v a))) {a} f2"
    using modify_block_run [OF t data_FSSIZE [OF l d] _ _ n1, of h] d by (auto simp: data_block_def fgeo_def)
  note E = ext_write [OF I bn sl B(4), of "h (?v a)"]
  have "grow ip f1 {a} f2" by (rule grow_eff [OF f2(2) E(1,2) E(3) [OF l]]) auto
  then have G: "grow ip f {a} f2" using grow_trans [OF B(2)] by fastforce
  have v2: "fview f2 = ?v(a := h (?v a))" "inodes f2 = inodes f1" using f2(2) by (auto simp: feff_def fkeep_def)
  have "faddr f2 ip bn \<noteq> 0" using E(4) [of bn] sl B(4) v2 bn by (simp add: fslot_def)
  moreover have "fbyte f2 ip k = (if k div 512 = bn then h (?v a) (k mod 512) else fbyte f ip k)" if "k < 71680" for k
    using byte_write [OF I bn sl B(4) that] B(5) that v2 by simp
  moreover have "?v a (k mod 512) = fbyte f ip k" if "k < 71680" "k div 512 = bn" for k
    using B(3,4,5) that by (auto simp: byte_of_def)
  ultimately show ?thesis using B(1,6) f2(1) G ino_okD(1) [OF I] v2(2) by metis
qed

lemma writei_step:
  "0 < n \<Longrightarrow> m = min n (BSIZE - off mod BSIZE) \<Longrightarrow> bmap ip (off div BSIZE) f = Done a f1 \<Longrightarrow>
   modify_block (i_dev (inodes f1 ip)) a (blit (off mod BSIZE) m src) f1 = Done () f2 \<Longrightarrow>
   writei_loop ip src off n f = writei_loop ip (\<lambda>i. src (i + m)) (off + m) (n - m) f2"
proof -
  assume n: "0 < n" "m = min n (BSIZE - off mod BSIZE)" and b: "bmap ip (off div BSIZE) f = Done a f1"
    and f2: "modify_block (i_dev (inodes f1 ip)) a (blit (off mod BSIZE) m src) f1 = Done () f2"
  have x: "xbind m' k = Done y t \<Longrightarrow> \<exists>z u. m' = Done z u \<and> k z u = Done y t" for m' and k :: "'a \<Rightarrow> fstate \<Rightarrow> 'b fres" and y t
    by (cases m') auto
  obtain bp g1 g2 where "onx (bread (i_dev (inodes f1 ip)) a) f1 = Done bp g1"
    "onlog (log_write bp) (fput bp (blit (off mod BSIZE) m src (fdata bp g1)) g1) = Done () g2" "onx (brelse bp) g2 = Done () f2"
    using f2 unfolding modify_block_def Let_def by (auto dest!: x)
  then show ?thesis using n b by (subst writei_loop.simps) (simp add: Let_def)
qed

lemma block_range:
  fixes off k :: nat
  assumes "m \<le> 512 - off mod 512"
  shows "off \<le> k \<and> k < off + m \<longleftrightarrow> k div 512 = off div 512 \<and> off mod 512 \<le> k mod 512 \<and> k mod 512 < off mod 512 + m"
    "k div 512 = off div 512 \<Longrightarrow> k mod 512 - off mod 512 = k - off"
proof -
  have ek: "k = 512 * (k div 512) + k mod 512" "off = 512 * (off div 512) + off mod 512" by simp_all
  show "k mod 512 - off mod 512 = k - off" if "k div 512 = off div 512" using ek that by linarith
  show "off \<le> k \<and> k < off + m \<longleftrightarrow> k div 512 = off div 512 \<and> off mod 512 \<le> k mod 512 \<and> k mod 512 < off mod 512 + m"
  proof
    assume a: "off \<le> k \<and> k < off + m"
    then have "k - off < m" by auto
    then have "k div 512 = off div 512" using same_block(1) [OF assms, of "k - off"] a by simp
    then show "k div 512 = off div 512 \<and> off mod 512 \<le> k mod 512 \<and> k mod 512 < off mod 512 + m" using a ek by linarith
  next
    assume "k div 512 = off div 512 \<and> off mod 512 \<le> k mod 512 \<and> k mod 512 < off mod 512 + m"
    then show "off \<le> k \<and> k < off + m" using ek by linarith
  qed
qed

lemma writei_loop_run:
  assumes "grow ip f0 D f" "finite D" "card D + B \<le> N" "off mod 512 + n \<le> 512 * B" "off + n \<le> 71680" "nlog f0 + N \<le> 25"
    and "N + 2 \<le> card (free_blocks (fgeo f0) (fview f0))"
  shows "\<exists>f' D'. writei_loop ip src off n f = Done () f' \<and> grow ip f0 D' f' \<and> finite D' \<and> card D' \<le> N
    \<and> (\<forall>k < 71680. fbyte f' ip k = (if off \<le> k \<and> k < off + n then src (k - off) else fbyte f ip k))
    \<and> (\<forall>k. off \<le> k \<and> k < off + n \<longrightarrow> faddr f' ip (k div 512) \<noteq> 0)
    \<and> (\<forall>b < 140. faddr f ip b \<noteq> 0 \<longrightarrow> faddr f' ip b \<noteq> 0)
    \<and> ((\<forall>k. off \<le> k \<and> k < off + n \<longrightarrow> faddr f ip (k div 512) \<noteq> 0) \<longrightarrow> inodes f' ip = inodes f ip)"
  using assms
proof (induction n arbitrary: off f D B src rule: less_induct)
  case (less n)
  show ?case
  proof (cases "n = 0")
    case True
    have "card D \<le> N" using less.prems(3) by simp
    then show ?thesis using True less.prems(1,2) by (subst writei_loop.simps) auto
  next
    case False
    let ?bn = "off div 512"
    define m where "m = min n (512 - off mod 512)"
    have M: "0 < m" "m \<le> n" "m \<le> 512 - off mod 512" unfolding m_def using False mod_less_divisor [of 512 off] by (simp_all only: min_def) auto
    have bn: "?bn < 140" using less.prems(5) False by simp
    have s: "fs f ip" "fgeo f = fgeo f0" using less.prems(1) by (auto simp: grow_def)
    obtain B' where B': "B = Suc B'" using less.prems(4) False by (cases B) auto
    note C = card_grown [OF less.prems(1,2)]
    have fr: "2 \<le> card (free_blocks (fgeo f) (fview f))" "card (insert (bmblk (fgeo f)) (flogged f)) < 27"
      using C less.prems(3,6,7) B' by auto
    let ?h = "blit (off mod 512) m src"
    obtain a f1 f2 where R: "bmap ip ?bn f = Done a f1" "i_dev (inodes f1 ip) = ROOTDEV" "modify_block ROOTDEV a ?h f1 = Done () f2"
      "grow ip f {a} f2" "faddr f2 ip ?bn \<noteq> 0"
      "\<forall>k < 71680. fbyte f2 ip k = (if k div 512 = ?bn then ?h (fview f1 a) (k mod 512) else fbyte f ip k)"
      "\<forall>k < 71680. k div 512 = ?bn \<longrightarrow> fview f1 a (k mod 512) = fbyte f ip k"
      "faddr f ip ?bn \<noteq> 0 \<longrightarrow> inodes f2 = inodes f" using write_round [OF s(1) bn fr, of ?h] by blast
    have st: "writei_loop ip src off n f = writei_loop ip (\<lambda>i. src (i + m)) (off + m) (n - m) f2"
      using writei_step [of n m off ip f a f1 src f2] R(1,2,3) False m_def by (simp add: BSIZE_def)
    have by2: "fbyte f2 ip k = (if off \<le> k \<and> k < off + m then src (k - off) else fbyte f ip k)" if k: "k < 71680" for k
    proof (cases "k div 512 = ?bn")
      case True
      have e: "fbyte f2 ip k = ?h (fview f1 a) (k mod 512)" using R(6) k True by simp
      have o: "fview f1 a (k mod 512) = fbyte f ip k" using R(7) k True by simp
      show ?thesis unfolding e blit_def o block_range(2) [OF M(3) True] using block_range(1) [OF M(3), of k] True by argo
    next
      case False
      then have "fbyte f2 ip k = fbyte f ip k" using R(6) k by simp
      then show ?thesis using block_range(1) [OF M(3), of k] False by argo
    qed
    have G2: "grow ip f0 (insert a D) f2" "finite (insert a D)" "card (insert a D) + B' \<le> N"
      using grow_trans [OF less.prems(1) R(4)] less.prems(2,3) B' by (auto simp: card_insert_if)
    have "\<exists>f' D'. writei_loop ip (\<lambda>i. src (i + m)) (off + m) (n - m) f2 = Done () f' \<and> grow ip f0 D' f' \<and> finite D' \<and> card D' \<le> N
      \<and> (\<forall>k < 71680. fbyte f' ip k = (if off + m \<le> k \<and> k < off + m + (n - m) then src (k - (off + m) + m) else fbyte f2 ip k))
      \<and> (\<forall>k. off + m \<le> k \<and> k < off + m + (n - m) \<longrightarrow> faddr f' ip (k div 512) \<noteq> 0)
      \<and> (\<forall>b < 140. faddr f2 ip b \<noteq> 0 \<longrightarrow> faddr f' ip b \<noteq> 0)
      \<and> ((\<forall>k. off + m \<le> k \<and> k < off + m + (n - m) \<longrightarrow> faddr f2 ip (k div 512) \<noteq> 0) \<longrightarrow> inodes f' ip = inodes f2 ip)"
    proof (cases "n \<le> 512 - off mod 512")
      case True
      then have z: "n - m = 0" by (simp add: m_def)
      have "card (insert a D) \<le> N" using G2(3) by simp
      then show ?thesis unfolding z using G2(1,2) by (subst writei_loop.simps) auto
    next
      case False
      then have me: "m = 512 - off mod 512" by (simp add: m_def)
      moreover have "off' + (512 - r) = 512 * (q + 1)" if "off' = 512 * q + r" "r < 512" for off' q r :: nat using that by simp
      ultimately have "off + m = 512 * (?bn + 1)" using div_mult_mod_eq [of off 512] mod_less_divisor [of 512 off] by (metis mult.commute zero_less_numeral)
      then have "(off + m) mod 512 = 0" by simp
      moreover have "n - m \<le> 512 * B'" using less.prems(4) unfolding B' me by simp
      ultimately have q: "(off + m) mod 512 + (n - m) \<le> 512 * B'" by linarith
      have p: "n - m < n" "off + m + (n - m) \<le> 71680" using M less.prems(5) by auto
      show ?thesis by (rule less.IH [OF p(1) G2 q p(2) less.prems(6,7)])
    qed
    then obtain f' D' where F: "writei_loop ip (\<lambda>i. src (i + m)) (off + m) (n - m) f2 = Done () f'" "grow ip f0 D' f'" "finite D'" "card D' \<le> N"
      "\<forall>k < 71680. fbyte f' ip k = (if off + m \<le> k \<and> k < off + m + (n - m) then src (k - (off + m) + m) else fbyte f2 ip k)"
      "\<forall>k. off + m \<le> k \<and> k < off + m + (n - m) \<longrightarrow> faddr f' ip (k div 512) \<noteq> 0"
      "\<forall>b < 140. faddr f2 ip b \<noteq> 0 \<longrightarrow> faddr f' ip b \<noteq> 0"
      "(\<forall>k. off + m \<le> k \<and> k < off + m + (n - m) \<longrightarrow> faddr f2 ip (k div 512) \<noteq> 0) \<longrightarrow> inodes f' ip = inodes f2 ip" by blast
    have keep: "faddr f2 ip b = faddr f ip b" if "b < 140" "faddr f ip b \<noteq> 0" for b
    proof -
      have "ext (fgeo f) (fview f) (inodes f ip) {a} (fview f2) (inodes f2 ip)" using R(4) by (simp add: grow_def)
      from extD(1) [OF this, of b] show ?thesis using that by (simp add: fslot_def)
    qed
    have "fbyte f' ip k = (if off \<le> k \<and> k < off + n then src (k - off) else fbyte f ip k)" if "k < 71680" for k
      using F(5) that by2 [OF that] M(1,2) by auto
    moreover have "faddr f' ip (k div 512) \<noteq> 0" if k: "off \<le> k" "k < off + n" for k
    proof (cases "k < off + m")
      case True
      then have "k div 512 = ?bn" using block_range(1) [OF M(3), of k] k(1) by blast
      then show ?thesis using F(7) bn R(5) by simp
    next
      case False
      then show ?thesis using F(6) k M(2) by auto
    qed
    moreover have "faddr f' ip b \<noteq> 0" if "b < 140" "faddr f ip b \<noteq> 0" for b
      using F(7) keep [OF that] that by simp
    moreover have "inodes f' ip = inodes f ip" if h: "\<forall>k. off \<le> k \<and> k < off + n \<longrightarrow> faddr f ip (k div 512) \<noteq> 0"
    proof -
      have "faddr f2 ip (k div 512) \<noteq> 0" if "off + m \<le> k" "k < off + m + (n - m)" for k
        using h keep [of "k div 512"] that M less.prems(5) by auto
      then show ?thesis using F(8) R(8) h False by auto
    qed
    ultimately show ?thesis unfolding st using F(1-4) by blast
  qed
qed

end
