(* ===== verification/XFileThms.thy ===== *)
theory XFileThms
  imports XFile
begin

text \<open>\<open>readi\<close> and \<open>writei\<close> against the specification of a file as a list of bytes.\<close>

section \<open>Inodes on disk\<close>

lemma half_from_bytes: "ucast (ucast w :: u8) OR push_bit 8 (ucast (ucast (drop_bit 8 w) :: u8)) = (w :: u16)"
  by (rule bit_word_eqI) (auto simp: bit_simps)

lemma rdh_wrh: "rdh (wrh k w d) k = w"
  by (simp add: rdh_def wrh_def half_from_bytes)

lemma rdh_cong: "d' k = d k \<Longrightarrow> d' (k + 1) = d (k + 1) \<Longrightarrow> rdh d' k = rdh d k"
  by (simp add: rdh_def)

lemma rdw_cong:
  assumes "\<And>j. j < 4 \<Longrightarrow> d' (k + j) = d (k + j)"
  shows "rdw d' k = rdw d k"
  using assms [of 0] assms [of 1] assms [of 2] assms [of 3] by (simp add: rdw_def)

lemma wrh_other: "i < k \<or> k + 2 \<le> i \<Longrightarrow> wrh k w d i = d i"
  by (auto simp: wrh_def)

lemma wrw_other: "i < k \<or> k + 4 \<le> i \<Longrightarrow> wrw k w d i = d i"
  by (auto simp: wrw_def)

lemma fold_addrs:
  "i < k \<or> k + 4 * n \<le> i \<Longrightarrow> fold (\<lambda>j. wrw (k + 4 * j) (a j)) [0..<n] d i = d i"
  "j < n \<Longrightarrow> rdw (fold (\<lambda>j. wrw (k + 4 * j) (a j)) [0..<n] d) (k + 4 * j) = a j"
proof (induction n)
  case (Suc n)
  {
    case 1
    then show ?case using Suc.IH(1) by (auto simp: wrw_other)
  next
    case 2
    then show ?case using Suc.IH(2) by (cases "j = n") (auto simp: rdw_wrw)
  }
qed simp_all

text \<open>What \<open>iupdate\<close> stores is what \<open>ilock\<close> reads.\<close>

lemma get_put_dinode: "get_dinode k (put_dinode k v d) v = v"
proof -
  define d4 where "d4 = wrh k (i_type v) d"
  define d3 where "d3 = wrh (k + 2) (i_major v) d4"
  define d2 where "d2 = wrh (k + 4) (i_minor v) d3"
  define d1 where "d1 = wrh (k + 6) (i_nlink v) d2"
  define d0 where "d0 = wrw (k + 8) (i_size v) d1"
  let ?d = "put_dinode k v d"
  have p: "?d = wr_addrs (k + 12) (i_addrs v) d0" by (simp only: put_dinode_def d0_def d1_def d2_def d3_def d4_def)
  have f0: "?d i = d0 i" if "i < k + 12" for i unfolding p wr_addrs_def by (rule fold_addrs(1)) (use that in simp)
  have f1: "?d i = d1 i" if "i < k + 8" for i using f0 [of i] wrw_other [of i "k + 8" _ d1] that by (simp add: d0_def)
  have f2: "?d i = d2 i" if "i < k + 6" for i using f1 [of i] wrh_other [of i "k + 6" _ d2] that by (simp add: d1_def)
  have f3: "?d i = d3 i" if "i < k + 4" for i using f2 [of i] wrh_other [of i "k + 4" _ d3] that by (simp add: d2_def)
  have f4: "?d i = d4 i" if "i < k + 2" for i using f3 [of i] wrh_other [of i "k + 2" _ d4] that by (simp add: d3_def)
  have "rdh ?d k = i_type v" using rdh_cong [of ?d k d4] f4 rdh_wrh by (simp add: d4_def)
  moreover have "rdh ?d (k + 2) = i_major v" using rdh_cong [of ?d "k + 2" d3] f3 rdh_wrh by (simp add: d3_def)
  moreover have "rdh ?d (k + 4) = i_minor v" using rdh_cong [of ?d "k + 4" d2] f2 rdh_wrh by (simp add: d2_def)
  moreover have "rdh ?d (k + 6) = i_nlink v" using rdh_cong [of ?d "k + 6" d1] f1 rdh_wrh by (simp add: d1_def)
  moreover have "rdw ?d (k + 8) = i_size v" using rdw_cong [of ?d "k + 8" d0] f0 rdw_wrw(1) by (simp add: d0_def)
  moreover have "rdw ?d (k + 12 + 4 * j) = i_addrs v j" if "j < 13" for j
    unfolding p wr_addrs_def using fold_addrs(2) [OF that, of "k + 12" "i_addrs v" d0] by (simp only: NDIRECT_def) simp
  then have "(\<lambda>j. if j < NDIRECT + 1 then rdw ?d (k + 12 + 4 * j) else i_addrs v j) = i_addrs v" by (auto simp: NDIRECT_def)
  ultimately show ?thesis by (simp add: get_dinode_def)
qed

section \<open>Reading\<close>

lemma slice_upt: "map h [a..<a + min n (s - a)] = take n (drop a (map h [0..<s]))" if "a \<le> s" for a n s :: nat
proof -
  have "drop a [0..<s] = [a..<s]" by simp
  moreover have "take n [a..<s] = [a..<a + min n (s - a)]" using that by (cases "a + n \<le> s") (auto simp: min_def)
  ultimately show ?thesis by (simp add: drop_map take_map)
qed

lemma sint_small: "unat x \<le> 71680 \<Longrightarrow> sint x = int (unat x)" for x :: u32
  by (simp add: sint32)

lemma no_wrap: "\<not> off + n < off \<Longrightarrow> unat (off + n) = unat off + unat n" for off n :: u32
proof -
  assume "\<not> off + n < off"
  then show ?thesis using unat_plus_simple [of off n] by (simp add: not_less)
qed

lemma readi_run:
  assumes s: "fs f ip" and ty: "i_type (inodes f ip) \<noteq> T_DEV"
  shows "\<exists>r bs f'. readi dv ip off n f = Done (r, bs) f' \<and> feff {} f (fview f) {} f'
    \<and> (if i_size (inodes f ip) < off \<or> off + n < off then r = - 1 \<and> bs = []
       else bs = take (unat n) (drop (unat off) (file_bytes (fview f) (inodes f ip))) \<and> r = int (length bs))"
proof (cases "i_size (inodes f ip) < off \<or> off + n < off")
  case True
  have "txn f {}" using s by (simp add: fs_def)
  then show ?thesis using True ty feff_refl by (auto simp: readi_def Let_def)
next
  case False
  let ?z = "i_size (inodes f ip)"
  let ?n = "if ?z < off + n then ?z - off else n"
  have I: "ino_ok (fgeo f) (fview f) (inodes f ip)" using s by (simp add: fs_def)
  have le: "off \<le> ?z" using False by (simp add: not_less)
  have un: "unat ?n = min (unat n) (unat ?z - unat off)"
    using no_wrap [of off n] unat_sub32 [OF le] False by (auto simp: word_less_nat_alt)
  have lo: "unat off \<le> unat ?z" using le by (simp add: word_le_nat_alt)
  have z: "unat off + unat ?n \<le> unat ?z" unfolding un using lo by auto
  have b: "unat off + unat ?n \<le> 71680" using z ino_okD(3) [OF I] by linarith
  have nh: "faddr f ip (k div 512) \<noteq> 0" if "unat off \<le> k" "k < unat off + unat ?n" for k
  proof -
    have k: "k < unat ?z" "k < 71680" using that z ino_okD(3) [OF I] by linarith+
    then have "512 * (k div 512) < unat ?z" "k div 512 < 140" by (auto simp: le_less_trans [OF times_div_less_eq_dividend])
    then show ?thesis using ino_okD(7) [OF I, of "k div 512"] by (simp add: fslot_def)
  qed
  obtain f' where f': "readi_loop ip (unat off) (unat ?n) [] f = Done ([] @ map (fbyte f ip) [unat off..<unat off + unat ?n]) f'"
    "feff {} f (fview f) {} f'" using readi_loop_run [OF s b nh] by blast
  have m: "map (fbyte f ip) [unat off..<unat off + unat ?n] = take (unat n) (drop (unat off) (file_bytes (fview f) (inodes f ip)))"
    unfolding un file_bytes_def by (rule slice_upt [OF lo])
  have "unat ?n \<le> 71680" using b by linarith
  then have "sint ?n = int (unat ?n)" by (rule sint_small)
  moreover have "unat ?n = length (take (unat n) (drop (unat off) (file_bytes (fview f) (inodes f ip))))" unfolding m [symmetric] by simp
  moreover have "readi dv ip off n f = Done (sint ?n, [] @ map (fbyte f ip) [unat off..<unat off + unat ?n]) f'"
    using False ty f'(1) unfolding readi_def Let_def by simp
  ultimately show ?thesis using False f'(2) m by auto
qed

text \<open>
  C14: reading a file. A read that starts beyond the end of the file, or whose end wraps around, fails;
  every other read returns the bytes of the file from the offset on, at most \<open>n\<close>, fewer at the end
  of the file. It changes no block, logs nothing and keeps the invariant.
\<close>

theorem readi_correct:
  assumes "fs f ip" and "i_type (inodes f ip) \<noteq> T_DEV"
  shows "\<exists>r bs f'. readi dv ip off n f = Done (r, bs) f' \<and> fs f' ip \<and> fview f' = fview f \<and> inodes f' = inodes f \<and> flogged f' = flogged f
    \<and> (if i_size (inodes f ip) < off \<or> off + n < off then r = - 1 \<and> bs = []
       else bs = take (unat n) (drop (unat off) (file_bytes (fview f) (inodes f ip))) \<and> r = int (length bs))"
  using readi_run [OF assms, of dv off n] fs_eff [OF assms(1)] unfolding feff_def fkeep_def by (elim exE conjE) blast

section \<open>Writing\<close>

text \<open>The in-memory inode agrees with the one on disk.\<close>

definition isync :: "fstate \<Rightarrow> nat \<Rightarrow> bool" where
  "isync f ip \<longleftrightarrow> get_dinode (dinode_off (i_inum (inodes f ip))) (fview f (iblk (fgeo f) (inodes f ip))) (inodes f ip) = inodes f ip"

lemma iblk_write:
  assumes I: "ino_ok g v i" and b: "b = iblk g i"
  shows "\<And>j. j \<le> 140 \<Longrightarrow> fslot (v(b := d)) i j = fslot v i j" "ino_ok g (v(b := d)) i" "layout g v \<Longrightarrow> layout g (v(b := d))"
    "\<And>k. k < 71680 \<Longrightarrow> byte_of (v(b := d)) i k = byte_of v i k" "used g (v(b := d)) = used g v"
proof -
  have db: "data_block g v b" using ino_okD(2) [OF I] b by simp
  then show u: "used g (v(b := d)) = used g v" by (auto simp: used_def data_block_def)
  have "i_addrs i 12 \<noteq> 0 \<Longrightarrow> i_addrs i 12 \<noteq> b" using ino_okD(5) [OF I, of 140] b by (simp add: fslot_def)
  then show s: "fslot (v(b := d)) i j = fslot v i j" if "j \<le> 140" for j by (auto simp: fslot_def addr_of_def)
  have da: "data_block g (v(b := d)) = data_block g v" by (auto simp: data_block_def u)
  show "ino_ok g (v(b := d)) i" using I unfolding ino_ok_def da using s by auto
  show "layout g (v(b := d))" if "layout g v" using that unfolding layout_def u .
  show "byte_of (v(b := d)) i k = byte_of v i k" if k: "k < 71680" for k
  proof -
    have d: "k div 512 \<le> 140" using k by simp
    show ?thesis using k s [OF d] ino_okD(5) [OF I d] b by (intro byte_of_cong) auto
  qed
qed

lemma ino_ok_size:
  assumes I: "ino_ok g v i" and z: "unat z \<le> 71680" "\<And>k. k < 140 \<Longrightarrow> 512 * k < unat z \<Longrightarrow> fslot v i k \<noteq> 0"
  shows "ino_ok g v (i\<lparr>i_size := z\<rparr>)"
proof -
  have s: "fslot v (i\<lparr>i_size := z\<rparr>) = fslot v i" by (auto simp: fslot_def addr_of_def fun_eq_iff)
  have b: "iblk g (i\<lparr>i_size := z\<rparr>) = iblk g i" by (simp add: iblk_def)
  show ?thesis using I z unfolding ino_ok_def s b by simp blast
qed

lemma splice_bytes:
  assumes "\<And>k. k < max z (off + n) \<Longrightarrow> h' k = (if off \<le> k \<and> k < off + n then src (k - off) else h k)" "off \<le> z"
  shows "map h' [0..<max z (off + n)] = take off (map h [0..<z]) @ map src [0..<n] @ drop (off + n) (map h [0..<z])" (is "?l = ?r")
proof (rule nth_equalityI)
  show "length ?l = length ?r" using assms(2) by (auto simp: max_def)
  fix k assume "k < length ?l"
  then have k: "k < max z (off + n)" by simp
  show "?l ! k = ?r ! k"
    using assms(1) [OF k] k assms(2) by (cases "k < off"; cases "k < off + n") (auto simp: nth_append min_def max_def split: if_splits)
qed

lemma byte_of_size [simp]: "byte_of v (i\<lparr>i_size := z\<rparr>) = byte_of v i" "fslot v (i\<lparr>i_size := z\<rparr>) = fslot v i" "iblk g (i\<lparr>i_size := z\<rparr>) = iblk g i"
  by (auto simp: byte_of_def fslot_def addr_of_def iblk_def fun_eq_iff)

text \<open>The blocks that neither belong to the file nor record its blocks keep their contents.\<close>

definition others_kept :: "fstate \<Rightarrow> nat \<Rightarrow> fstate \<Rightarrow> bool" where
  "others_kept f ip f' \<longleftrightarrow>
     (\<forall>m. used (fgeo f) (fview f) m \<longrightarrow> m \<noteq> bmblk (fgeo f) \<longrightarrow> m \<noteq> iblk (fgeo f) (inodes f ip) \<longrightarrow>
        m \<notin> fslot (fview f) (inodes f ip) ` {..140} \<longrightarrow> fview f' m = fview f m)"

lemma grow_kept: "grow ip f D f' \<Longrightarrow> others_kept f ip f'"
  unfolding others_kept_def grow_def using extD(4) by blast

text \<open>What a write changes besides contents: the addresses and the size of its inode, and at most five blocks get used.\<close>

definition wkept :: "nat \<Rightarrow> fstate \<Rightarrow> fstate \<Rightarrow> bool" where
  "wkept ip f f' \<longleftrightarrow> fgeo f' = fgeo f \<and> curpid (fx f') = curpid (fx f) \<and> outstanding (flog f') = outstanding (flog f)
     \<and> committing (flog f') = committing (flog f) \<and> (\<exists>a z. inodes f' ip = (inodes f ip)\<lparr>i_addrs := a, i_size := z\<rparr>)
     \<and> (\<forall>j. j \<noteq> ip \<longrightarrow> inodes f' j = inodes f j)
     \<and> card (free_blocks (fgeo f) (fview f)) \<le> card (free_blocks (fgeo f') (fview f')) + 5"

lemma grow_wkept:
  assumes G: "grow ip f D f'" and D: "finite D" "card D \<le> 4"
  shows "wkept ip f f'"
proof -
  obtain a where a: "inodes f' ip = (inodes f ip)\<lparr>i_addrs := a\<rparr>" using G unfolding grow_def by blast
  then have "inodes f' ip = (inodes f ip)\<lparr>i_addrs := a, i_size := i_size (inodes f ip)\<rparr>" by simp
  then have "\<exists>a z. inodes f' ip = (inodes f ip)\<lparr>i_addrs := a, i_size := z\<rparr>" by blast
  moreover have "fgeo f' = fgeo f" "curpid (fx f') = curpid (fx f)" "outstanding (flog f') = outstanding (flog f)"
    "committing (flog f') = committing (flog f)" "\<forall>j. j \<noteq> ip \<longrightarrow> inodes f' j = inodes f j" using G unfolding grow_def by blast+
  moreover have "card (free_blocks (fgeo f) (fview f)) \<le> card (free_blocks (fgeo f') (fview f')) + 5"
    using card_grown(3) [OF G D(1)] D(2) by linarith
  ultimately show ?thesis unfolding wkept_def by blast
qed

text \<open>The end of \<open>writei\<close>: the new size goes into the inode and its block.\<close>

lemma writei_size:
  assumes G: "grow ip f D f1" and z: "unat z \<le> 71680" "\<And>k. k < 140 \<Longrightarrow> 512 * k < unat z \<Longrightarrow> faddr f1 ip k \<noteq> 0"
    and room: "nlog f1 < 29" and i1: "i = inodes f1 ip"
  shows "\<exists>f2. iupdate ip (upd_inode ip (\<lambda>v. v\<lparr>i_size := z\<rparr>) f1) = Done () f2 \<and> fs f2 ip \<and> isync f2 ip
    \<and> inodes f2 ip = i\<lparr>i_size := z\<rparr> \<and> (\<forall>k < 71680. fbyte f2 ip k = fbyte f1 ip k) \<and> nlog f2 \<le> Suc (nlog f1) \<and> others_kept f ip f2
    \<and> (wkept ip f f1 \<longrightarrow> wkept ip f f2)"
proof -
  let ?f = "upd_inode ip (\<lambda>v. v\<lparr>i_size := z\<rparr>) f1" and ?g = "fgeo f1" and ?v = "fview f1"
  let ?i = "i\<lparr>i_size := z\<rparr>"
  have t: "txn ?f {}" and l: "layout ?g ?v" and I: "ino_ok ?g ?v i" using G i1 by (auto simp: grow_def fs_def)
  have Iz: "ino_ok ?g ?v ?i" using z i1 by (intro ino_ok_size [OF I]) (auto simp: fslot_def)
  have d: "data_block ?g ?v (iblk ?g i)" by (rule ino_okD(2) [OF I])
  have b: "IBLOCK (i_inum ?i) (fsb ?f) = iblk ?g i" by (simp add: iblk_def fgeo_def)
  let ?w = "put_dinode (dinode_off (i_inum ?i)) ?i"
  have r: "nlog ?f + card {} < 29" using room by simp
  obtain f2 where f2: "modify_block ROOTDEV (iblk ?g i) ?w ?f = Done () f2" "feff {} ?f (?v(iblk ?g i := ?w (?v (iblk ?g i)))) {iblk ?g i} f2"
    using modify_block_run [OF t data_FSSIZE [OF l d] _ _ r, of ?w] d by (auto simp: data_block_def fgeo_def)
  have u: "iupdate ip ?f = Done () f2" using f2(1) b i1 ino_okD(1) [OF I] by (simp add: iupdate_modify)
  have v2: "fview f2 = ?v(iblk ?g i := ?w (?v (iblk ?g i)))" "inodes f2 ip = ?i" "fgeo f2 = ?g" "txn f2 {}" "nlog f2 \<le> nlog f1 + 1"
    using f2(2) nlog_eff [OF f2(2)] i1 by (auto simp: feff_def fkeep_def fgeo_def)
  note W = iblk_write [OF Iz byte_of_size(3) [where g = ?g and i = i and z = z, symmetric], where d = "?w (?v (iblk ?g i))"]
  have "fs f2 ip" unfolding fs_def v2(1-3) using v2(4) W(2) W(3) [OF l] by simp
  moreover have "isync f2 ip" unfolding isync_def v2(1-3) using get_put_dinode [of "dinode_off (i_inum ?i)" ?i] by simp
  moreover have "fbyte f2 ip k = fbyte f1 ip k" if "k < 71680" for k unfolding v2(1,2) using W(4) [OF that] i1 by simp
  moreover have "others_kept f ip f2"
    using grow_kept [OF G] G i1 unfolding others_kept_def v2(1) by (auto simp: grow_def iblk_def)
  moreover have "wkept ip f f2" if wk: "wkept ip f f1"
  proof -
    have "free_blocks ?g (fview f2) = free_blocks ?g ?v" using d unfolding v2(1) by (auto simp: free_blocks_def used_def data_block_def)
    moreover have "inodes f2 j = inodes f1 j" if "j \<noteq> ip" for j using f2(2) that by (simp add: feff_def fkeep_def)
    moreover have "curpid (fx f2) = curpid (fx f1)" "outstanding (flog f2) = outstanding (flog f1)" "committing (flog f2) = committing (flog f1)"
      using f2(2) by (simp_all add: feff_def fkeep_def)
    moreover obtain a y where "inodes f1 ip = (inodes f ip)\<lparr>i_addrs := a, i_size := y\<rparr>" using wk unfolding wkept_def by blast
    then have "inodes f2 ip = (inodes f ip)\<lparr>i_addrs := a, i_size := z\<rparr>" using v2(2) i1 by simp
    ultimately show ?thesis using wk v2(3) unfolding wkept_def by metis
  qed
  ultimately show ?thesis using u v2(2,5) by auto
qed

lemma writei_run:
  assumes s: "fs f ip" "isync f ip" and ty: "i_type (inodes f ip) \<noteq> T_DEV"
    and off: "off \<le> i_size (inodes f ip)" "unat off + unat n \<le> MAXFILE * BSIZE" and n: "unat n \<le> 1536"
    and room: "int (nlog f) + MAXOPBLOCKS \<le> LOGSIZE" and free: "6 \<le> card (free_blocks (fgeo f) (fview f))"
  shows "\<exists>f'. writei dv ip src off n f = Done (int (unat n)) f' \<and> fs f' ip \<and> isync f' ip
    \<and> file_bytes (fview f') (inodes f' ip) =
        take (unat off) (file_bytes (fview f) (inodes f ip)) @ map src [0..<unat n] @ drop (unat off + unat n) (file_bytes (fview f) (inodes f ip))
    \<and> others_kept f ip f' \<and> nlog f' \<le> nlog f + 7
    \<and> i_type (inodes f' ip) = i_type (inodes f ip) \<and> wkept ip f f'"
proof -
  let ?i = "inodes f ip" and ?z = "unat (i_size (inodes f ip))" and ?o = "unat off" and ?n = "unat n"
  have I: "ino_ok (fgeo f) (fview f) ?i" using s(1) by (simp add: fs_def)
  have b: "?o + ?n \<le> 71680" using off(2) by (simp add: MAXFILE_def BSIZE_def NDIRECT_def NINDIRECT_def)
  have le: "?o \<le> ?z" "?z \<le> 71680" using off(1) ino_okD(3) [OF I] by (simp_all add: word_le_nat_alt)
  have nl: "nlog f + 4 \<le> 25" using room by (simp add: MAXOPBLOCKS_def LOGSIZE_def)
  have uon: "unat (off + n) = ?o + ?n" using b by (intro unat_plus32_no_wrap) simp
  have p: "?o mod 512 + ?n \<le> 512 * 4" using n mod_less_divisor [of 512 ?o] by linarith
  have fr: "4 + 2 \<le> card (free_blocks (fgeo f) (fview f))" using free by simp
  obtain f1 D where L: "writei_loop ip src ?o ?n f = Done () f1" "grow ip f D f1" "finite D" "card D \<le> 4"
    "\<forall>k < 71680. fbyte f1 ip k = (if ?o \<le> k \<and> k < ?o + ?n then src (k - ?o) else fbyte f ip k)"
    "\<forall>k. ?o \<le> k \<and> k < ?o + ?n \<longrightarrow> faddr f1 ip (k div 512) \<noteq> 0" "\<forall>b < 140. faddr f ip b \<noteq> 0 \<longrightarrow> faddr f1 ip b \<noteq> 0"
    "(\<forall>k. ?o \<le> k \<and> k < ?o + ?n \<longrightarrow> faddr f ip (k div 512) \<noteq> 0) \<longrightarrow> inodes f1 ip = ?i"
    using writei_loop_run [OF grow_refl [OF s(1), of "{}"] _ _ p b nl fr, of src] by auto
  have n1: "nlog f1 \<le> nlog f + 6" using card_grown(2) [OF L(2,3)] L(4) by linarith
  have wk: "wkept ip f f1" by (rule grow_wkept [OF L(2-4)])
  have z1: "i_size (inodes f1 ip) = i_size ?i" using L(2) unfolding grow_def by auto
  have nh: "faddr f ip b \<noteq> 0" if "b < 140" "512 * b < ?z" for b using ino_okD(7) [OF I that] that by (simp add: fslot_def)
  have guards: "\<not> (i_size ?i < off \<or> off + n < off)" "\<not> MAXFILE * BSIZE < unat (off + n)"
    using off uon le by (auto simp: word_less_nat_alt not_less)
  have sn: "sint n = int ?n" using n by (intro sint_small) simp
  have w: "writei dv ip src off n f = xbind (if 0 < n \<and> i_size (inodes f1 ip) < off + n
      then iupdate ip (upd_inode ip (\<lambda>v. v\<lparr>i_size := off + n\<rparr>) f1) else Done () f1) (\<lambda>_ f. Done (int ?n) f)"
    unfolding writei_def Let_def using ty guards L(1) sn by (simp only: if_False xbind.simps)
  have goal: ?thesis if f': "writei dv ip src off n f = Done (int ?n) f'" "fs f' ip" "isync f' ip" "others_kept f ip f'" "nlog f' \<le> nlog f + 7"
      "unat (i_size (inodes f' ip)) = max ?z (?o + ?n)" "\<forall>k < 71680. fbyte f' ip k = fbyte f1 ip k"
      "wkept ip f f'" for f'
  proof -
    have "file_bytes (fview f') (inodes f' ip) =
        take ?o (file_bytes (fview f) ?i) @ map src [0..<?n] @ drop (?o + ?n) (file_bytes (fview f) ?i)"
      unfolding file_bytes_def f'(6) using f'(7) L(5) b le by (intro splice_bytes) auto
    moreover have "i_type (inodes f' ip) = i_type ?i" using f'(8) unfolding wkept_def by auto
    ultimately show ?thesis using f' by auto
  qed
  show ?thesis
  proof (cases "0 < n \<and> i_size ?i < off + n")
    case True
    have zz: "unat (off + n) \<le> 71680" "nlog f1 < 29" using uon b n1 nl by linarith+
    have "faddr f1 ip k \<noteq> 0" if "k < 140" "512 * k < unat (off + n)" for k
    proof (cases "512 * k < ?z")
      case False
      then show ?thesis using L(6) [rule_format, of "512 * k"] that uon le by simp
    qed (use that nh L(7) in blast)
    from writei_size [OF L(2) zz(1) this zz(2) refl] obtain f2 where
      f2: "iupdate ip (upd_inode ip (\<lambda>v. v\<lparr>i_size := off + n\<rparr>) f1) = Done () f2" "fs f2 ip" "isync f2 ip"
        "inodes f2 ip = (inodes f1 ip)\<lparr>i_size := off + n\<rparr>" "\<forall>k < 71680. fbyte f2 ip k = fbyte f1 ip k" "nlog f2 \<le> Suc (nlog f1)" "others_kept f ip f2"
        "wkept ip f f1 \<longrightarrow> wkept ip f f2"
      by blast
    show ?thesis
    proof (rule goal)
      show "writei dv ip src off n f = Done (int ?n) f2" using w True z1 f2(1) by simp
      show "unat (i_size (inodes f2 ip)) = max ?z (?o + ?n)" using f2(4) True uon by (simp add: word_less_nat_alt)
    qed (use f2 n1 wk in auto)
  next
    case False
    then have zmax: "?o + ?n \<le> ?z \<or> ?n = 0" using uon by (auto simp: word_less_nat_alt)
    have h: "faddr f ip (k div 512) \<noteq> 0" if k: "?o \<le> k" "k < ?o + ?n" for k
    proof -
      have "k < ?z" "k < 71680" using k zmax le by linarith+
      then have "512 * (k div 512) < ?z" "k div 512 < 140" by (auto simp: le_less_trans [OF times_div_less_eq_dividend])
      then show ?thesis using nh by blast
    qed
    then have i1: "inodes f1 ip = ?i" using L(8) by blast
    have K: "others_kept f ip f1" by (rule grow_kept [OF L(2)])
    have G: "fs f1 ip" "fgeo f1 = fgeo f" "ext (fgeo f) (fview f) ?i D (fview f1) (inodes f1 ip)" using L(2) by (auto simp: grow_def)
    have "iblk (fgeo f) ?i \<notin> fslot (fview f) ?i ` {..140}"
      using ino_okD(5) [OF I] ino_okD(2) [OF I] by (metis atMost_iff data_block_def imageE)
    then have "fview f1 (iblk (fgeo f) ?i) = fview f (iblk (fgeo f) ?i)" using extD(4) [OF G(3)] ino_okD(2) [OF I] by (simp add: data_block_def)
    then have "isync f1 ip" using s(2) unfolding isync_def i1 G(2) by simp
    moreover have "writei dv ip src off n f = Done (int ?n) f1" using w False z1 by (simp only: if_False xbind.simps)
    ultimately show ?thesis using K n1 G(1) i1 zmax le wk by (intro goal [of f1]) auto
  qed
qed

text \<open>
  C6: writing a file. A write of at most 1536 bytes (the most that \<open>filewrite\<close> passes in one
  transaction), within the largest file size and not beyond the end, into a log with room for
  MAXOPBLOCKS blocks and a disk with six free blocks, returns \<open>n\<close>. The bytes of the file are then the
  old ones with the new ones at the offset, the file being longer if needed; no other file and no
  other block changes; the inode on disk agrees with the one in memory; and no more than seven blocks are
  added to the log, whichever blocks had to be allocated.
\<close>

theorem writei_correct:
  assumes "fs f ip" "isync f ip" and "i_type (inodes f ip) \<noteq> T_DEV"
    and "off \<le> i_size (inodes f ip)" "unat off + unat n \<le> MAXFILE * BSIZE" and "unat n \<le> 1536"
    and "int (nlog f) + MAXOPBLOCKS \<le> LOGSIZE" and "6 \<le> card (free_blocks (fgeo f) (fview f))"
  shows "\<exists>f'. writei dv ip src off n f = Done (int (unat n)) f' \<and> fs f' ip \<and> isync f' ip
    \<and> file_bytes (fview f') (inodes f' ip) =
        take (unat off) (file_bytes (fview f) (inodes f ip)) @ map src [0..<unat n] @ drop (unat off + unat n) (file_bytes (fview f) (inodes f ip))
    \<and> others_kept f ip f' \<and> nlog f' \<le> nlog f + 7"
  using writei_run [OF assms, of dv src] by blast

section \<open>An example\<close>

text \<open>An empty file of type \<open>ty\<close> on a disk of which the first 64 blocks are in use.\<close>

definition ex_sb :: superblock where
  "ex_sb = \<lparr>sb_size = 1000, sb_nblocks = 941, sb_ninodes = 200, sb_nlog = 30, sb_logstart = 2, sb_inodestart = 32, sb_bmapstart = 58\<rparr>"

definition ex_inode :: "u16 \<Rightarrow> inode" where
  "ex_inode ty = \<lparr>i_dev = 1, i_inum = 1, i_ref = 1, i_lock = \<lparr>sl_locked = True, sl_pid = 1\<rparr>, i_valid = True, i_type = ty, i_major = 0,
     i_minor = 0, i_nlink = 0, i_size = 0, i_addrs = (\<lambda>_. 0)\<rparr>"

definition ex_disk :: "u16 \<Rightarrow> u32 \<times> u32 \<Rightarrow> block" where
  "ex_disk ty = (\<lambda>_ _. 0)((1, 58) := (\<lambda>i. if i < 8 then 255 else 0), (1, 32) := put_dinode 64 (ex_inode ty) (\<lambda>_. 0))"

definition ex_fs :: "u16 \<Rightarrow> fstate" where
  "ex_fs ty = \<lparr>fx = binit (zstate (ex_disk ty)), flog = ex_log\<lparr>lh_n := 0, outstanding := 1\<rparr>, fsb = ex_sb, inodes = (\<lambda>_. ex_inode ty)\<rparr>"

lemma ex_fs_view: "fview (ex_fs ty) n = ex_disk ty (1, n)" "fgeo (ex_fs ty) = (ex_sb, 2)" "flogged (ex_fs ty) = {}" "nlog (ex_fs ty) = 0" "inodes (ex_fs ty) ip = (ex_inode ty)"
proof -
  have "view (binit (zstate (ex_disk ty))) n = disk (binit (zstate (ex_disk ty))) (1, n)" using zstate_ok by (intro view_disk) auto
  then show "fview (ex_fs ty) n = ex_disk ty (1, n)" by (simp add: fview_def ex_fs_def zstate_def)
qed (simp_all add: fgeo_def ex_fs_def ex_log_def flogged_def logged_def nlog_def)

lemma ex_used: "used (ex_sb, 2) (fview (ex_fs ty)) m \<longleftrightarrow> unat m < 64"
proof -
  have "(255 :: u8) = mask 8" by (simp add: mask_eq_exp_minus_1)
  moreover have "bit (mask 8 :: u8) (k mod 8)" for k using bit_mask_iff [of 8 "k mod 8", where 'a = u8] by simp
  ultimately have "bit (255 :: u8) (k mod 8)" for k by metis
  moreover have "unat m div 8 < 8 \<longleftrightarrow> unat m < 64" by auto
  ultimately show ?thesis by (auto simp: used_def ex_fs_view ex_disk_def bm_bit ex_sb_def)
qed

lemma ex_fs_ok: "fs (ex_fs ty) ip" "isync (ex_fs ty) ip" "6 \<le> card (free_blocks (ex_sb, 2) (fview (ex_fs ty)))"
proof -
  have "txn (ex_fs ty) {}"
    using zstate_ok [of "ex_disk ty"] ex_fs_view(3) by (simp add: txn_def ex_fs_def ex_log_def log_ok_def logged_def ROOTDEV_def)
  moreover have l: "layout (ex_sb, 2) (fview (ex_fs ty))"
  proof -
    have "unat n < 64" if "n < 1000" "in_log 2 n" for n :: u32 using that by (simp add: in_log_def word_less_nat_alt)
    then show ?thesis unfolding layout_def ex_used by (auto simp: ex_sb_def FSSIZE_def in_log_def)
  qed
  moreover have "ino_ok (ex_sb, 2) (fview (ex_fs ty)) (ex_inode ty)"
    unfolding ino_ok_def data_block_def ex_used
    by (simp add: ex_inode_def fslot_def addr_of_def iblk_def IBLOCK_def IPB_def BSIZE_def ex_sb_def ROOTDEV_def in_log_def)
  ultimately show "fs (ex_fs ty) ip" by (simp add: fs_def ex_fs_view)
  have "iblk (ex_sb, 2) (ex_inode ty) = 32" by (simp add: iblk_def IBLOCK_def ex_inode_def IPB_def BSIZE_def ex_sb_def)
  moreover have "dinode_off 1 = 64" by (simp add: dinode_off_def IPB_def BSIZE_def)
  moreover have "i_inum (ex_inode ty) = 1" by (simp add: ex_inode_def)
  ultimately show "isync (ex_fs ty) ip" using get_put_dinode [of 64 "ex_inode ty" "\<lambda>_. 0"] by (simp add: isync_def ex_fs_view ex_disk_def)
  have "{100, 101, 102, 103, 104, 105} \<subseteq> free_blocks (ex_sb, 2) (fview (ex_fs ty))"
    unfolding free_blocks_def ex_used by (simp add: ex_sb_def)
  then have "card {100, 101, 102, 103, 104, 105 :: u32} \<le> card (free_blocks (ex_sb, 2) (fview (ex_fs ty)))" using finite_free by (intro card_mono)
  then show "6 \<le> card (free_blocks (ex_sb, 2) (fview (ex_fs ty)))" by simp
qed

theorem readi_correct_witness:
  "\<exists>bs f'. readi \<lparr>dev_read = (\<lambda>_. None), dev_write = (\<lambda>_. None)\<rparr> 0 0 100 (ex_fs T_FILE) = Done (0, bs) f' \<and> bs = []"
  using readi_correct [OF ex_fs_ok(1), of T_FILE 0 "\<lparr>dev_read = (\<lambda>_. None), dev_write = (\<lambda>_. None)\<rparr>" 0 100]
  by (auto simp: ex_fs_view(5) file_bytes_def) (auto simp: ex_inode_def T_DEV_def T_FILE_def)

theorem writei_correct_witness:
  "\<exists>f'. writei \<lparr>dev_read = (\<lambda>_. None), dev_write = (\<lambda>_. None)\<rparr> 0 word_of_nat 0 1000 (ex_fs T_FILE) = Done 1000 f'
    \<and> file_bytes (fview f') (inodes f' 0) = map word_of_nat [0..<1000] \<and> nlog f' \<le> 7"
proof -
  have h: "i_type (inodes (ex_fs T_FILE) 0) \<noteq> T_DEV" "0 \<le> i_size (inodes (ex_fs T_FILE) 0)" "unat (0 :: u32) + unat (1000 :: u32) \<le> MAXFILE * BSIZE"
    "unat (1000 :: u32) \<le> 1536" "int (nlog (ex_fs T_FILE)) + MAXOPBLOCKS \<le> LOGSIZE" "6 \<le> card (free_blocks (fgeo (ex_fs T_FILE)) (fview (ex_fs T_FILE)))"
    using ex_fs_ok(3) by (simp_all add: ex_fs_view ex_inode_def T_DEV_def T_FILE_def MAXFILE_def BSIZE_def NDIRECT_def NINDIRECT_def MAXOPBLOCKS_def LOGSIZE_def)
  have "file_bytes (fview (ex_fs T_FILE)) (inodes (ex_fs T_FILE) 0) = []" by (simp add: file_bytes_def ex_fs_view(5) ex_inode_def)
  then show ?thesis using writei_correct [OF ex_fs_ok(1,2) h, of "\<lparr>dev_read = (\<lambda>_. None), dev_write = (\<lambda>_. None)\<rparr>" word_of_nat]
    by (auto simp: ex_fs_view(4))
qed

end
