(* ===== verification/XDirThms.thy ===== *)
theory XDirThms
  imports XDir XFileThms
begin

text \<open>
  Directories as tables of names and path names as lists of elements.
\<close>

section \<open>Names\<close>

text \<open>The name in a field of DIRSIZ bytes.\<close>

definition cname :: "name \<Rightarrow> u8 list" where
  "cname p = takeWhile (\<lambda>c. c \<noteq> 0) (map p [0..<14])"

lemma map_upt_Suc0: "map p [0..<Suc n] = p 0 # map (\<lambda>i. p (Suc i)) [0..<n]"
  by (simp add: upt_conv_Cons map_Suc_upt [symmetric] del: upt_Suc)

lemma strncmp_eq: "x_strncmp n p q = 0 \<longleftrightarrow> takeWhile (\<lambda>c. c \<noteq> 0) (map p [0..<n]) = takeWhile (\<lambda>c. c \<noteq> 0) (map q [0..<n])"
proof (induction n arbitrary: p q)
  case (Suc n)
  have "int (unat (p 0)) - int (unat (q 0)) = 0 \<longleftrightarrow> p 0 = q 0"
    using word_unat_eq_iff [of "p 0" "q 0"] by linarith
  then show ?case using Suc.IH [of "\<lambda>i. p (Suc i)" "\<lambda>i. q (Suc i)"] unfolding map_upt_Suc0 by auto
qed simp

lemma namecmp_eq: "namecmp p q = 0 \<longleftrightarrow> cname p = cname q"
  by (simp add: namecmp_def DIRSIZ_def strncmp_eq cname_def)

lemma fold_zero: "fold (\<lambda>i s. s(i := 0)) xs s j = (if j \<in> set xs then 0 else s j)"
  by (induction xs arbitrary: s) auto

lemma strncpy_from_val:
  "strncpy_from n k s t j = (if k \<le> j \<and> j < k + n then (if \<exists>i. k \<le> i \<and> i < j \<and> t i = 0 then 0 else t j) else s j)"
proof (induction n arbitrary: k s)
  case (Suc n)
  show ?case
  proof (cases "t k = 0")
    case True
    then show ?thesis by (auto simp: Let_def fold_zero)
  next
    case False
    have q: "(\<exists>i. k \<le> i \<and> i < j \<and> t i = 0) \<longleftrightarrow> (\<exists>i. Suc k \<le> i \<and> i < j \<and> t i = 0)" using False by (metis Suc_leD not_less_eq_eq le_antisym)
    have e: "strncpy_from (Suc n) k s t = strncpy_from n (Suc k) (s(k := t k)) t" using False by simp
    show ?thesis unfolding e Suc.IH q by (cases "j = k") auto
  qed
qed auto

lemma takeWhile_map_cong:
  "(\<And>j. j < n \<Longrightarrow> (\<forall>i < j. q i \<noteq> 0) \<Longrightarrow> p j = q j) \<Longrightarrow> takeWhile (\<lambda>c. c \<noteq> 0) (map p [0..<n]) = takeWhile (\<lambda>c. c \<noteq> 0) (map q [0..<n])"
  for p q :: name
proof (induction n arbitrary: p q)
  case (Suc n)
  have 0: "p 0 = q 0" using Suc.prems [of 0] by simp
  have "takeWhile (\<lambda>c. c \<noteq> 0) (map (\<lambda>i. p (Suc i)) [0..<n]) = takeWhile (\<lambda>c. c \<noteq> 0) (map (\<lambda>i. q (Suc i)) [0..<n])" if "q 0 \<noteq> 0"
  proof (rule Suc.IH)
    show "p (Suc j) = q (Suc j)" if "j < n" "\<forall>i < j. q (Suc i) \<noteq> 0" for j
      using Suc.prems [of "Suc j"] that \<open>q 0 \<noteq> 0\<close> by (auto simp: less_Suc_eq_0_disj)
  qed
  then show ?case using 0 unfolding map_upt_Suc0 by simp
qed simp

text \<open>A name that \<open>strncpy\<close> copied compares equal to the original.\<close>

lemma cname_strncpy: "cname (x_strncpy s t DIRSIZ) = cname t"
  unfolding cname_def by (rule takeWhile_map_cong) (auto simp: x_strncpy_def strncpy_from_val DIRSIZ_def)

section \<open>Entries\<close>

definition ent :: "u8 list \<Rightarrow> nat \<Rightarrow> u8 list" where
  "ent bs k = take 16 (drop (16 * k) bs)"

definition ent_is :: "name \<Rightarrow> u8 list \<Rightarrow> bool" where
  "ent_is name de \<longleftrightarrow> de_inum de \<noteq> 0 \<and> cname (de_name de) = cname name"

text \<open>The first entry with a name.\<close>

definition dir_find :: "u8 list \<Rightarrow> name \<Rightarrow> nat option" where
  "dir_find bs name = find (\<lambda>k. ent_is name (ent bs k)) [0..<length bs div 16]"

abbreviation dbytes :: "fstate \<Rightarrow> nat \<Rightarrow> u8 list" where
  "dbytes f dp \<equiv> file_bytes (fview f) (inodes f dp)"

text \<open>Reading one entry.\<close>

lemma read_entry:
  assumes s: "fs f dp" and ty: "i_type (inodes f dp) \<noteq> T_DEV" and k: "k < length (dbytes f dp) div 16"
  shows "\<exists>f'. readi dv dp (word_of_nat (16 * k)) 16 f = Done (16, ent (dbytes f dp) k) f' \<and> feff {} f (fview f) {} f'"
proof -
  let ?z = "i_size (inodes f dp)" and ?o = "word_of_nat (16 * k) :: u32"
  have l: "length (dbytes f dp) = unat ?z" "unat ?z \<le> 71680" using s ino_okD(3) unfolding fs_def by (simp add: file_bytes_def, blast)
  have kz: "16 * k + 16 \<le> unat ?z" using k l by linarith
  have uo: "unat ?o = 16 * k" using kz l(2) by (intro unat_word_of_nat32) linarith
  have "unat (?o + 16) = 16 * k + 16" using uo kz l(2) by (subst unat_plus32_no_wrap) auto
  then have g: "\<not> (?z < ?o \<or> ?o + 16 < ?o)" using uo kz by (auto simp: word_less_nat_alt)
  have "take (unat (16 :: u32)) (drop (unat ?o) (dbytes f dp)) = ent (dbytes f dp) k" using uo by (simp add: ent_def)
  moreover have "length (ent (dbytes f dp) k) = 16" using kz l(1) by (simp add: ent_def)
  ultimately show ?thesis using readi_run [OF s ty, of dv ?o 16] g by auto
qed

lemma quiet_trans: "feff {} f (fview f) {} f1 \<Longrightarrow> feff {} f1 (fview f1) {} f2 \<Longrightarrow> feff {} f (fview f) {} f2"
  by (auto simp: feff_def fkeep_def)

lemma fs_refl: "fs f ip \<Longrightarrow> feff {} f (fview f) {} f"
  by (rule feff_refl) (simp add: fs_def)

lemma find_from:
  "(\<And>j. j < k \<Longrightarrow> \<not> P j) \<Longrightarrow> k < n \<Longrightarrow> P k \<Longrightarrow> find P [0..<n] = Some k"
  by (auto simp: find_Some_iff intro!: exI [of _ k])

text \<open>The loops over the entries find the first one that matches.\<close>

lemma dirlookup_loop_run:
  assumes "fs f dp" "i_type (inodes f dp) \<noteq> T_DEV" "dbytes f dp = bs" "length bs = 16 * n" "k \<le> n" "\<And>j. j < k \<Longrightarrow> \<not> ent_is name (ent bs j)"
  shows "\<exists>f'. feff {} f (fview f) {} f'
    \<and> dirlookup_loop dv dp name (16 * n) (16 * k) f =
       (case dir_find bs name of None \<Rightarrow> Done None f'
        | Some j \<Rightarrow> xbind (iget ROOTDEV (ucast (de_inum (ent bs j))) f') (\<lambda>ip f. Done (Some (ip, 16 * j)) f))"
  using assms
proof (induction "n - k" arbitrary: k f)
  case 0
  have "dir_find bs name = None" using 0 by (auto simp: dir_find_def find_None_iff)
  moreover have "k = n" using 0(1,6) by simp
  ultimately show ?case using fs_refl [OF 0(2)] by (subst dirlookup_loop.simps) auto
next
  case (Suc d)
  have k: "k < length (dbytes f dp) div 16" using Suc(2,5,6) by simp
  obtain f1 where r: "readi dv dp (word_of_nat (16 * k)) 16 f = Done (16, ent bs k) f1" "feff {} f (fview f) {} f1"
    using read_entry [OF Suc(3,4) k, of dv] Suc(5) by auto
  have s1: "fs f1 dp" "fview f1 = fview f" "inodes f1 = inodes f" using fs_eff [OF Suc(3) r(2)] r(2) by (auto simp: feff_def fkeep_def)
  have kn: "k < n" using Suc(2) by simp
  have dv: "i_dev (inodes f dp) = ROOTDEV" using Suc(3) ino_okD(1) unfolding fs_def by blast
  show ?case
  proof (cases "ent_is name (ent bs k)")
    case True
    have "dir_find bs name = Some k" unfolding dir_find_def using Suc(6,8) kn True by (intro find_from) auto
    then show ?thesis using r s1(3) kn True dv by (intro exI [of _ f1]) (subst dirlookup_loop.simps, auto simp: ent_is_def namecmp_eq)
  next
    case False
    have "dirlookup_loop dv dp name (16 * n) (16 * k) f = dirlookup_loop dv dp name (16 * n) (16 * Suc k) f1"
      using r(1) kn False by (subst dirlookup_loop.simps) (auto simp: ent_is_def namecmp_eq add.commute)
    moreover have "\<not> ent_is name (ent bs j)" if "j < Suc k" for j using that Suc(8) False by (auto simp: less_Suc_eq)
    moreover have "d = n - Suc k" using Suc(2) by simp
    ultimately show ?thesis using Suc(1) [of "Suc k" f1] Suc(4,5,6) kn s1 quiet_trans [OF r(2)] by auto
  qed
qed

definition dir_free :: "u8 list \<Rightarrow> nat" where
  "dir_free bs = (case find (\<lambda>k. de_inum (ent bs k) = 0) [0..<length bs div 16] of Some k \<Rightarrow> k | None \<Rightarrow> length bs div 16)"

lemma dirlink_loop_run:
  assumes "fs f dp" "i_type (inodes f dp) \<noteq> T_DEV" "dbytes f dp = bs" "length bs = 16 * n" "k \<le> n" "\<And>j. j < k \<Longrightarrow> de_inum (ent bs j) \<noteq> 0"
  shows "\<exists>f'. feff {} f (fview f) {} f'
    \<and> dirlink_loop dv dp (16 * n) (16 * k) f = Done (16 * dir_free bs) f'"
  using assms
proof (induction "n - k" arbitrary: k f)
  case 0
  have "find (\<lambda>k. de_inum (ent bs k) = 0) [0..<n] = None" using 0(1,6,7) by (auto simp: find_None_iff)
  then have "dir_free bs = n" using 0(5) by (simp add: dir_free_def)
  moreover have "k = n" using 0(1,6) by simp
  ultimately show ?case using fs_refl [OF 0(2)] by (subst dirlink_loop.simps) auto
next
  case (Suc d)
  have k: "k < length (dbytes f dp) div 16" using Suc(2,5,6) by simp
  obtain f1 where r: "readi dv dp (word_of_nat (16 * k)) 16 f = Done (16, ent bs k) f1" "feff {} f (fview f) {} f1"
    using read_entry [OF Suc(3,4) k, of dv] Suc(5) by auto
  have s1: "fs f1 dp" "fview f1 = fview f" "inodes f1 = inodes f" using fs_eff [OF Suc(3) r(2)] r(2) by (auto simp: feff_def fkeep_def)
  have kn: "k < n" using Suc(2) by simp
  show ?case
  proof (cases "de_inum (ent bs k) = 0")
    case True
    have "find (\<lambda>k. de_inum (ent bs k) = 0) [0..<n] = Some k" using Suc(8) kn True by (intro find_from) auto
    then have "dir_free bs = k" using Suc(6) by (simp add: dir_free_def)
    then show ?thesis using r kn True by (intro exI [of _ f1]) (subst dirlink_loop.simps, auto)
  next
    case False
    have "dirlink_loop dv dp (16 * n) (16 * k) f = dirlink_loop dv dp (16 * n) (16 * Suc k) f1"
      using r(1) kn False by (subst dirlink_loop.simps) (auto simp: add.commute)
    moreover have "de_inum (ent bs j) \<noteq> 0" if "j < Suc k" for j using that Suc(8) False by (auto simp: less_Suc_eq)
    moreover have "d = n - Suc k" using Suc(2) by simp
    ultimately show ?thesis using Suc(1) [of "Suc k" f1] Suc(4,5,6) kn s1 quiet_trans [OF r(2)] by auto
  qed
qed

section \<open>A directory as a table\<close>

definition dir_lookup :: "u8 list \<Rightarrow> name \<Rightarrow> u16 option" where
  "dir_lookup bs name = map_option (\<lambda>k. de_inum (ent bs k)) (dir_find bs name)"

text \<open>Storing an entry.\<close>

definition put_ent :: "u8 list \<Rightarrow> nat \<Rightarrow> u8 list \<Rightarrow> u8 list" where
  "put_ent de k bs = take (16 * k) bs @ de @ drop (16 * k + 16) bs"

lemma put_ent_ent:
  assumes "length de = 16" "length bs = 16 * n" "k \<le> n"
  shows "length (put_ent de k bs) = 16 * max n (k + 1)" "j < max n (k + 1) \<Longrightarrow> ent (put_ent de k bs) j = (if j = k then de else ent bs j)"
proof -
  show "length (put_ent de k bs) = 16 * max n (k + 1)" using assms by (auto simp: put_ent_def max_def)
  show "ent (put_ent de k bs) j = (if j = k then de else ent bs j)" if j: "j < max n (k + 1)"
  proof (cases j k rule: linorder_cases)
    case less
    then have "16 * j + 16 \<le> 16 * k" by simp
    then show ?thesis using less assms by (auto simp: ent_def put_ent_def drop_take min_def)
  next
    case equal
    then show ?thesis using assms by (simp add: ent_def put_ent_def)
  next
    case greater
    then have "drop (16 * j) (put_ent de k bs) = drop (16 * j) bs" using assms by (simp add: put_ent_def)
    then show ?thesis using greater by (simp add: ent_def)
  qed
qed

lemma find_append: "find P (xs @ ys) = (case find P xs of None \<Rightarrow> find P ys | Some x \<Rightarrow> Some x)"
  by (induction xs) auto

lemma find_ext: "(\<And>j. n \<le> j \<Longrightarrow> j < m \<Longrightarrow> \<not> P j) \<Longrightarrow> n \<le> m \<Longrightarrow> find P [0..<m] = find P [0..<n]"
proof (induction "m - n" arbitrary: m)
  case (Suc d)
  then obtain m' where m: "m = Suc m'" "n \<le> m'" by (cases m) auto
  have "find P [0..<m] = find P [0..<m']" using Suc.prems(1) [of m'] m by (simp add: find_append split: option.split)
  then show ?case using Suc m by simp
qed simp

lemma find_cong': "(\<And>j. j < n \<Longrightarrow> P j = Q j) \<Longrightarrow> find P [0..<n] = find Q [0..<n]"
  by (rule find_cong) auto

lemma dir_free_props:
  assumes "length bs = 16 * n"
  shows "dir_free bs \<le> n" "dir_free bs < n \<Longrightarrow> de_inum (ent bs (dir_free bs)) = 0"
proof -
  let ?F = "find (\<lambda>k. de_inum (ent bs k) = 0) [0..<n]"
  have "length bs div 16 = n" using assms by simp
  then have f: "dir_free bs = (case ?F of Some k \<Rightarrow> k | None \<Rightarrow> n)" unfolding dir_free_def by (simp only:)
  have s: "k < n \<and> de_inum (ent bs k) = 0" if "?F = Some k" for k using that by (auto simp: find_Some_iff)
  show "dir_free bs \<le> n" using s by (auto simp: f less_imp_le split: option.split)
  show "de_inum (ent bs (dir_free bs)) = 0" if "dir_free bs < n" using s that by (cases ?F) (auto simp: f)
qed

text \<open>An unused entry that is filled adds one name to the table and no other.\<close>

lemma dir_lookup_put:
  assumes de: "length de = 16" "de_inum de \<noteq> 0" "cname (de_name de) = cname name" and bs: "length bs = 16 * n"
    and none: "dir_find bs name = None" and k: "k = dir_free bs"
  shows "dir_lookup (put_ent de k bs) nm = (if cname nm = cname name then Some (de_inum de) else dir_lookup bs nm)"
proof -
  have kn: "k \<le> n" "k < n \<Longrightarrow> de_inum (ent bs k) = 0" using dir_free_props [OF bs] k by auto
  note E = put_ent_ent [OF de(1) bs kn(1)]
  let ?m = "max n (k + 1)" and ?bs = "put_ent de k bs"
  have l: "length ?bs div 16 = ?m" "length bs div 16 = n" using E(1) bs by simp_all
  show ?thesis
  proof (cases "cname nm = cname name")
    case True
    have "\<not> ent_is nm (ent ?bs j)" if "j < k" for j
      using that none kn(1) E(2) [of j] True by (auto simp: dir_find_def find_None_iff ent_is_def l)
    then have "dir_find ?bs nm = Some k"
      unfolding dir_find_def l(1) using de True E(2) [of k] by (intro find_from) (auto simp: ent_is_def)
    then show ?thesis using True E(2) [of k] by (simp add: dir_lookup_def)
  next
    case False
    have e: "ent_is nm (ent ?bs j) \<longleftrightarrow> j < n \<and> ent_is nm (ent bs j)" if "j < ?m" for j
      using that E(2) [OF that] de(3) False kn(2) kn(1) by (cases "j = k") (auto simp: ent_is_def)
    have "dir_find ?bs nm = find (\<lambda>j. j < n \<and> ent_is nm (ent bs j)) [0..<?m]" unfolding dir_find_def l(1) using e by (rule find_cong')
    also have "\<dots> = find (\<lambda>j. j < n \<and> ent_is nm (ent bs j)) [0..<n]" by (rule find_ext) auto
    also have "\<dots> = dir_find bs nm" unfolding dir_find_def l(2) by (rule find_cong') simp
    finally have d: "dir_find ?bs nm = dir_find bs nm" .
    have "ent ?bs j = ent bs j" if "dir_find bs nm = Some j" for j
    proof -
      have j: "j < n" "ent_is nm (ent bs j)" using that by (auto simp: dir_find_def find_Some_iff l)
      then have "j \<noteq> k" using kn(2) by (auto simp: ent_is_def)
      then show ?thesis using E(2) [of j] j(1) by simp
    qed
    then show ?thesis using d False by (cases "dir_find bs nm") (simp_all add: dir_lookup_def)
  qed
qed

lemma de_mk: "length (map (mk_dirent inum nm) [0..<16]) = 16" "de_inum (map (mk_dirent inum nm) [0..<16]) = inum"
  "cname (de_name (map (mk_dirent inum nm) [0..<16])) = cname nm"
proof -
  show "de_inum (map (mk_dirent inum nm) [0..<16]) = inum" by (simp add: de_inum_def mk_dirent_def half_from_bytes)
  have "de_name (map (mk_dirent inum nm) [0..<16]) i = nm i" if "i < 14" for i using that by (simp add: de_name_def mk_dirent_def)
  then show "cname (de_name (map (mk_dirent inum nm) [0..<16])) = cname nm" unfolding cname_def by (intro takeWhile_map_cong) simp
qed simp

lemma dirlookup_run:
  assumes s: "fs f dp" "i_type (inodes f dp) = T_DIR" and l: "length (dbytes f dp) = 16 * n"
  shows "\<exists>f'. feff {} f (fview f) {} f'
    \<and> dirlookup dv dp name f = (case dir_find (dbytes f dp) name of None \<Rightarrow> Done None f'
        | Some j \<Rightarrow> xbind (iget ROOTDEV (ucast (de_inum (ent (dbytes f dp) j))) f') (\<lambda>ip f. Done (Some (ip, 16 * j)) f))"
proof -
  have "unat (i_size (inodes f dp)) = 16 * n" using l by (simp add: file_bytes_def)
  then show ?thesis using dirlookup_loop_run [OF s(1) _ refl l, of 0 name dv] s(2) by (simp add: dirlookup_def T_DIR_def T_DEV_def)
qed

lemma dirlink_run:
  assumes s: "fs f dp" "isync f dp" "i_type (inodes f dp) = T_DIR" and l: "length (dbytes f dp) = 16 * n" "16 * n + 16 \<le> 71680"
    and none: "dir_find (dbytes f dp) name = None" and inum: "inum \<noteq> 0"
    and room: "int (nlog f) + MAXOPBLOCKS \<le> LOGSIZE" and free: "6 \<le> card (free_blocks (fgeo f) (fview f))"
  shows "\<exists>f'. dirlink dv dp name inum f = Done 0 f' \<and> fs f' dp \<and> isync f' dp \<and> i_type (inodes f' dp) = T_DIR
    \<and> dbytes f' dp = put_ent (map (mk_dirent inum (x_strncpy (\<lambda>_. 0) name DIRSIZ)) [0..<16]) (dir_free (dbytes f dp)) (dbytes f dp)
    \<and> others_kept f dp f' \<and> nlog f' \<le> nlog f + 7"
proof -
  let ?bs = "dbytes f dp" and ?de = "mk_dirent inum (x_strncpy (\<lambda>_. 0) name DIRSIZ)" and ?k = "dir_free (dbytes f dp)"
  have z: "unat (i_size (inodes f dp)) = 16 * n" using l(1) by (simp add: file_bytes_def)
  have ty: "i_type (inodes f dp) \<noteq> T_DEV" using s(3) by (simp add: T_DIR_def T_DEV_def)
  obtain f1 where f1: "feff {} f (fview f) {} f1" "dirlookup dv dp name f = Done None f1"
    using dirlookup_run [OF s(1,3) l(1), of dv name] none by auto
  have v1: "fs f1 dp" "fview f1 = fview f" "inodes f1 = inodes f" using fs_eff [OF s(1) f1(1)] f1(1) by (auto simp: feff_def fkeep_def)
  obtain f2 where f2: "feff {} f1 (fview f1) {} f2" "dirlink_loop dv dp (16 * n) 0 f1 = Done (16 * ?k) f2"
    using dirlink_loop_run [OF v1(1), of ?bs n 0 dv] v1(2,3) ty l(1) by auto
  have q: "feff {} f (fview f) {} f2" by (rule quiet_trans [OF f1(1) f2(1)])
  have v2: "fs f2 dp" "fview f2 = fview f" "inodes f2 = inodes f" "flogged f2 = flogged f" "fgeo f2 = fgeo f"
    using fs_eff [OF s(1) q] q by (auto simp: feff_def fkeep_def fgeo_def)
  have kn: "?k \<le> n" by (rule dir_free_props(1) [OF l(1)])
  let ?o = "word_of_nat (16 * ?k) :: u32"
  have uo: "unat ?o = 16 * ?k" using kn l(2) by (intro unat_word_of_nat32) linarith
  have h: "isync f2 dp" "i_type (inodes f2 dp) \<noteq> T_DEV" "?o \<le> i_size (inodes f2 dp)" "unat ?o + unat (16 :: u32) \<le> MAXFILE * BSIZE"
    "unat (16 :: u32) \<le> 1536" "int (nlog f2) + MAXOPBLOCKS \<le> LOGSIZE" "6 \<le> card (free_blocks (fgeo f2) (fview f2))"
    using s(2) ty z kn l(2) uo room free
    by (simp_all add: isync_def v2 nlog_def word_le_nat_alt MAXFILE_def BSIZE_def NDIRECT_def NINDIRECT_def)
  obtain f' where w: "writei dv dp ?de ?o 16 f2 = Done (int (unat (16 :: u32))) f'" "fs f' dp" "isync f' dp"
    "dbytes f' dp = take (unat ?o) (dbytes f2 dp) @ map ?de [0..<unat (16 :: u32)] @ drop (unat ?o + unat (16 :: u32)) (dbytes f2 dp)"
    "others_kept f2 dp f'" "nlog f' \<le> nlog f2 + 7" "i_type (inodes f' dp) = i_type (inodes f2 dp)"
    using writei_run [OF v2(1) h, of dv ?de] by blast
  have "dirlink dv dp name inum f = Done 0 f'"
    using f1(2) f2(2) w(1) by (simp add: dirlink_def z v1(3))
  moreover have "others_kept f dp f'" using w(5) unfolding others_kept_def v2 .
  moreover have "dbytes f' dp = put_ent (map ?de [0..<16]) ?k ?bs" using w(4) unfolding put_ent_def uo v2 by simp
  ultimately show ?thesis using w(2,3,6,7) s(3) by (auto simp: v2 nlog_def)
qed

text \<open>
  C18: a directory is a table from names to inode numbers. \<open>dirlink\<close> with a name that the table does not
  have returns 0 and enters it, in the first unused entry or at the end; every other name keeps its
  number, whatever its length, the directory remains well formed and no other file changes. A
  following \<open>dirlookup\<close>, of any name, answers according to the new table: the inode that \<open>iget\<close> finds for
  the number, or nothing.
\<close>

theorem dirlink_correct:
  assumes s: "fs f dp" "isync f dp" "i_type (inodes f dp) = T_DIR" and l: "length (dbytes f dp) = 16 * n" "n < 4480"
    and none: "dir_lookup (dbytes f dp) name = None" and inum: "inum \<noteq> 0"
    and room: "int (nlog f) + MAXOPBLOCKS \<le> LOGSIZE" and free: "6 \<le> card (free_blocks (fgeo f) (fview f))"
  shows "\<exists>f'. dirlink dv dp name inum f = Done 0 f' \<and> fs f' dp \<and> isync f' dp \<and> others_kept f dp f' \<and> nlog f' \<le> nlog f + 7
    \<and> (\<forall>nm. dir_lookup (dbytes f' dp) nm = (if cname nm = cname name then Some inum else dir_lookup (dbytes f dp) nm))
    \<and> (\<forall>nm. \<exists>f'' off. fview f'' = fview f' \<and> inodes f'' = inodes f' \<and>
          dirlookup dv dp nm f' = (case dir_lookup (dbytes f' dp) nm of None \<Rightarrow> Done None f''
            | Some j \<Rightarrow> xbind (iget ROOTDEV (ucast j) f'') (\<lambda>ip f. Done (Some (ip, off)) f)))"
proof -
  let ?de = "map (mk_dirent inum (x_strncpy (\<lambda>_. 0) name DIRSIZ)) [0..<16]" and ?k = "dir_free (dbytes f dp)"
  have nf: "dir_find (dbytes f dp) name = None" using none by (simp add: dir_lookup_def)
  have l2: "16 * n + 16 \<le> 71680" using l(2) by simp
  obtain f' where f': "dirlink dv dp name inum f = Done 0 f'" "fs f' dp" "isync f' dp" "i_type (inodes f' dp) = T_DIR"
    "dbytes f' dp = put_ent ?de ?k (dbytes f dp)" "others_kept f dp f'" "nlog f' \<le> nlog f + 7"
    using dirlink_run [OF s l(1) l2 nf inum room free, of dv] by blast
  have len: "length (dbytes f' dp) = 16 * max n (?k + 1)"
    unfolding f'(5) by (rule put_ent_ent(1) [OF de_mk(1) l(1) dir_free_props(1) [OF l(1)]])
  have "\<exists>f'' off. fview f'' = fview f' \<and> inodes f'' = inodes f' \<and>
      dirlookup dv dp nm f' = (case dir_lookup (dbytes f' dp) nm of None \<Rightarrow> Done None f''
        | Some j \<Rightarrow> xbind (iget ROOTDEV (ucast j) f'') (\<lambda>ip f. Done (Some (ip, off)) f))" for nm
  proof -
    obtain f'' where q: "feff {} f' (fview f') {} f''" "dirlookup dv dp nm f' = (case dir_find (dbytes f' dp) nm of None \<Rightarrow> Done None f''
        | Some j \<Rightarrow> xbind (iget ROOTDEV (ucast (de_inum (ent (dbytes f' dp) j))) f'') (\<lambda>ip f. Done (Some (ip, 16 * j)) f))"
      using dirlookup_run [OF f'(2,4) len, of dv nm] by blast
    then show ?thesis by (cases "dir_find (dbytes f' dp) nm") (auto simp: dir_lookup_def feff_def fkeep_def)
  qed
  moreover have "dir_lookup (dbytes f' dp) nm = (if cname nm = cname name then Some inum else dir_lookup (dbytes f dp) nm)" for nm
    unfolding f'(5) using dir_lookup_put [OF de_mk(1) _ _ l(1) nf refl, of inum "x_strncpy (\<lambda>_. 0) name DIRSIZ" nm] inum
    by (simp add: de_mk cname_strncpy)
  ultimately show ?thesis using f' by blast
qed

theorem dirlink_correct_witness:
  "\<exists>f'. dirlink \<lparr>dev_read = (\<lambda>_. None), dev_write = (\<lambda>_. None)\<rparr> 0 (\<lambda>_. 65) 7 (ex_fs T_DIR) = Done 0 f'
    \<and> dir_lookup (dbytes f' 0) (\<lambda>_. 65) = Some 7"
proof -
  have e: "dbytes (ex_fs T_DIR) 0 = []" by (simp add: file_bytes_def ex_fs_view ex_inode_def)
  then have d: "length (dbytes (ex_fs T_DIR) 0) = 16 * 0" "dir_lookup (dbytes (ex_fs T_DIR) 0) (\<lambda>_. 65) = None"
    by (simp_all add: dir_lookup_def dir_find_def)
  have h: "i_type (inodes (ex_fs T_DIR) 0) = T_DIR" "int (nlog (ex_fs T_DIR)) + MAXOPBLOCKS \<le> LOGSIZE"
    "6 \<le> card (free_blocks (fgeo (ex_fs T_DIR)) (fview (ex_fs T_DIR)))" "(7 :: u16) \<noteq> 0" "(0 :: nat) < 4480"
    using ex_fs_ok(3) by (simp_all add: ex_fs_view ex_inode_def MAXOPBLOCKS_def LOGSIZE_def)
  from dirlink_correct [OF ex_fs_ok(1,2) h(1) d(1) h(5) d(2) h(4,2,3), of "\<lparr>dev_read = (\<lambda>_. None), dev_write = (\<lambda>_. None)\<rparr>"]
  show ?thesis by auto
qed

section \<open>Path names\<close>

text \<open>What \<open>skipelem\<close> leaves in the name, whatever was there before.\<close>

lemma skipelem_run:
  assumes "e \<noteq> []" "\<forall>c \<in> set e. c \<noteq> 0x2F \<and> c \<noteq> 0" "rest = [] \<or> hd rest = 0x2F"
  shows "\<exists>nm. skipelem (replicate k 0x2F @ e @ rest) name = Some (dropWhile (\<lambda>c. c = 0x2F) rest, nm) \<and> cname nm = take 14 e"
proof -
  have d: "dropWhile (\<lambda>c. c = 0x2F) (replicate k 0x2F @ e @ rest) = e @ rest"
    using assms(1,2) by (cases e) (auto simp: dropWhile_append)
  have t: "takeWhile (\<lambda>c. c \<noteq> 0x2F) (e @ rest) = e" "dropWhile (\<lambda>c. c \<noteq> 0x2F) (e @ rest) = rest"
    using assms(2,3) by (cases rest; auto simp: takeWhile_append dropWhile_append)+
  let ?nm = "if 14 \<le> length e then (\<lambda>i. if i < 14 then e ! i else name i) else (\<lambda>i. if i < length e then e ! i else if i = length e then 0 else name i)"
  have s: "skipelem (replicate k 0x2F @ e @ rest) name = Some (dropWhile (\<lambda>c. c = 0x2F) rest, ?nm)"
    using assms(1) by (simp add: skipelem_def Let_def d t DIRSIZ_def)
  have "cname ?nm = take 14 e"
  proof (cases "14 \<le> length e")
    case True
    then have m: "map ?nm [0..<14] = take 14 e" by (intro nth_equalityI) auto
    show ?thesis unfolding cname_def m using assms(2) by (auto simp: takeWhile_eq_all_conv dest: in_set_takeD)
  next
    case False
    then have m: "map ?nm [0..<14] = e @ 0 # map name [Suc (length e)..<14]"
      by (intro nth_equalityI) (auto simp: nth_append nth_Cons split: nat.split intro!: arg_cong [of _ _ name])
    show ?thesis unfolding cname_def m using assms(2) False by (simp add: takeWhile_append)
  qed
  then show ?thesis using s by blast
qed

text \<open>The names that the loop of \<open>namex\<close> looks up.\<close>

function path_names :: "u8 list \<Rightarrow> name \<Rightarrow> u8 list list" where
  "path_names path name = (case skipelem path name of None \<Rightarrow> [] | Some (path, name) \<Rightarrow> cname name # path_names path name)"
  by pat_completeness auto
termination by (relation "measure (\<lambda>(path, name). length path)") auto

declare path_names.simps [simp del]

text \<open>A path with the elements \<open>es\<close>, each after some slashes, and \<open>m\<close> slashes at the end.\<close>

fun mk_path :: "(nat \<times> u8 list) list \<Rightarrow> nat \<Rightarrow> u8 list" where
  "mk_path [] m = replicate m 0x2F"
| "mk_path ((k, e) # es) m = replicate k 0x2F @ e @ mk_path es m"

fun path_ok :: "(nat \<times> u8 list) list \<Rightarrow> bool" where
  "path_ok [] = True"
| "path_ok ((k, e) # es) \<longleftrightarrow> e \<noteq> [] \<and> (\<forall>c \<in> set e. c \<noteq> 0x2F \<and> c \<noteq> 0) \<and> (es = [] \<or> 0 < fst (hd es)) \<and> path_ok es"

lemma mk_path_slash: "path_ok es \<Longrightarrow> es = [] \<or> 0 < fst (hd es) \<Longrightarrow> mk_path es m = [] \<or> hd (mk_path es m) = 0x2F"
  by (cases es; cases m) (auto simp: hd_append)

text \<open>
  path names are split as they are written. For any elements (not empty, without slash or zero
  byte) and any numbers of slashes, at least one between two elements, repeated \<open>skipelem\<close> yields
  exactly the elements in order, each cut to DIRSIZ bytes, and then nothing.
\<close>

theorem path_roundtrip:
  assumes "path_ok es"
  shows "path_names (mk_path es m) name = map (\<lambda>(k, e). take DIRSIZ e) es"
  using assms
proof (induction es arbitrary: name rule: path_ok.induct)
  case 1
  have "dropWhile (\<lambda>c. c = 0x2F) (replicate m (0x2F :: u8)) = []" by simp
  then have "skipelem (replicate m 0x2F) name = None" by (simp add: skipelem_def Let_def)
  then show ?case by (subst path_names.simps) simp
next
  case (2 k e es)
  have r: "mk_path es m = [] \<or> hd (mk_path es m) = 0x2F" using 2(2) by (intro mk_path_slash) auto
  obtain nm where nm: "skipelem (mk_path ((k, e) # es) m) name = Some (dropWhile (\<lambda>c. c = 0x2F) (mk_path es m), nm)" "cname nm = take 14 e"
    using skipelem_run [of e "mk_path es m" k name] 2(2) r by auto
  have "path_names (dropWhile (\<lambda>c. c = 0x2F) (mk_path es m)) nm = path_names (mk_path es m) nm"
  proof -
    have "skipelem (dropWhile (\<lambda>c. c = 0x2F) p) nm = skipelem p nm" for p by (simp add: skipelem_def Let_def)
    then show ?thesis by (subst (1 2) path_names.simps) simp
  qed
  then show ?case using nm 2 by (subst path_names.simps) (simp add: DIRSIZ_def)
qed

theorem path_roundtrip_witness: "path_names (mk_path [(1, [0x61]), (2, replicate 20 0x62)] 3) (\<lambda>_. 1) = [[0x61], replicate 14 0x62]"
  using path_roundtrip [of "[(1, [0x61]), (2, replicate 20 0x62)]" 3 "\<lambda>_. 1"] by (simp add: DIRSIZ_def)

end
