(* ===== verification/XArg.thy ===== *)
theory XArg
  imports Prelude
begin

text \<open>
  System call arguments of xv6 (xv6-public/syscall.c). The arguments are on the user stack; a pointer is
  accepted when the memory it names lies below the size of the process. Results that the code returns
  through a pointer are the value of an option, None for the return value -1.
\<close>

text \<open>The modes of \<open>open\<close> (xv6-public/fcntl.h), which the kernel and the shell share.\<close>

definition O_RDONLY :: int where "O_RDONLY = 0x000"
definition O_WRONLY :: int where "O_WRONLY = 0x001"
definition O_RDWR :: int where "O_RDWR = 0x002"
definition O_CREATE :: int where "O_CREATE = 0x200"

record uproc =
  usz :: u32
  uesp :: u32
  umem :: "u32 \<Rightarrow> u8"

definition uword :: "(u32 \<Rightarrow> u8) \<Rightarrow> u32 \<Rightarrow> u32" where
  "uword m a = word_of_nat (unat (m a) + 2 ^ 8 * unat (m (a + 1)) + 2 ^ 16 * unat (m (a + 2)) + 2 ^ 24 * unat (m (a + 3)))"

definition fetchint :: "u32 \<Rightarrow> uproc \<Rightarrow> u32 option" where
  "fetchint addr p = (if usz p \<le> addr \<or> usz p < addr + 4 then None else Some (uword (umem p) addr))"

lemma unat_next: "(s :: u32) < e \<Longrightarrow> unat (s + 1) = unat s + 1"
  using unat_lt32 [of e] by (simp add: unat_plus32_no_wrap word_less_nat_alt)

function fetchstr_loop :: "u32 \<Rightarrow> uproc \<Rightarrow> u8 list \<Rightarrow> u8 list option" where
  "fetchstr_loop s p str =
     (if s < usz p then if umem p s = 0 then Some str else fetchstr_loop (s + 1) p (str @ [umem p s]) else None)"
  by pat_completeness auto
termination
proof (relation "measure (\<lambda>(s, p, str). unat (usz p - s))", goal_cases)
  case (2 s p str)
  have "unat (s + 1) = unat s + 1" by (rule unat_next [OF 2(1)])
  then show ?case using 2(1) by (simp add: unat_sub word_less_nat_alt word_le_nat_alt)
qed simp

declare fetchstr_loop.simps [simp del]

text \<open>The bytes of the string, whose number the code returns.\<close>

definition fetchstr :: "u32 \<Rightarrow> uproc \<Rightarrow> u8 list option" where
  "fetchstr addr p = (if usz p \<le> addr then None else fetchstr_loop addr p [])"

definition argint :: "nat \<Rightarrow> uproc \<Rightarrow> u32 option" where
  "argint n p = fetchint (uesp p + 4 + 4 * word_of_nat n) p"

definition argptr :: "nat \<Rightarrow> int \<Rightarrow> uproc \<Rightarrow> u32 option" where
  "argptr n len p =
     (case argint n p of
        None \<Rightarrow> None
      | Some i \<Rightarrow> if len < 0 \<or> usz p \<le> i \<or> usz p < i + word_of_int len then None else Some i)"

definition argstr :: "nat \<Rightarrow> uproc \<Rightarrow> u8 list option" where
  "argstr n p = (case argint n p of None \<Rightarrow> None | Some addr \<Rightarrow> fetchstr addr p)"

section \<open>Arguments lie in user memory\<close>

lemma fetchstr_loop_run:
  "fetchstr_loop s p str = Some bs \<Longrightarrow>
   \<exists>n. unat s + n < unat (usz p) \<and> bs = str @ map (\<lambda>k. umem p (s + word_of_nat k)) [0..<n] \<and> umem p (s + word_of_nat n) = 0
     \<and> (\<forall>k < n. umem p (s + word_of_nat k) \<noteq> 0)"
proof (induction s p str rule: fetchstr_loop.induct)
  case (1 s p str)
  have s: "s < usz p" using "1.prems" by (auto simp: fetchstr_loop.simps [of s p] split: if_splits)
  have u: "unat (s + 1) = unat s + 1" by (rule unat_next [OF s])
  show ?case
  proof (cases "umem p s = 0")
    case True
    then have "bs = str" using "1.prems" s by (simp add: fetchstr_loop.simps [of s p])
    then show ?thesis using True s by (intro exI [of _ 0]) (simp add: word_less_nat_alt)
  next
    case False
    have "fetchstr_loop (s + 1) p (str @ [umem p s]) = Some bs" using "1.prems" s False by (simp add: fetchstr_loop.simps [of s p])
    then obtain n where n: "unat (s + 1) + n < unat (usz p)" "bs = (str @ [umem p s]) @ map (\<lambda>k. umem p (s + 1 + word_of_nat k)) [0..<n]"
        "umem p (s + 1 + word_of_nat n) = 0" "\<forall>k < n. umem p (s + 1 + word_of_nat k) \<noteq> 0" using "1.IH" s False by blast
    have sh: "s + 1 + word_of_nat k = s + word_of_nat (Suc k)" for k by (simp add: algebra_simps)
    have "bs = str @ map (\<lambda>k. umem p (s + word_of_nat k)) [0..<Suc n]"
      unfolding n(2) sh upt_conv_Cons [OF zero_less_Suc] by (simp add: map_Suc_upt [symmetric] del: upt_Suc)
    moreover have "umem p (s + word_of_nat k) \<noteq> 0" if "k < Suc n" for k
      using n(4) that False unfolding sh by (cases k) auto
    ultimately show ?thesis using n(1,3) u unfolding sh by (intro exI [of _ "Suc n"]) auto
  qed
qed

text \<open>
  C29: what the kernel takes from a system call lies in the memory of the process. With a process of at
  most 2 GB (below KERNBASE), a pointer that \<open>argptr\<close> accepts for \<open>len\<close> bytes names only addresses below
  the size of the process, without wrap-around; and a string that \<open>argstr\<close> delivers is the memory from
  the address up to the first zero byte, which also lies there.
\<close>

theorem arguments_in_user_memory:
  assumes sz: "unat (usz p) \<le> 2 ^ 31" "len < 2 ^ 31"
  shows "(argptr n len p = Some a \<longrightarrow> 0 \<le> k \<longrightarrow> k < len \<longrightarrow> uint (a + word_of_int k) = uint a + k \<and> a + word_of_int k < usz p)
    \<and> (argstr n p = Some bs \<longrightarrow> (\<exists>a. argint n p = Some a \<and> unat a + length bs < unat (usz p)
           \<and> bs = map (\<lambda>k. umem p (a + word_of_nat k)) [0..<length bs] \<and> umem p (a + word_of_nat (length bs)) = 0))"
proof (intro conjI impI)
  assume a: "argptr n len p = Some a" "0 \<le> k" "k < len"
  have l: "a < usz p" "a + word_of_int len \<le> usz p" using a(1) by (auto simp: argptr_def split: option.splits if_splits)
  have "unat a < 2 ^ 31" using l(1) sz(1) unfolding word_less_nat_alt by linarith
  then have ua: "uint a < 2 ^ 31" by (simp only: unat_eq_nat_uint nat_less_numeral_power_cancel_iff)
  have up: "uint (a + word_of_int j) = uint a + j" if "0 \<le> j" "j < 2 ^ 31" for j
    using ua that by (simp add: uint_word_ariths uint_word_of_int)
  have "uint a + len \<le> uint (usz p)" using up [of len] a l(2) sz(2) by (simp add: word_le_def)
  then show "uint (a + word_of_int k) = uint a + k" "a + word_of_int k < usz p"
    using up [of k] a sz(2) by (simp_all add: word_less_def)
next
  assume "argstr n p = Some bs"
  then obtain a where a: "argint n p = Some a" "fetchstr_loop a p [] = Some bs"
    by (auto simp: argstr_def fetchstr_def split: option.splits if_splits)
  obtain m where m: "unat a + m < unat (usz p)" "bs = map (\<lambda>k. umem p (a + word_of_nat k)) [0..<m]" "umem p (a + word_of_nat m) = 0"
    using fetchstr_loop_run [OF a(2)] by auto
  then show "\<exists>a. argint n p = Some a \<and> unat a + length bs < unat (usz p)
           \<and> bs = map (\<lambda>k. umem p (a + word_of_nat k)) [0..<length bs] \<and> umem p (a + word_of_nat (length bs)) = 0"
    using a(1) by (intro exI [of _ a]) auto
qed

text \<open>A process whose first argument, 4, names three bytes.\<close>

definition ex_uproc :: uproc where
  "ex_uproc = \<lparr>usz = 0x1000, uesp = 8, umem = (\<lambda>a. if a = 12 then 4 else if a = 4 then 65 else 0)\<rparr>"

theorem arguments_in_user_memory_witness:
  "argptr 0 3 ex_uproc = Some 4 \<and> argstr 0 ex_uproc = Some [65] \<and> uint (4 + word_of_int 2 :: u32) = uint (4 :: u32) + 2
     \<and> (\<exists>a. argint 0 ex_uproc = Some a \<and> unat a + length [65 :: u8] < unat (usz ex_uproc))"
proof -
  have h: "unat (usz ex_uproc) \<le> 2 ^ 31" "(3 :: int) < 2 ^ 31" by (simp_all add: ex_uproc_def)
  have p: "argptr 0 3 ex_uproc = Some 4" "argstr 0 ex_uproc = Some [65]"
    by (simp_all add: argptr_def argstr_def argint_def fetchint_def fetchstr_def uword_def ex_uproc_def fetchstr_loop.simps)
  show ?thesis using arguments_in_user_memory [OF h, of 0 4 2 "[65]"] p by auto
qed

end
