(* ===== verification/XSh.thy ===== *)
theory XSh
  imports XArg
begin

text \<open>
  The command parser of the xv6 shell (xv6-public/sh.c, and \<open>strchr\<close> and \<open>gets\<close> of ulib.c).

  The functions of the code share the command line: a pointer into it is a position, \<open>es\<close> is the length
  of the line, and the character there is the terminating NUL. A command is a tree whose words are the
  positions \<open>(q, eq)\<close> of their first and past their last character; \<open>nulterminate\<close> puts a NUL at every
  \<open>eq\<close>. The functions that call each other (\<open>parseline\<close>, \<open>parsepipe\<close>, \<open>parseexec\<close>, \<open>parseblock\<close>) have a
  bound on the depth of their calls, \<open>NoFuel\<close> beyond it; the bound \<open>parsecmd\<close> uses is never reached
  (theory XShThms). Memory for the nodes of the tree is not exhausted.
\<close>

unbundle bit_operations_syntax

section \<open>Characters\<close>

abbreviation NULC :: char where "NULC \<equiv> CHR 0x00"

definition ch :: "string \<Rightarrow> nat \<Rightarrow> char" where
  "ch b s = (if s < length b then b ! s else NULC)"

definition whitespace :: string where
  "whitespace = [CHR 0x20, CHR 0x09, CHR 0x0D, CHR 0x0A, CHR 0x0B]"

definition symbols :: string where
  "symbols = ''<|>&;()''"

primrec x_strchr :: "string \<Rightarrow> char \<Rightarrow> bool" where
  "x_strchr [] c = False"
| "x_strchr (d # s) c = (if d = c then True else x_strchr s c)"

text \<open>\<open>gets\<close>: the line that is read, and the input that is left; \<open>i\<close> characters are in the buffer.\<close>

fun gets_loop :: "nat \<Rightarrow> nat \<Rightarrow> string \<Rightarrow> string \<times> string" where
  "gets_loop i nbuf [] = ([], [])"
| "gets_loop i nbuf (c # input) =
     (if \<not> i + 1 < nbuf then ([], c # input)
      else if c = CHR 0x0A \<or> c = CHR 0x0D then ([c], input)
      else let (line, rest) = gets_loop (i + 1) nbuf input in (c # line, rest))"

definition gets :: "nat \<Rightarrow> string \<Rightarrow> string \<times> string" where
  "gets nbuf input = gets_loop 0 nbuf input"

section \<open>Commands\<close>

definition SH_MAXARGS :: nat where "SH_MAXARGS = 10"
datatype 'w cmd =
    ExecCmd "'w list"
  | RedirCmd "'w cmd" 'w int int
  | PipeCmd "'w cmd" "'w cmd"
  | ListCmd "'w cmd" "'w cmd"
  | BackCmd "'w cmd"

type_synonym pcmd = "(nat \<times> nat) cmd"

text \<open>
  The arguments are entered into the node that \<open>execcmd\<close> made, while redirections are put around it.
\<close>

fun add_arg :: "'w \<Rightarrow> 'w cmd \<Rightarrow> 'w cmd" where
  "add_arg w (ExecCmd ws) = ExecCmd (ws @ [w])"
| "add_arg w (RedirCmd c f m d) = RedirCmd (add_arg w c) f m d"
| "add_arg w c = c"

datatype 'a presult = Parsed 'a nat | ShPanic string | NoFuel

definition sh_panic :: "string \<Rightarrow> 'a presult" where
  "sh_panic s = ShPanic (s @ [CHR 0x0A])"

fun pbind :: "'a presult \<Rightarrow> ('a \<Rightarrow> nat \<Rightarrow> 'b presult) \<Rightarrow> 'b presult" where
  "pbind (Parsed x s) k = k x s"
| "pbind (ShPanic m) k = ShPanic m"
| "pbind NoFuel k = NoFuel"

lemma pbind_cong [fundef_cong]:
  assumes "m = m'" "\<And>x s. m' = Parsed x s \<Longrightarrow> k x s = k' x s"
  shows "pbind m k = pbind m' k'"
  using assms by (cases m') auto

section \<open>Tokens\<close>

function skip_ws :: "string \<Rightarrow> nat \<Rightarrow> nat" where
  "skip_ws b s = (if s < length b \<and> x_strchr whitespace (ch b s) then skip_ws b (s + 1) else s)"
  by pat_completeness auto
termination by (relation "measure (\<lambda>(b, s). length b - s)") auto

declare skip_ws.simps [simp del]

function skip_word :: "string \<Rightarrow> nat \<Rightarrow> nat" where
  "skip_word b s =
     (if s < length b \<and> \<not> x_strchr whitespace (ch b s) \<and> \<not> x_strchr symbols (ch b s) then skip_word b (s + 1) else s)"
  by pat_completeness auto
termination by (relation "measure (\<lambda>(b, s). length b - s)") auto

declare skip_word.simps [simp del]

text \<open>The token, its first position and the one past its last, and the position after the blanks.\<close>

definition gettoken :: "string \<Rightarrow> nat \<Rightarrow> char \<times> nat \<times> nat \<times> nat" where
  "gettoken b s =
     (let s = skip_ws b s;
          q = s;
          c = ch b s;
          (ret, s) =
            (if c = NULC then (c, s)
             else if c = CHR ''|'' \<or> c = CHR ''('' \<or> c = CHR '')'' \<or> c = CHR '';'' \<or> c = CHR ''&'' \<or> c = CHR ''<''
             then (c, s + 1)
             else if c = CHR ''>''
             then if ch b (s + 1) = CHR ''>'' then (CHR ''+'', s + 2) else (c, s + 1)
             else (CHR ''a'', skip_word b s))
      in (ret, q, s, skip_ws b s))"

definition peek :: "string \<Rightarrow> string \<Rightarrow> nat \<Rightarrow> bool \<times> nat" where
  "peek b toks s = (let s = skip_ws b s in (ch b s \<noteq> NULC \<and> x_strchr toks (ch b s), s))"

lemma skip_ws_ge: "s \<le> skip_ws b s"
  by (induction b s rule: skip_ws.induct) (subst skip_ws.simps, auto)

lemma skip_word_ge: "s \<le> skip_word b s"
  by (induction b s rule: skip_word.induct) (subst skip_word.simps, auto)

lemma skip_ws_stop: "skip_ws b s < length b \<Longrightarrow> \<not> x_strchr whitespace (ch b (skip_ws b s))"
proof (induction b s rule: skip_ws.induct)
  case (1 b s)
  then show ?case
    by (cases "s < length b \<and> x_strchr whitespace (ch b s)") (auto simp: skip_ws.simps [of b s])
qed

lemma ch_pos: "ch b s \<noteq> NULC \<Longrightarrow> s < length b"
  by (auto simp: ch_def split: if_splits)

text \<open>A token that is not the end of the line has at least one character.\<close>

lemma skip_word_progress:
  assumes "s < length b" "\<not> x_strchr whitespace (ch b s)" "\<not> x_strchr symbols (ch b s)"
  shows "s < skip_word b s"
  using assms skip_word_ge [of "s + 1" b] by (subst skip_word.simps) simp

lemma gettoken_progress:
  assumes "gettoken b s = (tok, q, eq, s')" "tok \<noteq> NULC"
  shows "s \<le> q \<and> q < eq \<and> eq \<le> s' \<and> q < length b"
proof -
  let ?q = "skip_ws b s"
  have q: "q = ?q" "s' = skip_ws b eq" using assms(1) by (auto simp: gettoken_def Let_def split: prod.splits)
  have n: "ch b ?q \<noteq> NULC" using assms by (auto simp: gettoken_def Let_def split: if_splits)
  have l: "?q < length b" using ch_pos [OF n] .
  have "?q < eq"
  proof (cases "x_strchr symbols (ch b ?q)")
    case True
    then show ?thesis using assms(1) n by (auto simp: gettoken_def Let_def symbols_def split: if_splits)
  next
    case False
    then show ?thesis using assms(1) n skip_word_progress [OF l skip_ws_stop [OF l] False]
      by (auto simp: gettoken_def Let_def symbols_def split: if_splits)
  qed
  then show ?thesis using skip_ws_ge [of s b] skip_ws_ge [of eq b] l by (simp add: q)
qed

lemma peek_progress: "peek b toks s = (t, s') \<Longrightarrow> s \<le> s' \<and> (t \<longrightarrow> ch b s' \<noteq> NULC)"
  using skip_ws_ge [of s b] by (auto simp: peek_def Let_def)

text \<open>What \<open>peek\<close> has seen, \<open>gettoken\<close> takes.\<close>

lemma skip_ws_idem [simp]: "skip_ws b (skip_ws b s) = skip_ws b s"
  using skip_ws_stop [of b s] by (subst skip_ws.simps) auto

lemma peek_gettoken:
  assumes "peek b toks s = (True, s')" "gettoken b s' = (tok, q, eq, s'')"
  shows "s' < s'' \<and> s' < length b"
proof -
  have s': "s' = skip_ws b s" "ch b s' \<noteq> NULC" using assms(1) by (auto simp: peek_def Let_def)
  have "tok \<noteq> NULC" using assms(2) s' by (auto simp: gettoken_def Let_def split: if_splits)
  then show ?thesis using gettoken_progress [OF assms(2)] by auto
qed

section \<open>The parser\<close>

function parseredirs :: "string \<Rightarrow> pcmd \<Rightarrow> nat \<Rightarrow> pcmd presult" where
  "parseredirs b cmd s =
     (let (t, s) = peek b ''<>'' s
      in if t
         then let (tok, _, _, s) = gettoken b s;
                  (tok2, q, eq, s) = gettoken b s
              in if tok2 \<noteq> CHR ''a'' then sh_panic ''missing file for redirection''
                 else parseredirs b
                        (if tok = CHR ''<'' then RedirCmd cmd (q, eq) O_RDONLY 0
                         else if tok = CHR ''>'' then RedirCmd cmd (q, eq) (O_WRONLY OR O_CREATE) 1
                         else if tok = CHR ''+'' then RedirCmd cmd (q, eq) (O_WRONLY OR O_CREATE) 1
                         else cmd) s
         else Parsed cmd s)"
  by pat_completeness auto
termination
proof (relation "measure (\<lambda>(b, cmd, s). length b - s)", goal_cases)
  case 1 show ?case by simp
next
  case (2 b cmd s p t s1 g tok g' x g'' y s2 h tok2 h' q h'' eq s3)
  have p: "peek b ''<>'' s = (True, s1)" "gettoken b s1 = (tok, x, y, s2)" "gettoken b s2 = (tok2, q, eq, s3)"
    using 2 by simp_all
  have "tok2 = CHR ''a''" using 2 by simp
  then have "s2 \<le> s3" using gettoken_progress [OF p(3)] by auto
  then show ?case using peek_gettoken [OF p(1,2)] peek_progress [OF p(1)] by auto
qed

declare parseredirs.simps [simp del]

lemma parseredirs_ge: "parseredirs b cmd s = Parsed c s' \<Longrightarrow> s \<le> s'"
proof (induction b cmd s rule: parseredirs.induct)
  case (1 b cmd s)
  obtain t s1 where p: "peek b ''<>'' s = (t, s1)" by fastforce
  have s1: "s \<le> s1" using peek_progress [OF p] by simp
  show ?case
  proof (cases t)
    case False
    then show ?thesis using "1.prems" p s1 by (simp add: parseredirs.simps [of b cmd s])
  next
    case True
    obtain tok x y s2 where g: "gettoken b s1 = (tok, x, y, s2)" by (metis prod_cases4)
    obtain tok2 q eq s3 where h: "gettoken b s2 = (tok2, q, eq, s3)" by (metis prod_cases4)
    have a: "tok2 = CHR ''a''" using "1.prems" p g h True by (simp add: parseredirs.simps [of b cmd s] sh_panic_def split: if_splits)
    have "s3 \<le> s'" using "1.IH" [OF p [symmetric] refl True g [symmetric] refl refl refl h [symmetric] refl refl refl] "1.prems" p g h True a
      by (simp add: parseredirs.simps [of b cmd s])
    moreover have "s1 < s2" "s2 \<le> s3" using peek_gettoken [OF _ g] p True gettoken_progress [OF h] a by auto
    ultimately show ?thesis using s1 by simp
  qed
qed

text \<open>The loop of \<open>parseexec\<close>.\<close>

function parseargs :: "string \<Rightarrow> nat \<Rightarrow> pcmd \<Rightarrow> nat \<Rightarrow> pcmd presult" where
  "parseargs b argc ret s =
     (let (t, s) = peek b ''|)&;'' s
      in if t then Parsed ret s
         else let (tok, q, eq, s) = gettoken b s
              in if tok = NULC then Parsed ret s
                 else if tok \<noteq> CHR ''a'' then sh_panic ''syntax''
                 else let ret = add_arg (q, eq) ret;
                          argc = argc + 1
                      in if SH_MAXARGS \<le> argc then sh_panic ''too many args''
                         else pbind (parseredirs b ret s) (\<lambda>ret s. parseargs b argc ret s))"
  by pat_completeness auto
termination
  by (relation "measure (\<lambda>(b, argc, ret, s). SH_MAXARGS - argc)") auto

declare parseargs.simps [simp del]

text \<open>The loop of \<open>parseline\<close> over the ampersands.\<close>

function parseback :: "string \<Rightarrow> pcmd \<Rightarrow> nat \<Rightarrow> pcmd \<times> nat" where
  "parseback b cmd s =
     (let (t, s) = peek b ''&'' s
      in if t then let (_, _, _, s) = gettoken b s in parseback b (BackCmd cmd) s else (cmd, s))"
  by pat_completeness auto
termination
proof (relation "measure (\<lambda>(b, cmd, s). length b - s)", goal_cases)
  case 1 show ?case by simp
next
  case (2 b cmd s p t s1 g tok g' x g'' y s2)
  have p: "peek b ''&'' s = (True, s1)" "gettoken b s1 = (tok, x, y, s2)" using 2 by simp_all
  then show ?case using peek_gettoken [OF p] peek_progress [OF p(1)] by auto
qed

declare parseback.simps [simp del]

text \<open>The first argument bounds the depth of the calls.\<close>

fun parseline :: "nat \<Rightarrow> string \<Rightarrow> nat \<Rightarrow> pcmd presult"
  and parsepipe :: "nat \<Rightarrow> string \<Rightarrow> nat \<Rightarrow> pcmd presult"
  and parseexec :: "nat \<Rightarrow> string \<Rightarrow> nat \<Rightarrow> pcmd presult"
  and parseblock :: "nat \<Rightarrow> string \<Rightarrow> nat \<Rightarrow> pcmd presult" where
  "parseline 0 b s = NoFuel"
| "parseline (Suc n) b s =
     pbind (parsepipe n b s) (\<lambda>cmd s.
       let (cmd, s) = parseback b cmd s;
           (t, s) = peek b '';'' s
       in if t then let (_, _, _, s) = gettoken b s in pbind (parseline n b s) (\<lambda>right s. Parsed (ListCmd cmd right) s)
          else Parsed cmd s)"
| "parsepipe 0 b s = NoFuel"
| "parsepipe (Suc n) b s =
     pbind (parseexec n b s) (\<lambda>cmd s.
       let (t, s) = peek b ''|'' s
       in if t then let (_, _, _, s) = gettoken b s in pbind (parsepipe n b s) (\<lambda>right s. Parsed (PipeCmd cmd right) s)
          else Parsed cmd s)"
| "parseexec 0 b s = NoFuel"
| "parseexec (Suc n) b s =
     (let (t, s) = peek b ''('' s
      in if t then parseblock n b s
         else pbind (parseredirs b (ExecCmd []) s) (\<lambda>ret s. parseargs b 0 ret s))"
| "parseblock 0 b s = NoFuel"
| "parseblock (Suc n) b s =
     (let (t, s) = peek b ''('' s
      in if \<not> t then sh_panic ''parseblock''
         else let (_, _, _, s) = gettoken b s
              in pbind (parseline n b s) (\<lambda>cmd s.
                   let (t, s) = peek b '')'' s
                   in if \<not> t then sh_panic ''syntax - missing )''
                      else let (_, _, _, s) = gettoken b s in parseredirs b cmd s))"

primrec nulterminate :: "pcmd \<Rightarrow> string \<Rightarrow> string" where
  "nulterminate (ExecCmd ws) m = fold (\<lambda>(q, eq) m. m[eq := NULC]) ws m"
| "nulterminate (RedirCmd c f mode fd) m = (nulterminate c m)[snd f := NULC]"
| "nulterminate (PipeCmd l r) m = nulterminate r (nulterminate l m)"
| "nulterminate (ListCmd l r) m = nulterminate r (nulterminate l m)"
| "nulterminate (BackCmd c) m = nulterminate c m"

definition fuel_for :: "string \<Rightarrow> nat" where
  "fuel_for b = 4 * length b + 4"

text \<open>The result is the tree with the memory of the line, or what is printed before the shell exits.\<close>

datatype shcmd = Command pcmd string | Exits string | Diverges

definition parsecmd :: "string \<Rightarrow> shcmd" where
  "parsecmd buf =
     (let b = takeWhile (\<lambda>c. c \<noteq> NULC) buf
      in case parseline (fuel_for b) b 0 of
           Parsed cmd s \<Rightarrow>
             let (_, s) = peek b [] s
             in if s \<noteq> length b
                then Exits (''leftovers: '' @ drop s b @ [CHR 0x0A] @ ''syntax'' @ [CHR 0x0A])
                else Command cmd (nulterminate cmd (b @ [NULC]))
         | ShPanic msg \<Rightarrow> Exits msg
         | NoFuel \<Rightarrow> Diverges)"

end
