(* ===== verification/XShThms.thy ===== *)
theory XShThms
  imports XSh
begin

text \<open>
  The parser of the shell accepts what its printer writes. \<open>pr\<close> writes a command as a list of tokens, with
  parentheses where the grammar needs them; any layout of these tokens with blanks is parsed back to the
  command, and every command that the parser delivers, for any line, is one that can be written.
\<close>

section \<open>Tokens and their layout\<close>

datatype tok = TWord string | TSym char

definition blank :: "string \<Rightarrow> bool" where
  "blank w \<longleftrightarrow> set w \<subseteq> set whitespace"

definition word_ok :: "string \<Rightarrow> bool" where
  "word_ok x \<longleftrightarrow> x \<noteq> [] \<and> (\<forall>c \<in> set x. c \<noteq> NULC \<and> c \<notin> set whitespace \<and> c \<notin> set symbols)"

fun tok_text :: "tok \<Rightarrow> string" where
  "tok_text (TWord x) = x"
| "tok_text (TSym c) = [c]"

fun tok_code :: "tok \<Rightarrow> char" where
  "tok_code (TWord x) = CHR ''a''"
| "tok_code (TSym c) = c"

fun tok_ok :: "tok \<Rightarrow> bool" where
  "tok_ok (TWord x) = word_ok x"
| "tok_ok (TSym c) = (c \<in> set symbols)"

text \<open>Two words, or two greater-than signs, need a blank between them.\<close>

fun glued :: "tok \<Rightarrow> tok \<Rightarrow> bool" where
  "glued (TWord x) (TWord y) = True"
| "glued (TSym c) (TSym d) = (c = CHR ''>'' \<and> d = CHR ''>'')"
| "glued x y = False"

fun lay_text :: "(tok \<times> string) list \<Rightarrow> string" where
  "lay_text [] = []"
| "lay_text ((t, w) # ts) = tok_text t @ w @ lay_text ts"

fun lay_ok :: "(tok \<times> string) list \<Rightarrow> bool" where
  "lay_ok [] = True"
| "lay_ok ((t, w) # ts) \<longleftrightarrow> tok_ok t \<and> blank w \<and> (w = [] \<longrightarrow> (case ts of [] \<Rightarrow> True | (u, _) # _ \<Rightarrow> \<not> glued t u)) \<and> lay_ok ts"

text \<open>What is left of the line from a position on: blanks and tokens, or tokens at once.\<close>

definition rd :: "string \<Rightarrow> nat \<Rightarrow> (tok \<times> string) list \<Rightarrow> bool" where
  "rd b s ts \<longleftrightarrow> (\<exists>w. blank w \<and> drop s b = w @ lay_text ts) \<and> lay_ok ts \<and> s \<le> length b"

definition rdn :: "string \<Rightarrow> nat \<Rightarrow> (tok \<times> string) list \<Rightarrow> bool" where
  "rdn b s ts \<longleftrightarrow> drop s b = lay_text ts \<and> lay_ok ts \<and> s \<le> length b"

fun sees :: "string \<Rightarrow> (tok \<times> string) list \<Rightarrow> bool" where
  "sees cs ((TSym c, w) # ts) = (c \<in> set cs)"
| "sees cs ts = False"

definition word_at :: "string \<Rightarrow> nat \<times> nat \<Rightarrow> string" where
  "word_at b = (\<lambda>(q, eq). take (eq - q) (drop q b))"

lemma x_strchr_in: "x_strchr cs c \<longleftrightarrow> c \<in> set cs"
  by (induction cs) auto

lemma blank_simps [simp]: "blank []" "blank (c # w) \<longleftrightarrow> c \<in> set whitespace \<and> blank w"
  by (auto simp: blank_def)

lemma rdn_rd: "rdn b s ts \<Longrightarrow> rd b s ts"
  unfolding rd_def rdn_def by (metis append_Nil blank_simps(1))

lemma ch_drop: "drop s b = c # r \<Longrightarrow> ch b s = c \<and> s < length b \<and> drop (s + 1) b = r"
  by (metis Cons_nth_drop_Suc Suc_eq_plus1 ch_def drop_all linorder_not_less list.distinct(1) list.inject)

lemma ch_end: "drop s b = [] \<Longrightarrow> ch b s = NULC \<and> length b \<le> s"
  by (simp add: ch_def)

lemma skip_ws_run:
  "blank w \<Longrightarrow> drop s b = w @ r \<Longrightarrow> r = [] \<or> hd r \<notin> set whitespace \<Longrightarrow> skip_ws b s = s + length w"
proof (induction w arbitrary: s)
  case Nil
  then show ?case by (cases r) (auto simp: skip_ws.simps [of b s] x_strchr_in dest: ch_drop ch_end)
next
  case (Cons c w)
  then have d: "ch b s = c" "s < length b" "drop (s + 1) b = w @ r" using ch_drop [of s b c "w @ r"] by auto
  have "skip_ws b s = skip_ws b (s + 1)" using Cons.prems(1) d by (subst skip_ws.simps) (simp add: x_strchr_in)
  then show ?case using Cons.IH [OF _ d(3)] Cons.prems by simp
qed

lemma skip_word_run:
  "\<forall>c \<in> set x. c \<notin> set whitespace \<and> c \<notin> set symbols \<Longrightarrow> drop s b = x @ r \<Longrightarrow>
   r = [] \<or> hd r \<in> set whitespace \<or> hd r \<in> set symbols \<Longrightarrow> skip_word b s = s + length x"
proof (induction x arbitrary: s)
  case Nil
  then show ?case by (cases r) (auto simp: skip_word.simps [of b s] x_strchr_in dest: ch_drop ch_end)
next
  case (Cons c x)
  then have d: "ch b s = c" "s < length b" "drop (s + 1) b = x @ r" using ch_drop [of s b c "x @ r"] by auto
  have "skip_word b s = skip_word b (s + 1)" using Cons.prems(1) d by (subst skip_word.simps) (simp add: x_strchr_in)
  then show ?case using Cons.IH [OF _ d(3)] Cons.prems by simp
qed

lemma tok_text_first:
  assumes "tok_ok t"
  shows "\<exists>c r. tok_text t = c # r \<and> c \<noteq> NULC \<and> c \<notin> set whitespace \<and> (\<forall>d. t = TSym d \<longrightarrow> c = d) \<and> ((\<forall>d. t \<noteq> TSym d) \<longrightarrow> c \<notin> set symbols)"
  using assms by (cases t; cases "tok_text t") (auto simp: word_ok_def symbols_def whitespace_def)

lemma lay_text_first: "lay_ok ts \<Longrightarrow> lay_text ts = [] \<and> ts = [] \<or> lay_text ts \<noteq> [] \<and> hd (lay_text ts) \<notin> set whitespace"
  using tok_text_first by (cases ts rule: lay_ok.cases) fastforce+

lemma rd_skip:
  assumes "rd b s ts"
  shows "rdn b (skip_ws b s) ts" "s \<le> skip_ws b s"
proof -
  obtain w where w: "blank w" "drop s b = w @ lay_text ts" "lay_ok ts" "s \<le> length b" using assms by (auto simp: rd_def)
  have d: "drop (s + length w) b = lay_text ts" using w(2) by (metis add.commute append_eq_conv_conj drop_drop)
  have l: "s + length w \<le> length b" using arg_cong [OF w(2), of length] w(4) by simp
  have "skip_ws b s = s + length w" using skip_ws_run [OF w(1,2)] lay_text_first [OF w(3)] by auto
  then show "rdn b (skip_ws b s) ts" "s \<le> skip_ws b s" using w(3) d l by (simp_all add: rdn_def)
qed

lemma rdn_skip: "rdn b s ts \<Longrightarrow> skip_ws b s = s"
  using skip_ws_run [of "[]" s b "lay_text ts"] lay_text_first [of ts] by (auto simp: rdn_def)

lemma rdn_ch: "rdn b s ts \<Longrightarrow> ch b s = (case ts of [] \<Rightarrow> NULC | (t, w) # _ \<Rightarrow> hd (tok_text t))"
proof (cases ts rule: lay_ok.cases)
  case (2 t w ts')
  moreover assume "rdn b s ts"
  ultimately show ?thesis using tok_text_first [of t] ch_drop [of s b] by (auto simp: rdn_def)
qed (auto simp: rdn_def ch_def)

text \<open>What the two functions of the lexer see.\<close>

lemma peek_run:
  assumes "rd b s ts" "set cs \<subseteq> set symbols"
  shows "\<exists>s'. peek b cs s = (sees cs ts, s') \<and> rdn b s' ts \<and> s \<le> s'"
proof -
  let ?s = "skip_ws b s"
  have n: "rdn b ?s ts" "s \<le> ?s" using rd_skip [OF assms(1)] by auto
  have "(ch b ?s \<noteq> NULC \<and> ch b ?s \<in> set cs) = sees cs ts"
  proof (cases ts rule: lay_ok.cases)
    case 1
    then show ?thesis using rdn_ch [OF n(1)] by simp
  next
    case (2 t w ts')
    then have "tok_ok t" using n(1) by (simp add: rdn_def)
    then show ?thesis using rdn_ch [OF n(1)] 2 assms(2) tok_text_first [of t] by (cases t) auto
  qed
  then show ?thesis using n by (simp add: peek_def Let_def x_strchr_in)
qed

lemma gettoken_run:
  assumes "rdn b s ((t, w) # ts)"
  shows "\<exists>s'. gettoken b s = (tok_code t, s, s + length (tok_text t), s') \<and> rdn b s' ts \<and> s + length (tok_text t) \<le> s' \<and> s < s'"
proof -
  have d: "drop s b = tok_text t @ w @ lay_text ts" "tok_ok t" "blank w" "lay_ok ts" and g: "w = [] \<Longrightarrow> ts = [] \<or> \<not> glued t (fst (hd ts))"
    using assms by (auto simp: rdn_def split: list.splits)
  obtain c r where c: "tok_text t = c # r" "c \<noteq> NULC" "\<forall>d. t = TSym d \<longrightarrow> c = d" "(\<forall>d. t \<noteq> TSym d) \<longrightarrow> c \<notin> set symbols"
    using tok_text_first [OF d(2)] by blast
  have ch: "ch b s = c" using rdn_ch [OF assms] c by simp
  let ?e = "s + length (tok_text t)"
  have de: "drop ?e b = w @ lay_text ts" using d(1) by (metis add.commute append_eq_conv_conj drop_drop)
  have sk: "skip_ws b ?e = ?e + length w" using skip_ws_run [OF d(3) de] lay_text_first [OF d(4)] by auto
  have "drop (?e + length w) b = lay_text ts" using de by (metis add.commute append_eq_conv_conj drop_drop)
  moreover have "?e + length w \<le> length b" using arg_cong [OF d(1), of length] conjunct2 [OF conjunct2 [OF assms [unfolded rdn_def]]] by simp
  ultimately have n: "rdn b (?e + length w) ts" using d(4) by (simp add: rdn_def)
  have first: "hd (w @ lay_text ts) \<in> set whitespace \<or> w = []" if "w \<noteq> []" using d(3) that by (cases w) auto
  have "gettoken b s = (tok_code t, s, ?e, skip_ws b ?e)"
  proof (cases t)
    case (TSym a)
    have "ch b (s + 1) \<noteq> CHR ''>''" if "a = CHR ''>''"
    proof (cases "w @ lay_text ts")
      case Nil
      then show ?thesis using ch_end [of "s + 1" b] de TSym by simp
    next
      case (Cons x xs)
      have "ch b (s + 1) = x" using ch_drop [of "s + 1" b x xs] de TSym Cons by simp
      moreover have "x \<noteq> CHR ''>''"
      proof (cases w)
        case Nil
        then obtain u v ts' where u: "ts = (u, v) # ts'" using Cons by (cases ts) auto
        then have "tok_ok u" "\<not> glued t u" using d(4) g Nil by auto
        then show ?thesis using Cons Nil u TSym that tok_text_first [of u] by (cases u) (auto simp: symbols_def)
      qed (use Cons d(3) in \<open>auto simp: whitespace_def\<close>)
      ultimately show ?thesis by simp
    qed
    then show ?thesis using ch c d(2) TSym rdn_skip [OF assms]
      by (auto simp: gettoken_def Let_def symbols_def)
  next
    case (TWord x)
    have "hd (lay_text ts) \<in> set symbols" if "w = []" "ts \<noteq> []"
    proof -
      obtain u v ts' where u: "ts = (u, v) # ts'" using \<open>ts \<noteq> []\<close> by (cases ts) auto
      then show ?thesis using d(4) g that TWord by (cases u) auto
    qed
    then have "skip_word b s = s + length x"
      using d(1,2,3) TWord by (intro skip_word_run [of x s b "w @ lay_text ts"]) (cases w; cases ts; auto simp: word_ok_def)+
    moreover have "c \<notin> set symbols" using c TWord by simp
    ultimately show ?thesis using ch c TWord rdn_skip [OF assms] by (auto simp: gettoken_def Let_def symbols_def)
  qed
  then show ?thesis using sk n c(1) by auto
qed

section \<open>Printing\<close>

definition mode_ok :: "int \<Rightarrow> int \<Rightarrow> bool" where
  "mode_ok m d \<longleftrightarrow> m = O_RDONLY \<and> d = 0 \<or> m = (O_WRONLY OR O_CREATE) \<and> d = 1"

primrec wf_cmd :: "string cmd \<Rightarrow> bool" where
  "wf_cmd (ExecCmd ws) \<longleftrightarrow> length ws < SH_MAXARGS \<and> list_all word_ok ws"
| "wf_cmd (RedirCmd c f m d) \<longleftrightarrow> wf_cmd c \<and> word_ok f \<and> mode_ok m d"
| "wf_cmd (PipeCmd l r) \<longleftrightarrow> wf_cmd l \<and> wf_cmd r"
| "wf_cmd (ListCmd l r) \<longleftrightarrow> wf_cmd l \<and> wf_cmd r"
| "wf_cmd (BackCmd c) \<longleftrightarrow> wf_cmd c"

definition redir_toks :: "string \<times> int \<times> int \<Rightarrow> tok list" where
  "redir_toks = (\<lambda>(f, m, d). [TSym (if d = 0 then CHR ''<'' else CHR ''>''), TWord f])"

definition paren :: "bool \<Rightarrow> tok list \<Rightarrow> tok list" where
  "paren p ts = (if p then [TSym (CHR ''('')] @ ts @ [TSym (CHR '')'')] else ts)"

text \<open>The level is 0 for a line, 1 before an ampersand, 2 for a pipe line, 3 for one command of it.\<close>

primrec pr :: "string cmd \<Rightarrow> nat \<Rightarrow> tok list" where
  "pr (ExecCmd ws) l = map TWord ws"
| "pr (RedirCmd c f m d) l = pr c 3 @ redir_toks (f, m, d)"
| "pr (PipeCmd c e) l = paren (2 < l) (pr c 3 @ [TSym (CHR ''|'')] @ pr e 2)"
| "pr (ListCmd c e) l = paren (0 < l) (pr c 1 @ [TSym (CHR '';'')] @ pr e 0)"
| "pr (BackCmd c) l = paren (1 < l) (pr c 1 @ [TSym (CHR ''&'')])"

text \<open>A command under its redirections, and under its ampersands.\<close>

definition wrap :: "('w \<times> int \<times> int) list \<Rightarrow> 'w cmd \<Rightarrow> 'w cmd" where
  "wrap rs c = fold (\<lambda>(f, m, d) c. RedirCmd c f m d) rs c"

fun is_redir :: "'w cmd \<Rightarrow> bool" where
  "is_redir (RedirCmd c f m d) = True"
| "is_redir c = False"

fun is_back :: "'w cmd \<Rightarrow> bool" where
  "is_back (BackCmd c) = True"
| "is_back c = False"

lemma wrap_simps [simp]: "wrap [] c = c" "wrap (rs @ [(f, m, d)]) c = RedirCmd (wrap rs c) f m d"
  "wrap ((f, m, d) # rs) c = wrap rs (RedirCmd c f m d)"
  by (simp_all add: wrap_def)

lemma unredir:
  "\<exists>rs e. c = wrap rs e \<and> \<not> is_redir e \<and> pr c 3 = pr e 3 @ concat (map redir_toks rs) \<and> size e + length rs \<le> size c
     \<and> (wf_cmd c \<longrightarrow> wf_cmd e \<and> (\<forall>(f, m, d) \<in> set rs. word_ok f \<and> mode_ok m d))"
proof (induction c)
  case (RedirCmd c f m d)
  then obtain rs e where IH: "c = wrap rs e" "\<not> is_redir e" "pr c 3 = pr e 3 @ concat (map redir_toks rs)" "size e + length rs \<le> size c"
    "wf_cmd c \<longrightarrow> wf_cmd e \<and> (\<forall>(f, m, d) \<in> set rs. word_ok f \<and> mode_ok m d)" by blast
  have "RedirCmd c f m d = wrap (rs @ [(f, m, d)]) e" using IH(1) by simp
  moreover have "pr (RedirCmd c f m d) 3 = pr e 3 @ concat (map redir_toks (rs @ [(f, m, d)]))" using IH(3) by simp
  moreover have "size e + length (rs @ [(f, m, d)]) \<le> size (RedirCmd c f m d)" using IH(4) by simp
  moreover have "wf_cmd (RedirCmd c f m d) \<longrightarrow> wf_cmd e \<and> (\<forall>(f, m, d) \<in> set (rs @ [(f, m, d)]). word_ok f \<and> mode_ok m d)"
    using IH(5) by auto
  ultimately show ?case using IH(2) by blast
qed (rule exI [of _ "[]"], force)+

lemma unback:
  "\<exists>k e. c = (BackCmd ^^ k) e \<and> \<not> is_back e \<and> pr c 1 = pr e 1 @ replicate k (TSym (CHR ''&'')) \<and> size e + k \<le> size c
     \<and> (wf_cmd c \<longrightarrow> wf_cmd e)"
proof (induction c)
  case (BackCmd c)
  then obtain k e where IH: "c = (BackCmd ^^ k) e" "\<not> is_back e" "pr c 1 = pr e 1 @ replicate k (TSym (CHR ''&''))" "size e + k \<le> size c"
    "wf_cmd c \<longrightarrow> wf_cmd e" by blast
  have "BackCmd c = (BackCmd ^^ Suc k) e" using IH(1) by simp
  moreover have "pr (BackCmd c) 1 = pr e 1 @ replicate (Suc k) (TSym (CHR ''&''))"
    using IH(3) by (simp add: paren_def replicate_append_same)
  moreover have "size e + Suc k \<le> size (BackCmd c)" using IH(4) by simp
  ultimately show ?case using IH(2,5) by (metis wf_cmd.simps(5))
qed (rule exI [of _ 0], force)+

section \<open>The parser reads what is printed\<close>

abbreviation strs :: "string \<Rightarrow> pcmd \<Rightarrow> string cmd" where
  "strs b \<equiv> map_cmd (word_at b)"

lemma symbols_sub: "set ''<>'' \<subseteq> set symbols" "set ''|)&;'' \<subseteq> set symbols" "set ''&'' \<subseteq> set symbols"
  "set '';'' \<subseteq> set symbols" "set ''|'' \<subseteq> set symbols" "set ''('' \<subseteq> set symbols" "set '')'' \<subseteq> set symbols"
  by (auto simp: symbols_def)

lemma sees_disj: "us = [] \<or> sees cs us \<Longrightarrow> set cs \<inter> set ds = {} \<Longrightarrow> \<not> sees ds us"
  by (cases "(cs, us)" rule: sees.cases) auto

lemma sees_mono: "us = [] \<or> sees cs us \<Longrightarrow> set cs \<subseteq> set ds \<Longrightarrow> us = [] \<or> sees ds us"
  by (cases "(cs, us)" rule: sees.cases) auto

lemma rdn_word: "rdn b s ((TWord x, w) # ts) \<Longrightarrow> word_at b (s, s + length x) = x"
  by (simp add: rdn_def word_at_def)

lemma strs_add_arg: "strs b (add_arg w t) = add_arg (word_at b w) (strs b t)"
  by (induction w t rule: add_arg.induct) auto

lemma parseredirs_run:
  assumes "map fst ts = concat (map redir_toks rs)" "\<forall>(f, m, d) \<in> set rs. mode_ok m d" "rd b s (ts @ us)" "\<not> sees ''<>'' us"
  shows "\<exists>t' s'. parseredirs b t s = Parsed t' s' \<and> strs b t' = wrap rs (strs b t) \<and> rdn b s' us \<and> s \<le> s'"
  using assms
proof (induction rs arbitrary: ts s t)
  case Nil
  then obtain s' where "peek b ''<>'' s = (False, s')" "rdn b s' us" "s \<le> s'" using peek_run [OF _ symbols_sub(1), of b s us] by auto
  then show ?case by (subst parseredirs.simps) auto
next
  case (Cons r rs)
  obtain f m d where r: "r = (f, m, d)" by (cases r)
  let ?c = "if d = 0 then CHR ''<'' else CHR ''>''"
  obtain w w' ts' where ts: "ts = (TSym ?c, w) # (TWord f, w') # ts'" "map fst ts' = concat (map redir_toks rs)"
    using Cons.prems(1) by (auto simp: r redir_toks_def map_eq_Cons_conv)
  obtain s1 where s1: "peek b ''<>'' s = (True, s1)" "rdn b s1 (ts @ us)" "s \<le> s1"
    using peek_run [OF Cons.prems(3) symbols_sub(1)] ts(1) by auto
  obtain s2 where s2: "gettoken b s1 = (?c, s1, s1 + 1, s2)" "rdn b s2 ((TWord f, w') # ts' @ us)" "s1 < s2"
    using gettoken_run [of b s1 "TSym ?c" w] s1(2) ts(1) by auto
  obtain s3 where s3: "gettoken b s2 = (CHR ''a'', s2, s2 + length f, s3)" "rdn b s3 (ts' @ us)" "s2 < s3"
    using gettoken_run [of b s2 "TWord f" w'] s2(2) by auto
  let ?t = "RedirCmd t (s2, s2 + length f) m d"
  obtain t' s' where IH: "parseredirs b ?t s3 = Parsed t' s'" "strs b t' = wrap rs (strs b ?t)" "rdn b s' us" "s3 \<le> s'"
    using Cons.IH [OF ts(2) _ rdn_rd [OF s3(2)] Cons.prems(4), of ?t] Cons.prems(2) by auto
  have "parseredirs b t s = parseredirs b ?t s3"
    using Cons.prems(2) r s1(1) s2(1) s3(1) by (subst parseredirs.simps) (auto simp: mode_ok_def)
  then show ?case using IH r s1(3) s2(3) s3(3) rdn_word [OF s2(2)] by auto
qed

lemma parseargs_run:
  assumes "map fst ts = map TWord xs @ (if xs = [] then [] else concat (map redir_toks rs))" "\<forall>(f, m, d) \<in> set rs. mode_ok m d"
    "rd b s (ts @ us)" "us = [] \<or> sees ''|)&;'' us" "argc + length xs < SH_MAXARGS" "xs \<noteq> [] \<longrightarrow> strs b t = ExecCmd ys"
  shows "\<exists>t' s'. parseargs b argc t s = Parsed t' s' \<and> strs b t' = (if xs = [] then strs b t else wrap rs (ExecCmd (ys @ xs))) \<and> rdn b s' us \<and> s \<le> s'"
  using assms
proof (induction xs arbitrary: ts s t argc ys)
  case Nil
  obtain s1 where s1: "peek b ''|)&;'' s = (sees ''|)&;'' us, s1)" "rdn b s1 us" "s \<le> s1"
    using peek_run [OF _ symbols_sub(2), of b s us] Nil.prems(1,3) by auto
  show ?case
  proof (cases "us = []")
    case False
    then show ?thesis using s1 Nil.prems(4) by (subst parseargs.simps) auto
  next
    case True
    then have "ch b s1 = NULC" "skip_ws b s1 = s1" using rdn_ch [OF s1(2)] rdn_skip [OF s1(2)] by auto
    then have "gettoken b s1 = (NULC, s1, s1, s1)" by (simp add: gettoken_def Let_def)
    then show ?thesis using s1 True by (subst parseargs.simps) auto
  qed
next
  case (Cons x xs)
  let ?R = "concat (map redir_toks rs)"
  obtain w ts' where ts: "ts = (TWord x, w) # ts'" "map fst ts' = map TWord xs @ ?R"
    using Cons.prems(1) by (auto simp: map_eq_Cons_conv)
  obtain s1 where s1: "peek b ''|)&;'' s = (False, s1)" "rdn b s1 (ts @ us)" "s \<le> s1"
    using peek_run [OF Cons.prems(3) symbols_sub(2)] ts(1) by auto
  obtain s2 where s2: "gettoken b s1 = (CHR ''a'', s1, s1 + length x, s2)" "rdn b s2 (ts' @ us)" "s1 < s2"
    using gettoken_run [of b s1 "TWord x" w "ts' @ us"] s1(2) ts(1) by auto
  let ?t = "add_arg (s1, s1 + length x) t"
  have t: "strs b ?t = ExecCmd (ys @ [x])"
    using Cons.prems(6) rdn_word [of b s1 x w "ts' @ us"] s1(2) ts(1) by (simp add: strs_add_arg)
  have eq: "parseargs b argc t s = pbind (parseredirs b ?t s2) (\<lambda>ret s. parseargs b (argc + 1) ret s)"
    using s1(1) s2(1) Cons.prems(5) by (subst parseargs.simps) (auto simp: Let_def)
  show ?case
  proof (cases "xs = []")
    case True
    have us: "\<not> sees ''<>'' us" using sees_disj [OF Cons.prems(4)] by simp
    obtain t2 s3 where t2: "parseredirs b ?t s2 = Parsed t2 s3" "strs b t2 = wrap rs (strs b ?t)" "rdn b s3 us" "s2 \<le> s3"
      using parseredirs_run [OF _ Cons.prems(2) rdn_rd [OF s2(2)] us, of ?t] ts(2) True by auto
    obtain t3 s4 where "parseargs b (argc + 1) t2 s3 = Parsed t3 s4" "strs b t3 = strs b t2" "rdn b s4 us" "s3 \<le> s4"
      using Cons.IH [of "[]" s3 "argc + 1" t2] Cons.prems(2,4,5) True rdn_rd [OF t2(3)] by auto
    then show ?thesis using eq t2 t s1(3) s2(3) True by auto
  next
    case False
    then obtain y ys' where "xs = y # ys'" by (cases xs) auto
    then have ns: "\<not> sees ''<>'' (ts' @ us)" using ts(2) by (auto simp: map_eq_Cons_conv)
    obtain t2 s3 where t2: "parseredirs b ?t s2 = Parsed t2 s3" "strs b t2 = strs b ?t" "rdn b s3 (ts' @ us)" "s2 \<le> s3"
      using parseredirs_run [of "[]" "[]" b s2 "ts' @ us" ?t] ns rdn_rd [OF s2(2)] by auto
    obtain t3 s4 where "parseargs b (argc + 1) t2 s3 = Parsed t3 s4" "strs b t3 = wrap rs (ExecCmd ((ys @ [x]) @ xs))" "rdn b s4 us" "s3 \<le> s4"
      using Cons.IH [of ts' s3 "argc + 1" t2 "ys @ [x]"] ts(2) Cons.prems(2,4,5) False t t2(2) rdn_rd [OF t2(3)] by auto
    then show ?thesis using eq t2 t s1(3) s2(3) by auto
  qed
qed

lemma parseback_run:
  assumes "map fst ts = replicate k (TSym (CHR ''&''))" "rd b s (ts @ us)" "\<not> sees ''&'' us"
  shows "\<exists>t' s'. parseback b t s = (t', s') \<and> strs b t' = (BackCmd ^^ k) (strs b t) \<and> rdn b s' us \<and> s \<le> s'"
  using assms
proof (induction k arbitrary: ts s t)
  case 0
  then obtain s' where "peek b ''&'' s = (False, s')" "rdn b s' us" "s \<le> s'" using peek_run [OF _ symbols_sub(3), of b s us] by auto
  then show ?case by (subst parseback.simps) auto
next
  case (Suc k)
  obtain w ts' where ts: "ts = (TSym (CHR ''&''), w) # ts'" "map fst ts' = replicate k (TSym (CHR ''&''))"
    using Suc.prems(1) by (auto simp: map_eq_Cons_conv)
  obtain s1 where s1: "peek b ''&'' s = (True, s1)" "rdn b s1 (ts @ us)" "s \<le> s1"
    using peek_run [OF Suc.prems(2) symbols_sub(3)] ts(1) by auto
  obtain s2 where s2: "gettoken b s1 = (CHR ''&'', s1, s1 + 1, s2)" "rdn b s2 (ts' @ us)" "s1 < s2"
    using gettoken_run [of b s1 "TSym (CHR ''&'')" w "ts' @ us"] s1(2) ts(1) by auto
  obtain t' s' where "parseback b (BackCmd t) s2 = (t', s')" "strs b t' = (BackCmd ^^ k) (BackCmd (strs b t))" "rdn b s' us" "s2 \<le> s'"
    using Suc.IH [OF ts(2) rdn_rd [OF s2(2)] Suc.prems(3), of "BackCmd t"] by auto
  moreover have "parseback b t s = parseback b (BackCmd t) s2" using s1(1) s2(1) by (subst parseback.simps) auto
  ultimately show ?case using s1(3) s2(3) by (auto simp: funpow_swap1)
qed

text \<open>
  The three levels of the grammar: a parser of the level reads a command that is printed at it, if what
  follows cannot continue the command.
\<close>

definition reads :: "nat \<Rightarrow> string \<Rightarrow> (nat \<Rightarrow> string \<Rightarrow> nat \<Rightarrow> pcmd presult) \<Rightarrow> tok list \<Rightarrow> string cmd \<Rightarrow> bool" where
  "reads k follow p toks c \<longleftrightarrow>
     (\<forall>n b s ts us. map fst ts = toks \<longrightarrow> rd b s (ts @ us) \<longrightarrow> (us = [] \<or> sees follow us) \<longrightarrow> 4 * (length b - s) + k \<le> n \<longrightarrow>
        (\<exists>t s'. p n b s = Parsed t s' \<and> strs b t = c \<and> rdn b s' us \<and> s \<le> s'))"

lemma readsD:
  assumes "reads k follow p toks c" "map fst ts = toks" "rd b s (ts @ us)" "us = [] \<or> sees follow us" "4 * (length b - s) + k \<le> n"
  shows "\<exists>t s'. p n b s = Parsed t s' \<and> strs b t = c \<and> rdn b s' us \<and> s \<le> s'"
  using assms unfolding reads_def by blast

abbreviation "reads_line \<equiv> reads 4 '')'' parseline"
abbreviation "reads_pipe \<equiv> reads 3 '')&;'' parsepipe"
abbreviation "reads_exec \<equiv> reads 2 ''|)&;'' parseexec"

text \<open>A symbol that is seen and taken.\<close>

lemma peek_idem: "peek b cs s = (t, s1) \<Longrightarrow> peek b cs s1 = (t, s1)"
  by (auto simp: peek_def Let_def)

lemma take_sym:
  assumes "rd b s ((TSym c, w) # us)" "c \<in> set cs" "set cs \<subseteq> set symbols"
  shows "\<exists>s1 s2. peek b cs s = (True, s1) \<and> gettoken b s1 = (c, s1, s1 + 1, s2) \<and> rdn b s2 us \<and> s < s2 \<and> s < length b \<and> s1 < s2 \<and> s \<le> s1"
proof -
  obtain s1 where s1: "peek b cs s = (True, s1)" "rdn b s1 ((TSym c, w) # us)" "s \<le> s1"
    using peek_run [OF assms(1,3)] assms(2) by auto
  obtain s2 where s2: "gettoken b s1 = (c, s1, s1 + 1, s2)" "rdn b s2 us" "s1 < s2"
    using gettoken_run [OF s1(2)] by auto
  have "s1 < length b" using peek_gettoken [OF s1(1) s2(1)] by simp
  then show ?thesis using s1 s2 by auto
qed

lemma reads_exec_words:
  assumes "list_all word_ok xs" "length xs < SH_MAXARGS" "\<forall>(f, m, d) \<in> set rs. mode_ok m d"
  shows "reads_exec (map TWord xs @ concat (map redir_toks rs)) (wrap rs (ExecCmd xs))"
  unfolding reads_def
proof (intro allI impI)
  fix n b s ts us
  assume ts: "map fst ts = map TWord xs @ concat (map redir_toks rs)" and r: "rd b s (ts @ us)" and us: "us = [] \<or> sees ''|)&;'' us"
    and n: "4 * (length b - s) + 2 \<le> n"
  obtain n' where n': "n = Suc n'" using n by (cases n) auto
  have u1: "\<not> sees ''<>'' us" "\<not> sees ''('' us" using sees_disj [OF us] by auto
  have no_paren: "\<not> sees ''('' (ts @ us)"
    using ts u1(2) by (cases xs; cases rs) (auto simp: map_eq_Cons_conv redir_toks_def split: prod.splits if_splits)
  obtain s1 where s1: "peek b ''('' s = (False, s1)" "rdn b s1 (ts @ us)" "s \<le> s1"
    using peek_run [OF r symbols_sub(6)] no_paren by auto
  have eq: "parseexec n b s = pbind (parseredirs b (ExecCmd []) s1) (\<lambda>ret s. parseargs b 0 ret s)" using s1(1) n' by simp
  show "\<exists>t s'. parseexec n b s = Parsed t s' \<and> strs b t = wrap rs (ExecCmd xs) \<and> rdn b s' us \<and> s \<le> s'"
  proof (cases "xs = []")
    case True
    obtain t2 s2 where t2: "parseredirs b (ExecCmd []) s1 = Parsed t2 s2" "strs b t2 = wrap rs (ExecCmd [])" "rdn b s2 us" "s1 \<le> s2"
      using parseredirs_run [OF _ assms(3) rdn_rd [OF s1(2)] u1(1), of "ExecCmd []"] ts True by auto
    obtain t3 s3 where "parseargs b 0 t2 s2 = Parsed t3 s3" "strs b t3 = strs b t2" "rdn b s3 us" "s2 \<le> s3"
      using parseargs_run [of "[]" "[]" rs b s2 us 0 t2] assms(2,3) us rdn_rd [OF t2(3)] True by auto
    then show ?thesis using eq t2 s1(3) True by auto
  next
    case False
    then have ns: "\<not> sees ''<>'' (ts @ us)" using ts by (cases xs) (auto simp: map_eq_Cons_conv)
    obtain t2 s2 where t2: "parseredirs b (ExecCmd []) s1 = Parsed t2 s2" "strs b t2 = ExecCmd []" "rdn b s2 (ts @ us)" "s1 \<le> s2"
      using parseredirs_run [of "[]" "[]" b s1 "ts @ us" "ExecCmd []"] ns rdn_rd [OF s1(2)] by auto
    obtain t3 s3 where "parseargs b 0 t2 s2 = Parsed t3 s3" "strs b t3 = wrap rs (ExecCmd xs)" "rdn b s3 us" "s2 \<le> s3"
      using parseargs_run [of ts xs rs b s2 us 0 t2 "[]"] ts assms(2,3) us rdn_rd [OF t2(3)] False t2(2) by auto
    then show ?thesis using eq t2 s1(3) by auto
  qed
qed

lemma reads_exec_block:
  assumes "reads_line toks c" "\<forall>(f, m, d) \<in> set rs. mode_ok m d"
  shows "reads_exec (paren True toks @ concat (map redir_toks rs)) (wrap rs c)"
  unfolding reads_def
proof (intro allI impI)
  fix n b s ts us
  assume ts: "map fst ts = paren True toks @ concat (map redir_toks rs)" and r: "rd b s (ts @ us)" and us: "us = [] \<or> sees ''|)&;'' us"
    and n: "4 * (length b - s) + 2 \<le> n"
  obtain n' where n': "n = Suc (Suc n')" using n by (cases n; cases "n - 1") auto
  obtain w w' t1 t2 where t: "ts = (TSym (CHR ''(''), w) # t1 @ (TSym (CHR '')''), w') # t2" "map fst t1 = toks" "map fst t2 = concat (map redir_toks rs)"
    using ts by (auto simp: paren_def map_eq_append_conv map_eq_Cons_conv append_eq_map_conv Cons_eq_map_conv)
  obtain s1 s2 where s1: "peek b ''('' s = (True, s1)" "gettoken b s1 = (CHR ''('', s1, s1 + 1, s2)" "rdn b s2 (t1 @ (TSym (CHR '')''), w') # t2 @ us)"
      "s < s2" "s < length b" "s1 < s2"
    using take_sym [of b s "CHR ''(''" w "t1 @ (TSym (CHR '')''), w') # t2 @ us" "''(''"] r t(1) symbols_sub(6) by auto
  have idem: "peek b ''('' s1 = (True, s1)" by (rule peek_idem [OF s1(1)])
  have n2: "4 * (length b - s2) + 4 \<le> n'" using n n' s1(4,5) by simp
  obtain t3 s3 where s3: "parseline n' b s2 = Parsed t3 s3" "strs b t3 = c" "rdn b s3 ((TSym (CHR '')''), w') # t2 @ us)" "s2 \<le> s3"
    using readsD [OF assms(1) t(2) rdn_rd [OF s1(3)] _ n2] by auto
  obtain s4 s5 where s5: "peek b '')'' s3 = (True, s4)" "gettoken b s4 = (CHR '')'', s4, s4 + 1, s5)" "rdn b s5 (t2 @ us)" "s3 < s5"
    using take_sym [OF rdn_rd [OF s3(3)], of "'')''"] symbols_sub(7) by auto
  have u1: "\<not> sees ''<>'' us" using sees_disj [OF us] by auto
  obtain t6 s6 where s6: "parseredirs b t3 s5 = Parsed t6 s6" "strs b t6 = wrap rs c" "rdn b s6 us" "s5 \<le> s6"
    using parseredirs_run [OF t(3) assms(2) rdn_rd [OF s5(3)] u1, of t3] s3(2) by auto
  show "\<exists>t s'. parseexec n b s = Parsed t s' \<and> strs b t = wrap rs c \<and> rdn b s' us \<and> s \<le> s'"
    using n' s1 idem s3 s5 s6 by simp
qed

lemma reads_pipe_exec:
  assumes "reads_exec toks c"
  shows "reads_pipe toks c"
  unfolding reads_def
proof (intro allI impI)
  fix n b s ts us
  assume ts: "map fst ts = toks" and r: "rd b s (ts @ us)" and us: "us = [] \<or> sees '')&;'' us" and n: "4 * (length b - s) + 3 \<le> n"
  obtain n' where n': "n = Suc n'" using n by (cases n) auto
  obtain t s1 where s1: "parseexec n' b s = Parsed t s1" "strs b t = c" "rdn b s1 us" "s \<le> s1"
    using readsD [OF assms ts r sees_mono [OF us], of n'] n n' by auto
  obtain s2 where s2: "peek b ''|'' s1 = (False, s2)" "rdn b s2 us" "s1 \<le> s2"
    using peek_run [OF rdn_rd [OF s1(3)] symbols_sub(5)] sees_disj [OF us, of "''|''"] by auto
  show "\<exists>t s'. parsepipe n b s = Parsed t s' \<and> strs b t = c \<and> rdn b s' us \<and> s \<le> s'" using n' s1 s2 by simp
qed

lemma reads_pipe_pipe:
  assumes "reads_exec toks c" "reads_pipe toks' e"
  shows "reads_pipe (toks @ [TSym (CHR ''|'')] @ toks') (PipeCmd c e)"
  unfolding reads_def
proof (intro allI impI)
  fix n b s ts us
  assume ts: "map fst ts = toks @ [TSym (CHR ''|'')] @ toks'" and r: "rd b s (ts @ us)" and us: "us = [] \<or> sees '')&;'' us"
    and n: "4 * (length b - s) + 3 \<le> n"
  obtain n' where n': "n = Suc n'" using n by (cases n) auto
  obtain t1 w t2 where t: "ts = t1 @ (TSym (CHR ''|''), w) # t2" "map fst t1 = toks" "map fst t2 = toks'"
    using ts by (auto simp: map_eq_append_conv map_eq_Cons_conv append_eq_map_conv Cons_eq_map_conv)
  obtain t3 s1 where s1: "parseexec n' b s = Parsed t3 s1" "strs b t3 = c" "rdn b s1 ((TSym (CHR ''|''), w) # t2 @ us)" "s \<le> s1"
    using readsD [OF assms(1) t(2), of b s "(TSym (CHR ''|''), w) # t2 @ us" n'] r t(1) n n' by auto
  obtain s2 s3 where s3: "peek b ''|'' s1 = (True, s2)" "gettoken b s2 = (CHR ''|'', s2, s2 + 1, s3)" "rdn b s3 (t2 @ us)" "s1 < s3" "s1 < length b"
    using take_sym [OF rdn_rd [OF s1(3)], of "''|''"] symbols_sub(5) by auto
  have bd: "4 * (length b - s3) + 3 \<le> n'" using n n' s1(4) s3(4,5) by simp
  obtain t4 s4 where "parsepipe n' b s3 = Parsed t4 s4" "strs b t4 = e" "rdn b s4 us" "s3 \<le> s4"
    using readsD [OF assms(2) t(3) rdn_rd [OF s3(3)] us bd] by auto
  then show "\<exists>t s'. parsepipe n b s = Parsed t s' \<and> strs b t = PipeCmd c e \<and> rdn b s' us \<and> s \<le> s'" using n' s1 s3 by simp
qed

text \<open>A line without and with a second part.\<close>

lemma reads_line_back:
  assumes "reads_pipe toks c"
  shows "reads_line (toks @ replicate k (TSym (CHR ''&''))) ((BackCmd ^^ k) c)"
  unfolding reads_def
proof (intro allI impI)
  fix n b s ts us
  assume ts: "map fst ts = toks @ replicate k (TSym (CHR ''&''))" and r: "rd b s (ts @ us)" and us: "us = [] \<or> sees '')'' us"
    and n: "4 * (length b - s) + 4 \<le> n"
  obtain n' where n': "n = Suc n'" using n by (cases n) auto
  obtain t1 t2 where t: "ts = t1 @ t2" "map fst t1 = toks" "map fst t2 = replicate k (TSym (CHR ''&''))"
    using ts by (auto simp: map_eq_append_conv)
  have f: "t2 @ us = [] \<or> sees '')&;'' (t2 @ us)" using t(3) sees_mono [OF us, of "'')&;''"] by (cases k) (auto simp: map_eq_Cons_conv)
  obtain t3 s1 where s1: "parsepipe n' b s = Parsed t3 s1" "strs b t3 = c" "rdn b s1 (t2 @ us)" "s \<le> s1"
    using readsD [OF assms t(2) _ f, of b s n'] r t(1) n n' by auto
  obtain t4 s2 where s2: "parseback b t3 s1 = (t4, s2)" "strs b t4 = (BackCmd ^^ k) c" "rdn b s2 us" "s1 \<le> s2"
    using parseback_run [OF t(3) rdn_rd [OF s1(3)], of t3] sees_disj [OF us, of "''&''"] s1(2) by auto
  obtain s3 where s3: "peek b '';'' s2 = (False, s3)" "rdn b s3 us" "s2 \<le> s3"
    using peek_run [OF rdn_rd [OF s2(3)] symbols_sub(4)] sees_disj [OF us, of "'';''"] by auto
  show "\<exists>t s'. parseline n b s = Parsed t s' \<and> strs b t = (BackCmd ^^ k) c \<and> rdn b s' us \<and> s \<le> s'" using n' s1 s2 s3 by simp
qed

lemma reads_line_list:
  assumes "reads_pipe toks c" "reads_line toks' e"
  shows "reads_line (toks @ replicate k (TSym (CHR ''&'')) @ [TSym (CHR '';'')] @ toks') (ListCmd ((BackCmd ^^ k) c) e)"
  unfolding reads_def
proof (intro allI impI)
  fix n b s ts us
  assume ts: "map fst ts = toks @ replicate k (TSym (CHR ''&'')) @ [TSym (CHR '';'')] @ toks'" and r: "rd b s (ts @ us)" and us: "us = [] \<or> sees '')'' us"
    and n: "4 * (length b - s) + 4 \<le> n"
  obtain n' where n': "n = Suc n'" using n by (cases n) auto
  obtain t1 t2 w t3 where t: "ts = t1 @ t2 @ (TSym (CHR '';''), w) # t3" "map fst t1 = toks" "map fst t2 = replicate k (TSym (CHR ''&''))" "map fst t3 = toks'"
    using ts by (auto simp: map_eq_append_conv map_eq_Cons_conv append_eq_map_conv Cons_eq_map_conv)
  let ?u = "(TSym (CHR '';''), w) # t3 @ us"
  have f: "t2 @ ?u = [] \<or> sees '')&;'' (t2 @ ?u)" using t(3) by (cases k) (auto simp: map_eq_Cons_conv)
  obtain t4 s1 where s1: "parsepipe n' b s = Parsed t4 s1" "strs b t4 = c" "rdn b s1 (t2 @ ?u)" "s \<le> s1"
    using readsD [OF assms(1) t(2) _ f, of b s n'] r t(1) n n' by auto
  obtain t5 s2 where s2: "parseback b t4 s1 = (t5, s2)" "strs b t5 = (BackCmd ^^ k) c" "rdn b s2 ?u" "s1 \<le> s2"
    using parseback_run [OF t(3) rdn_rd [OF s1(3)], of t4] s1(2) by auto
  obtain s3 s4 where s4: "peek b '';'' s2 = (True, s3)" "gettoken b s3 = (CHR '';'', s3, s3 + 1, s4)" "rdn b s4 (t3 @ us)" "s2 < s4" "s2 < length b"
    using take_sym [OF rdn_rd [OF s2(3)], of "'';''"] symbols_sub(4) by auto
  have bd: "4 * (length b - s4) + 4 \<le> n'" using n n' s1(4) s2(4) s4(4,5) by simp
  obtain t6 s5 where "parseline n' b s4 = Parsed t6 s5" "strs b t6 = e" "rdn b s5 us" "s4 \<le> s5"
    using readsD [OF assms(2) t(4) rdn_rd [OF s4(3)] us bd] by auto
  then show "\<exists>t s'. parseline n b s = Parsed t s' \<and> strs b t = ListCmd ((BackCmd ^^ k) c) e \<and> rdn b s' us \<and> s \<le> s'"
    using n' s1 s2 s4 by simp
qed

text \<open>Every command is read at each of the levels.\<close>

lemma reads_all: "wf_cmd c \<Longrightarrow> reads_exec (pr c 3) c \<and> reads_pipe (pr c 2) c \<and> reads_line (pr c 0) c"
proof (induction c rule: measure_induct_rule [of size])
  case (less c)
  have line_back: "reads_line (pr d 1) d" if d: "wf_cmd d" "size d \<le> size c" "\<not> is_back d \<Longrightarrow> reads_pipe (pr d 1) d" for d
  proof -
    obtain k e where e: "d = (BackCmd ^^ k) e" "\<not> is_back e" "pr d 1 = pr e 1 @ replicate k (TSym (CHR ''&''))" "size e + k \<le> size d" "wf_cmd e"
      using unback [of d] d(1) by blast
    have p12: "pr e 1 = pr e 2 \<or> (\<exists>x y. e = ListCmd x y)" using e(2) by (cases e) (auto simp: paren_def)
    have "reads_pipe (pr e 1) e"
    proof (cases "k = 0")
      case True
      then show ?thesis using d(3) e by simp
    next
      case False
      then have "size e < size c" using e(4) d(2) by simp
      then have "reads_exec (pr e 3) e" "reads_pipe (pr e 2) e" using less.IH e(5) by blast+
      then show ?thesis using p12 reads_pipe_exec [of "pr e 3" e] by (auto simp: paren_def)
    qed
    then show ?thesis using reads_line_back [of "pr e 1" e k] e(1,3) by simp
  qed
  have direct: "reads_line (pr c 0) c \<and> (\<forall>x y. c = PipeCmd x y \<longrightarrow> reads_pipe (pr c 2) c)" if nb: "\<not> is_redir c" "\<forall>ws. c \<noteq> ExecCmd ws"
  proof (cases c)
    case (PipeCmd x y)
    then have "reads_exec (pr x 3) x" "reads_pipe (pr y 2) y" using less by auto
    then have p: "reads_pipe (pr c 2) c" using reads_pipe_pipe PipeCmd by (simp add: paren_def)
    then show ?thesis using line_back [of c] less.prems PipeCmd by (simp add: paren_def)
  next
    case (BackCmd x)
    then show ?thesis using line_back [of c] less.prems by (simp add: paren_def)
  next
    case (ListCmd x y)
    then have y: "reads_line (pr y 0) y" "wf_cmd x" using less by auto
    obtain k e where e: "x = (BackCmd ^^ k) e" "\<not> is_back e" "pr x 1 = pr e 1 @ replicate k (TSym (CHR ''&''))" "size e + k \<le> size x" "wf_cmd e"
      using unback [of x] y(2) by blast
    then have "size e < size c" using ListCmd by simp
    then have "reads_exec (pr e 3) e" "reads_pipe (pr e 2) e" using less.IH e(5) by blast+
    then have "reads_pipe (pr e 1) e" using reads_pipe_exec [of "pr e 3" e] e(2) by (cases e) (auto simp: paren_def)
    then show ?thesis using reads_line_list [OF _ y(1), of "pr e 1" e k] ListCmd e(1,3) by (simp add: paren_def)
  qed (use nb in auto)
  have ex: "reads_exec (pr c 3) c"
  proof -
    obtain rs e where e: "c = wrap rs e" "\<not> is_redir e" "pr c 3 = pr e 3 @ concat (map redir_toks rs)" "size e + length rs \<le> size c"
      "wf_cmd e" "\<forall>(f, m, d) \<in> set rs. word_ok f \<and> mode_ok m d" using unredir [of c] less.prems by blast
    have rs: "\<forall>(f, m, d) \<in> set rs. mode_ok m d" using e(6) by auto
    show ?thesis
    proof (cases "\<exists>ws. e = ExecCmd ws")
      case True
      then obtain ws where ws: "e = ExecCmd ws" by blast
      then show ?thesis using reads_exec_words [OF _ _ rs, of ws] e by simp
    next
      case False
      have "reads_line (pr e 0) e"
      proof (cases "rs = []")
        case True
        then show ?thesis using direct e False by simp
      next
        case nonempty: False
        then have "size e < size c" using e(4) by (cases rs) auto
        then show ?thesis using less.IH e(5) by blast
      qed
      moreover have "pr e 3 = paren True (pr e 0)" using e(2) False by (cases e) (auto simp: paren_def)
      ultimately show ?thesis using reads_exec_block [OF _ rs, of "pr e 0" e] e(1,3) by simp
    qed
  qed
  have pi: "reads_pipe (pr c 2) c"
    using direct reads_pipe_exec [OF ex] by (cases c) (auto simp: paren_def)
  have "reads_line (pr c 0) c"
  proof (cases "is_redir c \<or> (\<exists>ws. c = ExecCmd ws)")
    case True
    then have "pr c 0 = pr c 1" "pr c 1 = pr c 2" by (cases c; auto)+
    then show ?thesis using line_back [of c] less.prems pi by simp
  qed (use direct in auto)
  then show ?case using ex pi by blast
qed

section \<open>Every line\<close>

text \<open>
  For any line: the words of the tree lie in the line, end at a blank, a symbol or the end, and the tree
  is well formed; and the bound on the depth of the calls is not reached.
\<close>

definition delim :: "char \<Rightarrow> bool" where
  "delim c \<longleftrightarrow> c \<in> set whitespace \<or> c \<in> set symbols"

definition wpos :: "string \<Rightarrow> nat \<times> nat \<Rightarrow> bool" where
  "wpos b = (\<lambda>(q, eq). q < eq \<and> eq \<le> length b \<and> (eq = length b \<or> delim (b ! eq)) \<and> (\<forall>i. q \<le> i \<and> i < eq \<longrightarrow> \<not> delim (b ! i) \<and> b ! i \<noteq> NULC))"

definition tree_ok :: "string \<Rightarrow> pcmd \<Rightarrow> bool" where
  "tree_ok b t \<longleftrightarrow> wf_cmd (strs b t) \<and> (\<forall>w \<in> set_cmd t. wpos b w)"

fun res_ok :: "string \<Rightarrow> nat \<Rightarrow> pcmd presult \<Rightarrow> bool" where
  "res_ok b s (Parsed t s') = (tree_ok b t \<and> s \<le> s')"
| "res_ok b s (ShPanic msg) = True"
| "res_ok b s NoFuel = False"

fun exec_args :: "'w cmd \<Rightarrow> nat option" where
  "exec_args (ExecCmd ws) = Some (length ws)"
| "exec_args (RedirCmd c f m d) = exec_args c"
| "exec_args c = None"

lemma wpos_word_ok: "wpos b (q, eq) \<Longrightarrow> word_ok (word_at b (q, eq))"
proof -
  assume w: "wpos b (q, eq)"
  have "c \<noteq> NULC \<and> \<not> delim c" if c: "c \<in> set (word_at b (q, eq))" for c
  proof -
    have "c \<in> set (take (eq - q) (drop q b))" using c by (simp add: word_at_def)
    then obtain i where i: "i < length (take (eq - q) (drop q b))" "take (eq - q) (drop q b) ! i = c" unfolding in_set_conv_nth by blast
    have l: "i < eq - q" "i < length b - q" using i(1) by simp_all
    then have "q \<le> q + i" "q + i < eq" "b ! (q + i) = c" using i(2) by simp_all
    then show ?thesis using w unfolding wpos_def by blast
  qed
  then show ?thesis using w by (auto simp: word_ok_def delim_def word_at_def wpos_def)
qed

lemma skip_word_chars:
  "s \<le> length b \<Longrightarrow> skip_word b s \<le> length b \<and> (skip_word b s = length b \<or> delim (b ! skip_word b s)) \<and> (\<forall>i. s \<le> i \<and> i < skip_word b s \<longrightarrow> \<not> delim (b ! i))"
proof (induction b s rule: skip_word.induct)
  case (1 b s)
  show ?case
  proof (cases "s < length b \<and> \<not> delim (b ! s)")
    case True
    then have c: "s < length b \<and> \<not> x_strchr whitespace (ch b s) \<and> \<not> x_strchr symbols (ch b s)"
      by (simp add: ch_def delim_def x_strchr_in)
    then have e: "skip_word b s = skip_word b (s + 1)" by (subst skip_word.simps) simp
    have IH: "skip_word b (s + 1) \<le> length b" "skip_word b (s + 1) = length b \<or> delim (b ! skip_word b (s + 1))"
      "\<forall>i. s + 1 \<le> i \<and> i < skip_word b (s + 1) \<longrightarrow> \<not> delim (b ! i)" using "1.IH" [OF c] c by auto
    have "\<not> delim (b ! i)" if "s \<le> i" "i < skip_word b (s + 1)" for i
      using IH(3) True that by (cases "i = s") auto
    then show ?thesis unfolding e using IH by blast
  next
    case False
    then have "skip_word b s = s" by (subst skip_word.simps) (auto simp: ch_def delim_def x_strchr_in)
    then show ?thesis using False "1.prems" by auto
  qed
qed

lemma gettoken_word:
  assumes "NULC \<notin> set b" "gettoken b s = (CHR ''a'', q, eq, s')"
  shows "wpos b (q, eq)" "s \<le> s'"
proof -
  have p: "s \<le> q" "q < eq" "eq \<le> s'" "q < length b" using gettoken_progress [OF assms(2)] by auto
  have nul: "b ! i \<noteq> NULC" if "i < length b" for i using assms(1) that by (metis nth_mem)
  have e: "eq = skip_word b q" using assms(2) by (auto simp: gettoken_def Let_def split: if_splits)
  show "wpos b (q, eq)" "s \<le> s'"
    using skip_word_chars [of q b] p e nul by (auto simp: wpos_def)
qed

lemma parseredirs_ok:
  assumes "NULC \<notin> set b" "tree_ok b t"
  shows "res_ok b s (parseredirs b t s) \<and> (\<forall>t' s'. parseredirs b t s = Parsed t' s' \<longrightarrow> exec_args t' = exec_args t)"
  using assms
proof (induction b t s rule: parseredirs.induct)
  case (1 b t s)
  obtain p s1 where s1: "peek b ''<>'' s = (p, s1)" by fastforce
  obtain tok x y s2 where g: "gettoken b s1 = (tok, x, y, s2)" by (metis prod_cases4)
  obtain tok2 q eq s3 where h: "gettoken b s2 = (tok2, q, eq, s3)" by (metis prod_cases4)
  have ge: "s \<le> s1" using peek_progress [OF s1] by simp
  show ?case
  proof (cases "p \<and> tok2 = CHR ''a''")
    case False
    then show ?thesis using s1 g h "1.prems" ge by (subst (1 2) parseredirs.simps) (auto simp: sh_panic_def)
  next
    case True
    have w: "wpos b (q, eq)" "s2 \<le> s3" using gettoken_word [OF "1.prems"(1)] h True by auto
    have lt: "s1 < s2" using peek_gettoken [OF _ g] s1 True by auto
    let ?t = "if tok = CHR ''<'' then RedirCmd t (q, eq) O_RDONLY 0
                         else if tok = CHR ''>'' then RedirCmd t (q, eq) (O_WRONLY OR O_CREATE) 1
                         else if tok = CHR ''+'' then RedirCmd t (q, eq) (O_WRONLY OR O_CREATE) 1
                         else t"
    have t: "tree_ok b ?t" "exec_args ?t = exec_args t" using "1.prems"(2) w wpos_word_ok [OF w(1)] by (auto simp: tree_ok_def mode_ok_def)
    have eq: "parseredirs b t s = parseredirs b ?t s3" using s1 g h True by (subst parseredirs.simps) simp
    have "res_ok b s3 (parseredirs b ?t s3) \<and> (\<forall>t' s'. parseredirs b ?t s3 = Parsed t' s' \<longrightarrow> exec_args t' = exec_args ?t)"
      using True "1.prems"(1) t(1)
      by (intro "1.IH" [OF s1 [symmetric] refl _ g [symmetric] refl refl refl h [symmetric] refl refl refl]) auto
    then show ?thesis unfolding eq t(2) using w(2) lt ge by (cases "parseredirs b ?t s3") auto
  qed
qed

lemma add_arg_ok:
  assumes "tree_ok b t" "exec_args t = Some n" "wpos b w" "n + 1 < SH_MAXARGS"
  shows "tree_ok b (add_arg w t)" "exec_args (add_arg w t) = Some (n + 1)"
  using assms wpos_word_ok [of b "fst w" "snd w"] unfolding tree_ok_def
  by (induction w t arbitrary: rule: add_arg.induct) auto

lemma parseargs_ok:
  assumes "NULC \<notin> set b" "tree_ok b t" "exec_args t = Some argc"
  shows "res_ok b s (parseargs b argc t s)"
  using assms
proof (induction b argc t s rule: parseargs.induct)
  case (1 b argc t s)
  obtain p s1 where s1: "peek b ''|)&;'' s = (p, s1)" by fastforce
  obtain tok q eq s2 where g: "gettoken b s1 = (tok, q, eq, s2)" by (metis prod_cases4)
  have ge: "s \<le> s1" using peek_progress [OF s1] by simp
  have s2: "s1 \<le> s2" if "tok = NULC" using g that skip_ws_ge [of s1 b] skip_ws_ge [of "skip_ws b s1" b]
    by (auto simp: gettoken_def Let_def symbols_def split: if_splits)
  show ?case
  proof (cases "\<not> p \<and> tok = CHR ''a'' \<and> argc + 1 < SH_MAXARGS")
    case False
    then show ?thesis using s1 g "1.prems" ge s2 by (subst parseargs.simps) (auto simp: sh_panic_def Let_def)
  next
    case True
    have w: "wpos b (q, eq)" "s1 \<le> s2" using gettoken_word [OF "1.prems"(1)] g True by auto
    let ?t = "add_arg (q, eq) t"
    have t: "tree_ok b ?t" "exec_args ?t = Some (argc + 1)" using add_arg_ok [OF "1.prems"(2,3) w(1)] True by auto
    have eq: "parseargs b argc t s = pbind (parseredirs b ?t s2) (\<lambda>ret s. parseargs b (argc + 1) ret s)"
      using s1 g True by (subst parseargs.simps) (auto simp: Let_def)
    have r: "res_ok b s2 (parseredirs b ?t s2)" "\<And>t' s'. parseredirs b ?t s2 = Parsed t' s' \<Longrightarrow> exec_args t' = Some (argc + 1)"
      using parseredirs_ok [OF "1.prems"(1) t(1), of s2] t(2) by auto
    show ?thesis
    proof (cases "parseredirs b ?t s2")
      case (Parsed t' s')
      have "res_ok b s' (parseargs b (argc + 1) t' s')"
        using True r(1) r(2) [OF Parsed] "1.prems"(1) Parsed
        by (intro "1.IH" [OF s1 [symmetric] refl _ g [symmetric] refl refl refl _ _ refl refl _ Parsed]) auto
      then show ?thesis unfolding eq using Parsed r(1) w(2) ge by (cases "parseargs b (argc + 1) t' s'") auto
    qed (use eq r in auto)
  qed
qed

lemma parseback_ok:
  assumes "tree_ok b t" "parseback b t s = (t', s')"
  shows "tree_ok b t' \<and> s \<le> s'"
  using assms
proof (induction b t s rule: parseback.induct)
  case (1 b t s)
  obtain p s1 where s1: "peek b ''&'' s = (p, s1)" by fastforce
  obtain tok x y s2 where g: "gettoken b s1 = (tok, x, y, s2)" by (metis prod_cases4)
  have ge: "s \<le> s1" using peek_progress [OF s1] by simp
  show ?case
  proof (cases p)
    case False
    then show ?thesis using "1.prems" s1 ge by (simp add: parseback.simps [of b t s])
  next
    case True
    have "parseback b (BackCmd t) s2 = (t', s')" using "1.prems"(2) s1 g True by (simp add: parseback.simps [of b t s])
    then have "tree_ok b t' \<and> s2 \<le> s'"
      using "1.prems"(1) by (intro "1.IH" [OF s1 [symmetric] refl True g [symmetric] refl refl refl]) (auto simp: tree_ok_def)
    then show ?thesis using ge peek_gettoken [OF _ g, of "''&''" s] s1 True by auto
  qed
qed

text \<open>The functions that call each other; the bound on the depth is enough.\<close>

lemma res_ok_bind:
  assumes "res_ok b s m" "\<And>t s'. m = Parsed t s' \<Longrightarrow> tree_ok b t \<Longrightarrow> s \<le> s' \<Longrightarrow> res_ok b s (k t s')"
  shows "res_ok b s (pbind m k)"
  using assms by (cases m) auto

lemma res_ok_mono: "res_ok b s' r \<Longrightarrow> s \<le> s' \<Longrightarrow> res_ok b s r"
  by (cases r) auto

lemma peek_take:
  assumes "peek b cs s = (True, s1)"
  shows "\<exists>tok x y s2. gettoken b s1 = (tok, x, y, s2) \<and> s < s2 \<and> s < length b"
proof -
  obtain tok x y s2 where g: "gettoken b s1 = (tok, x, y, s2)" by (metis prod_cases4)
  then show ?thesis using peek_gettoken [OF assms g] peek_progress [OF assms] by auto
qed

lemma parse_ok:
  assumes "NULC \<notin> set b"
  shows "(\<forall>s. 4 * (length b - s) + 4 \<le> n \<longrightarrow> res_ok b s (parseline n b s)) \<and> (\<forall>s. 4 * (length b - s) + 3 \<le> n \<longrightarrow> res_ok b s (parsepipe n b s))
    \<and> (\<forall>s. 4 * (length b - s) + 2 \<le> n \<longrightarrow> res_ok b s (parseexec n b s)) \<and> (\<forall>s. 4 * (length b - s) + 1 \<le> n \<longrightarrow> res_ok b s (parseblock n b s))"
proof (induction n)
  case (Suc n)
  then have IHl: "\<And>s. 4 * (length b - s) + 4 \<le> n \<Longrightarrow> res_ok b s (parseline n b s)"
    and IHp: "\<And>s. 4 * (length b - s) + 3 \<le> n \<Longrightarrow> res_ok b s (parsepipe n b s)"
    and IHe: "\<And>s. 4 * (length b - s) + 2 \<le> n \<Longrightarrow> res_ok b s (parseexec n b s)"
    and IHb: "\<And>s. 4 * (length b - s) + 1 \<le> n \<Longrightarrow> res_ok b s (parseblock n b s)" by blast+
  have line: "res_ok b s (parseline (Suc n) b s)" if n: "4 * (length b - s) + 4 \<le> Suc n" for s
    unfolding parseline.simps
  proof (rule res_ok_bind)
    show "res_ok b s (parsepipe n b s)" using IHp n by simp
    fix t s1 assume t: "tree_ok b t" "s \<le> s1"
    obtain t2 s2 where s2: "parseback b t s1 = (t2, s2)" by fastforce
    have t2: "tree_ok b t2" "s1 \<le> s2" using parseback_ok [OF t(1) s2] by auto
    obtain p s3 where s3: "peek b '';'' s2 = (p, s3)" by fastforce
    show "res_ok b s (let (cmd, s) = parseback b t s1; (t, s) = peek b '';'' s
       in if t then let (_, _, _, s) = gettoken b s in pbind (parseline n b s) (\<lambda>right s. Parsed (ListCmd cmd right) s) else Parsed cmd s)"
    proof (cases p)
      case False
      then show ?thesis using s2 s3 t2 t peek_progress [OF s3] by simp
    next
      case True
      obtain tok x y s4 where s4: "gettoken b s3 = (tok, x, y, s4)" "s2 < s4" "s2 < length b" using peek_take s3 True by metis
      have "res_ok b s4 (parseline n b s4)" using n t(2) t2(2) s4(2,3) by (intro IHl) simp
      then have "res_ok b s (pbind (parseline n b s4) (\<lambda>right s. Parsed (ListCmd t2 right) s))"
        using t2 t s4(2) by (cases "parseline n b s4") (auto simp: tree_ok_def)
      then show ?thesis using s2 s3 s4 True by simp
    qed
  qed
  have pipe: "res_ok b s (parsepipe (Suc n) b s)" if n: "4 * (length b - s) + 3 \<le> Suc n" for s
    unfolding parsepipe.simps
  proof (rule res_ok_bind)
    show "res_ok b s (parseexec n b s)" using IHe n by simp
    fix t s1 assume t: "tree_ok b t" "s \<le> s1"
    obtain p s3 where s3: "peek b ''|'' s1 = (p, s3)" by fastforce
    show "res_ok b s (let (t', s) = peek b ''|'' s1
       in if t' then let (_, _, _, s) = gettoken b s in pbind (parsepipe n b s) (\<lambda>right s. Parsed (PipeCmd t right) s) else Parsed t s)"
    proof (cases p)
      case False
      then show ?thesis using s3 t peek_progress [OF s3] by simp
    next
      case True
      obtain tok x y s4 where s4: "gettoken b s3 = (tok, x, y, s4)" "s1 < s4" "s1 < length b" using peek_take s3 True by metis
      have "res_ok b s4 (parsepipe n b s4)" using n t(2) s4(2,3) by (intro IHp) simp
      then have "res_ok b s (pbind (parsepipe n b s4) (\<lambda>right s. Parsed (PipeCmd t right) s))"
        using t s4(2) by (cases "parsepipe n b s4") (auto simp: tree_ok_def)
      then show ?thesis using s3 s4 True by simp
    qed
  qed
  have exec: "res_ok b s (parseexec (Suc n) b s)" if n: "4 * (length b - s) + 2 \<le> Suc n" for s
  proof -
    obtain p s1 where s1: "peek b ''('' s = (p, s1)" by fastforce
    have ge: "s \<le> s1" using peek_progress [OF s1] by simp
    have e: "tree_ok b (ExecCmd [])" by (simp add: tree_ok_def SH_MAXARGS_def)
    have "res_ok b s1 (parseblock n b s1)" using n ge by (intro IHb) simp
    moreover have "res_ok b s1 (pbind (parseredirs b (ExecCmd []) s1) (\<lambda>ret s. parseargs b 0 ret s))"
      using parseredirs_ok [OF assms e, of s1] parseargs_ok [OF assms] by (intro res_ok_bind) (auto intro: res_ok_mono)
    ultimately show ?thesis using s1 ge by (auto intro: res_ok_mono)
  qed
  have block: "res_ok b s (parseblock (Suc n) b s)" if n: "4 * (length b - s) + 1 \<le> Suc n" for s
  proof -
    obtain p s1 where s1: "peek b ''('' s = (p, s1)" by fastforce
    show ?thesis
    proof (cases p)
      case False
      then show ?thesis using s1 by (simp add: sh_panic_def)
    next
      case True
      obtain tok x y s2 where s2: "gettoken b s1 = (tok, x, y, s2)" "s < s2" "s < length b" using peek_take s1 True by metis
      have l: "res_ok b s2 (parseline n b s2)" using n s2(2,3) by (intro IHl) simp
      have "res_ok b s2 (pbind (parseline n b s2) (\<lambda>cmd s. let (t, s) = peek b '')'' s in if \<not> t then sh_panic ''syntax - missing )''
                      else let (_, _, _, s) = gettoken b s in parseredirs b cmd s))"
      proof (rule res_ok_bind [OF l])
        fix t s3 assume t: "tree_ok b t" "s2 \<le> s3"
        obtain p' s4 where s4: "peek b '')'' s3 = (p', s4)" by fastforce
        obtain tok x y s5 where s5: "gettoken b s4 = (tok, x, y, s5)" by (metis prod_cases4)
        have "s3 < s5" if p' using peek_take [of b "'')''" s3 s4] s4 s5 that by auto
        then show "res_ok b s2 (let (t', s) = peek b '')'' s3 in if \<not> t' then sh_panic ''syntax - missing )''
                      else let (_, _, _, s) = gettoken b s in parseredirs b t s)"
          using s4 s5 t parseredirs_ok [OF assms t(1), of s5] by (auto simp: sh_panic_def intro: res_ok_mono)
      qed
      then show ?thesis using s1 s2 True by (auto intro: res_ok_mono)
    qed
  qed
  show ?case using line pipe exec block by blast
qed auto

section \<open>Words as C strings\<close>

definition word_str :: "string \<Rightarrow> nat \<times> nat \<Rightarrow> string" where
  "word_str m = (\<lambda>(q, eq). takeWhile (\<lambda>c. c \<noteq> NULC) (drop q m))"

lemma nulterminate_nth:
  "length (nulterminate t m) = length m \<and> (\<forall>i < length m. nulterminate t m ! i = (if i \<in> snd ` set_cmd t then NULC else m ! i))"
proof (induction t arbitrary: m)
  case (ExecCmd ws)
  have "length (fold (\<lambda>(q, eq) m. m[eq := NULC]) ws m) = length m \<and> (\<forall>i < length m. fold (\<lambda>(q, eq) m. m[eq := NULC]) ws m ! i = (if i \<in> snd ` set ws then NULC else m ! i))"
    by (induction ws arbitrary: m) (auto simp: nth_list_update rev_image_eqI)
  then show ?case by simp
next
  case (RedirCmd t f mode fd)
  have "length (nulterminate t m) = length m" "\<And>i. i < length m \<Longrightarrow> nulterminate t m ! i = (if i \<in> snd ` set_cmd t then NULC else m ! i)"
    using RedirCmd by auto
  then show ?case by (cases "snd f < length m") (simp_all add: nth_list_update list_update_beyond)
next
  case (PipeCmd l r)
  then show ?case by (auto simp: image_Un)
next
  case (ListCmd l r)
  then show ?case by (auto simp: image_Un)
qed auto

text \<open>The NULs are written behind words only, so that every word is the C string at its position.\<close>

lemma word_str_word:
  assumes t: "\<forall>w \<in> set_cmd t. wpos b w" and w: "w \<in> set_cmd t"
  shows "word_str (nulterminate t (b @ [NULC])) w = word_at b w"
proof -
  obtain q eq where qe: "w = (q, eq)" by (cases w)
  let ?m = "nulterminate t (b @ [NULC])"
  have p: "q < eq" "eq \<le> length b" "\<And>i. q \<le> i \<Longrightarrow> i < eq \<Longrightarrow> \<not> delim (b ! i) \<and> b ! i \<noteq> NULC"
    using t w qe by (auto simp: wpos_def)
  have m: "length ?m = length b + 1" "\<And>i. i < length b + 1 \<Longrightarrow> ?m ! i = (if i \<in> snd ` set_cmd t then NULC else (b @ [NULC]) ! i)"
    using nulterminate_nth [of t "b @ [NULC]"] by auto
  have kept: "?m ! i = b ! i" if i: "q \<le> i" "i < eq" for i
  proof -
    have "i \<notin> snd ` set_cmd t"
    proof
      assume "i \<in> snd ` set_cmd t"
      then obtain q' where "(q', i) \<in> set_cmd t" by auto
      then have "i = length b \<or> delim (b ! i)" using t by (auto simp: wpos_def)
      then show False using p i by auto
    qed
    then show ?thesis using m(2) [of i] p(2) i by (simp add: nth_append)
  qed
  have e: "?m ! eq = NULC" using m(2) [of eq] p(2) w qe by force
  have l: "take (eq - q) (drop q ?m) = take (eq - q) (drop q b)"
    using kept p(1,2) m(1) by (intro nth_equalityI) auto
  have "drop q ?m = take (eq - q) (drop q ?m) @ drop eq ?m" using p(1) by (metis append_take_drop_id drop_drop le_add_diff_inverse2 less_imp_le)
  also have "drop eq ?m = NULC # drop (Suc eq) ?m" using e m(1) p(2) by (metis Cons_nth_drop_Suc le_imp_less_Suc Suc_eq_plus1)
  finally have d: "drop q ?m = word_at b w @ NULC # drop (Suc eq) ?m" using l qe by (simp add: word_at_def)
  have "\<forall>c \<in> set (word_at b w). c \<noteq> NULC" using wpos_word_ok [of b q eq] t w qe by (auto simp: word_ok_def)
  then show ?thesis unfolding word_str_def qe using d qe by (simp add: takeWhile_append)
qed

lemma word_str_tree: "tree_ok b t \<Longrightarrow> map_cmd (word_str (nulterminate t (b @ [NULC]))) t = strs b t"
  by (auto simp: tree_ok_def intro!: cmd.map_cong word_str_word)

section \<open>Main results\<close>

text \<open>
  C16: the shell reads back what is written. Any command whose words are not empty and have no blank,
  symbol or NUL, with fewer than SH_MAXARGS arguments per program, is written by \<open>pr\<close> with the parentheses the
  grammar needs, and with any blanks around the tokens (at least one between two words); \<open>parsecmd\<close> of
  that line, in a buffer with anything behind the terminating NUL, returns a tree whose words, as C
  strings in the memory that \<open>nulterminate\<close> leaves, are the command.
\<close>

theorem parse_print:
  assumes "wf_cmd c" "map fst ts = pr c 0" "lay_ok ts" "blank w"
  shows "\<exists>t m. parsecmd (w @ lay_text ts @ NULC # rest) = Command t m \<and> map_cmd (word_str m) t = c"
proof -
  let ?b = "w @ lay_text ts"
  have "NULC \<notin> set (lay_text ts)"
    using assms(3) by (induction ts rule: lay_ok.induct) (auto simp: word_ok_def blank_def whitespace_def symbols_def elim!: tok_ok.elims)
  moreover have "NULC \<notin> set w" using assms(4) by (auto simp: blank_def whitespace_def)
  ultimately have nul: "NULC \<notin> set ?b" by simp
  have tw: "takeWhile (\<lambda>c. c \<noteq> NULC) (w @ lay_text ts @ NULC # rest) = ?b"
  proof -
    have "takeWhile (\<lambda>c. c \<noteq> NULC) (?b @ NULC # rest) = ?b" using nul by (subst takeWhile_append2) auto
    then show ?thesis by simp
  qed
  have r: "rd ?b 0 (ts @ [])" using assms(3,4) by (auto simp: rd_def)
  obtain t s where t: "parseline (fuel_for ?b) ?b 0 = Parsed t s" "strs ?b t = c" "rdn ?b s []"
    using readsD [OF _ assms(2) r, of 4 "'')''" parseline c "fuel_for ?b"] reads_all [OF assms(1)] by (auto simp: fuel_for_def)
  have "res_ok ?b 0 (parseline (fuel_for ?b) ?b 0)" using parse_ok [OF nul, of "fuel_for ?b"] by (simp add: fuel_for_def)
  then have ok: "tree_ok ?b t" using t(1) by simp
  have "skip_ws ?b s = s" by (rule rdn_skip [OF t(3)])
  moreover have "s = length ?b" using t(3) unfolding rdn_def by (metis dual_order.antisym drop_eq_Nil lay_text.simps(1))
  ultimately have "parsecmd (w @ lay_text ts @ NULC # rest) = Command t (nulterminate t (?b @ [NULC]))"
    using t(1) unfolding parsecmd_def tw by (simp add: peek_def)
  then show ?thesis using word_str_tree [OF ok] t(2) by blast
qed

text \<open>A command line with a redirection, a pipe, a list and a background job, with few blanks.\<close>

theorem parse_print_witness:
  "\<exists>t m. parsecmd (''(a  b;c)>d|e &'' @ NULC # ''x'') = Command t m
     \<and> map_cmd (word_str m) t = BackCmd (PipeCmd (RedirCmd (ListCmd (ExecCmd [''a'', ''b'']) (ExecCmd [''c''])) ''d'' 0x201 1) (ExecCmd [''e'']))"
proof -
  let ?c = "BackCmd (PipeCmd (RedirCmd (ListCmd (ExecCmd [''a'', ''b'']) (ExecCmd [''c''])) ''d'' (O_WRONLY OR O_CREATE) 1) (ExecCmd [''e'']))"
  let ?ts = "[(TSym CHR ''('', []), (TWord ''a'', ''  ''), (TWord ''b'', []), (TSym CHR '';'', []), (TWord ''c'', []), (TSym CHR '')'', []),
     (TSym CHR ''>'', []), (TWord ''d'', []), (TSym CHR ''|'', []), (TWord ''e'', '' ''), (TSym CHR ''&'', [])]"
  have "wf_cmd ?c" "map fst ?ts = pr ?c 0" "lay_ok ?ts" "blank []"
    by (simp_all add: SH_MAXARGS_def mode_ok_def word_ok_def whitespace_def symbols_def redir_toks_def paren_def)
  from parse_print [OF this, of "''x''"] show ?thesis by (simp add: O_WRONLY_def O_CREATE_def)
qed

text \<open>
  C26: for every contents of the buffer \<open>parsecmd\<close> ends, with an error message or with a tree; the tree is
  well formed: fewer than SH_MAXARGS arguments per program, words that are not empty and have no blank,
  symbol or NUL as C strings in the memory it leaves, and one of the two modes of redirection with its
  descriptor.
\<close>

theorem parsecmd_typed:
  "(\<exists>msg. parsecmd buf = Exits msg) \<or> (\<exists>t m. parsecmd buf = Command t m \<and> wf_cmd (map_cmd (word_str m) t))"
proof -
  let ?b = "takeWhile (\<lambda>c. c \<noteq> NULC) buf"
  have nul: "NULC \<notin> set ?b" by (auto dest: set_takeWhileD)
  have r: "res_ok ?b 0 (parseline (fuel_for ?b) ?b 0)" using parse_ok [OF nul, of "fuel_for ?b"] by (simp add: fuel_for_def)
  then show ?thesis
  proof (cases "parseline (fuel_for ?b) ?b 0")
    case (Parsed t s)
    then have ok: "tree_ok ?b t" using r by simp
    then have "wf_cmd (map_cmd (word_str (nulterminate t (?b @ [NULC]))) t)" using word_str_tree by (simp add: tree_ok_def)
    then show ?thesis using Parsed by (auto simp: parsecmd_def Let_def split: prod.splits)
  qed (auto simp: parsecmd_def)
qed

end
