(* ===== verification/XFd.thy ===== *)
theory XFd
  imports XFs XPipe
begin

text \<open>
  Open files of xv6 (xv6-public/file.c, file.h): the table of files, and reading and writing through
  it, a pipe or an inode. A write to an inode is cut into pieces, each a transaction of its own.

  A pipe is named by the number of its page; \<open>kmem\<close> is the list of the free pages of kalloc.c. A call
  that has to sleep ends in \<open>Sleeping\<close> with the state it had reached.
\<close>

section \<open>Data\<close>

definition NFILE :: nat where "NFILE = 100"

datatype fdtype = FD_NONE | FD_PIPE | FD_INODE

record xfile =
  f_type :: fdtype
  f_ref :: int
  f_readable :: bool
  f_writable :: bool
  f_pipe :: nat
  f_ip :: nat
  f_off :: u32

record dstate =
  dfs :: fstate
  ftable :: "nat \<Rightarrow> xfile"
  pipes :: "nat \<Rightarrow> pipe"
  kmem :: "nat list"
  killed :: bool

type_synonym 'a dres = "('a, dstate) sres"

definition onf :: "(fstate \<Rightarrow> 'a fres) \<Rightarrow> dstate \<Rightarrow> 'a dres" where
  "onf m d =
     (case m (dfs d) of
        Done x f \<Rightarrow> Done x (d\<lparr>dfs := f\<rparr>)
      | Panicked msg f \<Rightarrow> Panicked msg (d\<lparr>dfs := f\<rparr>)
      | Sleeping f \<Rightarrow> Sleeping (d\<lparr>dfs := f\<rparr>)
      | Hang \<Rightarrow> Hang)"

definition upd_file :: "nat \<Rightarrow> (xfile \<Rightarrow> xfile) \<Rightarrow> dstate \<Rightarrow> dstate" where
  "upd_file fd g d = d\<lparr>ftable := (ftable d)(fd := g (ftable d fd))\<rparr>"

text \<open>The calls that bracket a transaction.\<close>

definition f_begin_op :: "fstate \<Rightarrow> unit fres" where
  "f_begin_op f = (case begin_op (flog f) of None \<Rightarrow> Sleeping f | Some lg \<Rightarrow> Done () (f\<lparr>flog := lg\<rparr>))"

definition f_end_op :: "fstate \<Rightarrow> unit fres" where
  "f_end_op f = onlog end_op f"

section \<open>Operations\<close>

definition filealloc :: "dstate \<Rightarrow> nat option \<times> dstate" where
  "filealloc d =
     (case find (\<lambda>fd. f_ref (ftable d fd) = 0) [0..<NFILE] of
        None \<Rightarrow> (None, d)
      | Some fd \<Rightarrow> (Some fd, upd_file fd (\<lambda>v. v\<lparr>f_ref := 1\<rparr>) d))"

definition filedup :: "nat \<Rightarrow> dstate \<Rightarrow> nat dres" where
  "filedup fd d =
     (if f_ref (ftable d fd) < 1 then Panicked ''filedup'' d
      else Done fd (upd_file fd (\<lambda>v. v\<lparr>f_ref := f_ref v + 1\<rparr>) d))"

definition d_pipeclose :: "nat \<Rightarrow> bool \<Rightarrow> dstate \<Rightarrow> dstate" where
  "d_pipeclose q writable d =
     (let (last, p) = pipeclose writable (pipes d q);
          d = d\<lparr>pipes := (pipes d)(q := p)\<rparr>
      in if last then d\<lparr>kmem := q # kmem d\<rparr> else d)"

definition fileclose :: "nat \<Rightarrow> dstate \<Rightarrow> unit dres" where
  "fileclose fd d =
     (if f_ref (ftable d fd) < 1 then Panicked ''fileclose'' d
      else let d = upd_file fd (\<lambda>v. v\<lparr>f_ref := f_ref v - 1\<rparr>) d
           in if 0 < f_ref (ftable d fd) then Done () d
              else let ff = ftable d fd;
                       d = upd_file fd (\<lambda>v. v\<lparr>f_ref := 0, f_type := FD_NONE\<rparr>) d
                   in if f_type ff = FD_PIPE then Done () (d_pipeclose (f_pipe ff) (f_writable ff) d)
                      else if f_type ff = FD_INODE
                      then xbind (onf f_begin_op d) (\<lambda>_ d.
                           xbind (onf (iput (f_ip ff)) d) (\<lambda>_ d. onf f_end_op d))
                      else Done () d)"

text \<open>The result of \<open>filestat\<close>: None for -1.\<close>

definition filestat :: "nat \<Rightarrow> dstate \<Rightarrow> stat option dres" where
  "filestat fd d =
     (let ip = f_ip (ftable d fd)
      in if f_type (ftable d fd) = FD_INODE
         then xbind (onf (ilock ip) d) (\<lambda>_ d.
                let st = stati ip (dfs d)
                in xbind (onf (iunlock ip) d) (\<lambda>_ d. Done (Some st) d))
         else Done None d)"

definition fileread :: "devsw \<Rightarrow> nat \<Rightarrow> int \<Rightarrow> dstate \<Rightarrow> (int \<times> u8 list) dres" where
  "fileread dv fd n d =
     (let v = ftable d fd
      in if \<not> f_readable v then Done (- 1, []) d
         else if f_type v = FD_PIPE
         then (case piperead (killed d) n (pipes d (f_pipe v)) of
                 Returned r bs p \<Rightarrow> Done (r, bs) (d\<lparr>pipes := (pipes d)(f_pipe v := p)\<rparr>)
               | Slept i p \<Rightarrow> Sleeping (d\<lparr>pipes := (pipes d)(f_pipe v := p)\<rparr>))
         else if f_type v = FD_INODE
         then xbind (onf (ilock (f_ip v)) d) (\<lambda>_ d.
              xbind (onf (readi dv (f_ip v) (f_off (ftable d fd)) (word_of_int n)) d) (\<lambda>(r, bs) d.
                let d = (if 0 < r then upd_file fd (\<lambda>v. v\<lparr>f_off := f_off v + word_of_int r\<rparr>) d else d)
                in xbind (onf (iunlock (f_ip v)) d) (\<lambda>_ d. Done (r, bs) d)))
         else Panicked ''fileread'' d)"

definition maxwrite :: int where
  "maxwrite = ((MAXOPBLOCKS - 1 - 1 - 2) div 2) * 512"

text \<open>One round of the loop of \<open>filewrite\<close>.\<close>

definition filewrite_chunk :: "devsw \<Rightarrow> nat \<Rightarrow> (nat \<Rightarrow> u8) \<Rightarrow> int \<Rightarrow> dstate \<Rightarrow> int dres" where
  "filewrite_chunk dv fd addr n1 d =
     (let ip = f_ip (ftable d fd)
      in xbind (onf f_begin_op d) (\<lambda>_ d.
         xbind (onf (ilock ip) d) (\<lambda>_ d.
         xbind (onf (writei dv ip addr (f_off (ftable d fd)) (word_of_int n1)) d) (\<lambda>r d.
           let d = (if 0 < r then upd_file fd (\<lambda>v. v\<lparr>f_off := f_off v + word_of_int r\<rparr>) d else d)
           in xbind (onf (iunlock ip) d) (\<lambda>_ d.
              xbind (onf f_end_op d) (\<lambda>_ d. Done r d))))))"

function filewrite_loop :: "devsw \<Rightarrow> nat \<Rightarrow> (nat \<Rightarrow> u8) \<Rightarrow> int \<Rightarrow> int \<Rightarrow> dstate \<Rightarrow> int dres" where
  "filewrite_loop dv fd addr n i d =
     (if i < n
      then let n1 = min (n - i) maxwrite
           in xbind (filewrite_chunk dv fd (\<lambda>k. addr (nat i + k)) n1 d) (\<lambda>r d.
                if r < 0 then Done (if i = n then n else - 1) d
                else if r \<noteq> n1 then Panicked ''short filewrite'' d
                else filewrite_loop dv fd addr n (i + n1) d)
      else Done (if i = n then n else - 1) d)"
  by pat_completeness auto
termination
  by (relation "measure (\<lambda>(dv, fd, addr, n, i, d). nat (n - i))") (auto simp: maxwrite_def MAXOPBLOCKS_def)

declare filewrite_loop.simps [simp del]

definition filewrite :: "devsw \<Rightarrow> nat \<Rightarrow> (nat \<Rightarrow> u8) \<Rightarrow> int \<Rightarrow> dstate \<Rightarrow> int dres" where
  "filewrite dv fd addr n d =
     (let v = ftable d fd
      in if \<not> f_writable v then Done (- 1) d
         else if f_type v = FD_PIPE
         then (case pipewrite (killed d) addr n (pipes d (f_pipe v)) of
                 Returned r x p \<Rightarrow> Done r (d\<lparr>pipes := (pipes d)(f_pipe v := p)\<rparr>)
               | Slept i p \<Rightarrow> Sleeping (d\<lparr>pipes := (pipes d)(f_pipe v := p)\<rparr>))
         else if f_type v = FD_INODE then filewrite_loop dv fd addr n 0 d
         else Panicked ''filewrite'' d)"

end
