(* ===== verification/XSysfile.thy ===== *)
theory XSysfile
  imports XArg XFd XDir
begin

text \<open>
  The system calls on files of xv6 (xv6-public/sysfile.c, and \<open>pipealloc\<close> of pipe.c), for one process: its
  memory and stack pointer, its table of descriptors and its directory, above the files of the kernel
  (theory XFd). A call that sleeps ends in \<open>Sleeping\<close>. \<open>sys_exec\<close> is not modelled, as \<open>exec\<close> is not.
\<close>

unbundle bit_operations_syntax

section \<open>State\<close>

definition NOFILE :: nat where "NOFILE = 16"

record ystate =
  yp :: uproc
  yd :: dstate
  ofile :: "nat option list"
  cwd :: nat

type_synonym 'a yres = "('a, ystate) sres"

definition ond :: "(dstate \<Rightarrow> 'a dres) \<Rightarrow> ystate \<Rightarrow> 'a yres" where
  "ond m y =
     (case m (yd y) of
        Done x d \<Rightarrow> Done x (y\<lparr>yd := d\<rparr>)
      | Panicked msg d \<Rightarrow> Panicked msg (y\<lparr>yd := d\<rparr>)
      | Sleeping d \<Rightarrow> Sleeping (y\<lparr>yd := d\<rparr>)
      | Hang \<Rightarrow> Hang)"

definition onfs :: "(fstate \<Rightarrow> 'a fres) \<Rightarrow> ystate \<Rightarrow> 'a yres" where
  "onfs m y = ond (onf m) y"

text \<open>Stores into the memory of the process.\<close>

definition put_user :: "u32 \<Rightarrow> u8 list \<Rightarrow> ystate \<Rightarrow> ystate" where
  "put_user a bs y =
     y\<lparr>yp := (yp y)\<lparr>umem := (\<lambda>x. if unat (x - a) < length bs then bs ! unat (x - a) else umem (yp y) x)\<rparr>\<rparr>"

definition le16 :: "u16 \<Rightarrow> u8 list" where
  "le16 w = [ucast w, ucast (drop_bit 8 w)]"

definition le32 :: "u32 \<Rightarrow> u8 list" where
  "le32 w = [ucast w, ucast (drop_bit 8 w), ucast (drop_bit 16 w), ucast (drop_bit 24 w)]"

section \<open>Descriptors\<close>

definition argfd :: "nat \<Rightarrow> ystate \<Rightarrow> (nat \<times> nat) option" where
  "argfd n y =
     (case argint n (yp y) of
        None \<Rightarrow> None
      | Some w \<Rightarrow>
          let fd = sint w
          in if fd < 0 \<or> int NOFILE \<le> fd then None
             else (case ofile y ! nat fd of None \<Rightarrow> None | Some f \<Rightarrow> Some (nat fd, f)))"

definition fdalloc :: "nat \<Rightarrow> ystate \<Rightarrow> int \<times> ystate" where
  "fdalloc f y =
     (case find (\<lambda>fd. ofile y ! fd = None) [0..<NOFILE] of
        None \<Rightarrow> (- 1, y)
      | Some fd \<Rightarrow> (int fd, y\<lparr>ofile := (ofile y)[fd := Some f]\<rparr>))"

definition sys_dup :: "ystate \<Rightarrow> int yres" where
  "sys_dup y =
     (case argfd 0 y of
        None \<Rightarrow> Done (- 1) y
      | Some (_, f) \<Rightarrow>
          let (fd, y) = fdalloc f y
          in if fd < 0 then Done (- 1) y else xbind (ond (filedup f) y) (\<lambda>_ y. Done fd y))"

text \<open>None: the code accesses an element beyond the end of the descriptor table.\<close>

definition sys_dup2 :: "ystate \<Rightarrow> int yres option" where
  "sys_dup2 y =
     (case argfd 0 y of
        None \<Rightarrow> Some (Done (- 1) y)
      | Some (old_fd, f1) \<Rightarrow>
          (case argint 1 (yp y) of
             None \<Rightarrow> Some (Done (- 1) y)
           | Some w \<Rightarrow>
               let new_fd = sint w
               in if new_fd < 0 \<or> int NOFILE < new_fd then Some (Done (- 1) y)
                  else if new_fd \<noteq> int old_fd
                  then if length (ofile y) \<le> nat new_fd then None
                       else Some (xbind (case ofile y ! nat new_fd of None \<Rightarrow> Done () y | Some f2 \<Rightarrow> ond (fileclose f2) y) (\<lambda>_ y.
                              let y = y\<lparr>ofile := (ofile y)[nat new_fd := Some f1]\<rparr>
                              in xbind (ond (filedup f1) y) (\<lambda>_ y. Done new_fd y)))
                  else Some (Done new_fd y)))"

definition sys_read :: "devsw \<Rightarrow> ystate \<Rightarrow> int yres" where
  "sys_read dv y =
     (case argfd 0 y of
        None \<Rightarrow> Done (- 1) y
      | Some (_, f) \<Rightarrow>
          (case argint 2 (yp y) of
             None \<Rightarrow> Done (- 1) y
           | Some n \<Rightarrow>
               (case argptr 1 (sint n) (yp y) of
                  None \<Rightarrow> Done (- 1) y
                | Some p \<Rightarrow> xbind (ond (fileread dv f (sint n)) y) (\<lambda>(r, bs) y. Done r (put_user p bs y)))))"

definition sys_write :: "devsw \<Rightarrow> ystate \<Rightarrow> int yres" where
  "sys_write dv y =
     (case argfd 0 y of
        None \<Rightarrow> Done (- 1) y
      | Some (_, f) \<Rightarrow>
          (case argint 2 (yp y) of
             None \<Rightarrow> Done (- 1) y
           | Some n \<Rightarrow>
               (case argptr 1 (sint n) (yp y) of
                  None \<Rightarrow> Done (- 1) y
                | Some p \<Rightarrow> ond (filewrite dv f (\<lambda>k. umem (yp y) (p + word_of_nat k)) (sint n)) y)))"

definition sys_close :: "ystate \<Rightarrow> int yres" where
  "sys_close y =
     (case argfd 0 y of
        None \<Rightarrow> Done (- 1) y
      | Some (fd, f) \<Rightarrow>
          xbind (ond (fileclose f) (y\<lparr>ofile := (ofile y)[fd := None]\<rparr>)) (\<lambda>_ y. Done 0 y))"

definition sys_fstat :: "ystate \<Rightarrow> int yres" where
  "sys_fstat y =
     (case argfd 0 y of
        None \<Rightarrow> Done (- 1) y
      | Some (_, f) \<Rightarrow>
          (case argptr 1 20 (yp y) of
             None \<Rightarrow> Done (- 1) y
           | Some p \<Rightarrow>
               xbind (ond (filestat f) y) (\<lambda>r y.
                 case r of
                   None \<Rightarrow> Done (- 1) y
                 | Some st \<Rightarrow>
                     Done 0 (put_user (p + 16) (le32 (st_size st)) (put_user (p + 12) (le16 (st_nlink st))
                       (put_user (p + 8) (le32 (st_ino st)) (put_user (p + 4) (le32 (st_dev st)) (put_user p (le16 (st_type st)) y))))))))"

section \<open>Links\<close>

text \<open>The ends of a call that fails inside its transaction.\<close>

definition end_with :: "int \<Rightarrow> fstate \<Rightarrow> int fres" where
  "end_with r f = xbind (f_end_op f) (\<lambda>_ f. Done r f)"

definition link_undo :: "nat \<Rightarrow> fstate \<Rightarrow> int fres" where
  "link_undo ip f =
     xbind (ilock ip f) (\<lambda>_ f.
     xbind (iupdate ip (upd_inode ip (\<lambda>v. v\<lparr>i_nlink := i_nlink v - 1\<rparr>) f)) (\<lambda>_ f.
     xbind (iunlockput ip f) (\<lambda>_ f. end_with (- 1) f)))"

definition link_op :: "devsw \<Rightarrow> nat \<Rightarrow> u8 list \<Rightarrow> u8 list \<Rightarrow> fstate \<Rightarrow> int fres" where
  "link_op dv wd old new f =
     xbind (f_begin_op f) (\<lambda>_ f.
     xbind (namei dv wd old f) (\<lambda>r f.
       case r of
         None \<Rightarrow> end_with (- 1) f
       | Some ip \<Rightarrow>
           xbind (ilock ip f) (\<lambda>_ f.
             if i_type (inodes f ip) = T_DIR then xbind (iunlockput ip f) (\<lambda>_ f. end_with (- 1) f)
             else xbind (iupdate ip (upd_inode ip (\<lambda>v. v\<lparr>i_nlink := i_nlink v + 1\<rparr>) f)) (\<lambda>_ f.
                  xbind (iunlock ip f) (\<lambda>_ f.
                  xbind (nameiparent dv wd new (\<lambda>_. 0) f) (\<lambda>(r, name) f.
                    case r of
                      None \<Rightarrow> link_undo ip f
                    | Some dp \<Rightarrow>
                        xbind (ilock dp f) (\<lambda>_ f.
                        xbind (if i_dev (inodes f dp) \<noteq> i_dev (inodes f ip) then Done (- 1) f
                               else dirlink dv dp name (ucast (i_inum (inodes f ip))) f) (\<lambda>r f.
                          if r < 0 then xbind (iunlockput dp f) (\<lambda>_ f. link_undo ip f)
                          else xbind (iunlockput dp f) (\<lambda>_ f.
                               xbind (iput ip f) (\<lambda>_ f. end_with 0 f)))))))))) "

definition sys_link :: "devsw \<Rightarrow> ystate \<Rightarrow> int yres" where
  "sys_link dv y =
     (case argstr 0 (yp y) of
        None \<Rightarrow> Done (- 1) y
      | Some old \<Rightarrow>
          (case argstr 1 (yp y) of None \<Rightarrow> Done (- 1) y | Some new \<Rightarrow> onfs (link_op dv (cwd y) old new) y))"

function isdirempty_loop :: "devsw \<Rightarrow> nat \<Rightarrow> nat \<Rightarrow> nat \<Rightarrow> fstate \<Rightarrow> bool fres" where
  "isdirempty_loop dv dp sz off f =
     (if off < sz
      then xbind (readi dv dp (word_of_nat off) 16 f) (\<lambda>(r, de) f.
             if r \<noteq> 16 then Panicked ''isdirempty: readi'' f
             else if de_inum de \<noteq> 0 then Done False f
             else isdirempty_loop dv dp sz (off + 16) f)
      else Done True f)"
  by pat_completeness auto
termination by (relation "measure (\<lambda>(dv, dp, sz, off, f). sz - off)") auto

declare isdirempty_loop.simps [simp del]

definition isdirempty :: "devsw \<Rightarrow> nat \<Rightarrow> fstate \<Rightarrow> bool fres" where
  "isdirempty dv dp f = isdirempty_loop dv dp (unat (i_size (inodes f dp))) 32 f"

definition dot :: name where
  "dot i = (if i = 0 then 0x2E else 0)"

definition dotdot :: name where
  "dotdot i = (if i < 2 then 0x2E else 0)"

definition unlink_bad :: "nat \<Rightarrow> fstate \<Rightarrow> int fres" where
  "unlink_bad dp f = xbind (iunlockput dp f) (\<lambda>_ f. end_with (- 1) f)"

definition unlink_op :: "devsw \<Rightarrow> nat \<Rightarrow> u8 list \<Rightarrow> fstate \<Rightarrow> int fres" where
  "unlink_op dv wd path f =
     xbind (f_begin_op f) (\<lambda>_ f.
     xbind (nameiparent dv wd path (\<lambda>_. 0) f) (\<lambda>(r, name) f.
       case r of
         None \<Rightarrow> end_with (- 1) f
       | Some dp \<Rightarrow>
           xbind (ilock dp f) (\<lambda>_ f.
             if namecmp name dot = 0 \<or> namecmp name dotdot = 0 then unlink_bad dp f
             else xbind (dirlookup dv dp name f) (\<lambda>r f.
               case r of
                 None \<Rightarrow> unlink_bad dp f
               | Some (ip, off) \<Rightarrow>
                   xbind (ilock ip f) (\<lambda>_ f.
                     if sint (i_nlink (inodes f ip)) < 1 then Panicked ''unlink: nlink < 1'' f
                     else xbind (if i_type (inodes f ip) = T_DIR then isdirempty dv ip f else Done True f) (\<lambda>empty f.
                       if \<not> empty then xbind (iunlockput ip f) (\<lambda>_ f. unlink_bad dp f)
                       else xbind (writei dv dp (\<lambda>_. 0) (word_of_nat off) 16 f) (\<lambda>r f.
                         if r \<noteq> 16 then Panicked ''unlink: writei'' f
                         else xbind (if i_type (inodes f ip) = T_DIR
                                     then iupdate dp (upd_inode dp (\<lambda>v. v\<lparr>i_nlink := i_nlink v - 1\<rparr>) f)
                                     else Done () f) (\<lambda>_ f.
                              xbind (iunlockput dp f) (\<lambda>_ f.
                              xbind (iupdate ip (upd_inode ip (\<lambda>v. v\<lparr>i_nlink := i_nlink v - 1\<rparr>) f)) (\<lambda>_ f.
                              xbind (iunlockput ip f) (\<lambda>_ f. end_with 0 f)))))))))))"

definition sys_unlink :: "devsw \<Rightarrow> ystate \<Rightarrow> int yres" where
  "sys_unlink dv y =
     (case argstr 0 (yp y) of None \<Rightarrow> Done (- 1) y | Some path \<Rightarrow> onfs (unlink_op dv (cwd y) path) y)"

section \<open>Creating and opening\<close>

definition create_dots :: "devsw \<Rightarrow> nat \<Rightarrow> nat \<Rightarrow> fstate \<Rightarrow> unit fres" where
  "create_dots dv dp ip f =
     xbind (iupdate dp (upd_inode dp (\<lambda>v. v\<lparr>i_nlink := i_nlink v + 1\<rparr>) f)) (\<lambda>_ f.
     xbind (dirlink dv ip dot (ucast (i_inum (inodes f ip))) f) (\<lambda>r f.
       if r < 0 then Panicked ''create dots'' f
       else xbind (dirlink dv ip dotdot (ucast (i_inum (inodes f dp))) f) (\<lambda>r f.
              if r < 0 then Panicked ''create dots'' f else Done () f)))"

definition create :: "devsw \<Rightarrow> nat \<Rightarrow> u8 list \<Rightarrow> u16 \<Rightarrow> u16 \<Rightarrow> u16 \<Rightarrow> fstate \<Rightarrow> nat option fres" where
  "create dv wd path type major minor f =
     xbind (nameiparent dv wd path (\<lambda>_. 0) f) (\<lambda>(r, name) f.
       case r of
         None \<Rightarrow> Done None f
       | Some dp \<Rightarrow>
           xbind (ilock dp f) (\<lambda>_ f.
           xbind (dirlookup dv dp name f) (\<lambda>r f.
             case r of
               Some (ip, off) \<Rightarrow>
                 xbind (iunlockput dp f) (\<lambda>_ f.
                 xbind (ilock ip f) (\<lambda>_ f.
                   if type = T_FILE \<and> i_type (inodes f ip) = T_FILE then Done (Some ip) f
                   else xbind (iunlockput ip f) (\<lambda>_ f. Done None f)))
             | None \<Rightarrow>
                 xbind (ialloc (i_dev (inodes f dp)) type f) (\<lambda>ip f.
                 xbind (ilock ip f) (\<lambda>_ f.
                 xbind (iupdate ip (upd_inode ip (\<lambda>v. v\<lparr>i_major := major, i_minor := minor, i_nlink := 1\<rparr>) f)) (\<lambda>_ f.
                 xbind (if type = T_DIR then create_dots dv dp ip f else Done () f) (\<lambda>_ f.
                 xbind (dirlink dv dp name (ucast (i_inum (inodes f ip))) f) (\<lambda>r f.
                   if r < 0 then Panicked ''create: dirlink'' f
                   else xbind (iunlockput dp f) (\<lambda>_ f. Done (Some ip) f))))))))) "

text \<open>The inode that \<open>sys_open\<close> has found or made, locked.\<close>

definition open_inode :: "devsw \<Rightarrow> nat \<Rightarrow> u8 list \<Rightarrow> int \<Rightarrow> fstate \<Rightarrow> nat option fres" where
  "open_inode dv wd path omode f =
     xbind (f_begin_op f) (\<lambda>_ f.
       if omode AND O_CREATE \<noteq> 0
       then xbind (create dv wd path T_FILE 0 0 f) (\<lambda>r f.
              case r of None \<Rightarrow> xbind (f_end_op f) (\<lambda>_ f. Done None f) | Some ip \<Rightarrow> Done (Some ip) f)
       else xbind (namei dv wd path f) (\<lambda>r f.
              case r of
                None \<Rightarrow> xbind (f_end_op f) (\<lambda>_ f. Done None f)
              | Some ip \<Rightarrow>
                  xbind (ilock ip f) (\<lambda>_ f.
                    if i_type (inodes f ip) = T_DIR \<and> omode \<noteq> O_RDONLY
                    then xbind (iunlockput ip f) (\<lambda>_ f. xbind (f_end_op f) (\<lambda>_ f. Done None f))
                    else Done (Some ip) f)))"

definition open_fields :: "nat \<Rightarrow> int \<Rightarrow> xfile \<Rightarrow> xfile" where
  "open_fields ip omode v =
     v\<lparr>f_type := FD_INODE, f_ip := ip, f_off := 0, f_readable := (omode AND O_WRONLY = 0),
       f_writable := (omode AND O_WRONLY \<noteq> 0 \<or> omode AND O_RDWR \<noteq> 0)\<rparr>"

definition sys_open :: "devsw \<Rightarrow> ystate \<Rightarrow> int yres" where
  "sys_open dv y =
     (case argstr 0 (yp y) of
        None \<Rightarrow> Done (- 1) y
      | Some path \<Rightarrow>
          (case argint 1 (yp y) of
             None \<Rightarrow> Done (- 1) y
           | Some w \<Rightarrow>
               let omode = sint w
               in xbind (onfs (open_inode dv (cwd y) path omode) y) (\<lambda>r y.
                    case r of
                      None \<Rightarrow> Done (- 1) y
                    | Some ip \<Rightarrow>
                        (case filealloc (yd y) of
                           (None, d) \<Rightarrow> onfs (\<lambda>f. xbind (iunlockput ip f) (\<lambda>_ f. end_with (- 1) f)) (y\<lparr>yd := d\<rparr>)
                         | (Some f, d) \<Rightarrow>
                             let (fd, y) = fdalloc f (y\<lparr>yd := d\<rparr>)
                             in if fd < 0
                                then xbind (ond (fileclose f) y) (\<lambda>_ y.
                                       onfs (\<lambda>f. xbind (iunlockput ip f) (\<lambda>_ f. end_with (- 1) f)) y)
                                else xbind (onfs (\<lambda>f. xbind (iunlock ip f) (\<lambda>_ f. f_end_op f)) y) (\<lambda>_ y.
                                       Done fd (y\<lparr>yd := upd_file f (open_fields ip omode) (yd y)\<rparr>))))))"

definition sys_mkdir :: "devsw \<Rightarrow> ystate \<Rightarrow> int yres" where
  "sys_mkdir dv y =
     xbind (onfs f_begin_op y) (\<lambda>_ y.
       case argstr 0 (yp y) of
         None \<Rightarrow> onfs (end_with (- 1)) y
       | Some path \<Rightarrow>
           xbind (onfs (create dv (cwd y) path T_DIR 0 0) y) (\<lambda>r y.
             case r of
               None \<Rightarrow> onfs (end_with (- 1)) y
             | Some ip \<Rightarrow> onfs (\<lambda>f. xbind (iunlockput ip f) (\<lambda>_ f. end_with 0 f)) y))"

definition sys_mknod :: "devsw \<Rightarrow> ystate \<Rightarrow> int yres" where
  "sys_mknod dv y =
     xbind (onfs f_begin_op y) (\<lambda>_ y.
       case (argstr 0 (yp y), argint 1 (yp y), argint 2 (yp y)) of
         (Some path, Some major, Some minor) \<Rightarrow>
           xbind (onfs (create dv (cwd y) path T_DEV (ucast major) (ucast minor)) y) (\<lambda>r y.
             case r of
               None \<Rightarrow> onfs (end_with (- 1)) y
             | Some ip \<Rightarrow> onfs (\<lambda>f. xbind (iunlockput ip f) (\<lambda>_ f. end_with 0 f)) y)
       | _ \<Rightarrow> onfs (end_with (- 1)) y)"

definition sys_chdir :: "devsw \<Rightarrow> ystate \<Rightarrow> int yres" where
  "sys_chdir dv y =
     xbind (onfs f_begin_op y) (\<lambda>_ y.
       case argstr 0 (yp y) of
         None \<Rightarrow> onfs (end_with (- 1)) y
       | Some path \<Rightarrow>
           xbind (onfs (namei dv (cwd y) path) y) (\<lambda>r y.
             case r of
               None \<Rightarrow> onfs (end_with (- 1)) y
             | Some ip \<Rightarrow>
                 xbind (onfs (ilock ip) y) (\<lambda>_ y.
                   if i_type (inodes (dfs (yd y)) ip) \<noteq> T_DIR
                   then onfs (\<lambda>f. xbind (iunlockput ip f) (\<lambda>_ f. end_with (- 1) f)) y
                   else xbind (onfs (\<lambda>f. xbind (iunlock ip f) (\<lambda>_ f. xbind (iput (cwd y) f) (\<lambda>_ f. f_end_op f))) y) (\<lambda>_ y.
                          Done 0 (y\<lparr>cwd := ip\<rparr>)))))"

section \<open>Pipes\<close>

definition pipealloc_bad :: "nat option \<Rightarrow> nat option \<Rightarrow> dstate \<Rightarrow> (nat \<times> nat) option dres" where
  "pipealloc_bad f0 f1 d =
     xbind (case f0 of None \<Rightarrow> Done () d | Some f \<Rightarrow> fileclose f d) (\<lambda>_ d.
     xbind (case f1 of None \<Rightarrow> Done () d | Some f \<Rightarrow> fileclose f d) (\<lambda>_ d. Done None d))"

definition pipealloc :: "dstate \<Rightarrow> (nat \<times> nat) option dres" where
  "pipealloc d =
     (case filealloc d of
        (None, d) \<Rightarrow> pipealloc_bad None None d
      | (Some f0, d) \<Rightarrow>
          (case filealloc d of
             (None, d) \<Rightarrow> pipealloc_bad (Some f0) None d
           | (Some f1, d) \<Rightarrow>
               (case kmem d of
                  [] \<Rightarrow> pipealloc_bad (Some f0) (Some f1) d
                | p # pages \<Rightarrow>
                    let d = d\<lparr>kmem := pages, pipes := (pipes d)(p := pipe_init (pipes d p))\<rparr>;
                        d = upd_file f0 (\<lambda>v. v\<lparr>f_type := FD_PIPE, f_readable := True, f_writable := False, f_pipe := p\<rparr>) d;
                        d = upd_file f1 (\<lambda>v. v\<lparr>f_type := FD_PIPE, f_readable := False, f_writable := True, f_pipe := p\<rparr>) d
                    in Done (Some (f0, f1)) d)))"

definition sys_pipe :: "ystate \<Rightarrow> int yres" where
  "sys_pipe y =
     (case argptr 0 8 (yp y) of
        None \<Rightarrow> Done (- 1) y
      | Some p \<Rightarrow>
          xbind (ond pipealloc y) (\<lambda>r y.
            case r of
              None \<Rightarrow> Done (- 1) y
            | Some (rfile, wfile) \<Rightarrow>
                let (fd0, y) = fdalloc rfile y;
                    (fd1, y) = (if fd0 < 0 then (- 1, y) else fdalloc wfile y)
                in if fd0 < 0 \<or> fd1 < 0
                   then let y = (if 0 \<le> fd0 then y\<lparr>ofile := (ofile y)[nat fd0 := None]\<rparr> else y)
                        in xbind (ond (fileclose rfile) y) (\<lambda>_ y. xbind (ond (fileclose wfile) y) (\<lambda>_ y. Done (- 1) y))
                   else Done 0 (put_user (p + 4) (le32 (word_of_int fd1)) (put_user p (le32 (word_of_int fd0)) y))))"

end
