(* ===== verification/XSysThms.thy ===== *)
theory XSysThms
  imports XSysfile XFileThms
begin

text \<open>
  Reference counts of open files. Every system call keeps the count of a file equal to the number of
  descriptors that refer to it, in this process and (\<open>others\<close>) in others; so a file is closed exactly when
  its last descriptor is.
\<close>

section \<open>The table of files\<close>

definition refs_ok :: "(nat \<Rightarrow> nat) \<Rightarrow> dstate \<Rightarrow> bool" where
  "refs_ok c d \<longleftrightarrow> (\<forall>g. f_ref (ftable d g) = int (c g) \<and> (c g = 0 \<longrightarrow> f_type (ftable d g) = FD_NONE))"

lemma refs_okD: "refs_ok c d \<Longrightarrow> f_ref (ftable d g) = int (c g)" "refs_ok c d \<Longrightarrow> c g = 0 \<Longrightarrow> f_type (ftable d g) = FD_NONE"
  by (simp_all add: refs_ok_def)

lemma refs_ok_tab: "ftable d' = ftable d \<Longrightarrow> refs_ok c d' \<longleftrightarrow> refs_ok c d"
  by (simp add: refs_ok_def)

lemma onf_tab: "onf m d = Done x d' \<Longrightarrow> ftable d' = ftable d"
  by (auto simp: onf_def split: sres.splits)

lemma refs_ok_upd:
  "refs_ok c d \<Longrightarrow> f_ref (h (ftable d g)) = int n \<Longrightarrow> (n = 0 \<longrightarrow> f_type (h (ftable d g)) = FD_NONE) \<Longrightarrow> refs_ok (c(g := n)) (upd_file g h d)"
  by (auto simp: refs_ok_def upd_file_def)

lemma filealloc_refs:
  assumes "refs_ok c d" "filealloc d = (r, d')"
  shows "case r of None \<Rightarrow> d' = d | Some g \<Rightarrow> c g = 0 \<and> refs_ok (c(g := 1)) d'"
proof (cases r)
  case None
  then show ?thesis using assms(2) by (auto simp: filealloc_def split: option.splits)
next
  case (Some g)
  then have g: "find (\<lambda>fd. f_ref (ftable d fd) = 0) [0..<NFILE] = Some g" "d' = upd_file g (\<lambda>v. v\<lparr>f_ref := 1\<rparr>) d"
    using assms(2) by (auto simp: filealloc_def split: option.splits)
  have "f_ref (ftable d g) = 0" using g(1) by (auto simp: find_Some_iff)
  then show ?thesis using assms(1) refs_ok_upd [OF assms(1), of "\<lambda>v. v\<lparr>f_ref := 1\<rparr>" g 1] g(2) Some refs_okD(1) [OF assms(1), of g] by simp
qed

lemma filedup_refs:
  assumes "refs_ok c d" "filedup g d = Done x d'"
  shows "refs_ok (c(g := c g + 1)) d'"
  using assms refs_ok_upd [OF assms(1), of "\<lambda>v. v\<lparr>f_ref := f_ref v + 1\<rparr>" g "c g + 1"] refs_okD(1) [OF assms(1), of g]
  by (auto simp: filedup_def split: if_splits)

lemma d_pipeclose_tab: "ftable (d_pipeclose q w d) = ftable d"
  by (simp add: d_pipeclose_def Let_def split: prod.splits)

lemma fileclose_tab:
  assumes "fileclose g d = Done x d'"
  shows "1 \<le> f_ref (ftable d g) \<and> ftable d' =
    (ftable d)(g := if f_ref (ftable d g) = 1 then (ftable d g)\<lparr>f_ref := 0, f_type := FD_NONE\<rparr> else (ftable d g)\<lparr>f_ref := f_ref (ftable d g) - 1\<rparr>)"
  using assms
  by (auto simp: fileclose_def Let_def upd_file_def d_pipeclose_tab xbind_Done dest!: onf_tab split: if_splits)

lemma fileclose_refs:
  assumes "refs_ok c d" "fileclose g d = Done x d'"
  shows "1 \<le> c g \<and> refs_ok (c(g := c g - 1)) d'"
  using fileclose_tab [OF assms(2)] assms(1) by (auto simp: refs_ok_def)

lemma pipealloc_bad_refs:
  assumes "pipealloc_bad f0 f1 d = Done r d'" "refs_ok c d"
  shows "r = None \<and> refs_ok (case f1 of None \<Rightarrow> (case f0 of None \<Rightarrow> c | Some g \<Rightarrow> c(g := c g - 1))
     | Some h \<Rightarrow> let c = (case f0 of None \<Rightarrow> c | Some g \<Rightarrow> c(g := c g - 1)) in c(h := c h - 1)) d'"
proof -
  obtain d1 where d1: "(case f0 of None \<Rightarrow> Done () d | Some f \<Rightarrow> fileclose f d) = Done () d1"
      "(case f1 of None \<Rightarrow> Done () d1 | Some f \<Rightarrow> fileclose f d1) = Done () d'" "r = None"
    using assms(1) by (auto simp: pipealloc_bad_def xbind_Done)
  let ?c = "case f0 of None \<Rightarrow> c | Some g \<Rightarrow> c(g := c g - 1)"
  have c: "refs_ok ?c d1" using d1(1) fileclose_refs [OF assms(2)] assms(2) by (cases f0) auto
  show ?thesis using d1(2,3) fileclose_refs [OF c] c by (cases f1) (auto simp: Let_def)
qed

lemma pipealloc_refs:
  assumes d: "refs_ok c d" and r: "pipealloc d = Done r d'"
  shows "case r of None \<Rightarrow> refs_ok c d' | Some (g, h) \<Rightarrow> g \<noteq> h \<and> c g = 0 \<and> c h = 0 \<and> refs_ok (c(g := 1, h := 1)) d'"
proof -
  obtain f0 d0 where f0: "filealloc d = (f0, d0)" by fastforce
  obtain f1 d1 where f1: "filealloc d0 = (f1, d1)" by fastforce
  show ?thesis
  proof (cases f0)
    case None
    then show ?thesis using filealloc_refs [OF d f0] r f0 d pipealloc_bad_refs [of None None d r d' c] by (simp add: pipealloc_def)
  next
    case (Some g)
    then have g: "c g = 0" "refs_ok (c(g := 1)) d0" using filealloc_refs [OF d f0] by auto
    show ?thesis
    proof (cases f1)
      case None
      then have "d1 = d0" using filealloc_refs [OF g(2) f1] by simp
      moreover have "c(g := 0) = c" using g(1) by auto
      ultimately show ?thesis using r f0 f1 Some None g pipealloc_bad_refs [of "Some g" None d0 r d' "c(g := 1)"] by (simp add: pipealloc_def)
    next
      case h: (Some h)
      then have h': "(c(g := 1)) h = 0" "refs_ok (c(g := 1, h := 1)) d1" using filealloc_refs [OF g(2) f1] by auto
      then have gh: "g \<noteq> h" "c h = 0" by (auto split: if_splits)
      show ?thesis
      proof (cases "kmem d1")
        case Nil
        then have b: "pipealloc_bad (Some g) (Some h) d1 = Done r d'" using r f0 f1 Some h by (simp add: pipealloc_def)
        have "c(g := 0, h := 0) = c" using g(1) gh by auto
        then show ?thesis using pipealloc_bad_refs [OF b h'(2)] gh g(1) by (simp add: fun_upd_twist Let_def)
      next
        case (Cons p pages)
        then have "d' = upd_file h (\<lambda>v. v\<lparr>f_type := FD_PIPE, f_readable := False, f_writable := True, f_pipe := p\<rparr>)
            (upd_file g (\<lambda>v. v\<lparr>f_type := FD_PIPE, f_readable := True, f_writable := False, f_pipe := p\<rparr>)
              (d1\<lparr>kmem := pages, pipes := (pipes d1)(p := pipe_init (pipes d1 p))\<rparr>))" "r = Some (g, h)"
          using r f0 f1 Some h by (auto simp: pipealloc_def Let_def)
        then show ?thesis using h'(2) gh g(1) by (auto simp: refs_ok_def upd_file_def)
      qed
    qed
  qed
qed

section \<open>Descriptors\<close>

definition nrefs :: "ystate \<Rightarrow> nat \<Rightarrow> nat" where
  "nrefs y g = count_list (ofile y) (Some g)"

definition fd_inv :: "(nat \<Rightarrow> nat) \<Rightarrow> ystate \<Rightarrow> bool" where
  "fd_inv others y \<longleftrightarrow> length (ofile y) = NOFILE \<and> refs_ok (\<lambda>g. nrefs y g + others g) (yd y)"

lemma count_list_update:
  "i < length xs \<Longrightarrow> count_list (xs[i := v]) a + (if xs ! i = a then 1 else 0) = count_list xs a + (if v = a then 1 else 0)"
proof (induction xs arbitrary: i)
  case (Cons x xs)
  show ?case
  proof (cases i)
    case (Suc j)
    have "count_list (xs[j := v]) a + (if xs ! j = a then 1 else 0) = count_list xs a + (if v = a then 1 else 0)"
      using Cons Suc by simp
    then show ?thesis unfolding Suc by (cases "x = a"; cases "v = a"; cases "xs ! j = a") simp_all
  qed simp
qed simp

lemma ond_Done: "ond m y = Done x y' \<longleftrightarrow> (\<exists>d. m (yd y) = Done x d \<and> y' = y\<lparr>yd := d\<rparr>)"
  by (auto simp: ond_def split: sres.splits)

lemma onfs_Done: "onfs m y = Done x y' \<Longrightarrow> ofile y' = ofile y \<and> ftable (yd y') = ftable (yd y)"
  by (auto simp: onfs_def ond_Done dest: onf_tab)

lemma fd_inv_cong: "ofile y' = ofile y \<Longrightarrow> ftable (yd y') = ftable (yd y) \<Longrightarrow> fd_inv others y' = fd_inv others y"
  by (simp add: fd_inv_def nrefs_def refs_ok_def)

lemma fdalloc_props:
  assumes "length (ofile y) = NOFILE" "fdalloc f y = (fd, y')"
  shows "fd < 0 \<and> y' = y \<or> 0 \<le> fd \<and> nat fd < NOFILE \<and> ofile y ! nat fd = None \<and> y' = y\<lparr>ofile := (ofile y)[nat fd := Some f]\<rparr>"
  using assms by (auto simp: fdalloc_def find_Some_iff split: option.splits)

text \<open>A descriptor for a file: its entry, and its count.\<close>

lemma nrefs_set:
  assumes "length (ofile y) = NOFILE" "fd < NOFILE" "ofile y ! fd = None"
  shows "nrefs (y\<lparr>ofile := (ofile y)[fd := Some f]\<rparr>) = (nrefs y)(f := nrefs y f + 1)"
proof
  fix a show "nrefs (y\<lparr>ofile := (ofile y)[fd := Some f]\<rparr>) a = ((nrefs y)(f := nrefs y f + 1)) a"
    using count_list_update [of fd "ofile y" "Some f" "Some a"] assms by (cases "f = a") (simp_all add: nrefs_def)
qed

lemma nrefs_clear:
  assumes "length (ofile y) = NOFILE" "fd < NOFILE" "ofile y ! fd = Some f"
  shows "nrefs (y\<lparr>ofile := (ofile y)[fd := None]\<rparr>) = (nrefs y)(f := nrefs y f - 1)" "1 \<le> nrefs y f"
proof -
  have "count_list ((ofile y)[fd := None]) (Some a) + (if f = a then 1 else 0) = count_list (ofile y) (Some a)" for a
    using count_list_update [of fd "ofile y" None "Some a"] assms by simp
  note c = this
  show "nrefs (y\<lparr>ofile := (ofile y)[fd := None]\<rparr>) = (nrefs y)(f := nrefs y f - 1)"
  proof
    fix a show "nrefs (y\<lparr>ofile := (ofile y)[fd := None]\<rparr>) a = ((nrefs y)(f := nrefs y f - 1)) a"
      using c [of a] by (cases "f = a") (simp_all add: nrefs_def)
  qed
  show "1 \<le> nrefs y f" using c [of f] by (simp add: nrefs_def)
qed

lemma argfd_props: "argfd n y = Some (fd, f) \<Longrightarrow> fd < NOFILE \<and> ofile y ! fd = Some f"
  by (auto simp: argfd_def Let_def NOFILE_def split: option.splits if_splits)

lemma nrefs_yd [simp]: "nrefs (y\<lparr>yd := d\<rparr>) = nrefs y" "nrefs (put_user a bs y) = nrefs y"
  by (auto simp: nrefs_def put_user_def fun_eq_iff)

lemma put_user_kept [simp]: "ofile (put_user a bs y) = ofile y" "yd (put_user a bs y) = yd y"
  by (simp_all add: put_user_def)

lemma fd_inv_put_user [simp]: "fd_inv others (put_user a bs y) = fd_inv others y"
  by (rule fd_inv_cong) simp_all

lemma refs_ok_eq: "refs_ok c d \<Longrightarrow> c = c' \<Longrightarrow> refs_ok c' d"
  by simp

lemma sys_dup_refs:
  assumes I: "fd_inv others y" and r: "sys_dup y = Done r y'"
  shows "fd_inv others y'"
proof (cases "argfd 0 y")
  case None
  then show ?thesis using r I by (simp add: sys_dup_def)
next
  case (Some p)
  then obtain fd0 f where p: "argfd 0 y = Some (fd0, f)" by (cases p) auto
  obtain fd y1 where y1: "fdalloc f y = (fd, y1)" by fastforce
  have l: "length (ofile y) = NOFILE" "refs_ok (\<lambda>g. nrefs y g + others g) (yd y)" using I by (simp_all add: fd_inv_def)
  show ?thesis
  proof (cases "fd < 0")
    case True
    then show ?thesis using fdalloc_props [OF l(1) y1] r p y1 I by (simp add: sys_dup_def)
  next
    case False
    then have f: "nat fd < NOFILE" "ofile y ! nat fd = None" "y1 = y\<lparr>ofile := (ofile y)[nat fd := Some f]\<rparr>"
      using fdalloc_props [OF l(1) y1] by auto
    obtain x d where d: "filedup f (yd y) = Done x d" "y' = y1\<lparr>yd := d\<rparr>"
      using r p y1 False f(3) by (auto simp: sys_dup_def xbind_Done ond_Done)
    have "nrefs y' = (nrefs y)(f := nrefs y f + 1)" using nrefs_set [OF l(1) f(1,2), of f] d(2) f(3) by simp
    then show ?thesis using filedup_refs [OF l(2) d(1)] d(2) f(3) l(1)
      by (auto simp: fd_inv_def elim!: refs_ok_eq)
  qed
qed

lemma sys_close_refs:
  assumes I: "fd_inv others y" and r: "sys_close y = Done r y'"
  shows "fd_inv others y'"
proof (cases "argfd 0 y")
  case None
  then show ?thesis using r I by (simp add: sys_close_def)
next
  case (Some p)
  then obtain fd f where p: "argfd 0 y = Some (fd, f)" by (cases p) auto
  have l: "length (ofile y) = NOFILE" "refs_ok (\<lambda>g. nrefs y g + others g) (yd y)" using I by (simp_all add: fd_inv_def)
  note q = argfd_props [OF p]
  obtain x d where d: "fileclose f (yd y) = Done x d" "y' = y\<lparr>ofile := (ofile y)[fd := None], yd := d\<rparr>"
    using r p by (auto simp: sys_close_def xbind_Done ond_Done)
  have "nrefs y' = (nrefs y)(f := nrefs y f - 1)" "1 \<le> nrefs y f"
    using nrefs_clear [OF l(1), of fd f] q d(2) by (simp_all add: nrefs_def fun_eq_iff)
  then show ?thesis using fileclose_refs [OF l(2) d(1)] d(2) l(1)
    by (auto simp: fd_inv_def elim!: refs_ok_eq)
qed

lemma sys_dup2_refs:
  assumes I: "fd_inv others y" and r: "sys_dup2 y = Some (Done r y')"
  shows "fd_inv others y'"
proof (cases "y' = y")
  case True
  then show ?thesis using I by simp
next
  case False
  have l: "length (ofile y) = NOFILE" "refs_ok (\<lambda>g. nrefs y g + others g) (yd y)" using I by (simp_all add: fd_inv_def)
  obtain old f1 where p: "argfd 0 y = Some (old, f1)" using False r by (cases "argfd 0 y") (auto simp: sys_dup2_def)
  obtain w where w: "argint 1 (yp y) = Some w" using False r p by (cases "argint 1 (yp y)") (auto simp: sys_dup2_def)
  define new where "new = nat (sint w)"
  have new: "new < NOFILE"
    using False r p w l(1) by (auto simp: sys_dup2_def new_def Let_def split: if_splits)
  obtain y1 x d where y1: "(case ofile y ! new of None \<Rightarrow> Done () y | Some f2 \<Rightarrow> ond (fileclose f2) y) = Done () y1"
    and d: "filedup f1 (yd y1) = Done x d" "y' = y1\<lparr>ofile := (ofile y1)[new := Some f1], yd := d\<rparr>"
    using False r p w l(1) by (auto simp: sys_dup2_def new_def Let_def xbind_Done ond_Done split: if_splits)
  let ?z = "y\<lparr>ofile := (ofile y)[new := None]\<rparr>"
  have z: "refs_ok (\<lambda>g. nrefs ?z g + others g) (yd y1) \<and> ofile y1 = ofile y"
  proof (cases "ofile y ! new")
    case None
    then have "?z = y" by (metis list_update_id ystate.surjective ystate.update_convs(3))
    then show ?thesis using y1 None l(2) by simp
  next
    case (Some f2)
    then obtain d2 where d2: "fileclose f2 (yd y) = Done () d2" "y1 = y\<lparr>yd := d2\<rparr>" using y1 by (auto simp: ond_Done)
    show ?thesis using fileclose_refs [OF l(2) d2(1)] nrefs_clear [OF l(1) new Some] d2(2)
      by (auto elim!: refs_ok_eq)
  qed
  have n: "nrefs (?z\<lparr>ofile := (ofile ?z)[new := Some f1]\<rparr>) = (nrefs ?z)(f1 := nrefs ?z f1 + 1)"
    using nrefs_set [of ?z new f1] l(1) new by simp
  have "nrefs y' = (nrefs ?z)(f1 := nrefs ?z f1 + 1)" using n d(2) z by (simp add: nrefs_def fun_eq_iff)
  then show ?thesis using filedup_refs [OF conjunct1 [OF z] d(1)] d(2) z l(1)
    by (auto simp: fd_inv_def elim!: refs_ok_eq)
qed

lemma sys_pipe_refs:
  assumes I: "fd_inv others y" and r: "sys_pipe y = Done r y'"
  shows "fd_inv others y'"
proof (cases "argptr 0 8 (yp y)")
  case None
  then show ?thesis using r I by (simp add: sys_pipe_def)
next
  case (Some p)
  have l: "length (ofile y) = NOFILE" "refs_ok (\<lambda>g. nrefs y g + others g) (yd y)" using I by (simp_all add: fd_inv_def)
  obtain q d where q: "pipealloc (yd y) = Done q d" using r Some by (auto simp: sys_pipe_def xbind_Done ond_Done)
  show ?thesis
  proof (cases q)
    case None
    then show ?thesis using r Some q pipealloc_refs [OF l(2) q] l(1) by (auto simp: sys_pipe_def ond_def fd_inv_def)
  next
    case (Some gh)
    then obtain g h where gh: "q = Some (g, h)" by (cases gh) auto
    have c: "g \<noteq> h" "nrefs y g + others g = 0" "nrefs y h + others h = 0" "refs_ok ((\<lambda>g. nrefs y g + others g)(g := 1, h := 1)) d"
      using pipealloc_refs [OF l(2) q] gh by auto
    let ?y1 = "y\<lparr>yd := d\<rparr>"
    have l1: "length (ofile ?y1) = NOFILE" using l(1) by simp
    obtain fd0 y2 where y2: "fdalloc g ?y1 = (fd0, y2)" by fastforce
    obtain fd1 y3 where y3: "(if fd0 < 0 then (- 1, y2) else fdalloc h y2) = (fd1, y3)" by fastforce
    show ?thesis
    proof (cases "fd0 < 0 \<or> fd1 < 0")
      case True
      let ?y4 = "if 0 \<le> fd0 then y3\<lparr>ofile := (ofile y3)[nat fd0 := None]\<rparr> else y3"
      obtain d1 d2 where d1: "fileclose g (yd ?y4) = Done () d1" "fileclose h d1 = Done () d2" "y' = ?y4\<lparr>yd := d2\<rparr>"
        using r True \<open>argptr 0 8 (yp y) = Some p\<close> q gh y2 y3 by (auto simp: sys_pipe_def Let_def xbind_Done ond_Done)
      have y4: "ofile ?y4 = ofile y" "yd ?y4 = d"
      proof -
        have "y2 = ?y1 \<and> y3 = y2 \<and> fd0 < 0 \<or> 0 \<le> fd0 \<and> nat fd0 < NOFILE \<and> ofile y ! nat fd0 = None \<and> y2 = ?y1\<lparr>ofile := (ofile y)[nat fd0 := Some g]\<rparr>"
          using fdalloc_props [OF l1 y2] y3 by auto
        moreover have "y3 = y2" if "0 \<le> fd0" using fdalloc_props [of y2 h fd1 y3] y3 True that calculation l(1) by auto
        ultimately show "ofile ?y4 = ofile y" "yd ?y4 = d" by (auto simp: list_update_same_conv l(1))
      qed
      have "refs_ok ((\<lambda>g. nrefs y g + others g)(g := 0, h := 0)) d2"
        using fileclose_refs [OF conjunct2 [OF fileclose_refs [OF c(4) d1(1) [unfolded y4(2)]]] d1(2)] c(1) by (simp add: fun_upd_twist)
      moreover have "(\<lambda>g. nrefs y g + others g)(g := 0, h := 0) = (\<lambda>g. nrefs y' g + others g)"
        using c(2,3) y4(1) d1(3) by (auto simp: fun_eq_iff nrefs_def)
      ultimately show ?thesis using y4(1) d1(3) l(1) by (auto simp: fd_inv_def)
    next
      case False
      have f0: "nat fd0 < NOFILE" "ofile ?y1 ! nat fd0 = None" "y2 = ?y1\<lparr>ofile := (ofile ?y1)[nat fd0 := Some g]\<rparr>"
        using fdalloc_props [OF l1 y2] False by auto
      have l2: "length (ofile y2) = NOFILE" using f0(3) l1 by simp
      have f1: "nat fd1 < NOFILE" "ofile y2 ! nat fd1 = None" "y3 = y2\<lparr>ofile := (ofile y2)[nat fd1 := Some h]\<rparr>"
        using fdalloc_props [OF l2, of h fd1 y3] y3 False by auto
      have y': "y' = put_user (p + 4) (le32 (word_of_int fd1)) (put_user p (le32 (word_of_int fd0)) y3)"
        using r False \<open>argptr 0 8 (yp y) = Some p\<close> q gh y2 y3 by (auto simp: sys_pipe_def Let_def ond_def)
      have "nrefs y3 = (nrefs y)(g := nrefs y g + 1, h := nrefs y h + 1)"
        using nrefs_set [OF l1 f0(1,2), of g] nrefs_set [OF l2 f1(1,2), of h] f0(3) f1(3) c(1) by (simp add: fun_upd_other)
      then have "(\<lambda>g. nrefs y3 g + others g) = (\<lambda>g. nrefs y g + others g)(g := 1, h := 1)" using c(1,2,3) by (auto simp: fun_eq_iff)
      then show ?thesis using c(4) y' f0(3) f1(3) l2 by (simp add: fd_inv_def)
    qed
  qed
qed

lemma onfs_refs:
  assumes "onfs m y = Done x y'" "fd_inv others y"
  shows "fd_inv others y'"
  using assms(2) onfs_Done [OF assms(1)] by (simp add: fd_inv_cong [of y' y])

lemma fd_inv_cwd [simp]: "fd_inv others (y\<lparr>cwd := ip\<rparr>) = fd_inv others y"
  by (rule fd_inv_cong) simp_all

lemma sys_open_refs:
  assumes I: "fd_inv others y" and r: "sys_open dv y = Done r y'"
  shows "fd_inv others y'"
proof (cases "y' = y")
  case True
  then show ?thesis using I by simp
next
  case False
  obtain path where path: "argstr 0 (yp y) = Some path" using False r by (cases "argstr 0 (yp y)") (auto simp: sys_open_def)
  obtain w where w: "argint 1 (yp y) = Some w" using False r path by (cases "argint 1 (yp y)") (auto simp: sys_open_def)
  obtain q y1 where q: "onfs (open_inode dv (cwd y) path (sint w)) y = Done q y1" using r path w by (auto simp: sys_open_def Let_def xbind_Done)
  have I1: "fd_inv others y1" by (rule onfs_refs [OF q I])
  have l: "length (ofile y1) = NOFILE" "refs_ok (\<lambda>g. nrefs y1 g + others g) (yd y1)" using I1 by (simp_all add: fd_inv_def)
  show ?thesis
  proof (cases q)
    case None
    then show ?thesis using r path w q I1 by (simp add: sys_open_def)
  next
    case (Some ip)
    obtain fo d where fo: "filealloc (yd y1) = (fo, d)" by fastforce
    show ?thesis
    proof (cases fo)
      case None
      then have "d = yd y1" using filealloc_refs [OF l(2) fo] by simp
      then have "onfs (\<lambda>f. xbind (iunlockput ip f) (\<lambda>_ f. end_with (- 1) f)) y1 = Done r y'"
        using r path w q Some fo None by (simp add: sys_open_def)
      then show ?thesis using I1 by (rule onfs_refs)
    next
      case g: (Some g)
      let ?y2 = "y1\<lparr>yd := d\<rparr>"
      have c: "nrefs y1 g + others g = 0" "refs_ok ((\<lambda>g. nrefs y1 g + others g)(g := 1)) d" using filealloc_refs [OF l(2) fo] g by auto
      have l2: "length (ofile ?y2) = NOFILE" using l(1) by simp
      obtain fd y3 where y3: "fdalloc g ?y2 = (fd, y3)" by fastforce
      show ?thesis
      proof (cases "fd < 0")
        case True
        then have y3': "y3 = ?y2" using fdalloc_props [OF l2 y3] by auto
        obtain d4 where d4: "fileclose g d = Done () d4" "onfs (\<lambda>f. xbind (iunlockput ip f) (\<lambda>_ f. end_with (- 1) f)) (y3\<lparr>yd := d4\<rparr>) = Done r y'"
          using r path w q Some fo g y3 True y3' by (auto simp: sys_open_def xbind_Done ond_Done)
        have "refs_ok ((\<lambda>g. nrefs y1 g + others g)(g := 0)) d4" using fileclose_refs [OF c(2) d4(1)] by simp
        moreover have "(\<lambda>g. nrefs y1 g + others g)(g := 0) = (\<lambda>g. nrefs y1 g + others g)" using c(1) by (auto simp: fun_eq_iff)
        ultimately have "fd_inv others (y3\<lparr>yd := d4\<rparr>)" using y3' l(1) by (simp add: fd_inv_def)
        then show ?thesis by (rule onfs_refs [OF d4(2)])
      next
        case False
        have f: "nat fd < NOFILE" "ofile ?y2 ! nat fd = None" "y3 = ?y2\<lparr>ofile := (ofile ?y2)[nat fd := Some g]\<rparr>"
          using fdalloc_props [OF l2 y3] False by auto
        have e: "sys_open dv y = xbind (onfs (\<lambda>f. xbind (iunlock ip f) (\<lambda>_ f. f_end_op f)) y3)
            (\<lambda>_ y. Done fd (y\<lparr>yd := upd_file g (open_fields ip (sint w)) (yd y)\<rparr>))"
          using path w q Some fo g y3 False by (simp add: sys_open_def)
        obtain y4 u where y4: "onfs (\<lambda>f. xbind (iunlock ip f) (\<lambda>_ f. f_end_op f)) y3 = Done u y4"
            "y' = y4\<lparr>yd := upd_file g (open_fields ip (sint w)) (yd y4)\<rparr>"
          using r unfolding e xbind_Done by blast
        have n: "nrefs y3 = (nrefs y1)(g := nrefs y1 g + 1)" using nrefs_set [OF l2 f(1,2), of g] f(3) by simp
        have "(\<lambda>g. nrefs y3 g + others g) = (\<lambda>g. nrefs y1 g + others g)(g := 1)" using n c(1) by (auto simp: fun_eq_iff)
        then have I3: "fd_inv others y3" using c(2) f(3) l2 by (simp add: fd_inv_def)
        have "nrefs y4 g = nrefs y3 g" using onfs_Done [OF y4(1)] by (simp add: nrefs_def)
        then have I4: "fd_inv others y4" "nrefs y4 g = 1" using onfs_refs [OF y4(1) I3] n c(1) by simp_all
        have "refs_ok ((\<lambda>g. nrefs y4 g + others g)(g := nrefs y4 g + others g)) (upd_file g (open_fields ip (sint w)) (yd y4))"
          using I4 by (intro refs_ok_upd) (auto simp: fd_inv_def refs_ok_def open_fields_def)
        moreover have "(\<lambda>g. nrefs y4 g + others g)(g := nrefs y4 g + others g) = (\<lambda>g. nrefs y4 g + others g)" by auto
        ultimately have "refs_ok (\<lambda>g. nrefs y4 g + others g) (upd_file g (open_fields ip (sint w)) (yd y4))" by metis
        then show ?thesis using I4(1) y4(2) by (simp add: fd_inv_def)
      qed
    qed
  qed
qed

text \<open>Reading and writing move the offset of a file only.\<close>

definition same_refs :: "dstate \<Rightarrow> dstate \<Rightarrow> bool" where
  "same_refs d d' \<longleftrightarrow> (\<forall>g. f_ref (ftable d' g) = f_ref (ftable d g) \<and> f_type (ftable d' g) = f_type (ftable d g))"

lemma same_refs_refl [simp]: "same_refs d d"
  by (simp add: same_refs_def)

lemma same_refs_trans [trans]: "same_refs d e \<Longrightarrow> same_refs e f \<Longrightarrow> same_refs d f"
  by (simp add: same_refs_def)

lemma same_refs_tab: "ftable d' = ftable d \<Longrightarrow> same_refs d d'"
  by (simp add: same_refs_def)

lemma same_refs_off: "same_refs d (upd_file fd (\<lambda>v. v\<lparr>f_off := h v\<rparr>) d)"
  by (simp add: same_refs_def upd_file_def)

lemma fd_inv_same_refs: "fd_inv others y \<Longrightarrow> same_refs (yd y) d \<Longrightarrow> fd_inv others (y\<lparr>yd := d\<rparr>)"
  by (simp add: fd_inv_def refs_ok_def same_refs_def)

lemma fileread_same: "fileread dv fd n d = Done x d' \<Longrightarrow> same_refs d d'"
  by (auto simp: fileread_def Let_def xbind_Done same_refs_def upd_file_def
      split: if_splits pipe_res.splits prod.splits dest!: onf_tab)

lemma filewrite_chunk_same: "filewrite_chunk dv fd addr n1 d = Done r d' \<Longrightarrow> same_refs d d'"
  by (auto simp: filewrite_chunk_def Let_def xbind_Done same_refs_def upd_file_def split: if_splits dest!: onf_tab)

lemma filewrite_loop_same: "filewrite_loop dv fd addr n i d = Done r d' \<Longrightarrow> same_refs d d'"
proof (induction dv fd addr n i d rule: filewrite_loop.induct)
  case (1 dv fd addr n i d)
  show ?case
  proof (cases "i < n")
    case False
    then show ?thesis using "1.prems" by (simp add: filewrite_loop.simps [of dv fd addr n i d])
  next
    case True
    let ?n1 = "min (n - i) maxwrite"
    obtain r1 d1 where c: "filewrite_chunk dv fd (\<lambda>k. addr (nat i + k)) ?n1 d = Done r1 d1"
        and k: "(if r1 < 0 then Done (if i = n then n else - 1) d1 else if r1 \<noteq> ?n1 then Panicked ''short filewrite'' d1
          else filewrite_loop dv fd addr n (i + ?n1) d1) = Done r d'"
      using "1.prems" True by (auto simp: filewrite_loop.simps [of dv fd addr n i d] xbind_Done Let_def)
    have "same_refs d1 d'"
      using k "1.IH" [OF True refl, of r1 d1] by (auto split: if_splits)
    then show ?thesis using filewrite_chunk_same [OF c] same_refs_trans by blast
  qed
qed

lemma filewrite_same: "filewrite dv fd addr n d = Done r d' \<Longrightarrow> same_refs d d'"
  by (auto simp: filewrite_def Let_def same_refs_def split: if_splits pipe_res.splits dest: filewrite_loop_same [unfolded same_refs_def])

section \<open>Every sequence of calls\<close>

text \<open>
  A step of the process: a system call that returns, or anything the process does to its own memory.
\<close>

inductive fd_step :: "devsw \<Rightarrow> ystate \<Rightarrow> ystate \<Rightarrow> bool" for dv where
  c_user: "fd_step dv y (y\<lparr>yp := p\<rparr>)"
| c_dup: "sys_dup y = Done r y' \<Longrightarrow> fd_step dv y y'"
| c_dup2: "sys_dup2 y = Some (Done r y') \<Longrightarrow> fd_step dv y y'"
| c_read: "sys_read dv y = Done r y' \<Longrightarrow> fd_step dv y y'"
| c_write: "sys_write dv y = Done r y' \<Longrightarrow> fd_step dv y y'"
| c_close: "sys_close y = Done r y' \<Longrightarrow> fd_step dv y y'"
| c_fstat: "sys_fstat y = Done r y' \<Longrightarrow> fd_step dv y y'"
| c_link: "sys_link dv y = Done r y' \<Longrightarrow> fd_step dv y y'"
| c_unlink: "sys_unlink dv y = Done r y' \<Longrightarrow> fd_step dv y y'"
| c_open: "sys_open dv y = Done r y' \<Longrightarrow> fd_step dv y y'"
| c_mkdir: "sys_mkdir dv y = Done r y' \<Longrightarrow> fd_step dv y y'"
| c_mknod: "sys_mknod dv y = Done r y' \<Longrightarrow> fd_step dv y y'"
| c_chdir: "sys_chdir dv y = Done r y' \<Longrightarrow> fd_step dv y y'"
| c_pipe: "sys_pipe y = Done r y' \<Longrightarrow> fd_step dv y y'"

inductive fd_reach :: "devsw \<Rightarrow> ystate \<Rightarrow> ystate \<Rightarrow> bool" for dv y where
  start: "fd_reach dv y y"
| step: "fd_reach dv y y' \<Longrightarrow> fd_step dv y' y'' \<Longrightarrow> fd_reach dv y y''"

lemma filestat_same: "filestat fd d = Done x d' \<Longrightarrow> same_refs d d'"
  by (auto simp: filestat_def Let_def xbind_Done split: if_splits dest!: onf_tab intro!: same_refs_tab)

lemma fd_step_inv: "fd_step dv y y' \<Longrightarrow> fd_inv others y \<Longrightarrow> fd_inv others y'"
proof (induction rule: fd_step.induct)
  case (c_user y p)
  then show ?case by (simp add: fd_inv_def nrefs_def)
next
  case (c_read y r y')
  then show ?case
    by (auto simp: sys_read_def xbind_Done ond_Done split: option.splits dest!: fileread_same intro!: fd_inv_same_refs)
next
  case (c_write y r y')
  then show ?case
    by (auto simp: sys_write_def ond_Done split: option.splits dest!: filewrite_same intro!: fd_inv_same_refs)
next
  case (c_fstat y r y')
  then show ?case
    by (auto simp: sys_fstat_def xbind_Done ond_Done split: option.splits dest!: filestat_same intro!: fd_inv_same_refs)
next
  case (c_link y r y')
  then show ?case by (auto simp: sys_link_def split: option.splits intro: onfs_refs)
next
  case (c_unlink y r y')
  then show ?case by (auto simp: sys_unlink_def split: option.splits intro: onfs_refs)
next
  case (c_mkdir y r y')
  then show ?case by (auto simp: sys_mkdir_def xbind_Done fd_inv_def nrefs_def refs_ok_def split: option.splits dest!: onfs_Done)
next
  case (c_mknod y r y')
  obtain u t where t: "onfs f_begin_op y = Done u t"
      "(case (argstr 0 (yp t), argint 1 (yp t), argint 2 (yp t)) of
         (Some path, Some major, Some minor) \<Rightarrow>
           xbind (onfs (create dv (cwd t) path T_DEV (ucast major) (ucast minor)) t) (\<lambda>r y.
             case r of
               None \<Rightarrow> onfs (end_with (- 1)) y
             | Some ip \<Rightarrow> onfs (\<lambda>f. xbind (iunlockput ip f) (\<lambda>_ f. end_with 0 f)) y)
       | _ \<Rightarrow> onfs (end_with (- 1)) t) = Done r y'"
    using c_mknod(1) unfolding sys_mknod_def xbind_Done by blast
  have "fd_inv others t" by (rule onfs_refs [OF t(1) c_mknod(2)])
  then show ?case using t(2)
    by (cases "argstr 0 (yp t)"; cases "argint 1 (yp t)"; cases "argint 2 (yp t)")
      (auto simp: xbind_Done fd_inv_def nrefs_def refs_ok_def split: option.splits dest!: onfs_Done)
next
  case (c_chdir y r y')
  then show ?case
    by (auto simp: sys_chdir_def xbind_Done fd_inv_def nrefs_def refs_ok_def split: option.splits if_splits dest!: onfs_Done)
qed (auto intro: sys_dup_refs sys_dup2_refs sys_close_refs sys_open_refs sys_pipe_refs)


text \<open>A process with one pipe end open, before and after \<open>dup(0)\<close>.\<close>

definition ex_y :: ystate where
  "ex_y = \<lparr>yp = \<lparr>usz = 0x1000, uesp = 0, umem = (\<lambda>_. 0)\<rparr>,
     yd = \<lparr>dfs = ex_fs T_FILE,
           ftable = (\<lambda>g. \<lparr>f_type = (if g = 0 then FD_PIPE else FD_NONE), f_ref = (if g = 0 then 1 else 0), f_readable = True, f_writable = False,
                          f_pipe = 0, f_ip = 0, f_off = 0\<rparr>),
           pipes = (\<lambda>_. \<lparr>p_data = (\<lambda>_. 0), nread = 0, nwrite = 0, readopen = True, writeopen = True\<rparr>), kmem = [], killed = False\<rparr>,
     ofile = Some 0 # replicate 15 None, cwd = 0\<rparr>"


text \<open>
  The bound of \<open>dup2\<close> is off by one: descriptor NOFILE passes its check, and the table has no such entry
  (in the code it is the pointer to the current directory, which follows it in \<open>struct proc\<close>).
\<close>

lemma dup2_beyond_the_table:
  assumes "length (ofile y) = NOFILE" "argfd 0 y = Some (old, f)" "argint 1 (yp y) = Some 16"
  shows "sys_dup2 y = None"
proof -
  have "sint (16 :: u32) = 16" by simp
  then show ?thesis using assms argfd_props [OF assms(2)] by (simp add: sys_dup2_def NOFILE_def)
qed

end
