(* ===== verification/XFdThms.thy ===== *)
theory XFdThms
  imports XFd XFileThms
begin

text \<open>
  A write to an open file is durable when it returns: through the loop of \<open>filewrite\<close>, the transactions of
  the log and the buffer cache, the bytes are on the disk.
\<close>

section \<open>Between transactions\<close>

text \<open>No system call is in progress: nothing is logged, and the cache agrees with the disk.\<close>

definition at_rest :: "fstate \<Rightarrow> bool" where
  "at_rest f \<longleftrightarrow> binv (fx f) {} \<and> dirtyb (fx f) = {} \<and> log_ok (flog f) \<and> lh_n (flog f) = 0 \<and> outstanding (flog f) = 0
     \<and> \<not> committing (flog f) \<and> 30 \<le> l_size (flog f)"

definition in_op :: "fstate \<Rightarrow> fstate" where
  "in_op f = f\<lparr>flog := (flog f)\<lparr>outstanding := 1\<rparr>\<rparr>"

lemma in_op_fields [simp]:
  "fx (in_op f) = fx f" "fsb (in_op f) = fsb f" "inodes (in_op f) = inodes f" "fgeo (in_op f) = fgeo f" "fview (in_op f) = fview f"
  "outstanding (flog (in_op f)) = 1" "committing (flog (in_op f)) = committing (flog f)" "flogged (in_op f) = flogged f"
  by (simp_all add: in_op_def fgeo_def fview_def flogged_def logged_def)

lemma begin_run:
  assumes "at_rest f"
  shows "f_begin_op f = Done () (in_op f)" "txn (in_op f) {}" "nlog (in_op f) = 0"
proof -
  show "f_begin_op f = Done () (in_op f)"
    using assms by (simp add: f_begin_op_def begin_op_def at_rest_def in_op_def LOGSIZE_def MAXOPBLOCKS_def)
  have l: "flogged f = {}" using assms by (simp add: at_rest_def flogged_def logged_def)
  then show "txn (in_op f) {}" "nlog (in_op f) = 0"
    using assms by (auto simp: txn_def at_rest_def nlog_def log_ok_def logged_def in_op_def flogged_def)
qed

text \<open>What the end of the last system call in progress does.\<close>

definition same_outside_log :: "fstate \<Rightarrow> fstate \<Rightarrow> bool" where
  "same_outside_log f f' \<longleftrightarrow> inodes f' = inodes f \<and> fgeo f' = fgeo f \<and> fsb f' = fsb f \<and> curpid (fx f') = curpid (fx f)
     \<and> (\<forall>b. \<not> in_log (l_start (flog f)) b \<longrightarrow> fview f' b = fview f b)"

lemma commit_clean:
  assumes I: "binv s {}" and L: "log_ok lg" "0 < lh_n lg" and dt: "dirtyb s = set (logged lg)"
  shows "\<exists>t. commit lg s = Done (lg\<lparr>lh_n := 0\<rparr>) t \<and> binv t {} \<and> dirtyb t = {} \<and> curpid t = curpid s
    \<and> (\<forall>b. \<not> in_log (l_start lg) b \<longrightarrow> view t b = view s b)"
proof -
  let ?h = "l_start lg" and ?as = "logged lg" and ?d = "\<lambda>n. disk s (1, n)"
  let ?ws = "rlog.commit_writes ?h ?as (view s) ?d"
  note D = log_okD [OF L(1)]
  have fit: "unat ?h + 30 \<le> 1000" using L(1) by (simp add: log_ok_def)
  obtain t where t: "commit lg s = Done (lg\<lparr>lh_n := 0\<rparr>) t" "performs s ?ws t" using commit_run [OF I L dt refl] by blast
  have new: "(if b \<in> set ?as then view s b else ?d b) = view s b" for b using view_disk [OF I, of b] dt by simp
  have "set ?as \<subseteq> fst ` set ?ws"
    by (auto simp: rlog.commit_writes_def rlog.home_writes_def in_set_conv_nth image_Un image_image)
  then have clean: "dirtyb t = {}" using t(2) dt by (auto simp: performs_def)
  have bt: "binv t {}" "curpid t = curpid s" using t(2) by (auto simp: performs_def)
  have "view t b = view s b" if "\<not> in_log ?h b" for b
    using fun_cong [OF performs_disk [OF t(2)], of b] rlog.commit_result [OF D(1), of b "view s" ?d] that area_in_log [OF fit, of b] new
      clean_view [OF bt(1) clean] by simp
  then show ?thesis using t(1) bt clean by blast
qed

lemma end_run:
  assumes t: "txn f {}" and o: "outstanding (flog f) = 1" "\<not> committing (flog f)"
  shows "\<exists>f'. f_end_op f = Done () f' \<and> at_rest f' \<and> same_outside_log f f'"
proof -
  let ?lg = "(flog f)\<lparr>outstanding := 0, committing := True\<rparr>"
  have I: "binv (fx f) {}" and dt: "dirtyb (fx f) = set (logged ?lg)" and L: "log_ok ?lg" "30 \<le> l_size ?lg"
    using t by (auto simp: txn_def flogged_def logged_def log_ok_def)
  have e: "end_op (flog f) (fx f) = xbind (commit ?lg (fx f)) (\<lambda>lg s. Done (lg\<lparr>committing := False\<rparr>) s)"
    using o by (simp add: end_op_def Let_def)
  show ?thesis
  proof (cases "0 < lh_n ?lg")
    case True
    obtain s where s: "commit ?lg (fx f) = Done (?lg\<lparr>lh_n := 0\<rparr>) s" "binv s {}" "dirtyb s = {}" "curpid s = curpid (fx f)"
        "\<forall>b. \<not> in_log (l_start ?lg) b \<longrightarrow> view s b = view (fx f) b"
      using commit_clean [OF I L(1) True dt] by blast
    let ?f = "f\<lparr>fx := s, flog := ?lg\<lparr>lh_n := 0, committing := False\<rparr>\<rparr>"
    have "f_end_op f = Done () ?f" using e s(1) by (simp add: f_end_op_def onlog_def onx_def)
    moreover have "at_rest ?f" using s(2,3) L by (simp add: at_rest_def log_ok_def logged_def)
    moreover have "same_outside_log f ?f" using s(4,5) by (simp add: same_outside_log_def fgeo_def fview_def)
    ultimately show ?thesis by blast
  next
    case False
    then have n: "lh_n (flog f) = 0" using L(1) by (simp add: log_ok_def)
    let ?f = "f\<lparr>flog := ?lg\<lparr>committing := False\<rparr>\<rparr>"
    have "f_end_op f = Done () ?f" using e n by (simp add: f_end_op_def onlog_def onx_def commit_def)
    moreover have "at_rest ?f" using I dt n L by (simp add: at_rest_def logged_def log_ok_def)
    moreover have "same_outside_log f ?f" by (simp add: same_outside_log_def fgeo_def fview_def)
    ultimately show ?thesis by blast
  qed
qed

section \<open>The file\<close>

definition file_ok :: "fstate \<Rightarrow> nat \<Rightarrow> bool" where
  "file_ok f ip \<longleftrightarrow> layout (fgeo f) (fview f) \<and> ino_ok (fgeo f) (fview f) (inodes f ip) \<and> isync f ip"

text \<open>The contents of a file do not depend on the log's own blocks.\<close>

lemma used_outside: "\<not> in_log (snd g) (bmblk g) \<Longrightarrow> \<forall>b. \<not> in_log (snd g) b \<longrightarrow> v' b = v b \<Longrightarrow> used g v' n = used g v n"
  by (simp add: used_def)

lemma file_outside:
  assumes l: "layout g v" and I: "ino_ok g v i" and eq: "\<forall>b. \<not> in_log (snd g) b \<longrightarrow> v' b = v b"
  shows "layout g v'" "ino_ok g v' i" "file_bytes v' i = file_bytes v i" "free_blocks g v' = free_blocks g v"
proof -
  have bm: "\<not> in_log (snd g) (bmblk g)" using l by (simp add: layout_def)
  have u: "used g v' n = used g v n" for n by (rule used_outside [OF bm eq])
  then have db: "data_block g v' n = data_block g v n" for n by (simp add: data_block_def)
  have d: "v' n = v n" if "data_block g v n" for n using eq that by (simp add: data_block_def)
  have i12: "v' (i_addrs i 12) = v (i_addrs i 12)" if "i_addrs i 12 \<noteq> 0"
    using d ino_okD(4) [OF I, of 140] that by (simp add: fslot_def)
  have a: "addr_of v' i k = addr_of v i k" for k using i12 by (simp add: addr_of_def)
  have fsl: "fslot v' i k = fslot v i k" for k by (simp add: fslot_def a)
  show "layout g v'" using l u by (simp add: layout_def)
  show "ino_ok g v' i" using I unfolding ino_ok_def fsl db .
  show "free_blocks g v' = free_blocks g v" by (simp add: free_blocks_def u)
  have "byte_of v' i k = byte_of v i k" if "k < unat (i_size i)" for k
  proof (cases "addr_of v i (k div 512) = 0")
    case True
    then show ?thesis by (simp add: byte_of_def a)
  next
    case False
    have "k < 71680" using that ino_okD(3) [OF I] by simp
    then have k: "k div 512 < 140" by (simp add: less_mult_imp_div_less)
    then have "data_block g v (addr_of v i (k div 512))" using ino_okD(4) [OF I, of "k div 512"] False by (simp add: fslot_def)
    then show ?thesis using d by (simp add: byte_of_def a)
  qed
  then show "file_bytes v' i = file_bytes v i" by (simp add: file_bytes_def)
qed

lemma file_ok_outside:
  assumes "file_ok f ip" "same_outside_log f f'"
  shows "file_ok f' ip" "file_bytes (fview f') (inodes f' ip) = file_bytes (fview f) (inodes f ip)"
    "free_blocks (fgeo f') (fview f') = free_blocks (fgeo f) (fview f)"
proof -
  have s: "inodes f' = inodes f" "fgeo f' = fgeo f" and eq: "\<forall>b. \<not> in_log (snd (fgeo f)) b \<longrightarrow> fview f' b = fview f b"
    using assms(2) by (auto simp: same_outside_log_def fgeo_def)
  have l: "layout (fgeo f) (fview f)" and I: "ino_ok (fgeo f) (fview f) (inodes f ip)" and y: "isync f ip"
    using assms(1) by (simp_all add: file_ok_def)
  note F = file_outside [OF l I eq]
  have "fview f' (iblk (fgeo f) (inodes f ip)) = fview f (iblk (fgeo f) (inodes f ip))"
    using eq ino_okD(2) [OF I] by (simp add: data_block_def)
  then have "isync f' ip" using y by (simp add: isync_def s)
  then show "file_ok f' ip" using F(1,2) by (simp add: file_ok_def s)
  show "file_bytes (fview f') (inodes f' ip) = file_bytes (fview f) (inodes f ip)"
    "free_blocks (fgeo f') (fview f') = free_blocks (fgeo f) (fview f)" using F(3,4) by (simp_all add: s)
qed

text \<open>Nor do they depend on the lock of the inode.\<close>

lemma lock_indep:
  "ino_ok g v (i\<lparr>i_lock := l\<rparr>) = ino_ok g v i" "file_bytes v (i\<lparr>i_lock := l\<rparr>) = file_bytes v i" "iblk g (i\<lparr>i_lock := l\<rparr>) = iblk g i"
proof -
  have a: "addr_of v (i\<lparr>i_lock := l\<rparr>) = addr_of v i" by (simp add: addr_of_def fun_eq_iff)
  have s: "fslot v (i\<lparr>i_lock := l\<rparr>) = fslot v i" by (simp add: fslot_def fun_eq_iff a)
  show b: "iblk g (i\<lparr>i_lock := l\<rparr>) = iblk g i" by (simp add: iblk_def)
  show "ino_ok g v (i\<lparr>i_lock := l\<rparr>) = ino_ok g v i" by (simp add: ino_ok_def s b)
  have "byte_of v (i\<lparr>i_lock := l\<rparr>) = byte_of v i" by (simp add: byte_of_def fun_eq_iff a)
  then show "file_bytes v (i\<lparr>i_lock := l\<rparr>) = file_bytes v i" by (simp add: file_bytes_def)
qed

definition set_lock :: "nat \<Rightarrow> sleeplock \<Rightarrow> fstate \<Rightarrow> fstate" where
  "set_lock ip l f = upd_inode ip (\<lambda>v. v\<lparr>i_lock := l\<rparr>) f"

lemma set_lock_fields [simp]:
  "fx (set_lock ip l f) = fx f" "flog (set_lock ip l f) = flog f" "fsb (set_lock ip l f) = fsb f" "fgeo (set_lock ip l f) = fgeo f"
  "fview (set_lock ip l f) = fview f" "inodes (set_lock ip l f) ip = (inodes f ip)\<lparr>i_lock := l\<rparr>" "txn (set_lock ip l f) H = txn f H"
  "nlog (set_lock ip l f) = nlog f" "at_rest (set_lock ip l f) = at_rest f"
  by (simp_all add: set_lock_def upd_inode_def fgeo_def fview_def txn_def nlog_def flogged_def at_rest_def)

lemma get_dinode_lock: "get_dinode k b (i\<lparr>i_lock := l\<rparr>) = (get_dinode k b i)\<lparr>i_lock := l\<rparr>"
  by (simp add: get_dinode_def cong: if_cong)

lemma get_dinode_keeps_lock: "(get_dinode k b i)\<lparr>i_lock := i_lock i\<rparr> = get_dinode k b i"
  by (simp add: get_dinode_def)

lemma file_ok_lock [simp]: "file_ok (set_lock ip l f) ip = file_ok f ip"
proof -
  have "get_dinode k b (i\<lparr>i_lock := l\<rparr>) = i\<lparr>i_lock := l\<rparr> \<longleftrightarrow> get_dinode k b i = i" for k b i
  proof
    assume "get_dinode k b (i\<lparr>i_lock := l\<rparr>) = i\<lparr>i_lock := l\<rparr>"
    then have "(get_dinode k b (i\<lparr>i_lock := l\<rparr>))\<lparr>i_lock := i_lock i\<rparr> = (i\<lparr>i_lock := l\<rparr>)\<lparr>i_lock := i_lock i\<rparr>" by simp
    then show "get_dinode k b i = i" by (simp add: get_dinode_lock get_dinode_keeps_lock)
  next
    assume "get_dinode k b i = i"
    then have "(get_dinode k b i)\<lparr>i_lock := l\<rparr> = i\<lparr>i_lock := l\<rparr>" by simp
    then show "get_dinode k b (i\<lparr>i_lock := l\<rparr>) = i\<lparr>i_lock := l\<rparr>" by (simp add: get_dinode_lock)
  qed
  then show ?thesis by (simp add: file_ok_def isync_def lock_indep)
qed

section \<open>One transaction\<close>

text \<open>An open file that nobody has locked.\<close>

definition idle_file :: "fstate \<Rightarrow> nat \<Rightarrow> bool" where
  "idle_file f ip \<longleftrightarrow> at_rest f \<and> file_ok f ip \<and> i_type (inodes f ip) \<noteq> T_DEV \<and> 1 \<le> i_ref (inodes f ip) \<and> i_valid (inodes f ip)
     \<and> \<not> sl_locked (i_lock (inodes f ip))"

abbreviation fbytes :: "fstate \<Rightarrow> nat \<Rightarrow> u8 list" where
  "fbytes f ip \<equiv> file_bytes (fview f) (inodes f ip)"

definition nfree :: "fstate \<Rightarrow> nat" where
  "nfree f = card (free_blocks (fgeo f) (fview f))"

lemma ilock_run:
  assumes "1 \<le> i_ref (inodes f ip)" "i_valid (inodes f ip)" "\<not> sl_locked (i_lock (inodes f ip))"
  shows "ilock ip f = Done () (set_lock ip \<lparr>sl_locked = True, sl_pid = curpid (fx f)\<rparr> f)"
  using assms by (simp add: ilock_def iacquiresleep_def set_lock_def upd_inode_def)

lemma iunlock_run:
  assumes "1 \<le> i_ref (inodes f ip)" "i_lock (inodes f ip) = \<lparr>sl_locked = True, sl_pid = curpid (fx f)\<rparr>"
  shows "iunlock ip f = Done () (set_lock ip \<lparr>sl_locked = False, sl_pid = 0\<rparr> f)"
  using assms by (simp add: iunlock_def iholdingsleep_def ireleasesleep_def set_lock_def)

text \<open>The steps of one round of the loop of \<open>filewrite\<close>, on the file system.\<close>

lemma write_transaction:
  assumes I: "idle_file f ip" and off: "unat off \<le> length (fbytes f ip)" "unat off + unat n \<le> MAXFILE * BSIZE" "unat n \<le> 1536"
    and free: "6 \<le> nfree f"
  shows "\<exists>f1 f2 f3 f4. f_begin_op f = Done () (in_op f) \<and> ilock ip (in_op f) = Done () f1 \<and> writei dv ip src off n f1 = Done (int (unat n)) f2
    \<and> iunlock ip f2 = Done () f3 \<and> f_end_op f3 = Done () f4 \<and> idle_file f4 ip
    \<and> fbytes f4 ip = take (unat off) (fbytes f ip) @ map src [0..<unat n] @ drop (unat off + unat n) (fbytes f ip)
    \<and> nfree f \<le> nfree f4 + 5 \<and> i_inum (inodes f4 ip) = i_inum (inodes f ip) \<and> fsb f4 = fsb f"
proof -
  let ?l = "\<lparr>sl_locked = True, sl_pid = curpid (fx f)\<rparr>" and ?u = "\<lparr>sl_locked = False, sl_pid = 0\<rparr> :: sleeplock"
  have i: "at_rest f" "file_ok f ip" "i_type (inodes f ip) \<noteq> T_DEV" "1 \<le> i_ref (inodes f ip)" "i_valid (inodes f ip)" "\<not> sl_locked (i_lock (inodes f ip))"
    using I by (simp_all add: idle_file_def)
  note B = begin_run [OF i(1)]
  let ?f1 = "set_lock ip ?l (in_op f)"
  have f1: "ilock ip (in_op f) = Done () ?f1" using i(4-6) by (simp add: ilock_run)
  have "file_ok (in_op f) ip" using i(2) by (simp add: file_ok_def isync_def)
  then have fk: "file_ok ?f1 ip" by simp
  have s1: "fs ?f1 ip" "isync ?f1 ip" using B(2) fk by (simp_all add: fs_def file_ok_def)
  have w1: "fbytes ?f1 ip = fbytes f ip" "i_size (inodes ?f1 ip) = i_size (inodes f ip)" by (simp_all add: lock_indep)
  have h: "i_type (inodes ?f1 ip) \<noteq> T_DEV" "off \<le> i_size (inodes ?f1 ip)" "int (nlog ?f1) + MAXOPBLOCKS \<le> LOGSIZE" "6 \<le> card (free_blocks (fgeo ?f1) (fview ?f1))"
    using i(3) off(1) free B(3) by (simp_all add: file_bytes_def word_le_nat_alt MAXOPBLOCKS_def LOGSIZE_def nfree_def)
  obtain f2 where f2: "writei dv ip src off n ?f1 = Done (int (unat n)) f2" "fs f2 ip" "isync f2 ip"
      "fbytes f2 ip = take (unat off) (fbytes ?f1 ip) @ map src [0..<unat n] @ drop (unat off + unat n) (fbytes ?f1 ip)"
      "i_type (inodes f2 ip) = i_type (inodes ?f1 ip)" "wkept ip ?f1 f2"
    using writei_run [OF s1 h(1,2) off(2,3) h(3,4), of dv src] by blast
  have k2: "fgeo f2 = fgeo f" "curpid (fx f2) = curpid (fx f)" "outstanding (flog f2) = 1" "committing (flog f2) = committing (flog f)"
      "nfree f \<le> nfree f2 + 5"
    using f2(6) by (auto simp: wkept_def nfree_def)
  obtain a z where az: "inodes f2 ip = ((inodes f ip)\<lparr>i_lock := ?l\<rparr>)\<lparr>i_addrs := a, i_size := z\<rparr>" using f2(6) by (auto simp: wkept_def)
  let ?f3 = "set_lock ip ?u f2"
  have f3: "iunlock ip f2 = Done () ?f3" using az i(4) k2(2) by (intro iunlock_run) simp_all
  have t3: "txn ?f3 {}" "outstanding (flog ?f3) = 1" "\<not> committing (flog ?f3)" using f2(2) k2 i(1) by (simp_all add: fs_def at_rest_def)
  obtain f4 where f4: "f_end_op ?f3 = Done () f4" "at_rest f4" "same_outside_log ?f3 f4" using end_run [OF t3] by blast
  have "file_ok f2 ip" using f2(2,3) by (simp add: file_ok_def fs_def)
  then have fk3: "file_ok ?f3 ip" by simp
  note O = file_ok_outside [OF fk3 f4(3)]
  have n4: "inodes f4 ip = ((inodes f ip)\<lparr>i_lock := ?u\<rparr>)\<lparr>i_addrs := a, i_size := z\<rparr>" using f4(3) az by (simp add: same_outside_log_def)
  have "idle_file f4 ip" using O(1) f4(2) i n4 by (simp add: idle_file_def)
  moreover have "fbytes f4 ip = take (unat off) (fbytes f ip) @ map src [0..<unat n] @ drop (unat off + unat n) (fbytes f ip)"
    using O(2) f2(4) w1(1) by (simp add: lock_indep)
  moreover have "nfree f \<le> nfree f4 + 5" using O(3) k2(5) by (simp add: nfree_def)
  moreover have "i_inum (inodes f4 ip) = i_inum (inodes f ip)" using n4 by simp
  moreover have "fsb f4 = fsb f" using f4(3) k2(1) by (simp add: same_outside_log_def fgeo_def)
  ultimately show ?thesis using B(1) f1 f2(1) f3 f4(1) by blast
qed

section \<open>The loop\<close>

definition spliced :: "nat \<Rightarrow> 'a list \<Rightarrow> 'a list \<Rightarrow> 'a list" where
  "spliced k xs ys = take k ys @ xs @ drop (k + length xs) ys"

lemma spliced_spliced: "k \<le> length ys \<Longrightarrow> spliced (k + length xs) zs (spliced k xs ys) = spliced k (xs @ zs) ys"
  by (simp add: spliced_def add.commute add.left_commute)

lemma length_spliced: "k \<le> length ys \<Longrightarrow> k + length xs \<le> length (spliced k xs ys)"
  by (simp add: spliced_def)

lemma upt_split: "j \<le> k \<Longrightarrow> k \<le> m \<Longrightarrow> [j..<m] = [j..<k] @ [k..<m]"
  using upt_add_eq_append [of j k "m - k"] by simp

lemma onf_Done: "m (dfs d) = Done x f \<Longrightarrow> onf m d = Done x (d\<lparr>dfs := f\<rparr>)"
  by (simp add: onf_def)

lemma unat_of_int32: "0 \<le> k \<Longrightarrow> k < 4294967296 \<Longrightarrow> unat (word_of_int k :: u32) = nat k"
  by (simp add: unat_eq_nat_uint uint_word_of_int)

lemma chunk_run:
  assumes I: "idle_file (dfs d) ip" and ip: "f_ip (ftable d fd) = ip" and o: "f_off (ftable d fd) = off"
    and off: "unat off \<le> length (fbytes (dfs d) ip)" "unat off + nat n1 \<le> MAXFILE * BSIZE" and n1: "0 < n1" "n1 \<le> 1536"
    and free: "6 \<le> nfree (dfs d)"
  shows "\<exists>f. filewrite_chunk dv fd src n1 d = Done n1 (upd_file fd (\<lambda>v. v\<lparr>f_off := off + word_of_int n1\<rparr>) (d\<lparr>dfs := f\<rparr>))
    \<and> idle_file f ip \<and> fbytes f ip = spliced (unat off) (map src [0..<nat n1]) (fbytes (dfs d) ip)
    \<and> nfree (dfs d) \<le> nfree f + 5 \<and> i_inum (inodes f ip) = i_inum (inodes (dfs d) ip) \<and> fsb f = fsb (dfs d)"
proof -
  let ?n = "word_of_int n1 :: u32"
  have un: "unat ?n = nat n1" using n1 by (intro unat_of_int32) simp_all
  have nn: "nat n1 \<le> 1536" "int (nat n1) = n1" using n1 by simp_all
  obtain f1 f2 f3 f4 where f: "f_begin_op (dfs d) = Done () (in_op (dfs d))" "ilock ip (in_op (dfs d)) = Done () f1"
      "writei dv ip src off ?n f1 = Done n1 f2" "iunlock ip f2 = Done () f3" "f_end_op f3 = Done () f4" "idle_file f4 ip"
      "fbytes f4 ip = take (unat off) (fbytes (dfs d) ip) @ map src [0..<nat n1] @ drop (unat off + nat n1) (fbytes (dfs d) ip)"
      "nfree (dfs d) \<le> nfree f4 + 5" "i_inum (inodes f4 ip) = i_inum (inodes (dfs d) ip)" "fsb f4 = fsb (dfs d)"
    using write_transaction [OF I off(1), of ?n dv src] off(2) nn free unfolding un by auto
  have "filewrite_chunk dv fd src n1 d = Done n1 (upd_file fd (\<lambda>v. v\<lparr>f_off := off + ?n\<rparr>) (d\<lparr>dfs := f4\<rparr>))"
    using f(1-5) ip o n1(1) by (simp add: filewrite_chunk_def onf_def upd_file_def)
  then show ?thesis using f(6-10) by (auto simp: spliced_def)
qed

text \<open>The rest of a write, from byte \<open>i\<close> on.\<close>

lemma loop_run:
  assumes "idle_file (dfs d) ip" "f_ip (ftable d fd) = ip" "unat (f_off (ftable d fd)) \<le> length (fbytes (dfs d) ip)"
    "unat (f_off (ftable d fd)) + nat (n - i) \<le> MAXFILE * BSIZE" "0 \<le> i" "i \<le> n" "5 * ((nat (n - i) + 1535) div 1536) + 1 \<le> nfree (dfs d)"
  shows "\<exists>d'. filewrite_loop dv fd addr n i d = Done n d' \<and> idle_file (dfs d') ip
    \<and> fbytes (dfs d') ip = spliced (unat (f_off (ftable d fd))) (map addr [nat i..<nat n]) (fbytes (dfs d) ip)
    \<and> f_off (ftable d' fd) = f_off (ftable d fd) + word_of_int (n - i)
    \<and> i_inum (inodes (dfs d') ip) = i_inum (inodes (dfs d) ip) \<and> fsb (dfs d') = fsb (dfs d)"
  using assms
proof (induction "nat (n - i)" arbitrary: i d rule: less_induct)
  case less
  let ?off = "f_off (ftable d fd)" and ?n1 = "min (n - i) maxwrite"
  show ?case
  proof (cases "i < n")
    case False
    then have "filewrite_loop dv fd addr n i d = Done n d" using less.prems(6) by (subst filewrite_loop.simps) simp
    then show ?thesis using False less.prems by (intro exI [of _ d]) (simp add: spliced_def)
  next
    case True
    have mw: "maxwrite = 1536" by (simp add: maxwrite_def MAXOPBLOCKS_def)
    have n1: "0 < ?n1" "?n1 \<le> 1536" "?n1 \<le> n - i" using True mw by simp_all
    have b: "unat ?off + nat ?n1 \<le> MAXFILE * BSIZE" using less.prems(4) n1(3) by linarith
    have "1536 \<le> nat (n - i) + 1535" using True by simp
    then have "1 \<le> (nat (n - i) + 1535) div 1536" using div_le_mono [of 1536 _ 1536] by fastforce
    then have fr: "6 \<le> nfree (dfs d)" using less.prems(7) by linarith
    obtain f where f: "filewrite_chunk dv fd (\<lambda>k. addr (nat i + k)) ?n1 d = Done ?n1 (upd_file fd (\<lambda>v. v\<lparr>f_off := ?off + word_of_int ?n1\<rparr>) (d\<lparr>dfs := f\<rparr>))"
        "idle_file f ip" "fbytes f ip = spliced (unat ?off) (map (\<lambda>k. addr (nat i + k)) [0..<nat ?n1]) (fbytes (dfs d) ip)"
        "nfree (dfs d) \<le> nfree f + 5" "i_inum (inodes f ip) = i_inum (inodes (dfs d) ip)" "fsb f = fsb (dfs d)"
      using chunk_run [OF less.prems(1,2) refl less.prems(3) b n1(1,2) fr, of dv "\<lambda>k. addr (nat i + k)"] by blast
    let ?d = "upd_file fd (\<lambda>v. v\<lparr>f_off := ?off + word_of_int ?n1\<rparr>) (d\<lparr>dfs := f\<rparr>)"
    have eq: "filewrite_loop dv fd addr n i d = filewrite_loop dv fd addr n (i + ?n1) ?d"
    proof -
      have nn: "\<not> ?n1 < 0" using n1(1) by linarith
      show ?thesis unfolding filewrite_loop.simps [of dv fd addr n i d] Let_def f(1) xbind.simps using True nn by (simp only: if_True if_False simp_thms)
    qed
    have d: "dfs ?d = f" "f_ip (ftable ?d fd) = ip" "f_off (ftable ?d fd) = ?off + word_of_int ?n1"
      using less.prems(2) by (simp_all add: upd_file_def)
    have mx: "MAXFILE * BSIZE = 71680" by (simp add: MAXFILE_def BSIZE_def NDIRECT_def NINDIRECT_def)
    have uo: "unat (?off + word_of_int ?n1) = unat ?off + nat ?n1"
    proof -
      have u: "unat (word_of_int ?n1 :: u32) = nat ?n1" using n1 by (intro unat_of_int32) simp_all
      then show ?thesis using b mx by (subst unat_plus32_no_wrap) simp_all
    qed
    define bs where "bs = map (\<lambda>k. addr (nat i + k)) [0..<nat ?n1]"
    have lb: "length bs = nat ?n1" by (simp add: bs_def)
    have bsm: "bs = map addr [nat i..<nat i + nat ?n1]" by (intro nth_equalityI) (auto simp: bs_def)
    have f3: "fbytes f ip = spliced (unat ?off) bs (fbytes (dfs d) ip)" using f(3) by (simp add: bs_def)
    have le: "unat ?off + nat ?n1 \<le> length (fbytes f ip)"
      using length_spliced [OF less.prems(3), of bs] lb f(3) by (simp add: bs_def)
    have ni: "n - (i + ?n1) = n - i - ?n1" "nat (n - i - ?n1) = nat (n - i) - nat ?n1" using n1(1,3) by (simp_all add: nat_diff_distrib)
    have free': "5 * ((nat (n - (i + ?n1)) + 1535) div 1536) + 1 \<le> nfree f"
    proof (cases "n - i \<le> 1536")
      case True
      then have "nat (n - (i + ?n1)) = 0" using mw by simp
      then show ?thesis using fr f(4) by simp
    next
      case big: False
      then have "?n1 = 1536" using mw by simp
      then have "nat (n - i) + 1535 = (nat (n - (i + ?n1)) + 1535) + 1536" using big by simp
      then have "(nat (n - i) + 1535) div 1536 = (nat (n - (i + ?n1)) + 1535) div 1536 + 1" by simp
      then show ?thesis using less.prems(7) f(4) by linarith
    qed
    have n0: "0 \<le> i + ?n1" "i + ?n1 \<le> n" using n1 less.prems(5) by linarith+
    have "nat ?n1 \<le> nat (n - i)" using n1(3) by linarith
    then have tot: "unat ?off + nat ?n1 + nat (n - (i + ?n1)) \<le> MAXFILE * BSIZE" unfolding ni using less.prems(4) by linarith
    have lt: "nat (n - (i + ?n1)) < nat (n - i)" using n1(1) True by linarith
    obtain d' where IH: "filewrite_loop dv fd addr n (i + ?n1) ?d = Done n d'" "idle_file (dfs d') ip"
        "fbytes (dfs d') ip = spliced (unat ?off + nat ?n1) (map addr [nat (i + ?n1)..<nat n]) (fbytes f ip)"
        "f_off (ftable d' fd) = (?off + word_of_int ?n1) + word_of_int (n - (i + ?n1))"
        "i_inum (inodes (dfs d') ip) = i_inum (inodes f ip)" "fsb (dfs d') = fsb f"
      using less.hyps [OF lt, of ?d] f(2) le free' tot n0 unfolding d uo by blast
    have up: "[nat i..<nat n] = [nat i..<nat i + nat ?n1] @ [nat i + nat ?n1..<nat n]"
      using n1 n0 less.prems(5) by (intro upt_split) linarith+
    have ii: "nat (i + ?n1) = nat i + nat ?n1" using n1(1) less.prems(5) by (intro nat_add_distrib) simp_all
    have "fbytes (dfs d') ip = spliced (unat ?off) (bs @ map addr [nat i + nat ?n1..<nat n]) (fbytes (dfs d) ip)"
      using spliced_spliced [OF less.prems(3), of bs "map addr [nat i + nat ?n1..<nat n]"] unfolding IH(3) f3 ii lb .
    then have "fbytes (dfs d') ip = spliced (unat ?off) (map addr [nat i..<nat n]) (fbytes (dfs d) ip)" unfolding up bsm by simp
    moreover have "?off + word_of_int ?n1 + word_of_int (n - (i + ?n1)) = ?off + word_of_int (n - i)"
      by (metis (no_types, opaque_lifting) add.assoc add_diff_cancel_left' diff_add_cancel ni(1) add.commute of_int_add)
    ultimately show ?thesis using eq IH f(5,6) by auto
  qed
qed

section \<open>Durability\<close>

text \<open>The bytes of the file with inode number \<open>inum\<close>, from the disk alone.\<close>

definition disk_file :: "fstate \<Rightarrow> u32 \<Rightarrow> u8 list" where
  "disk_file f inum =
     file_bytes (\<lambda>b. disk (fx f) (1, b)) (get_dinode (dinode_off inum) (disk (fx f) (1, IBLOCK inum (fsb f))) (inodes f 0))"

lemma file_bytes_dinode: "file_bytes v (get_dinode k b i) = file_bytes v (get_dinode k b j)"
proof -
  have "addr_of v (get_dinode k b i) bn = addr_of v (get_dinode k b j) bn" for bn
    by (simp add: addr_of_def get_dinode_def NDIRECT_def)
  then have "byte_of v (get_dinode k b i) = byte_of v (get_dinode k b j)" by (simp add: byte_of_def fun_eq_iff)
  moreover have "i_size (get_dinode k b i) = i_size (get_dinode k b j)" by (simp add: get_dinode_def)
  ultimately show ?thesis by (simp add: file_bytes_def)
qed

lemma disk_file_rest:
  assumes "idle_file f ip"
  shows "disk_file f (i_inum (inodes f ip)) = fbytes f ip"
proof -
  have v: "fview f = (\<lambda>b. disk (fx f) (1, b))" using assms clean_view [of "fx f"] by (simp add: idle_file_def at_rest_def fview_def)
  have "get_dinode (dinode_off (i_inum (inodes f ip))) (fview f (IBLOCK (i_inum (inodes f ip)) (fsb f))) (inodes f ip) = inodes f ip"
    using assms by (simp add: idle_file_def file_ok_def isync_def iblk_def fgeo_def)
  then show ?thesis unfolding disk_file_def using file_bytes_dinode [of "fview f"] v by metis
qed

text \<open>
  C5: a write to an open file is on the disk when it returns. For a file that is open for writing, not
  locked by another process, on a file system with no call in progress, with the offset not beyond the
  end and room for the bytes (below the largest file size, five free blocks per 1536 bytes and one
  more), \<open>filewrite\<close> of any number of bytes returns that number. It runs as a sequence of transactions; when it
  returns the file system is again at rest, the offset has advanced, and the file, read from the disk
  alone with its inode from the inode block, has the old bytes with the new ones at the offset.
\<close>

theorem filewrite_durable:
  assumes "idle_file (dfs d) ip" and "f_type (ftable d fd) = FD_INODE" "f_writable (ftable d fd)" "f_ip (ftable d fd) = ip"
    and "unat (f_off (ftable d fd)) \<le> length (fbytes (dfs d) ip)" "unat (f_off (ftable d fd)) + nat n \<le> MAXFILE * BSIZE" "0 \<le> n"
    and "5 * ((nat n + 1535) div 1536) + 1 \<le> card (free_blocks (fgeo (dfs d)) (fview (dfs d)))"
  shows "\<exists>d'. filewrite dv fd addr n d = Done n d' \<and> idle_file (dfs d') ip \<and> f_off (ftable d' fd) = f_off (ftable d fd) + word_of_int n
    \<and> disk_file (dfs d') (i_inum (inodes (dfs d) ip)) =
        spliced (unat (f_off (ftable d fd))) (map addr [0..<nat n]) (disk_file (dfs d) (i_inum (inodes (dfs d) ip)))"
proof -
  have h: "unat (f_off (ftable d fd)) + nat (n - 0) \<le> MAXFILE * BSIZE" "5 * ((nat (n - 0) + 1535) div 1536) + 1 \<le> nfree (dfs d)"
    using assms(6,8) by (simp_all add: nfree_def)
  obtain d' where d': "filewrite_loop dv fd addr n 0 d = Done n d'" "idle_file (dfs d') ip"
      "fbytes (dfs d') ip = spliced (unat (f_off (ftable d fd))) (map addr [nat 0..<nat n]) (fbytes (dfs d) ip)"
      "f_off (ftable d' fd) = f_off (ftable d fd) + word_of_int (n - 0)" "i_inum (inodes (dfs d') ip) = i_inum (inodes (dfs d) ip)"
    using loop_run [OF assms(1,4,5) h(1) order_refl assms(7) h(2), of dv addr] by blast
  have "filewrite dv fd addr n d = Done n d'" using assms(2,3) d'(1) by (simp add: filewrite_def)
  then show ?thesis using d' disk_file_rest [OF d'(2)] disk_file_rest [OF assms(1)] by (intro exI [of _ d']) simp
qed

text \<open>An empty file on a disk with free blocks, open for writing, and three bytes.\<close>

definition ex_d :: dstate where
  "ex_d = \<lparr>dfs = set_lock 0 \<lparr>sl_locked = False, sl_pid = 0\<rparr> ((ex_fs T_FILE)\<lparr>flog := (flog (ex_fs T_FILE))\<lparr>outstanding := 0\<rparr>\<rparr>),
     ftable = (\<lambda>_. \<lparr>f_type = FD_INODE, f_ref = 1, f_readable = True, f_writable = True, f_pipe = 0, f_ip = 0, f_off = 0\<rparr>),
     pipes = (\<lambda>_. \<lparr>p_data = (\<lambda>_. 0), nread = 0, nwrite = 0, readopen = True, writeopen = True\<rparr>), kmem = [], killed = False\<rparr>"

theorem filewrite_durable_witness:
  "\<exists>d'. filewrite \<lparr>dev_read = (\<lambda>_. None), dev_write = (\<lambda>_. None)\<rparr> 3 (\<lambda>k. word_of_nat k + 5) 3 ex_d = Done 3 d' \<and> disk_file (dfs d') 1 = [5, 6, 7]"
proof -
  let ?e = "(ex_fs T_FILE)\<lparr>flog := (flog (ex_fs T_FILE))\<lparr>outstanding := 0\<rparr>\<rparr>"
  have e: "fview ?e = fview (ex_fs T_FILE)" "fgeo ?e = fgeo (ex_fs T_FILE)" "inodes ?e = inodes (ex_fs T_FILE)"
    by (simp_all add: fview_def fgeo_def)
  have "file_ok ?e 0" using ex_fs_ok(1,2) [of T_FILE 0] by (simp add: file_ok_def fs_def isync_def e)
  moreover have "at_rest ?e"
    using zstate_ok [of "ex_disk T_FILE"] by (simp add: at_rest_def ex_fs_def ex_log_def log_ok_def logged_def ROOTDEV_def)
  ultimately have i: "idle_file (dfs ex_d) 0"
    unfolding ex_d_def by (simp add: idle_file_def e ex_fs_view(5)) (simp add: ex_inode_def T_FILE_def T_DEV_def)
  have v: "fview (dfs ex_d) = fview (ex_fs T_FILE)" "fgeo (dfs ex_d) = (ex_sb, 2)" "i_size (inodes (dfs ex_d) 0) = 0" "i_inum (inodes (dfs ex_d) 0) = 1"
    using e by (simp_all add: ex_d_def ex_fs_view(2,5)) (simp_all add: ex_inode_def)
  have b: "fbytes (dfs ex_d) 0 = []" by (simp add: file_bytes_def v)
  have h: "f_type (ftable ex_d 3) = FD_INODE" "f_writable (ftable ex_d 3)" "f_ip (ftable ex_d 3) = 0" "f_off (ftable ex_d 3) = 0"
    by (simp_all add: ex_d_def)
  have c: "5 * ((nat 3 + 1535) div 1536) + 1 \<le> card (free_blocks (fgeo (dfs ex_d)) (fview (dfs ex_d)))" using ex_fs_ok(3) v by simp
  have mx: "unat (f_off (ftable ex_d 3)) + nat 3 \<le> MAXFILE * BSIZE" "unat (f_off (ftable ex_d 3)) \<le> length (fbytes (dfs ex_d) 0)"
    by (simp_all add: h MAXFILE_def BSIZE_def NDIRECT_def NINDIRECT_def)
  have "disk_file (dfs ex_d) 1 = []" using disk_file_rest [OF i] b v(4) by simp
  moreover have "map (\<lambda>k. word_of_nat k + 5) [0..<nat 3] = [5, 6, 7 :: u8]" by (simp add: upt_rec)
  ultimately show ?thesis
    using filewrite_durable [OF i h(1-3) mx(2,1) _ c, of "\<lparr>dev_read = (\<lambda>_. None), dev_write = (\<lambda>_. None)\<rparr>" "\<lambda>k. word_of_nat k + 5"] v(4)
    by (auto simp: spliced_def h(4))
qed

end
