(* ===== verification/XVm.thy ===== *)
theory XVm
  imports PageEntry XBuf
begin

text \<open>
  Memory of xv6: the page allocator (xv6-public/kalloc.c) and the page tables of processes
  (xv6-public/vm.c), with the macros of mmu.h and memlayout.h; those of mmu.h that split an address are
  the ones of theory Mmu.

  Physical memory is a function from page numbers to their 1024 words, \<open>vpg\<close>. The free list is the list of its
  pages in order, \<open>vfree\<close>; its links are also written to the pages, as the code does. A pointer to a page
  (a page directory, a page of user memory) is the number of the page, and the pointer
  to an entry of a page table the number of its page with an index. The addresses \<open>end\<close> and \<open>data\<close> of the linker
  script are arguments.
\<close>

section \<open>Layout\<close>

definition XKERNBASE :: u32 where [const_simps]: "XKERNBASE = 0x80000000"
definition EXTMEM :: u32 where [const_simps]: "EXTMEM = 0x100000"
definition PHYSTOP :: u32 where [const_simps]: "PHYSTOP = 0xE000000"
definition DEVSPACE :: u32 where [const_simps]: "DEVSPACE = 0xFE000000"
definition KERNLINK :: u32 where [const_simps]: "KERNLINK = XKERNBASE + EXTMEM"

definition V2P :: "u32 \<Rightarrow> u32" where "V2P a = a - XKERNBASE"
definition P2V :: "u32 \<Rightarrow> u32" where "P2V a = a + XKERNBASE"

definition PGROUNDUP :: "u32 \<Rightarrow> u32" where
  "PGROUNDUP sz = (sz + PGSIZE - 1) AND NOT (PGSIZE - 1)"

definition PGROUNDDOWN :: "u32 \<Rightarrow> u32" where
  "PGROUNDDOWN a = a AND NOT (PGSIZE - 1)"

definition PTE_FLAGS :: "u32 \<Rightarrow> u32" where
  "PTE_FLAGS pte = pte AND 0xFFF"

record ksyms =
  k_end :: u32
  k_data :: u32

record vmem =
  vpg :: "nat \<Rightarrow> nat \<Rightarrow> u32"
  vfree :: "nat list"

type_synonym 'a vres = "('a, vmem) sres"

definition set_word :: "nat \<Rightarrow> nat \<Rightarrow> u32 \<Rightarrow> vmem \<Rightarrow> vmem" where
  "set_word p i w s = s\<lparr>vpg := (vpg s)(p := (vpg s p)(i := w))\<rparr>"

definition fill :: "nat \<Rightarrow> u8 \<Rightarrow> vmem \<Rightarrow> vmem" where
  "fill p c s = s\<lparr>vpg := (vpg s)(p := (\<lambda>_. ucast c * 0x01010101))\<rparr>"

definition copy_page :: "nat \<Rightarrow> nat \<Rightarrow> vmem \<Rightarrow> vmem" where
  "copy_page d p s = s\<lparr>vpg := (vpg s)(d := vpg s p)\<rparr>"

text \<open>Bytes written into a page from offset \<open>o\<close> on.\<close>

primrec poke :: "nat \<Rightarrow> nat \<Rightarrow> u8 list \<Rightarrow> vmem \<Rightarrow> vmem" where
  "poke p i [] s = s"
| "poke p i (b # bs) s = poke p (Suc i) bs (set_word p (i div 4) (set_byte (i mod 4) b (vpg s p (i div 4))) s)"

lemma and_not_low: "x AND - 4096 = x - x mod 4096" for x :: u32
proof -
  have "(- 4096 :: u32) = NOT 0xFFF" by simp
  then have "x = (x AND - 4096) + (x AND 0xFFF)"
    by (subst disjunctive_add) (auto simp: bit_simps intro: bit_word_eqI)
  moreover have "x AND 0xFFF = x mod 4096"
    by (simp add: word_unat_eq_iff mask_FFF word_and_mask_unat32 unat_mod32)
  ultimately show ?thesis by (metis add_diff_cancel_right')
qed

lemma unat_PGROUNDDOWN: "unat (PGROUNDDOWN a) = unat a div 4096 * 4096"
proof -
  have "unat a mod 4096 \<le> unat a" by simp
  then have "unat (a - a mod 4096) = unat a - unat a mod 4096" by (simp add: unat_sub32 word_le_nat_alt unat_mod32)
  then show ?thesis by (simp add: PGROUNDDOWN_def PGSIZE_def and_not_low minus_mod_eq_div_mult)
qed

lemma PGROUNDDOWN_le: "PGROUNDDOWN a \<le> a"
  by (simp add: word_le_nat_alt unat_PGROUNDDOWN)

lemma PGROUNDDOWN_off: "unat (a - PGROUNDDOWN a) = unat a mod 4096"
  by (simp add: unat_sub32 [OF PGROUNDDOWN_le] unat_PGROUNDDOWN minus_div_mult_eq_mod)

section \<open>kalloc.c\<close>

text \<open>The page is filled with junk; its first word links it to the rest of the list.\<close>

definition kfree :: "ksyms \<Rightarrow> nat \<Rightarrow> vmem \<Rightarrow> unit vres" where
  "kfree ks p s =
     (if P2V (page2pa p) < k_end ks \<or> PHYSTOP \<le> page2pa p then Panicked ''kfree'' s
      else let s = fill p 1 s;
               s = set_word p 0 (case vfree s of [] \<Rightarrow> 0 | q # _ \<Rightarrow> P2V (page2pa q)) s
           in Done () (s\<lparr>vfree := p # vfree s\<rparr>))"

definition kalloc :: "vmem \<Rightarrow> nat option \<times> vmem" where
  "kalloc s = (case vfree s of [] \<Rightarrow> (None, s) | p # ps \<Rightarrow> (Some p, s\<lparr>vfree := ps\<rparr>))"

primrec freerange_loop :: "ksyms \<Rightarrow> nat \<Rightarrow> nat \<Rightarrow> vmem \<Rightarrow> unit vres" where
  "freerange_loop ks p 0 s = Done () s"
| "freerange_loop ks p (Suc n) s = xbind (kfree ks p s) (\<lambda>_ s. freerange_loop ks (Suc p) n s)"

definition freerange :: "ksyms \<Rightarrow> u32 \<Rightarrow> u32 \<Rightarrow> vmem \<Rightarrow> unit vres" where
  "freerange ks vstart vend s =
     (let p = unat (V2P (PGROUNDUP vstart)) div 4096
      in freerange_loop ks p (unat (V2P vend) div 4096 - p) s)"

definition kinit1 :: "ksyms \<Rightarrow> u32 \<Rightarrow> u32 \<Rightarrow> vmem \<Rightarrow> unit vres" where
  "kinit1 ks vstart vend s = freerange ks vstart vend s"

definition kinit2 :: "ksyms \<Rightarrow> u32 \<Rightarrow> u32 \<Rightarrow> vmem \<Rightarrow> unit vres" where
  "kinit2 ks vstart vend s = freerange ks vstart vend s"

section \<open>Page tables\<close>

definition walkpgdir :: "nat \<Rightarrow> u32 \<Rightarrow> bool \<Rightarrow> vmem \<Rightarrow> (nat \<times> nat) option \<times> vmem" where
  "walkpgdir pgdir va alloc s =
     (let pde = vpg s pgdir (unat (PDX va))
      in if nz (pde AND PTE_P) then (Some (ppn pde, unat (PTX va)), s)
         else if \<not> alloc then (None, s)
         else case kalloc s of
                (None, s) \<Rightarrow> (None, s)
              | (Some pgtab, s) \<Rightarrow>
                  (Some (pgtab, unat (PTX va)), set_word pgdir (unat (PDX va)) (page2pa pgtab OR PTE_P OR PTE_W OR PTE_U) (fill pgtab 0 s)))"

text \<open>The loop of \<open>mappages\<close>, with \<open>n\<close> more pages after the one at \<open>a\<close>.\<close>

fun mappages_loop :: "nat \<Rightarrow> u32 \<Rightarrow> nat \<Rightarrow> u32 \<Rightarrow> u32 \<Rightarrow> vmem \<Rightarrow> int vres" where
  "mappages_loop pgdir a n pa perm s =
     (case walkpgdir pgdir a True s of
        (None, s) \<Rightarrow> Done (- 1) s
      | (Some (pt, i), s) \<Rightarrow>
          if nz (vpg s pt i AND PTE_P) then Panicked ''remap'' s
          else let s = set_word pt i (pa OR perm OR PTE_P) s
               in (case n of 0 \<Rightarrow> Done 0 s | Suc n \<Rightarrow> mappages_loop pgdir (a + PGSIZE) n (pa + PGSIZE) perm s))"

declare mappages_loop.simps [simp del]

definition mappages :: "nat \<Rightarrow> u32 \<Rightarrow> u32 \<Rightarrow> u32 \<Rightarrow> u32 \<Rightarrow> vmem \<Rightarrow> int vres" where
  "mappages pgdir va sz pa perm s =
     (let a = PGROUNDDOWN va; last = PGROUNDDOWN (va + sz - 1)
      in mappages_loop pgdir a (unat (last - a) div 4096) pa perm s)"

section \<open>Freeing\<close>

text \<open>
  The loop of \<open>deallocuvm\<close> with fuel: it skips to the end of a directory entry that is not
  present.
\<close>

primrec deallocuvm_loop :: "nat \<Rightarrow> ksyms \<Rightarrow> nat \<Rightarrow> u32 \<Rightarrow> u32 \<Rightarrow> vmem \<Rightarrow> unit vres" where
  "deallocuvm_loop 0 ks pgdir oldsz a s = Hang"
| "deallocuvm_loop (Suc n) ks pgdir oldsz a s =
     (if \<not> a < oldsz then Done () s
      else case fst (walkpgdir pgdir a False s) of
             None \<Rightarrow> deallocuvm_loop n ks pgdir oldsz (PGADDR (PDX a + 1) 0 0 - PGSIZE + PGSIZE) s
           | Some (pt, i) \<Rightarrow>
               let pte = vpg s pt i
               in if nz (pte AND PTE_P)
                  then if PTE_ADDR pte = 0 then Panicked ''kfree'' s
                       else xbind (kfree ks (ppn pte) s) (\<lambda>_ s. deallocuvm_loop n ks pgdir oldsz (a + PGSIZE) (set_word pt i 0 s))
                  else deallocuvm_loop n ks pgdir oldsz (a + PGSIZE) s)"

definition deallocuvm :: "ksyms \<Rightarrow> nat \<Rightarrow> u32 \<Rightarrow> u32 \<Rightarrow> vmem \<Rightarrow> u32 vres" where
  "deallocuvm ks pgdir oldsz newsz s =
     (if oldsz \<le> newsz then Done oldsz s
      else xbind (deallocuvm_loop 1048577 ks pgdir oldsz (PGROUNDUP newsz) s) (\<lambda>_ s. Done newsz s))"

primrec freevm_tables :: "ksyms \<Rightarrow> nat \<Rightarrow> nat list \<Rightarrow> vmem \<Rightarrow> unit vres" where
  "freevm_tables ks pgdir [] s = Done () s"
| "freevm_tables ks pgdir (i # is) s =
     (if nz (vpg s pgdir i AND PTE_P)
      then xbind (kfree ks (ppn (vpg s pgdir i)) s) (\<lambda>_ s. freevm_tables ks pgdir is s)
      else freevm_tables ks pgdir is s)"

definition freevm :: "ksyms \<Rightarrow> nat option \<Rightarrow> vmem \<Rightarrow> unit vres" where
  "freevm ks pgdir s =
     (case pgdir of
        None \<Rightarrow> Panicked ''freevm: no pgdir'' s
      | Some d \<Rightarrow>
          xbind (deallocuvm ks d XKERNBASE 0 s) (\<lambda>_ s.
          xbind (freevm_tables ks d [0..<NPDENTRIES] s) (\<lambda>_ s. kfree ks d s)))"

section \<open>The kernel part\<close>

definition kmap :: "ksyms \<Rightarrow> (u32 \<times> u32 \<times> u32 \<times> u32) list" where
  "kmap ks = [(XKERNBASE, 0, EXTMEM, PTE_W), (KERNLINK, V2P KERNLINK, V2P (k_data ks), 0),
              (k_data ks, V2P (k_data ks), PHYSTOP, PTE_W), (DEVSPACE, DEVSPACE, 0, PTE_W)]"

fun setupkvm_loop :: "ksyms \<Rightarrow> nat \<Rightarrow> (u32 \<times> u32 \<times> u32 \<times> u32) list \<Rightarrow> vmem \<Rightarrow> nat option vres" where
  "setupkvm_loop ks pgdir [] s = Done (Some pgdir) s"
| "setupkvm_loop ks pgdir ((virt, phys_start, phys_end, perm) # rest) s =
     xbind (mappages pgdir virt (phys_end - phys_start) phys_start perm s) (\<lambda>r s.
       if r < 0 then xbind (freevm ks (Some pgdir) s) (\<lambda>_ s. Done None s) else setupkvm_loop ks pgdir rest s)"

definition setupkvm :: "ksyms \<Rightarrow> vmem \<Rightarrow> nat option vres" where
  "setupkvm ks s =
     (case kalloc s of
        (None, s) \<Rightarrow> Done None s
      | (Some pgdir, s) \<Rightarrow>
          let s = fill pgdir 0 s
          in if DEVSPACE < P2V PHYSTOP then Panicked ''PHYSTOP too high'' s else setupkvm_loop ks pgdir (kmap ks) s)"

section \<open>User memory\<close>

text \<open>The pages from \<open>a\<close> up to, and not including, \<open>e\<close>: \<open>a\<close>, \<open>a + PGSIZE\<close> and so on.\<close>

definition page_range :: "u32 \<Rightarrow> u32 \<Rightarrow> u32 list" where
  "page_range a e = map (\<lambda>k. a + word_of_nat (4096 * k)) [0..<(unat e - unat a + 4095) div 4096]"

definition inituvm :: "nat \<Rightarrow> u8 list \<Rightarrow> vmem \<Rightarrow> unit vres" where
  "inituvm pgdir init s =
     (if unat PGSIZE \<le> length init then Panicked ''inituvm: more than a page'' s
      else case kalloc s of
             (None, s) \<Rightarrow> Panicked ''trap'' s
           | (Some mem, s) \<Rightarrow> xbind (mappages pgdir 0 PGSIZE (page2pa mem) (PTE_W OR PTE_U) (fill mem 0 s)) (\<lambda>_ s. Done () (poke mem 0 init s)))"

primrec allocuvm_loop :: "ksyms \<Rightarrow> nat \<Rightarrow> u32 \<Rightarrow> u32 \<Rightarrow> u32 list \<Rightarrow> vmem \<Rightarrow> u32 vres" where
  "allocuvm_loop ks pgdir oldsz newsz [] s = Done newsz s"
| "allocuvm_loop ks pgdir oldsz newsz (a # as) s =
     (case kalloc s of
        (None, s) \<Rightarrow> xbind (deallocuvm ks pgdir newsz oldsz s) (\<lambda>_ s. Done 0 s)
      | (Some mem, s) \<Rightarrow>
          xbind (mappages pgdir a PGSIZE (page2pa mem) (PTE_W OR PTE_U) (fill mem 0 s)) (\<lambda>r s.
            if r < 0
            then xbind (deallocuvm ks pgdir newsz oldsz s) (\<lambda>_ s. xbind (kfree ks mem s) (\<lambda>_ s. Done 0 s))
            else allocuvm_loop ks pgdir oldsz newsz as s))"

definition allocuvm :: "ksyms \<Rightarrow> nat \<Rightarrow> u32 \<Rightarrow> u32 \<Rightarrow> vmem \<Rightarrow> u32 vres" where
  "allocuvm ks pgdir oldsz newsz s =
     (if XKERNBASE \<le> newsz then Done 0 s
      else if newsz < oldsz then Done oldsz s
      else allocuvm_loop ks pgdir oldsz newsz (page_range (PGROUNDUP oldsz) newsz) s)"

definition clearpteu :: "nat \<Rightarrow> u32 \<Rightarrow> vmem \<Rightarrow> unit vres" where
  "clearpteu pgdir uva s =
     (case fst (walkpgdir pgdir uva False s) of
        None \<Rightarrow> Panicked ''clearpteu'' s
      | Some (pt, i) \<Rightarrow> Done () (set_word pt i (vpg s pt i AND NOT PTE_U) s))"

primrec copyuvm_loop :: "ksyms \<Rightarrow> nat \<Rightarrow> nat \<Rightarrow> u32 list \<Rightarrow> vmem \<Rightarrow> nat option vres" where
  "copyuvm_loop ks pgdir d [] s = Done (Some d) s"
| "copyuvm_loop ks pgdir d (i # is) s =
     (case fst (walkpgdir pgdir i False s) of
        None \<Rightarrow> Panicked ''copyuvm: pte should exist'' s
      | Some (pt, j) \<Rightarrow>
          let pte = vpg s pt j
          in if \<not> nz (pte AND PTE_P) then Panicked ''copyuvm: page not present'' s
             else case kalloc s of
                    (None, s) \<Rightarrow> xbind (freevm ks (Some d) s) (\<lambda>_ s. Done None s)
                  | (Some mem, s) \<Rightarrow>
                      xbind (mappages d i PGSIZE (page2pa mem) (PTE_FLAGS pte) (copy_page mem (ppn pte) s)) (\<lambda>r s.
                        if r < 0
                        then xbind (kfree ks mem s) (\<lambda>_ s. xbind (freevm ks (Some d) s) (\<lambda>_ s. Done None s))
                        else copyuvm_loop ks pgdir d is s))"

definition copyuvm :: "ksyms \<Rightarrow> nat \<Rightarrow> u32 \<Rightarrow> vmem \<Rightarrow> nat option vres" where
  "copyuvm ks pgdir sz s =
     xbind (setupkvm ks s) (\<lambda>d s.
       case d of None \<Rightarrow> Done None s | Some d \<Rightarrow> copyuvm_loop ks pgdir d (page_range 0 sz) s)"

text \<open>
  \<open>uva2ka\<close> does not check that the walk finds a page table: without one it reads the word at
  address 0 of the current address space, \<open>word0\<close>.
\<close>

definition uva2ka :: "u32 \<Rightarrow> nat \<Rightarrow> u32 \<Rightarrow> vmem \<Rightarrow> nat option" where
  "uva2ka word0 pgdir uva s =
     (let pte = (case fst (walkpgdir pgdir uva False s) of None \<Rightarrow> word0 | Some (pt, i) \<Rightarrow> vpg s pt i)
      in if \<not> nz (pte AND PTE_P) then None else if \<not> nz (pte AND PTE_U) then None else Some (ppn pte))"

function copyout :: "u32 \<Rightarrow> nat \<Rightarrow> u32 \<Rightarrow> u8 list \<Rightarrow> vmem \<Rightarrow> int \<times> vmem" where
  "copyout word0 pgdir va buf s =
     (if buf = [] then (0, s)
      else let va0 = PGROUNDDOWN va
           in case uva2ka word0 pgdir va0 s of
                None \<Rightarrow> (- 1, s)
              | Some pa0 \<Rightarrow>
                  let off = unat (va - va0); n = min (4096 - off) (length buf)
                  in copyout word0 pgdir (va0 + PGSIZE) (drop n buf) (poke pa0 off (take n buf) s))"
  by pat_completeness auto
termination
  by (relation "measure (\<lambda>(word0, pgdir, va, buf, s). length buf)") (auto simp: PGROUNDDOWN_off)

end
