(* ===== verification/XProc.thy ===== *)
theory XProc
  imports XFd XVm XDir
begin

text \<open>
  Processes of xv6 (xv6-public/proc.c, proc.h): the process table, \<open>fork\<close>, \<open>exit\<close>, \<open>wait\<close>, \<open>kill\<close>, sleeping
  and the scheduler.

  The functions that hold \<open>ptable.lock\<close> from their start to their end are one step for other processors.
  \<open>sched\<close> gives the processor back to the scheduler, which has then no process; what a process does when it
  runs again is a step of its own. Pointers to processes are indices into the table. The words of physical
  memory are \<open>pmem\<close>; with the list of free pages they are the memory that vm.c works on.
\<close>

section \<open>Data\<close>

definition NPROC :: nat where "NPROC = 64"

datatype procstate = UNUSED | EMBRYO | SLEEPING | RUNNABLE | RUNNING | ZOMBIE

text \<open>What a process sleeps on: the address of a process, or any other address.\<close>

datatype chan = ChProc nat | ChAddr u32

record proc =
  p_sz :: u32
  p_pgdir :: "nat option"
  p_kstack :: "nat option"
  p_state :: procstate
  p_pid :: int
  p_parent :: "nat option"
  p_tf :: "nat \<Rightarrow> u32"
  p_chan :: "chan option"
  p_killed :: bool
  p_ofile :: "nat option list"
  p_cwd :: "nat option"
  p_name :: string

record ptable =
  procs :: "nat \<Rightarrow> proc"
  nextpid :: int
  initproc :: nat
  cpu_proc :: "nat \<Rightarrow> nat option"
  pmem :: "nat \<Rightarrow> nat \<Rightarrow> u32"
  kd :: dstate

type_synonym 'a pres = "('a, ptable) sres"

definition upd_proc :: "nat \<Rightarrow> (proc \<Rightarrow> proc) \<Rightarrow> ptable \<Rightarrow> ptable" where
  "upd_proc p g s = s\<lparr>procs := (procs s)(p := g (procs s p))\<rparr>"

text \<open>The memory that vm.c works on.\<close>

definition vm_of :: "ptable \<Rightarrow> vmem" where
  "vm_of s = \<lparr>vpg = pmem s, vfree = kmem (kd s)\<rparr>"

definition set_vm :: "vmem \<Rightarrow> ptable \<Rightarrow> ptable" where
  "set_vm v s = s\<lparr>pmem := vpg v, kd := (kd s)\<lparr>kmem := vfree v\<rparr>\<rparr>"

definition onvm :: "(vmem \<Rightarrow> 'a vres) \<Rightarrow> ptable \<Rightarrow> 'a pres" where
  "onvm m s =
     (case m (vm_of s) of
        Done x v \<Rightarrow> Done x (set_vm v s)
      | Panicked msg v \<Rightarrow> Panicked msg (set_vm v s)
      | Sleeping v \<Rightarrow> Sleeping (set_vm v s)
      | Hang \<Rightarrow> Hang)"

definition onkd :: "(dstate \<Rightarrow> 'a dres) \<Rightarrow> ptable \<Rightarrow> 'a pres" where
  "onkd m s =
     (case m (kd s) of
        Done x d \<Rightarrow> Done x (s\<lparr>kd := d\<rparr>)
      | Panicked msg d \<Rightarrow> Panicked msg (s\<lparr>kd := d\<rparr>)
      | Sleeping d \<Rightarrow> Sleeping (s\<lparr>kd := d\<rparr>)
      | Hang \<Rightarrow> Hang)"

section \<open>Processors\<close>

text \<open>\<open>mycpu\<close>, with the interrupt flag, the APIC ids of the processors and the one of the caller.\<close>

definition mycpu :: "bool \<Rightarrow> u8 list \<Rightarrow> u8 \<Rightarrow> ptable \<Rightarrow> nat pres" where
  "mycpu interrupts apicids apicid s =
     (if interrupts then Panicked ''mycpu called with interrupts enabled'' s
      else case find (\<lambda>i. apicids ! i = apicid) [0..<length apicids] of
             Some i \<Rightarrow> Done i s
           | None \<Rightarrow> Panicked ''unknown apicid'' s)"

section \<open>Creating a process\<close>

definition allocproc :: "ptable \<Rightarrow> nat option \<times> ptable" where
  "allocproc s =
     (case find (\<lambda>p. p_state (procs s p) = UNUSED) [0..<NPROC] of
        None \<Rightarrow> (None, s)
      | Some p \<Rightarrow>
          let s = (upd_proc p (\<lambda>v. v\<lparr>p_state := EMBRYO, p_pid := nextpid s\<rparr>) s)\<lparr>nextpid := nextpid s + 1\<rparr>
          in (case kalloc (vm_of s) of
                (None, v) \<Rightarrow> (None, upd_proc p (\<lambda>x. x\<lparr>p_kstack := None, p_state := UNUSED\<rparr>) s)
              | (Some k, v) \<Rightarrow> (Some p, upd_proc p (\<lambda>x. x\<lparr>p_kstack := Some k\<rparr>) (set_vm v s))))"

definition safestrcpy :: "string \<Rightarrow> nat \<Rightarrow> string" where
  "safestrcpy t n = take (n - 1) (takeWhile (\<lambda>c. c \<noteq> CHR 0x00) t)"

text \<open>The loop over the open files.\<close>

primrec fork_files :: "nat \<Rightarrow> nat \<Rightarrow> nat list \<Rightarrow> ptable \<Rightarrow> unit pres" where
  "fork_files cur np [] s = Done () s"
| "fork_files cur np (i # is) s =
     (case p_ofile (procs s cur) ! i of
        None \<Rightarrow> fork_files cur np is s
      | Some f \<Rightarrow>
          xbind (onkd (filedup f) s) (\<lambda>g s.
            fork_files cur np is (upd_proc np (\<lambda>v. v\<lparr>p_ofile := (p_ofile v)[i := Some g]\<rparr>) s)))"

text \<open>The copy of the parent: 7 is the index of \<open>eax\<close> in a trap frame.\<close>

definition fork_copy :: "nat \<Rightarrow> nat \<Rightarrow> nat \<Rightarrow> ptable \<Rightarrow> ptable" where
  "fork_copy cur np d s =
     upd_proc np (\<lambda>v. v\<lparr>p_pgdir := Some d, p_sz := p_sz (procs s cur), p_parent := Some cur, p_tf := (p_tf (procs s cur))(7 := 0)\<rparr>) s"

definition fork_fail :: "ksyms \<Rightarrow> nat \<Rightarrow> ptable \<Rightarrow> unit pres" where
  "fork_fail ks np s =
     xbind (case p_kstack (procs s np) of None \<Rightarrow> Panicked ''kfree'' s | Some k \<Rightarrow> onvm (kfree ks k) s) (\<lambda>_ s.
       Done () (upd_proc np (\<lambda>v. v\<lparr>p_pgdir := None, p_kstack := None, p_state := UNUSED\<rparr>) s))"

definition fork_ready :: "nat \<Rightarrow> ptable \<Rightarrow> ptable" where
  "fork_ready np s = upd_proc np (\<lambda>v. v\<lparr>p_state := RUNNABLE\<rparr>) s"

definition fork_cwd :: "nat \<Rightarrow> nat \<Rightarrow> ptable \<Rightarrow> ptable" where
  "fork_cwd cur np s =
     (let s = (case p_cwd (procs s cur) of
                 None \<Rightarrow> s
               | Some ip \<Rightarrow> upd_proc np (\<lambda>v. v\<lparr>p_cwd := Some ip\<rparr>) (s\<lparr>kd := (kd s)\<lparr>dfs := idup ip (dfs (kd s))\<rparr>\<rparr>))
      in upd_proc np (\<lambda>v. v\<lparr>p_name := safestrcpy (p_name (procs s cur)) 16\<rparr>) s)"

text \<open>A process that runs has a page directory; through a null pointer the copy would read address 0.\<close>

definition fork :: "ksyms \<Rightarrow> nat \<Rightarrow> ptable \<Rightarrow> int pres" where
  "fork ks cur s =
     (case allocproc s of
        (None, s) \<Rightarrow> Done (- 1) s
      | (Some np, s) \<Rightarrow>
          xbind (case p_pgdir (procs s cur) of None \<Rightarrow> Panicked ''trap'' s | Some pd \<Rightarrow> onvm (copyuvm ks pd (p_sz (procs s cur))) s) (\<lambda>d s.
            case d of
              None \<Rightarrow> xbind (fork_fail ks np s) (\<lambda>_ s. Done (- 1) s)
            | Some d \<Rightarrow>
                xbind (fork_files cur np [0..<16] (fork_copy cur np d s)) (\<lambda>_ s.
                  let s = fork_cwd cur np s;
                      pid = p_pid (procs s np)
                  in Done pid (fork_ready np s))))"

text \<open>
  The first process. The trap frame has the selectors, flags and stack pointer of a process that starts
  at address 0; its fields are numbered as in x86.h, one per word.
\<close>

definition init_tf :: "nat \<Rightarrow> u32" where
  "init_tf = (\<lambda>_. 0)(15 := 0x1B, 11 := 0x23, 10 := 0x23, 18 := 0x23, 16 := 0x200, 17 := 4096)"

definition userinit :: "ksyms \<Rightarrow> u8 list \<Rightarrow> devsw \<Rightarrow> ptable \<Rightarrow> unit pres" where
  "userinit ks initcode dv s =
     (case allocproc s of
        (None, s) \<Rightarrow> Panicked ''trap'' s
      | (Some p, s) \<Rightarrow>
          xbind (onvm (setupkvm ks) (s\<lparr>initproc := p\<rparr>)) (\<lambda>d s.
            let s = upd_proc p (\<lambda>v. v\<lparr>p_pgdir := d\<rparr>) s
            in case d of
                 None \<Rightarrow> Panicked ''userinit: out of memory?'' s
               | Some d \<Rightarrow>
                   xbind (onvm (inituvm d initcode) s) (\<lambda>_ s.
                   let s = upd_proc p (\<lambda>v. v\<lparr>p_sz := PGSIZE, p_tf := init_tf, p_name := safestrcpy ''initcode'' 16\<rparr>) s
                   in xbind (onkd (onf (namei dv 0 [0x2F])) s) (\<lambda>ip s.
                        Done () (fork_ready p (upd_proc p (\<lambda>v. v\<lparr>p_cwd := ip\<rparr>) s))))))"

section \<open>Waking\<close>

definition wakeup1 :: "chan \<Rightarrow> ptable \<Rightarrow> ptable" where
  "wakeup1 ch s =
     s\<lparr>procs := (\<lambda>p. if p < NPROC \<and> p_state (procs s p) = SLEEPING \<and> p_chan (procs s p) = Some ch
                    then (procs s p)\<lparr>p_state := RUNNABLE\<rparr> else procs s p)\<rparr>"

definition wakeup :: "chan \<Rightarrow> ptable \<Rightarrow> ptable" where
  "wakeup ch s = wakeup1 ch s"

definition kill :: "int \<Rightarrow> ptable \<Rightarrow> int \<times> ptable" where
  "kill pid s =
     (case find (\<lambda>p. p_pid (procs s p) = pid) [0..<NPROC] of
        None \<Rightarrow> (- 1, s)
      | Some p \<Rightarrow> (0, upd_proc p (\<lambda>v. v\<lparr>p_killed := True, p_state := (if p_state v = SLEEPING then RUNNABLE else p_state v)\<rparr>) s))"

section \<open>Giving up the processor\<close>

text \<open>
  \<open>sched\<close> on processor \<open>c\<close>; the lock and the interrupt flag, which it also checks, are not part of the
  state. Then the scheduler's loop goes on with no process.
\<close>

definition sched :: "nat \<Rightarrow> nat \<Rightarrow> ptable \<Rightarrow> unit pres" where
  "sched c p s =
     (if p_state (procs s p) = RUNNING then Panicked ''sched running'' s
      else Done () (s\<lparr>cpu_proc := (cpu_proc s)(c := None)\<rparr>))"

definition yield :: "nat \<Rightarrow> nat \<Rightarrow> ptable \<Rightarrow> unit pres" where
  "yield c p s = sched c p (upd_proc p (\<lambda>v. v\<lparr>p_state := RUNNABLE\<rparr>) s)"

definition sleep :: "chan \<Rightarrow> nat \<Rightarrow> nat \<Rightarrow> ptable \<Rightarrow> unit pres" where
  "sleep ch c p s = sched c p (upd_proc p (\<lambda>v. v\<lparr>p_chan := Some ch, p_state := SLEEPING\<rparr>) s)"

text \<open>The end of \<open>sleep\<close>, when the process runs again.\<close>

definition sleep_end :: "nat \<Rightarrow> ptable \<Rightarrow> ptable" where
  "sleep_end p s = upd_proc p (\<lambda>v. v\<lparr>p_chan := None\<rparr>) s"

text \<open>The checks of \<open>switchuvm\<close> (vm.c); then it loads registers of the processor.\<close>

definition switchuvm :: "nat \<Rightarrow> ptable \<Rightarrow> unit pres" where
  "switchuvm p s =
     (if p_kstack (procs s p) = None then Panicked ''switchuvm: no kstack'' s
      else if p_pgdir (procs s p) = None then Panicked ''switchuvm: no pgdir'' s
      else Done () s)"

text \<open>One round of the scheduler's loop, at table entry \<open>p\<close>.\<close>

definition scheduler_round :: "nat \<Rightarrow> nat \<Rightarrow> ptable \<Rightarrow> unit pres" where
  "scheduler_round c p s =
     (if p_state (procs s p) \<noteq> RUNNABLE then Done () s
      else xbind (switchuvm p (s\<lparr>cpu_proc := (cpu_proc s)(c := Some p)\<rparr>)) (\<lambda>_ s.
             Done () (upd_proc p (\<lambda>v. v\<lparr>p_state := RUNNING\<rparr>) s)))"

definition growproc :: "ksyms \<Rightarrow> nat \<Rightarrow> int \<Rightarrow> ptable \<Rightarrow> int pres" where
  "growproc ks cur n s =
     (let sz = p_sz (procs s cur)
      in case p_pgdir (procs s cur) of
           None \<Rightarrow> Panicked ''trap'' s
         | Some pd \<Rightarrow>
             xbind (if n > 0 then onvm (allocuvm ks pd sz (sz + word_of_int n)) s
                    else if n < 0 then onvm (deallocuvm ks pd sz (sz + word_of_int n)) s
                    else Done sz s) (\<lambda>sz s.
               if n \<noteq> 0 \<and> sz = 0 then Done (- 1) s
               else let s = upd_proc cur (\<lambda>v. v\<lparr>p_sz := sz\<rparr>) s
                    in xbind (switchuvm cur s) (\<lambda>_ s. Done 0 s)))"

section \<open>The end of a process\<close>

primrec exit_files :: "nat \<Rightarrow> nat list \<Rightarrow> ptable \<Rightarrow> unit pres" where
  "exit_files cur [] s = Done () s"
| "exit_files cur (fd # fds) s =
     (case p_ofile (procs s cur) ! fd of
        None \<Rightarrow> exit_files cur fds s
      | Some f \<Rightarrow>
          xbind (onkd (fileclose f) s) (\<lambda>_ s.
            exit_files cur fds (upd_proc cur (\<lambda>v. v\<lparr>p_ofile := (p_ofile v)[fd := None]\<rparr>) s)))"

text \<open>The loop that passes the children to init.\<close>

primrec reparent :: "nat \<Rightarrow> nat list \<Rightarrow> ptable \<Rightarrow> ptable" where
  "reparent cur [] s = s"
| "reparent cur (p # ps) s =
     (if p_parent (procs s p) = Some cur
      then let s = upd_proc p (\<lambda>v. v\<lparr>p_parent := Some (initproc s)\<rparr>) s
           in reparent cur ps (if p_state (procs s p) = ZOMBIE then wakeup1 (ChProc (initproc s)) s else s)
      else reparent cur ps s)"

text \<open>The part of \<open>exit\<close> under \<open>ptable.lock\<close>.\<close>

definition exit_table :: "nat \<Rightarrow> nat \<Rightarrow> ptable \<Rightarrow> unit pres" where
  "exit_table c cur s =
     (let s = (case p_parent (procs s cur) of None \<Rightarrow> s | Some q \<Rightarrow> wakeup1 (ChProc q) s);
          s = reparent cur [0..<NPROC] s
      in sched c cur (upd_proc cur (\<lambda>v. v\<lparr>p_state := ZOMBIE\<rparr>) s))"

definition exit_cwd :: "nat \<Rightarrow> ptable \<Rightarrow> unit pres" where
  "exit_cwd cur s =
     xbind (onkd (onf f_begin_op) s) (\<lambda>_ s.
     xbind (case p_cwd (procs s cur) of None \<Rightarrow> Done () s | Some ip \<Rightarrow> onkd (onf (iput ip)) s) (\<lambda>_ s.
     xbind (onkd (onf f_end_op) s) (\<lambda>_ s.
       Done () (upd_proc cur (\<lambda>v. v\<lparr>p_cwd := None\<rparr>) s))))"

definition exit :: "nat \<Rightarrow> nat \<Rightarrow> ptable \<Rightarrow> unit pres" where
  "exit c cur s =
     (if cur = initproc s then Panicked ''init exiting'' s
      else xbind (exit_files cur [0..<16] s) (\<lambda>_ s.
           xbind (exit_cwd cur s) (\<lambda>_ s. exit_table c cur s)))"

section \<open>Waiting for a child\<close>

definition reap :: "ksyms \<Rightarrow> nat \<Rightarrow> ptable \<Rightarrow> unit pres" where
  "reap ks p s =
     xbind (case p_kstack (procs s p) of None \<Rightarrow> Panicked ''kfree'' s | Some k \<Rightarrow> onvm (kfree ks k) s) (\<lambda>_ s.
     xbind (onvm (freevm ks (p_pgdir (procs s p))) (upd_proc p (\<lambda>v. v\<lparr>p_kstack := None\<rparr>) s)) (\<lambda>_ s.
       Done () (upd_proc p (\<lambda>v. v\<lparr>p_pid := 0, p_parent := None, p_name := [], p_killed := False, p_state := UNUSED\<rparr>) s)))"

text \<open>The scan for an exited child: its index, or whether there are children.\<close>

fun wait_scan :: "nat \<Rightarrow> nat list \<Rightarrow> bool \<Rightarrow> ptable \<Rightarrow> nat option \<times> bool" where
  "wait_scan cur [] havekids s = (None, havekids)"
| "wait_scan cur (p # ps) havekids s =
     (if p_parent (procs s p) \<noteq> Some cur then wait_scan cur ps havekids s
      else if p_state (procs s p) = ZOMBIE then (Some p, True)
      else wait_scan cur ps True s)"

text \<open>One round of the loop of \<open>wait\<close>: it returns, or sleeps.\<close>

datatype wait_result = Waited int | Waits

definition wait :: "ksyms \<Rightarrow> nat \<Rightarrow> nat \<Rightarrow> ptable \<Rightarrow> wait_result pres" where
  "wait ks c cur s =
     (case wait_scan cur [0..<NPROC] False s of
        (Some p, _) \<Rightarrow> xbind (reap ks p s) (\<lambda>_ s'. Done (Waited (p_pid (procs s p))) s')
      | (None, havekids) \<Rightarrow>
          if \<not> havekids \<or> p_killed (procs s cur) then Done (Waited (- 1)) s
          else xbind (sleep (ChProc cur) c cur s) (\<lambda>_ s. Done Waits s))"

end
