(* ===== verification/XProcThms.thy ===== *)
theory XProcThms
  imports XProc
begin

text \<open>
  The process table under any interleaving of the steps of \<open>fork\<close>, \<open>exit\<close>, \<open>wait\<close>, \<open>kill\<close>, \<open>sleep\<close>, \<open>wakeup\<close>,
  \<open>yield\<close> and the schedulers of all processors.
\<close>

section \<open>Steps\<close>

abbreviation st :: "ptable \<Rightarrow> nat \<Rightarrow> procstate" where "st s p \<equiv> p_state (procs s p)"
abbreviation par :: "ptable \<Rightarrow> nat \<Rightarrow> nat option" where "par s p \<equiv> p_parent (procs s p)"
abbreviation pid :: "ptable \<Rightarrow> nat \<Rightarrow> int" where "pid s p \<equiv> p_pid (procs s p)"
abbreviation chn :: "ptable \<Rightarrow> nat \<Rightarrow> chan option" where "chn s p \<equiv> p_chan (procs s p)"

text \<open>
  \<open>fork\<close> is four steps: its lock is released between them, and its effects on files and memory come in
  between. \<open>own\<close> is any change of files, memory, and of fields that only their process uses.
\<close>

inductive pstep :: "ksyms \<Rightarrow> ptable \<Rightarrow> ptable \<Rightarrow> bool" for ks where
  alloc: "allocproc s = (r, s') \<Longrightarrow> pstep ks s s'"
| copy: "cpu_proc s c = Some cur \<Longrightarrow> np < NPROC \<Longrightarrow> st s np = EMBRYO \<Longrightarrow> par s np = None \<Longrightarrow> pstep ks s (fork_copy cur np d s)"
| fail: "np < NPROC \<Longrightarrow> st s np = EMBRYO \<Longrightarrow> par s np = None \<Longrightarrow> fork_fail ks np s = Done () s' \<Longrightarrow> pstep ks s s'"
| ready: "np < NPROC \<Longrightarrow> st s np = EMBRYO \<Longrightarrow> par s np \<noteq> None \<Longrightarrow> pstep ks s (fork_ready np s)"
| own: "(\<And>p. st s' p = st s p \<and> par s' p = par s p \<and> pid s' p = pid s p \<and> chn s' p = chn s p) \<Longrightarrow> cpu_proc s' = cpu_proc s \<Longrightarrow>
    nextpid s' = nextpid s \<Longrightarrow> initproc s' = initproc s \<Longrightarrow> pstep ks s s'"
| wake: "pstep ks s (wakeup ch s)"
| kills: "kill n s = (r, s') \<Longrightarrow> pstep ks s s'"
| yields: "cpu_proc s c = Some p \<Longrightarrow> yield c p s = Done () s' \<Longrightarrow> pstep ks s s'"
| sleeps: "cpu_proc s c = Some p \<Longrightarrow> sleep (ChAddr a) c p s = Done () s' \<Longrightarrow> pstep ks s s'"
| sleep_ends: "cpu_proc s c = Some p \<Longrightarrow> pstep ks s (sleep_end p s)"
| schedules: "cpu_proc s c = None \<Longrightarrow> p < NPROC \<Longrightarrow> scheduler_round c p s = Done () s' \<Longrightarrow> pstep ks s s'"
| exits: "cpu_proc s c = Some p \<Longrightarrow> p \<noteq> initproc s \<Longrightarrow> exit_table c p s = Done () s' \<Longrightarrow> pstep ks s s'"
| waits: "cpu_proc s c = Some p \<Longrightarrow> wait ks c p s = Done r s' \<Longrightarrow> pstep ks s s'"

inductive preach :: "ksyms \<Rightarrow> ptable \<Rightarrow> ptable \<Rightarrow> bool" for ks s where
  start: "preach ks s s"
| step: "preach ks s s' \<Longrightarrow> pstep ks s' s'' \<Longrightarrow> preach ks s s''"

section \<open>The invariant\<close>

definition alive :: "procstate \<Rightarrow> bool" where
  "alive x \<longleftrightarrow> x = SLEEPING \<or> x = RUNNABLE \<or> x = RUNNING"

text \<open>Processors and running processes correspond one to one.\<close>

definition cpus_ok :: "ptable \<Rightarrow> bool" where
  "cpus_ok s \<longleftrightarrow> (\<forall>c p. cpu_proc s c = Some p \<longrightarrow> p < NPROC \<and> st s p = RUNNING)
     \<and> (\<forall>c c' p. cpu_proc s c = Some p \<longrightarrow> cpu_proc s c' = Some p \<longrightarrow> c = c')
     \<and> (\<forall>p < NPROC. st s p = RUNNING \<longrightarrow> (\<exists>c. cpu_proc s c = Some p))"

text \<open>Process ids are positive, smaller than the next one, and no two processes share one.\<close>

definition pids_ok :: "ptable \<Rightarrow> bool" where
  "pids_ok s \<longleftrightarrow> 0 < nextpid s \<and> (\<forall>p < NPROC. pid s p < nextpid s)
     \<and> (\<forall>p < NPROC. st s p \<noteq> UNUSED \<longrightarrow> 0 < pid s p)
     \<and> (\<forall>p < NPROC. \<forall>q < NPROC. st s p \<noteq> UNUSED \<longrightarrow> st s q \<noteq> UNUSED \<longrightarrow> pid s p = pid s q \<longrightarrow> p = q)"

text \<open>
  A parent is alive, and another process: no process is the child of one that has exited. Of the processes
  that fork has finished, init and only init has no parent.
\<close>

definition parents_ok :: "ptable \<Rightarrow> bool" where
  "parents_ok s \<longleftrightarrow> initproc s < NPROC \<and> alive (st s (initproc s)) \<and> par s (initproc s) = None
     \<and> (\<forall>p < NPROC. \<forall>q. par s p = Some q \<longrightarrow> q < NPROC \<and> q \<noteq> p \<and> alive (st s q))
     \<and> (\<forall>p < NPROC. p \<noteq> initproc s \<longrightarrow> st s p \<noteq> UNUSED \<longrightarrow> st s p \<noteq> EMBRYO \<longrightarrow> par s p \<noteq> None)
     \<and> (\<forall>p < NPROC. st s p = UNUSED \<longrightarrow> par s p = None)"

text \<open>A process that sleeps on a process sleeps in \<open>wait\<close>, and has no child that has exited.\<close>

definition sleepers_ok :: "ptable \<Rightarrow> bool" where
  "sleepers_ok s \<longleftrightarrow> (\<forall>p < NPROC. \<forall>q. st s p = SLEEPING \<longrightarrow> chn s p = Some (ChProc q) \<longrightarrow>
     q = p \<and> (\<forall>z < NPROC. par s z = Some p \<longrightarrow> st s z \<noteq> ZOMBIE))"

definition pinv :: "ptable \<Rightarrow> bool" where
  "pinv s \<longleftrightarrow> cpus_ok s \<and> pids_ok s \<and> parents_ok s \<and> sleepers_ok s"

lemmas pinv_defs = pinv_def cpus_ok_def pids_ok_def parents_ok_def sleepers_ok_def

lemma alive_simps [simp]: "alive SLEEPING" "alive RUNNABLE" "alive RUNNING" "\<not> alive UNUSED" "\<not> alive EMBRYO" "\<not> alive ZOMBIE"
  by (simp_all add: alive_def)

lemma upd_proc_fields [simp]:
  "procs (upd_proc p g s) = (procs s)(p := g (procs s p))" "nextpid (upd_proc p g s) = nextpid s" "initproc (upd_proc p g s) = initproc s"
  "cpu_proc (upd_proc p g s) = cpu_proc s" "kd (upd_proc p g s) = kd s"
  by (simp_all add: upd_proc_def)

lemma set_vm_fields [simp]:
  "procs (set_vm v s) = procs s" "nextpid (set_vm v s) = nextpid s" "initproc (set_vm v s) = initproc s" "cpu_proc (set_vm v s) = cpu_proc s"
  by (simp_all add: set_vm_def)

lemma onvm_Done: "onvm m s = Done x s' \<longleftrightarrow> (\<exists>v. m (vm_of s) = Done x v \<and> s' = set_vm v s)"
  by (auto simp: onvm_def split: sres.split)

lemma onkd_Done: "onkd m s = Done x s' \<longleftrightarrow> (\<exists>d. m (kd s) = Done x d \<and> s' = s\<lparr>kd := d\<rparr>)"
  by (auto simp: onkd_def split: sres.split)

lemma cpus_okD:
  assumes "pinv s"
  shows "cpu_proc s c = Some p \<Longrightarrow> p < NPROC" "cpu_proc s c = Some p \<Longrightarrow> st s p = RUNNING"
    "cpu_proc s c = Some p \<Longrightarrow> cpu_proc s c' = Some p \<Longrightarrow> c = c'"
    "p < NPROC \<Longrightarrow> st s p = RUNNING \<Longrightarrow> \<exists>c. cpu_proc s c = Some p"
  using assms unfolding pinv_def cpus_ok_def by blast+

lemma pids_okD:
  assumes "pinv s"
  shows "0 < nextpid s" "p < NPROC \<Longrightarrow> pid s p < nextpid s" "p < NPROC \<Longrightarrow> st s p \<noteq> UNUSED \<Longrightarrow> 0 < pid s p"
    "p < NPROC \<Longrightarrow> q < NPROC \<Longrightarrow> st s p \<noteq> UNUSED \<Longrightarrow> st s q \<noteq> UNUSED \<Longrightarrow> pid s p = pid s q \<Longrightarrow> p = q"
  using assms unfolding pinv_def pids_ok_def by blast+

lemma parents_okD:
  assumes "pinv s"
  shows "initproc s < NPROC" "alive (st s (initproc s))" "p < NPROC \<Longrightarrow> par s p = Some q \<Longrightarrow> q < NPROC"
    "p < NPROC \<Longrightarrow> par s p = Some q \<Longrightarrow> alive (st s q)"
    "p < NPROC \<Longrightarrow> p \<noteq> initproc s \<Longrightarrow> st s p \<noteq> UNUSED \<Longrightarrow> st s p \<noteq> EMBRYO \<Longrightarrow> par s p \<noteq> None"
    "p < NPROC \<Longrightarrow> st s p = UNUSED \<Longrightarrow> par s p = None"
    "par s (initproc s) = None" "p < NPROC \<Longrightarrow> par s p = Some q \<Longrightarrow> q \<noteq> p"
  using assms unfolding pinv_def parents_ok_def by blast+

lemma sleepers_okD:
  assumes "pinv s"
  shows "p < NPROC \<Longrightarrow> st s p = SLEEPING \<Longrightarrow> chn s p = Some (ChProc q) \<Longrightarrow> q = p"
    "p < NPROC \<Longrightarrow> st s p = SLEEPING \<Longrightarrow> chn s p = Some (ChProc q) \<Longrightarrow> z < NPROC \<Longrightarrow> par s z = Some p \<Longrightarrow> st s z \<noteq> ZOMBIE"
  using assms unfolding pinv_def sleepers_ok_def by blast+

text \<open>What a change leaves of the parts it does not touch.\<close>

lemma cpus_same:
  assumes I: "pinv s" and c: "cpu_proc s' = cpu_proc s" and r: "\<And>p. st s' p = RUNNING \<longleftrightarrow> st s p = RUNNING"
  shows "cpus_ok s'"
  using I unfolding pinv_def cpus_ok_def c r by blast

lemma pids_same:
  assumes I: "pinv s" and n: "nextpid s' = nextpid s" and d: "\<And>p. pid s' p = pid s p" and u: "\<And>p. st s p = UNUSED \<Longrightarrow> st s' p = UNUSED"
  shows "pids_ok s'"
  unfolding pids_ok_def n d using pids_okD [OF I] u by blast

lemma sleepers_same:
  assumes I: "pinv s" and e: "\<And>p. par s' p = par s p" "\<And>p. st s' p = SLEEPING \<Longrightarrow> st s p = SLEEPING \<and> chn s' p = chn s p"
    "\<And>p. st s' p = ZOMBIE \<Longrightarrow> st s p = ZOMBIE"
  shows "sleepers_ok s'"
  unfolding sleepers_ok_def e(1)
proof (intro allI impI conjI)
  fix p q assume p: "p < NPROC" "st s' p = SLEEPING" "chn s' p = Some (ChProc q)"
  have s: "st s p = SLEEPING" "chn s p = Some (ChProc q)" using e(2) [OF p(2)] p(3) by simp_all
  show "q = p" by (rule sleepers_okD(1) [OF I p(1) s])
  show "st s' z \<noteq> ZOMBIE" if "z < NPROC" "par s z = Some p" for z using sleepers_okD(2) [OF I p(1) s that] e(3) by blast
qed

lemma parents_same:
  assumes I: "pinv s" and e: "\<And>p. par s' p = par s p" "initproc s' = initproc s" and al: "\<And>p. alive (st s p) \<Longrightarrow> alive (st s' p)"
    and no: "\<And>p. p < NPROC \<Longrightarrow> p \<noteq> initproc s \<Longrightarrow> par s p = None \<Longrightarrow> st s' p = UNUSED \<or> st s' p = EMBRYO"
    and un: "\<And>p. p < NPROC \<Longrightarrow> st s' p = UNUSED \<Longrightarrow> par s p = None"
  shows "parents_ok s'"
  unfolding parents_ok_def e using parents_okD(1-4,7,8) [OF I] al no un by blast

lemma pinv_own:
  assumes "\<And>p. st s' p = st s p \<and> par s' p = par s p \<and> pid s' p = pid s p \<and> chn s' p = chn s p" "cpu_proc s' = cpu_proc s"
    "nextpid s' = nextpid s" "initproc s' = initproc s" "pinv s"
  shows "pinv s'"
proof -
  have e: "\<And>p. st s' p = st s p" "\<And>p. par s' p = par s p" "\<And>p. pid s' p = pid s p" "\<And>p. chn s' p = chn s p" using assms(1) by simp_all
  show ?thesis using assms(5) unfolding pinv_defs e assms(2-4) by assumption
qed

text \<open>Sleepers are made runnable, wherever they slept.\<close>

definition woken :: "ptable \<Rightarrow> ptable \<Rightarrow> bool" where
  "woken s s' \<longleftrightarrow> (\<forall>p. pid s' p = pid s p \<and> chn s' p = chn s p \<and> (st s' p = st s p \<or> st s p = SLEEPING \<and> st s' p = RUNNABLE))
     \<and> cpu_proc s' = cpu_proc s \<and> nextpid s' = nextpid s \<and> initproc s' = initproc s"

lemma woken_trans: "woken s s' \<Longrightarrow> woken s' s'' \<Longrightarrow> woken s s''"
  unfolding woken_def by metis

lemma wokenD:
  assumes "woken s s'"
  shows "pid s' p = pid s p" "chn s' p = chn s p" "cpu_proc s' = cpu_proc s" "nextpid s' = nextpid s" "initproc s' = initproc s"
    "st s' p = RUNNING \<longleftrightarrow> st s p = RUNNING" "st s' p = UNUSED \<longleftrightarrow> st s p = UNUSED" "st s' p = EMBRYO \<longleftrightarrow> st s p = EMBRYO"
    "st s' p = ZOMBIE \<longleftrightarrow> st s p = ZOMBIE" "st s' p = SLEEPING \<Longrightarrow> st s p = SLEEPING" "alive (st s' p) \<longleftrightarrow> alive (st s p)"
proof -
  have e: "st s' p = st s p \<or> st s p = SLEEPING \<and> st s' p = RUNNABLE" "pid s' p = pid s p \<and> chn s' p = chn s p"
    "cpu_proc s' = cpu_proc s \<and> nextpid s' = nextpid s \<and> initproc s' = initproc s"
    using assms unfolding woken_def by blast+
  show "pid s' p = pid s p" "chn s' p = chn s p" "cpu_proc s' = cpu_proc s" "nextpid s' = nextpid s" "initproc s' = initproc s"
    using e(2,3) by simp_all
  show "st s' p = RUNNING \<longleftrightarrow> st s p = RUNNING" "st s' p = UNUSED \<longleftrightarrow> st s p = UNUSED" "st s' p = EMBRYO \<longleftrightarrow> st s p = EMBRYO"
    "st s' p = ZOMBIE \<longleftrightarrow> st s p = ZOMBIE" "st s' p = SLEEPING \<Longrightarrow> st s p = SLEEPING" "alive (st s' p) \<longleftrightarrow> alive (st s p)"
    using e(1) by auto
qed

lemma pinv_wake:
  assumes I: "pinv s" and w: "woken s s'" and par: "\<And>p. par s' p = par s p"
  shows "pinv s'"
proof -
  note d = wokenD [OF w]
  have "cpus_ok s'" by (rule cpus_same [OF I d(3,6)])
  moreover have "pids_ok s'" by (rule pids_same [OF I d(4,1)]) (use d(7) in blast)
  moreover have "parents_ok s'"
  proof (rule parents_same [OF I par d(5)])
    show "st s' p = UNUSED \<or> st s' p = EMBRYO" if "p < NPROC" "p \<noteq> initproc s" "par s p = None" for p
      using parents_okD(5) [OF I that(1,2)] that(3) d(7,8) by blast
    show "par s p = None" if "p < NPROC" "st s' p = UNUSED" for p using parents_okD(6) [OF I that(1)] that(2) d(7) by blast
  qed (use d(11) in blast)
  moreover have "sleepers_ok s'" by (rule sleepers_same [OF I par]) (use d(2,9,10) in blast)+
  ultimately show ?thesis by (simp add: pinv_def)
qed

lemma wakeup1_woken: "woken s (wakeup1 ch s)"
  by (simp add: wakeup1_def woken_def)

lemma wakeup1_par [simp]: "par (wakeup1 ch s) p = par s p"
  by (simp add: wakeup1_def)

lemma wakeup1_wakes: "p < NPROC \<Longrightarrow> chn s p = Some ch \<Longrightarrow> st (wakeup1 ch s) p \<noteq> SLEEPING"
  by (simp add: wakeup1_def)

lemma wakeup_pinv: "pinv s \<Longrightarrow> pinv (wakeup1 ch s)"
  by (rule pinv_wake [OF _ wakeup1_woken]) simp_all

lemma kill_pinv:
  assumes "pinv s" "kill n s = (r, s')"
  shows "pinv s'"
  by (rule pinv_wake [OF assms(1)]) (use assms(2) in \<open>auto simp: kill_def woken_def split: option.splits if_splits\<close>)

lemma alloc_pinv:
  assumes I: "pinv s" and a: "allocproc s = (r, s')"
  shows "pinv s'"
proof (cases "find (\<lambda>p. st s p = UNUSED) [0..<NPROC]")
  case None
  then show ?thesis using I a by (simp add: allocproc_def)
next
  case (Some p)
  have p: "p < NPROC" "st s p = UNUSED" using Some by (auto simp: find_Some_iff)
  have pn: "par s p = None" using I p by (simp add: pinv_def parents_ok_def)
  define x where "x = (if fst (kalloc (vm_of s)) = None then UNUSED else EMBRYO)"
  have x: "x = EMBRYO \<or> x = UNUSED" by (simp add: x_def)
  have s'_def: "s' = snd (allocproc s)" using a by simp
  have s': "st s' q = (if q = p then x else st s q)" "par s' q = par s q" "chn s' q = chn s q"
    "pid s' q = (if q = p then nextpid s else pid s q)" "cpu_proc s' = cpu_proc s" "nextpid s' = nextpid s + 1" "initproc s' = initproc s" for q
    using Some by (simp_all add: s'_def allocproc_def x_def Let_def kalloc_def vm_of_def split: list.split)
  have ne: "q \<noteq> p" if "alive (st s q)" for q using that p(2) by auto
  have "cpus_ok s'" by (rule cpus_same [OF I]) (use x p(2) s' in auto)
  moreover have "pids_ok s'"
    unfolding pids_ok_def s'
  proof (intro conjI allI impI)
    show "0 < nextpid s + 1" using pids_okD(1) [OF I] by simp
    show "(if q = p then nextpid s else pid s q) < nextpid s + 1" if "q < NPROC" for q using pids_okD(2) [OF I that] by simp
    show "0 < (if q = p then nextpid s else pid s q)" if "q < NPROC" "(if q = p then x else st s q) \<noteq> UNUSED" for q
      using that pids_okD(1,3) [OF I] by (cases "q = p") simp_all
    show "q = r" if "q < NPROC" "r < NPROC" "(if q = p then x else st s q) \<noteq> UNUSED" "(if r = p then x else st s r) \<noteq> UNUSED"
      "(if q = p then nextpid s else pid s q) = (if r = p then nextpid s else pid s r)" for q r
      using that pids_okD(2) [OF I, of q] pids_okD(2) [OF I, of r] pids_okD(4) [OF I, of q r] by (cases "q = p"; cases "r = p") simp_all
  qed
  moreover have "parents_ok s'"
  proof (rule parents_same [OF I])
    show "alive (st s' q)" if "alive (st s q)" for q using that ne s' by simp
    show "st s' q = UNUSED \<or> st s' q = EMBRYO" if "q < NPROC" "q \<noteq> initproc s" "par s q = None" for q
      using x parents_okD(5) [OF I that(1,2)] that(3) by (cases "q = p") (auto simp: s')
    show "par s q = None" if "q < NPROC" "st s' q = UNUSED" for q
      using that pn parents_okD(6) [OF I that(1)] by (cases "q = p") (auto simp: s')
  qed (use s' in simp_all)
  moreover have "sleepers_ok s'" by (rule sleepers_same [OF I]) (use x s' in \<open>auto split: if_splits\<close>)
  ultimately show ?thesis by (simp add: pinv_def)
qed

lemma copy_pinv:
  assumes I: "pinv s" and c: "cpu_proc s c = Some cur" and np: "np < NPROC" "st s np = EMBRYO" "par s np = None"
  shows "pinv (fork_copy cur np d s)"
proof -
  have cur: "cur < NPROC" "st s cur = RUNNING" using cpus_okD(1,2) [OF I c] by simp_all
  let ?s = "fork_copy cur np d s"
  have s': "st ?s q = st s q" "pid ?s q = pid s q" "chn ?s q = chn s q" "par ?s q = (if q = np then Some cur else par s q)"
    "cpu_proc ?s = cpu_proc s" "nextpid ?s = nextpid s" "initproc ?s = initproc s" for q
    by (simp_all add: fork_copy_def)
  have "parents_ok ?s"
    unfolding parents_ok_def s'
  proof (intro conjI allI impI)
    show "q < NPROC" "alive (st s q)" "q \<noteq> p" if "p < NPROC" "(if p = np then Some cur else par s p) = Some q" for p q
      using that cur np(2) parents_okD(3,4,8) [OF I that(1)] by (cases "p = np"; auto)+
    show "(if initproc s = np then Some cur else par s (initproc s)) = None" using parents_okD(2,7) [OF I] np(2) by auto
    show "(if p = np then Some cur else par s p) = None" if "p < NPROC" "st s p = UNUSED" for p
      using that np(2) parents_okD(6) [OF I that] by (cases "p = np") auto
  qed (use parents_okD(1,2,5) [OF I] in \<open>blast | simp\<close>)+
  moreover have "sleepers_ok ?s"
    unfolding sleepers_ok_def s'
  proof (intro conjI allI impI)
    show "st s z \<noteq> ZOMBIE" if "p < NPROC" "st s p = SLEEPING" "chn s p = Some (ChProc q)" "z < NPROC" "(if z = np then Some cur else par s z) = Some p" for p q z
      using that np(2) sleepers_okD(2) [OF I that(1-4)] by (cases "z = np") auto
  qed (use sleepers_okD [OF I] in blast)
  moreover have "cpus_ok ?s" by (rule cpus_same [OF I]) (use s' in simp_all)
  moreover have "pids_ok ?s" by (rule pids_same [OF I]) (use s' in simp_all)
  ultimately show ?thesis by (simp add: pinv_def)
qed

lemma fail_pinv:
  assumes I: "pinv s" and np: "np < NPROC" "st s np = EMBRYO" "par s np = None" and f: "fork_fail ks np s = Done u s'"
  shows "pinv s'"
proof -
  have s': "st s' q = (if q = np then UNUSED else st s q)" "pid s' q = pid s q" "chn s' q = chn s q" "par s' q = par s q"
    "cpu_proc s' = cpu_proc s" "nextpid s' = nextpid s" "initproc s' = initproc s" for q
    using f by (auto simp: fork_fail_def xbind_Done onvm_Done split: option.splits)
  have ne: "q \<noteq> np" if "alive (st s q)" for q using that np(2) by auto
  have "cpus_ok s'" by (rule cpus_same [OF I]) (use np(2) s' in auto)
  moreover have "pids_ok s'" by (rule pids_same [OF I]) (use s' in simp_all)
  moreover have "parents_ok s'"
  proof (rule parents_same [OF I])
    show "st s' q = UNUSED \<or> st s' q = EMBRYO" if "q < NPROC" "q \<noteq> initproc s" "par s q = None" for q
      using parents_okD(5) [OF I that(1,2)] that(3) by (cases "q = np") (auto simp: s')
    show "par s q = None" if "q < NPROC" "st s' q = UNUSED" for q
      using that np(3) parents_okD(6) [OF I that(1)] by (cases "q = np") (auto simp: s')
  qed (use s' ne in simp_all)
  moreover have "sleepers_ok s'" by (rule sleepers_same [OF I]) (use s' in \<open>auto split: if_splits\<close>)
  ultimately show ?thesis by (simp add: pinv_def)
qed

lemma ready_pinv:
  assumes I: "pinv s" and np: "np < NPROC" "st s np = EMBRYO" "par s np \<noteq> None"
  shows "pinv (fork_ready np s)"
proof -
  let ?s = "fork_ready np s"
  have s': "st ?s q = (if q = np then RUNNABLE else st s q)" "pid ?s q = pid s q" "chn ?s q = chn s q" "par ?s q = par s q"
    "cpu_proc ?s = cpu_proc s" "nextpid ?s = nextpid s" "initproc ?s = initproc s" for q
    by (simp_all add: fork_ready_def)
  have "cpus_ok ?s" by (rule cpus_same [OF I]) (use np(2) s' in auto)
  moreover have "pids_ok ?s" by (rule pids_same [OF I]) (use np(2) s' in auto)
  moreover have "parents_ok ?s"
  proof (rule parents_same [OF I])
    show "st ?s q = UNUSED \<or> st ?s q = EMBRYO" if "q < NPROC" "q \<noteq> initproc s" "par s q = None" for q
      using parents_okD(5) [OF I that(1,2)] that(3) np(3) by (cases "q = np") (auto simp: s')
    show "par s q = None" if "q < NPROC" "st ?s q = UNUSED" for q
      using that parents_okD(6) [OF I that(1)] by (cases "q = np") (auto simp: s')
  qed (use s' in simp_all)
  moreover have "sleepers_ok ?s" by (rule sleepers_same [OF I]) (use s' in \<open>auto split: if_splits\<close>)
  ultimately show ?thesis by (simp add: pinv_def)
qed

text \<open>The running process leaves its processor.\<close>

lemma cpus_leave:
  assumes I: "pinv s" and c: "cpu_proc s c = Some p" and c': "cpu_proc s' = (cpu_proc s)(c := None)"
    and r: "\<And>q. st s' q = RUNNING \<longleftrightarrow> st s q = RUNNING \<and> q \<noteq> p"
  shows "cpus_ok s'"
  unfolding cpus_ok_def c' r
proof (intro conjI allI impI)
  show "st s q = RUNNING" "q < NPROC" "q \<noteq> p" if "((cpu_proc s)(c := None)) d = Some q" for d q
    using that cpus_okD(1,2) [OF I, of d q] cpus_okD(3) [OF I c, of d] by (auto split: if_splits)
  show "d = d'" if "((cpu_proc s)(c := None)) d = Some q" "((cpu_proc s)(c := None)) d' = Some q" for d d' q
    using that cpus_okD(3) [OF I, of d q d'] by (auto split: if_splits)
  show "\<exists>d. ((cpu_proc s)(c := None)) d = Some q" if q: "q < NPROC" "st s q = RUNNING \<and> q \<noteq> p" for q
  proof -
    obtain d where "cpu_proc s d = Some q" using cpus_okD(4) [OF I q(1)] q(2) by blast
    then show ?thesis using c q by (intro exI [of _ d]) auto
  qed
qed

text \<open>The running process leaves its processor in another state that is alive.\<close>

lemma leave_pinv:
  assumes I: "pinv s" and c: "cpu_proc s c = Some p" and x: "x = RUNNABLE \<or> x = SLEEPING"
    and s': "\<And>q. st s' q = (if q = p then x else st s q)" "\<And>q. pid s' q = pid s q" "\<And>q. q \<noteq> p \<Longrightarrow> chn s' q = chn s q" "\<And>q. par s' q = par s q"
      "cpu_proc s' = (cpu_proc s)(c := None)" "nextpid s' = nextpid s" "initproc s' = initproc s"
    and w: "\<And>q. x = SLEEPING \<Longrightarrow> chn s' p = Some (ChProc q) \<Longrightarrow> q = p \<and> (\<forall>z < NPROC. par s z = Some p \<longrightarrow> st s z \<noteq> ZOMBIE)"
  shows "pinv s'"
proof -
  note p = cpus_okD(1,2) [OF I c]
  have "cpus_ok s'" by (rule cpus_leave [OF I c s'(5)]) (use x s'(1) in auto)
  moreover have "pids_ok s'" by (rule pids_same [OF I]) (use p s' in auto)
  moreover have "parents_ok s'"
  proof (rule parents_same [OF I])
    show "alive (st s' q)" if "alive (st s q)" for q using that x s'(1) by auto
    show "st s' q = UNUSED \<or> st s' q = EMBRYO" if "q < NPROC" "q \<noteq> initproc s" "par s q = None" for q
      using parents_okD(5) [OF I that(1,2)] that(3) p by (cases "q = p") (auto simp: s')
    show "par s q = None" if "q < NPROC" "st s' q = UNUSED" for q
      using that x parents_okD(6) [OF I that(1)] by (cases "q = p") (auto simp: s')
  qed (use s' in simp_all)
  moreover have "sleepers_ok s'"
    unfolding sleepers_ok_def s'(4)
  proof (intro allI impI conjI)
    fix r q assume r: "r < NPROC" "st s' r = SLEEPING" "chn s' r = Some (ChProc q)"
    have z: "st s' z \<noteq> ZOMBIE" if "st s z \<noteq> ZOMBIE" for z using that x s'(1) by auto
    show "q = r" using r w sleepers_okD(1) [OF I r(1)] s'(1) s'(3) [of r] by (cases "r = p") auto
    show "st s' z \<noteq> ZOMBIE" if "z < NPROC" "par s z = Some r" for z
      using r that w [of q] z [of z] sleepers_okD(2) [OF I r(1), of q z] s'(1) [of r] s'(3) [of r] by (cases "r = p") auto
  qed
  ultimately show ?thesis by (simp add: pinv_def)
qed

lemma schedule_pinv:
  assumes I: "pinv s" and c: "cpu_proc s c = None" and p: "p < NPROC" and x: "scheduler_round c p s = Done u s'"
  shows "pinv s'"
proof (cases "st s p = RUNNABLE")
  case False
  then show ?thesis using I x by (simp add: scheduler_round_def)
next
  case True
  have s': "st s' q = (if q = p then RUNNING else st s q)" "pid s' q = pid s q" "chn s' q = chn s q" "par s' q = par s q"
    "cpu_proc s' = (cpu_proc s)(c := Some p)" "nextpid s' = nextpid s" "initproc s' = initproc s" for q
    using True x by (auto simp: scheduler_round_def xbind_Done switchuvm_def split: if_splits)
  have np: "cpu_proc s d \<noteq> Some p" for d using True cpus_okD(2) [OF I, of d p] by auto
  have "cpus_ok s'"
    unfolding cpus_ok_def s'(5)
  proof (intro conjI allI impI)
    show "st s' q = RUNNING" "q < NPROC" if "((cpu_proc s)(c := Some p)) d = Some q" for d q
      using that p cpus_okD(1,2) [OF I, of d q] by (auto simp: s'(1) split: if_splits)
    show "d = d'" if "((cpu_proc s)(c := Some p)) d = Some q" "((cpu_proc s)(c := Some p)) d' = Some q" for d d' q
      using that np cpus_okD(3) [OF I, of d q d'] by (auto split: if_splits)
    show "\<exists>d. ((cpu_proc s)(c := Some p)) d = Some q" if q: "q < NPROC" "st s' q = RUNNING" for q
    proof (cases "q = p")
      case False
      then have "st s q = RUNNING" using q(2) s'(1) by simp
      then obtain d where "cpu_proc s d = Some q" using cpus_okD(4) [OF I q(1)] by blast
      then show ?thesis using c by (intro exI [of _ d]) auto
    qed auto
  qed
  moreover have "pids_ok s'" by (rule pids_same [OF I]) (use True s' in auto)
  moreover have "parents_ok s'"
  proof (rule parents_same [OF I])
    show "st s' q = UNUSED \<or> st s' q = EMBRYO" if "q < NPROC" "q \<noteq> initproc s" "par s q = None" for q
      using parents_okD(5) [OF I that(1,2)] that(3) True by (cases "q = p") (auto simp: s')
    show "par s q = None" if "q < NPROC" "st s' q = UNUSED" for q
      using that parents_okD(6) [OF I that(1)] by (cases "q = p") (auto simp: s')
  qed (use s' in simp_all)
  moreover have "sleepers_ok s'" by (rule sleepers_same [OF I]) (use s' in \<open>auto split: if_splits\<close>)
  ultimately show ?thesis by (simp add: pinv_def)
qed

section \<open>Exit\<close>

lemma reparent_woken: "woken s (reparent cur ps s)"
proof (induction ps arbitrary: s)
  case Nil
  then show ?case by (simp add: woken_def)
next
  case (Cons p ps)
  let ?u = "upd_proc p (\<lambda>v. v\<lparr>p_parent := Some (initproc s)\<rparr>) s"
  have u: "woken s ?u" by (simp add: woken_def)
  note step = woken_trans [OF u woken_trans [OF wakeup1_woken Cons.IH]] woken_trans [OF u Cons.IH]
  show ?case using Cons.IH step by (simp add: Let_def)
qed

lemma reparent_par: "par (reparent cur ps s) q = (if q \<in> set ps \<and> par s q = Some cur then Some (initproc s) else par s q)"
proof (induction ps arbitrary: s)
  case (Cons p ps)
  then show ?case by (auto simp: Let_def wokenD(5) [OF wakeup1_woken])
qed simp

text \<open>Init does not sleep on when it is given a child that has exited.\<close>

lemma reparent_wakes:
  assumes "z \<in> set ps" "par s z = Some cur" "st s z = ZOMBIE" "initproc s < NPROC" "chn s (initproc s) = Some (ChProc (initproc s))"
  shows "st (reparent cur ps s) (initproc s) \<noteq> SLEEPING"
  using assms
proof (induction ps arbitrary: s)
  case (Cons p ps)
  let ?u = "upd_proc p (\<lambda>v. v\<lparr>p_parent := Some (initproc s)\<rparr>) s"
  have ch: "chn ?u (initproc s) = Some (ChProc (initproc s))" using Cons.prems(5) by auto
  show ?case
  proof (cases "z = p")
    case True
    from wakeup1_wakes [OF Cons.prems(4) ch]
    have "st (wakeup1 (ChProc (initproc s)) ?u) (initproc s) \<noteq> SLEEPING" .
    then have "st (reparent cur ps (wakeup1 (ChProc (initproc s)) ?u)) (initproc s) \<noteq> SLEEPING" using wokenD(10) [OF reparent_woken] by blast
    then show ?thesis using True Cons.prems(2,3) by (simp add: Let_def)
  next
    case False
    then have z: "z \<in> set ps" using Cons.prems(1) by simp
    have "woken s ?u" by (simp add: woken_def)
    note d = wokenD [OF woken_trans [OF this wakeup1_woken]]
    have "st (reparent cur ps ?u) (initproc s) \<noteq> SLEEPING" using Cons.IH [OF z, of ?u] ch Cons.prems(2-4) False by simp
    then show ?thesis
      using Cons.IH [OF z, of s] Cons.IH [OF z, of "wakeup1 (ChProc (initproc s)) ?u"] Cons.prems(2-5) False d(2,5,9)
      by (simp add: Let_def)
  qed
qed simp

lemma exit_pinv:
  assumes I: "pinv s" and c: "cpu_proc s c = Some cur" and ni: "cur \<noteq> initproc s" and x: "exit_table c cur s = Done u s'"
  shows "pinv s'"
proof -
  define s1 where "s1 = (case par s cur of None \<Rightarrow> s | Some q \<Rightarrow> wakeup1 (ChProc q) s)"
  define s2 where "s2 = reparent cur [0..<NPROC] s1"
  have w1: "woken s s1" using wakeup1_woken by (simp add: s1_def woken_def split: option.split)
  have w: "woken s s2" unfolding s2_def by (rule woken_trans [OF w1 reparent_woken])
  note d = wokenD [OF w]
  note cur = cpus_okD(1,2) [OF I c]
  have par1: "par s1 q = par s q" for q by (simp add: s1_def split: option.split)
  have s'_def: "s' = (upd_proc cur (\<lambda>v. v\<lparr>p_state := ZOMBIE\<rparr>) s2)\<lparr>cpu_proc := (cpu_proc s2)(c := None)\<rparr>"
    using x by (simp add: exit_table_def s1_def [symmetric] s2_def [symmetric] Let_def sched_def)
  have s': "st s' q = (if q = cur then ZOMBIE else st s2 q)" "pid s' q = pid s q" "chn s' q = chn s q"
    "par s' q = (if q < NPROC \<and> par s q = Some cur then Some (initproc s) else par s q)"
    "cpu_proc s' = (cpu_proc s)(c := None)" "nextpid s' = nextpid s" "initproc s' = initproc s" for q
    using d(1-5) wokenD(5) [OF w1] by (simp_all add: s'_def) (simp add: s2_def reparent_par par1)
  have nc: "par s cur \<noteq> Some cur" using parents_okD(8) [OF I cur(1)] by blast
  have "cpus_ok s'" by (rule cpus_leave [OF I c s'(5)]) (use d(6) in \<open>auto simp: s'(1)\<close>)
  moreover have "pids_ok s'" by (rule pids_same [OF I s'(6) s'(2)]) (use d(7) cur(2) in \<open>auto simp: s'(1)\<close>)
  moreover have "parents_ok s'"
    unfolding parents_ok_def s'(7)
  proof (intro conjI allI impI)
    show "alive (st s' (initproc s))" using ni parents_okD(2) [OF I] d(11) by (simp add: s'(1))
    show "q < NPROC" "q \<noteq> p" "alive (st s' q)" if p: "p < NPROC" "par s' p = Some q" for p q
      using p ni parents_okD(1,2,7) [OF I] parents_okD(3,4,8) [OF I p(1)] d(11) by (auto simp: s'(1,4) split: if_splits)
    show "par s' p \<noteq> None" if p: "p < NPROC" "p \<noteq> initproc s" "st s' p \<noteq> UNUSED" "st s' p \<noteq> EMBRYO" for p
      using p parents_okD(5) [OF I p(1,2)] d(7,8) cur(2) by (auto simp: s'(1,4) split: if_splits)
    show "par s' p = None" if "p < NPROC" "st s' p = UNUSED" for p
      using that parents_okD(6) [OF I that(1)] d(7) by (auto simp: s'(1,4) split: if_splits)
  qed (use parents_okD(1,7) [OF I] in \<open>simp_all add: s'(4)\<close>)
  moreover have "sleepers_ok s'"
    unfolding sleepers_ok_def
  proof (intro allI impI conjI)
    fix p q assume p: "p < NPROC" "st s' p = SLEEPING" "chn s' p = Some (ChProc q)"
    have p2: "st s2 p = SLEEPING" "p \<noteq> cur" using p(2) by (auto simp: s'(1) split: if_splits)
    have ch: "chn s p = Some (ChProc q)" using p(3) s'(3) by simp
    have sp: "st s p = SLEEPING" using d(10) p2(1) by blast
    show qp: "q = p" by (rule sleepers_okD(1) [OF I p(1) sp ch])
    show "st s' z \<noteq> ZOMBIE" if z: "z < NPROC" "par s' z = Some p" for z
    proof
      assume zz: "st s' z = ZOMBIE"
      show False
      proof (cases "z = cur")
        case True
        then have "par s cur = Some p" using z nc by (simp add: s'(4))
        then have "st s1 p \<noteq> SLEEPING" using wakeup1_wakes [OF p(1)] ch qp by (simp add: s1_def)
        then show False using p2(1) wokenD(10) [OF reparent_woken] unfolding s2_def by blast
      next
        case False
        then have zs: "st s z = ZOMBIE" using zz d(9) by (simp add: s'(1))
        show False
        proof (cases "par s z = Some cur")
          case True
          then have pi: "p = initproc s1" using z wokenD(5) [OF w1] by (simp add: s'(4))
          have "st s2 (initproc s1) \<noteq> SLEEPING"
            unfolding s2_def by (rule reparent_wakes [of z]) (use True z(1) zs par1 pi p(1) ch qp wokenD(2,9) [OF w1] in auto)
          then show False using p2(1) pi by simp
        next
          case False
          then have "par s z = Some p" using z by (simp add: s'(4))
          then show False using sleepers_okD(2) [OF I p(1) sp ch z(1)] zs by blast
        qed
      qed
    qed
  qed
  ultimately show ?thesis by (simp add: pinv_def)
qed

section \<open>Wait\<close>

lemma wait_scan_None: "fst (wait_scan cur ps k s) = None \<longleftrightarrow> (\<forall>p \<in> set ps. par s p = Some cur \<longrightarrow> st s p \<noteq> ZOMBIE)"
  by (induction cur ps k s rule: wait_scan.induct) auto

lemma wait_scan_Some: "fst (wait_scan cur ps k s) = Some p \<Longrightarrow> p \<in> set ps \<and> par s p = Some cur \<and> st s p = ZOMBIE"
  by (induction cur ps k s rule: wait_scan.induct) (auto split: if_splits)

lemma wait_scan_kids: "wait_scan cur ps k s = (None, k') \<Longrightarrow> k' \<longleftrightarrow> k \<or> (\<exists>p \<in> set ps. par s p = Some cur)"
  by (induction cur ps k s rule: wait_scan.induct) (auto split: if_splits)

lemma reap_fields:
  assumes "reap ks p s = Done u s'"
  shows "st s' q = (if q = p then UNUSED else st s q)" "pid s' q = (if q = p then 0 else pid s q)" "chn s' q = chn s q"
    "par s' q = (if q = p then None else par s q)" "cpu_proc s' = cpu_proc s" "nextpid s' = nextpid s" "initproc s' = initproc s"
  using assms by (auto simp: reap_def xbind_Done onvm_Done split: option.splits)

lemma reap_pinv:
  assumes I: "pinv s" and p: "p < NPROC" "st s p = ZOMBIE" and r: "reap ks p s = Done u s'"
  shows "pinv s'"
proof -
  note s' = reap_fields [OF r]
  have ne: "q \<noteq> p" if "alive (st s q)" for q using that p(2) by auto
  have "cpus_ok s'" by (rule cpus_same [OF I]) (use p(2) s' in auto)
  moreover have "pids_ok s'"
    unfolding pids_ok_def s'
  proof (intro conjI allI impI)
    show "(if q = p then 0 else pid s q) < nextpid s" if "q < NPROC" for q using pids_okD(1,2) [OF I] that by simp
    show "0 < (if q = p then 0 else pid s q)" if "q < NPROC" "(if q = p then UNUSED else st s q) \<noteq> UNUSED" for q
      using that pids_okD(3) [OF I that(1)] by (cases "q = p") simp_all
    show "q = r" if "q < NPROC" "r < NPROC" "(if q = p then UNUSED else st s q) \<noteq> UNUSED" "(if r = p then UNUSED else st s r) \<noteq> UNUSED"
      "(if q = p then 0 else pid s q) = (if r = p then 0 else pid s r)" for q r
      using that pids_okD(4) [OF I that(1,2)] by (cases "q = p"; cases "r = p") simp_all
  qed (rule pids_okD(1) [OF I])
  moreover have "parents_ok s'"
    unfolding parents_ok_def s'(5-7)
  proof (intro conjI allI impI)
    show "alive (st s' (initproc s))" using ne [OF parents_okD(2) [OF I]] parents_okD(2) [OF I] by (simp add: s')
    show "r < NPROC" "r \<noteq> q" "alive (st s' r)" if q: "q < NPROC" "par s' q = Some r" for q r
      using q ne parents_okD(3,4,8) [OF I q(1)] by (auto simp: s' split: if_splits)
    show "par s' q \<noteq> None" if q: "q < NPROC" "q \<noteq> initproc s" "st s' q \<noteq> UNUSED" "st s' q \<noteq> EMBRYO" for q
      using q parents_okD(5) [OF I q(1,2)] by (cases "q = p") (simp_all add: s')
    show "par s' q = None" if q: "q < NPROC" "st s' q = UNUSED" for q
      using q parents_okD(6) [OF I q(1)] by (cases "q = p") (simp_all add: s')
  qed (use parents_okD(1,7) [OF I] in \<open>simp_all add: s'\<close>)
  moreover have "sleepers_ok s'"
    unfolding sleepers_ok_def
  proof (intro allI impI conjI)
    fix q r assume q: "q < NPROC" "st s' q = SLEEPING" "chn s' q = Some (ChProc r)"
    have sq: "st s q = SLEEPING" "chn s q = Some (ChProc r)" using q(2,3) by (auto simp: s' split: if_splits)
    show "r = q" by (rule sleepers_okD(1) [OF I q(1) sq])
    show "st s' z \<noteq> ZOMBIE" if "z < NPROC" "par s' z = Some q" for z
      using that sleepers_okD(2) [OF I q(1) sq that(1)] by (auto simp: s' split: if_splits)
  qed
  ultimately show ?thesis by (simp add: pinv_def)
qed

lemma sleep_pinv:
  assumes I: "pinv s" and c: "cpu_proc s c = Some p" and sl: "sleep ch c p s = Done u s'"
    and w: "\<And>q. ch = ChProc q \<Longrightarrow> q = p \<and> (\<forall>z < NPROC. par s z = Some p \<longrightarrow> st s z \<noteq> ZOMBIE)"
  shows "pinv s'"
  by (rule leave_pinv [OF I c, where x = SLEEPING]) (use sl w in \<open>auto simp: sleep_def sched_def split: if_splits\<close>)

lemma yield_pinv:
  assumes I: "pinv s" and c: "cpu_proc s c = Some p" and y: "yield c p s = Done u s'"
  shows "pinv s'"
  by (rule leave_pinv [OF I c, where x = RUNNABLE]) (use y in \<open>auto simp: yield_def sched_def split: if_splits\<close>)

lemma wait_pinv:
  assumes I: "pinv s" and c: "cpu_proc s c = Some cur" and x: "wait ks c cur s = Done r s'"
  shows "pinv s'"
proof -
  obtain ch k where ok: "wait_scan cur [0..<NPROC] False s = (ch, k)" by fastforce
  show ?thesis
  proof (cases ch)
    case (Some p)
    then have "p < NPROC" "st s p = ZOMBIE" using wait_scan_Some [of cur "[0..<NPROC]" False s p] ok by auto
    then show ?thesis using reap_pinv [OF I] x ok Some by (auto simp: wait_def xbind_Done)
  next
    case None
    then have z: "\<forall>z < NPROC. par s z = Some cur \<longrightarrow> st s z \<noteq> ZOMBIE" using wait_scan_None [of cur "[0..<NPROC]" False s] ok by simp
    show ?thesis
    proof (cases "\<not> k \<or> p_killed (procs s cur)")
      case True
      then show ?thesis using I x ok None by (simp add: wait_def)
    next
      case False
      have "\<exists>u. sleep (ChProc cur) c cur s = Done u s'"
        using x ok None False by (auto simp: wait_def xbind_Done)
      then show ?thesis using sleep_pinv [OF I c] z by blast
    qed
  qed
qed

lemma sleep_end_pinv:
  assumes I: "pinv s" and c: "cpu_proc s c = Some p"
  shows "pinv (sleep_end p s)"
proof -
  let ?s = "sleep_end p s"
  have s': "st ?s q = st s q" "pid ?s q = pid s q" "chn ?s q = (if q = p then None else chn s q)" "par ?s q = par s q"
    "cpu_proc ?s = cpu_proc s" "nextpid ?s = nextpid s" "initproc ?s = initproc s" for q
    by (simp_all add: sleep_end_def)
  have "cpus_ok ?s" by (rule cpus_same [OF I]) (simp_all add: s')
  moreover have "pids_ok ?s" by (rule pids_same [OF I]) (simp_all add: s')
  moreover have "parents_ok ?s"
    by (rule parents_same [OF I], unfold s') (use parents_okD(5,6) [OF I] in blast)+
  moreover have "sleepers_ok ?s" by (rule sleepers_same [OF I]) (use s' cpus_okD(2) [OF I c] in auto)
  ultimately show ?thesis by (simp add: pinv_def)
qed

section \<open>The invariant holds\<close>

lemma step_pinv:
  assumes "pstep ks s s'" "pinv s"
  shows "pinv s'"
  using assms
proof (induction rule: pstep.induct)
  case (alloc s r s') then show ?case using alloc_pinv by blast
next
  case (copy s c cur np d) then show ?case using copy_pinv by blast
next
  case (fail np s s') then show ?case using fail_pinv by blast
next
  case (ready np s) then show ?case using ready_pinv by blast
next
  case (own s' s) then show ?case using pinv_own by blast
next
  case (wake s ch) then show ?case using wakeup_pinv by (simp add: wakeup_def)
next
  case (kills n s r s') then show ?case using kill_pinv by blast
next
  case (yields s c p s') then show ?case using yield_pinv by blast
next
  case (sleeps s c p a s') then show ?case using sleep_pinv by blast
next
  case (sleep_ends s c p) then show ?case using sleep_end_pinv by blast
next
  case (schedules s c p s') then show ?case using schedule_pinv by blast
next
  case (exits s c p s') then show ?case using exit_pinv by blast
next
  case (waits s c p r s') then show ?case using wait_pinv by blast
qed

lemma reach_pinv: "preach ks s s' \<Longrightarrow> pinv s \<Longrightarrow> pinv s'"
  by (induction rule: preach.induct) (auto intro: step_pinv)

section \<open>The calls are sequences of these steps\<close>

lemma preach_trans: "preach ks s' s'' \<Longrightarrow> preach ks s s' \<Longrightarrow> preach ks s s''"
  by (induction rule: preach.induct) (auto intro: preach.step)

text \<open>What changes only fields that belong to their process, files and memory.\<close>

definition own_only :: "ptable \<Rightarrow> ptable \<Rightarrow> bool" where
  "own_only s s' \<longleftrightarrow> (\<forall>p. st s' p = st s p \<and> par s' p = par s p \<and> pid s' p = pid s p \<and> chn s' p = chn s p)
     \<and> cpu_proc s' = cpu_proc s \<and> nextpid s' = nextpid s \<and> initproc s' = initproc s"

lemma own_only_refl: "own_only s s"
  by (simp add: own_only_def)

lemma own_only_trans: "own_only s s' \<Longrightarrow> own_only s' s'' \<Longrightarrow> own_only s s''"
  by (simp add: own_only_def)

lemma own_only_step: "own_only s s' \<Longrightarrow> preach ks s s'"
  unfolding own_only_def by (rule preach.step [OF preach.start pstep.own]) blast+

lemma own_only_kd: "own_only s (s\<lparr>kd := d\<rparr>)" and own_only_vm: "own_only s (set_vm v s)"
  by (simp_all add: own_only_def)

lemma own_only_upd:
  "p_state (g (procs s p)) = st s p \<Longrightarrow> p_parent (g (procs s p)) = par s p \<Longrightarrow> p_pid (g (procs s p)) = pid s p \<Longrightarrow>
   p_chan (g (procs s p)) = chn s p \<Longrightarrow> own_only s (upd_proc p g s)"
  by (simp add: own_only_def)

lemma fork_files_own_only: "fork_files cur np is s = Done u s' \<Longrightarrow> own_only s s'"
proof (induction "is" arbitrary: s)
  case Nil
  then show ?case by (simp add: own_only_refl)
next
  case (Cons i "is")
  show ?case
  proof (cases "p_ofile (procs s cur) ! i")
    case None
    then show ?thesis using Cons by simp
  next
    case (Some f)
    then obtain g d where "fork_files cur np is (upd_proc np (\<lambda>v. v\<lparr>p_ofile := (p_ofile v)[i := Some g]\<rparr>) (s\<lparr>kd := d\<rparr>)) = Done u s'"
      using Cons.prems by (auto simp: xbind_Done onkd_Done)
    note IH = Cons.IH [OF this]
    have "own_only (s\<lparr>kd := d\<rparr>) (upd_proc np (\<lambda>v. v\<lparr>p_ofile := (p_ofile v)[i := Some g]\<rparr>) (s\<lparr>kd := d\<rparr>))"
      by (rule own_only_upd) simp_all
    then show ?thesis using own_only_trans [OF own_only_kd] own_only_trans IH by blast
  qed
qed

lemma exit_files_own_only: "exit_files cur fds s = Done u s' \<Longrightarrow> own_only s s'"
proof (induction fds arbitrary: s)
  case Nil
  then show ?case by (simp add: own_only_refl)
next
  case (Cons fd fds)
  show ?case
  proof (cases "p_ofile (procs s cur) ! fd")
    case None
    then show ?thesis using Cons by simp
  next
    case (Some f)
    then obtain d where "exit_files cur fds (upd_proc cur (\<lambda>v. v\<lparr>p_ofile := (p_ofile v)[fd := None]\<rparr>) (s\<lparr>kd := d\<rparr>)) = Done u s'"
      using Cons.prems by (auto simp: xbind_Done onkd_Done)
    note IH = Cons.IH [OF this]
    have "own_only (s\<lparr>kd := d\<rparr>) (upd_proc cur (\<lambda>v. v\<lparr>p_ofile := (p_ofile v)[fd := None]\<rparr>) (s\<lparr>kd := d\<rparr>))"
      by (rule own_only_upd) simp_all
    then show ?thesis using own_only_trans [OF own_only_kd] own_only_trans IH by blast
  qed
qed

lemma fork_cwd_own_only: "own_only s (fork_cwd cur np s)"
proof -
  have "own_only s (case p_cwd (procs s cur) of None \<Rightarrow> s
      | Some ip \<Rightarrow> upd_proc np (\<lambda>v. v\<lparr>p_cwd := Some ip\<rparr>) (s\<lparr>kd := (kd s)\<lparr>dfs := idup ip (dfs (kd s))\<rparr>\<rparr>))" (is "own_only s ?t")
    by (simp add: own_only_def split: option.split)
  moreover have "own_only ?t (upd_proc np (\<lambda>v. v\<lparr>p_name := safestrcpy (p_name (procs ?t cur)) 16\<rparr>) ?t)" by (rule own_only_upd) simp_all
  ultimately show ?thesis unfolding fork_cwd_def Let_def by (rule own_only_trans)
qed

lemma exit_cwd_own_only: "exit_cwd cur s = Done u s' \<Longrightarrow> own_only s s'"
  by (auto simp: exit_cwd_def xbind_Done onkd_Done own_only_def split: option.splits)

lemma exit_steps:
  assumes c: "cpu_proc s c = Some cur" and x: "exit c cur s = Done u s'"
  shows "preach ks s s'"
proof -
  obtain v w s1 s2 where e: "cur \<noteq> initproc s" "exit_files cur [0..<16] s = Done v s1" "exit_cwd cur s1 = Done w s2" "exit_table c cur s2 = Done u s'"
    using x by (auto simp: exit_def xbind_Done split: if_splits)
  have p: "own_only s s2" using own_only_trans [OF exit_files_own_only [OF e(2)] exit_cwd_own_only [OF e(3)]] .
  then have "cpu_proc s2 c = Some cur" "cur \<noteq> initproc s2" using c e(1) by (simp_all add: own_only_def)
  then show ?thesis using preach.step [OF own_only_step [OF p] pstep.exits] e(4) by simp
qed

lemma fork_steps:
  assumes I: "pinv s" and c: "cpu_proc s c = Some cur" and x: "fork ks cur s = Done r s'"
  shows "preach ks s s'"
proof -
  obtain o1 s1 where a: "allocproc s = (o1, s1)" by fastforce
  have r1: "preach ks s s1" by (rule preach.step [OF preach.start pstep.alloc [OF a]])
  show ?thesis
  proof (cases o1)
    case None
    then show ?thesis using x a r1 by (simp add: fork_def)
  next
    case (Some np)
    have np: "np < NPROC" "st s1 np = EMBRYO" "par s1 np = par s np" "st s np = UNUSED" "cpu_proc s1 = cpu_proc s"
      using a Some by (auto simp: allocproc_def kalloc_def Let_def find_Some_iff split: option.splits list.splits)
    have pn: "par s1 np = None" using np(3) parents_okD(6) [OF I np(1,4)] by simp
    obtain pd d v where d: "copyuvm ks pd (p_sz (procs s1 cur)) (vm_of s1) = Done d v"
        "(case d of None \<Rightarrow> xbind (fork_fail ks np (set_vm v s1)) (\<lambda>_ s. Done (- 1) s)
          | Some d \<Rightarrow> xbind (fork_files cur np [0..<16] (fork_copy cur np d (set_vm v s1))) (\<lambda>_ s.
              let s = fork_cwd cur np s; pid = p_pid (procs s np) in Done pid (fork_ready np s))) = Done r s'"
      using x a Some by (auto simp: fork_def xbind_Done onvm_Done split: option.splits)
    have r2: "preach ks s (set_vm v s1)" by (rule preach_trans [OF own_only_step [OF own_only_vm] r1])
    show ?thesis
    proof (cases d)
      case None
      then have "fork_fail ks np (set_vm v s1) = Done () s'" using d(2) by (auto simp: xbind_Done)
      then show ?thesis using preach.step [OF r2 pstep.fail] np pn by simp
    next
      case (Some d)
      let ?s2 = "fork_copy cur np d (set_vm v s1)"
      have r3: "preach ks s ?s2" by (rule preach.step [OF r2 pstep.copy]) (use np pn c in auto)
      obtain w s3 where f: "fork_files cur np [0..<16] ?s2 = Done w s3" "s' = fork_ready np (fork_cwd cur np s3)"
        using d(2) Some by (auto simp: xbind_Done Let_def)
      note pr = own_only_trans [OF fork_files_own_only [OF f(1)] fork_cwd_own_only [of s3 cur np]]
      have "st ?s2 np = EMBRYO" "par ?s2 np = Some cur" using np by (simp_all add: fork_copy_def)
      then have "st (fork_cwd cur np s3) np = EMBRYO" "par (fork_cwd cur np s3) np \<noteq> None" using pr by (simp_all add: own_only_def)
      then show ?thesis using preach.step [OF preach_trans [OF own_only_step [OF pr] r3] pstep.ready] np(1) f(2) by simp
    qed
  qed
qed

section \<open>Properties\<close>


text \<open>The table when the first process is ready, and after a scheduler has found it.\<close>

definition ex_proc :: "procstate \<Rightarrow> int \<Rightarrow> proc" where
  "ex_proc x n = \<lparr>p_sz = 0x1000, p_pgdir = Some 1, p_kstack = Some 2, p_state = x, p_pid = n, p_parent = None, p_tf = init_tf, p_chan = None,
     p_killed = False, p_ofile = replicate 16 None, p_cwd = None, p_name = []\<rparr>"

definition ex_pt :: "dstate \<Rightarrow> ptable" where
  "ex_pt d = \<lparr>procs = (\<lambda>p. if p = 0 then ex_proc RUNNABLE 1 else ex_proc UNUSED 0), nextpid = 2, initproc = 0, cpu_proc = (\<lambda>_. None),
     pmem = (\<lambda>_ _. 0), kd = d\<rparr>"

lemma ex_pinv: "pinv (ex_pt d)"
  unfolding pinv_def cpus_ok_def pids_ok_def parents_ok_def sleepers_ok_def by (simp add: ex_pt_def ex_proc_def NPROC_def)




text \<open>
  \<open>kill\<close> does not ask for a process that exists: on an unused entry it sets \<open>killed\<close>, which \<open>allocproc\<close> keeps, and the next process
  that gets the entry dies.
\<close>

lemma kill_hits_next_fork:
  assumes "find (\<lambda>p. st s p = UNUSED) [0..<NPROC] = Some p" "find (\<lambda>p. pid s p = 0) [0..<NPROC] = Some p" "kill 0 s = (r, s1)" "allocproc s1 = (Some q, s2)"
  shows "r = 0 \<and> q = p \<and> p_killed (procs s2 q)"
proof -
  have u: "st s p = UNUSED" using assms(1) by (auto simp: find_Some_iff)
  have s1: "r = 0" "s1 = upd_proc p (\<lambda>v. v\<lparr>p_killed := True, p_state := (if p_state v = SLEEPING then RUNNABLE else p_state v)\<rparr>) s"
    using assms(2,3) by (simp_all add: kill_def)
  have "st s1 x = st s x" for x using u by (simp add: s1(2))
  then have "find (\<lambda>p. st s1 p = UNUSED) [0..<NPROC] = Some p" using assms(1) by simp
  then show ?thesis using assms(4) s1 by (auto simp: allocproc_def Let_def kalloc_def split: list.splits)
qed

text \<open>Giving all memory back frees it, and returns -1 with the old size.\<close>

lemma growproc_to_nothing:
  assumes "p_pgdir (procs s cur) = Some pd" "p_sz (procs s cur) \<noteq> 0" "deallocuvm ks pd (p_sz (procs s cur)) 0 (vm_of s) = Done 0 v"
  shows "growproc ks cur (- int (unat (p_sz (procs s cur)))) s = Done (- 1) (set_vm v s)"
proof -
  let ?z = "p_sz (procs s cur)"
  have "?z + word_of_int (- int (unat ?z)) = 0" by simp
  moreover have "0 < uint ?z" using assms(2) uint_nonnegative [of ?z] uint_0_iff [of ?z] by linarith
  ultimately show ?thesis using assms(1,3) by (simp add: growproc_def onvm_def Let_def)
qed

end
