(* ===== verification/Spec2Isabelle.thy ===== *)
theory Spec2Isabelle
  imports TrapThms MonitorThms XLogSpace XPipe XDirThms XShThms XSysThms XFdThms XProcThms
begin

text \<open>
  Two teaching operating systems for 32-bit x86 machines live in this repository: JOS
  (src/mit6828/lab), a kernel with the structure of an exokernel, and xv6
  (src/mit6828/xv6/xv6-public), a small Unix. This library models the parts of both that carry their
  own logic and proves them correct. Theories whose name starts with X are about xv6, the others
  about JOS; Prelude has the word types, the collections of simplification rules and the lemmas on
  lists, words and loops that all of them share.

  \<^bold>\<open>JOS.\<close> The kernel keeps physical pages with reference counts, two-level page tables, a table of
  environments (processes), one lock, and a console. User code enters it by traps.

  \<^item> Mmu, PageEntry: inc/mmu.h, inc/memlayout.h: addresses as 32-bit words, their decomposition,
    rounding, and page table entries, also for xv6.
  \<^item> ConsOut, Picirq, Console: kern/console.c, kern/picirq.c, kern/kclock.c. The devices are part of
    the state; the input buffer is a FIFO of 511 characters, the cursor stays on the screen.
  \<^item> KState: the state of the kernel as a record (pages, environments, CPUs, lock), with a result type
    that separates return, panic, the ways of leaving the kernel, faults, and loops that do not end.
  \<^item> Pmap, PageInv, PmapProps, AddrSpace, PmapThms: kern/pmap.c. The invariant \<open>page_inv\<close> accounts for
    every page: the free list is a list without repetition, and the reference count of a page is the
    number of page table entries and directories that refer to it. Mapping and unmapping refine an
    update of a map from virtual pages to entries; the free lists of pages and of environments are
    interpretations of one locale of linked stacks (\<open>free_list\<close>).
  \<^item> Spinlock: kern/spinlock.c, as a sequential operation and as a step relation of the memory accesses
    of several CPUs, with mutual exclusion for every interleaving.
  \<^item> UserMem, UserCheck, UserStore: user memory through the page tables, the check of user ranges and
    its gap at the top of the address space, and what a store into user memory changes.
  \<^item> Env, EnvInv, EnvAlloc, EnvFree, Sched, KInv: kern/env.c, kern/sched.c: environments, their ids and
    free list, round robin and fairness of the scheduler, and the invariant of the whole kernel.
  \<^item> Syscall, SysMem, SysEnv: kern/syscall.c. Every system call keeps the kernel invariant, with any
    arguments and however it ends; the memory calls, \<open>sys_exofork\<close> and IPC do what they promise.
  \<^item> CMem, CString, Printfmt, PrintThms: lib/string.c, lib/printfmt.c, kern/printf.c, lib/printf.c: byte
    memory, string functions against reference definitions, the formatter against an output device.
  \<^item> Trap, TrapThms: kern/trap.c: dispatch, gates, the page fault upcall; every trap keeps the invariant.
  \<^item> Kdebug, Monitor, MonitorThms: kern/kdebug.c, kern/monitor.c, lib/readline.c.

  \<^bold>\<open>xv6.\<close> The layers of the file system, from the disk up, the files and system calls above them,
  memory, processes, and the shell. A function is modelled as a run of one process to its end, to a panic, or to the point
  where it sleeps (\<open>Done\<close>, \<open>Panicked\<close>, \<open>Sleeping\<close>); spin locks, which only make such runs atomic, have no
  state, except where the order of steps matters (the log's reservations, pipes and processes are
  step relations over interleaved calls).

  \<^item> XBuf, XBufInv: bio.c, sleeplock.c, ide.c: the buffer cache, with the contract \<open>binv\<close> under which a
    block that is read, changed, written and released behaves as one cell of a disk (\<open>view\<close>).
  \<^item> XLog, XLogThms, XLogSpace: log.c. A transaction is atomic across a crash after any of its writes
    (the locale \<open>redo_log\<close> has the argument, the code's loops interpret it), and the space that \<open>begin_op\<close>
    reserves is enough when the log has a block more than the one mkfs makes.
  \<^item> XFs, XFsInv, XBlocks, XInode, XFile, XFileThms: fs.c: block and inode allocation, the inode cache,
    reading and writing files. \<open>txn\<close> is a running transaction; \<open>readi\<close> and \<open>writei\<close> refine the list of
    the file's bytes.
  \<^item> XDir, XDirThms: directories as tables, path names.
  \<^item> XPipe: pipe.c: a FIFO of 512 bytes with wrapping counters (locale \<open>ring_queue\<close>).
  \<^item> XFd, XFdThms, XArg, XSysfile, XSysThms: file.c, the arguments of syscall.c, sysfile.c: open files
    and the system calls on them; reference counts are the numbers of descriptors, and a write that
    has returned is on the disk.
  \<^item> XVm: kalloc.c, vm.c: the page allocator and the address spaces of processes.
  \<^item> XProc, XProcThms: proc.c: the process table under the interleaved steps of system calls and
    schedulers; no wake-up of a waiting parent is lost, and every exited process has a parent to wait for it.
  \<^item> XSh, XShThms: the parser of sh.c: it reads back every command that is printed, in any layout.

  \<^bold>\<open>Fuel and bounds.\<close> Loops are structural or have a termination proof. Loops that need not end (the
  monitor, \<open>readline\<close>, a lock that is not released) are partial functions or have a result of their own.
  Two functions have fuel: the parser of the shell, whose bound \<open>fuel_for\<close> (four calls per
  character) is proved to be enough for every line, and \<open>deallocuvm_loop\<close>, which gets one round for each page
  of the address space. Integers keep their width: 32-bit words wrap
  around, and the theorems say so where it matters.

  \<^bold>\<open>Not modelled.\<close> Booting and the interrupt and APIC hardware, assembly code, the self-checks at the
  end of pmap.c, user programs and test suites, mkfs, the consoles and \<open>exec\<close> of xv6, the user library
  of JOS above the system calls, and the digital circuits under src/edc, which are Verilog: they are
  device accesses, tests, tables that are generated, or code in other languages. The manifest lists
  each with its reason.
\<close>

end
